(* ===== verification/Prelude.thy ===== *)
theory Prelude
  imports Main "HOL-Library.Word"
begin

text \<open>
  Shared vocabulary of the development: the machine integer types of the LP64 build, byte
  sequences in little-endian order, and the generic facts on lists and words that the
  component theories use.
\<close>

unbundle bit_operations_syntax

section \<open>Machine types\<close>

type_synonym u8 = "8 word"
type_synonym u16 = "16 word"
type_synonym u32 = "32 word"
type_synonym u64 = "64 word"

text \<open>Collections filled by the component theories.\<close>

named_theorems c_defs \<open>definitions of the C library functions the sources call\<close>
named_theorems len_simps \<open>lengths of the byte sequences the operations produce\<close>

section \<open>Little-endian byte sequences\<close>

text \<open>A 32-bit load from, and store to, four consecutive bytes.\<close>

fun le32 :: "u8 list \<Rightarrow> u32" where
  "le32 (b0 # b1 # b2 # b3 # _) =
     ucast b0 OR push_bit 8 (ucast b1) OR push_bit 16 (ucast b2) OR push_bit 24 (ucast b3)"
| "le32 _ = 0"

definition bytes32 :: "u32 \<Rightarrow> u8 list" where
  "bytes32 w = [ucast w, ucast (drop_bit 8 w), ucast (drop_bit 16 w), ucast (drop_bit 24 w)]"

lemma length_bytes32 [simp, len_simps]: "length (bytes32 w) = 4"
  by (simp add: bytes32_def)

lemma le32_bytes32 [simp]: "le32 (bytes32 w @ xs) = w"
proof (rule bit_word_eqI)
  fix n
  assume "n < LENGTH(32)"
  then have n: "n < 32" by simp
  then consider "n < 8" | "8 \<le> n" "n < 16" | "16 \<le> n" "n < 24" | "24 \<le> n" "n < 32"
    by linarith
  then show "bit (le32 (bytes32 w @ xs)) n \<longleftrightarrow> bit w n"
    by cases (auto simp: bytes32_def bit_simps)
qed

section \<open>Lists\<close>

text \<open>The consecutive blocks of \<open>n\<close> elements of a list; a shorter rest is left out.\<close>

function chunks :: "nat \<Rightarrow> 'a list \<Rightarrow> 'a list list" where
  "chunks n xs = (if n = 0 \<or> length xs < n then [] else take n xs # chunks n (drop n xs))"
  by pat_completeness auto
termination
  by (relation "measure (\<lambda>(n, xs). length xs)") auto

declare chunks.simps [simp del]

lemma chunks_short: "length xs < n \<Longrightarrow> chunks n xs = []"
  by (simp add: chunks.simps [of n xs])

lemma chunks_step:
  "0 < n \<Longrightarrow> length xs = n \<Longrightarrow> chunks n (xs @ ys) = xs # chunks n ys"
  by (simp add: chunks.simps [of n "xs @ ys"])

lemma chunks_append:
  assumes "0 < n" and "n dvd length xs"
  shows "chunks n (xs @ ys) = chunks n xs @ chunks n ys"
  using assms
proof (induction n xs rule: chunks.induct)
  case (1 n xs)
  show ?case
  proof (cases "xs = []")
    case True
    with 1 show ?thesis by (simp add: chunks_short)
  next
    case False
    with 1 have le: "n \<le> length xs" by (simp add: dvd_imp_le)
    have "n dvd length (drop n xs)" using 1 le by (simp add: dvd_diff_nat)
    with 1 le have IH: "chunks n (drop n xs @ ys) = chunks n (drop n xs) @ chunks n ys"
      by simp
    show ?thesis
      using IH le 1 by (simp add: chunks.simps [of n "xs @ ys"] chunks.simps [of n xs])
  qed
qed

lemma length_chunks_elem: "c \<in> set (chunks n xs) \<Longrightarrow> length c = n"
proof (induction n xs rule: chunks.induct)
  case (1 n xs)
  then show ?case
    by (cases "n = 0 \<or> length xs < n") (auto simp: chunks.simps [of n xs])
qed

lemma take_mult_div_append:
  "take (length xs div n * n) xs @ drop (length xs div n * n) xs = (xs :: 'a list)"
  by simp

section \<open>Words\<close>

lemma bit_ucast_word:
  "bit (ucast (w :: 'a::len word) :: 'b::len word) n \<longleftrightarrow> n < LENGTH('b) \<and> bit w n"
  by (auto simp: bit_simps dest: bit_imp_le_length)

lemma ucast_ucast_32_64 [simp]: "ucast (ucast (w :: u32) :: u64) = w"
  by (rule bit_word_eqI) (auto simp: bit_ucast_word)

lemma unat_below: "unat (a :: u64) < 2 ^ 64"
  using unsigned_less [of a] by simp

lemma unat_plus_1:
  assumes "(a :: u64) < b"
  shows "unat (a + 1) = Suc (unat a)"
proof -
  have "Suc (unat a) < 2 ^ 64" using assms unat_below [of b] by (simp add: word_less_nat_alt)
  then show ?thesis by (simp add: unat_word_ariths)
qed

lemma unat_ucast_32_64 [simp]: "unat (ucast (w :: u32) :: u64) = unat w"
proof -
  have "unat w < 2 ^ LENGTH(32)" by (rule unsigned_less)
  then have "unat w < 2 ^ 64" by simp
  then show ?thesis by (simp add: unsigned_ucast_eq take_bit_nat_eq_self)
qed

end
