(* ===== verification/Md5.thy ===== *)
theory Md5
  imports Prelude
begin

text \<open>
  The message digest of \<open>matrix-android-commons/src/main/cpp/md5/md5.c\<close>, in the LP64 build:
  \<open>unsigned long\<close> has 64 bits, so the block function computes in 64-bit registers whose
  upper halves hold carries, and stores 32-bit words back into the context.
  The theory translates the routines and relates them to a reference digest that works on
  32-bit words and pads the message as a whole.
\<close>

section \<open>The program\<close>

text \<open>The context. The array \<open>data\<close> is kept as its 64 bytes.\<close>

record md5_t =
  md5_A :: u32
  md5_B :: u32
  md5_C :: u32
  md5_D :: u32
  md5_Nl :: u32
  md5_Nh :: u32
  md5_data :: "u8 list"
  md5_num :: u32

definition MD5_CBLOCK :: nat where "MD5_CBLOCK = 64"
definition MD5_SIZE :: nat where "MD5_SIZE = 16"

text \<open>The macros, over \<open>unsigned long\<close>.\<close>

definition HOST_c2l :: "u8 list \<Rightarrow> u64" where
  "HOST_c2l c = ucast (le32 c)"

definition md5_F :: "u64 \<Rightarrow> u64 \<Rightarrow> u64 \<Rightarrow> u64" where
  "md5_F b c d = ((c XOR d) AND b) XOR d"
definition md5_G :: "u64 \<Rightarrow> u64 \<Rightarrow> u64 \<Rightarrow> u64" where
  "md5_G b c d = ((b XOR c) AND d) XOR c"
definition md5_H :: "u64 \<Rightarrow> u64 \<Rightarrow> u64 \<Rightarrow> u64" where
  "md5_H b c d = b XOR c XOR d"
definition md5_I :: "u64 \<Rightarrow> u64 \<Rightarrow> u64 \<Rightarrow> u64" where
  "md5_I b c d = (NOT d OR b) XOR c"

definition md5_ROTATE :: "u64 \<Rightarrow> nat \<Rightarrow> u64" where
  "md5_ROTATE a n = push_bit n a OR drop_bit (32 - n) (a AND 0xffffffff)"

text \<open>The four round macros differ in the mixing function only.\<close>

datatype md5_round = R0 | R1 | R2 | R3

fun md5_mix :: "md5_round \<Rightarrow> u64 \<Rightarrow> u64 \<Rightarrow> u64 \<Rightarrow> u64" where
  "md5_mix R0 = md5_F"
| "md5_mix R1 = md5_G"
| "md5_mix R2 = md5_H"
| "md5_mix R3 = md5_I"

definition md5_R :: "md5_round \<Rightarrow> u64 \<Rightarrow> u64 \<Rightarrow> u64 \<Rightarrow> u64 \<Rightarrow> u64 \<Rightarrow> nat \<Rightarrow> u64 \<Rightarrow> u64" where
  "md5_R r a b c d k s t = md5_ROTATE (a + (k + t + md5_mix r b c d)) s + b"

text \<open>
  The 64 statements of the block function in program order: the round macro, the index of
  the message word, the rotation and the constant. The register arguments run through
  \<open>(A, B, C, D)\<close>, \<open>(D, A, B, C)\<close>, \<open>(C, D, A, B)\<close>, \<open>(B, C, D, A)\<close> and start again.
\<close>

definition md5_steps :: "(md5_round \<times> nat \<times> nat \<times> u64) list" where
  "md5_steps =
    [(R0, 0, 7, 0xd76aa478), (R0, 1, 12, 0xe8c7b756), (R0, 2, 17, 0x242070db), (R0, 3, 22, 0xc1bdceee),
     (R0, 4, 7, 0xf57c0faf), (R0, 5, 12, 0x4787c62a), (R0, 6, 17, 0xa8304613), (R0, 7, 22, 0xfd469501),
     (R0, 8, 7, 0x698098d8), (R0, 9, 12, 0x8b44f7af), (R0, 10, 17, 0xffff5bb1), (R0, 11, 22, 0x895cd7be),
     (R0, 12, 7, 0x6b901122), (R0, 13, 12, 0xfd987193), (R0, 14, 17, 0xa679438e), (R0, 15, 22, 0x49b40821),
     (R1, 1, 5, 0xf61e2562), (R1, 6, 9, 0xc040b340), (R1, 11, 14, 0x265e5a51), (R1, 0, 20, 0xe9b6c7aa),
     (R1, 5, 5, 0xd62f105d), (R1, 10, 9, 0x02441453), (R1, 15, 14, 0xd8a1e681), (R1, 4, 20, 0xe7d3fbc8),
     (R1, 9, 5, 0x21e1cde6), (R1, 14, 9, 0xc33707d6), (R1, 3, 14, 0xf4d50d87), (R1, 8, 20, 0x455a14ed),
     (R1, 13, 5, 0xa9e3e905), (R1, 2, 9, 0xfcefa3f8), (R1, 7, 14, 0x676f02d9), (R1, 12, 20, 0x8d2a4c8a),
     (R2, 5, 4, 0xfffa3942), (R2, 8, 11, 0x8771f681), (R2, 11, 16, 0x6d9d6122), (R2, 14, 23, 0xfde5380c),
     (R2, 1, 4, 0xa4beea44), (R2, 4, 11, 0x4bdecfa9), (R2, 7, 16, 0xf6bb4b60), (R2, 10, 23, 0xbebfbc70),
     (R2, 13, 4, 0x289b7ec6), (R2, 0, 11, 0xeaa127fa), (R2, 3, 16, 0xd4ef3085), (R2, 6, 23, 0x04881d05),
     (R2, 9, 4, 0xd9d4d039), (R2, 12, 11, 0xe6db99e5), (R2, 15, 16, 0x1fa27cf8), (R2, 2, 23, 0xc4ac5665),
     (R3, 0, 6, 0xf4292244), (R3, 7, 10, 0x432aff97), (R3, 14, 15, 0xab9423a7), (R3, 5, 21, 0xfc93a039),
     (R3, 12, 6, 0x655b59c3), (R3, 3, 10, 0x8f0ccc92), (R3, 10, 15, 0xffeff47d), (R3, 1, 21, 0x85845dd1),
     (R3, 8, 6, 0x6fa87e4f), (R3, 15, 10, 0xfe2ce6e0), (R3, 6, 15, 0xa3014314), (R3, 13, 21, 0x4e0811a1),
     (R3, 4, 6, 0xf7537e82), (R3, 11, 10, 0xbd3af235), (R3, 2, 15, 0x2ad7d2bb), (R3, 9, 21, 0xeb86d391)]"

fun md5_run :: "(nat \<Rightarrow> u64) \<Rightarrow> (md5_round \<times> nat \<times> nat \<times> u64) list \<Rightarrow>
    u64 \<times> u64 \<times> u64 \<times> u64 \<Rightarrow> u64 \<times> u64 \<times> u64 \<times> u64" where
  "md5_run X [] (a, b, c, d) = (a, b, c, d)"
| "md5_run X ((r, k, s, t) # rest) (a, b, c, d) =
     md5_run X rest (d, md5_R r a b c d (X k) s t, b, c)"

text \<open>
  One iteration of the loop: the sixteen message words are read, the 64 statements run, and
  the registers are added into the context. The loop then goes on with the next block.
\<close>

definition md5_block1 :: "md5_t \<Rightarrow> u8 list \<Rightarrow> md5_t" where
  "md5_block1 c blk =
     (let X = (\<lambda>i. HOST_c2l (drop (4 * i) blk));
          (A, B, C, D) = md5_run X md5_steps
            (ucast (md5_A c), ucast (md5_B c), ucast (md5_C c), ucast (md5_D c))
      in c\<lparr>md5_A := ucast (ucast (md5_A c) + A), md5_B := ucast (ucast (md5_B c) + B),
           md5_C := ucast (ucast (md5_C c) + C), md5_D := ucast (ucast (md5_D c) + D)\<rparr>)"

fun md5_block_data_order :: "md5_t \<Rightarrow> u8 list \<Rightarrow> nat \<Rightarrow> md5_t" where
  "md5_block_data_order c data 0 = c"
| "md5_block_data_order c data (Suc num) =
     md5_block_data_order (md5_block1 c (take 64 data)) (drop 64 data) num"

definition MD5_init :: md5_t where
  "MD5_init = \<lparr>md5_A = 0x67452301, md5_B = 0xefcdab89, md5_C = 0x98badcfe, md5_D = 0x10325476,
     md5_Nl = 0, md5_Nh = 0, md5_data = replicate 64 0, md5_num = 0\<rparr>"

text \<open>\<open>memcpy\<close> and \<open>memset\<close> into a buffer at an offset.\<close>

definition memcpy_at :: "u8 list \<Rightarrow> nat \<Rightarrow> u8 list \<Rightarrow> u8 list" where
  "memcpy_at p n src = take n p @ src @ drop (n + length src) p"

text \<open>
  \<open>mem\<close> is what the pointer \<open>data_\<close> addresses and \<open>len\<close> the \<open>unsigned int\<close> length. The
  update has three parts: the bit count, kept in two 32-bit words; the completion of a
  pending block; and whole blocks straight from the input, the rest going to the buffer.
\<close>

definition md5_count :: "md5_t \<Rightarrow> u32 \<Rightarrow> md5_t" where
  "md5_count c len =
     (let l = md5_Nl c + push_bit 3 len;
          c1 = (if l < md5_Nl c then c\<lparr>md5_Nh := md5_Nh c + 1\<rparr> else c)
      in c1\<lparr>md5_Nh := md5_Nh c1 + drop_bit 29 len, md5_Nl := l\<rparr>)"

definition md5_tail :: "md5_t \<Rightarrow> u8 list \<Rightarrow> md5_t" where
  "md5_tail c data =
     (let n = length data div MD5_CBLOCK;
          c = (if 0 < n then md5_block_data_order c data n else c);
          data = drop (n * MD5_CBLOCK) data
      in if data \<noteq> [] then
           c\<lparr>md5_num := of_nat (length data), md5_data := memcpy_at (md5_data c) 0 data\<rparr>
         else c)"

definition MD5_process :: "md5_t \<Rightarrow> u8 list \<Rightarrow> u32 \<Rightarrow> md5_t" where
  "MD5_process c0 mem len =
     (if len = 0 then c0
      else
        let data = take (unat len) mem;
            c = md5_count c0 len;
            n = unat (md5_num c)
        in
        if n \<noteq> 0 then
          if MD5_CBLOCK \<le> unat len \<or> MD5_CBLOCK \<le> unat len + n then
            let p = memcpy_at (md5_data c) n (take (MD5_CBLOCK - n) data);
                c' = md5_block_data_order (c\<lparr>md5_data := p\<rparr>) p 1
            in md5_tail (c'\<lparr>md5_num := 0, md5_data := replicate 64 0\<rparr>)
                 (drop (MD5_CBLOCK - n) data)
          else c\<lparr>md5_data := memcpy_at (md5_data c) n data, md5_num := md5_num c + len\<rparr>
        else md5_tail c data)"

text \<open>Finishing returns the context and the sixteen bytes written to the caller's buffer.\<close>

definition MD5_finish :: "md5_t \<Rightarrow> md5_t \<times> u8 list" where
  "MD5_finish c =
     (let n = unat (md5_num c);
          p = memcpy_at (md5_data c) n [0x80];
          n = n + 1;
          (c, p, n) =
            (if n > MD5_CBLOCK - 8 then
               let p = memcpy_at p n (replicate (MD5_CBLOCK - n) 0)
               in (md5_block_data_order c p 1, p, 0)
             else (c, p, n));
          p = memcpy_at p n (replicate (MD5_CBLOCK - 8 - n) 0);
          p = memcpy_at p (MD5_CBLOCK - 8) (bytes32 (md5_Nl c));
          p = memcpy_at p (MD5_CBLOCK - 4) (bytes32 (md5_Nh c));
          c = md5_block_data_order c p 1;
          c = c\<lparr>md5_num := 0, md5_data := replicate 64 0\<rparr>
      in (c, bytes32 (md5_A c) @ bytes32 (md5_B c) @ bytes32 (md5_C c) @ bytes32 (md5_D c)))"

definition MD5_buffer :: "u8 list \<Rightarrow> u32 \<Rightarrow> u8 list" where
  "MD5_buffer buffer buf_len = snd (MD5_finish (MD5_process MD5_init buffer buf_len))"

text \<open>
  The hexadecimal form. The caller's array has \<open>2 * MD5_SIZE\<close> characters; the loop stops
  before it would pass the end, and a terminator is written only where room is left.
\<close>

definition HEX_STRING :: string where
  "HEX_STRING = ''0123456789abcdef''"

fun sig_chars :: "nat \<Rightarrow> u8 list \<Rightarrow> string" where
  "sig_chars room [] = []"
| "sig_chars room (s # sig) =
     (if room < 2 then []
      else HEX_STRING ! unat (s div 16) # HEX_STRING ! unat (s mod 16)
           # sig_chars (room - 2) sig)"

definition MD5_sig_to_string :: "u8 list \<Rightarrow> string" where
  "MD5_sig_to_string sig =
     (let out = sig_chars (2 * MD5_SIZE) (take MD5_SIZE sig)
      in if length out < 2 * MD5_SIZE then out @ [CHR 0x00] else out)"

text \<open>
  The position of a character in the table, as \<open>strchr(hex, ch) - hex\<close>: the terminator is
  part of the searched string, and a character that is not found has no position.
\<close>

definition hex_pos :: "char \<Rightarrow> int option" where
  "hex_pos ch = map_option int (find (\<lambda>i. (HEX_STRING @ [CHR 0x00]) ! i = ch) [0..<17])"

fun sig_bytes :: "string \<Rightarrow> u8 list option" where
  "sig_bytes (c1 # c2 # cs) =
     (case (hex_pos c1, hex_pos c2, sig_bytes cs) of
        (Some high, Some low, Some rest) \<Rightarrow> Some (word_of_int (high * 16 + low) # rest)
      | _ \<Rightarrow> None)"
| "sig_bytes _ = Some []"

definition MD5_sig_from_string :: "string \<Rightarrow> u8 list option" where
  "MD5_sig_from_string str =
     (if length str < 2 * MD5_SIZE then None else sig_bytes (take (2 * MD5_SIZE) str))"

section \<open>The reference digest\<close>

text \<open>
  The digest of RFC 1321 on 32-bit words: step \<open>i\<close> of 64 uses the mixing function of its
  round, the message word, the rotation and the constant that the RFC gives for \<open>i\<close>.
\<close>

definition ref_mix :: "nat \<Rightarrow> u32 \<Rightarrow> u32 \<Rightarrow> u32 \<Rightarrow> u32" where
  "ref_mix i x y z =
     (if i < 16 then (x AND y) OR (NOT x AND z)
      else if i < 32 then (x AND z) OR (y AND NOT z)
      else if i < 48 then x XOR y XOR z
      else y XOR (x OR NOT z))"

definition ref_word :: "nat \<Rightarrow> nat" where
  "ref_word i =
     (if i < 16 then i else if i < 32 then (5 * i + 1) mod 16
      else if i < 48 then (3 * i + 5) mod 16 else (7 * i) mod 16)"

definition ref_shift :: "nat \<Rightarrow> nat" where
  "ref_shift i = ([[7, 12, 17, 22], [5, 9, 14, 20], [4, 11, 16, 23], [6, 10, 15, 21]]
     ! (i div 16)) ! (i mod 4)"

definition ref_T :: "u32 list" where
  "ref_T =
    [0xd76aa478, 0xe8c7b756, 0x242070db, 0xc1bdceee, 0xf57c0faf, 0x4787c62a, 0xa8304613, 0xfd469501,
     0x698098d8, 0x8b44f7af, 0xffff5bb1, 0x895cd7be, 0x6b901122, 0xfd987193, 0xa679438e, 0x49b40821,
     0xf61e2562, 0xc040b340, 0x265e5a51, 0xe9b6c7aa, 0xd62f105d, 0x02441453, 0xd8a1e681, 0xe7d3fbc8,
     0x21e1cde6, 0xc33707d6, 0xf4d50d87, 0x455a14ed, 0xa9e3e905, 0xfcefa3f8, 0x676f02d9, 0x8d2a4c8a,
     0xfffa3942, 0x8771f681, 0x6d9d6122, 0xfde5380c, 0xa4beea44, 0x4bdecfa9, 0xf6bb4b60, 0xbebfbc70,
     0x289b7ec6, 0xeaa127fa, 0xd4ef3085, 0x04881d05, 0xd9d4d039, 0xe6db99e5, 0x1fa27cf8, 0xc4ac5665,
     0xf4292244, 0x432aff97, 0xab9423a7, 0xfc93a039, 0x655b59c3, 0x8f0ccc92, 0xffeff47d, 0x85845dd1,
     0x6fa87e4f, 0xfe2ce6e0, 0xa3014314, 0x4e0811a1, 0xf7537e82, 0xbd3af235, 0x2ad7d2bb, 0xeb86d391]"

type_synonym digest = "u32 \<times> u32 \<times> u32 \<times> u32"

definition ref_step :: "u8 list \<Rightarrow> nat \<Rightarrow> digest \<Rightarrow> digest" where
  "ref_step blk i = (\<lambda>(a, b, c, d).
     (d, b + word_rotl (ref_shift i) (a + ref_mix i b c d + le32 (drop (4 * ref_word i) blk) + ref_T ! i),
      b, c))"

definition ref_compress :: "u8 list \<Rightarrow> digest \<Rightarrow> digest" where
  "ref_compress blk = (\<lambda>(a, b, c, d).
     case fold (ref_step blk) [0..<64] (a, b, c, d) of
       (a', b', c', d') \<Rightarrow> (a + a', b + b', c + c', d + d'))"

definition ref_init :: digest where
  "ref_init = (0x67452301, 0xefcdab89, 0x98badcfe, 0x10325476)"

definition ref_fold :: "u8 list \<Rightarrow> digest" where
  "ref_fold msg = fold ref_compress (chunks 64 msg) ref_init"

text \<open>The padded message: one bit, zeros up to 56 modulo 64, the bit count in 8 bytes.\<close>

definition ref_pad :: "u8 list \<Rightarrow> u8 list" where
  "ref_pad msg = msg @ [0x80] @ replicate ((119 - length msg mod 64) mod 64) 0 @
     (let bits = (8 * of_nat (length msg) :: u64)
      in bytes32 (ucast bits) @ bytes32 (ucast (drop_bit 32 bits)))"

definition md5_ref :: "u8 list \<Rightarrow> u8 list" where
  "md5_ref msg = (case ref_fold (ref_pad msg) of (a, b, c, d) \<Rightarrow>
     bytes32 a @ bytes32 b @ bytes32 c @ bytes32 d)"

section \<open>Registers of 64 bits compute the 32-bit digest\<close>

lemma ucast_add_32: "ucast (a + b :: u64) = (ucast a + ucast b :: u32)"
proof transfer
  fix a b :: int
  have "take_bit 32 (take_bit 64 a + take_bit 64 b) =
      take_bit 32 (take_bit 32 (take_bit 64 a) + take_bit 32 (take_bit 64 b))"
    by (simp only: take_bit_add)
  also have "\<dots> = take_bit 32 (a + b)" by (simp add: take_bit_add)
  finally show "take_bit LENGTH(32) (take_bit LENGTH(64) (a + b)) =
      take_bit LENGTH(32) (take_bit LENGTH(64) a + take_bit LENGTH(64) b)"
    by simp
qed

lemma and_ffffffff: "a AND 0xffffffff = take_bit 32 (a :: u64)"
  by (simp add: take_bit_eq_mask mask_eq_exp_minus_1)

lemma ucast_ROTATE:
  assumes "0 < s" and "s < 32"
  shows "ucast (md5_ROTATE a s) = word_rotl s (ucast a :: u32)"
proof (rule bit_word_eqI)
  fix n assume "n < LENGTH(32)"
  then have n: "n < 32" by simp
  show "bit (ucast (md5_ROTATE a s) :: u32) n \<longleftrightarrow> bit (word_rotl s (ucast a :: u32)) n"
  proof (cases "s \<le> n")
    case True
    then have m: "(n + (32 - s)) mod 32 = n - s" using n assms
      by (simp add: mod_if)
    moreover have "\<not> 32 + n - s < 32" "n - s < 32" using True n by linarith+
    ultimately show ?thesis using True n assms
      by (simp add: md5_ROTATE_def and_ffffffff bit_word_rotl_iff bit_ucast_word bit_simps)
  next
    case False
    then have m: "(n + (32 - s)) mod 32 = n + (32 - s)" using n assms by simp
    moreover have "32 + n - s < 32" "n + 32 - s = 32 + n - s" using False assms by linarith+
    ultimately show ?thesis using False n assms
      by (simp add: md5_ROTATE_def and_ffffffff bit_word_rotl_iff bit_ucast_word bit_simps)
  qed
qed

lemma ucast_mix:
  "ucast (md5_F b c d) = (ucast b AND ucast c) OR (NOT (ucast b) AND (ucast d :: u32))"
  "ucast (md5_G b c d) = (ucast b AND ucast d) OR (ucast c AND NOT (ucast d :: u32))"
  "ucast (md5_H b c d) = ucast b XOR ucast c XOR (ucast d :: u32)"
  "ucast (md5_I b c d) = ucast c XOR (ucast b OR NOT (ucast d :: u32))"
  by (rule bit_word_eqI;
      auto simp: md5_F_def md5_G_def md5_H_def md5_I_def bit_ucast_word bit_simps)+

text \<open>A statement of the block function carries out step \<open>i\<close> of the reference.\<close>

definition step_ok :: "nat \<Rightarrow> md5_round \<times> nat \<times> nat \<times> u64 \<Rightarrow> bool" where
  "step_ok i = (\<lambda>(r, k, s, t). i < 64 \<and> r = [R0, R1, R2, R3] ! (i div 16) \<and>
     k = ref_word i \<and> s = ref_shift i \<and> 0 < s \<and> s < 32 \<and> ucast t = ref_T ! i)"

lemma steps_ok: "list_all2 step_ok [0..<64] md5_steps"
  by (simp add: upt_rec [of _ 64] md5_steps_def step_ok_def ref_word_def ref_shift_def ref_T_def)

lemma ucast_md5_mix:
  assumes "i < 64"
  shows "ucast (md5_mix ([R0, R1, R2, R3] ! (i div 16)) b c d) =
    ref_mix i (ucast b) (ucast c) (ucast d :: u32)"
proof -
  have "i div 16 = 0 \<or> i div 16 = 1 \<or> i div 16 = 2 \<or> i div 16 = 3" using assms by auto
  then consider "i < 16" | "16 \<le> i" "i < 32" | "32 \<le> i" "i < 48" | "48 \<le> i" "i < 64"
    using assms by linarith
  then show ?thesis
  proof cases
    case 1 then have "i div 16 = 0" by simp
    then show ?thesis using 1 by (simp add: ref_mix_def ucast_mix)
  next
    case 2 then have "i div 16 = 1" by auto
    then show ?thesis using 2 by (simp add: ref_mix_def ucast_mix)
  next
    case 3 then have "i div 16 = 2" by auto
    then show ?thesis using 3 by (simp add: ref_mix_def ucast_mix)
  next
    case 4 then have "i div 16 = 3" by auto
    then show ?thesis using 4 by (simp add: ref_mix_def ucast_mix)
  qed
qed

definition low :: "u64 \<times> u64 \<times> u64 \<times> u64 \<Rightarrow> digest" where
  "low = (\<lambda>(a, b, c, d). (ucast a, ucast b, ucast c, ucast d))"

lemma low_step:
  assumes "step_ok i (r, k, s, t)"
  shows "low (d, md5_R r a b c d (HOST_c2l (drop (4 * k) blk)) s t, b, c) =
    ref_step blk i (low (a, b, c, d))"
  using assms
  by (simp add: step_ok_def low_def ref_step_def md5_R_def ucast_add_32 ucast_ROTATE
      ucast_md5_mix HOST_c2l_def add.commute add.left_commute)

lemma low_md5_run:
  assumes "list_all2 step_ok is steps"
  shows "low (md5_run (\<lambda>i. HOST_c2l (drop (4 * i) blk)) steps st) =
    fold (ref_step blk) is (low st)"
  using assms
proof (induction "is" arbitrary: steps st)
  case Nil
  then show ?case by (cases st) simp
next
  case (Cons i "is")
  from Cons.prems obtain r k s t rest where
    steps: "steps = (r, k, s, t) # rest" and ok: "step_ok i (r, k, s, t)"
    and rest: "list_all2 step_ok is rest"
    by (auto simp: list_all2_Cons1)
  obtain a b c d where st: "st = (a, b, c, d)" by (cases st)
  show ?case
    using Cons.IH [OF rest] by (simp add: steps st low_step [OF ok])
qed

definition digest :: "md5_t \<Rightarrow> digest" where
  "digest c = (md5_A c, md5_B c, md5_C c, md5_D c)"

lemma digest_md5_block1: "digest (md5_block1 c blk) = ref_compress blk (digest c)"
proof -
  let ?st = "(ucast (md5_A c), ucast (md5_B c), ucast (md5_C c), ucast (md5_D c))"
  obtain A B C D where
    run: "md5_run (\<lambda>i. HOST_c2l (drop (4 * i) blk)) md5_steps ?st = (A, B, C, D)"
    by (metis surj_pair)
  have "fold (ref_step blk) [0..<64] (digest c) = (ucast A, ucast B, ucast C, ucast D)"
    using low_md5_run [OF steps_ok, of blk ?st] run by (simp add: low_def digest_def)
  then show ?thesis
    by (simp add: md5_block1_def run digest_def ref_compress_def ucast_add_32)
qed

lemma md5_block1_frame [simp]:
  "md5_data (md5_block1 c blk) = md5_data c" "md5_num (md5_block1 c blk) = md5_num c"
  "md5_Nl (md5_block1 c blk) = md5_Nl c" "md5_Nh (md5_block1 c blk) = md5_Nh c"
  by (simp_all add: md5_block1_def split: prod.split)

lemma md5_block_data_order_frame [simp]:
  "md5_data (md5_block_data_order c data n) = md5_data c"
  "md5_num (md5_block_data_order c data n) = md5_num c"
  "md5_Nl (md5_block_data_order c data n) = md5_Nl c"
  "md5_Nh (md5_block_data_order c data n) = md5_Nh c"
  by (induction n arbitrary: c data) simp_all

lemma digest_update [simp]:
  "digest (c\<lparr>md5_data := p\<rparr>) = digest c" "digest (c\<lparr>md5_num := k\<rparr>) = digest c"
  "digest (c\<lparr>md5_Nl := l\<rparr>) = digest c" "digest (c\<lparr>md5_Nh := h\<rparr>) = digest c"
  by (simp_all add: digest_def)

lemma digest_md5_block_data_order:
  assumes "n * 64 \<le> length data"
  shows "digest (md5_block_data_order c data n) =
    fold ref_compress (chunks 64 (take (n * 64) data)) (digest c)"
  using assms
proof (induction n arbitrary: c data)
  case 0
  then show ?case by (simp add: chunks_short)
next
  case (Suc n)
  then have len: "64 \<le> length data" "n * 64 \<le> length (drop 64 data)" by auto
  have "take (Suc n * 64) data = take 64 data @ take (n * 64) (drop 64 data)"
    by (simp add: take_add)
  moreover have "chunks 64 (take 64 data @ take (n * 64) (drop 64 data)) =
      take 64 data # chunks 64 (take (n * 64) (drop 64 data))"
    using len by (intro chunks_step) auto
  ultimately show ?case
    using Suc.IH [OF len(2), of "md5_block1 c (take 64 data)"]
    by (simp add: digest_md5_block1)
qed


section \<open>What the context represents\<close>

text \<open>The context after a message: the digest of its full blocks, the rest, the bit count.\<close>

definition bit_count :: "u32 \<Rightarrow> u32 \<Rightarrow> u64" where
  "bit_count h l = push_bit 32 (ucast h) + ucast l"

definition md5_rep :: "md5_t \<Rightarrow> u8 list \<Rightarrow> bool" where
  "md5_rep c msg \<longleftrightarrow>
     digest c = ref_fold msg \<and> unat (md5_num c) = length msg mod 64 \<and>
     length (md5_data c) = 64 \<and>
     take (unat (md5_num c)) (md5_data c) = drop (length msg div 64 * 64) msg \<and>
     bit_count (md5_Nh c) (md5_Nl c) = 8 * of_nat (length msg)"

lemma md5_rep_init: "md5_rep MD5_init []"
  by (simp add: md5_rep_def MD5_init_def digest_def ref_fold_def ref_init_def chunks_short
      bit_count_def)

lemma ref_fold_append:
  assumes "64 dvd length xs"
  shows "ref_fold (xs @ ys) = fold ref_compress (chunks 64 ys) (ref_fold xs)"
  using assms by (simp add: ref_fold_def chunks_append)

lemma chunks_mult:
  "chunks 64 (xs :: u8 list) = chunks 64 (take (length xs div 64 * 64) xs)"
proof -
  have "chunks 64 (take (length xs div 64 * 64) xs @ drop (length xs div 64 * 64) xs) =
      chunks 64 (take (length xs div 64 * 64) xs) @ chunks 64 (drop (length xs div 64 * 64) xs)"
    by (rule chunks_append) (auto simp: min_absorb2)
  moreover have "chunks 64 (drop (length xs div 64 * 64) xs) = []"
    by (rule chunks_short) (simp add: minus_div_mult_eq_mod)
  ultimately show ?thesis by simp
qed

text \<open>The carry of the 32-bit bit counters.\<close>

lemma high_word_add: "push_bit 32 (ucast (a + b :: u32)) =
    (push_bit 32 (ucast a) + push_bit 32 (ucast b) :: u64)"
proof -
  have "2 ^ 32 * of_nat (unat (a + b)) = (2 ^ 32 * of_nat (unat a + unat b) :: u64)"
  proof (cases "unat a + unat b < 2 ^ 32")
    case True
    then show ?thesis by (simp add: unat_plus_if')
  next
    case False
    then have "unat a + unat b = unat (a + b) + 2 ^ 32" by (simp add: unat_plus_if')
    then have "(2 ^ 32 * of_nat (unat a + unat b) :: u64) =
        2 ^ 32 * of_nat (unat (a + b)) + 2 ^ 32 * 2 ^ 32"
      by (simp add: distrib_left)
    then show ?thesis by simp
  qed
  then show ?thesis
    by (simp add: push_bit_eq_mult mult.commute algebra_simps)
qed

lemma bit_count_add:
  fixes nl len :: u32
  defines "l \<equiv> nl + push_bit 3 len"
  shows "bit_count ((if l < nl then nh + 1 else nh) + drop_bit 29 len) l =
    bit_count nh nl + 8 * ucast len"
proof -
  define k where "k = (if l < nl then 1 else 0 :: u32)"
  have shift: "8 * unat len = unat (push_bit 3 len) + 2 ^ 32 * unat (drop_bit 29 len)"
  proof -
    have "unat (push_bit 3 len) = (8 * unat len) mod 2 ^ 32"
      by (simp add: push_bit_eq_mult unat_word_ariths mult.commute)
    moreover have "unat (drop_bit 29 len) = unat len div 2 ^ 29"
      by (simp add: drop_bit_eq_div unat_div_distrib)
    moreover have "(8 * unat len) div (8 * 2 ^ 29) = unat len div 2 ^ 29"
      by (rule div_mult_mult1) simp
    ultimately show ?thesis using div_mult_mod_eq [of "8 * unat len" "2 ^ 32"] by simp
  qed
  have carry: "unat nl + unat (push_bit 3 len) = unat l + 2 ^ 32 * unat k"
    using unsigned_less [of "push_bit 3 len", where 'a = nat]
    unfolding l_def k_def by (auto simp: unat_plus_if' word_less_nat_alt split: if_splits)
  have cast: "ucast w = (of_nat (unat w) :: u64)" for w :: u32
    by simp
  have "ucast l + push_bit 32 (ucast k + ucast (drop_bit 29 len)) =
      (of_nat (unat l + 2 ^ 32 * unat k + 2 ^ 32 * unat (drop_bit 29 len)) :: u64)"
    by (simp add: push_bit_eq_mult algebra_simps)
  also have "\<dots> = of_nat (unat nl + 8 * unat len)"
    using carry shift by (metis add.assoc)
  also have "\<dots> = ucast nl + 8 * ucast len" by simp
  finally have sum: "ucast l + push_bit 32 (ucast k + ucast (drop_bit 29 len)) =
      (ucast nl + 8 * ucast len :: u64)" .
  have "(if l < nl then nh + 1 else nh) = nh + k" by (simp add: k_def)
  then show ?thesis
    using sum by (simp add: bit_count_def high_word_add push_bit_add algebra_simps)
qed

section \<open>Streaming\<close>

lemma length_memcpy_at [simp]:
  "n + length src \<le> length p \<Longrightarrow> length (memcpy_at p n src) = length p"
  by (simp add: memcpy_at_def)

lemma take_memcpy_at:
  "n + length src \<le> length p \<Longrightarrow> take (n + length src) (memcpy_at p n src) = take n p @ src"
  by (simp add: memcpy_at_def)

lemma memcpy_at_full:
  "n + length src = length p \<Longrightarrow> memcpy_at p n src = take n p @ src"
  by (simp add: memcpy_at_def)

text \<open>The message a context represents, split into its full blocks and the rest.\<close>

lemma md5_rep_split:
  assumes "md5_rep c msg"
  obtains full pend where "msg = full @ pend" "64 dvd length full" "digest c = ref_fold full"
    "length pend = unat (md5_num c)" "length pend < 64" "take (unat (md5_num c)) (md5_data c) = pend"
proof
  let ?k = "length msg div 64 * 64"
  show "msg = take ?k msg @ drop ?k msg" by simp
  show "64 dvd length (take ?k msg)" by (simp add: min_absorb2)
  show "digest c = ref_fold (take ?k msg)"
    using assms chunks_mult [of msg] by (simp add: md5_rep_def ref_fold_def)
  show "length (drop ?k msg) = unat (md5_num c)"
    using assms by (simp add: md5_rep_def minus_div_mult_eq_mod)
  show "length (drop ?k msg) < 64" by (simp add: minus_div_mult_eq_mod)
  show "take (unat (md5_num c)) (md5_data c) = drop ?k msg"
    using assms unfolding md5_rep_def by blast
qed

lemma md5_repI:
  assumes "64 dvd length full" "length pend < 64" "digest c = ref_fold full"
    "md5_num c = of_nat (length pend)" "length (md5_data c) = 64"
    "take (length pend) (md5_data c) = pend"
    "bit_count (md5_Nh c) (md5_Nl c) = 8 * of_nat (length (full @ pend))"
  shows "md5_rep c (full @ pend)"
proof -
  have num: "unat (md5_num c) = length pend"
    using assms(2,4) by (simp add: unat_of_nat)
  have m: "length (full @ pend) mod 64 = length pend"
    using assms(1,2) by (auto elim!: dvdE)
  have d: "length (full @ pend) div 64 * 64 = length full"
    using assms(1,2) by (auto elim!: dvdE)
  have "ref_fold (full @ pend) = ref_fold full"
    using assms(1,2) by (simp add: ref_fold_append chunks_short)
  then show ?thesis
    using assms num m d by (simp add: md5_rep_def del: length_append)
qed

text \<open>
  The part of the update that follows the bit count and the completion of a pending block:
  whole blocks straight from the input, then the rest into the buffer.
\<close>

lemma md5_process_tail:
  assumes full: "64 dvd length full" and dg: "digest c = ref_fold full"
    and num: "md5_num c = 0" and len: "length (md5_data c) = 64"
    and cnt: "bit_count (md5_Nh c) (md5_Nl c) = 8 * of_nat (length (full @ data))"
  shows "md5_rep (md5_tail c data) (full @ data)"
proof -
  define n where "n = length data div 64"
  define blocks where "blocks = take (n * 64) data"
  define pend where "pend = drop (n * 64) data"
  define c' where "c' = (if 0 < n then md5_block_data_order c data n else c)"
  have data: "data = blocks @ pend" by (simp add: blocks_def pend_def)
  have nle: "n * 64 \<le> length data" by (simp add: n_def)
  then have lb: "64 dvd length (full @ blocks)" using full by (simp add: blocks_def min_absorb2)
  have lp: "length pend < 64" by (simp add: pend_def n_def minus_div_mult_eq_mod)
  have "digest c' = fold ref_compress (chunks 64 blocks) (ref_fold full)"
    using digest_md5_block_data_order [OF nle, of c] dg
    by (cases "n = 0") (simp_all add: c'_def blocks_def chunks_short)
  then have dg': "digest c' = ref_fold (full @ blocks)" by (simp add: ref_fold_append full)
  have fr: "md5_num c' = 0" "md5_data c' = md5_data c"
      "md5_Nh c' = md5_Nh c" "md5_Nl c' = md5_Nl c"
    using num by (simp_all add: c'_def)
  let ?r = "if pend \<noteq> [] then
          c'\<lparr>md5_num := of_nat (length pend), md5_data := memcpy_at (md5_data c') 0 pend\<rparr> else c'"
  have tk: "take (length pend) (memcpy_at (md5_data c) 0 pend) = pend"
    using take_memcpy_at [of 0 pend "md5_data c"] lp len by simp
  have "md5_rep ?r ((full @ blocks) @ pend)"
    using lb lp dg' fr cnt tk len by (intro md5_repI) (auto simp: data)
  moreover have "(full @ blocks) @ pend = full @ data" by (simp add: data)
  ultimately show ?thesis
    unfolding md5_tail_def Let_def MD5_CBLOCK_def n_def [symmetric] c'_def [symmetric] pend_def [symmetric]
    by simp
qed

lemma md5_count_frame [simp]:
  "digest (md5_count c len) = digest c" "md5_num (md5_count c len) = md5_num c"
  "md5_data (md5_count c len) = md5_data c"
  by (simp_all add: md5_count_def Let_def)

lemma md5_count_bits:
  "bit_count (md5_Nh (md5_count c len)) (md5_Nl (md5_count c len)) =
     bit_count (md5_Nh c) (md5_Nl c) + 8 * ucast len"
  using bit_count_add [of "md5_Nl c" len "md5_Nh c"]
  by (simp add: md5_count_def Let_def split: if_splits)

lemma MD5_process_rep:
  assumes rep: "md5_rep c msg" and len: "unat len \<le> length mem"
  shows "md5_rep (MD5_process c mem len) (msg @ take (unat len) mem)"
proof (cases "len = 0")
  case True
  then show ?thesis using rep by (simp add: MD5_process_def)
next
  case False
  obtain full pend where msg: "msg = full @ pend" and full: "64 dvd length full"
    and dg: "digest c = ref_fold full" and lp: "length pend = unat (md5_num c)" "length pend < 64"
    and tk: "take (unat (md5_num c)) (md5_data c) = pend"
    using md5_rep_split [OF rep] .
  define data where "data = take (unat len) mem"
  define c2 where "c2 = md5_count c len"
  define n where "n = unat (md5_num c2)"
  have ldata: "length data = unat len" using len by (simp add: data_def min_absorb2)
  have c2: "digest c2 = ref_fold full" "length pend = n" "md5_data c2 = md5_data c"
      "take n (md5_data c2) = pend" "length (md5_data c2) = 64"
    using dg lp tk rep by (simp_all add: c2_def n_def md5_rep_def)
  have cnt: "bit_count (md5_Nh c2) (md5_Nl c2) = 8 * of_nat (length (full @ pend @ data))"
    using rep by (simp add: c2_def md5_count_bits md5_rep_def ldata msg algebra_simps)
  have unf: "MD5_process c mem len =
    (if n \<noteq> 0 then
       if 64 \<le> unat len \<or> 64 \<le> unat len + n then
         let p = memcpy_at (md5_data c2) n (take (64 - n) data);
             c' = md5_block_data_order (c2\<lparr>md5_data := p\<rparr>) p 1
         in md5_tail (c'\<lparr>md5_num := 0, md5_data := replicate 64 0\<rparr>) (drop (64 - n) data)
       else c2\<lparr>md5_data := memcpy_at (md5_data c2) n data, md5_num := md5_num c2 + len\<rparr>
     else md5_tail c2 data)"
    using False by (simp add: MD5_process_def Let_def c2_def n_def data_def MD5_CBLOCK_def)
  consider (fresh) "n = 0" | (fill) "n \<noteq> 0" "64 \<le> unat len + n" | (part) "n \<noteq> 0" "unat len + n < 64"
    by linarith
  then have "md5_rep (MD5_process c mem len) (full @ pend @ data)"
  proof cases
    case fresh
    then have "md5_rep (md5_tail c2 data) (full @ data)"
      using c2 cnt full by (intro md5_process_tail) (auto simp: n_def unat_eq_0)
    then show ?thesis using fresh c2 unf by simp
  next
    case fill
    define first where "first = take (64 - n) data"
    have lf: "length (pend @ first) = 64" using fill ldata c2(2) lp by (simp add: first_def)
    then have p: "memcpy_at (md5_data c2) n first = pend @ first"
      using c2 by (simp add: memcpy_at_full)
    define c3 where "c3 = (md5_block_data_order (c2\<lparr>md5_data := pend @ first\<rparr>) (pend @ first) 1)
        \<lparr>md5_num := 0, md5_data := replicate 64 0\<rparr>"
    have "digest c3 = ref_fold (full @ pend @ first)"
      using lf c2 full by (simp add: c3_def digest_md5_block1 ref_fold_append chunks_step [of 64 _ "[]", simplified] chunks_short)
    moreover have "64 dvd length (full @ pend @ first)" using full lf by simp
    moreover have "data = first @ drop (64 - n) data" by (simp add: first_def)
    ultimately have "md5_rep (md5_tail c3 (drop (64 - n) data)) ((full @ pend @ first) @ drop (64 - n) data)"
      using cnt by (intro md5_process_tail) (auto simp: c3_def)
    then show ?thesis
      using fill p unf \<open>data = first @ drop (64 - n) data\<close>
      by (simp add: Let_def c3_def first_def)
  next
    case part
    have tk2: "take (length (pend @ data)) (memcpy_at (md5_data c2) n data) = pend @ data"
      using take_memcpy_at [of n data "md5_data c2"] part c2 ldata by simp
    have "md5_rep (c2\<lparr>md5_data := memcpy_at (md5_data c2) n data, md5_num := md5_num c2 + len\<rparr>)
        (full @ (pend @ data))"
      using part c2 ldata full cnt tk2
      by (intro md5_repI) (auto simp: n_def)
    then show ?thesis using part unf by simp
  qed
  then show ?thesis by (simp add: msg data_def)
qed

section \<open>The digest of a message\<close>

lemma bit_count_bytes:
  "bytes32 (ucast (bit_count h l)) = bytes32 l"
  "bytes32 (ucast (drop_bit 32 (bit_count h l))) = bytes32 h"
proof -
  have disj: "bit_count h l = push_bit 32 (ucast h) OR ucast l"
    unfolding bit_count_def
    by (rule disjunctive_add) (auto simp: bit_simps dest: bit_imp_le_length)
  have "ucast (bit_count h l) = l"
    by (rule bit_word_eqI) (auto simp: disj bit_ucast_word bit_simps)
  then show "bytes32 (ucast (bit_count h l)) = bytes32 l" by simp
  have "ucast (drop_bit 32 (bit_count h l)) = h"
    by (rule bit_word_eqI) (auto simp: disj bit_ucast_word bit_simps dest: bit_imp_le_length)
  then show "bytes32 (ucast (drop_bit 32 (bit_count h l))) = bytes32 h" by simp
qed

definition digest_bytes :: "digest \<Rightarrow> u8 list" where
  "digest_bytes = (\<lambda>(a, b, c, d). bytes32 a @ bytes32 b @ bytes32 c @ bytes32 d)"

lemma ref_fold_block:
  "64 dvd length full \<Longrightarrow> length blk = 64 \<Longrightarrow> ref_fold (full @ blk) = ref_compress blk (ref_fold full)"
  by (simp add: ref_fold_append chunks_step [of 64 blk "[]", simplified] chunks_short)

lemma MD5_finish_rep:
  assumes rep: "md5_rep c msg"
  shows "snd (MD5_finish c) = md5_ref msg"
proof -
  obtain full pend where msg: "msg = full @ pend" and full: "64 dvd length full"
    and dg: "digest c = ref_fold full" and lp: "length pend = unat (md5_num c)" "length pend < 64"
    and tk: "take (unat (md5_num c)) (md5_data c) = pend"
    using md5_rep_split [OF rep] .
  define n where "n = unat (md5_num c)"
  define cnt where "cnt = bytes32 (md5_Nl c) @ bytes32 (md5_Nh c)"
  have ld: "length (md5_data c) = 64" using rep by (simp add: md5_rep_def)
  have n: "length pend = n" "n < 64" "take n (md5_data c) = pend"
    using lp tk by (simp_all add: n_def)
  have bits: "bit_count (md5_Nh c) (md5_Nl c) = 8 * of_nat (length msg)"
    using rep by (simp add: md5_rep_def)
  have pad: "ref_pad msg = full @ pend @ [0x80] @ replicate ((119 - n) mod 64) 0 @ cnt"
  proof -
    have "length msg mod 64 = n" using full n by (auto simp: msg elim!: dvdE)
    then show ?thesis
      by (simp add: ref_pad_def bits [symmetric] bit_count_bytes cnt_def Let_def)
        (simp add: msg)
  qed
  have len_cnt: "length cnt = 8" by (simp add: cnt_def)
  have out: "snd (MD5_finish c) = digest_bytes (digest (fst (MD5_finish c)))"
    by (simp add: MD5_finish_def Let_def digest_bytes_def digest_def split: prod.split)
  have "digest (fst (MD5_finish c)) = ref_fold (ref_pad msg)"
  proof (cases "n + 1 > 56")
    case True
    define blk1 where "blk1 = pend @ [0x80] @ replicate (63 - n) (0 :: u8)"
    define blk2 where "blk2 = replicate 56 (0 :: u8) @ cnt"
    have l1: "length blk1 = 64" "length blk2 = 64" using True n by (simp_all add: blk1_def blk2_def len_cnt)
    have "memcpy_at (memcpy_at (md5_data c) n [0x80]) (n + 1) (replicate (64 - (n + 1)) 0) = blk1"
      using True n ld by (simp add: memcpy_at_def blk1_def)
    moreover have "memcpy_at (memcpy_at (memcpy_at blk1 0 (replicate 56 0)) 56 (bytes32 (md5_Nl c)))
        60 (bytes32 (md5_Nh c)) = blk2"
      using l1 by (simp add: memcpy_at_def blk2_def cnt_def)
    ultimately have "digest (fst (MD5_finish c)) = ref_compress blk2 (ref_compress blk1 (ref_fold full))"
      using True dg
      by (simp add: MD5_finish_def MD5_CBLOCK_def n_def [symmetric] Let_def digest_md5_block1 l1)
    moreover have "ref_pad msg = (full @ blk1) @ blk2"
    proof -
      have "(119 - n) mod 64 = (63 - n) + 56" using True n by (simp add: mod_if) 
      then have "replicate ((119 - n) mod 64) (0 :: u8) = replicate (63 - n) 0 @ replicate 56 0"
        by (simp only: replicate_add)
      then show ?thesis unfolding pad blk1_def blk2_def by simp
    qed
    ultimately show ?thesis using l1 full by (simp add: ref_fold_block del: append_assoc)
  next
    case False
    define blk where "blk = pend @ [0x80] @ replicate (55 - n) (0 :: u8) @ cnt"
    have l1: "length blk = 64" using False n by (simp add: blk_def len_cnt)
    have s: "56 - n = Suc (55 - n)" "60 - n = Suc (55 - n + 4)" using False by linarith+
    have "memcpy_at (memcpy_at (memcpy_at (memcpy_at (md5_data c) n [0x80]) (n + 1)
        (replicate (56 - (n + 1)) 0)) 56 (bytes32 (md5_Nl c))) 60 (bytes32 (md5_Nh c)) = blk"
      using False n ld by (simp add: memcpy_at_def blk_def cnt_def s)
    then have "digest (fst (MD5_finish c)) = ref_compress blk (ref_fold full)"
      using False dg
      by (simp add: MD5_finish_def MD5_CBLOCK_def n_def [symmetric] Let_def digest_md5_block1 l1)
    moreover have "ref_pad msg = full @ blk"
    proof -
      have "(119 - n) mod 64 = 55 - n" using False n by (simp add: mod_if)
      then show ?thesis unfolding pad blk_def by simp
    qed
    ultimately show ?thesis using l1 full by (simp add: ref_fold_block)
  qed
  then show ?thesis by (simp add: out md5_ref_def digest_bytes_def split: prod.split)
qed

section \<open>The hexadecimal form\<close>

lemma sig_chars_all: "2 * length sig \<le> room \<Longrightarrow>
   sig_chars room sig = concat (map (\<lambda>s. [HEX_STRING ! unat (s div 16), HEX_STRING ! unat (s mod 16)]) sig)"
  by (induction sig arbitrary: room) auto

lemma hex_pos_nth: "i < 16 \<Longrightarrow> hex_pos (HEX_STRING ! i) = Some (int i)"
proof -
  have all: "\<forall>i \<in> {..<16}. hex_pos (HEX_STRING ! i) = Some (int i)"
    by code_simp
  then show "i < 16 \<Longrightarrow> hex_pos (HEX_STRING ! i) = Some (int i)" by blast
qed

lemma sig_bytes_pair:
  "sig_bytes (HEX_STRING ! unat (s div 16) # HEX_STRING ! unat (s mod 16) # cs) =
     map_option ((#) (s :: u8)) (sig_bytes cs)"
proof -
  have h: "unat (s div 16) = unat s div 16" "unat (s mod 16) = unat s mod 16"
    by (simp_all add: unat_div_distrib unat_mod_distrib)
  have "unat s < 256" using unsigned_less [of s, where 'a = nat] by simp
  then have "unat s div 16 < 16" by auto
  moreover have "word_of_int (int (unat s div 16) * 16 + int (unat s mod 16)) = s"
  proof -
    have "int (unat s div 16) * 16 + int (unat s mod 16) = int (unat s)"
      by (metis div_mult_mod_eq of_nat_add of_nat_mult of_nat_numeral)
    then show ?thesis by simp
  qed
  ultimately show ?thesis
    by (simp add: h hex_pos_nth split: option.split)
qed

lemma sig_bytes_chars:
  "sig_bytes (concat (map (\<lambda>s. [HEX_STRING ! unat (s div 16), HEX_STRING ! unat (s mod 16)]) sig)) =
     Some sig"
  by (induction sig) (simp_all add: sig_bytes_pair del: sig_bytes.simps(1))

section \<open>Properties\<close>

text \<open>
  C1: the one-shot digest. For every buffer and every 32-bit length within it, \<open>MD5_buffer\<close>,
  computing in 64-bit registers and counting bits in two 32-bit words, returns the MD5 digest
  of exactly the first \<open>buf_len\<close> bytes, as the reference pads and compresses them.
\<close>

theorem MD5_buffer_correct:
  assumes "unat buf_len \<le> length buffer"
  shows "MD5_buffer buffer buf_len = md5_ref (take (unat buf_len) buffer)"
  using MD5_finish_rep [OF MD5_process_rep [OF md5_rep_init assms]]
  by (simp add: MD5_buffer_def)

theorem MD5_buffer_correct_witness:
  "MD5_buffer [0x61, 0x62, 0x63, 0x64] 3 = md5_ref [0x61, 0x62, 0x63]"
  using MD5_buffer_correct [of 3 "[0x61, 0x62, 0x63, 0x64]"] by (simp add: take_Cons')

text \<open>
  Streaming. Feeding a message in any sequence of pieces, each within the 32-bit length
  argument, and finishing gives the digest of their concatenation; the pieces may be empty,
  end inside a block or span several blocks.
\<close>

theorem MD5_stream_correct:
  assumes "\<forall>p \<in> set pieces. length p < 2 ^ 32"
  shows "snd (MD5_finish (fold (\<lambda>p c. MD5_process c p (of_nat (length p))) pieces MD5_init)) =
    md5_ref (concat pieces)"
proof -
  have "md5_rep (fold (\<lambda>p c. MD5_process c p (of_nat (length p))) ps c) (msg @ concat ps)"
    if "md5_rep c msg" "\<forall>p \<in> set ps. length p < 2 ^ 32" for ps c msg
    using that
  proof (induction ps arbitrary: c msg)
    case Nil
    then show ?case by simp
  next
    case (Cons p ps)
    then have u: "unat (of_nat (length p) :: u32) = length p" by (simp add: unat_of_nat)
    have "md5_rep (MD5_process c p (of_nat (length p))) (msg @ p)"
      using MD5_process_rep [of c msg "of_nat (length p)" p] Cons.prems(1) by (simp add: u)
    then show ?case using Cons.IH Cons.prems(2) by fastforce
  qed
  from this [OF md5_rep_init assms] show ?thesis by (simp add: MD5_finish_rep)
qed

theorem MD5_stream_correct_witness:
  "snd (MD5_finish (fold (\<lambda>p c. MD5_process c p (of_nat (length p)))
     [[0x61], replicate 100 0x62, [], [0x63, 0x64]] MD5_init)) =
   md5_ref (0x61 # replicate 100 0x62 @ [0x63, 0x64])"
  using MD5_stream_correct [of "[[0x61], replicate 100 0x62, [], [0x63, 0x64]]"] by simp

text \<open>
  The hexadecimal form round-trips. A 16-byte signature is written as exactly 32
  characters, without a terminator since the array has no room for one, and reading these
  characters back gives the signature.
\<close>

theorem MD5_sig_roundtrip:
  assumes "length sig = MD5_SIZE"
  shows "length (MD5_sig_to_string sig) = 2 * MD5_SIZE \<and>
    MD5_sig_from_string (MD5_sig_to_string sig) = Some sig"
proof -
  let ?cs = "concat (map (\<lambda>s. [HEX_STRING ! unat (s div 16), HEX_STRING ! unat (s mod 16)]) sig)"
  have "length ?cs = 2 * length sig" by (induction sig) simp_all
  then have "MD5_sig_to_string sig = ?cs" "length ?cs = 2 * MD5_SIZE"
    using assms by (simp_all add: MD5_sig_to_string_def sig_chars_all Let_def)
  then show ?thesis by (simp add: MD5_sig_from_string_def sig_bytes_chars)
qed

theorem MD5_sig_roundtrip_witness:
  "MD5_sig_from_string (MD5_sig_to_string (map of_nat [0..<16])) = Some (map of_nat [0..<16])"
  using MD5_sig_roundtrip [of "map of_nat [0..<16]"] by (simp add: MD5_SIZE_def)

end
