(* ===== verification/Machine.thy ===== *)
theory Machine
  imports Prelude
begin

text \<open>
  What the C sources run on: outcomes of a computation (a value, a SIGSEGV, no return, an
  abort), byte-addressed process memory with little-endian loads, and the C library routines
  the sources call on strings and text lines (\<open>strcmp\<close>, \<open>fgets\<close>, \<open>sscanf\<close>, \<open>isspace\<close>).
\<close>

section \<open>Outcomes\<close>

text \<open>
  \<open>Segv\<close> is an access outside mapped memory, \<open>Undef\<close> an operation C leaves undefined (a
  division by zero, a shift by the width of the type or more), \<open>Hang\<close> a loop that never ends,
  \<open>Abort\<close> the end of the process by \<open>__android_log_assert\<close>.
\<close>

datatype 'a run = Ret 'a | Segv | Undef | Hang | Abort

primrec bindr :: "'a run \<Rightarrow> ('a \<Rightarrow> 'b run) \<Rightarrow> 'b run" where
  "bindr (Ret x) f = f x"
| "bindr Segv f = Segv"
| "bindr Undef f = Undef"
| "bindr Hang f = Hang"
| "bindr Abort f = Abort"

lemma bindr_assoc: "bindr (bindr m f) g = bindr m (\<lambda>x. bindr (f x) g)"
  by (cases m) simp_all

lemma bindr_Ret [simp]: "bindr m Ret = m"
  by (cases m) simp_all

lemma bindr_eq_Ret: "bindr m f = Ret y \<longleftrightarrow> (\<exists>x. m = Ret x \<and> f x = Ret y)"
  by (cases m) simp_all

text \<open>Every value a computation returns satisfies a property; faults and hangs return none.\<close>

definition returns :: "('a \<Rightarrow> bool) \<Rightarrow> 'a run \<Rightarrow> bool" where
  "returns P m \<longleftrightarrow> (\<forall>x. m = Ret x \<longrightarrow> P x)"

lemma returnsD: "returns P m \<Longrightarrow> m = Ret x \<Longrightarrow> P x"
  by (simp add: returns_def)

lemma returns_mono: "returns P m \<Longrightarrow> (\<And>x. P x \<Longrightarrow> Q x) \<Longrightarrow> returns Q m"
  by (simp add: returns_def)

lemma returns_Ret [simp]: "returns P (Ret x) \<longleftrightarrow> P x"
  by (simp add: returns_def)

lemma returns_bind: "(\<And>x. m = Ret x \<Longrightarrow> returns P (f x)) \<Longrightarrow> returns P (bindr m f)"
  by (cases m) (simp_all add: returns_def)

lemma returns_if:
  "(c \<Longrightarrow> returns P a) \<Longrightarrow> (\<not> c \<Longrightarrow> returns P b) \<Longrightarrow> returns P (if c then a else b)"
  by simp

lemmas returns_intros = returns_bind returns_if

text \<open>
  A command also changes a state, which outlives a fault: what was written before the
  SIGSEGV stays written.
\<close>

type_synonym ('s, 'a) cmd = "'s \<Rightarrow> 'a run \<times> 's"

definition bindc :: "('s, 'a) cmd \<Rightarrow> ('a \<Rightarrow> ('s, 'b) cmd) \<Rightarrow> ('s, 'b) cmd" where
  "bindc m f s = (case m s of
     (Ret x, s') \<Rightarrow> f x s' | (Segv, s') \<Rightarrow> (Segv, s') | (Undef, s') \<Rightarrow> (Undef, s')
   | (Hang, s') \<Rightarrow> (Hang, s') | (Abort, s') \<Rightarrow> (Abort, s'))"

definition retc :: "'a \<Rightarrow> ('s, 'a) cmd" where
  "retc x s = (Ret x, s)"

text \<open>A computation that only reads the state.\<close>

definition readc :: "('s \<Rightarrow> 'a run) \<Rightarrow> ('s, 'a) cmd" where
  "readc f s = (f s, s)"

definition updc :: "('s \<Rightarrow> 's) \<Rightarrow> ('s, unit) cmd" where
  "updc f s = (Ret (), f s)"

lemma bindc_simps [simp]:
  "m s = (Ret x, s') \<Longrightarrow> bindc m f s = f x s'"
  "m s = (Segv, s') \<Longrightarrow> bindc m f s = (Segv, s')"
  "m s = (Undef, s') \<Longrightarrow> bindc m f s = (Undef, s')"
  "m s = (Hang, s') \<Longrightarrow> bindc m f s = (Hang, s')"
  "m s = (Abort, s') \<Longrightarrow> bindc m f s = (Abort, s')"
  by (simp_all add: bindc_def)

lemma cmd_simps [simp]:
  "retc x s = (Ret x, s)" "updc h s = (Ret (), h s)" "readc r s = (r s, s)"
  by (simp_all add: retc_def updc_def readc_def)

lemma bindc_eq_Ret:
  "bindc m f s = (Ret y, s'') \<longleftrightarrow> (\<exists>x s'. m s = (Ret x, s') \<and> f x s' = (Ret y, s''))"
  by (auto simp: bindc_def split: prod.splits run.splits)

lemma bindc_RetE:
  assumes "bindc m f s = (Ret y, s'')"
  obtains x s' where "m s = (Ret x, s')" and "f x s' = (Ret y, s'')"
  using assms by (auto simp: bindc_eq_Ret)

text \<open>A command that never changes a part of the state.\<close>

definition keeps :: "('s \<Rightarrow> 'b) \<Rightarrow> ('s, 'a) cmd \<Rightarrow> bool" where
  "keeps part m \<longleftrightarrow> (\<forall>s. part (snd (m s)) = part s)"

lemma keepsI: "(\<And>s. part (snd (m s)) = part s) \<Longrightarrow> keeps part m"
  by (simp add: keeps_def)

lemma keepsD: "keeps part m \<Longrightarrow> m s = (r, s') \<Longrightarrow> part s' = part s"
  by (metis keeps_def snd_conv)

lemma keeps_snd: "keeps part m \<Longrightarrow> part (snd (m s)) = part s"
  by (simp add: keeps_def)

lemma keeps_bindc: "keeps part m \<Longrightarrow> (\<And>x. keeps part (f x)) \<Longrightarrow> keeps part (bindc m f)"
proof (rule keepsI)
  fix s
  assume m: "keeps part m" and f: "\<And>x. keeps part (f x)"
  obtain r s' where rs: "m s = (r, s')" by fastforce
  from keepsD [OF m rs] f [unfolded keeps_def] show "part (snd (bindc m f s)) = part s"
    by (cases r) (simp_all add: bindc_def rs)
qed

lemma keeps_retc: "keeps part (retc x)" and keeps_readc: "keeps part (readc r)"
  by (simp_all add: keeps_def)

lemma keeps_Pair [simp]: "keeps part (Pair x)"
  by (simp add: keeps_def)

lemma keeps_updc: "(\<And>s. part (h s) = part s) \<Longrightarrow> keeps part (updc h)"
  by (simp add: keeps_def)

lemma keeps_if: "(c \<Longrightarrow> keeps part a) \<Longrightarrow> (\<not> c \<Longrightarrow> keeps part b) \<Longrightarrow> keeps part (if c then a else b)"
  by simp

lemma keeps_choose:
  "(\<And>s. c s \<Longrightarrow> part (snd (a s)) = part s) \<Longrightarrow> (\<And>s. \<not> c s \<Longrightarrow> part (snd (b s)) = part s) \<Longrightarrow>
     keeps part (\<lambda>s. if c s then a s else b s)"
  by (simp add: keeps_def)

lemmas keeps_intros = keeps_bindc keeps_retc keeps_readc keeps_updc keeps_if

text \<open>A command that ends, by returning or by a fault.\<close>

definition ends :: "('s, 'a) cmd \<Rightarrow> bool" where
  "ends m \<longleftrightarrow> (\<forall>s. fst (m s) \<noteq> Hang)"

lemma endsI: "(\<And>s. fst (m s) \<noteq> Hang) \<Longrightarrow> ends m"
  by (simp add: ends_def)

lemma endsD: "ends m \<Longrightarrow> fst (m s) \<noteq> Hang"
  by (simp add: ends_def)

lemma ends_bindc: "ends m \<Longrightarrow> (\<And>x. ends (f x)) \<Longrightarrow> ends (bindc m f)"
proof (rule endsI)
  fix s
  assume m: "ends m" and f: "\<And>x. ends (f x)"
  obtain r s' where rs: "m s = (r, s')" by fastforce
  with m have "r \<noteq> Hang" by (metis endsD fst_conv)
  then show "fst (bindc m f s) \<noteq> Hang"
    using f [unfolded ends_def] by (cases r) (simp_all add: bindc_def rs)
qed

lemma ends_retc: "ends (retc x)" and ends_updc: "ends (updc h)"
  by (simp_all add: ends_def)

lemma ends_readc: "(\<And>s. r s \<noteq> Hang) \<Longrightarrow> ends (readc r)"
  by (simp add: ends_def)

lemma ends_if: "(c \<Longrightarrow> ends a) \<Longrightarrow> (\<not> c \<Longrightarrow> ends b) \<Longrightarrow> ends (if c then a else b)"
  by simp

lemma ends_choose: "ends a \<Longrightarrow> ends b \<Longrightarrow> ends (\<lambda>s. if c s then a s else b s)"
  by (simp add: ends_def)

lemma ends_split: "(\<And>a b. ends (f a b)) \<Longrightarrow> ends (case p of (a, b) \<Rightarrow> f a b)"
  by (cases p) simp

lemmas ends_intros = ends_bindc ends_retc ends_updc ends_readc ends_if ends_split

lemma bindr_Hang [simp]: "bindr m f = Hang \<longleftrightarrow> m = Hang \<or> (\<exists>x. m = Ret x \<and> f x = Hang)"
  by (cases m) simp_all

section \<open>Memory\<close>

type_synonym mem = "u64 \<Rightarrow> u8 option"

definition ld8 :: "mem \<Rightarrow> u64 \<Rightarrow> u8 run" where
  "ld8 m a = (case m a of None \<Rightarrow> Segv | Some b \<Rightarrow> Ret b)"

fun ldbytes :: "mem \<Rightarrow> u64 \<Rightarrow> nat \<Rightarrow> u8 list run" where
  "ldbytes m a 0 = Ret []"
| "ldbytes m a (Suc n) = bindr (ld8 m a) (\<lambda>b. bindr (ldbytes m (a + 1) n) (\<lambda>bs. Ret (b # bs)))"

fun le16 :: "u8 list \<Rightarrow> u16" where
  "le16 (b0 # b1 # _) = ucast b0 OR push_bit 8 (ucast b1)"
| "le16 _ = 0"

definition le64 :: "u8 list \<Rightarrow> u64" where
  "le64 bs = ucast (le32 bs) OR push_bit 32 (ucast (le32 (drop 4 bs)))"

definition bytes64 :: "u64 \<Rightarrow> u8 list" where
  "bytes64 w = bytes32 (ucast w) @ bytes32 (ucast (drop_bit 32 w))"

definition ld16 :: "mem \<Rightarrow> u64 \<Rightarrow> u16 run" where
  "ld16 m a = bindr (ldbytes m a 2) (\<lambda>bs. Ret (le16 bs))"
definition ld32 :: "mem \<Rightarrow> u64 \<Rightarrow> u32 run" where
  "ld32 m a = bindr (ldbytes m a 4) (\<lambda>bs. Ret (le32 bs))"
definition ld64 :: "mem \<Rightarrow> u64 \<Rightarrow> u64 run" where
  "ld64 m a = bindr (ldbytes m a 8) (\<lambda>bs. Ret (le64 bs))"

lemma loads_end [simp]:
  "ld8 m a \<noteq> Hang" "ldbytes m a n \<noteq> Hang" "ld16 m a \<noteq> Hang" "ld32 m a \<noteq> Hang" "ld64 m a \<noteq> Hang"
proof -
  show 8: "ld8 m a \<noteq> Hang" for a by (simp add: ld8_def split: option.split)
  show "ldbytes m a n \<noteq> Hang" for a n by (induction n arbitrary: a) (auto simp: 8)
  then show "ld16 m a \<noteq> Hang" "ld32 m a \<noteq> Hang" "ld64 m a \<noteq> Hang"
    by (simp_all add: ld16_def ld32_def ld64_def)
qed

text \<open>Stores, and memory that holds given bytes at an address.\<close>

fun stbytes :: "mem \<Rightarrow> u64 \<Rightarrow> u8 list \<Rightarrow> mem" where
  "stbytes m a [] = m"
| "stbytes m a (b # bs) = stbytes (m(a := Some b)) (a + 1) bs"

lemma length_bytes64 [simp, len_simps]: "length (bytes64 w) = 8"
  by (simp add: bytes64_def)

lemma le64_bytes64 [simp]: "le64 (bytes64 w) = w"
proof -
  have "le64 (bytes64 w) = ucast (ucast w :: u32) OR push_bit 32 (ucast (ucast (drop_bit 32 w) :: u32))"
    using le32_bytes32 [of "ucast w" "bytes32 (ucast (drop_bit 32 w))"]
      le32_bytes32 [of "ucast (drop_bit 32 w)" "[]"]
    by (simp add: le64_def bytes64_def)
  also have "\<dots> = w"
    by (rule bit_word_eqI) (auto simp: bit_ucast_word bit_simps)
  finally show ?thesis .
qed

text \<open>Memory that holds given bytes at an address.\<close>

fun holds :: "mem \<Rightarrow> u64 \<Rightarrow> u8 list \<Rightarrow> bool" where
  "holds m a [] \<longleftrightarrow> True"
| "holds m a (b # bs) \<longleftrightarrow> m a = Some b \<and> holds m (a + 1) bs"

lemma holds_append: "holds m a (xs @ ys) \<longleftrightarrow> holds m a xs \<and> holds m (a + of_nat (length xs)) ys"
  by (induction xs arbitrary: a) (auto simp: add.assoc)

text \<open>A memory image given by blocks of bytes at their addresses.\<close>

fun mem_of :: "(u64 \<times> u8 list) list \<Rightarrow> mem" where
  "mem_of [] a = None"
| "mem_of ((b, bs) # blocks) a =
     (let i = unat (a - b) in if i < length bs then Some (bs ! i) else mem_of blocks a)"

section \<open>C strings\<close>

definition byte_of :: "char \<Rightarrow> u8" where
  "byte_of c = of_nat (of_char c)"

text \<open>
  A C string handed over by a caller is a \<open>string\<close> without its terminator. \<open>strcmp\<close> with a
  string in memory reads up to the first difference.
\<close>

fun mem_streq :: "mem \<Rightarrow> string \<Rightarrow> u64 \<Rightarrow> bool run" where
  "mem_streq m [] a = bindr (ld8 m a) (\<lambda>b. Ret (b = 0))"
| "mem_streq m (c # cs) a =
     bindr (ld8 m a) (\<lambda>b. if b = byte_of c then mem_streq m cs (a + 1) else Ret False)"

text \<open>A NUL-terminated string at an address.\<close>

fun cstr_at :: "mem \<Rightarrow> u64 \<Rightarrow> string \<Rightarrow> bool" where
  "cstr_at m a [] = (m a = Some 0)"
| "cstr_at m a (c # cs) = (c \<noteq> CHR 0x00 \<and> m a = Some (byte_of c) \<and> cstr_at m (a + 1) cs)"

lemma unat_byte_of: "unat (byte_of c) = of_char c"
  using nat_of_char_less_256 [of c] by (simp add: byte_of_def unat_of_nat)

lemma byte_of_inject [simp]: "byte_of c = byte_of d \<longleftrightarrow> c = d"
proof
  assume "byte_of c = byte_of d"
  then have "(of_char c :: nat) = of_char d" by (metis unat_byte_of)
  then show "c = d" by simp
qed simp

lemma byte_of_eq_0 [simp]: "byte_of c = 0 \<longleftrightarrow> c = CHR 0x00"
  using byte_of_inject [of c "CHR 0x00"] by (simp add: byte_of_def)

lemma mem_streq_cstr:
  assumes "cstr_at m a t" and "CHR 0x00 \<notin> set s"
  shows "mem_streq m s a = Ret (s = t)"
  using assms
proof (induction s arbitrary: a t)
  case Nil
  then show ?case by (cases t) (auto simp: ld8_def)
next
  case (Cons c s)
  then show ?case
    by (cases t) (auto simp: ld8_def eq_commute [of 0])
qed

section \<open>Text lines\<close>

definition isspace_c :: "char \<Rightarrow> bool" where
  "isspace_c c \<longleftrightarrow> c \<in> {CHR '' '', CHR 0x09, CHR 0x0a, CHR 0x0b, CHR 0x0c, CHR 0x0d}"

text \<open>\<open>fgets\<close> into a buffer of \<open>cap\<close> bytes: the line read (with its newline) and the rest.\<close>

fun fgets :: "nat \<Rightarrow> string \<Rightarrow> string \<times> string" where
  "fgets cap [] = ([], [])"
| "fgets cap (c # cs) =
     (if cap \<le> 1 then ([], c # cs)
      else if c = CHR 0x0a then ([c], cs)
      else let (l, r) = fgets (cap - 1) cs in (c # l, r))"

lemma fgets_append: "fgets cap s = (l, r) \<Longrightarrow> s = l @ r"
  by (induction cap s arbitrary: l r rule: fgets.induct) (auto split: if_splits prod.splits)

lemma fgets_progress: "2 \<le> cap \<Longrightarrow> s \<noteq> [] \<Longrightarrow> fst (fgets cap s) \<noteq> []"
  by (cases s) (auto split: prod.split)

lemma fgets_length: "length (fst (fgets cap s)) \<le> cap - 1"
  by (induction cap s rule: fgets.induct) (auto split: prod.splits)

lemma fgets_shorter:
  assumes "fgets cap s = (l, r)" and "s \<noteq> []" and "\<not> cap < 2"
  shows "length r < length s"
proof -
  have "s = l @ r" using assms(1) by (rule fgets_append)
  moreover have "l \<noteq> []" using fgets_progress [of cap s] assms by simp
  ultimately show ?thesis by simp
qed

text \<open>The lines a loop over \<open>fgets\<close> sees.\<close>

function file_lines :: "nat \<Rightarrow> string \<Rightarrow> string list" where
  "file_lines cap s =
     (if s = [] \<or> cap < 2 then []
      else case fgets cap s of (l, r) \<Rightarrow> l # file_lines cap r)"
  by pat_completeness auto
termination
  by (relation "measure (\<lambda>(cap, s). length s)") (auto dest: fgets_shorter [OF sym])

declare file_lines.simps [simp del]

text \<open>
  \<open>sscanf\<close> for the conversions the sources use: hexadecimal and decimal integers (assigned or
  suppressed), \<open>%ns\<close>, literal characters, white space and \<open>%n\<close>. The result is the list of
  assigned values, whose length is the return value, and what \<open>%n\<close> stored, if it was reached.
\<close>

datatype scan_dir = ScanHex bool | ScanDec bool | ScanStr nat | ScanLit char | ScanWs | ScanPos
datatype scan_val = VNum u64 | VStr string

definition hex_digit :: "char \<Rightarrow> nat option" where
  "hex_digit c =
     (let n = of_char c :: nat in
      if 48 \<le> n \<and> n \<le> 57 then Some (n - 48)
      else if 97 \<le> n \<and> n \<le> 102 then Some (n - 87)
      else if 65 \<le> n \<and> n \<le> 70 then Some (n - 55) else None)"

definition digit_of :: "nat \<Rightarrow> char \<Rightarrow> nat option" where
  "digit_of base c = (case hex_digit c of None \<Rightarrow> None | Some d \<Rightarrow> if d < base then Some d else None)"

fun take_digits :: "nat \<Rightarrow> string \<Rightarrow> nat list \<times> string" where
  "take_digits base [] = ([], [])"
| "take_digits base (c # cs) = (case digit_of base c of
     None \<Rightarrow> ([], c # cs)
   | Some d \<Rightarrow> let (ds, r) = take_digits base cs in (d # ds, r))"

text \<open>An integer as \<open>strtoul\<close> reads it: a sign, \<open>0x\<close> for base 16, digits; it saturates.\<close>

definition scan_number :: "nat \<Rightarrow> string \<Rightarrow> (u64 \<times> string) option" where
  "scan_number base s =
     (let s = dropWhile isspace_c s;
          (neg, s) = (case s of c # r \<Rightarrow>
              if c = CHR ''-'' then (True, r) else if c = CHR ''+'' then (False, r) else (False, s)
            | [] \<Rightarrow> (False, s));
          s = (if base = 16 \<and> take 1 s = ''0'' \<and> (take 1 (drop 1 s) = ''x'' \<or> take 1 (drop 1 s) = ''X'')
                  \<and> fst (take_digits 16 (drop 2 s)) \<noteq> [] then drop 2 s else s);
          (ds, r) = take_digits base s;
          v = foldl (\<lambda>n d. n * int base + int d) 0 ds;
          w = (if 2 ^ 64 \<le> v then - 1 else if neg then - word_of_int v else word_of_int v)
      in if ds = [] then None else Some (w, r))"

fun sscanf :: "scan_dir list \<Rightarrow> nat \<Rightarrow> string \<Rightarrow> scan_val list \<times> nat option" where
  "sscanf [] len s = ([], None)"
| "sscanf (ScanWs # ds) len s = sscanf ds len (dropWhile isspace_c s)"
| "sscanf (ScanPos # ds) len s =
     (let (vs, p) = sscanf ds len s in (vs, Some (case p of None \<Rightarrow> len - length s | Some n \<Rightarrow> n)))"
| "sscanf (ScanLit c # ds) len s =
     (case s of x # r \<Rightarrow> if x = c then sscanf ds len r else ([], None) | [] \<Rightarrow> ([], None))"
| "sscanf (ScanStr n # ds) len s =
     (let s = dropWhile isspace_c s; w = takeWhile (\<lambda>c. \<not> isspace_c c) (take n s) in
      if w = [] then ([], None)
      else let (vs, p) = sscanf ds len (drop (length w) s) in (VStr w # vs, p))"
| "sscanf (ScanHex assign # ds) len s = (case scan_number 16 s of None \<Rightarrow> ([], None)
   | Some (v, r) \<Rightarrow> let (vs, p) = sscanf ds len r in ((if assign then VNum v # vs else vs), p))"
| "sscanf (ScanDec assign # ds) len s = (case scan_number 10 s of None \<Rightarrow> ([], None)
   | Some (v, r) \<Rightarrow> let (vs, p) = sscanf ds len r in ((if assign then VNum v # vs else vs), p))"

text \<open>
  The pathname of a line of the maps file, as every reader of the file in the sources takes
  it: from the position \<open>%n\<close> stored, past white space but not past the buffer, without the
  newline; no pathname where nothing is left.
\<close>

fun skip_space :: "nat \<Rightarrow> string \<Rightarrow> nat \<Rightarrow> nat" where
  "skip_space cap [] pos = pos"
| "skip_space cap (c # cs) pos =
     (if isspace_c c \<and> pos < cap - 1 then skip_space cap cs (Suc pos) else pos)"

definition line_pathname :: "nat \<Rightarrow> string \<Rightarrow> nat \<Rightarrow> string option" where
  "line_pathname cap line pos0 =
     (let pos = skip_space cap (drop pos0 line) pos0 in
      if cap - 1 \<le> pos then None
      else
        let pathname = drop pos line in
        if pathname = [] then None
        else
          let pathname = (if last pathname = CHR 0x0a then butlast pathname else pathname) in
          if pathname = [] then None else Some pathname)"

text \<open>\<open>s[i]\<close> for a string kept in a zero-filled array.\<close>

definition nth_c :: "string \<Rightarrow> nat \<Rightarrow> char" where
  "nth_c s i = (if i < length s then s ! i else CHR 0x00)"

end
