(* ===== verification/World.thy ===== *)
theory World
  imports Machine
begin

text \<open>
  The state of the hooked process as libxhook sees it, and the kernel and C library services
  it calls. The services are a parameter of the model: a record of functions. What the code
  relies on about them is stated in \<open>kernel_laws\<close>.
\<close>

section \<open>Process state\<close>

text \<open>An entry of the cached maps file (\<open>maps_item_t\<close> of \<open>xh_maps.c\<close>).\<close>

record maps_item =
  item_start :: u64
  item_end :: u64
  item_perms :: string
  item_offset :: u32
  item_pathname :: "string option"

text \<open>An entry as \<open>memset(.., 0, ..)\<close> leaves it.\<close>

definition zero_item :: maps_item where
  "zero_item = \<lparr>item_start = 0, item_end = 0, item_perms = replicate 4 (CHR 0x00), item_offset = 0,
     item_pathname = None\<rparr>"

text \<open>How the calling thread holds the lock of the maps cache.\<close>

datatype lock_state = Unlocked | RdLocked | WrLocked

record world =
  w_mem :: mem
  proc_maps :: "string option" \<comment> \<open>\<open>/proc/self/maps\<close> when it is next opened; \<open>None\<close>: it cannot be\<close>
  maps_arr :: "maps_item list" \<comment> \<open>\<open>s_xh_maps_maps_items.items\<close>, the whole allocation\<close>
  maps_count :: nat \<comment> \<open>\<open>s_xh_maps_maps_items.count\<close>\<close>
  maps_invalidated :: bool \<comment> \<open>\<open>s_xh_maps_invalidated\<close>\<close>
  access_locked :: bool \<comment> \<open>the thread-local \<open>s_xh_maps_access_locked\<close>\<close>
  access_lock :: lock_state \<comment> \<open>what the thread holds of \<open>s_xh_maps_access_lock\<close>\<close>
  flushed :: "(u64 \<times> u64) list" \<comment> \<open>ranges given to \<open>__builtin___clear_cache\<close>, latest first\<close>
  allocs :: nat \<comment> \<open>number of allocations requested so far\<close>

section \<open>Services outside the repository\<close>

record os =
  os_mprotect :: "world \<Rightarrow> u64 \<Rightarrow> u64 \<Rightarrow> u32 \<Rightarrow> int \<times> int \<times> world" \<comment> \<open>result, errno, state\<close>
  os_vm_writev :: "world \<Rightarrow> u64 \<Rightarrow> u8 list \<Rightarrow> int \<times> world"
  os_dladdr :: "world \<Rightarrow> u64 \<Rightarrow> bool"
  os_malloc :: "nat \<Rightarrow> bool" \<comment> \<open>whether the \<open>n\<close>-th allocation succeeds\<close>
  os_regcomp :: "string \<Rightarrow> bool"
  os_regexec :: "string \<Rightarrow> string \<Rightarrow> bool"
  os_sigaction :: "world \<Rightarrow> int option" \<comment> \<open>\<open>None\<close>: it succeeds; else \<open>errno\<close>\<close>
  os_key_create :: "world \<Rightarrow> bool" \<comment> \<open>whether \<open>pthread_key_create\<close> succeeds\<close>
  os_setspecific :: "world \<Rightarrow> bool"
  os_thread_create :: "world \<Rightarrow> bool"

definition malloc_c :: "os \<Rightarrow> (world, bool) cmd" where
  "malloc_c os w = (Ret (os_malloc os (allocs w)), w\<lparr>allocs := Suc (allocs w)\<rparr>)"

definition abortc :: "(world, 'a) cmd" where
  "abortc w = (Abort, w)"

text \<open>
  The documented behaviour the code relies on: \<open>mprotect\<close> changes protections only, never
  what memory holds or the library's own variables; \<open>process_vm_writev\<close> returns the number
  of bytes it has written from the start of the buffer, or -1 having written nothing.
\<close>

definition kernel_laws :: "os \<Rightarrow> bool" where
  "kernel_laws os \<longleftrightarrow>
     (\<forall>w a n prot. \<exists>pm. snd (snd (os_mprotect os w a n prot)) = w\<lparr>proc_maps := pm\<rparr>) \<and>
     (\<forall>w a bs. case os_vm_writev os w a bs of (n, w') \<Rightarrow>
        n \<le> int (length bs) \<and> (n < 0 \<longrightarrow> w' = w) \<and>
        (0 \<le> n \<longrightarrow> w' = w\<lparr>w_mem := stbytes (w_mem w) a (take (nat n) bs)\<rparr>))"

lemma kernel_mprotect:
  assumes "kernel_laws os" and "os_mprotect os w a n prot = (r, e, w')"
  obtains pm where "w' = w\<lparr>proc_maps := pm\<rparr>"
  using assms by (metis kernel_laws_def snd_conv)

lemma kernel_writev:
  assumes "kernel_laws os" and "os_vm_writev os w a bs = (n, w')"
  shows "n = int (length bs) \<Longrightarrow> w' = w\<lparr>w_mem := stbytes (w_mem w) a bs\<rparr>"
proof -
  have "case os_vm_writev os w a bs of (n, w') \<Rightarrow>
      n \<le> int (length bs) \<and> (n < 0 \<longrightarrow> w' = w) \<and>
      (0 \<le> n \<longrightarrow> w' = w\<lparr>w_mem := stbytes (w_mem w) a (take (nat n) bs)\<rparr>)"
    using assms(1) by (simp add: kernel_laws_def)
  then show "n = int (length bs) \<Longrightarrow> w' = w\<lparr>w_mem := stbytes (w_mem w) a bs\<rparr>"
    by (simp add: assms(2))
qed

text \<open>A kernel that satisfies the laws: protections always change, writes always succeed.\<close>

definition plain_os :: os where
  "plain_os = \<lparr>os_mprotect = (\<lambda>w a n prot. (0, 0, w)),
     os_vm_writev = (\<lambda>w a bs. (int (length bs), w\<lparr>w_mem := stbytes (w_mem w) a bs\<rparr>)),
     os_dladdr = (\<lambda>w a. True), os_malloc = (\<lambda>n. True),
     os_regcomp = (\<lambda>p. True), os_regexec = (\<lambda>p s. p = s),
     os_sigaction = (\<lambda>w. None), os_key_create = (\<lambda>w. True), os_setspecific = (\<lambda>w. True),
     os_thread_create = (\<lambda>w. True)\<rparr>"

lemma kernel_laws_plain_os: "kernel_laws plain_os"
proof -
  have "\<exists>pm. w = w\<lparr>proc_maps := pm\<rparr>" for w :: world
    by (rule exI [of _ "proc_maps w"]) simp
  then show ?thesis by (simp add: kernel_laws_def plain_os_def)
qed

end
