(* ===== verification/XhMaps.thy ===== *)
theory XhMaps
  imports World
begin

text \<open>
  The cache of the maps file (\<open>libxhook/xh_maps.c\<close>): its re-entrant lock, the reader that
  fills the array of entries, the binary search and the iteration with a callback.
\<close>

section \<open>The lock\<close>

definition xh_lock_read_accesslock :: "world \<Rightarrow> world" where
  "xh_lock_read_accesslock w =
     (if \<not> access_locked w then w\<lparr>access_locked := True, access_lock := RdLocked\<rparr> else w)"

definition xh_lock_write_accesslock :: "world \<Rightarrow> world" where
  "xh_lock_write_accesslock w =
     (if \<not> access_locked w then w\<lparr>access_locked := True, access_lock := WrLocked\<rparr> else w)"

definition xh_unlock_accesslock :: "world \<Rightarrow> world" where
  "xh_unlock_accesslock w =
     (if access_locked w then w\<lparr>access_lock := Unlocked, access_locked := False\<rparr> else w)"

definition xh_maps_invalidate :: "world \<Rightarrow> world" where
  "xh_maps_invalidate w = w\<lparr>maps_invalidated := False\<rparr>"

section \<open>Reading the file\<close>

definition PATH_MAX :: nat where "PATH_MAX = 4096"

definition maps_format :: "scan_dir list" where
  "maps_format = [ScanHex True, ScanLit (CHR ''-''), ScanHex True, ScanWs, ScanStr 4, ScanWs,
     ScanHex True, ScanWs, ScanHex False, ScanLit (CHR '':''), ScanHex False, ScanWs,
     ScanDec False, ScanPos]"

text \<open>
  One line: the entry it describes, or \<open>None\<close> where the loop continues with the next line.
  \<open>strncpy\<close> fills the four permission characters with zeros, and the offset is cut to an
  \<open>int\<close>.
\<close>

definition strncpy :: "nat \<Rightarrow> string \<Rightarrow> string" where
  "strncpy n s = take n s @ replicate (n - length s) (CHR 0x00)"

definition parse_maps_line :: "string \<Rightarrow> maps_item option" where
  "parse_maps_line line =
     (case sscanf maps_format (length line) line of
        ([VNum start, VNum end_, VStr perms, VNum offset], pos) \<Rightarrow>
          (case line_pathname PATH_MAX line (case pos of None \<Rightarrow> 0 | Some n \<Rightarrow> n) of
             None \<Rightarrow> None
           | Some pathname \<Rightarrow> Some \<lparr>item_start = start, item_end = end_, item_perms = strncpy 4 perms,
               item_offset = ucast offset, item_pathname = Some pathname\<rparr>)
      | _ \<Rightarrow> None)"

text \<open>The array grows by 32 entries whenever the index reaches the size known so far.\<close>

definition maps_grow :: "os \<Rightarrow> nat \<Rightarrow> nat \<Rightarrow> (world, nat) cmd" where
  "maps_grow os idx cur_n = (\<lambda>w.
     if maps_arr w = [] \<or> cur_n \<le> idx then
       bindc (malloc_c os) (\<lambda>ok.
         if \<not> ok then abortc
         else bindc (updc (\<lambda>w. w\<lparr>maps_arr := take cur_n (maps_arr w) @ replicate 32 zero_item\<rparr>))
                (\<lambda>_. retc (cur_n + 32))) w
     else retc cur_n w)"

definition maps_store :: "nat \<Rightarrow> maps_item \<Rightarrow> (world, unit) cmd" where
  "maps_store idx item = (\<lambda>w.
     if idx < length (maps_arr w) then (Ret (), w\<lparr>maps_arr := (maps_arr w)[idx := item]\<rparr>)
     else (Segv, w))"

fun maps_read :: "os \<Rightarrow> string list \<Rightarrow> nat \<Rightarrow> nat \<Rightarrow> (world, nat) cmd" where
  "maps_read os [] idx cur_n = retc idx"
| "maps_read os (line # lines) idx cur_n =
     (case parse_maps_line line of
        None \<Rightarrow> maps_read os lines idx cur_n
      | Some item \<Rightarrow>
          bindc (malloc_c os) (\<lambda>ok. if \<not> ok then abortc else
          bindc (maps_grow os idx cur_n) (\<lambda>cur_n'.
          bindc (maps_store idx item) (\<lambda>_. maps_read os lines (Suc idx) cur_n'))))"

definition xh_maps_update :: "os \<Rightarrow> (world, unit) cmd" where
  "xh_maps_update os =
     bindc (updc xh_lock_write_accesslock) (\<lambda>_ w.
       if maps_invalidated w then updc xh_unlock_accesslock w
       else
         bindc (updc (\<lambda>w. w\<lparr>maps_invalidated := True\<rparr>)) (\<lambda>_ w.
           case proc_maps w of
             None \<Rightarrow> abortc w
           | Some content \<Rightarrow>
               bindc (maps_read os (file_lines PATH_MAX content) 0 (maps_count w)) (\<lambda>n.
               bindc (updc (\<lambda>w. w\<lparr>maps_count := n\<rparr>)) (\<lambda>_.
               updc xh_unlock_accesslock)) w) w)"

section \<open>Looking an address up\<close>

text \<open>
  The binary search over \<open>int\<close> bounds, as written: the upper bound starts at the count, one
  past the last entry, and a too small entry moves the lower bound to the middle itself.
  The outer \<open>None\<close> is a search that never ends.
\<close>

partial_function (option) maps_search ::
    "maps_item list \<Rightarrow> u64 \<Rightarrow> int \<Rightarrow> int \<Rightarrow> maps_item option run option" where
  "maps_search arr addr left right =
     (if \<not> left \<le> right then Some (Ret None)
      else let mid = (right - left) div 2 + left in
        if \<not> (0 \<le> mid \<and> nat mid < length arr) then Some Segv
        else let item = arr ! nat mid in
          if addr < item_start item then maps_search arr addr left (mid - 1)
          else if item_end item \<le> addr then maps_search arr addr mid right
          else Some (Ret (Some item)))"

definition xh_maps_query :: "os \<Rightarrow> u64 \<Rightarrow> (world, maps_item option) cmd" where
  "xh_maps_query os addr =
     bindc (xh_maps_update os) (\<lambda>_.
     bindc (updc xh_lock_read_accesslock) (\<lambda>_.
     bindc (readc (\<lambda>w. case maps_search (maps_arr w) addr 0 (int (maps_count w)) of
                         None \<Rightarrow> Hang | Some r \<Rightarrow> r)) (\<lambda>res.
     bindc (updc xh_unlock_accesslock) (\<lambda>_. retc res))))"

section \<open>Iteration\<close>

text \<open>
  The callback works on its own data next to the process state. The bound is read anew for
  every index; the callbacks of the sources never invalidate the cache, so the count does
  not grow while they run.
\<close>

definition liftw :: "(world, 'a) cmd \<Rightarrow> ('d \<times> world, 'a) cmd" where
  "liftw m = (\<lambda>(d, w). case m w of (r, w') \<Rightarrow> (r, (d, w')))"

fun maps_loop :: "(maps_item \<Rightarrow> ('d \<times> world, int) cmd) \<Rightarrow> nat list \<Rightarrow> ('d \<times> world, int) cmd" where
  "maps_loop cb [] s = (Ret 0, s)"
| "maps_loop cb (i # is) s =
     (if \<not> i < maps_count (snd s) then (Ret 0, s)
      else if \<not> i < length (maps_arr (snd s)) then (Segv, s)
      else bindc (cb (maps_arr (snd s) ! i)) (\<lambda>ret. if ret \<noteq> 0 then retc ret else maps_loop cb is) s)"

definition xh_maps_iterate ::
    "os \<Rightarrow> (maps_item \<Rightarrow> ('d \<times> world, int) cmd) \<Rightarrow> ('d \<times> world, int) cmd" where
  "xh_maps_iterate os cb =
     bindc (liftw (xh_maps_update os)) (\<lambda>_.
     bindc (liftw (updc xh_lock_read_accesslock)) (\<lambda>_ s.
       bindc (maps_loop cb [0..<maps_count (snd s)]) (\<lambda>ret.
       bindc (liftw (updc xh_unlock_accesslock)) (\<lambda>_. retc ret)) s))"

section \<open>The cache is what the file says\<close>

definition maps_ok :: "world \<Rightarrow> bool" where
  "maps_ok w \<longleftrightarrow> maps_count w \<le> length (maps_arr w)"

definition maps_items :: "world \<Rightarrow> maps_item list" where
  "maps_items w = take (maps_count w) (maps_arr w)"

lemma maps_grow_eq:
  "maps_grow os idx cur_n w =
     (if maps_arr w = [] \<or> cur_n \<le> idx then
        if os_malloc os (allocs w) then
          (Ret (cur_n + 32), w\<lparr>allocs := Suc (allocs w),
             maps_arr := take cur_n (maps_arr w) @ replicate 32 zero_item\<rparr>)
        else (Abort, w\<lparr>allocs := Suc (allocs w)\<rparr>)
      else (Ret cur_n, w))"
  by (simp add: maps_grow_def malloc_c_def bindc_def abortc_def)

lemma maps_grow_cases:
  assumes "idx \<le> cur_n" and "cur_n \<le> length (maps_arr w)"
  shows "(\<exists>w'. maps_grow os idx cur_n w = (Abort, w') \<and> \<not> (\<forall>n. os_malloc os n)) \<or>
    (\<exists>c arr k. maps_grow os idx cur_n w = (Ret c, w\<lparr>allocs := k, maps_arr := arr\<rparr>) \<and>
       idx < c \<and> c \<le> length arr \<and> take idx arr = take idx (maps_arr w))"
proof (cases "maps_arr w = [] \<or> cur_n \<le> idx")
  case True
  with assms have "cur_n = idx" by auto
  with assms True show ?thesis
    by (cases "os_malloc os (allocs w)") (auto simp: maps_grow_eq intro!: exI)
next
  case False
  with assms show ?thesis
    by (intro disjI2 exI [of _ cur_n] exI [of _ "maps_arr w"] exI [of _ "allocs w"])
      (simp add: maps_grow_eq)
qed

lemma take_Suc_update:
  "i < length xs \<Longrightarrow> take (Suc i) (xs[i := v]) = take i xs @ [v]"
  by (simp add: take_Suc_conv_app_nth)

lemma maps_read_step:
  assumes "parse_maps_line line = Some item" and "os_malloc os (allocs w)"
    and "maps_grow os idx cur_n (w\<lparr>allocs := Suc (allocs w)\<rparr>) = (Ret c, w1)"
    and "idx < length (maps_arr w1)"
  shows "maps_read os (line # lines) idx cur_n w =
    maps_read os lines (Suc idx) c (w1\<lparr>maps_arr := (maps_arr w1)[idx := item]\<rparr>)"
  using assms by (simp add: malloc_c_def bindc_def maps_store_def)

lemma maps_read_cases:
  assumes "idx \<le> cur_n" and "cur_n \<le> length (maps_arr w)"
  shows "(\<exists>w'. maps_read os lines idx cur_n w = (Abort, w') \<and> \<not> (\<forall>n. os_malloc os n)) \<or>
    (\<exists>n arr k. maps_read os lines idx cur_n w = (Ret n, w\<lparr>allocs := k, maps_arr := arr\<rparr>) \<and>
       n \<le> length arr \<and> take n arr = take idx (maps_arr w) @ List.map_filter parse_maps_line lines)"
  using assms
proof (induction lines arbitrary: idx cur_n w)
  case Nil
  then show ?case
    by (intro disjI2 exI [of _ idx] exI [of _ "maps_arr w"] exI [of _ "allocs w"])
      (simp add: map_filter_simps)
next
  case (Cons line lines)
  show ?case
  proof (cases "parse_maps_line line")
    case None
    with Cons show ?thesis by (simp add: map_filter_simps)
  next
    case item: (Some item)
    let ?w = "w\<lparr>allocs := Suc (allocs w)\<rparr>"
    show ?thesis
    proof (cases "os_malloc os (allocs w)")
      case False
      then show ?thesis by (auto simp: item malloc_c_def bindc_def abortc_def)
    next
      case ok: True
      from Cons.prems have "idx \<le> cur_n" "cur_n \<le> length (maps_arr ?w)" by simp_all
      from maps_grow_cases [OF this, of os] show ?thesis
      proof (elim disjE exE conjE)
        fix w'
        assume "maps_grow os idx cur_n ?w = (Abort, w')" "\<not> (\<forall>n. os_malloc os n)"
        then show ?thesis by (simp add: item ok malloc_c_def bindc_def)
      next
        fix c arr k
        assume grow: "maps_grow os idx cur_n ?w = (Ret c, ?w\<lparr>allocs := k, maps_arr := arr\<rparr>)"
          and arr: "idx < c" "c \<le> length arr" "take idx arr = take idx (maps_arr ?w)"
        let ?w2 = "?w\<lparr>allocs := k, maps_arr := arr[idx := item]\<rparr>"
        have step: "maps_read os (line # lines) idx cur_n w = maps_read os lines (Suc idx) c ?w2"
          using maps_read_step [OF item ok grow, of lines] arr by simp
        have pre: "Suc idx \<le> c" "c \<le> length (maps_arr ?w2)" using arr by simp_all
        have "take (Suc idx) (maps_arr ?w2) = take idx (maps_arr w) @ [item]"
          using arr by (simp add: take_Suc_update)
        then show ?thesis
          using Cons.IH [OF pre]
          unfolding step by (simp add: item map_filter_simps del: maps_read.simps)
      qed
    qed
  qed
qed

lemma xh_maps_update_fresh:
  assumes ok: "maps_ok w" and "\<not> maps_invalidated w" and "proc_maps w = Some content"
  shows "(\<exists>w'. xh_maps_update os w = (Abort, w') \<and> \<not> (\<forall>n. os_malloc os n)) \<or>
    (\<exists>n arr k. xh_maps_update os w = (Ret (), w\<lparr>maps_arr := arr, maps_count := n, allocs := k,
         maps_invalidated := True, access_locked := False, access_lock := Unlocked\<rparr>) \<and>
       n \<le> length arr \<and> take n arr = List.map_filter parse_maps_line (file_lines PATH_MAX content))"
proof -
  let ?w = "xh_lock_write_accesslock w\<lparr>maps_invalidated := True\<rparr>"
  have "maps_count ?w \<le> length (maps_arr ?w)"
    using ok by (simp add: maps_ok_def xh_lock_write_accesslock_def)
  from maps_read_cases [OF le0 this, of os "file_lines PATH_MAX content"]
  show ?thesis
  proof (elim disjE exE conjE)
    fix w'
    assume "maps_read os (file_lines PATH_MAX content) 0 (maps_count ?w) ?w = (Abort, w')"
      "\<not> (\<forall>n. os_malloc os n)"
    then show ?thesis
      using assms by (simp add: xh_maps_update_def xh_lock_write_accesslock_def split: if_splits)
  next
    fix n arr k
    assume rd: "maps_read os (file_lines PATH_MAX content) 0 (maps_count ?w) ?w =
        (Ret n, ?w\<lparr>allocs := k, maps_arr := arr\<rparr>)"
      and arr: "n \<le> length arr" "take n arr = take 0 (maps_arr ?w) @
        List.map_filter parse_maps_line (file_lines PATH_MAX content)"
    have "xh_maps_update os w = (Ret (), w\<lparr>maps_arr := arr, maps_count := n, allocs := k,
         maps_invalidated := True, access_locked := False, access_lock := Unlocked\<rparr>)"
      using assms rd
      by (cases w) (simp add: xh_maps_update_def xh_lock_write_accesslock_def
          xh_unlock_accesslock_def split: if_splits)
    with arr show ?thesis by auto
  qed
qed


lemma xh_maps_update_cached:
  "maps_invalidated w \<Longrightarrow>
     xh_maps_update os w = (Ret (), w\<lparr>access_locked := False, access_lock := Unlocked\<rparr>)"
  by (cases w) (simp add: xh_maps_update_def xh_lock_write_accesslock_def xh_unlock_accesslock_def)

lemma xh_maps_update_ret:
  assumes "maps_ok w" and "maps_invalidated w \<or> proc_maps w \<noteq> None \<and> (\<forall>n. os_malloc os n)"
  obtains n arr k where "xh_maps_update os w = (Ret (), w\<lparr>maps_arr := arr, maps_count := n, allocs := k,
         maps_invalidated := True, access_locked := False, access_lock := Unlocked\<rparr>)"
    and "n \<le> length arr"
    and "take n arr = (if maps_invalidated w then maps_items w
           else List.map_filter parse_maps_line (file_lines PATH_MAX (the (proc_maps w))))"
proof (cases "maps_invalidated w")
  case True
  have "w\<lparr>access_locked := False, access_lock := Unlocked\<rparr> = w\<lparr>maps_arr := maps_arr w,
         maps_count := maps_count w, allocs := allocs w,
         maps_invalidated := True, access_locked := False, access_lock := Unlocked\<rparr>"
    using True by (cases w) simp
  then show ?thesis
    using that [where n = "maps_count w" and arr = "maps_arr w" and k = "allocs w"] xh_maps_update_cached [OF True] assms(1) True
    by (simp add: maps_ok_def maps_items_def)
next
  case False
  with assms(2) obtain content where "proc_maps w = Some content" by auto
  from xh_maps_update_fresh [OF assms(1) False this, of os] assms(2) that show ?thesis
    using False \<open>proc_maps w = Some content\<close> by auto
qed

section \<open>Searching\<close>

lemma maps_search_sound:
  assumes "maps_search arr addr left right = Some (Ret (Some item))"
  shows "item \<in> set arr \<and> item_start item \<le> addr \<and> addr < item_end item"
proof -
  have "\<forall>item. r = Ret (Some item) \<longrightarrow>
      item \<in> set arr \<and> item_start item \<le> addr \<and> addr < item_end item"
    if "maps_search arr addr left right = Some r" for r
    by (rule maps_search.raw_induct [where P = "\<lambda>arr addr left right r. \<forall>item. r = Ret (Some item) \<longrightarrow>
          item \<in> set arr \<and> item_start item \<le> addr \<and> addr < item_end item", OF _ that])
      (fastforce simp: Let_def not_less split: if_splits)
  from this [OF assms] show ?thesis by simp
qed

text \<open>
  While every entry below the upper bound lies below the address, the lower bound moves to the
  middle and never reaches the upper bound.
\<close>

definition all_below :: "maps_item list \<Rightarrow> u64 \<Rightarrow> nat \<Rightarrow> bool" where
  "all_below arr addr n \<longleftrightarrow> (\<forall>i<n. item_start (arr ! i) \<le> addr \<and> item_end (arr ! i) \<le> addr)"

lemma maps_search_stuck:
  assumes "0 \<le> left" and "left < right" and "nat right \<le> length arr" and "all_below arr addr (nat right)"
  shows "maps_search arr addr left right = None"
proof (rule ccontr)
  assume "maps_search arr addr left right \<noteq> None"
  then obtain r where r: "maps_search arr addr left right = Some r" by blast
  let ?P = "\<lambda>arr addr left right r. \<not> (0 \<le> left \<and> left < right \<and> nat right \<le> length arr \<and>
    all_below arr addr (nat right))"
  have "?P arr addr left right r"
  proof (rule maps_search.raw_induct [where P = ?P, OF _ r], rule notI)
    fix f :: "maps_item list \<Rightarrow> u64 \<Rightarrow> int \<Rightarrow> int \<Rightarrow> maps_item option run option"
    fix arr :: "maps_item list" and addr :: u64 and left right :: int and y
    let ?mid = "(right - left) div 2 + left"
    assume IH: "\<And>arr addr left right y. f arr addr left right = Some y \<Longrightarrow> ?P arr addr left right y"
    assume eq: "(if \<not> left \<le> right then Some (Ret None)
      else let mid = (right - left) div 2 + left in
        if \<not> (0 \<le> mid \<and> nat mid < length arr) then Some Segv
        else let item = arr ! nat mid in
          if addr < item_start item then f arr addr left (mid - 1)
          else if item_end item \<le> addr then f arr addr mid right
          else Some (Ret (Some item))) = Some y"
    assume pre: "0 \<le> left \<and> left < right \<and> nat right \<le> length arr \<and> all_below arr addr (nat right)"
    then have mid: "0 \<le> ?mid" "nat ?mid < nat right" "?mid < right" by auto
    then have "\<not> addr < item_start (arr ! nat ?mid)" "item_end (arr ! nat ?mid) \<le> addr"
      using pre by (auto simp: all_below_def not_less)
    with eq mid pre have "f arr addr ?mid right = Some y" by (simp add: Let_def)
    from IH [OF this] mid pre show False by simp
  qed
  with assms show False by simp
qed

section \<open>Iterating\<close>

text \<open>A callback that leaves the process state alone.\<close>

definition pure_cb :: "(maps_item \<Rightarrow> 'd \<Rightarrow> int \<times> 'd) \<Rightarrow> maps_item \<Rightarrow> ('d \<times> world, int) cmd" where
  "pure_cb f item = (\<lambda>(d, w). case f item d of (r, d') \<Rightarrow> (Ret r, (d', w)))"

fun iter_items :: "(maps_item \<Rightarrow> 'd \<Rightarrow> int \<times> 'd) \<Rightarrow> maps_item list \<Rightarrow> 'd \<Rightarrow> int \<times> 'd" where
  "iter_items f [] d = (0, d)"
| "iter_items f (x # xs) d = (case f x d of (r, d') \<Rightarrow> if r \<noteq> 0 then (r, d') else iter_items f xs d')"

lemma maps_loop_pure:
  assumes "maps_ok w" and "i + n = maps_count w"
  shows "maps_loop (pure_cb f) [i..<i + n] (d, w) =
    (case iter_items f (drop i (maps_items w)) d of (r, d') \<Rightarrow> (Ret r, (d', w)))"
  using assms
proof (induction n arbitrary: i d)
  case 0
  then show ?case by (simp add: maps_items_def)
next
  case (Suc n)
  then have i: "i < maps_count w" "i < length (maps_arr w)" by (auto simp: maps_ok_def)
  then have "drop i (maps_items w) = maps_arr w ! i # drop (Suc i) (maps_items w)"
    using Suc.prems by (simp add: maps_items_def Cons_nth_drop_Suc [symmetric] maps_ok_def)
  with i Suc show ?case
    by (simp add: upt_rec [of i] pure_cb_def bindc_def split: prod.splits)
qed

lemma xh_maps_iterate_pure:
  assumes "maps_ok w" and "maps_invalidated w \<or> proc_maps w \<noteq> None \<and> (\<forall>n. os_malloc os n)"
  obtains w' where "xh_maps_iterate os (pure_cb f) (d, w) =
      (case iter_items f (maps_items w') d of (r, d') \<Rightarrow> (Ret r, (d', w')))"
    and "xh_maps_update os w = (Ret (), w')"
    and "maps_items w' = (if maps_invalidated w then maps_items w
           else List.map_filter parse_maps_line (file_lines PATH_MAX (the (proc_maps w))))"
    and "maps_ok w'" and "maps_invalidated w'" and "w_mem w' = w_mem w" and "flushed w' = flushed w"
    and "access_lock w' = Unlocked" and "\<not> access_locked w'"
proof -
  from assms obtain n arr k where up: "xh_maps_update os w = (Ret (), w\<lparr>maps_arr := arr, maps_count := n,
         allocs := k, maps_invalidated := True, access_locked := False, access_lock := Unlocked\<rparr>)"
    and n: "n \<le> length arr"
    and items: "take n arr = (if maps_invalidated w then maps_items w
           else List.map_filter parse_maps_line (file_lines PATH_MAX (the (proc_maps w))))"
    by (rule xh_maps_update_ret)
  let ?w = "w\<lparr>maps_arr := arr, maps_count := n,
         allocs := k, maps_invalidated := True, access_locked := False, access_lock := Unlocked\<rparr>"
  let ?w1 = "?w\<lparr>access_locked := True, access_lock := RdLocked\<rparr>"
  have loop: "maps_loop (pure_cb f) [0..<n] (d, ?w1) =
    (case iter_items f (maps_items ?w1) d of (r, d') \<Rightarrow> (Ret r, (d', ?w1)))"
    using maps_loop_pure [of ?w1 0 n f d] n by (simp add: maps_ok_def)
  have "xh_maps_iterate os (pure_cb f) (d, w) =
      (case iter_items f (maps_items ?w) d of (r, d') \<Rightarrow> (Ret r, (d', ?w)))"
    using up loop
    by (cases w) (simp add: xh_maps_iterate_def bindc_def liftw_def xh_lock_read_accesslock_def
        xh_unlock_accesslock_def maps_items_def split: prod.splits)
  then show ?thesis
    using n items by (intro that [OF _ up]) (simp_all add: maps_items_def maps_ok_def)
qed

section \<open>Properties\<close>

definition sample_maps :: string where
  "sample_maps = ''10000-12000 r-xp 00000000 103:05 77 /system/lib64/liba.so'' @ [CHR 0x0a] @
     ''7000000-7001000 rw-p 00000000 00:00 0 '' @ [CHR 0x0a]"

definition sample_item :: maps_item where
  "sample_item = \<lparr>item_start = 0x10000, item_end = 0x12000, item_perms = ''r-xp'', item_offset = 0,
     item_pathname = Some ''/system/lib64/liba.so''\<rparr>"

definition sample_world :: world where
  "sample_world = \<lparr>w_mem = (\<lambda>_. None), proc_maps = Some sample_maps, maps_arr = [], maps_count = 0,
     maps_invalidated = False, access_locked = False, access_lock = Unlocked, flushed = [], allocs = 0\<rparr>"

lemma sample_maps_parse: "List.map_filter parse_maps_line (file_lines PATH_MAX sample_maps) = [sample_item]"
  by code_simp

text \<open>
  C25: with a readable maps file and allocations that succeed, refreshing a stale cache of any
  earlier content leaves exactly the entries of the file's named lines, in the file's order,
  marks the cache valid, drops the lock and touches no other memory.
\<close>

theorem maps_update_correct:
  assumes "maps_ok w" and "\<not> maps_invalidated w" and "proc_maps w = Some content"
    and "\<And>n. os_malloc os n"
  shows "\<exists>w'. xh_maps_update os w = (Ret (), w') \<and> maps_ok w' \<and> maps_invalidated w' \<and>
    maps_items w' = List.map_filter parse_maps_line (file_lines PATH_MAX content) \<and>
    access_lock w' = Unlocked \<and> w_mem w' = w_mem w"
proof -
  from xh_maps_update_fresh [OF assms(1-3), of os] assms(4)
  obtain n arr k where "xh_maps_update os w = (Ret (), w\<lparr>maps_arr := arr, maps_count := n, allocs := k,
         maps_invalidated := True, access_locked := False, access_lock := Unlocked\<rparr>)"
    "n \<le> length arr" "take n arr = List.map_filter parse_maps_line (file_lines PATH_MAX content)"
    by auto
  then show ?thesis by (simp add: maps_ok_def maps_items_def)
qed

theorem maps_update_correct_witness:
  "\<exists>w'. xh_maps_update plain_os sample_world = (Ret (), w') \<and> maps_items w' = [sample_item]"
  using maps_update_correct [of sample_world sample_maps plain_os] sample_maps_parse
  by (auto simp: sample_world_def plain_os_def maps_ok_def)

text \<open>
  from every consistent cache, whatever the file holds and whichever allocations fail, the
  refresh never stores outside the array it allocated: it ends normally with a consistent
  cache, or in the abort the code asks for.
\<close>

theorem maps_update_in_bounds:
  assumes "maps_ok w"
  shows "fst (xh_maps_update os w) = Abort \<or>
    (fst (xh_maps_update os w) = Ret () \<and> maps_ok (snd (xh_maps_update os w)))"
proof (cases "maps_invalidated w")
  case True
  with assms show ?thesis by (simp add: xh_maps_update_cached maps_ok_def)
next
  case False
  show ?thesis
  proof (cases "proc_maps w")
    case None
    with False show ?thesis
      by (simp add: xh_maps_update_def bindc_def abortc_def xh_lock_write_accesslock_def)
  next
    case (Some content)
    from xh_maps_update_fresh [OF assms False this, of os] show ?thesis
      by (auto simp: maps_ok_def)
  qed
qed

theorem maps_update_in_bounds_witness:
  "fst (xh_maps_update plain_os sample_world) = Abort \<or>
    (fst (xh_maps_update plain_os sample_world) = Ret () \<and> maps_ok (snd (xh_maps_update plain_os sample_world)))"
  using maps_update_in_bounds [of sample_world plain_os] by (simp add: sample_world_def maps_ok_def)

text \<open>
  C27: the binary search of \<open>xh_maps_query\<close> never returns for an address above all cached
  entries (it moves its lower bound to the middle, not past it), and hangs with the read lock
  held.
\<close>

theorem maps_query_hangs:
  assumes "maps_ok w" and "maps_invalidated w" and "0 < maps_count w"
    and "\<forall>item \<in> set (maps_items w). item_start item \<le> addr \<and> item_end item \<le> addr"
  shows "fst (xh_maps_query os addr w) = Hang \<and> access_lock (snd (xh_maps_query os addr w)) = RdLocked"
proof -
  have "maps_arr w ! i \<in> set (maps_items w)" if "i < maps_count w" for i
    using that assms(1) nth_mem [of i "maps_items w"] by (simp add: maps_items_def maps_ok_def)
  with assms(4) have "all_below (maps_arr w) addr (maps_count w)"
    by (simp add: all_below_def)
  with assms have "maps_search (maps_arr w) addr 0 (int (maps_count w)) = None"
    by (intro maps_search_stuck) (auto simp: maps_ok_def)
  with assms show ?thesis
    by (simp add: xh_maps_query_def xh_maps_update_cached bindc_def xh_lock_read_accesslock_def)
qed

theorem maps_query_hangs_witness:
  "fst (xh_maps_query plain_os 0x20000 (sample_world\<lparr>maps_arr := [sample_item], maps_count := 1,
     maps_invalidated := True\<rparr>)) = Hang"
  using maps_query_hangs [of "sample_world\<lparr>maps_arr := [sample_item], maps_count := 1,
     maps_invalidated := True\<rparr>" "0x20000" plain_os]
  by (simp add: maps_ok_def maps_items_def sample_item_def)

text \<open>
  When \<open>xh_maps_query\<close> returns an entry, the entry is in the cache and contains the
  address, and the lock has been dropped.
\<close>

theorem maps_query_sound:
  assumes "xh_maps_query os addr w = (Ret (Some item), w')"
  shows "item \<in> set (maps_arr w') \<and> item_start item \<le> addr \<and> addr < item_end item \<and>
    access_lock w' = Unlocked"
  using assms
  by (auto simp: xh_maps_query_def bindc_eq_Ret xh_lock_read_accesslock_def xh_unlock_accesslock_def
      dest!: maps_search_sound split: option.splits if_splits)

theorem maps_query_sound_witness:
  "item_start sample_item \<le> 0x10010 \<and> 0x10010 < item_end sample_item"
  using maps_query_sound [of plain_os "0x10010" "sample_world\<lparr>maps_arr := [sample_item], maps_count := 1,
     maps_invalidated := True\<rparr>" sample_item "sample_world\<lparr>maps_arr := [sample_item], maps_count := 1,
     maps_invalidated := True, access_lock := Unlocked, access_locked := False\<rparr>"]
  by (simp add: sample_world_def xh_maps_query_def xh_maps_update_cached xh_lock_read_accesslock_def
      xh_unlock_accesslock_def maps_search.simps [of _ _ 0 1] sample_item_def)

text \<open>
  the lock flag of a thread is not a counter: a refresh or iteration started from a callback
  drops the lock that the outer iteration holds.
\<close>

theorem maps_update_drops_outer_lock:
  assumes "access_lock w = RdLocked" and "access_locked w" and "maps_invalidated w"
  shows "xh_maps_update os w = (Ret (), w\<lparr>access_lock := Unlocked, access_locked := False\<rparr>)"
  using assms by (cases w) (simp add: xh_maps_update_cached)

theorem maps_update_drops_outer_lock_witness:
  "access_lock (snd (xh_maps_update plain_os (sample_world\<lparr>access_lock := RdLocked, access_locked := True,
     maps_invalidated := True\<rparr>))) = Unlocked"
  using maps_update_drops_outer_lock [of "sample_world\<lparr>access_lock := RdLocked, access_locked := True,
     maps_invalidated := True\<rparr>" plain_os] by simp

text \<open>
  an iteration with a callback that only works on its own data calls it on the entries of
  the refreshed cache, in order, until it first returns a nonzero value, and returns that value
  with the lock dropped.
\<close>

theorem maps_iterate_correct:
  assumes "maps_ok w" and "\<not> maps_invalidated w" and "proc_maps w = Some content"
    and "\<And>n. os_malloc os n"
    and "iter_items f (List.map_filter parse_maps_line (file_lines PATH_MAX content)) d = (r, d')"
  shows "\<exists>w'. xh_maps_iterate os (pure_cb f) (d, w) = (Ret r, (d', w')) \<and>
    access_lock w' = Unlocked \<and> \<not> access_locked w' \<and> w_mem w' = w_mem w"
  by (rule xh_maps_iterate_pure [of w os f d]) (use assms in auto)

theorem maps_iterate_correct_witness:
  "\<exists>w'. xh_maps_iterate plain_os (pure_cb (\<lambda>item n. (0, Suc n))) (0, sample_world) = (Ret 0, (1, w'))"
  using maps_iterate_correct [of sample_world sample_maps plain_os "\<lambda>item n. (0, Suc n)" 0 0 1]
    sample_maps_parse
  by (auto simp: sample_world_def plain_os_def maps_ok_def)

end
