(* ===== verification/XhUtil.thy ===== *)
theory XhUtil
  imports XhMaps
begin

text \<open>
  Page protections and safe writes (\<open>libxhook/xh_util.c\<close>, error codes of \<open>xh_errno.h\<close>): the
  protection of an address range as the maps cache records it, \<open>mprotect\<close> on the pages that
  hold a pointer, and the write through \<open>process_vm_writev\<close>.
\<close>

section \<open>Error codes\<close>

definition XH_ERRNO_UNKNOWN :: int where "XH_ERRNO_UNKNOWN = 1001"
definition XH_ERRNO_INVAL :: int where "XH_ERRNO_INVAL = 1002"
definition XH_ERRNO_NOMEM :: int where "XH_ERRNO_NOMEM = 1003"
definition XH_ERRNO_REPEAT :: int where "XH_ERRNO_REPEAT = 1004"
definition XH_ERRNO_NOTFND :: int where "XH_ERRNO_NOTFND = 1005"
definition XH_ERRNO_BADMAPS :: int where "XH_ERRNO_BADMAPS = 1006"
definition XH_ERRNO_FORMAT :: int where "XH_ERRNO_FORMAT = 1007"
definition XH_ERRNO_ELFINIT :: int where "XH_ERRNO_ELFINIT = 1008"
definition XH_ERRNO_SEGVERR :: int where "XH_ERRNO_SEGVERR = 1009"

named_theorems errno_defs \<open>the error codes\<close>

lemmas xh_errnos [errno_defs] = XH_ERRNO_UNKNOWN_def XH_ERRNO_INVAL_def XH_ERRNO_NOMEM_def
  XH_ERRNO_REPEAT_def XH_ERRNO_NOTFND_def XH_ERRNO_BADMAPS_def XH_ERRNO_FORMAT_def
  XH_ERRNO_ELFINIT_def XH_ERRNO_SEGVERR_def

lemma xh_errno_nonzero [simp]:
  "XH_ERRNO_UNKNOWN \<noteq> 0" "XH_ERRNO_INVAL \<noteq> 0" "XH_ERRNO_NOMEM \<noteq> 0" "XH_ERRNO_REPEAT \<noteq> 0"
  "XH_ERRNO_NOTFND \<noteq> 0" "XH_ERRNO_BADMAPS \<noteq> 0" "XH_ERRNO_FORMAT \<noteq> 0" "XH_ERRNO_ELFINIT \<noteq> 0"
  "XH_ERRNO_SEGVERR \<noteq> 0"
  by (simp_all add: errno_defs)

section \<open>Pages\<close>

definition PAGE_SIZE :: u64 where "PAGE_SIZE = 4096"

definition PAGE_START :: "u64 \<Rightarrow> u64" where
  "PAGE_START addr = addr AND NOT (PAGE_SIZE - 1)"
definition PAGE_END :: "u64 \<Rightarrow> u64" where
  "PAGE_END addr = PAGE_START (addr + 8 - 1) + PAGE_SIZE"
definition PAGE_COVER :: "u64 \<Rightarrow> u64" where
  "PAGE_COVER addr = PAGE_END addr - PAGE_START addr"

section \<open>Protection of a range\<close>

definition PROT_READ :: u32 where "PROT_READ = 1"
definition PROT_WRITE :: u32 where "PROT_WRITE = 2"
definition PROT_EXEC :: u32 where "PROT_EXEC = 4"

text \<open>What the callback keeps between entries: \<open>*prot\<close>, \<open>load0\<close> and \<open>found_all\<close>.\<close>

record protect_data =
  pd_prot :: u32
  pd_load0 :: bool
  pd_found_all :: bool

definition perms_set :: "string \<Rightarrow> u32 \<Rightarrow> u32" where
  "perms_set perms prot =
     (let prot = (if nth_c perms 0 = CHR ''r'' then prot OR PROT_READ else prot);
          prot = (if nth_c perms 1 = CHR ''w'' then prot OR PROT_WRITE else prot)
      in if nth_c perms 2 = CHR ''x'' then prot OR PROT_EXEC else prot)"

definition perms_clear :: "string \<Rightarrow> u32 \<Rightarrow> u32" where
  "perms_clear perms prot =
     (let prot = (if nth_c perms 0 \<noteq> CHR ''r'' then prot AND NOT PROT_READ else prot);
          prot = (if nth_c perms 1 \<noteq> CHR ''w'' then prot AND NOT PROT_WRITE else prot)
      in if nth_c perms 2 \<noteq> CHR ''x'' then prot AND NOT PROT_EXEC else prot)"

definition xh_util_get_mem_protect_maps_iter_cb ::
    "u64 \<Rightarrow> u64 \<Rightarrow> string \<Rightarrow> maps_item \<Rightarrow> protect_data \<Rightarrow> int \<times> protect_data" where
  "xh_util_get_mem_protect_maps_iter_cb start_addr end_addr expected_pathname item d =
     (if item_pathname item \<noteq> None \<and> item_pathname item \<noteq> Some expected_pathname then (0, d)
      else if nth_c (item_perms item) 3 \<noteq> CHR ''p'' then (0, d)
      else
        let d = d\<lparr>pd_prot := 0\<rparr> in
        if item_start item \<le> start_addr \<and> start_addr < item_end item then
          let d = (if pd_load0 d
                   then d\<lparr>pd_prot := perms_set (item_perms item) (pd_prot d), pd_load0 := False\<rparr>
                   else d\<lparr>pd_prot := perms_clear (item_perms item) (pd_prot d)\<rparr>)
          in if end_addr \<le> item_end item then (1, d\<lparr>pd_found_all := True\<rparr>) else (0, d)
        else (0, d))"

text \<open>The result is the error code and \<open>*prot\<close>.\<close>

definition xh_util_get_mem_protect ::
    "os \<Rightarrow> u64 \<Rightarrow> u64 \<Rightarrow> string \<Rightarrow> (world, int \<times> u32) cmd" where
  "xh_util_get_mem_protect os addr len pathname w =
     (let end_addr = addr + len in
      case xh_maps_iterate os (pure_cb (xh_util_get_mem_protect_maps_iter_cb addr end_addr pathname))
             (\<lparr>pd_prot = 0, pd_load0 = True, pd_found_all = False\<rparr>, w) of
        (r, (d, w')) \<Rightarrow>
          (bindr r (\<lambda>_. Ret (if \<not> pd_found_all d then XH_ERRNO_SEGVERR else 0, pd_prot d)), w'))"

definition xh_util_get_addr_protect :: "os \<Rightarrow> u64 \<Rightarrow> string \<Rightarrow> (world, int \<times> u32) cmd" where
  "xh_util_get_addr_protect os addr pathname = xh_util_get_mem_protect os addr 8 pathname"

definition xh_util_set_addr_protect :: "os \<Rightarrow> u64 \<Rightarrow> u32 \<Rightarrow> (world, int) cmd" where
  "xh_util_set_addr_protect os addr prot w =
     (case os_mprotect os w (PAGE_START addr) (PAGE_COVER addr) prot of
        (r, errno, w') \<Rightarrow>
          (Ret (if r \<noteq> 0 then (if errno = 0 then XH_ERRNO_UNKNOWN else errno) else 0), w'))"

definition xh_util_flush_instruction_cache :: "u64 \<Rightarrow> (world, unit) cmd" where
  "xh_util_flush_instruction_cache addr =
     updc (\<lambda>w. w\<lparr>flushed := (PAGE_START addr, PAGE_END addr) # flushed w\<rparr>)"

definition xh_util_write_memory_safely :: "os \<Rightarrow> u64 \<Rightarrow> u8 list \<Rightarrow> (world, int) cmd" where
  "xh_util_write_memory_safely os dest buf w =
     (case os_vm_writev os w dest buf of (n, w') \<Rightarrow> (Ret n, w'))"

section \<open>Facts\<close>

lemma PAGE_START_unat: "unat (PAGE_START a) = unat a div 4096 * 4096"
proof -
  have "PAGE_START a = push_bit 12 (drop_bit 12 a)"
  proof (rule bit_word_eqI)
    fix n assume "n < LENGTH(64)"
    have "PAGE_SIZE - 1 = mask 12" by (simp add: mask_eq_exp_minus_1 PAGE_SIZE_def)
    then show "bit (PAGE_START a) n = bit (push_bit 12 (drop_bit 12 a)) n"
      using \<open>n < LENGTH(64)\<close> by (auto simp: PAGE_START_def bit_simps not_less)
  qed
  then have "unat (PAGE_START a) = take_bit 64 (push_bit 12 (drop_bit 12 (unat a)))"
    using take_bit_nat_eq_self [OF unat_below [of a]]
    by (simp add: unsigned_push_bit_eq unsigned_drop_bit_eq)
  also have "\<dots> = push_bit 12 (drop_bit 12 (unat a)) mod 2 ^ 64" by (simp add: take_bit_eq_mod)
  also have "\<dots> = unat a div 4096 * 4096"
  proof -
    have "unat a div 4096 * 4096 < 2 ^ 64"
      using unat_below [of a] by (auto intro: le_less_trans [OF div_times_less_eq_dividend])
    then show ?thesis by (simp add: push_bit_eq_mult drop_bit_eq_div)
  qed
  finally show ?thesis .
qed

lemma PAGE_END_unat:
  assumes "unat a + 4103 < 2 ^ 64"
  shows "unat (PAGE_END a) = (unat a + 7) div 4096 * 4096 + 4096"
proof -
  have "unat (a + 7) = unat a + 7"
    using assms by (subst unat_add_lem [THEN iffD1]) auto
  then have s: "unat (PAGE_START (a + 7)) = (unat a + 7) div 4096 * 4096"
    by (simp add: PAGE_START_unat)
  moreover have "(unat a + 7) div 4096 * 4096 + 4096 < 2 ^ 64"
    using assms div_times_less_eq_dividend [of "unat a + 7" 4096] by linarith
  ultimately have "unat (PAGE_START (a + 7) + 4096) = (unat a + 7) div 4096 * 4096 + 4096"
    by (subst unat_add_lem [THEN iffD1]) auto
  then show ?thesis by (simp add: PAGE_END_def PAGE_SIZE_def add.commute [of 7])
qed

section \<open>Range\<close>

text \<open>The private entries of a file that contain an address.\<close>

definition covers :: "u64 \<Rightarrow> string \<Rightarrow> maps_item \<Rightarrow> bool" where
  "covers addr pathname item \<longleftrightarrow>
     (item_pathname item = None \<or> item_pathname item = Some pathname) \<and>
     nth_c (item_perms item) 3 = CHR ''p'' \<and> item_start item \<le> addr \<and> addr < item_end item"

abbreviation "protect_cb \<equiv> xh_util_get_mem_protect_maps_iter_cb"

lemma protect_cb_other:
  assumes "\<not> covers addr pathname item"
  shows "\<exists>p. protect_cb addr end_addr pathname item d = (0, d\<lparr>pd_prot := p\<rparr>)"
  using assms
  by (cases d) (auto simp: xh_util_get_mem_protect_maps_iter_cb_def covers_def Let_def)

lemma protect_cb_covers:
  assumes "covers addr pathname item"
  shows "\<exists>p. protect_cb addr end_addr pathname item d =
     (if end_addr \<le> item_end item
      then (1, d\<lparr>pd_prot := (if pd_load0 d then perms_set (item_perms item) 0 else p),
               pd_load0 := False, pd_found_all := True\<rparr>)
      else (0, d\<lparr>pd_prot := p, pd_load0 := False\<rparr>))"
  using assms
  by (cases d) (auto simp: xh_util_get_mem_protect_maps_iter_cb_def covers_def Let_def)

lemma protect_iter_none:
  assumes "\<And>item. item \<in> set items \<Longrightarrow> covers addr pathname item \<Longrightarrow> \<not> end_addr \<le> item_end item"
  shows "\<exists>d'. iter_items (protect_cb addr end_addr pathname) items d = (0, d') \<and>
    pd_found_all d' = pd_found_all d"
  using assms
proof (induction items arbitrary: d)
  case (Cons item items)
  show ?case
  proof (cases "covers addr pathname item")
    case True
    with protect_cb_covers [OF True, of end_addr d] Cons.prems Cons.IH show ?thesis
      by (fastforce split: prod.splits if_splits)
  next
    case False
    with protect_cb_other [OF False, of end_addr d] Cons.prems Cons.IH show ?thesis
      by fastforce
  qed
qed simp

lemma protect_iter_one:
  assumes "filter (covers addr pathname) items = [item]" and "end_addr \<le> item_end item" and "pd_load0 d"
  shows "iter_items (protect_cb addr end_addr pathname) items d =
    (1, \<lparr>pd_prot = perms_set (item_perms item) 0, pd_load0 = False, pd_found_all = True\<rparr>)"
  using assms
proof (induction items arbitrary: d)
  case (Cons it items)
  show ?case
  proof (cases "covers addr pathname it")
    case True
    with Cons.prems have "it = item" by simp
    with protect_cb_covers [OF True, of end_addr d] Cons.prems show ?thesis
      by (cases d) auto
  next
    case False
    with protect_cb_other [OF False, of end_addr d] Cons.prems Cons.IH show ?thesis
      by auto
  qed
qed simp

lemma xh_util_get_mem_protect_eq:
  assumes "maps_ok w" and "maps_invalidated w \<or> proc_maps w \<noteq> None \<and> (\<forall>n. os_malloc os n)"
  obtains w' where "xh_maps_update os w = (Ret (), w')" and "w_mem w' = w_mem w"
    and "flushed w' = flushed w" and "maps_ok w'" and "maps_invalidated w'"
    and "xh_util_get_mem_protect os addr len pathname w =
      (case iter_items (protect_cb addr (addr + len) pathname) (maps_items w')
              \<lparr>pd_prot = 0, pd_load0 = True, pd_found_all = False\<rparr> of
         (r, d) \<Rightarrow> (Ret (if pd_found_all d then 0 else XH_ERRNO_SEGVERR, pd_prot d), w'))"
proof (rule xh_maps_iterate_pure [OF assms])
  fix w'
  let ?d = "\<lparr>pd_prot = 0, pd_load0 = True, pd_found_all = False\<rparr>"
  assume "xh_maps_update os w = (Ret (), w')" "w_mem w' = w_mem w" "flushed w' = flushed w" "maps_ok w'"
    "maps_invalidated w'"
    "xh_maps_iterate os (pure_cb (protect_cb addr (addr + len) pathname)) (?d, w) =
      (case iter_items (protect_cb addr (addr + len) pathname) (maps_items w') ?d of
        (r, d') \<Rightarrow> (Ret r, (d', w')))"
  then show ?thesis
    by (intro that [of w']) (simp_all add: xh_util_get_mem_protect_def split: prod.splits)
qed

text \<open>
  A pointer-aligned access stays inside the pages \<open>mprotect\<close> is asked for: away from the top
  of the address space, the range starts on a page boundary at or below the address, ends after
  the eighth byte, and is one or two pages long.
\<close>

theorem page_cover_bounds:
  assumes "unat addr + 4103 < 2 ^ 64"
  shows "PAGE_START addr \<le> addr \<and> unat (PAGE_START addr) mod 4096 = 0 \<and>
    unat addr + 8 \<le> unat (PAGE_END addr) \<and>
    unat (PAGE_COVER addr) = unat (PAGE_END addr) - unat (PAGE_START addr) \<and>
    (PAGE_COVER addr = 4096 \<or> PAGE_COVER addr = 8192)"
proof -
  let ?n = "unat addr"
  note s = PAGE_START_unat [of addr] and e = PAGE_END_unat [OF assms]
  have le: "?n div 4096 * 4096 \<le> ?n" "?n + 8 \<le> (?n + 7) div 4096 * 4096 + 4096"
    using div_mult_mod_eq [of "?n + 7" 4096] mod_less_divisor [of 4096 "?n + 7"] by linarith+
  have "(?n + 7) div 4096 = ?n div 4096 \<or> (?n + 7) div 4096 = ?n div 4096 + 1"
    by linarith
  moreover have cover: "unat (PAGE_COVER addr) = unat (PAGE_END addr) - unat (PAGE_START addr)"
    unfolding PAGE_COVER_def
    by (rule unat_sub) (use s e le in \<open>simp add: word_le_nat_alt\<close>)
  ultimately have "unat (PAGE_COVER addr) = 4096 \<or> unat (PAGE_COVER addr) = 8192"
    using s e by auto
  then have "PAGE_COVER addr = 4096 \<or> PAGE_COVER addr = 8192"
    by (simp add: word_unat_eq_iff)
  then show ?thesis using s e le cover by (simp add: word_le_nat_alt)
qed

theorem page_cover_bounds_witness: "PAGE_COVER 0x1ffc = 8192 \<or> PAGE_COVER 0x1ffc = 4096"
  using page_cover_bounds [of "0x1ffc"] by auto

text \<open>
  C26: where exactly one private entry of the file (or unnamed entry) contains the address and it
  holds the whole range, the lookup returns its protection bits; where no such entry holds the
  whole range, it reports \<open>XH_ERRNO_SEGVERR\<close>, even if adjacent entries hold it together.
\<close>

theorem get_mem_protect_correct:
  assumes "maps_ok w" and "maps_invalidated w"
  shows "\<exists>r prot w'. xh_util_get_mem_protect os addr len pathname w = (Ret (r, prot), w') \<and>
    (filter (covers addr pathname) (maps_items w) = [item] \<and> addr + len \<le> item_end item \<longrightarrow>
      r = 0 \<and> prot = perms_set (item_perms item) 0) \<and>
    ((\<forall>it \<in> set (maps_items w). covers addr pathname it \<longrightarrow> \<not> addr + len \<le> item_end it) \<longrightarrow>
      r = XH_ERRNO_SEGVERR)"
proof (rule xh_util_get_mem_protect_eq [of w os addr len pathname])
  let ?d = "\<lparr>pd_prot = 0, pd_load0 = True, pd_found_all = False\<rparr>"
  fix w'
  assume "xh_maps_update os w = (Ret (), w')"
  then have items: "maps_items w' = maps_items w"
    using assms(2) by (auto simp: xh_maps_update_cached maps_items_def)
  assume eq: "xh_util_get_mem_protect os addr len pathname w =
      (case iter_items (protect_cb addr (addr + len) pathname) (maps_items w') ?d of
         (r, d) \<Rightarrow> (Ret (if pd_found_all d then 0 else XH_ERRNO_SEGVERR, pd_prot d), w'))"
  obtain r d where it: "iter_items (protect_cb addr (addr + len) pathname) (maps_items w') ?d = (r, d)"
    by fastforce
  show ?thesis
    using protect_iter_one [of addr pathname "maps_items w'" item "addr + len" ?d]
      protect_iter_none [of "maps_items w'" addr pathname "addr + len" ?d] it
    by (auto simp: eq items)
qed (use assms in auto)

theorem get_mem_protect_correct_witness:
  "\<exists>r prot w'. xh_util_get_mem_protect plain_os 0x10ff8 8 ''/system/lib64/liba.so''
      (sample_world\<lparr>maps_arr := [sample_item], maps_count := 1, maps_invalidated := True\<rparr>) =
      (Ret (r, prot), w') \<and> r = 0 \<and> prot = PROT_READ OR PROT_EXEC"
  using get_mem_protect_correct
    [of "sample_world\<lparr>maps_arr := [sample_item], maps_count := 1, maps_invalidated := True\<rparr>"
      plain_os "0x10ff8" 8 "''/system/lib64/liba.so''" sample_item]
  by (simp add: maps_ok_def maps_items_def covers_def sample_item_def nth_c_def perms_set_def)

end
