(* ===== verification/XhReloc.thy ===== *)
theory XhReloc
  imports XhUtil
begin

text \<open>
  Relocation tables (\<open>libxhook/xh_elf.c\<close>, first part): the iterator over a plain table, the
  SLEB128 decoder and the iterator over Android's packed table. Iterators keep their position in
  records; a step reads the memory it is given.
\<close>

section \<open>Plain tables\<close>

record plain_iter =
  pi_cur :: u64
  pi_end :: u64
  pi_is_use_rela :: bool

definition xh_elf_plain_reloc_iterator_init :: "u64 \<Rightarrow> u32 \<Rightarrow> bool \<Rightarrow> plain_iter" where
  "xh_elf_plain_reloc_iterator_init rel rel_sz is_use_rela =
     \<lparr>pi_cur = rel, pi_end = rel + ucast rel_sz, pi_is_use_rela = is_use_rela\<rparr>"

text \<open>
  What an iterator hands out (\<open>void *rel_common\<close>): the address of a table entry, or the entry
  it keeps itself, by its offset, info and (in a \<open>rela\<close> table) addend fields.
\<close>

datatype rel_common = RelAt u64 | RelBuf u64 u64 | RelaBuf u64 u64 u64

definition sizeof_rel :: "bool \<Rightarrow> u64" where
  "sizeof_rel is_use_rela = (if is_use_rela then 24 else 16)"

definition xh_elf_plain_reloc_iterator_next :: "plain_iter \<Rightarrow> rel_common option \<times> plain_iter" where
  "xh_elf_plain_reloc_iterator_next self =
     (if pi_end self \<le> pi_cur self then (None, self)
      else (Some (RelAt (pi_cur self)),
            self\<lparr>pi_cur := pi_cur self + sizeof_rel (pi_is_use_rela self)\<rparr>))"

section \<open>SLEB128\<close>

record sleb_decoder =
  sd_cur :: u64
  sd_end :: u64

definition xh_elf_sleb128_decoder_init :: "u64 \<Rightarrow> u32 \<Rightarrow> sleb_decoder" where
  "xh_elf_sleb128_decoder_init rel rel_sz = \<lparr>sd_cur = rel, sd_end = rel + ucast rel_sz\<rparr>"

text \<open>
  The \<open>do\<close> loop: the value, the shift and the last byte, or \<open>Inl\<close> where the bytes run out. A
  shift by 64 or more is undefined.
\<close>

function sleb_loop ::
    "mem \<Rightarrow> u64 \<Rightarrow> u64 \<Rightarrow> u64 \<Rightarrow> nat \<Rightarrow> (int + (u64 \<times> nat \<times> u8)) run \<times> u64" where
  "sleb_loop m cur lim val shift =
     (if lim \<le> cur then (Ret (Inl XH_ERRNO_FORMAT), cur)
      else case m cur of
        None \<Rightarrow> (Segv, cur)
      | Some byte \<Rightarrow>
          if 64 \<le> shift then (Undef, cur + 1)
          else
            let val' = val OR push_bit shift (ucast (byte AND 127)); shift' = shift + 7 in
            if byte AND 128 \<noteq> 0 then sleb_loop m (cur + 1) lim val' shift'
            else (Ret (Inr (val', shift', byte)), cur + 1))"
  by pat_completeness auto
termination
proof (relation "measure (\<lambda>(m, cur, lim, val, shift). unat lim - unat cur)", goal_cases)
  case (2 m cur lim val shift byte val' shift')
  then have "cur < lim" by simp
  then show ?case using unat_plus_1 [of cur lim] by (simp add: word_less_nat_alt)
qed simp

declare sleb_loop.simps [simp del]

definition xh_elf_sleb128_decoder_next :: "mem \<Rightarrow> (sleb_decoder, int + u64) cmd" where
  "xh_elf_sleb128_decoder_next m self =
     (case sleb_loop m (sd_cur self) (sd_end self) 0 0 of (r, cur) \<Rightarrow>
        (bindr r (\<lambda>x. Ret (case x of
             Inl e \<Rightarrow> Inl e
           | Inr (val, shift, byte) \<Rightarrow>
               Inr (if shift < 64 \<and> byte AND 64 \<noteq> 0 then val OR - push_bit shift 1 else val))),
         self\<lparr>sd_cur := cur\<rparr>))"

section \<open>Packed tables\<close>

record packed_iter =
  pk_decoder :: sleb_decoder
  pk_relocation_count :: u64
  pk_group_size :: u64
  pk_group_flags :: u64
  pk_group_r_offset_delta :: u64
  pk_relocation_index :: u64
  pk_relocation_group_index :: u64
  pk_r_offset :: u64
  pk_r_info :: u64
  pk_r_addend :: u64
  pk_is_use_rela :: bool

definition RELOCATION_GROUPED_BY_INFO_FLAG :: u64 where "RELOCATION_GROUPED_BY_INFO_FLAG = 1"
definition RELOCATION_GROUPED_BY_OFFSET_DELTA_FLAG :: u64 where
  "RELOCATION_GROUPED_BY_OFFSET_DELTA_FLAG = 2"
definition RELOCATION_GROUPED_BY_ADDEND_FLAG :: u64 where "RELOCATION_GROUPED_BY_ADDEND_FLAG = 4"
definition RELOCATION_GROUP_HAS_ADDEND_FLAG :: u64 where "RELOCATION_GROUP_HAS_ADDEND_FLAG = 8"

definition has_flag :: "packed_iter \<Rightarrow> u64 \<Rightarrow> bool" where
  "has_flag self flag \<longleftrightarrow> pk_group_flags self AND flag \<noteq> 0"

text \<open>The next value of the stream: on an error of the decoder the function returns \<open>err e\<close>.\<close>

definition next_val ::
    "mem \<Rightarrow> (int \<Rightarrow> 'a) \<Rightarrow> (u64 \<Rightarrow> (packed_iter, 'a) cmd) \<Rightarrow> (packed_iter, 'a) cmd" where
  "next_val m err k self =
     (case xh_elf_sleb128_decoder_next m (pk_decoder self) of
        (Ret (Inl e), d) \<Rightarrow> (Ret (err e), self\<lparr>pk_decoder := d\<rparr>)
      | (Ret (Inr v), d) \<Rightarrow> k v (self\<lparr>pk_decoder := d\<rparr>)
      | (Segv, d) \<Rightarrow> (Segv, self\<lparr>pk_decoder := d\<rparr>)
      | (Undef, d) \<Rightarrow> (Undef, self\<lparr>pk_decoder := d\<rparr>)
      | (Hang, d) \<Rightarrow> (Hang, self\<lparr>pk_decoder := d\<rparr>)
      | (Abort, d) \<Rightarrow> (Abort, self\<lparr>pk_decoder := d\<rparr>))"

definition xh_elf_packed_reloc_iterator_init ::
    "mem \<Rightarrow> u64 \<Rightarrow> u32 \<Rightarrow> bool \<Rightarrow> int run \<times> packed_iter" where
  "xh_elf_packed_reloc_iterator_init m rel rel_sz is_use_rela =
     (let self = \<lparr>pk_decoder = xh_elf_sleb128_decoder_init rel rel_sz, pk_relocation_count = 0,
        pk_group_size = 0, pk_group_flags = 0, pk_group_r_offset_delta = 0, pk_relocation_index = 0,
        pk_relocation_group_index = 0, pk_r_offset = 0, pk_r_info = 0, pk_r_addend = 0,
        pk_is_use_rela = is_use_rela\<rparr> in
      next_val m id (\<lambda>v.
        bindc (updc (\<lambda>s. s\<lparr>pk_relocation_count := v\<rparr>)) (\<lambda>_.
        next_val m id (\<lambda>v. bindc (updc (\<lambda>s. s\<lparr>pk_r_offset := v\<rparr>)) (\<lambda>_. retc 0)))) self)"

definition read_group_addend :: "mem \<Rightarrow> (packed_iter, int) cmd" where
  "read_group_addend m self =
     (if has_flag self RELOCATION_GROUP_HAS_ADDEND_FLAG \<and>
         has_flag self RELOCATION_GROUPED_BY_ADDEND_FLAG then
        if \<not> pk_is_use_rela self then (Ret XH_ERRNO_FORMAT, self)
        else next_val m id (\<lambda>v. bindc (updc (\<lambda>s. s\<lparr>pk_r_addend := pk_r_addend s + v\<rparr>)) (\<lambda>_. retc 0)) self
      else if \<not> has_flag self RELOCATION_GROUP_HAS_ADDEND_FLAG then
        (Ret 0, self\<lparr>pk_r_addend := 0\<rparr>)
      else (Ret 0, self))"

definition xh_elf_packed_reloc_iterator_read_group_fields :: "mem \<Rightarrow> (packed_iter, int) cmd" where
  "xh_elf_packed_reloc_iterator_read_group_fields m =
     next_val m id (\<lambda>v. bindc (updc (\<lambda>s. s\<lparr>pk_group_size := v\<rparr>)) (\<lambda>_.
     next_val m id (\<lambda>v. bindc (updc (\<lambda>s. s\<lparr>pk_group_flags := v\<rparr>)) (\<lambda>_.
     bindc (\<lambda>s. if has_flag s RELOCATION_GROUPED_BY_OFFSET_DELTA_FLAG
                then next_val m id (\<lambda>v. bindc (updc (\<lambda>s. s\<lparr>pk_group_r_offset_delta := v\<rparr>)) (\<lambda>_. retc 0)) s
                else (Ret 0, s)) (\<lambda>r. if r \<noteq> 0 then retc r else
     bindc (\<lambda>s. if has_flag s RELOCATION_GROUPED_BY_INFO_FLAG
                then next_val m id (\<lambda>v. bindc (updc (\<lambda>s. s\<lparr>pk_r_info := v\<rparr>)) (\<lambda>_. retc 0)) s
                else (Ret 0, s)) (\<lambda>r. if r \<noteq> 0 then retc r else
     bindc (read_group_addend m) (\<lambda>r. if r \<noteq> 0 then retc r else
     bindc (updc (\<lambda>s. s\<lparr>pk_relocation_group_index := 0\<rparr>)) (\<lambda>_. retc 0))))))))"

text \<open>
  One relocation: the entry, or \<open>None\<close> at the end of the table and on every format error.
\<close>

definition xh_elf_packed_reloc_iterator_next :: "mem \<Rightarrow> (packed_iter, rel_common option) cmd" where
  "xh_elf_packed_reloc_iterator_next m self =
     (if pk_relocation_count self \<le> pk_relocation_index self then (Ret None, self)
      else
        bindc (\<lambda>s. if pk_relocation_group_index s = pk_group_size s
                   then xh_elf_packed_reloc_iterator_read_group_fields m s
                   else (Ret 0, s)) (\<lambda>r. if r \<noteq> 0 then retc None else
        bindc (\<lambda>s. if has_flag s RELOCATION_GROUPED_BY_OFFSET_DELTA_FLAG
                   then (Ret 0, s\<lparr>pk_r_offset := pk_r_offset s + pk_group_r_offset_delta s\<rparr>)
                   else next_val m id (\<lambda>v. bindc (updc (\<lambda>s. s\<lparr>pk_r_offset := pk_r_offset s + v\<rparr>)) (\<lambda>_. retc 0)) s)
          (\<lambda>r. if r \<noteq> 0 then retc None else
        bindc (\<lambda>s. if \<not> has_flag s RELOCATION_GROUPED_BY_INFO_FLAG
                   then next_val m id (\<lambda>v. bindc (updc (\<lambda>s. s\<lparr>pk_r_info := v\<rparr>)) (\<lambda>_. retc 0)) s
                   else (Ret 0, s)) (\<lambda>r. if r \<noteq> 0 then retc None else
        bindc (\<lambda>s. if pk_is_use_rela s \<and> has_flag s RELOCATION_GROUP_HAS_ADDEND_FLAG \<and>
                      \<not> has_flag s RELOCATION_GROUPED_BY_ADDEND_FLAG
                   then next_val m id (\<lambda>v. bindc (updc (\<lambda>s. s\<lparr>pk_r_addend := pk_r_addend s + v\<rparr>)) (\<lambda>_. retc 0)) s
                   else (Ret 0, s)) (\<lambda>r. if r \<noteq> 0 then retc None else
        bindc (updc (\<lambda>s. s\<lparr>pk_relocation_index := pk_relocation_index s + 1,
                          pk_relocation_group_index := pk_relocation_group_index s + 1\<rparr>)) (\<lambda>_ s.
        (Ret (Some (if pk_is_use_rela s then RelaBuf (pk_r_offset s) (pk_r_info s) (pk_r_addend s)
                    else RelBuf (pk_r_offset s) (pk_r_info s))), s)))))) self)"

section \<open>Decoding what an encoder writes\<close>

function sleb_encode :: "int \<Rightarrow> u8 list" where
  "sleb_encode v =
     (if drop_bit 7 v = 0 \<and> \<not> bit v 6 \<or> drop_bit 7 v = - 1 \<and> bit v 6
      then [word_of_int (take_bit 7 v)]
      else word_of_int (take_bit 7 v OR 128) # sleb_encode (drop_bit 7 v))"
  by pat_completeness auto
termination
proof (relation "measure (\<lambda>v. nat (if v < 0 then - v - 1 else v))", goal_cases)
  case (2 v)
  have "v \<noteq> 0" using 2 by auto
  moreover have "v \<noteq> - 1"
  proof
    assume "v = - 1"
    with 2 show False by simp
  qed
  ultimately show ?case by (auto simp: drop_bit_eq_div)
qed simp

declare sleb_encode.simps [simp del]

lemma neg_exp: "- push_bit s 1 = (NOT (mask s) :: u64)"
  by (simp add: minus_exp_eq_not_mask push_bit_eq_mult)

lemma bit_127: "bit (127 :: u8) k \<longleftrightarrow> k < 7" "bit (127 :: int) k \<longleftrightarrow> k < 7"
proof -
  have "(127 :: u8) = mask 7" "(127 :: int) = mask 7" by (simp_all add: mask_eq_exp_minus_1)
  moreover have "bit (mask 7 :: u8) k \<longleftrightarrow> k < 7" "bit (mask 7 :: int) k \<longleftrightarrow> k < 7"
    by (auto simp: bit_mask_iff possible_bit_word)
  ultimately show "bit (127 :: u8) k \<longleftrightarrow> k < 7" "bit (127 :: int) k \<longleftrightarrow> k < 7" by metis+
qed

lemma bit_128: "bit (128 :: int) k \<longleftrightarrow> k = 7"
  using bit_exp_iff [of 7 k, where ?'a = int] by simp

lemma byte_flag:
  "(b :: u8) AND 128 \<noteq> 0 \<longleftrightarrow> bit b 7" "b AND 64 \<noteq> 0 \<longleftrightarrow> bit b 6"
  using and_exp_eq_0_iff_not_bit [of b 7] and_exp_eq_0_iff_not_bit [of b 6] by simp_all

lemma sleb_byte:
  fixes b :: u8
  assumes "b = word_of_int (take_bit 7 (drop_bit shift v)) \<or> b = word_of_int (take_bit 7 (drop_bit shift v) OR 128)"
  shows "(word_of_int (take_bit shift v) :: u64) OR push_bit shift (ucast (b AND 127)) =
    word_of_int (take_bit (shift + 7) v)"
proof (rule bit_word_eqI)
  fix n
  assume "n < LENGTH(64)"
  then show "bit ((word_of_int (take_bit shift v) :: u64) OR push_bit shift (ucast (b AND 127))) n =
      bit (word_of_int (take_bit (shift + 7) v) :: u64) n"
    using assms by (auto simp: bit_simps bit_ucast_word bit_127 bit_128)
qed

lemma sleb_flags:
  "(word_of_int (take_bit 7 v) :: u8) AND 128 = 0"
  "(word_of_int (take_bit 7 v OR 128) :: u8) AND 128 \<noteq> 0"
  "(word_of_int (take_bit 7 v) :: u8) AND 64 \<noteq> 0 \<longleftrightarrow> bit v 6"
  using byte_flag(1) [of "word_of_int (take_bit 7 v)"] byte_flag(1) [of "word_of_int (take_bit 7 v OR 128)"]
    byte_flag(2) [of "word_of_int (take_bit 7 v)"]
  by (auto simp: bit_simps bit_128)

lemma drop_bit_63:
  assumes "- (2 ^ 63) \<le> v" and "v < (2 :: int) ^ 63"
  shows "drop_bit 63 v = 0 \<and> drop_bit 70 v = 0 \<or> drop_bit 63 v = - 1 \<and> drop_bit 70 v = - 1"
  using assms by (simp add: drop_bit_eq_div) linarith

lemma sleb_sign:
  fixes v :: int
  assumes "drop_bit shift v = 0 \<and> \<not> s \<or> drop_bit shift v = - 1 \<and> s"
  shows "(if shift < 64 \<and> s then (word_of_int (take_bit shift v) :: u64) OR - push_bit shift 1
    else word_of_int (take_bit shift v)) = word_of_int v"
  unfolding neg_exp
proof (rule bit_word_eqI)
  fix n
  assume n: "n < LENGTH(64)"
  have "bit v n = s" if "shift \<le> n"
  proof -
    have "bit (drop_bit shift v) (n - shift) = bit v n" using that by (simp add: bit_drop_bit_eq)
    then show ?thesis using assms by auto
  qed
  then have "bit v n = s \<or> n < shift" by linarith
  then show "bit (if shift < 64 \<and> s then (word_of_int (take_bit shift v) :: u64) OR NOT (mask shift)
    else word_of_int (take_bit shift v)) n = bit (word_of_int v :: u64) n"
    using n by (auto simp: bit_simps)
qed

lemma sleb_loop_encode:
  assumes "- (2 ^ 63) \<le> v" and "v < 2 ^ 63" and "shift mod 7 = 0" and "shift \<le> 63"
    and "holds m cur (sleb_encode (drop_bit shift v))"
    and "unat cur + length (sleb_encode (drop_bit shift v)) \<le> unat lim"
  shows "\<exists>val shift' byte. sleb_loop m cur lim (word_of_int (take_bit shift v)) shift =
      (Ret (Inr (val, shift', byte)), cur + of_nat (length (sleb_encode (drop_bit shift v)))) \<and>
    (if shift' < 64 \<and> byte AND 64 \<noteq> 0 then val OR - push_bit shift' 1 else val) = word_of_int v"
  using assms(3-6)
proof (induction "drop_bit shift v" arbitrary: shift cur rule: sleb_encode.induct)
  case 1
  let ?v = "drop_bit shift v"
  let ?stop = "drop_bit 7 ?v = 0 \<and> \<not> bit ?v 6 \<or> drop_bit 7 ?v = - 1 \<and> bit ?v 6"
  have lt: "cur < lim"
    using 1(5) by (subst (asm) sleb_encode.simps) (auto simp: word_less_nat_alt split: if_splits)
  show ?case
  proof (cases ?stop)
    case True
    let ?b = "word_of_int (take_bit 7 ?v) :: u8"
    have enc: "sleb_encode ?v = [?b]" using True by (subst sleb_encode.simps) simp
    with 1(4) have "m cur = Some ?b" by simp
    with lt 1(3) have "sleb_loop m cur lim (word_of_int (take_bit shift v)) shift =
        (Ret (Inr (word_of_int (take_bit (shift + 7) v), shift + 7, ?b)), cur + 1)"
      by (subst sleb_loop.simps) (simp add: Let_def sleb_byte sleb_flags not_le [symmetric])
    moreover have "drop_bit (shift + 7) v = drop_bit 7 ?v" by (simp add: add.commute)
    ultimately show ?thesis
      using sleb_sign [of "shift + 7" v "bit ?v 6"] True by (simp add: enc sleb_flags)
  next
    case False
    let ?b = "word_of_int (take_bit 7 ?v OR 128) :: u8"
    have enc: "sleb_encode ?v = ?b # sleb_encode (drop_bit 7 ?v)"
      by (simp only: sleb_encode.simps [of ?v] False if_False)
    have shift: "shift + 7 \<le> 63"
    proof (rule ccontr)
      assume "\<not> shift + 7 \<le> 63"
      with 1(2, 3) have "shift = 63" by presburger
      with drop_bit_63 [OF assms(1, 2)] False show False by auto
    qed
    have dd: "drop_bit (shift + 7) v = drop_bit 7 ?v" by (simp add: add.commute)
    have next_lim: "unat (cur + 1) + length (sleb_encode (drop_bit (shift + 7) v)) \<le> unat lim"
      using 1(5) unat_plus_1 [OF lt] by (simp add: enc dd)
    from 1(4) have "m cur = Some ?b" by (simp add: enc)
    with lt 1(3) have "sleb_loop m cur lim (word_of_int (take_bit shift v)) shift =
        sleb_loop m (cur + 1) lim (word_of_int (take_bit (shift + 7) v)) (shift + 7)"
      by (subst sleb_loop.simps) (simp add: Let_def sleb_byte sleb_flags not_le [symmetric])
    with 1(1) [OF False dd [symmetric] _ shift _ next_lim] 1(2, 4) dd show ?thesis
      by (simp add: enc add.assoc)
  qed
qed

section \<open>Streams of values\<close>

definition s64_range :: "int \<Rightarrow> bool" where
  "s64_range v \<longleftrightarrow> - (2 ^ 63) \<le> v \<and> v < 2 ^ 63"

text \<open>The values a decoder is about to read.\<close>

definition stream_at :: "mem \<Rightarrow> sleb_decoder \<Rightarrow> int list \<Rightarrow> bool" where
  "stream_at m d vs \<longleftrightarrow> holds m (sd_cur d) (concat (map sleb_encode vs)) \<and>
     unat (sd_cur d) + length (concat (map sleb_encode vs)) \<le> unat (sd_end d) \<and> list_all s64_range vs"

definition adv :: "sleb_decoder \<Rightarrow> int \<Rightarrow> sleb_decoder" where
  "adv d v = d\<lparr>sd_cur := sd_cur d + of_nat (length (sleb_encode v))\<rparr>"

lemma stream_next:
  assumes "stream_at m d (v # vs)"
  shows "xh_elf_sleb128_decoder_next m d = (Ret (Inr (word_of_int v)), adv d v) \<and> stream_at m (adv d v) vs"
proof -
  let ?n = "length (sleb_encode v)"
  have "unat (sd_cur d) + ?n \<le> unat (sd_end d)" using assms by (simp add: stream_at_def)
  moreover then have "unat (sd_cur d + of_nat ?n) = unat (sd_cur d) + ?n"
    using unat_below [of "sd_end d"] by (simp add: unat_word_ariths unat_of_nat)
  ultimately have "stream_at m (adv d v) vs"
    using assms by (simp add: stream_at_def holds_append adv_def)
  moreover have "xh_elf_sleb128_decoder_next m d = (Ret (Inr (word_of_int v)), adv d v)"
    using assms sleb_loop_encode [of v 0 m "sd_cur d" "sd_end d"]
    by (auto simp: xh_elf_sleb128_decoder_next_def stream_at_def s64_range_def holds_append adv_def)
  ultimately show ?thesis by blast
qed

section \<open>Groups of relocations\<close>

record rel_entry =
  en_offset :: int
  en_info :: int
  en_addend :: int

record rel_group =
  rg_by_info :: bool
  rg_by_delta :: bool
  rg_by_addend :: bool
  rg_has_addend :: bool
  rg_delta :: int
  rg_info :: int
  rg_addend :: int
  rg_entries :: "rel_entry list"

definition group_flags :: "rel_group \<Rightarrow> int" where
  "group_flags g = of_bool (rg_by_info g) + 2 * of_bool (rg_by_delta g) + 4 * of_bool (rg_by_addend g) +
     8 * of_bool (rg_has_addend g)"

definition group_header :: "rel_group \<Rightarrow> int list" where
  "group_header g = [int (length (rg_entries g)), group_flags g] @ (if rg_by_delta g then [rg_delta g] else []) @
     (if rg_by_info g then [rg_info g] else []) @
     (if rg_has_addend g \<and> rg_by_addend g then [rg_addend g] else [])"

definition entry_values :: "rel_group \<Rightarrow> rel_entry \<Rightarrow> int list" where
  "entry_values g e = (if rg_by_delta g then [] else [en_offset e]) @ (if rg_by_info g then [] else [en_info e]) @
     (if rg_has_addend g \<and> \<not> rg_by_addend g then [en_addend e] else [])"

definition group_values :: "rel_group \<Rightarrow> int list" where
  "group_values g = group_header g @ concat (map (entry_values g) (rg_entries g))"

text \<open>The relocations a group stands for, from the running offset and addend.\<close>

fun entry_rels :: "rel_group \<Rightarrow> u64 \<times> u64 \<Rightarrow> rel_entry list \<Rightarrow> rel_common list \<times> (u64 \<times> u64)" where
  "entry_rels g (off, add) [] = ([], (off, add))"
| "entry_rels g (off, add) (e # es) =
     (let off' = off + word_of_int (if rg_by_delta g then rg_delta g else en_offset e);
          info = word_of_int (if rg_by_info g then rg_info g else en_info e);
          add' = (if rg_has_addend g \<and> \<not> rg_by_addend g then add + word_of_int (en_addend e) else add);
          (rs, acc) = entry_rels g (off', add') es
      in (RelaBuf off' info add' # rs, acc))"

definition group_addend :: "rel_group \<Rightarrow> u64 \<Rightarrow> u64" where
  "group_addend g add = (if \<not> rg_has_addend g then 0
     else if rg_by_addend g then add + word_of_int (rg_addend g) else add)"

fun group_rels :: "u64 \<times> u64 \<Rightarrow> rel_group list \<Rightarrow> rel_common list" where
  "group_rels acc [] = []"
| "group_rels (off, add) (g # gs) =
     (let (rs, acc) = entry_rels g (off, group_addend g add) (rg_entries g) in rs @ group_rels acc gs)"

text \<open>The relocations an iterator hands out, in at most \<open>n\<close> calls.\<close>

fun collect :: "('it \<Rightarrow> rel_common option run \<times> 'it) \<Rightarrow> nat \<Rightarrow> 'it \<Rightarrow> rel_common list" where
  "collect nx 0 it = []"
| "collect nx (Suc n) it = (case nx it of (Ret (Some r), it') \<Rightarrow> r # collect nx n it' | _ \<Rightarrow> [])"

lemmas reloc_flag_defs = has_flag_def RELOCATION_GROUPED_BY_INFO_FLAG_def
  RELOCATION_GROUPED_BY_OFFSET_DELTA_FLAG_def RELOCATION_GROUPED_BY_ADDEND_FLAG_def
  RELOCATION_GROUP_HAS_ADDEND_FLAG_def

lemma has_flag_group:
  assumes "pk_group_flags s = word_of_int (group_flags g)"
  shows "has_flag s RELOCATION_GROUPED_BY_INFO_FLAG = rg_by_info g"
    and "has_flag s RELOCATION_GROUPED_BY_OFFSET_DELTA_FLAG = rg_by_delta g"
    and "has_flag s RELOCATION_GROUPED_BY_ADDEND_FLAG = rg_by_addend g"
    and "has_flag s RELOCATION_GROUP_HAS_ADDEND_FLAG = rg_has_addend g"
  by (cases "rg_by_info g"; cases "rg_by_delta g"; cases "rg_by_addend g"; cases "rg_has_addend g";
      simp add: reloc_flag_defs assms group_flags_def)+


lemma read_group:
  assumes "stream_at m (pk_decoder s) (group_header g @ vs)" and "pk_is_use_rela s"
  shows "xh_elf_packed_reloc_iterator_read_group_fields m s =
     (Ret 0, s\<lparr>pk_decoder := foldl adv (pk_decoder s) (group_header g),
      pk_group_size := of_nat (length (rg_entries g)), pk_group_flags := word_of_int (group_flags g),
      pk_group_r_offset_delta := (if rg_by_delta g then word_of_int (rg_delta g) else pk_group_r_offset_delta s),
      pk_r_info := (if rg_by_info g then word_of_int (rg_info g) else pk_r_info s),
      pk_r_addend := group_addend g (pk_r_addend s), pk_relocation_group_index := 0\<rparr>) \<and>
    stream_at m (foldl adv (pk_decoder s) (group_header g)) vs"
  using assms
  by (cases s; cases "rg_by_info g"; cases "rg_by_delta g"; cases "rg_has_addend g"; cases "rg_by_addend g")
    (auto simp: xh_elf_packed_reloc_iterator_read_group_fields_def read_group_addend_def next_val_def
      has_flag_group [of _ g] group_header_def group_addend_def bindc_def dest!: stream_next)

lemma packed_next_entry:
  assumes "stream_at m (pk_decoder s) (entry_values g e @ vs)" and "pk_is_use_rela s"
    and "pk_relocation_index s < pk_relocation_count s"
    and "pk_relocation_group_index s \<noteq> pk_group_size s"
    and "pk_group_flags s = word_of_int (group_flags g)"
    and "rg_by_delta g \<Longrightarrow> pk_group_r_offset_delta s = word_of_int (rg_delta g)"
    and "rg_by_info g \<Longrightarrow> pk_r_info s = word_of_int (rg_info g)"
  shows "xh_elf_packed_reloc_iterator_next m s =
     (let off = pk_r_offset s + word_of_int (if rg_by_delta g then rg_delta g else en_offset e);
          info = word_of_int (if rg_by_info g then rg_info g else en_info e);
          add = (if rg_has_addend g \<and> \<not> rg_by_addend g then pk_r_addend s + word_of_int (en_addend e) else pk_r_addend s)
      in (Ret (Some (RelaBuf off info add)), s\<lparr>pk_decoder := foldl adv (pk_decoder s) (entry_values g e),
            pk_r_offset := off, pk_r_info := info, pk_r_addend := add,
            pk_relocation_index := pk_relocation_index s + 1,
            pk_relocation_group_index := pk_relocation_group_index s + 1\<rparr>)) \<and>
    stream_at m (foldl adv (pk_decoder s) (entry_values g e)) vs"
  using assms
  by (cases s; cases "rg_by_info g"; cases "rg_by_delta g"; cases "rg_has_addend g"; cases "rg_by_addend g")
    (auto simp: xh_elf_packed_reloc_iterator_next_def next_val_def Let_def
      has_flag_group [of _ g] entry_values_def bindc_def dest!: stream_next)


lemma packed_next_group:
  assumes "pk_relocation_group_index s = pk_group_size s"
    and "pk_relocation_index s < pk_relocation_count s"
    and "xh_elf_packed_reloc_iterator_read_group_fields m s = (Ret 0, s')"
    and "pk_relocation_group_index s' \<noteq> pk_group_size s'"
    and "pk_relocation_index s' < pk_relocation_count s'"
  shows "xh_elf_packed_reloc_iterator_next m s = xh_elf_packed_reloc_iterator_next m s'"
  using assms by (simp add: xh_elf_packed_reloc_iterator_next_def bindc_def not_le [symmetric])

definition in_group :: "packed_iter \<Rightarrow> rel_group \<Rightarrow> rel_entry list \<Rightarrow> bool" where
  "in_group s g es \<longleftrightarrow> pk_is_use_rela s \<and> pk_group_flags s = word_of_int (group_flags g) \<and>
     (rg_by_delta g \<longrightarrow> pk_group_r_offset_delta s = word_of_int (rg_delta g)) \<and>
     (rg_by_info g \<longrightarrow> pk_r_info s = word_of_int (rg_info g)) \<and>
     length es \<le> length (rg_entries g) \<and> unat (pk_group_size s) = length (rg_entries g) \<and>
     unat (pk_relocation_group_index s) = length (rg_entries g) - length es"

lemma in_group_index: "in_group s g (e # es) \<Longrightarrow> pk_relocation_group_index s < pk_group_size s"
  by (auto simp: in_group_def word_less_nat_alt)

lemma collect_entries:
  assumes "in_group s g es" and "stream_at m (pk_decoder s) (concat (map (entry_values g) es) @ vs)"
    and "unat (pk_relocation_index s) + length es \<le> unat (pk_relocation_count s)"
  shows "\<exists>s'. collect (xh_elf_packed_reloc_iterator_next m) (length es + n) s =
      fst (entry_rels g (pk_r_offset s, pk_r_addend s) es) @ collect (xh_elf_packed_reloc_iterator_next m) n s' \<and>
    stream_at m (pk_decoder s') vs \<and> in_group s' g [] \<and>
    (pk_r_offset s', pk_r_addend s') = snd (entry_rels g (pk_r_offset s, pk_r_addend s) es) \<and>
    unat (pk_relocation_index s') = unat (pk_relocation_index s) + length es \<and>
    pk_relocation_count s' = pk_relocation_count s"
  using assms
proof (induction es arbitrary: s)
  case Nil
  then show ?case by auto
next
  case (Cons e es)
  have lt: "pk_relocation_index s < pk_relocation_count s" using Cons.prems(3) by (simp add: word_less_nat_alt)
  have st: "stream_at m (pk_decoder s) (entry_values g e @ concat (map (entry_values g) es) @ vs)"
    using Cons.prems(2) by simp
  obtain off info add s1 where
    off: "off = pk_r_offset s + word_of_int (if rg_by_delta g then rg_delta g else en_offset e)"
    "info = word_of_int (if rg_by_info g then rg_info g else en_info e)"
    "add = (if rg_has_addend g \<and> \<not> rg_by_addend g then pk_r_addend s + word_of_int (en_addend e) else pk_r_addend s)"
    and s1: "s1 = s\<lparr>pk_decoder := foldl adv (pk_decoder s) (entry_values g e),
            pk_r_offset := off, pk_r_info := info, pk_r_addend := add,
            pk_relocation_index := pk_relocation_index s + 1,
            pk_relocation_group_index := pk_relocation_group_index s + 1\<rparr>" by blast
  have nx: "xh_elf_packed_reloc_iterator_next m s = (Ret (Some (RelaBuf off info add)), s1)"
    and st1: "stream_at m (pk_decoder s1) (concat (map (entry_values g) es) @ vs)"
    using packed_next_entry [OF st _ lt] in_group_index [OF Cons.prems(1)] Cons.prems(1)
    by (simp_all add: in_group_def off s1 Let_def)
  have ig: "in_group s1 g es"
    using Cons.prems(1) unat_plus_1 [OF in_group_index [OF Cons.prems(1)]]
    by (auto simp: in_group_def s1 off)
  have ix: "unat (pk_relocation_index s1) = Suc (unat (pk_relocation_index s))"
    using unat_plus_1 [OF lt] by (simp add: s1)
  then have "unat (pk_relocation_index s1) + length es \<le> unat (pk_relocation_count s1)"
    using Cons.prems(3) by (simp add: s1)
  from Cons.IH [OF ig st1 this] ix show ?case
    by (simp add: nx off(1) [symmetric] off(2) [symmetric] off(3) [symmetric] Let_def split_beta)
      (simp add: s1)
qed


definition rel_total :: "rel_group list \<Rightarrow> nat" where
  "rel_total gs = sum_list (map (\<lambda>g. length (rg_entries g)) gs)"

lemma stream_group_size:
  "stream_at m d (group_values g @ vs) \<Longrightarrow> unat (of_nat (length (rg_entries g)) :: u64) = length (rg_entries g)"
  by (auto simp: stream_at_def group_values_def group_header_def s64_range_def unat_of_nat)

lemma enter_group:
  assumes "pk_relocation_group_index s = pk_group_size s" and "pk_is_use_rela s"
    and "pk_relocation_index s < pk_relocation_count s"
    and st: "stream_at m (pk_decoder s) (group_values g @ vs)" and "rg_entries g \<noteq> []"
  shows "\<exists>s'. xh_elf_packed_reloc_iterator_next m s = xh_elf_packed_reloc_iterator_next m s' \<and>
    in_group s' g (rg_entries g) \<and>
    stream_at m (pk_decoder s') (concat (map (entry_values g) (rg_entries g)) @ vs) \<and>
    pk_r_offset s' = pk_r_offset s \<and> pk_r_addend s' = group_addend g (pk_r_addend s) \<and>
    pk_relocation_index s' = pk_relocation_index s \<and> pk_relocation_count s' = pk_relocation_count s"
proof -
  from st have "stream_at m (pk_decoder s) (group_header g @ concat (map (entry_values g) (rg_entries g)) @ vs)"
    by (simp add: group_values_def)
  from read_group [OF this assms(2)] obtain s' where
    rg: "xh_elf_packed_reloc_iterator_read_group_fields m s = (Ret 0, s')"
    and s': "s' = s\<lparr>pk_decoder := foldl adv (pk_decoder s) (group_header g),
      pk_group_size := of_nat (length (rg_entries g)), pk_group_flags := word_of_int (group_flags g),
      pk_group_r_offset_delta := (if rg_by_delta g then word_of_int (rg_delta g) else pk_group_r_offset_delta s),
      pk_r_info := (if rg_by_info g then word_of_int (rg_info g) else pk_r_info s),
      pk_r_addend := group_addend g (pk_r_addend s), pk_relocation_group_index := 0\<rparr>"
    and "stream_at m (pk_decoder s') (concat (map (entry_values g) (rg_entries g)) @ vs)"
    by simp
  moreover have ig: "in_group s' g (rg_entries g)"
    using assms(2) stream_group_size [OF st] by (simp add: in_group_def s')
  moreover have "pk_relocation_group_index s' \<noteq> pk_group_size s'"
    using ig assms(5) by (auto simp: in_group_def)
  ultimately show ?thesis
    using packed_next_group [OF assms(1, 3) rg] assms(3) by (intro exI [of _ s']) (simp add: s')
qed

lemma collect_cong_head:
  "nx s = nx s' \<Longrightarrow> 0 < n \<Longrightarrow> collect nx n s = collect nx n s'"
  by (cases n) auto

lemma collect_groups:
  assumes "pk_relocation_group_index s = pk_group_size s" and "pk_is_use_rela s"
    and "stream_at m (pk_decoder s) (concat (map group_values gs))"
    and "\<forall>g \<in> set gs. rg_entries g \<noteq> []"
    and "unat (pk_relocation_index s) + rel_total gs = unat (pk_relocation_count s)"
  shows "collect (xh_elf_packed_reloc_iterator_next m) (rel_total gs + n) s =
      group_rels (pk_r_offset s, pk_r_addend s) gs"
  using assms
proof (induction gs arbitrary: s)
  case Nil
  then have "pk_relocation_count s \<le> pk_relocation_index s" by (simp add: rel_total_def word_le_nat_alt)
  then show ?case by (cases n) (simp_all add: rel_total_def xh_elf_packed_reloc_iterator_next_def)
next
  case (Cons g gs)
  let ?nx = "xh_elf_packed_reloc_iterator_next m" and ?k = "rel_total gs + n"
  have total: "rel_total (g # gs) = length (rg_entries g) + rel_total gs" by (simp add: rel_total_def)
  have ne: "rg_entries g \<noteq> []" using Cons.prems(4) by simp
  have lt: "pk_relocation_index s < pk_relocation_count s"
    using Cons.prems(5) ne by (cases "rg_entries g") (simp_all add: total word_less_nat_alt)
  obtain s1 where s1: "?nx s = ?nx s1" "in_group s1 g (rg_entries g)"
    "stream_at m (pk_decoder s1) (concat (map (entry_values g) (rg_entries g)) @ concat (map group_values gs))"
    "pk_r_offset s1 = pk_r_offset s" "pk_r_addend s1 = group_addend g (pk_r_addend s)"
    "pk_relocation_index s1 = pk_relocation_index s" "pk_relocation_count s1 = pk_relocation_count s"
    using enter_group [OF Cons.prems(1, 2) lt _ ne, of m "concat (map group_values gs)"] Cons.prems(3)
    by auto
  have "unat (pk_relocation_index s1) + length (rg_entries g) \<le> unat (pk_relocation_count s1)"
    using Cons.prems(5) by (simp add: s1 total)
  from collect_entries [OF s1(2, 3) this, of ?k] obtain s2 where
    s2: "collect ?nx (length (rg_entries g) + ?k) s1 =
      fst (entry_rels g (pk_r_offset s1, pk_r_addend s1) (rg_entries g)) @ collect ?nx ?k s2"
    "stream_at m (pk_decoder s2) (concat (map group_values gs))" "in_group s2 g []"
    "(pk_r_offset s2, pk_r_addend s2) = snd (entry_rels g (pk_r_offset s1, pk_r_addend s1) (rg_entries g))"
    "unat (pk_relocation_index s2) = unat (pk_relocation_index s1) + length (rg_entries g)"
    "pk_relocation_count s2 = pk_relocation_count s1" by blast
  have "pk_relocation_group_index s2 = pk_group_size s2" "pk_is_use_rela s2"
    using s2(3) by (simp_all add: in_group_def word_unat_eq_iff)
  moreover have "unat (pk_relocation_index s2) + rel_total gs = unat (pk_relocation_count s2)"
    using Cons.prems(5) s1 s2 by (simp add: total)
  ultimately have "collect ?nx ?k s2 = group_rels (pk_r_offset s2, pk_r_addend s2) gs"
    using Cons.IH s2(2) Cons.prems(4) by simp
  moreover have "collect ?nx (rel_total (g # gs) + n) s = collect ?nx (length (rg_entries g) + ?k) s1"
    using collect_cong_head [of ?nx s s1 "rel_total (g # gs) + n"] s1(1) ne by (simp add: total add.assoc)
  ultimately show ?case
    using s2(1, 4) s1 by (simp add: split_beta Let_def)
qed

lemma packed_init_stream:
  assumes "stream_at m (xh_elf_sleb128_decoder_init rel rel_sz) (c # off # vs)"
  shows "\<exists>it. xh_elf_packed_reloc_iterator_init m rel rel_sz True = (Ret 0, it) \<and>
    stream_at m (pk_decoder it) vs \<and> pk_relocation_count it = word_of_int c \<and>
    pk_r_offset it = word_of_int off \<and> pk_r_addend it = 0 \<and> pk_relocation_index it = 0 \<and>
    pk_relocation_group_index it = pk_group_size it \<and> pk_is_use_rela it"
  using assms by (auto simp: xh_elf_packed_reloc_iterator_init_def next_val_def Let_def bindc_def dest!: stream_next)

section \<open>Properties\<close>

text \<open>
  the SLEB128 decoder inverts the encoding: on the bytes an encoder writes for a signed 64-bit
  value, it returns that value and stops right behind them.
\<close>

theorem sleb128_roundtrip:
  assumes "- (2 ^ 63) \<le> v" and "v < 2 ^ 63" and "holds m (sd_cur d) (sleb_encode v)"
    and "unat (sd_cur d) + length (sleb_encode v) \<le> unat (sd_end d)"
  shows "xh_elf_sleb128_decoder_next m d =
    (Ret (Inr (word_of_int v)), d\<lparr>sd_cur := sd_cur d + of_nat (length (sleb_encode v))\<rparr>)"
  using sleb_loop_encode [OF assms(1, 2), of 0 m "sd_cur d" "sd_end d"] assms
  by (auto simp: xh_elf_sleb128_decoder_next_def)


theorem sleb128_roundtrip_witness:
  "xh_elf_sleb128_decoder_next (stbytes (\<lambda>_. None) 0x1000 (sleb_encode (- 300)))
     \<lparr>sd_cur = 0x1000, sd_end = 0x1002\<rparr> = (Ret (Inr (- 300)), \<lparr>sd_cur = 0x1002, sd_end = 0x1002\<rparr>)"
proof -
  have enc: "sleb_encode (- 300) = [0xd4, 0x7d]" by code_simp
  show ?thesis
    using sleb128_roundtrip [of "- 300" "stbytes (\<lambda>_. None) 0x1000 (sleb_encode (- 300))"
        "\<lparr>sd_cur = 0x1000, sd_end = 0x1002\<rparr>"]
    by (simp add: enc)
qed

text \<open>
  C2: the packed iterator inverts the format: over a table that encodes groups of \<open>rela\<close>
  relocations (any combination of the four flags, no empty group), with its count and first
  offset in front, it hands out exactly the relocations the groups stand for, in order, and
  then stops, however often it is called.
\<close>

theorem packed_iterator_decodes:
  assumes "holds m rel (concat (map sleb_encode (int (rel_total gs) # off # concat (map group_values gs))))"
    and "unat rel_sz = length (concat (map sleb_encode (int (rel_total gs) # off # concat (map group_values gs))))"
    and "unat rel + unat rel_sz < 2 ^ 64"
    and "list_all s64_range (int (rel_total gs) # off # concat (map group_values gs))"
    and "\<forall>g \<in> set gs. rg_entries g \<noteq> []" and "rel_total gs \<le> n"
  shows "\<exists>it. xh_elf_packed_reloc_iterator_init m rel rel_sz True = (Ret 0, it) \<and>
    collect (xh_elf_packed_reloc_iterator_next m) n it = group_rels (word_of_int off, 0) gs"
proof -
  let ?vs = "int (rel_total gs) # off # concat (map group_values gs)"
  have "unat (rel + ucast rel_sz) = unat rel + unat rel_sz"
    using assms(3) by (simp add: unat_word_ariths)
  with assms have "stream_at m (xh_elf_sleb128_decoder_init rel rel_sz) ?vs"
    by (simp add: stream_at_def xh_elf_sleb128_decoder_init_def)
  from packed_init_stream [OF this] obtain it where
    it: "xh_elf_packed_reloc_iterator_init m rel rel_sz True = (Ret 0, it)"
    "stream_at m (pk_decoder it) (concat (map group_values gs))"
    "pk_relocation_count it = of_nat (rel_total gs)" "pk_r_offset it = word_of_int off" "pk_r_addend it = 0"
    "pk_relocation_index it = 0" "pk_relocation_group_index it = pk_group_size it" "pk_is_use_rela it"
    by auto
  have "unat (pk_relocation_count it) = rel_total gs"
    using assms(4) it(3) by (simp add: s64_range_def unat_of_nat)
  with collect_groups [OF it(7, 8, 2) assms(5), of "n - rel_total gs"] it assms(6) show ?thesis by simp
qed


definition sample_groups :: "rel_group list" where
  "sample_groups = [\<lparr>rg_by_info = True, rg_by_delta = False, rg_by_addend = False, rg_has_addend = True,
     rg_delta = 0, rg_info = 0x100000401, rg_addend = 0,
     rg_entries = [\<lparr>en_offset = 0x10, en_info = 0, en_addend = - 4\<rparr>, \<lparr>en_offset = 8, en_info = 0, en_addend = 12\<rparr>]\<rparr>]"

definition sample_bytes :: "u8 list" where
  "sample_bytes = concat (map sleb_encode (int (rel_total sample_groups) # 0x3000 # concat (map group_values sample_groups)))"

lemma sample_bytes_eval: "sample_bytes = [2, 0x80, 0xe0, 0, 2, 9, 0x81, 0x88, 0x80, 0x80, 0x10, 0x10, 0x7c, 8, 12]"
  by code_simp

theorem packed_iterator_decodes_witness:
  "\<exists>it. xh_elf_packed_reloc_iterator_init (stbytes (\<lambda>_. None) 0x1000 sample_bytes) 0x1000 15 True = (Ret 0, it) \<and>
    collect (xh_elf_packed_reloc_iterator_next (stbytes (\<lambda>_. None) 0x1000 sample_bytes)) 5 it =
      [RelaBuf 0x3010 0x100000401 (- 4), RelaBuf 0x3018 0x100000401 8]"
proof -
  have "holds (stbytes (\<lambda>_. None) 0x1000 sample_bytes) 0x1000 sample_bytes"
    by (simp add: sample_bytes_eval)
  moreover have "group_rels (word_of_int 0x3000, 0) sample_groups =
      [RelaBuf 0x3010 0x100000401 (- 4), RelaBuf 0x3018 0x100000401 8]"
    by (simp add: sample_groups_def group_addend_def)
  ultimately show ?thesis
    using packed_iterator_decodes [of "stbytes (\<lambda>_. None) 0x1000 sample_bytes" "0x1000" sample_groups "0x3000" 15 5]
    unfolding sample_bytes_def [symmetric]
    by (simp add: sample_bytes_eval)
      (simp add: sample_groups_def rel_total_def group_values_def group_header_def entry_values_def
        group_flags_def s64_range_def)
qed

end
