(* ===== verification/XhElf.thy ===== *)
theory XhElf
  imports XhReloc
begin

text \<open>
  The view of a loaded ELF file (\<open>libxhook/xh_elf.c\<close>, second part, and \<open>xh_elf.h\<close>): header
  check, parsing of the dynamic segment, the two symbol hash tables, and the replacement of a
  function in the relocation slots of a symbol. Structures are read from process memory at the
  field offsets of the 64-bit little-endian layout; relocation types are those of AArch64.
\<close>

section \<open>The ELF view\<close>

record xh_elf =
  xe_pathname :: "string option"
  xe_base_addr :: u64
  xe_bias_addr :: u64
  xe_ehdr :: u64
  xe_phdr :: u64
  xe_dyn :: u64
  xe_dyn_sz :: u32
  xe_strtab :: u64
  xe_symtab :: u64
  xe_relplt :: u64
  xe_relplt_sz :: u32
  xe_reldyn :: u64
  xe_reldyn_sz :: u32
  xe_relandroid :: u64
  xe_relandroid_sz :: u32
  xe_bucket :: u64
  xe_bucket_cnt :: u32
  xe_chain :: u64
  xe_chain_cnt :: u32
  xe_symoffset :: u32
  xe_bloom :: u64
  xe_bloom_sz :: u32
  xe_bloom_shift :: u32
  xe_is_use_rela :: bool
  xe_is_use_gnu_hash :: bool

definition zero_elf :: xh_elf where
  "zero_elf = \<lparr>xe_pathname = None, xe_base_addr = 0, xe_bias_addr = 0, xe_ehdr = 0, xe_phdr = 0,
     xe_dyn = 0, xe_dyn_sz = 0, xe_strtab = 0, xe_symtab = 0, xe_relplt = 0, xe_relplt_sz = 0,
     xe_reldyn = 0, xe_reldyn_sz = 0, xe_relandroid = 0, xe_relandroid_sz = 0, xe_bucket = 0,
     xe_bucket_cnt = 0, xe_chain = 0, xe_chain_cnt = 0, xe_symoffset = 0, xe_bloom = 0, xe_bloom_sz = 0,
     xe_bloom_shift = 0, xe_is_use_rela = False, xe_is_use_gnu_hash = False\<rparr>"

section \<open>Header check\<close>

definition ELFMAG :: "u8 list" where "ELFMAG = [0x7f, 0x45, 0x4c, 0x46]"

definition xh_elf_check_elfheader :: "mem \<Rightarrow> u64 \<Rightarrow> int run" where
  "xh_elf_check_elfheader m base_addr =
     bindr (ldbytes m base_addr 4) (\<lambda>magic. if magic \<noteq> ELFMAG then Ret XH_ERRNO_FORMAT else
     bindr (ld8 m (base_addr + 4)) (\<lambda>class. if class \<noteq> 2 then Ret XH_ERRNO_FORMAT else
     bindr (ld8 m (base_addr + 5)) (\<lambda>data. if data \<noteq> 1 then Ret XH_ERRNO_FORMAT else
     bindr (ld8 m (base_addr + 6)) (\<lambda>ver. if ver \<noteq> 1 then Ret XH_ERRNO_FORMAT else
     bindr (ld16 m (base_addr + 16)) (\<lambda>e_type. if e_type \<noteq> 2 \<and> e_type \<noteq> 3 then Ret XH_ERRNO_FORMAT else
     bindr (ld16 m (base_addr + 18)) (\<lambda>e_machine. if e_machine \<noteq> 183 then Ret XH_ERRNO_FORMAT else
     bindr (ld32 m (base_addr + 20)) (\<lambda>e_version. if e_version \<noteq> 1 then Ret XH_ERRNO_FORMAT else
     Ret 0)))))))"

section \<open>Hash functions\<close>

definition xh_elf_hash_step :: "u32 \<Rightarrow> char \<Rightarrow> u32" where
  "xh_elf_hash_step h c =
     (let h = push_bit 4 h + ucast (byte_of c);
          g = h AND 0xf0000000;
          h = h XOR g
      in h XOR drop_bit 24 g)"

definition xh_elf_hash :: "string \<Rightarrow> u32" where
  "xh_elf_hash name = foldl xh_elf_hash_step 0 name"

definition xh_elf_gnu_hash :: "string \<Rightarrow> u32" where
  "xh_elf_gnu_hash name = foldl (\<lambda>h c. h + (push_bit 5 h + ucast (byte_of c))) 5381 name"

section \<open>Program headers\<close>

definition PT_LOAD :: u32 where "PT_LOAD = 1"
definition PT_DYNAMIC :: u32 where "PT_DYNAMIC = 2"

fun seg_loop :: "(u64 \<Rightarrow> bool run) \<Rightarrow> u64 \<Rightarrow> nat \<Rightarrow> u64 option run" where
  "seg_loop hit phdr 0 = Ret None"
| "seg_loop hit phdr (Suc n) =
     bindr (hit phdr) (\<lambda>b. if b then Ret (Some phdr) else seg_loop hit (phdr + 56) n)"

text \<open>
  The loop over \<open>e_phnum\<close> headers of 56 bytes; where their end lies below their start, the
  comparison of the pointers ends it at once.
\<close>

definition first_segment :: "mem \<Rightarrow> xh_elf \<Rightarrow> (u64 \<Rightarrow> bool run) \<Rightarrow> u64 option run" where
  "first_segment m self hit =
     bindr (ld16 m (xe_ehdr self + 56)) (\<lambda>e_phnum.
       if xe_phdr self < xe_phdr self + 56 * ucast e_phnum
       then seg_loop hit (xe_phdr self) (unat e_phnum) else Ret None)"

definition xh_elf_get_first_segment_by_type :: "mem \<Rightarrow> xh_elf \<Rightarrow> u32 \<Rightarrow> u64 option run" where
  "xh_elf_get_first_segment_by_type m self type =
     first_segment m self (\<lambda>phdr. bindr (ld32 m phdr) (\<lambda>p_type. Ret (p_type = type)))"

definition xh_elf_get_first_segment_by_type_offset ::
    "mem \<Rightarrow> xh_elf \<Rightarrow> u32 \<Rightarrow> u64 \<Rightarrow> u64 option run" where
  "xh_elf_get_first_segment_by_type_offset m self type offset =
     first_segment m self (\<lambda>phdr. bindr (ld32 m phdr) (\<lambda>p_type.
       if p_type = type then bindr (ld64 m (phdr + 8)) (\<lambda>p_offset. Ret (p_offset = offset))
       else Ret False))"

section \<open>Symbol lookup\<close>

text \<open>\<open>0 == strcmp(symbol, self->strtab + self->symtab[i].st_name)\<close>\<close>

definition sym_streq :: "mem \<Rightarrow> xh_elf \<Rightarrow> string \<Rightarrow> u32 \<Rightarrow> bool run" where
  "sym_streq m self symbol i =
     bindr (ld32 m (xe_symtab self + 24 * ucast i)) (\<lambda>st_name.
       mem_streq m symbol (xe_strtab self + ucast st_name))"

definition ld_bucket :: "mem \<Rightarrow> xh_elf \<Rightarrow> u32 \<Rightarrow> u32 run" where
  "ld_bucket m self hash =
     (if xe_bucket_cnt self = 0 then Undef
      else ld32 m (xe_bucket self + 4 * ucast (hash mod xe_bucket_cnt self)))"

partial_function (option) hash_chain ::
    "mem \<Rightarrow> xh_elf \<Rightarrow> string \<Rightarrow> u32 \<Rightarrow> (int + u32) run option" where
  "hash_chain m self symbol i =
     (if i = 0 then Some (Ret (Inl XH_ERRNO_NOTFND))
      else case sym_streq m self symbol i of
        Ret b \<Rightarrow>
          if b then Some (Ret (Inr i))
          else (case ld32 m (xe_chain self + 4 * ucast i) of
              Ret j \<Rightarrow> hash_chain m self symbol j
            | Segv \<Rightarrow> Some Segv | Undef \<Rightarrow> Some Undef | Hang \<Rightarrow> Some Hang | Abort \<Rightarrow> Some Abort)
      | Segv \<Rightarrow> Some Segv | Undef \<Rightarrow> Some Undef | Hang \<Rightarrow> Some Hang | Abort \<Rightarrow> Some Abort)"

definition run_of :: "'a run option \<Rightarrow> 'a run" where
  "run_of x = (case x of None \<Rightarrow> Hang | Some r \<Rightarrow> r)"

definition xh_elf_hash_lookup :: "mem \<Rightarrow> xh_elf \<Rightarrow> string \<Rightarrow> (int + u32) run" where
  "xh_elf_hash_lookup m self symbol =
     bindr (ld_bucket m self (xh_elf_hash symbol)) (\<lambda>i. run_of (hash_chain m self symbol i))"

partial_function (option) gnu_chain ::
    "mem \<Rightarrow> xh_elf \<Rightarrow> string \<Rightarrow> u32 \<Rightarrow> u32 \<Rightarrow> (int + u32) run option" where
  "gnu_chain m self symbol hash i =
     (case bindr (ld32 m (xe_chain self + 4 * ucast (i - xe_symoffset self))) (\<lambda>symhash.
             bindr (if hash OR 1 = symhash OR 1 then sym_streq m self symbol i
                    else bindr (ld32 m (xe_symtab self + 24 * ucast i)) (\<lambda>_. Ret False))
               (\<lambda>b. Ret (b, symhash))) of
        Ret (b, symhash) \<Rightarrow>
          if b then Some (Ret (Inr i))
          else if symhash AND 1 \<noteq> 0 then Some (Ret (Inl XH_ERRNO_NOTFND))
          else gnu_chain m self symbol hash (i + 1)
      | Segv \<Rightarrow> Some Segv | Undef \<Rightarrow> Some Undef | Hang \<Rightarrow> Some Hang | Abort \<Rightarrow> Some Abort)"

definition gnu_mask :: "xh_elf \<Rightarrow> u32 \<Rightarrow> u64" where
  "gnu_mask self hash = push_bit (unat (hash mod 64)) 1 OR
     push_bit (unat (drop_bit (unat (xe_bloom_shift self)) hash mod 64)) 1"

definition xh_elf_gnu_hash_lookup_def :: "mem \<Rightarrow> xh_elf \<Rightarrow> string \<Rightarrow> (int + u32) run" where
  "xh_elf_gnu_hash_lookup_def m self symbol =
     (let hash = xh_elf_gnu_hash symbol in
      if xe_bloom_sz self = 0 then Undef
      else bindr (ld64 m (xe_bloom self + 8 * ucast (hash div 64 mod xe_bloom_sz self))) (\<lambda>word.
        if 32 \<le> xe_bloom_shift self then Undef
        else
          let mask = gnu_mask self hash in
          if word AND mask \<noteq> mask then Ret (Inl XH_ERRNO_NOTFND)
          else bindr (ld_bucket m self hash) (\<lambda>i.
            if i < xe_symoffset self then Ret (Inl XH_ERRNO_NOTFND)
            else run_of (gnu_chain m self symbol hash i))))"

fun undef_loop :: "mem \<Rightarrow> xh_elf \<Rightarrow> string \<Rightarrow> u32 \<Rightarrow> nat \<Rightarrow> (int + u32) run" where
  "undef_loop m self symbol i 0 = Ret (Inl XH_ERRNO_NOTFND)"
| "undef_loop m self symbol i (Suc n) =
     bindr (sym_streq m self symbol i) (\<lambda>b.
       if b then Ret (Inr i) else undef_loop m self symbol (i + 1) n)"

definition xh_elf_gnu_hash_lookup_undef :: "mem \<Rightarrow> xh_elf \<Rightarrow> string \<Rightarrow> (int + u32) run" where
  "xh_elf_gnu_hash_lookup_undef m self symbol =
     undef_loop m self symbol 0 (unat (xe_symoffset self))"

definition xh_elf_gnu_hash_lookup :: "mem \<Rightarrow> xh_elf \<Rightarrow> string \<Rightarrow> (int + u32) run" where
  "xh_elf_gnu_hash_lookup m self symbol =
     bindr (xh_elf_gnu_hash_lookup_def m self symbol) (\<lambda>r. case r of
         Inr i \<Rightarrow> Ret (Inr i)
       | Inl _ \<Rightarrow> bindr (xh_elf_gnu_hash_lookup_undef m self symbol) (\<lambda>r. case r of
             Inr i \<Rightarrow> Ret (Inr i) | Inl _ \<Rightarrow> Ret (Inl XH_ERRNO_NOTFND)))"

definition xh_elf_find_symidx_by_name :: "mem \<Rightarrow> xh_elf \<Rightarrow> string \<Rightarrow> (int + u32) run" where
  "xh_elf_find_symidx_by_name m self symbol =
     (if xe_is_use_gnu_hash self then xh_elf_gnu_hash_lookup m self symbol
      else xh_elf_hash_lookup m self symbol)"

section \<open>Replacing a function\<close>

definition st64 :: "u64 \<Rightarrow> u64 \<Rightarrow> (world, unit) cmd" where
  "st64 a v w = (case ldbytes (w_mem w) a 8 of
       Ret _ \<Rightarrow> (Ret (), w\<lparr>w_mem := stbytes (w_mem w) a (bytes64 v)\<rparr>)
     | _ \<Rightarrow> (Segv, w))"

definition xh_elf_replace_function ::
    "os \<Rightarrow> xh_elf \<Rightarrow> u64 \<Rightarrow> u64 \<Rightarrow> u64 \<Rightarrow> (world, int) cmd" where
  "xh_elf_replace_function os self addr new_func old_func =
     bindc (readc (\<lambda>w. ld64 (w_mem w) addr)) (\<lambda>cur.
     if cur = new_func then retc 0
     else
       bindc (xh_util_get_addr_protect os addr (case xe_pathname self of Some p \<Rightarrow> p | None \<Rightarrow> [])) (\<lambda>(r, old_prot).
       if r \<noteq> 0 then retc r
       else
         bindc (xh_util_set_addr_protect os addr (PROT_READ OR PROT_WRITE)) (\<lambda>r.
         if r \<noteq> 0 then retc r
         else
           bindc (readc (\<lambda>w. ld64 (w_mem w) addr)) (\<lambda>old_addr.
           bindc (if old_func \<noteq> 0 then st64 old_func old_addr else retc ()) (\<lambda>_.
           bindc (xh_util_write_memory_safely os addr (bytes64 new_func)) (\<lambda>got_write_ret.
           if got_write_ret \<noteq> 8 then retc XH_ERRNO_SEGVERR
           else
             let old_prot = (if old_prot AND PROT_READ = 0 then old_prot OR PROT_READ else old_prot) in
             bindc (xh_util_set_addr_protect os addr old_prot) (\<lambda>_.
             bindc (xh_util_flush_instruction_cache addr) (\<lambda>_. retc 0))))))))"

section \<open>Initialisation\<close>

definition xh_elf_check :: "xh_elf \<Rightarrow> int" where
  "xh_elf_check self =
     (if xe_base_addr self = 0 then 1
      else if xe_bias_addr self = 0 then 1
      else if xe_ehdr self = 0 then 1
      else if xe_phdr self = 0 then 1
      else if xe_strtab self = 0 then 1
      else if xe_symtab self = 0 then 1
      else if xe_bucket self = 0 then 1
      else if xe_chain self = 0 then 1
      else if xe_is_use_gnu_hash self \<and> xe_bloom self = 0 then 1
      else 0)"

definition DT_NULL :: u64 where "DT_NULL = 0"
definition DT_PLTRELSZ :: u64 where "DT_PLTRELSZ = 2"
definition DT_HASH :: u64 where "DT_HASH = 4"
definition DT_STRTAB :: u64 where "DT_STRTAB = 5"
definition DT_SYMTAB :: u64 where "DT_SYMTAB = 6"
definition DT_RELA :: u64 where "DT_RELA = 7"
definition DT_RELASZ :: u64 where "DT_RELASZ = 8"
definition DT_REL :: u64 where "DT_REL = 17"
definition DT_RELSZ :: u64 where "DT_RELSZ = 18"
definition DT_PLTREL :: u64 where "DT_PLTREL = 20"
definition DT_JMPREL :: u64 where "DT_JMPREL = 23"
definition DT_ANDROID_REL :: u64 where "DT_ANDROID_REL = 0x6000000f"
definition DT_ANDROID_RELSZ :: u64 where "DT_ANDROID_RELSZ = 0x60000010"
definition DT_ANDROID_RELA :: u64 where "DT_ANDROID_RELA = 0x60000011"
definition DT_ANDROID_RELASZ :: u64 where "DT_ANDROID_RELASZ = 0x60000012"
definition DT_GNU_HASH :: u64 where "DT_GNU_HASH = 0x6ffffef5"

lemmas dt_defs = DT_NULL_def DT_PLTRELSZ_def DT_HASH_def DT_STRTAB_def DT_SYMTAB_def DT_RELA_def
  DT_RELASZ_def DT_REL_def DT_RELSZ_def DT_PLTREL_def DT_JMPREL_def DT_ANDROID_REL_def
  DT_ANDROID_RELSZ_def DT_ANDROID_RELA_def DT_ANDROID_RELASZ_def DT_GNU_HASH_def

text \<open>One entry of the dynamic segment: the return value of the function, 0 to go on.\<close>

definition dyn_hash :: "mem \<Rightarrow> xh_elf \<Rightarrow> u64 \<Rightarrow> (int \<times> xh_elf) run" where
  "dyn_hash m self raw =
     bindr (ld32 m raw) (\<lambda>bucket_cnt.
     bindr (ld32 m (raw + 4)) (\<lambda>chain_cnt.
     Ret (0, self\<lparr>xe_bucket_cnt := bucket_cnt, xe_chain_cnt := chain_cnt, xe_bucket := raw + 8,
               xe_chain := raw + 8 + 4 * ucast bucket_cnt\<rparr>)))"

definition dyn_gnu_hash :: "mem \<Rightarrow> xh_elf \<Rightarrow> u64 \<Rightarrow> (int \<times> xh_elf) run" where
  "dyn_gnu_hash m self raw =
     bindr (ld32 m raw) (\<lambda>bucket_cnt.
     bindr (ld32 m (raw + 4)) (\<lambda>symoffset.
     bindr (ld32 m (raw + 8)) (\<lambda>bloom_sz.
     bindr (ld32 m (raw + 12)) (\<lambda>bloom_shift.
       let bloom = raw + 16; bucket = bloom + 8 * ucast bloom_sz; chain = bucket + 4 * ucast bucket_cnt in
       Ret (0, self\<lparr>xe_bucket_cnt := bucket_cnt, xe_symoffset := symoffset, xe_bloom_sz := bloom_sz,
                 xe_bloom_shift := bloom_shift, xe_bloom := bloom, xe_bucket := bucket, xe_chain := chain,
                 xe_is_use_gnu_hash := True\<rparr>)))))"

definition dyn_entry :: "mem \<Rightarrow> xh_elf \<Rightarrow> u64 \<Rightarrow> u64 \<Rightarrow> (int \<times> xh_elf) run" where
  "dyn_entry m self d_tag d_val =
     (let ptr = xe_bias_addr self + d_val;
          r = (if ptr < xe_base_addr self then XH_ERRNO_FORMAT else 0)
      in
      if d_tag = DT_STRTAB then Ret (r, self\<lparr>xe_strtab := ptr\<rparr>)
      else if d_tag = DT_SYMTAB then Ret (r, self\<lparr>xe_symtab := ptr\<rparr>)
      else if d_tag = DT_PLTREL then Ret (0, self\<lparr>xe_is_use_rela := (d_val = DT_RELA)\<rparr>)
      else if d_tag = DT_JMPREL then Ret (r, self\<lparr>xe_relplt := ptr\<rparr>)
      else if d_tag = DT_PLTRELSZ then Ret (0, self\<lparr>xe_relplt_sz := ucast d_val\<rparr>)
      else if d_tag = DT_REL \<or> d_tag = DT_RELA then Ret (r, self\<lparr>xe_reldyn := ptr\<rparr>)
      else if d_tag = DT_RELSZ \<or> d_tag = DT_RELASZ then Ret (0, self\<lparr>xe_reldyn_sz := ucast d_val\<rparr>)
      else if d_tag = DT_ANDROID_REL \<or> d_tag = DT_ANDROID_RELA then Ret (r, self\<lparr>xe_relandroid := ptr\<rparr>)
      else if d_tag = DT_ANDROID_RELSZ \<or> d_tag = DT_ANDROID_RELASZ
        then Ret (0, self\<lparr>xe_relandroid_sz := ucast d_val\<rparr>)
      else if d_tag = DT_HASH then
        (if xe_is_use_gnu_hash self then Ret (0, self)
         else if r \<noteq> 0 then Ret (r, self) else dyn_hash m self ptr)
      else if d_tag = DT_GNU_HASH then (if r \<noteq> 0 then Ret (r, self) else dyn_gnu_hash m self ptr)
      else Ret (0, self))"

fun dyn_loop :: "mem \<Rightarrow> u64 \<Rightarrow> nat \<Rightarrow> xh_elf \<Rightarrow> (int \<times> xh_elf) run" where
  "dyn_loop m dyn 0 self = Ret (0, self)"
| "dyn_loop m dyn (Suc n) self =
     bindr (ld64 m dyn) (\<lambda>d_tag.
       if d_tag = DT_NULL then Ret (0, self)
       else bindr (ld64 m (dyn + 8)) (\<lambda>d_val.
         bindr (dyn_entry m self d_tag d_val) (\<lambda>(r, self).
           if r \<noteq> 0 then Ret (r, self) else dyn_loop m (dyn + 16) n self)))"

text \<open>The check of the Android table: \<open>||\<close> stops reading at the first mismatch.\<close>

definition init_android :: "mem \<Rightarrow> xh_elf \<Rightarrow> (int \<times> xh_elf) run" where
  "init_android m self =
     (if xe_relandroid self = 0 then Ret (0, self)
      else if xe_relandroid_sz self < 4 then Ret (XH_ERRNO_FORMAT, self)
      else bindr (ld8 m (xe_relandroid self)) (\<lambda>c0. if c0 \<noteq> byte_of (CHR ''A'') then Ret (XH_ERRNO_FORMAT, self)
      else bindr (ld8 m (xe_relandroid self + 1)) (\<lambda>c1. if c1 \<noteq> byte_of (CHR ''P'') then Ret (XH_ERRNO_FORMAT, self)
      else bindr (ld8 m (xe_relandroid self + 2)) (\<lambda>c2. if c2 \<noteq> byte_of (CHR ''S'') then Ret (XH_ERRNO_FORMAT, self)
      else bindr (ld8 m (xe_relandroid self + 3)) (\<lambda>c3. if c3 \<noteq> byte_of (CHR ''2'') then Ret (XH_ERRNO_FORMAT, self)
      else Ret (0, self\<lparr>xe_relandroid := xe_relandroid self + 4,
                     xe_relandroid_sz := xe_relandroid_sz self - 4\<rparr>))))))"

definition init_finish :: "mem \<Rightarrow> xh_elf \<Rightarrow> (int \<times> xh_elf) run" where
  "init_finish m self =
     bindr (init_android m self) (\<lambda>(r, self).
       if r \<noteq> 0 then Ret (r, self)
       else if xh_elf_check self \<noteq> 0 then Ret (XH_ERRNO_FORMAT, self) else Ret (0, self))"

definition init_dynamic :: "mem \<Rightarrow> xh_elf \<Rightarrow> u64 \<Rightarrow> (int \<times> xh_elf) run" where
  "init_dynamic m self dhdr =
     bindr (ld64 m (dhdr + 16)) (\<lambda>p_vaddr.
     bindr (ld64 m (dhdr + 40)) (\<lambda>p_memsz.
       let dyn = xe_bias_addr self + p_vaddr; dyn_sz = ucast p_memsz :: u32;
           self = self\<lparr>xe_dyn := dyn, xe_dyn_sz := dyn_sz\<rparr>;
           n = dyn_sz div 16
       in bindr (if dyn < dyn + 16 * ucast n then dyn_loop m dyn (unat n) self else Ret (0, self)) (\<lambda>(r, self).
          if r \<noteq> 0 then Ret (r, self) else init_finish m self)))"

definition xh_elf_init :: "mem \<Rightarrow> xh_elf \<Rightarrow> u64 \<Rightarrow> string option \<Rightarrow> (int \<times> xh_elf) run" where
  "xh_elf_init m self base_addr pathname =
     (if base_addr = 0 \<or> pathname = None then Ret (XH_ERRNO_INVAL, self)
      else
        let self = zero_elf\<lparr>xe_pathname := pathname, xe_base_addr := base_addr, xe_ehdr := base_addr\<rparr> in
        bindr (ld64 m (base_addr + 32)) (\<lambda>e_phoff.
          let self = self\<lparr>xe_phdr := base_addr + e_phoff\<rparr> in
          bindr (xh_elf_get_first_segment_by_type_offset m self PT_LOAD 0) (\<lambda>phdr0. case phdr0 of
              None \<Rightarrow> Ret (XH_ERRNO_FORMAT, self)
            | Some phdr0 \<Rightarrow>
                bindr (ld64 m (phdr0 + 16)) (\<lambda>p_vaddr.
                  if base_addr < p_vaddr then Ret (XH_ERRNO_FORMAT, self)
                  else
                    let self = self\<lparr>xe_bias_addr := base_addr - p_vaddr\<rparr> in
                    bindr (xh_elf_get_first_segment_by_type m self PT_DYNAMIC) (\<lambda>dhdr. case dhdr of
                        None \<Rightarrow> Ret (XH_ERRNO_FORMAT, self)
                      | Some dhdr \<Rightarrow> init_dynamic m self dhdr)))))"

section \<open>Hooking a symbol\<close>

definition R_JUMP_SLOT :: u64 where "R_JUMP_SLOT = 1026"
definition R_GLOB_DAT :: u64 where "R_GLOB_DAT = 1025"
definition R_ABS :: u64 where "R_ABS = 257"

definition rel_fields :: "mem \<Rightarrow> rel_common \<Rightarrow> (u64 \<times> u64) run" where
  "rel_fields m rel = (case rel of
       RelAt a \<Rightarrow> bindr (ld64 m (a + 8)) (\<lambda>r_info. bindr (ld64 m a) (\<lambda>r_offset. Ret (r_offset, r_info)))
     | RelBuf r_offset r_info \<Rightarrow> Ret (r_offset, r_info)
     | RelaBuf r_offset r_info _ \<Rightarrow> Ret (r_offset, r_info))"

definition rel_matches :: "bool \<Rightarrow> u32 \<Rightarrow> u64 \<Rightarrow> bool" where
  "rel_matches is_plt symidx r_info \<longleftrightarrow>
     drop_bit 32 r_info = ucast symidx \<and>
     (if is_plt then r_info AND 0xffffffff = R_JUMP_SLOT
      else r_info AND 0xffffffff = R_GLOB_DAT \<or> r_info AND 0xffffffff = R_ABS)"

text \<open>The result and \<open>*found\<close>.\<close>

definition xh_elf_find_and_replace_func ::
    "os \<Rightarrow> xh_elf \<Rightarrow> bool \<Rightarrow> u64 \<Rightarrow> u64 \<Rightarrow> u32 \<Rightarrow> rel_common \<Rightarrow> (world, int \<times> bool) cmd" where
  "xh_elf_find_and_replace_func os self is_plt new_func old_func symidx rel =
     bindc (readc (\<lambda>w. rel_fields (w_mem w) rel)) (\<lambda>(r_offset, r_info).
     if \<not> rel_matches is_plt symidx r_info then retc (0, False)
     else
       let addr = xe_bias_addr self + r_offset in
       if addr < xe_base_addr self then retc (XH_ERRNO_FORMAT, True)
       else bindc (xh_elf_replace_function os self addr new_func old_func) (\<lambda>r. retc (r, True)))"

text \<open>
  The loop over the entries of a table; \<open>brk\<close>: it stops at the first entry found. The outer
  \<open>None\<close> is a loop that never ends.
\<close>

partial_function (option) reloc_loop ::
    "(mem \<Rightarrow> 'it \<Rightarrow> rel_common option run \<times> 'it) \<Rightarrow> (rel_common \<Rightarrow> (world, int \<times> bool) cmd) \<Rightarrow>
      bool \<Rightarrow> 'it \<Rightarrow> world \<Rightarrow> (int run \<times> world) option" where
  "reloc_loop nx body brk it w =
     (case nx (w_mem w) it of (n, it') \<Rightarrow> (case n of
        Ret None \<Rightarrow> Some (Ret 0, w)
      | Ret (Some rel) \<Rightarrow> (case body rel w of (b, w') \<Rightarrow> (case b of
            Ret (r, found) \<Rightarrow>
              if r \<noteq> 0 then Some (Ret r, w')
              else if brk \<and> found then Some (Ret 0, w')
              else reloc_loop nx body brk it' w'
          | Segv \<Rightarrow> Some (Segv, w') | Undef \<Rightarrow> Some (Undef, w') | Hang \<Rightarrow> Some (Hang, w')
          | Abort \<Rightarrow> Some (Abort, w')))
      | Segv \<Rightarrow> Some (Segv, w) | Undef \<Rightarrow> Some (Undef, w) | Hang \<Rightarrow> Some (Hang, w)
      | Abort \<Rightarrow> Some (Abort, w)))"

definition run_loop :: "(int run \<times> world) option \<Rightarrow> world \<Rightarrow> int run \<times> world" where
  "run_loop x w = (case x of None \<Rightarrow> (Hang, w) | Some rw \<Rightarrow> rw)"

definition plain_next :: "mem \<Rightarrow> plain_iter \<Rightarrow> rel_common option run \<times> plain_iter" where
  "plain_next m it = (case xh_elf_plain_reloc_iterator_next it of (r, it') \<Rightarrow> (Ret r, it'))"

definition hook_plain ::
    "xh_elf \<Rightarrow> (rel_common \<Rightarrow> (world, int \<times> bool) cmd) \<Rightarrow> bool \<Rightarrow> u64 \<Rightarrow> u32 \<Rightarrow> (world, int) cmd" where
  "hook_plain self body brk rel rel_sz w =
     (if rel = 0 then (Ret 0, w)
      else run_loop (reloc_loop plain_next body brk
        (xh_elf_plain_reloc_iterator_init rel rel_sz (xe_is_use_rela self)) w) w)"

text \<open>The result of the iterator's initialisation is ignored.\<close>

definition hook_packed ::
    "xh_elf \<Rightarrow> (rel_common \<Rightarrow> (world, int \<times> bool) cmd) \<Rightarrow> (world, int) cmd" where
  "hook_packed self body w =
     (if xe_relandroid self = 0 then (Ret 0, w)
      else case xh_elf_packed_reloc_iterator_init (w_mem w) (xe_relandroid self) (xe_relandroid_sz self)
              (xe_is_use_rela self) of (r, it) \<Rightarrow>
        bindc (readc (\<lambda>_. r)) (\<lambda>_ w.
          run_loop (reloc_loop xh_elf_packed_reloc_iterator_next body False it w) w) w)"

definition xh_elf_hook :: "os \<Rightarrow> xh_elf \<Rightarrow> string option \<Rightarrow> u64 \<Rightarrow> u64 \<Rightarrow> (world, int) cmd" where
  "xh_elf_hook os self symbol new_func old_func =
     (if xe_pathname self = None then retc XH_ERRNO_ELFINIT
      else case symbol of
        None \<Rightarrow> retc XH_ERRNO_INVAL
      | Some symbol \<Rightarrow>
          if new_func = 0 then retc XH_ERRNO_INVAL
          else
            bindc (readc (\<lambda>w. xh_elf_find_symidx_by_name (w_mem w) self symbol)) (\<lambda>found. case found of
                Inl r \<Rightarrow> retc r
              | Inr symidx \<Rightarrow>
                  bindc (hook_plain self (xh_elf_find_and_replace_func os self True new_func old_func symidx)
                           True (xe_relplt self) (xe_relplt_sz self)) (\<lambda>r. if r \<noteq> 0 then retc r else
                  bindc (hook_plain self (xh_elf_find_and_replace_func os self False new_func old_func symidx)
                           False (xe_reldyn self) (xe_reldyn_sz self)) (\<lambda>r. if r \<noteq> 0 then retc r else
                  hook_packed self (xh_elf_find_and_replace_func os self False new_func old_func symidx)))))"

section \<open>Loads\<close>

lemma ldbytes_holds: "holds m a bs \<Longrightarrow> ldbytes m a (length bs) = Ret bs"
  by (induction bs arbitrary: a) (auto simp: ld8_def)

lemma holds_take: "holds m a bs \<Longrightarrow> holds m a (take n bs)"
  using holds_append [of m a "take n bs" "drop n bs"] by simp

lemma holds_drop: "holds m a bs \<Longrightarrow> i \<le> length bs \<Longrightarrow> holds m (a + of_nat i) (drop i bs)"
  using holds_append [of m a "take i bs" "drop i bs"] by simp

lemma ldbytes_at:
  assumes "holds m a bs" and "i + n \<le> length bs"
  shows "ldbytes m (a + of_nat i) n = Ret (take n (drop i bs))"
  using ldbytes_holds [OF holds_take [OF holds_drop [OF assms(1)], of i n]] assms(2)
  by simp

lemma ld8_at: "holds m a bs \<Longrightarrow> i < length bs \<Longrightarrow> ld8 m (a + of_nat i) = Ret (bs ! i)"
  using ldbytes_at [of m a bs i 1]
  by (auto simp: ld8_def take_Suc_conv_app_nth split: option.splits)

definition header_ok :: "u8 list \<Rightarrow> bool" where
  "header_ok h \<longleftrightarrow> take 4 h = ELFMAG \<and> h ! 4 = 2 \<and> h ! 5 = 1 \<and> h ! 6 = 1 \<and>
     (le16 (take 2 (drop 16 h)) = 2 \<or> le16 (take 2 (drop 16 h)) = 3) \<and>
     le16 (take 2 (drop 18 h)) = 183 \<and> le32 (take 4 (drop 20 h)) = 1"

text \<open>
  Over readable memory, the header check accepts exactly the headers with the ELF magic, class
  64, little-endian data, version 1 twice, type executable or shared object and machine AArch64,
  and reports a format error for every other.
\<close>

theorem check_elfheader_correct:
  assumes "holds m base h" and "24 \<le> length h"
  shows "xh_elf_check_elfheader m base = Ret (if header_ok h then 0 else XH_ERRNO_FORMAT)"
proof -
  have b: "ldbytes m base 4 = Ret (take 4 h)" "ldbytes m (base + 16) 2 = Ret (take 2 (drop 16 h))"
    "ldbytes m (base + 18) 2 = Ret (take 2 (drop 18 h))" "ldbytes m (base + 20) 4 = Ret (take 4 (drop 20 h))"
    using assms ldbytes_at [OF assms(1), of 0 4] ldbytes_at [OF assms(1), of 16 2]
      ldbytes_at [OF assms(1), of 18 2] ldbytes_at [OF assms(1), of 20 4] by simp_all
  have "ld8 m (base + 4) = Ret (h ! 4)" "ld8 m (base + 5) = Ret (h ! 5)" "ld8 m (base + 6) = Ret (h ! 6)"
    using assms ld8_at [OF assms(1), of 4] ld8_at [OF assms(1), of 5] ld8_at [OF assms(1), of 6] by simp_all
  with b show ?thesis
    by (simp add: xh_elf_check_elfheader_def ld16_def ld32_def header_ok_def)
qed

theorem check_elfheader_correct_witness:
  "xh_elf_check_elfheader (mem_of [(0x1000, ELFMAG @ [2, 1, 1] @ replicate 9 0 @ [3, 0, 183, 0, 1, 0, 0, 0])]) 0x1000 = Ret 0"
proof -
  let ?h = "ELFMAG @ [2, 1, 1] @ replicate 9 0 @ [3, 0, 183, 0, 1, 0, 0, 0]"
  have "holds (mem_of [(0x1000, ?h)]) 0x1000 ?h" by code_simp
  moreover have "header_ok ?h" "24 \<le> length ?h" by code_simp+
  ultimately show ?thesis using check_elfheader_correct [of _ "0x1000" ?h] by auto
qed

section \<open>Hash functions\<close>

lemma bit_f0000000: "bit (0xf0000000 :: u32) n \<longleftrightarrow> 28 \<le> n \<and> n < 32"
proof -
  have "(0xf0000000 :: u32) = push_bit 28 (mask 4)" by (simp add: mask_eq_exp_minus_1 push_bit_eq_mult)
  moreover have "bit (push_bit 28 (mask 4) :: u32) n \<longleftrightarrow> 28 \<le> n \<and> n < 32"
    by (auto simp: bit_push_bit_iff bit_mask_iff possible_bit_word)
  ultimately show ?thesis by metis
qed

lemma xh_elf_hash_step_bound: "xh_elf_hash_step h c < 2 ^ 28"
proof -
  define x where "x = (push_bit 4 h + ucast (byte_of c) :: u32)"
  define M where "M = (0xf0000000 :: u32)"
  let ?r = "xh_elf_hash_step h c"
  have r: "?r = (x XOR (x AND M)) XOR drop_bit 24 (x AND M)"
    by (simp only: xh_elf_hash_step_def Let_def x_def M_def)
  have M: "bit M n \<longleftrightarrow> 28 \<le> n \<and> n < 32" for n by (simp only: M_def bit_f0000000)
  have "take_bit 28 ?r = ?r"
    unfolding r by (rule bit_word_eqI) (auto simp: bit_simps M)
  then have "unat ?r = take_bit 28 (unat ?r)" by (metis unsigned_take_bit_eq)
  then have "unat ?r < 2 ^ 28" by (metis take_bit_nat_less_exp)
  then show ?thesis by (simp add: word_less_nat_alt)
qed

text \<open>The ELF hash of every name is below \<open>2 ^ 28\<close>.\<close>

lemma xh_elf_hash_bound: "xh_elf_hash name < 2 ^ 28"
proof (cases name rule: rev_cases)
  case (snoc xs c)
  then show ?thesis using xh_elf_hash_step_bound by (simp add: xh_elf_hash_def)
qed (simp add: xh_elf_hash_def)

lemma gnu_hash_fold:
  "foldl (\<lambda>h c. h + (push_bit 5 h + ucast (byte_of c))) (word_of_int n :: u32) s =
     word_of_int (foldl (\<lambda>h c. h * 33 + int (of_char c)) n s)"
proof (induction s arbitrary: n)
  case (Cons c s)
  have "(ucast (byte_of c) :: u32) = of_nat (of_char c)"
    by (simp add: unat_byte_of [symmetric])
  then have "(word_of_int n :: u32) + (push_bit 5 (word_of_int n) + ucast (byte_of c)) =
      word_of_int (n * 33 + int (of_char c))"
    by (simp add: push_bit_eq_mult algebra_simps)
  then show ?case using Cons.IH by (simp only: foldl_Cons)
qed simp

text \<open>
  The GNU hash of a name is its value as a number with base 33 digits that starts from 5381,
  modulo \<open>2 ^ 32\<close>: the 32-bit additions and shifts wrap as intended.
\<close>

theorem gnu_hash_correct:
  "uint (xh_elf_gnu_hash name) = foldl (\<lambda>h c. h * 33 + int (of_char c)) 5381 name mod 2 ^ 32"
  using gnu_hash_fold [of 5381 name] by (simp add: xh_elf_gnu_hash_def uint_word_of_int)

section \<open>Names of symbols\<close>

abbreviation plain_name :: "string \<Rightarrow> bool" where
  "plain_name s \<equiv> CHR 0x00 \<notin> set s"

definition sym_name :: "mem \<Rightarrow> xh_elf \<Rightarrow> u32 \<Rightarrow> string \<Rightarrow> bool" where
  "sym_name m e i s \<longleftrightarrow> (case ld32 m (xe_symtab e + 24 * ucast i) of
     Ret st_name \<Rightarrow> cstr_at m (xe_strtab e + ucast st_name) s | _ \<Rightarrow> False)"

lemma mem_streq_True: "mem_streq m s a = Ret True \<Longrightarrow> plain_name s \<Longrightarrow> cstr_at m a s"
  by (induction s arbitrary: a) (auto simp: bindr_eq_Ret ld8_def split: if_splits option.splits)

lemma sym_streq_True: "sym_streq m e s i = Ret True \<Longrightarrow> plain_name s \<Longrightarrow> sym_name m e i s"
  by (auto simp: sym_streq_def sym_name_def bindr_eq_Ret dest: mem_streq_True)

lemma sym_streq_name: "sym_name m e i t \<Longrightarrow> plain_name s \<Longrightarrow> sym_streq m e s i = Ret (s = t)"
  by (auto simp: sym_streq_def sym_name_def mem_streq_cstr split: run.splits)

lemma cstr_at_inject: "cstr_at m a s \<Longrightarrow> cstr_at m a t \<Longrightarrow> s = t"
proof (induction s arbitrary: a t)
  case Nil
  then show ?case by (cases t) (auto simp: eq_commute [of 0])
next
  case (Cons c s)
  then show ?case by (cases t) (auto simp: eq_commute [of 0])
qed

lemma sym_name_inject: "sym_name m e i s \<Longrightarrow> sym_name m e i t \<Longrightarrow> s = t"
  by (auto simp: sym_name_def cstr_at_inject split: run.splits)

definition named :: "mem \<Rightarrow> xh_elf \<Rightarrow> u32 \<Rightarrow> bool" where
  "named m e i \<longleftrightarrow> (\<exists>t. sym_name m e i t)"

lemma sym_streq_named:
  assumes "named m e i" and "plain_name s"
  shows "sym_streq m e s i = Ret (sym_name m e i s)"
proof -
  from assms(1) obtain t where t: "sym_name m e i t" by (auto simp: named_def)
  then have "sym_name m e i s \<longleftrightarrow> s = t" by (auto dest: sym_name_inject)
  with sym_streq_name [OF t assms(2)] show ?thesis by simp
qed

section \<open>The interface of symbol lookup\<close>

locale symbol_lookup =
  fixes lookup :: "mem \<Rightarrow> xh_elf \<Rightarrow> string \<Rightarrow> (int + u32) run"
    and table_ok :: "mem \<Rightarrow> xh_elf \<Rightarrow> bool"
    and candidates :: "mem \<Rightarrow> xh_elf \<Rightarrow> string \<Rightarrow> u32 set"
  assumes sound: "lookup m e s = Ret (Inr i) \<Longrightarrow> plain_name s \<Longrightarrow> sym_name m e i s"
    and found: "table_ok m e \<Longrightarrow> plain_name s \<Longrightarrow> i \<in> candidates m e s \<Longrightarrow> sym_name m e i s \<Longrightarrow>
      \<exists>j \<in> candidates m e s. lookup m e s = Ret (Inr j)"
    and missing: "table_ok m e \<Longrightarrow> plain_name s \<Longrightarrow> (\<And>i. i \<in> candidates m e s \<Longrightarrow> \<not> sym_name m e i s) \<Longrightarrow>
      lookup m e s = Ret (Inl XH_ERRNO_NOTFND)"
begin

lemma lookup_total:
  assumes "table_ok m e" and "plain_name s"
  shows "\<exists>r. lookup m e s = Ret r"
  using found [OF assms] missing [OF assms] by blast

lemma lookup_iff:
  assumes "table_ok m e" and "plain_name s"
  shows "lookup m e s = Ret (Inl XH_ERRNO_NOTFND) \<longleftrightarrow> (\<forall>i \<in> candidates m e s. \<not> sym_name m e i s)"
  using found [OF assms] missing [OF assms] by force

lemma lookup_unique:
  assumes "table_ok m e" and "plain_name s" and "i \<in> candidates m e s" and "sym_name m e i s"
    and "\<And>j. j \<in> candidates m e s \<Longrightarrow> sym_name m e j s \<Longrightarrow> j = i"
  shows "lookup m e s = Ret (Inr i)"
proof -
  from found [OF assms(1-4)] obtain j where "j \<in> candidates m e s" "lookup m e s = Ret (Inr j)" by blast
  with sound assms(2, 5) show ?thesis by blast
qed

end

section \<open>ELF hash tables\<close>

fun chain_from :: "mem \<Rightarrow> xh_elf \<Rightarrow> u32 \<Rightarrow> u32 list \<Rightarrow> bool" where
  "chain_from m e i [] \<longleftrightarrow> i = 0"
| "chain_from m e i (j # js) \<longleftrightarrow> j = i \<and> i \<noteq> 0 \<and>
     (case ld32 m (xe_chain e + 4 * ucast i) of Ret n \<Rightarrow> chain_from m e n js | _ \<Rightarrow> False)"

definition bucket_chain :: "mem \<Rightarrow> xh_elf \<Rightarrow> u32 \<Rightarrow> u32 list \<Rightarrow> bool" where
  "bucket_chain m e hash js \<longleftrightarrow> (case ld_bucket m e hash of Ret i \<Rightarrow> chain_from m e i js | _ \<Rightarrow> False)"

definition hash_table_ok :: "mem \<Rightarrow> xh_elf \<Rightarrow> bool" where
  "hash_table_ok m e \<longleftrightarrow> (\<forall>hash. \<exists>js. bucket_chain m e hash js \<and> (\<forall>j \<in> set js. named m e j))"

definition hash_candidates :: "mem \<Rightarrow> xh_elf \<Rightarrow> string \<Rightarrow> u32 set" where
  "hash_candidates m e s = {j. \<exists>js. bucket_chain m e (xh_elf_hash s) js \<and> j \<in> set js}"

lemma chain_from_inject: "chain_from m e i js \<Longrightarrow> chain_from m e i ks \<Longrightarrow> js = ks"
proof (induction js arbitrary: i ks)
  case Nil
  then show ?case by (cases ks) auto
next
  case (Cons j js)
  then show ?case by (cases ks) (auto split: run.splits)
qed

definition first_named :: "mem \<Rightarrow> xh_elf \<Rightarrow> string \<Rightarrow> u32 list \<Rightarrow> int + u32" where
  "first_named m e s js = (case find (\<lambda>j. sym_name m e j s) js of None \<Rightarrow> Inl XH_ERRNO_NOTFND | Some j \<Rightarrow> Inr j)"

lemma first_named_Nil [simp]: "first_named m e s [] = Inl XH_ERRNO_NOTFND"
  by (simp add: first_named_def)

lemma hash_chain_correct:
  assumes "chain_from m e i js" and "\<forall>j \<in> set js. named m e j" and "plain_name s"
  shows "hash_chain m e s i = Some (Ret (first_named m e s js))"
  using assms
proof (induction js arbitrary: i)
  case Nil
  then show ?case by (subst hash_chain.simps) (simp add: first_named_def)
next
  case (Cons j js)
  then show ?case
    by (subst hash_chain.simps) (auto simp: first_named_def sym_streq_named split: run.splits)
qed

lemma hash_lookup_correct:
  assumes "bucket_chain m e (xh_elf_hash s) js" and "\<forall>j \<in> set js. named m e j" and "plain_name s"
  shows "xh_elf_hash_lookup m e s = Ret (first_named m e s js)"
  using assms hash_chain_correct [OF _ assms(2, 3)]
  by (auto simp: xh_elf_hash_lookup_def bucket_chain_def run_of_def split: run.splits)

lemma hash_chain_sound:
  assumes "hash_chain m e s i = Some (Ret (Inr j))" and "plain_name s"
  shows "sym_name m e j s"
proof -
  have "\<forall>j. r = Ret (Inr j) \<longrightarrow> plain_name s \<longrightarrow> sym_name m e j s" if "hash_chain m e s i = Some r" for r
    by (rule hash_chain.raw_induct [where P = "\<lambda>m e s i r. \<forall>j. r = Ret (Inr j) \<longrightarrow> plain_name s \<longrightarrow>
          sym_name m e j s", OF _ that])
      (fastforce split: if_splits run.splits dest: sym_streq_True)
  from this [OF assms(1)] assms(2) show ?thesis by simp
qed

lemma first_named_found:
  "i \<in> set js \<Longrightarrow> sym_name m e i s \<Longrightarrow> \<exists>j \<in> set js. first_named m e s js = Inr j"
  by (auto simp: first_named_def find_None_iff find_Some_iff in_set_conv_nth split: option.splits)

lemma first_named_missing:
  "(\<And>i. i \<in> set js \<Longrightarrow> \<not> sym_name m e i s) \<Longrightarrow> first_named m e s js = Inl XH_ERRNO_NOTFND"
  by (auto simp: first_named_def find_None_iff find_Some_iff in_set_conv_nth split: option.splits)

lemma bucket_chain_inject: "bucket_chain m e h js \<Longrightarrow> bucket_chain m e h ks \<Longrightarrow> js = ks"
  by (auto simp: bucket_chain_def chain_from_inject split: run.splits)

interpretation elf_hash: symbol_lookup xh_elf_hash_lookup hash_table_ok hash_candidates
proof
  fix m e s i
  assume "xh_elf_hash_lookup m e s = Ret (Inr i)" "plain_name s"
  then show "sym_name m e i s"
    by (auto simp: xh_elf_hash_lookup_def bindr_eq_Ret run_of_def split: option.splits dest: hash_chain_sound)
next
  fix m e s i
  assume ok: "hash_table_ok m e" and s: "plain_name s"
  then obtain js where js: "bucket_chain m e (xh_elf_hash s) js" "\<forall>j \<in> set js. named m e j"
    by (auto simp: hash_table_ok_def)
  then have c: "hash_candidates m e s = set js"
    by (auto simp: hash_candidates_def dest: bucket_chain_inject [OF js(1)])
  { assume "i \<in> hash_candidates m e s" "sym_name m e i s"
    then show "\<exists>j \<in> hash_candidates m e s. xh_elf_hash_lookup m e s = Ret (Inr j)"
      using first_named_found [of i js m e s] hash_lookup_correct [OF js s] by (auto simp: c) }
  { assume "\<And>i. i \<in> hash_candidates m e s \<Longrightarrow> \<not> sym_name m e i s"
    then show "xh_elf_hash_lookup m e s = Ret (Inl XH_ERRNO_NOTFND)"
      using first_named_missing [of js m e s] hash_lookup_correct [OF js s] by (auto simp: c) }
qed


section \<open>GNU hash tables\<close>

fun gnu_from :: "mem \<Rightarrow> xh_elf \<Rightarrow> u32 \<Rightarrow> u32 list \<Rightarrow> bool" where
  "gnu_from m e i [] \<longleftrightarrow> False"
| "gnu_from m e i (j # js) \<longleftrightarrow> j = i \<and>
     (case ld32 m (xe_chain e + 4 * ucast (i - xe_symoffset e)) of
        Ret h \<Rightarrow> (if h AND 1 \<noteq> 0 then js = [] else gnu_from m e (i + 1) js) | _ \<Rightarrow> False)"

text \<open>The hash word of a symbol of the table is the hash of its name but for the lowest bit.\<close>

definition gnu_hashed :: "mem \<Rightarrow> xh_elf \<Rightarrow> u32 \<Rightarrow> bool" where
  "gnu_hashed m e j \<longleftrightarrow> (\<exists>t h. sym_name m e j t \<and>
     ld32 m (xe_chain e + 4 * ucast (j - xe_symoffset e)) = Ret h \<and> xh_elf_gnu_hash t OR 1 = h OR 1)"

definition bloom_word :: "mem \<Rightarrow> xh_elf \<Rightarrow> u32 \<Rightarrow> u64 run" where
  "bloom_word m e hash = ld64 m (xe_bloom e + 8 * ucast (hash div 64 mod xe_bloom_sz e))"

definition bloom_hit :: "mem \<Rightarrow> xh_elf \<Rightarrow> u32 \<Rightarrow> bool" where
  "bloom_hit m e hash \<longleftrightarrow> (case bloom_word m e hash of
     Ret word \<Rightarrow> word AND gnu_mask e hash = gnu_mask e hash | _ \<Rightarrow> False)"

definition gnu_bucket :: "mem \<Rightarrow> xh_elf \<Rightarrow> u32 \<Rightarrow> u32 list \<Rightarrow> bool" where
  "gnu_bucket m e hash js \<longleftrightarrow> (case ld_bucket m e hash of
     Ret i \<Rightarrow> (if i < xe_symoffset e then js = [] else gnu_from m e i js) | _ \<Rightarrow> False)"

definition gnu_undef :: "xh_elf \<Rightarrow> u32 list" where
  "gnu_undef e = map of_nat [0..<unat (xe_symoffset e)]"

definition gnu_table_ok :: "mem \<Rightarrow> xh_elf \<Rightarrow> bool" where
  "gnu_table_ok m e \<longleftrightarrow> xe_bloom_sz e \<noteq> 0 \<and> xe_bloom_shift e < 32 \<and>
     (\<forall>hash. \<exists>word. bloom_word m e hash = Ret word) \<and>
     (\<forall>hash. \<exists>js. gnu_bucket m e hash js \<and> (\<forall>j \<in> set js. gnu_hashed m e j \<and>
        (\<forall>t. sym_name m e j t \<longrightarrow> bloom_hit m e (xh_elf_gnu_hash t)))) \<and>
     (\<forall>j \<in> set (gnu_undef e). named m e j)"

definition gnu_candidates :: "mem \<Rightarrow> xh_elf \<Rightarrow> string \<Rightarrow> u32 set" where
  "gnu_candidates m e s = {j. \<exists>js. gnu_bucket m e (xh_elf_gnu_hash s) js \<and> j \<in> set js} \<union> set (gnu_undef e)"

lemma gnu_from_inject: "gnu_from m e i js \<Longrightarrow> gnu_from m e i ks \<Longrightarrow> js = ks"
proof (induction js arbitrary: i ks)
  case (Cons j js)
  then show ?case by (cases ks) (auto split: run.splits if_splits)
qed simp

lemma gnu_bucket_inject: "gnu_bucket m e h js \<Longrightarrow> gnu_bucket m e h ks \<Longrightarrow> js = ks"
  by (auto simp: gnu_bucket_def gnu_from_inject split: run.splits if_splits)

lemma gnu_compare:
  assumes "gnu_hashed m e j" and "plain_name s"
    and "ld32 m (xe_chain e + 4 * ucast (j - xe_symoffset e)) = Ret h"
  shows "(if xh_elf_gnu_hash s OR 1 = h OR 1 then sym_streq m e s j
     else bindr (ld32 m (xe_symtab e + 24 * ucast j)) (\<lambda>_. Ret False)) = Ret (sym_name m e j s)"
proof -
  from assms(1, 3) obtain t where t: "sym_name m e j t" "xh_elf_gnu_hash t OR 1 = h OR 1"
    by (auto simp: gnu_hashed_def)
  then have nm: "sym_name m e j s \<longleftrightarrow> s = t" by (auto dest: sym_name_inject)
  from t(1) obtain v where "ld32 m (xe_symtab e + 24 * ucast j) = Ret v"
    by (auto simp: sym_name_def split: run.splits)
  with t nm sym_streq_name [OF t(1) assms(2)] show ?thesis by auto
qed

lemma gnu_chain_correct:
  assumes "gnu_from m e i js" and "\<forall>j \<in> set js. gnu_hashed m e j" and "plain_name s"
  shows "gnu_chain m e s (xh_elf_gnu_hash s) i = Some (Ret (first_named m e s js))"
  using assms
proof (induction js arbitrary: i)
  case (Cons j js)
  from Cons.prems(1) have j: "j = i" by simp
  from Cons.prems(1) obtain h where h: "ld32 m (xe_chain e + 4 * ucast (i - xe_symoffset e)) = Ret h"
    "if h AND 1 \<noteq> 0 then js = [] else gnu_from m e (i + 1) js"
    by (auto split: run.splits)
  have "gnu_hashed m e i" using Cons.prems(2) j by simp
  note cmp = gnu_compare [OF this Cons.prems(3) h(1)]
  show ?case
  proof (cases "sym_name m e i s")
    case True
    then show ?thesis by (subst gnu_chain.simps) (simp add: h(1) cmp first_named_def j)
  next
    case False
    show ?thesis
    proof (cases "h AND 1 = 0")
      case True
      with False h(2) Cons show ?thesis
        by (subst gnu_chain.simps) (simp add: h(1) cmp first_named_def j)
    next
      case nz: False
      with False h(2) show ?thesis
        by (subst gnu_chain.simps) (simp add: h(1) cmp first_named_def j)
    qed
  qed
qed simp

lemma gnu_def_correct:
  assumes ok: "gnu_table_ok m e" and s: "plain_name s" and js: "gnu_bucket m e (xh_elf_gnu_hash s) js"
  shows "xh_elf_gnu_hash_lookup_def m e s = Ret (first_named m e s js)"
proof -
  let ?h = "xh_elf_gnu_hash s"
  from ok obtain word where word: "bloom_word m e ?h = Ret word"
    unfolding gnu_table_ok_def by blast
  from ok obtain ks where "gnu_bucket m e ?h ks"
    "\<forall>j \<in> set ks. gnu_hashed m e j \<and> (\<forall>t. sym_name m e j t \<longrightarrow> bloom_hit m e (xh_elf_gnu_hash t))"
    unfolding gnu_table_ok_def by blast
  with gnu_bucket_inject [OF js] have each: "\<forall>j \<in> set js. gnu_hashed m e j \<and>
      (\<forall>t. sym_name m e j t \<longrightarrow> bloom_hit m e (xh_elf_gnu_hash t))" by blast
  from js obtain i where i: "ld_bucket m e ?h = Ret i" "if i < xe_symoffset e then js = [] else gnu_from m e i js"
    by (auto simp: gnu_bucket_def split: run.splits)
  show ?thesis
  proof (cases "word AND gnu_mask e ?h = gnu_mask e ?h")
    case True
    with ok word i gnu_chain_correct [of m e i js s] each s show ?thesis
      by (auto simp: xh_elf_gnu_hash_lookup_def_def Let_def gnu_table_ok_def bloom_word_def run_of_def
          first_named_missing not_le)
  next
    case False
    with word have "\<not> bloom_hit m e ?h" by (simp add: bloom_hit_def)
    with each have "first_named m e s js = Inl XH_ERRNO_NOTFND" by (intro first_named_missing) blast
    with False ok word show ?thesis
      by (auto simp: xh_elf_gnu_hash_lookup_def_def Let_def gnu_table_ok_def bloom_word_def not_le)
  qed
qed


lemma gnu_chain_sound:
  assumes "gnu_chain m e s h i = Some (Ret (Inr j))" and "plain_name s"
  shows "sym_name m e j s"
proof -
  have "\<forall>j. r = Ret (Inr j) \<longrightarrow> plain_name s \<longrightarrow> sym_name m e j s" if "gnu_chain m e s h i = Some r" for r
    by (rule gnu_chain.raw_induct [where P = "\<lambda>m e s h i r. \<forall>j. r = Ret (Inr j) \<longrightarrow> plain_name s \<longrightarrow>
          sym_name m e j s", OF _ that])
      (auto split: if_splits run.splits prod.splits simp: bindr_eq_Ret dest: sym_streq_True)
  from this [OF assms(1)] assms(2) show ?thesis by simp
qed

lemma undef_loop_correct:
  assumes "\<forall>k < n. named m e (i + of_nat k)" and "plain_name s"
  shows "undef_loop m e s i n = Ret (first_named m e s (map (\<lambda>k. i + of_nat k) [0..<n]))"
  using assms
proof (induction n arbitrary: i)
  case 0
  then show ?case by (simp add: first_named_def)
next
  case (Suc n)
  have "named m e i" using Suc.prems(1) by (auto dest: spec [of _ 0])
  moreover have "\<forall>k < n. named m e (i + 1 + of_nat k)"
    using Suc.prems(1) by (auto simp: add.assoc dest: spec [of _ "Suc _"])
  moreover have "map (\<lambda>k. i + of_nat k) [0..<Suc n] = i # map (\<lambda>k. i + 1 + of_nat k) [0..<n]"
    by (simp add: upt_conv_Cons map_Suc_upt [symmetric] add.assoc del: upt_Suc)
  ultimately show ?case
    using Suc.IH [of "i + 1"] Suc.prems(2) by (simp add: sym_streq_named first_named_def del: upt_Suc)
qed

lemma undef_loop_sound:
  "undef_loop m e s i n = Ret (Inr j) \<Longrightarrow> plain_name s \<Longrightarrow> sym_name m e j s"
  by (induction n arbitrary: i) (auto simp: bindr_eq_Ret dest: sym_streq_True split: if_splits)

lemma gnu_undef_correct:
  assumes "gnu_table_ok m e" and "plain_name s"
  shows "xh_elf_gnu_hash_lookup_undef m e s = Ret (first_named m e s (gnu_undef e))"
  using undef_loop_correct [of "unat (xe_symoffset e)" m e 0 s] assms
  by (simp add: xh_elf_gnu_hash_lookup_undef_def gnu_undef_def gnu_table_ok_def)

lemma first_named_cases:
  obtains "first_named m e s js = Inl XH_ERRNO_NOTFND" | j where "first_named m e s js = Inr j" "j \<in> set js"
  by (cases "find (\<lambda>j. sym_name m e j s) js") (auto simp: first_named_def find_Some_iff)

lemma first_named_append:
  "first_named m e s (js @ ks) = (case first_named m e s js of Inr j \<Rightarrow> Inr j | Inl _ \<Rightarrow> first_named m e s ks)"
  by (induction js) (auto simp: first_named_def split: option.splits)

lemma gnu_lookup_correct:
  assumes "gnu_table_ok m e" and "plain_name s" and "gnu_bucket m e (xh_elf_gnu_hash s) js"
  shows "xh_elf_gnu_hash_lookup m e s = Ret (first_named m e s (js @ gnu_undef e))"
  by (simp add: xh_elf_gnu_hash_lookup_def gnu_def_correct [OF assms] gnu_undef_correct [OF assms(1, 2)]
      first_named_append split: sum.split)
    (metis first_named_cases old.sum.inject(1) sum.distinct(1))

lemma gnu_def_sound:
  "xh_elf_gnu_hash_lookup_def m e s = Ret (Inr i) \<Longrightarrow> plain_name s \<Longrightarrow> sym_name m e i s"
  by (auto simp: xh_elf_gnu_hash_lookup_def_def bindr_eq_Ret run_of_def Let_def
      split: if_splits option.splits dest: gnu_chain_sound)

lemma gnu_lookup_sound:
  assumes "xh_elf_gnu_hash_lookup m e s = Ret (Inr i)" and "plain_name s"
  shows "sym_name m e i s"
proof -
  from assms(1) obtain r where r: "xh_elf_gnu_hash_lookup_def m e s = Ret r"
    by (auto simp: xh_elf_gnu_hash_lookup_def bindr_eq_Ret)
  show ?thesis
  proof (cases r)
    case (Inl x)
    with assms(1) r obtain r' where "xh_elf_gnu_hash_lookup_undef m e s = Ret r'" "r' = Inr i"
      by (auto simp: xh_elf_gnu_hash_lookup_def bindr_eq_Ret) (metis (no_types) old.sum.simps run.inject sum.exhaust sum.distinct(1) sum.inject(2))
    with assms(2) show ?thesis
      by (auto simp: xh_elf_gnu_hash_lookup_undef_def dest: undef_loop_sound)
  next
    case (Inr j)
    with assms r show ?thesis by (simp add: xh_elf_gnu_hash_lookup_def gnu_def_sound)
  qed
qed

interpretation gnu_hash: symbol_lookup xh_elf_gnu_hash_lookup gnu_table_ok gnu_candidates
proof
  fix m e s i
  assume "xh_elf_gnu_hash_lookup m e s = Ret (Inr i)" "plain_name s"
  then show "sym_name m e i s" by (rule gnu_lookup_sound)
next
  fix m e s i
  assume ok: "gnu_table_ok m e" and s: "plain_name s"
  then obtain js where js: "gnu_bucket m e (xh_elf_gnu_hash s) js" unfolding gnu_table_ok_def by blast
  then have c: "gnu_candidates m e s = set (js @ gnu_undef e)"
    by (auto simp: gnu_candidates_def dest: gnu_bucket_inject [OF js])
  note lk = gnu_lookup_correct [OF ok s js]
  { assume "i \<in> gnu_candidates m e s" "sym_name m e i s"
    then show "\<exists>j \<in> gnu_candidates m e s. xh_elf_gnu_hash_lookup m e s = Ret (Inr j)"
      using first_named_found [of i "js @ gnu_undef e" m e s] by (auto simp: lk c) }
  { assume "\<And>i. i \<in> gnu_candidates m e s \<Longrightarrow> \<not> sym_name m e i s"
    then show "xh_elf_gnu_hash_lookup m e s = Ret (Inl XH_ERRNO_NOTFND)"
      using first_named_missing [of "js @ gnu_undef e" m e s] by (simp add: lk c) }
qed

section \<open>The lookup of the ELF view\<close>

definition symtab_ok :: "mem \<Rightarrow> xh_elf \<Rightarrow> bool" where
  "symtab_ok m e \<longleftrightarrow> (if xe_is_use_gnu_hash e then gnu_table_ok m e else hash_table_ok m e)"

definition symtab_candidates :: "mem \<Rightarrow> xh_elf \<Rightarrow> string \<Rightarrow> u32 set" where
  "symtab_candidates m e s = (if xe_is_use_gnu_hash e then gnu_candidates m e s else hash_candidates m e s)"

interpretation symtab: symbol_lookup xh_elf_find_symidx_by_name symtab_ok symtab_candidates
  by unfold_locales
    (auto simp: xh_elf_find_symidx_by_name_def symtab_ok_def symtab_candidates_def
      intro: gnu_hash.sound elf_hash.sound gnu_hash.found elf_hash.found gnu_hash.missing elf_hash.missing
      split: if_splits)


section \<open>A small library image\<close>

definition sample_lib :: mem where
  "sample_lib = stbytes (stbytes (stbytes (\<lambda>_. None) 0x2000 (replicate 24 0 @ bytes32 1 @ replicate 20 0))
     0x3000 [0, byte_of (CHR ''f''), 0]) 0x4000 (bytes32 1 @ bytes32 0 @ bytes32 0)"

definition sample_elf :: xh_elf where
  "sample_elf = zero_elf\<lparr>xe_pathname := Some ''/system/lib64/liba.so'', xe_base_addr := 0x1000, xe_bias_addr := 0x1000,
     xe_symtab := 0x2000, xe_strtab := 0x3000, xe_bucket := 0x4000, xe_bucket_cnt := 1, xe_chain := 0x4004\<rparr>"

lemma sample_lib_eval:
  "ld32 sample_lib 0x4000 = Ret 1" "ld32 sample_lib 0x4008 = Ret 0" "ld32 sample_lib 0x2018 = Ret 1"
  "sample_lib 0x3001 = Some (byte_of (CHR ''f''))" "sample_lib 0x3002 = Some 0"
  by code_simp+

lemma sample_sym_name: "sym_name sample_lib sample_elf 1 ''f''"
  using sample_lib_eval by (simp add: sym_name_def sample_elf_def zero_elf_def)

lemma sample_bucket_chain: "bucket_chain sample_lib sample_elf hash [1]"
  using sample_lib_eval
  by (simp add: bucket_chain_def ld_bucket_def sample_elf_def zero_elf_def)

lemma sample_symtab_ok: "symtab_ok sample_lib sample_elf"
proof -
  have "hash_table_ok sample_lib sample_elf"
    using sample_bucket_chain sample_sym_name by (auto simp: hash_table_ok_def named_def intro!: exI [of _ "[1]"])
  then show ?thesis by (simp add: symtab_ok_def sample_elf_def zero_elf_def)
qed

text \<open>
  C3: over a well-formed symbol table of either kind, the lookup always returns, finds a symbol of
  the given name among those the table files under it whenever there is one, and reports
  \<open>XH_ERRNO_NOTFND\<close> exactly when there is none.
\<close>

theorem find_symbol_correct:
  assumes "symtab_ok m e" and "CHR 0x00 \<notin> set s"
  shows "case xh_elf_find_symidx_by_name m e s of
      Ret (Inr i) \<Rightarrow> i \<in> symtab_candidates m e s \<and> sym_name m e i s
    | Ret (Inl r) \<Rightarrow> r = XH_ERRNO_NOTFND \<and> (\<forall>i \<in> symtab_candidates m e s. \<not> sym_name m e i s)
    | _ \<Rightarrow> False"
proof (cases "\<exists>i \<in> symtab_candidates m e s. sym_name m e i s")
  case True
  then obtain j where "j \<in> symtab_candidates m e s" "xh_elf_find_symidx_by_name m e s = Ret (Inr j)"
    using symtab.found [OF assms] by blast
  then show ?thesis using symtab.sound [OF _ assms(2)] by simp
next
  case False
  then show ?thesis using symtab.missing [OF assms] by auto
qed

theorem find_symbol_correct_witness:
  "xh_elf_find_symidx_by_name sample_lib sample_elf ''f'' \<noteq> Ret (Inl XH_ERRNO_NOTFND)"
proof -
  have "1 \<in> symtab_candidates sample_lib sample_elf ''f''"
    using sample_bucket_chain
    by (auto simp: symtab_candidates_def hash_candidates_def sample_elf_def zero_elf_def intro!: exI [of _ "[1]"])
  with find_symbol_correct [OF sample_symtab_ok, of "''f''"] sample_sym_name show ?thesis by auto
qed

text \<open>
  Even over a corrupted table of either kind, an index that the lookup returns belongs to a
  symbol of the given name.
\<close>

theorem find_symbol_sound:
  assumes "xh_elf_find_symidx_by_name m e s = Ret (Inr i)" and "CHR 0x00 \<notin> set s"
  shows "sym_name m e i s"
  using assms by (rule symtab.sound)

theorem find_symbol_sound_witness: "sym_name sample_lib sample_elf 1 ''f''"
proof -
  have "xh_elf_find_symidx_by_name sample_lib sample_elf ''f'' = Ret (Inr 1)"
    using hash_lookup_correct [of sample_lib sample_elf "''f''" "[1]"] sample_bucket_chain sample_sym_name
    by (auto simp: xh_elf_find_symidx_by_name_def sample_elf_def zero_elf_def named_def first_named_def)
  from find_symbol_sound [OF this] show ?thesis by simp
qed

section \<open>When the search ends\<close>

text \<open>
  The chain of a \<open>DT_HASH\<close> table comes to its end, or to a word that is not mapped, within so many
  steps from a symbol: it does not run in a circle.
\<close>

fun chain_ends :: "mem \<Rightarrow> xh_elf \<Rightarrow> nat \<Rightarrow> u32 \<Rightarrow> bool" where
  "chain_ends m e 0 i \<longleftrightarrow> i = 0"
| "chain_ends m e (Suc n) i \<longleftrightarrow> i = 0 \<or> (case ld32 m (xe_chain e + 4 * ucast i) of Ret j \<Rightarrow> chain_ends m e n j | _ \<Rightarrow> True)"

text \<open>A word of the chain of a \<open>DT_GNU_HASH\<close> table that the search does not get past.\<close>

definition gnu_stop :: "mem \<Rightarrow> xh_elf \<Rightarrow> u32 \<Rightarrow> bool" where
  "gnu_stop m e k \<longleftrightarrow> (case ld32 m (xe_chain e + 4 * ucast k) of Ret h \<Rightarrow> h AND 1 \<noteq> 0 | _ \<Rightarrow> True)"

text \<open>
  The chains a search can come to: that of the bucket of the symbol, or, in a GNU table, the 2^32 words from
  the start of the chains on, of which one ends the search.
\<close>

definition chains_end :: "mem \<Rightarrow> xh_elf \<Rightarrow> string \<Rightarrow> bool" where
  "chains_end m e s \<longleftrightarrow> (if xe_is_use_gnu_hash e
     then case ld_bucket m e (xh_elf_gnu_hash s) of Ret i \<Rightarrow> i < xe_symoffset e \<or> (\<exists>k. gnu_stop m e k) | _ \<Rightarrow> True
     else case ld_bucket m e (xh_elf_hash s) of Ret i \<Rightarrow> \<exists>n. chain_ends m e n i | _ \<Rightarrow> True)"

lemma ld_bucket_ends [simp]: "ld_bucket m e h \<noteq> Hang"
  by (simp add: ld_bucket_def)

lemma mem_streq_ends [simp]: "mem_streq m s a \<noteq> Hang"
  by (induction s arbitrary: a) auto

lemma sym_streq_ends [simp]: "sym_streq m e s i \<noteq> Hang"
  by (simp add: sym_streq_def)

lemma hash_chain_ends: "chain_ends m e n i \<Longrightarrow> run_of (hash_chain m e s i) \<noteq> Hang"
proof (induction n arbitrary: i)
  case 0
  then show ?case by (subst hash_chain.simps) (simp add: run_of_def)
next
  case (Suc n)
  have "ld32 m (xe_chain e + 4 * ucast i) = Ret j \<Longrightarrow> i \<noteq> 0 \<Longrightarrow> run_of (hash_chain m e s j) \<noteq> Hang" for j
    using Suc by simp
  then show ?case using sym_streq_ends [of m e s i] loads_end(4) [of m "xe_chain e + 4 * ucast i"]
    by (subst hash_chain.simps) (auto simp: run_of_def split: run.split)
qed

lemma gnu_chain_ends: "gnu_stop m e (i + d - xe_symoffset e) \<Longrightarrow> run_of (gnu_chain m e s h i) \<noteq> Hang"
proof (induction "unat d" arbitrary: d i)
  case 0
  then have "d = 0" by (simp add: unsigned_eq_0_iff)
  with 0 have "gnu_stop m e (i - xe_symoffset e)" by simp
  then show ?case
    by (subst gnu_chain.simps) (auto simp: run_of_def gnu_stop_def bindr_eq_Ret split: run.splits if_splits)
next
  case (Suc n)
  then have "d \<noteq> 0" by auto
  then have "n = unat (d - 1)" using Suc(2) by (simp add: unat_minus_one)
  moreover have "i + 1 + (d - 1) = i + d" by simp
  ultimately have "run_of (gnu_chain m e s h (i + 1)) \<noteq> Hang" using Suc(1) [of "d - 1" "i + 1"] Suc(3) by simp
  then show ?case
    by (subst gnu_chain.simps) (auto simp: run_of_def split: run.splits)
qed

lemma undef_loop_ends [simp]: "undef_loop m e s i n \<noteq> Hang"
  by (induction n arbitrary: i) auto

lemma find_ends: "chains_end m e s \<Longrightarrow> xh_elf_find_symidx_by_name m e s \<noteq> Hang"
proof (cases "xe_is_use_gnu_hash e")
  case True
  assume "chains_end m e s"
  have "run_of (gnu_chain m e s h i) \<noteq> Hang" if "gnu_stop m e k" for h i k
    using gnu_chain_ends [of m e i "k + xe_symoffset e - i"] that by simp
  with \<open>chains_end m e s\<close> have "run_of (gnu_chain m e s h i) \<noteq> Hang"
    if "ld_bucket m e (xh_elf_gnu_hash s) = Ret i" "\<not> i < xe_symoffset e" for h i
    using that True by (auto simp: chains_end_def)
  then show ?thesis using True
    by (auto simp: xh_elf_find_symidx_by_name_def xh_elf_gnu_hash_lookup_def xh_elf_gnu_hash_lookup_def_def
        xh_elf_gnu_hash_lookup_undef_def Let_def split: sum.split)
next
  case False
  assume "chains_end m e s"
  with False show ?thesis
    by (auto simp: xh_elf_find_symidx_by_name_def xh_elf_hash_lookup_def chains_end_def hash_chain_ends)
qed

text \<open>The condition on a \<open>DT_HASH\<close> table is needed: a symbol whose chain word names it again, without the name
  looked for, is compared for ever.\<close>

lemma hash_chain_hangs:
  assumes "i \<noteq> 0" and "sym_streq m e s i = Ret False" and "ld32 m (xe_chain e + 4 * ucast i) = Ret i"
  shows "hash_chain m e s i = None"
proof -
  let ?P = "\<lambda>m' e' s' i' (r :: (int + u32) run). m' = m \<and> e' = e \<and> s' = s \<longrightarrow> i' \<noteq> i"
  have "?P m e s i r" if "hash_chain m e s i = Some r" for r
    by (rule hash_chain.raw_induct [where P = ?P, OF _ that]) (use assms in \<open>auto split: run.splits if_splits\<close>)
  then show ?thesis by (cases "hash_chain m e s i") auto
qed

lemma chain_from_ends: "chain_from m e i js \<Longrightarrow> chain_ends m e (length js) i"
  by (induction js arbitrary: i) (auto split: run.splits)

lemma gnu_from_stops: "gnu_from m e i js \<Longrightarrow> \<exists>k. gnu_stop m e k"
proof (induction js arbitrary: i)
  case (Cons j js)
  show ?case
  proof (cases "gnu_stop m e (i - xe_symoffset e)")
    case False
    then have "gnu_from m e (i + 1) js" using Cons.prems by (auto simp: gnu_stop_def split: run.splits if_splits)
    then show ?thesis by (rule Cons.IH)
  qed blast
qed simp

lemma symtab_ok_chains_end: "symtab_ok m e \<Longrightarrow> chains_end m e s"
proof (cases "xe_is_use_gnu_hash e")
  case True
  assume "symtab_ok m e"
  with True have "gnu_table_ok m e" by (simp add: symtab_ok_def)
  then obtain js where "gnu_bucket m e (xh_elf_gnu_hash s) js" unfolding gnu_table_ok_def by blast
  then show ?thesis using True gnu_from_stops
    by (fastforce simp: chains_end_def gnu_bucket_def split: run.splits if_splits)
next
  case False
  assume "symtab_ok m e"
  with False obtain js where "bucket_chain m e (xh_elf_hash s) js" by (auto simp: symtab_ok_def hash_table_ok_def)
  then show ?thesis using False chain_from_ends
    by (fastforce simp: chains_end_def bucket_chain_def split: run.splits)
qed

section \<open>What initialisation establishes\<close>

definition table_ptr :: "xh_elf \<Rightarrow> u64 \<Rightarrow> bool" where
  "table_ptr e p \<longleftrightarrow> p = 0 \<or> xe_base_addr e \<le> p"

text \<open>
  The words of the hash table lie where its address, at or above the base address, puts them: for \<open>DT_HASH\<close>
  two words, the buckets and the chains; for \<open>DT_GNU_HASH\<close> four words, the filter, the buckets and the chains.
\<close>

definition hash_at :: "mem \<Rightarrow> xh_elf \<Rightarrow> bool" where
  "hash_at m e \<longleftrightarrow> xe_chain e = xe_bucket e + 4 * ucast (xe_bucket_cnt e) \<and>
     (if xe_is_use_gnu_hash e
      then xe_base_addr e \<le> xe_bloom e - 16 \<and> xe_bucket e = xe_bloom e + 8 * ucast (xe_bloom_sz e) \<and>
        ld32 m (xe_bloom e - 16) = Ret (xe_bucket_cnt e) \<and> ld32 m (xe_bloom e - 12) = Ret (xe_symoffset e) \<and>
        ld32 m (xe_bloom e - 8) = Ret (xe_bloom_sz e) \<and> ld32 m (xe_bloom e - 4) = Ret (xe_bloom_shift e)
      else xe_base_addr e \<le> xe_bucket e - 8 \<and>
        ld32 m (xe_bucket e - 8) = Ret (xe_bucket_cnt e) \<and> ld32 m (xe_bucket e - 4) = Ret (xe_chain_cnt e))"

definition hash_ok :: "mem \<Rightarrow> xh_elf \<Rightarrow> bool" where
  "hash_ok m e \<longleftrightarrow> \<not> xe_is_use_gnu_hash e \<and> xe_bucket e = 0 \<or> hash_at m e"

lemma hash_at_update [simp]:
  "hash_at m (e\<lparr>xe_dyn := x0\<rparr>) = hash_at m e"
  "hash_at m (e\<lparr>xe_dyn_sz := x1\<rparr>) = hash_at m e"
  "hash_at m (e\<lparr>xe_strtab := x2\<rparr>) = hash_at m e"
  "hash_at m (e\<lparr>xe_symtab := x3\<rparr>) = hash_at m e"
  "hash_at m (e\<lparr>xe_is_use_rela := x4\<rparr>) = hash_at m e"
  "hash_at m (e\<lparr>xe_relplt := x5\<rparr>) = hash_at m e"
  "hash_at m (e\<lparr>xe_relplt_sz := x6\<rparr>) = hash_at m e"
  "hash_at m (e\<lparr>xe_reldyn := x7\<rparr>) = hash_at m e"
  "hash_at m (e\<lparr>xe_reldyn_sz := x8\<rparr>) = hash_at m e"
  "hash_at m (e\<lparr>xe_relandroid := x9\<rparr>) = hash_at m e"
  "hash_at m (e\<lparr>xe_relandroid_sz := x10\<rparr>) = hash_at m e"
  by (simp_all add: hash_at_def)

definition tables_ok :: "mem \<Rightarrow> xh_elf \<Rightarrow> bool" where
  "tables_ok m e \<longleftrightarrow> hash_ok m e \<and> table_ptr e (xe_strtab e) \<and> table_ptr e (xe_symtab e) \<and> table_ptr e (xe_relplt e) \<and>
     table_ptr e (xe_reldyn e) \<and> table_ptr e (xe_relandroid e)"

definition same_image :: "xh_elf \<Rightarrow> xh_elf \<Rightarrow> bool" where
  "same_image e e' \<longleftrightarrow> xe_pathname e' = xe_pathname e \<and> xe_base_addr e' = xe_base_addr e \<and>
     xe_bias_addr e' = xe_bias_addr e \<and> xe_ehdr e' = xe_ehdr e \<and> xe_phdr e' = xe_phdr e"

lemma same_image_trans: "same_image a b \<Longrightarrow> same_image b c \<Longrightarrow> same_image a c"
  by (simp add: same_image_def)

text \<open>A step that fails with the format error or keeps the image and good table pointers.\<close>

definition init_post :: "mem \<Rightarrow> xh_elf \<Rightarrow> int \<times> xh_elf \<Rightarrow> bool" where
  "init_post m e = (\<lambda>(r, e'). (r = 0 \<or> r = XH_ERRNO_FORMAT) \<and> same_image e e' \<and>
     (r = 0 \<and> tables_ok m e \<longrightarrow> tables_ok m e'))"

lemma init_post_same [simp]: "init_post m e (0, e)" "init_post m e (XH_ERRNO_FORMAT, e)"
  by (simp_all add: init_post_def same_image_def)

lemma init_step_seq:
  assumes "returns (init_post m e) k"
    and "\<And>e'. k = Ret (0, e') \<Longrightarrow> returns (init_post m e') (f e')"
  shows "returns (init_post m e) (bindr k (\<lambda>(r, e'). if r \<noteq> 0 then Ret (r, e') else f e'))"
proof (rule returns_bind)
  fix x
  assume x: "k = Ret x"
  obtain r e' where re: "x = (r, e')" by (cases x)
  from returnsD [OF assms(1) x] have post: "init_post m e (r, e')" by (simp add: re)
  have "init_post m e y" if "r = 0" "init_post m e' y" for y
    using that post by (auto simp: init_post_def intro: same_image_trans)
  with post assms(2) x show "returns (init_post m e) (case x of (r, e') \<Rightarrow> if r \<noteq> 0 then Ret (r, e') else f e')"
    by (cases "r = 0") (auto simp: re returns_def)
qed

lemmas init_post_defs = init_post_def same_image_def tables_ok_def table_ptr_def hash_ok_def

lemma dyn_hash_ok:
  assumes "xe_base_addr e \<le> p" and "\<not> xe_is_use_gnu_hash e"
  shows "returns (init_post m e) (dyn_hash m e p)"
  unfolding returns_def
proof (intro allI impI)
  fix x
  assume "dyn_hash m e p = Ret x"
  then obtain c n where l: "ld32 m p = Ret c" "ld32 m (p + 4) = Ret n"
    and x: "x = (0, e\<lparr>xe_bucket_cnt := c, xe_chain_cnt := n, xe_bucket := p + 8, xe_chain := p + 8 + 4 * ucast c\<rparr>)"
    by (auto simp: dyn_hash_def bindr_eq_Ret)
  have "hash_at m (snd x)" using assms l by (simp add: x hash_at_def add.commute)
  then show "init_post m e x" by (simp add: x init_post_defs)
qed

lemma dyn_gnu_hash_ok:
  assumes "xe_base_addr e \<le> p"
  shows "returns (init_post m e) (dyn_gnu_hash m e p)"
  unfolding returns_def
proof (intro allI impI)
  fix x
  assume "dyn_gnu_hash m e p = Ret x"
  then obtain c n z h where l: "ld32 m p = Ret c" "ld32 m (p + 4) = Ret n" "ld32 m (p + 8) = Ret z" "ld32 m (p + 12) = Ret h"
    and x: "x = (0, e\<lparr>xe_bucket_cnt := c, xe_symoffset := n, xe_bloom_sz := z, xe_bloom_shift := h, xe_bloom := p + 16,
      xe_bucket := p + 16 + 8 * ucast z, xe_chain := p + 16 + 8 * ucast z + 4 * ucast c, xe_is_use_gnu_hash := True\<rparr>)"
    by (auto simp: dyn_gnu_hash_def bindr_eq_Ret Let_def)
  have "hash_at m (snd x)" using assms l by (simp add: x hash_at_def add.commute)
  then show "init_post m e x" by (simp add: x init_post_defs)
qed

lemma dyn_entry_ok: "returns (init_post m e) (dyn_entry m e d_tag d_val)"
proof (cases "xe_bias_addr e + d_val < xe_base_addr e")
  case True
  then show ?thesis unfolding dyn_entry_def Let_def
    by (intro returns_if) (simp_all add: init_post_defs split: if_splits)
next
  case False
  then have "returns (init_post m e) (dyn_gnu_hash m e (xe_bias_addr e + d_val))"
    "\<not> xe_is_use_gnu_hash e \<Longrightarrow> returns (init_post m e) (dyn_hash m e (xe_bias_addr e + d_val))"
    by (simp_all add: dyn_gnu_hash_ok dyn_hash_ok not_less)
  with False show ?thesis unfolding dyn_entry_def Let_def
    by (intro returns_if) (simp_all add: init_post_defs not_less split: if_splits)
qed

lemma dyn_loop_ok: "returns (init_post m e) (dyn_loop m dyn n e)"
proof (induction n arbitrary: dyn e)
  case (Suc n)
  show ?case
    unfolding dyn_loop.simps
    by (intro returns_bind returns_if init_step_seq dyn_entry_ok Suc.IH) simp
qed simp

lemma init_android_ok:
  "returns (\<lambda>(r, e'). (r = 0 \<or> r = XH_ERRNO_FORMAT) \<and> (r = 0 \<longrightarrow>
     e' = (if xe_relandroid e = 0 then e else
       e\<lparr>xe_relandroid := xe_relandroid e + 4, xe_relandroid_sz := xe_relandroid_sz e - 4\<rparr>))) (init_android m e)"
  unfolding init_android_def by (intro returns_intros) simp_all

text \<open>A view that initialisation accepted.\<close>

definition elf_valid :: "mem \<Rightarrow> xh_elf \<Rightarrow> bool" where
  "elf_valid m e \<longleftrightarrow> xe_base_addr e \<noteq> 0 \<and> xe_bias_addr e \<noteq> 0 \<and> xe_bias_addr e \<le> xe_base_addr e \<and>
     xe_base_addr e \<le> xe_strtab e \<and> xe_base_addr e \<le> xe_symtab e \<and> table_ptr e (xe_relplt e) \<and>
     table_ptr e (xe_reldyn e) \<and> (xe_relandroid e = 0 \<or> xe_base_addr e \<le> xe_relandroid e - 4) \<and>
     xe_bucket e \<noteq> 0 \<and> xe_chain e \<noteq> 0 \<and> (xe_is_use_gnu_hash e \<longrightarrow> xe_bloom e \<noteq> 0) \<and> hash_at m e"

definition init_done :: "mem \<Rightarrow> xh_elf \<Rightarrow> int \<times> xh_elf \<Rightarrow> bool" where
  "init_done m e = (\<lambda>(r, e'). (r = 0 \<or> r = XH_ERRNO_FORMAT) \<and> (r = 0 \<longrightarrow> elf_valid m e' \<and>
     xe_pathname e' = xe_pathname e \<and> xe_base_addr e' = xe_base_addr e))"

lemma init_finish_ok:
  assumes "tables_ok m e" and "xe_bias_addr e \<le> xe_base_addr e"
  shows "returns (init_done m e) (init_finish m e)"
  unfolding init_finish_def
proof (rule returns_bind)
  fix x
  assume "init_android m e = Ret x"
  from returnsD [OF init_android_ok this] assms
  show "returns (init_done m e) (case x of (r, e') \<Rightarrow> if r \<noteq> 0 then Ret (r, e')
      else if xh_elf_check e' \<noteq> 0 then Ret (XH_ERRNO_FORMAT, e') else Ret (0, e'))"
    by (cases x) (auto simp: init_done_def elf_valid_def tables_ok_def table_ptr_def hash_ok_def xh_elf_check_def
        split: if_splits)
qed


lemma init_dynamic_ok:
  assumes "tables_ok m e" and "xe_bias_addr e \<le> xe_base_addr e"
  shows "returns (init_done m e) (init_dynamic m e dhdr)"
  unfolding init_dynamic_def Let_def
proof (intro returns_bind, goal_cases)
  case (1 vaddr memsz x)
  let ?n = "(ucast memsz :: u32) div 16"
  let ?e = "e\<lparr>xe_dyn := xe_bias_addr e + vaddr, xe_dyn_sz := ucast memsz\<rparr>"
  have "returns (init_post m ?e) (if xe_bias_addr e + vaddr < xe_bias_addr e + vaddr + 16 * ucast ?n
      then dyn_loop m (xe_bias_addr e + vaddr) (unat ?n) ?e else Ret (0, ?e))"
    by (intro returns_if dyn_loop_ok) simp
  from returnsD [OF this 1(3)] obtain r e1 where x: "x = (r, e1)" and post: "init_post m ?e (r, e1)"
    by (cases x) auto
  show ?case
  proof (cases "r = 0")
    case True
    have "tables_ok m ?e" using assms(1) by (simp add: tables_ok_def table_ptr_def hash_ok_def)
    with post True have tabs: "tables_ok m e1" and same: "same_image ?e e1" by (simp_all add: init_post_def)
    from same assms(2) have "xe_bias_addr e1 \<le> xe_base_addr e1" by (simp add: same_image_def)
    from init_finish_ok [OF tabs this] have "returns (init_done m e) (init_finish m e1)"
      by (rule returns_mono) (use same in \<open>auto simp: init_done_def same_image_def\<close>)
    with True show ?thesis by (simp add: x)
  next
    case False
    with post show ?thesis by (simp add: x init_post_def init_done_def)
  qed
qed

text \<open>
  C24: whatever memory holds, initialisation that returns reports success, an invalid argument or a
  format error. On success the view belongs to the given file and address. Its string and symbol
  tables, and the relocation tables it has, lie at or above the base address. It has a hash table that
  starts at or above the base address, a \<open>DT_GNU_HASH\<close> one if it uses that; the filter, the buckets and the chains lie behind the
  header of that table in the sizes that its words in memory give, and none of their pointers is null.
\<close>

theorem elf_init_valid:
  assumes "xh_elf_init m e0 base pathname = Ret (r, e)"
  shows "r \<in> {0, XH_ERRNO_INVAL, XH_ERRNO_FORMAT} \<and>
    (r = 0 \<longrightarrow> elf_valid m e \<and> xe_base_addr e = base \<and> xe_pathname e = pathname \<and> pathname \<noteq> None)"
proof (cases "base = 0 \<or> pathname = None")
  case True
  with assms show ?thesis by (simp add: xh_elf_init_def)
next
  case False
  let ?post = "\<lambda>(r, e). r \<in> {0, XH_ERRNO_FORMAT} \<and> (r = 0 \<longrightarrow> elf_valid m e \<and> xe_base_addr e = base \<and> xe_pathname e = pathname)"
  have "returns ?post (xh_elf_init m e0 base pathname)"
    using False unfolding xh_elf_init_def Let_def
    apply (simp only: if_False)
    apply (intro returns_bind)
    subgoal for phoff phdr0
    proof (cases phdr0)
      case (Some p)
      show ?thesis
        unfolding Some option.case
      proof (intro returns_bind returns_if, goal_cases)
        case (2 vaddr dhdr)
        let ?e = "zero_elf\<lparr>xe_pathname := pathname, xe_base_addr := base, xe_ehdr := base,
          xe_phdr := base + phoff, xe_bias_addr := base - vaddr\<rparr>"
        have "tables_ok m ?e" by (simp add: tables_ok_def table_ptr_def hash_ok_def zero_elf_def)
        moreover have "xe_bias_addr ?e \<le> xe_base_addr ?e"
          using 2(2) by (simp add: not_less word_sub_le)
        ultimately have "returns (init_done m ?e) (init_dynamic m ?e d)" for d by (rule init_dynamic_ok)
        then have "returns ?post (init_dynamic m ?e d)" for d
          by (rule returns_mono) (auto simp: init_done_def)
        then show ?case by (cases dhdr) simp_all
      qed simp_all
    qed simp
    done
  from returnsD [OF this assms] False show ?thesis by auto
qed

definition sample_image :: mem where
  "sample_image = mem_of
     [(0x10020, bytes64 64), (0x10038, [2, 0]),
      (0x10040, bytes32 1 @ bytes32 5 @ bytes64 0 @ bytes64 0),
      (0x10078, bytes32 2 @ bytes32 6 @ bytes64 0x200 @ bytes64 0x200 @ bytes64 0 @ bytes64 64 @ bytes64 64),
      (0x10200, bytes64 5 @ bytes64 0x300 @ bytes64 6 @ bytes64 0x400 @ bytes64 4 @ bytes64 0x500 @ bytes64 0),
      (0x10500, bytes32 1 @ bytes32 2)]"

lemma sample_image_init:
  "\<exists>e. xh_elf_init sample_image zero_elf 0x10000 (Some ''liba.so'') = Ret (0, e)"
proof -
  have "(case xh_elf_init sample_image zero_elf 0x10000 (Some ''liba.so'') of Ret (r, e) \<Rightarrow> r = 0 | _ \<Rightarrow> False)"
    by code_simp
  then show ?thesis by (auto split: run.splits)
qed

theorem elf_init_valid_witness:
  "\<exists>e. xh_elf_init sample_image zero_elf 0x10000 (Some ''liba.so'') = Ret (0, e) \<and> elf_valid sample_image e"
proof -
  obtain e where e: "xh_elf_init sample_image zero_elf 0x10000 (Some ''liba.so'') = Ret (0, e)"
    using sample_image_init by blast
  from elf_init_valid [OF e] e show ?thesis by auto
qed

end
