(* ===== verification/XhHook.thy ===== *)
theory XhHook
  imports XhElf
begin

text \<open>
  What hooking a symbol does (the operations of \<open>XhElf\<close>): which memory a replacement changes, the
  interface of the relocation iterators and that the hooking loop ends over both of them.
\<close>

section \<open>Memory frames\<close>

lemma stbytes_frame:
  assumes "length bs \<le> unat (x - a)"
  shows "stbytes m a bs x = m x"
  using assms
proof (induction bs arbitrary: m a)
  case (Cons b bs)
  then have "x \<noteq> a" by auto
  then have "x - a \<noteq> 0" by simp
  then have "unat (x - a - 1) = unat (x - a) - 1" by (rule unat_minus_one)
  moreover have eq: "x - (a + 1) = x - a - 1" by simp
  ultimately have "length bs \<le> unat (x - (a + 1))" unfolding eq using Cons.prems by simp
  with Cons.IH \<open>x \<noteq> a\<close> show ?case by simp
qed simp

lemma stbytes_holds:
  assumes "length bs < 2 ^ 64"
  shows "holds (stbytes m a bs) a bs"
  using assms
proof (induction bs arbitrary: m a)
  case (Cons b bs)
  have "unat (a - (a + 1)) = 2 ^ 64 - 1" by (simp add: unsigned_minus_1_eq_mask mask_eq_exp_minus_1)
  then have "stbytes (m(a := Some b)) (a + 1) bs a = Some b"
    using stbytes_frame [of bs a "a + 1" "m(a := Some b)"] Cons.prems by simp
  with Cons show ?case by simp
qed simp

definition slot :: "u64 \<Rightarrow> u64 set" where
  "slot a = {x. unat (x - a) < 8}"

definition mem_frame :: "u64 set \<Rightarrow> mem \<Rightarrow> mem \<Rightarrow> bool" where
  "mem_frame A m m' \<longleftrightarrow> (\<forall>x. x \<notin> A \<longrightarrow> m' x = m x)"

lemma mem_frame_refl [simp]: "mem_frame A m m"
  by (simp add: mem_frame_def)

lemma mem_frame_trans: "mem_frame A m m' \<Longrightarrow> mem_frame B m' m'' \<Longrightarrow> mem_frame (A \<union> B) m m''"
  by (simp add: mem_frame_def)

lemma mem_frame_mono: "mem_frame A m m' \<Longrightarrow> A \<subseteq> B \<Longrightarrow> mem_frame B m m'"
  by (auto simp: mem_frame_def)

lemma mem_frame_stbytes: "length bs \<le> 8 \<Longrightarrow> mem_frame (slot a) m (stbytes m a bs)"
  by (auto simp: mem_frame_def slot_def not_less intro: stbytes_frame)

lemma ld64_stbytes [simp]: "ld64 (stbytes m a (bytes64 v)) a = Ret v"
  using ldbytes_holds [OF stbytes_holds [of "bytes64 v" m a]] by (simp add: ld64_def)

lemma ldbytes_cong: "(\<And>i. i < n \<Longrightarrow> m' (a + of_nat i) = m (a + of_nat i)) \<Longrightarrow> ldbytes m' a n = ldbytes m a n"
proof (induction n arbitrary: a)
  case (Suc n)
  have "ldbytes m' (a + 1) n = ldbytes m (a + 1) n"
    using Suc.prems [of "Suc _"] by (intro Suc.IH) (simp add: add.assoc)
  with Suc.prems [of 0] show ?case by (simp add: ld8_def)
qed simp

lemma ld64_frame:
  assumes "mem_frame A m m'" and "slot a \<inter> A = {}"
  shows "ld64 m' a = ld64 m a"
proof -
  have "m' (a + of_nat i) = m (a + of_nat i)" if "i < 8" for i
  proof -
    have "a + of_nat i \<in> slot a" using that by (simp add: slot_def unat_of_nat)
    with assms show ?thesis by (auto simp: mem_frame_def)
  qed
  then show ?thesis using ldbytes_cong [of 8 m' a m] by (simp add: ld64_def)
qed

lemma mem_frame_st64: "st64 a v w = (r, w') \<Longrightarrow> mem_frame (slot a) (w_mem w) (w_mem w')"
  by (auto simp: st64_def mem_frame_stbytes split: run.splits)

section \<open>The maps cache leaves memory alone\<close>

lemma keeps_malloc: "keeps w_mem (malloc_c os)" and keeps_abort: "keeps w_mem abortc"
  by (simp_all add: keeps_def malloc_c_def abortc_def)

lemma maps_grow_mem: "keeps w_mem (maps_grow os idx n)"
  by (simp add: keeps_def maps_grow_eq)

lemma maps_store_mem: "keeps w_mem (maps_store idx item)"
  by (simp add: keeps_def maps_store_def)

lemma maps_read_mem: "keeps w_mem (maps_read os lines idx n)"
proof (induction lines arbitrary: idx n)
  case (Cons line lines)
  then show ?case
    by (cases "parse_maps_line line")
      (auto intro!: keeps_intros keeps_malloc keeps_abort maps_grow_mem maps_store_mem)
qed (simp add: keeps_def)

lemma accesslock_mem [simp]:
  "w_mem (xh_lock_write_accesslock w) = w_mem w" "w_mem (xh_lock_read_accesslock w) = w_mem w"
  "w_mem (xh_unlock_accesslock w) = w_mem w"
  by (simp_all add: xh_lock_write_accesslock_def xh_lock_read_accesslock_def xh_unlock_accesslock_def)

lemma xh_maps_update_mem: "keeps w_mem (xh_maps_update os)"
proof -
  have "keeps w_mem (\<lambda>w. case proc_maps w of None \<Rightarrow> abortc w | Some content \<Rightarrow> g content w)"
    if "\<And>c. keeps w_mem (g c)" for g :: "string \<Rightarrow> (world, unit) cmd"
    using that by (auto simp: keeps_def abortc_def split: option.split)
  note cases = this
  have rd: "keeps w_mem (\<lambda>w. bindc (maps_read os ls 0 (maps_count w)) (\<lambda>n.
         bindc (updc (\<lambda>w. w\<lparr>maps_count := n\<rparr>)) (\<lambda>_. updc xh_unlock_accesslock)) w)" for ls
    by (rule keepsI, rule keeps_snd) (intro keeps_intros maps_read_mem; simp)
  show ?thesis
    unfolding xh_maps_update_def
    by (intro keeps_bindc keeps_updc keeps_choose keeps_snd [OF keeps_bindc] cases rd) simp_all
qed

lemma maps_loop_pure_mem: "w_mem (snd (snd (maps_loop (pure_cb f) is (d, w)))) = w_mem w"
  by (induction "is" arbitrary: d) (auto simp: pure_cb_def bindc_def split: prod.splits run.splits)

lemma keeps_liftw: "keeps part m \<Longrightarrow> keeps (part \<circ> snd) (liftw m)"
  by (auto simp: keeps_def liftw_def split: prod.splits) (metis snd_conv)

lemma xh_maps_iterate_pure_mem: "keeps (w_mem \<circ> snd) (xh_maps_iterate os (pure_cb f))"
proof -
  have "keeps (w_mem \<circ> snd) (\<lambda>s. bindc (maps_loop (pure_cb f) [0..<maps_count (snd s)]) (\<lambda>ret.
       bindc (liftw (updc xh_unlock_accesslock)) (\<lambda>_. retc ret)) s)"
    by (rule keepsI, rule keeps_snd, intro keeps_intros keeps_liftw keepsI)
      (simp_all add: maps_loop_pure_mem split_paired_all)
  then show ?thesis
    unfolding xh_maps_iterate_def
    by (intro keeps_bindc keeps_liftw xh_maps_update_mem keeps_updc) simp_all
qed

lemma get_mem_protect_mem: "keeps w_mem (xh_util_get_mem_protect os addr len pathname)"
  by (rule keepsI) (auto simp: xh_util_get_mem_protect_def Let_def split: prod.splits
      dest: keepsD [OF xh_maps_iterate_pure_mem])

lemma mprotect_mem:
  "kernel_laws os \<Longrightarrow> keeps w_mem (xh_util_set_addr_protect os addr prot)"
  by (auto simp: keeps_def xh_util_set_addr_protect_def split: prod.splits elim!: kernel_mprotect)

lemma writev_mem:
  assumes "kernel_laws os" and "length buf = 8" and "xh_util_write_memory_safely os a buf w = (r, w')"
  shows "mem_frame (slot a) (w_mem w) (w_mem w')" and "r = Ret 8 \<Longrightarrow> w_mem w' = stbytes (w_mem w) a buf"
proof -
  obtain n where n: "os_vm_writev os w a buf = (n, w')" "r = Ret n"
    using assms(3) by (auto simp: xh_util_write_memory_safely_def split: prod.splits)
  with assms(1) have laws: "n \<le> int (length buf) \<and> (n < 0 \<longrightarrow> w' = w) \<and>
      (0 \<le> n \<longrightarrow> w' = w\<lparr>w_mem := stbytes (w_mem w) a (take (nat n) buf)\<rparr>)"
    by (auto simp: kernel_laws_def split: prod.splits) 
  show "mem_frame (slot a) (w_mem w) (w_mem w')"
    using laws assms(2) by (cases "n < 0") (auto simp: mem_frame_stbytes)
  show "r = Ret 8 \<Longrightarrow> w_mem w' = stbytes (w_mem w) a buf"
    using laws n assms(2) by simp
qed


section \<open>What a replacement does to memory\<close>

definition frames :: "u64 set \<Rightarrow> (world, 'a) cmd \<Rightarrow> bool" where
  "frames A c \<longleftrightarrow> (\<forall>w. mem_frame A (w_mem w) (w_mem (snd (c w))))"

lemma framesD: "frames A c \<Longrightarrow> c w = (r, w') \<Longrightarrow> mem_frame A (w_mem w) (w_mem w')"
  by (metis frames_def snd_conv)

lemma frames_bindc:
  assumes "frames A m" and "\<And>x. frames A (f x)"
  shows "frames A (bindc m f)"
  unfolding frames_def
proof
  fix w
  obtain r w' where m: "m w = (r, w')" by fastforce
  have fr: "mem_frame A (w_mem w) (w_mem w')" using framesD [OF assms(1) m] .
  have "mem_frame A (w_mem w) (w_mem (snd (f x w')))" for x
    using mem_frame_trans [OF fr, of A] assms(2) [of x] by (simp add: frames_def)
  with fr m show "mem_frame A (w_mem w) (w_mem (snd (bindc m f w)))"
    by (cases r) (simp_all add: bindc_def)
qed

lemma frames_keeps: "keeps w_mem c \<Longrightarrow> frames A c"
  by (simp add: frames_def keeps_def)

lemma frames_if: "(c \<Longrightarrow> frames A a) \<Longrightarrow> (\<not> c \<Longrightarrow> frames A b) \<Longrightarrow> frames A (if c then a else b)"
  by simp

lemma frames_split: "(\<And>a b. frames A (f a b)) \<Longrightarrow> frames A (case p of (a, b) \<Rightarrow> f a b)"
  by (cases p) simp

lemma frames_sum:
  "(\<And>a. frames A (f a)) \<Longrightarrow> (\<And>b. frames A (g b)) \<Longrightarrow> frames A (case x of Inl a \<Rightarrow> f a | Inr b \<Rightarrow> g b)"
  by (cases x) simp_all

lemma frames_st64: "slot a \<subseteq> A \<Longrightarrow> frames A (st64 a v)"
  unfolding frames_def by (metis mem_frame_mono mem_frame_st64 prod.collapse)

lemma frames_write: "kernel_laws os \<Longrightarrow> length buf = 8 \<Longrightarrow> slot a \<subseteq> A \<Longrightarrow>
  frames A (xh_util_write_memory_safely os a buf)"
  unfolding frames_def by (metis mem_frame_mono writev_mem(1) prod.collapse)

lemma flush_mem: "keeps w_mem (xh_util_flush_instruction_cache addr)"
  by (simp add: xh_util_flush_instruction_cache_def keeps_def)

lemma frames_replace:
  assumes "kernel_laws os" and "slot addr \<subseteq> A" and "old_func \<noteq> 0 \<Longrightarrow> slot old_func \<subseteq> A"
  shows "frames A (xh_elf_replace_function os e addr new_func old_func)"
  unfolding xh_elf_replace_function_def xh_util_get_addr_protect_def Let_def
  by (intro frames_bindc frames_if frames_split frames_st64 frames_write assms frames_keeps mprotect_mem
      get_mem_protect_mem flush_mem keeps_readc keeps_retc) simp_all

lemma or_PROT_READ: "(if p AND PROT_READ = 0 then p OR PROT_READ else p) = p OR PROT_READ"
  by (auto simp: PROT_READ_def and_one_eq or_one_eq odd_iff_mod_2_eq_one)

text \<open>The steps of a successful replacement.\<close>

lemma replace_function_cases:
  assumes "xh_elf_replace_function os e addr new_func old_func w = (Ret 0, w')"
  obtains (present) "w' = w" and "ld64 (w_mem w) addr = Ret new_func"
  | (written) w1 w2 w3 w4 w5 old prot r where
      "xh_util_get_addr_protect os addr (case xe_pathname e of Some p \<Rightarrow> p | None \<Rightarrow> []) w = (Ret (0, prot), w1)"
      and "xh_util_set_addr_protect os addr (PROT_READ OR PROT_WRITE) w1 = (Ret 0, w2)"
      and "ld64 (w_mem w2) addr = Ret old"
      and "old_func \<noteq> 0 \<Longrightarrow> st64 old_func old w2 = (Ret (), w3)" and "old_func = 0 \<Longrightarrow> w3 = w2"
      and "xh_util_write_memory_safely os addr (bytes64 new_func) w3 = (Ret 8, w4)"
      and "xh_util_set_addr_protect os addr (prot OR PROT_READ) w4 = (Ret r, w5)"
      and "xh_util_flush_instruction_cache addr w5 = (Ret (), w')"
proof -
  note unf = assms [unfolded xh_elf_replace_function_def Let_def or_PROT_READ]
  from unf obtain cur where cur: "ld64 (w_mem w) addr = Ret cur"
    by (rule bindc_RetE) simp
  show thesis
  proof (cases "cur = new_func")
    case True
    with unf cur show thesis by (intro present) simp_all
  next
    case False
    with unf cur obtain rp w1 where g: "xh_util_get_addr_protect os addr (case xe_pathname e of Some p \<Rightarrow> p | None \<Rightarrow> []) w = (Ret rp, w1)"
      and k1: "(case rp of (r, prot) \<Rightarrow> if r \<noteq> 0 then retc r else
         bindc (xh_util_set_addr_protect os addr (PROT_READ OR PROT_WRITE)) (\<lambda>r.
         if r \<noteq> 0 then retc r
         else
           bindc (readc (\<lambda>w. ld64 (w_mem w) addr)) (\<lambda>old_addr.
           bindc (if old_func \<noteq> 0 then st64 old_func old_addr else retc ()) (\<lambda>_.
           bindc (xh_util_write_memory_safely os addr (bytes64 new_func)) (\<lambda>got_write_ret.
           if got_write_ret \<noteq> 8 then retc XH_ERRNO_SEGVERR
           else
             bindc (xh_util_set_addr_protect os addr (prot OR PROT_READ)) (\<lambda>_.
             bindc (xh_util_flush_instruction_cache addr) (\<lambda>_. retc 0))))))) w1 = (Ret 0, w')"
      by (auto elim: bindc_RetE)
    obtain prot where rp: "rp = (0, prot)" using k1 by (cases rp) (auto split: if_splits)
    from k1 [unfolded rp] obtain r2 w2 where p1: "xh_util_set_addr_protect os addr (PROT_READ OR PROT_WRITE) w1 = (Ret r2, w2)"
      and k2: "(if r2 \<noteq> 0 then retc r2
         else
           bindc (readc (\<lambda>w. ld64 (w_mem w) addr)) (\<lambda>old_addr.
           bindc (if old_func \<noteq> 0 then st64 old_func old_addr else retc ()) (\<lambda>_.
           bindc (xh_util_write_memory_safely os addr (bytes64 new_func)) (\<lambda>got_write_ret.
           if got_write_ret \<noteq> 8 then retc XH_ERRNO_SEGVERR
           else
             bindc (xh_util_set_addr_protect os addr (prot OR PROT_READ)) (\<lambda>_.
             bindc (xh_util_flush_instruction_cache addr) (\<lambda>_. retc 0)))))) w2 = (Ret 0, w')"
      by (auto elim: bindc_RetE)
    have r2: "r2 = 0" using k2 by (auto split: if_splits)
    note written' = written [OF g [unfolded rp] p1 [unfolded r2]]
    show thesis
      using k2 r2 by (auto elim!: bindc_RetE split: if_splits) (rule written'; simp)+
  qed
qed

text \<open>
  C4: when a replacement reports success, the slot holds the new function; the function it held
  before is in \<open>*old_func\<close> if that lies elsewhere; and no other memory has changed.
\<close>

theorem replace_function_correct:
  assumes "kernel_laws os"
    and "xh_elf_replace_function os e addr new_func old_func w = (Ret 0, w')"
  shows "ld64 (w_mem w') addr = Ret new_func \<and>
    (\<forall>old. ld64 (w_mem w) addr = Ret old \<and> old \<noteq> new_func \<and> old_func \<noteq> 0 \<and> slot old_func \<inter> slot addr = {} \<longrightarrow>
      ld64 (w_mem w') old_func = Ret old) \<and>
    mem_frame (slot addr \<union> (if old_func = 0 then {} else slot old_func)) (w_mem w) (w_mem w')"
proof -
  let ?A = "slot addr \<union> (if old_func = 0 then {} else slot old_func)"
  note laws = assms(1)
  have frame: "mem_frame ?A (w_mem w) (w_mem w')"
    using framesD [OF frames_replace [OF laws] assms(2), of ?A] by simp
  from assms(2) show ?thesis
  proof (cases rule: replace_function_cases)
    case present
    then show ?thesis by auto
  next
    case (written w1 w2 w3 w4 w5 old prot r)
    have m2: "w_mem w2 = w_mem w"
      using keepsD [OF get_mem_protect_mem written(1) [unfolded xh_util_get_addr_protect_def]]
        keepsD [OF mprotect_mem [OF laws] written(2)] by simp
    have m4: "w_mem w4 = stbytes (w_mem w3) addr (bytes64 new_func)"
      using writev_mem(2) [OF laws _ written(6)] by simp
    have m': "w_mem w' = w_mem w4"
      using keepsD [OF flush_mem written(8)] keepsD [OF mprotect_mem [OF laws] written(7)] by simp
    have "ld64 (w_mem w') addr = Ret new_func" by (simp add: m' m4)
    moreover have "ld64 (w_mem w') old_func = Ret old" if "old_func \<noteq> 0" "slot old_func \<inter> slot addr = {}"
    proof -
      have "w_mem w3 = stbytes (w_mem w2) old_func (bytes64 old)"
        using written(4) that(1) by (auto simp: st64_def split: run.splits)
      moreover have "mem_frame (slot addr) (w_mem w3) (w_mem w')"
        using m' m4 by (simp add: mem_frame_stbytes)
      ultimately show ?thesis using ld64_frame that(2) by simp
    qed
    ultimately show ?thesis using frame m2 written(3) by auto
  qed
qed

definition sample_got :: world where
  "sample_got = sample_world\<lparr>w_mem := mem_of [(0x11000, bytes64 0xdead)], maps_arr := [sample_item],
     maps_count := 1, maps_invalidated := True\<rparr>"

lemma sample_replace: "fst (xh_elf_replace_function plain_os sample_elf 0x11000 0xbeef 0 sample_got) = Ret 0"
  by code_simp

theorem replace_function_correct_witness:
  "\<exists>w'. xh_elf_replace_function plain_os sample_elf 0x11000 0xbeef 0 sample_got = (Ret 0, w') \<and>
     ld64 (w_mem w') 0x11000 = Ret 0xbeef"
proof -
  obtain w' where w': "xh_elf_replace_function plain_os sample_elf 0x11000 0xbeef 0 sample_got = (Ret 0, w')"
    using sample_replace by (metis prod.collapse)
  from replace_function_correct [OF kernel_laws_plain_os w'] w' show ?thesis by auto
qed

section \<open>Loops over relocation tables\<close>

text \<open>What the hooking loop needs of an iterator: a bound on the entries it still hands out.\<close>

locale reloc_iterator =
  fixes nx :: "mem \<Rightarrow> 'it \<Rightarrow> rel_common option run \<times> 'it"
    and ok :: "'it \<Rightarrow> bool"
    and left :: "'it \<Rightarrow> nat"
  assumes ok_next: "ok it \<Longrightarrow> nx m it = (Ret (Some rel), it') \<Longrightarrow> ok it'"
    and left_next: "ok it \<Longrightarrow> nx m it = (Ret (Some rel), it') \<Longrightarrow> left it' < left it"
    and no_hang: "ok it \<Longrightarrow> fst (nx m it) \<noteq> Hang"
begin

lemma reloc_loop_ends:
  assumes "ok it" and body: "\<And>rel. ends (body rel)"
  shows "\<exists>r w'. reloc_loop nx body brk it w = Some (r, w') \<and> r \<noteq> Hang"
  using assms(1)
proof (induction "left it" arbitrary: it w rule: less_induct)
  case less
  obtain n it' where n: "nx (w_mem w) it = (n, it')" by fastforce
  show ?case
  proof (cases "\<exists>rel. n = Ret (Some rel)")
    case True
    then obtain rel where rel: "nx (w_mem w) it = (Ret (Some rel), it')" using n by auto
    obtain b w' where b: "body rel w = (b, w')" by fastforce
    have "b \<noteq> Hang" using endsD [OF body, of rel w] b by simp
    moreover have "\<exists>r w''. reloc_loop nx body brk it' w' = Some (r, w'') \<and> r \<noteq> Hang"
      using less.hyps left_next [OF less.prems rel] ok_next [OF less.prems rel] by blast
    ultimately show ?thesis
      by (subst reloc_loop.simps) (auto simp: rel b split: run.split)
  next
    case False
    moreover have "n \<noteq> Hang" using no_hang [OF less.prems, of "w_mem w"] n by simp
    ultimately show ?thesis
      by (subst reloc_loop.simps) (auto simp: n split: run.split option.split)
  qed
qed

lemma run_loop_ends:
  assumes "ok it" and "\<And>rel. ends (body rel)"
  shows "fst (run_loop (reloc_loop nx body brk it w) w) \<noteq> Hang"
  using reloc_loop_ends [of it body brk w, OF assms] by (auto simp: run_loop_def)

end

text \<open>A plain table whose end leaves room for one more entry below the top of the address space.\<close>

definition plain_ok :: "plain_iter \<Rightarrow> bool" where
  "plain_ok it \<longleftrightarrow> unat (pi_end it) + 24 \<le> 2 ^ 64"

definition plain_left :: "plain_iter \<Rightarrow> nat" where
  "plain_left it = unat (pi_end it) - unat (pi_cur it)"

interpretation plain: reloc_iterator plain_next plain_ok plain_left
proof
  fix it m rel it'
  assume ok: "plain_ok it" and nx: "plain_next m it = (Ret (Some rel), it')"
  then have lt: "unat (pi_cur it) < unat (pi_end it)"
    and it': "it' = it\<lparr>pi_cur := pi_cur it + sizeof_rel (pi_is_use_rela it)\<rparr>"
    by (auto simp: plain_next_def xh_elf_plain_reloc_iterator_next_def word_le_nat_alt split: if_splits)
  have "unat (sizeof_rel (pi_is_use_rela it)) \<in> {16, 24}" by (simp add: sizeof_rel_def)
  then have "unat (pi_cur it) < unat (pi_cur it')"
    using ok lt by (auto simp: it' plain_ok_def unat_word_ariths)
  with lt it' show "plain_left it' < plain_left it" by (auto simp: plain_left_def)
  show "plain_ok it'" using ok it' by (simp add: plain_ok_def)
next
  fix it m
  show "fst (plain_next m it) \<noteq> Hang" by (simp add: plain_next_def split: prod.split)
qed


abbreviation pk_position :: "packed_iter \<Rightarrow> u64 \<times> u64" where
  "pk_position s \<equiv> (pk_relocation_count s, pk_relocation_index s)"

lemma next_val_keeps: "(\<And>v. keeps pk_position (k v)) \<Longrightarrow> keeps pk_position (next_val m err k)"
  by (auto simp: keeps_def next_val_def split: prod.splits run.splits sum.splits)

lemma sleb_loop_ends: "fst (sleb_loop m cur lim val shift) \<noteq> Hang"
proof (induction m cur lim val shift rule: sleb_loop.induct)
  case (1 m cur lim val shift)
  then show ?case by (subst sleb_loop.simps) (auto simp: Let_def split: option.split)
qed

lemma sleb_next_ends: "fst (xh_elf_sleb128_decoder_next m d) \<noteq> Hang"
  using sleb_loop_ends [of m "sd_cur d" "sd_end d" 0 0]
  by (auto simp: xh_elf_sleb128_decoder_next_def split: prod.splits)

lemma next_val_ends: "(\<And>v. ends (k v)) \<Longrightarrow> ends (next_val m err k)"
proof (rule endsI)
  fix s :: packed_iter
  assume k: "\<And>v. ends (k v)"
  obtain r d where rd: "xh_elf_sleb128_decoder_next m (pk_decoder s) = (r, d)" by fastforce
  have "r \<noteq> Hang" using sleb_next_ends [of m "pk_decoder s"] rd by simp
  with k [unfolded ends_def] show "fst (next_val m err k s) \<noteq> Hang"
    by (auto simp: next_val_def rd split: run.split sum.split)
qed

lemmas packed_keeps = keeps_bindc keeps_retc keeps_readc keeps_if next_val_keeps keeps_updc keeps_choose keeps_snd

lemma read_group_keeps: "keeps pk_position (xh_elf_packed_reloc_iterator_read_group_fields m)"
proof -
  have "keeps pk_position (read_group_addend m)"
    unfolding read_group_addend_def [abs_def]
    by (intro packed_keeps) (simp_all add: keeps_def)
  then show ?thesis
    unfolding xh_elf_packed_reloc_iterator_read_group_fields_def by (intro packed_keeps) simp_all
qed

lemma read_group_ends: "ends (xh_elf_packed_reloc_iterator_read_group_fields m)"
proof -
  have rag: "ends (read_group_addend m)"
    unfolding read_group_addend_def [abs_def]
    by (intro ends_choose next_val_ends ends_intros endsI) simp_all
  show ?thesis
    unfolding xh_elf_packed_reloc_iterator_read_group_fields_def
    by (intro rag next_val_ends ends_bindc ends_choose ends_updc ends_retc ends_if endsI) simp_all
qed


lemma packed_next_ends: "ends (xh_elf_packed_reloc_iterator_next m)"
  unfolding xh_elf_packed_reloc_iterator_next_def [abs_def]
  by (intro read_group_ends next_val_ends ends_bindc ends_choose ends_updc ends_retc ends_if endsI) simp_all

lemma packed_seqE:
  assumes "bindc c (\<lambda>r :: int. if r \<noteq> 0 then retc None else k) s = (Ret (Some y), s'')" and "keeps part c"
  obtains s' where "k s' = (Ret (Some y), s'')" and "part s' = part s"
  using assms(1) by (rule bindc_RetE) (auto dest: keepsD [OF assms(2)] intro: that split: if_splits)

lemma packed_next_some:
  assumes "xh_elf_packed_reloc_iterator_next m it = (Ret (Some rel), it')"
  shows "pk_relocation_index it < pk_relocation_count it" and "pk_relocation_count it' = pk_relocation_count it"
    and "pk_relocation_index it' = pk_relocation_index it + 1"
proof -
  have c1: "keeps pk_position (\<lambda>s. if pk_relocation_group_index s = pk_group_size s
                   then xh_elf_packed_reloc_iterator_read_group_fields m s else (Ret 0, s))"
    by (intro packed_keeps read_group_keeps) simp_all
  have c2: "keeps pk_position (\<lambda>s. if has_flag s RELOCATION_GROUPED_BY_OFFSET_DELTA_FLAG
                   then (Ret 0, s\<lparr>pk_r_offset := pk_r_offset s + pk_group_r_offset_delta s\<rparr>)
                   else next_val m id (\<lambda>v. bindc (updc (\<lambda>s. s\<lparr>pk_r_offset := pk_r_offset s + v\<rparr>)) (\<lambda>_. retc (0 :: int))) s)"
    by (intro packed_keeps) (simp_all add: keeps_def)
  have c3: "keeps pk_position (\<lambda>s. if \<not> has_flag s RELOCATION_GROUPED_BY_INFO_FLAG
                   then next_val m id (\<lambda>v. bindc (updc (\<lambda>s. s\<lparr>pk_r_info := v\<rparr>)) (\<lambda>_. retc (0 :: int))) s
                   else (Ret 0, s))"
    by (intro packed_keeps) simp_all
  have c4: "keeps pk_position (\<lambda>s. if pk_is_use_rela s \<and> has_flag s RELOCATION_GROUP_HAS_ADDEND_FLAG \<and>
                      \<not> has_flag s RELOCATION_GROUPED_BY_ADDEND_FLAG
                   then next_val m id (\<lambda>v. bindc (updc (\<lambda>s. s\<lparr>pk_r_addend := pk_r_addend s + v\<rparr>)) (\<lambda>_. retc (0 :: int))) s
                   else (Ret 0, s))"
    by (intro packed_keeps) simp_all
  show lt: "pk_relocation_index it < pk_relocation_count it"
    using assms by (auto simp: xh_elf_packed_reloc_iterator_next_def split: if_splits)
  note unf = assms [unfolded xh_elf_packed_reloc_iterator_next_def]
  have "pk_relocation_count it' = pk_relocation_count it \<and> pk_relocation_index it' = pk_relocation_index it + 1"
    using unf [unfolded if_not_P [OF lt [unfolded not_le [symmetric]]]]
    by (elim packed_seqE [OF _ c1] packed_seqE [OF _ c2] packed_seqE [OF _ c3] packed_seqE [OF _ c4])
      (auto simp: bindc_def)
  then show "pk_relocation_count it' = pk_relocation_count it" "pk_relocation_index it' = pk_relocation_index it + 1"
    by simp_all
qed


definition packed_left :: "packed_iter \<Rightarrow> nat" where
  "packed_left it = unat (pk_relocation_count it) - unat (pk_relocation_index it)"

interpretation packed: reloc_iterator xh_elf_packed_reloc_iterator_next "\<lambda>_. True" packed_left
proof
  fix m it rel it'
  assume nx: "xh_elf_packed_reloc_iterator_next m it = (Ret (Some rel), it')"
  note s = packed_next_some [OF nx]
  show "packed_left it' < packed_left it"
    using unat_plus_1 [OF s(1)] s by (simp add: packed_left_def word_less_nat_alt)
next
  fix m it
  show "fst (xh_elf_packed_reloc_iterator_next m it) \<noteq> Hang" by (rule endsD [OF packed_next_ends])
qed simp

section \<open>Hooking ends\<close>

lemma maps_cmds_end:
  "ends (malloc_c os)" "ends abortc" "ends (maps_store i item)" "ends (maps_grow os i n)"
  by (simp_all add: ends_def malloc_c_def abortc_def maps_store_def maps_grow_eq)

lemma maps_read_ends: "ends (maps_read os ls i n)"
proof (induction ls arbitrary: i n)
  case (Cons l ls)
  then show ?case by (cases "parse_maps_line l") (auto intro!: ends_intros maps_cmds_end)
qed (simp add: ends_def)

lemma xh_maps_update_ends: "ends (xh_maps_update os)"
proof -
  have "fst (bindc (maps_read os ls 0 n) (\<lambda>n. bindc (updc (\<lambda>w. w\<lparr>maps_count := n\<rparr>)) (\<lambda>_. updc xh_unlock_accesslock)) w) \<noteq> Hang"
    for ls n w
    by (rule endsD, intro ends_bindc maps_read_ends ends_updc)
  then show ?thesis
    unfolding xh_maps_update_def
    by (intro ends_bindc ends_updc ends_choose endsI) (auto simp: abortc_def split: option.split)
qed

lemma maps_loop_ends: "(\<And>item. ends (cb item)) \<Longrightarrow> fst (maps_loop cb is s) \<noteq> Hang"
proof (induction "is" arbitrary: s)
  case (Cons i "is")
  then have "ends (maps_loop cb is)" by (intro endsI) blast
  with Cons.prems have "ends (bindc (cb item) (\<lambda>ret. if ret \<noteq> 0 then retc ret else maps_loop cb is))" for item
    by (intro ends_intros)
  then show ?case by (simp add: endsD)
qed simp

lemma ends_liftw: "ends m \<Longrightarrow> ends (liftw m)"
  by (auto simp: ends_def liftw_def split: prod.splits) (metis fst_conv)

lemma xh_maps_iterate_ends:
  assumes "\<And>item. ends (cb item)"
  shows "ends (xh_maps_iterate os cb)"
proof -
  have "ends (maps_loop cb is)" for "is" by (intro endsI maps_loop_ends assms)
  then have "fst (bindc (maps_loop cb [0..<n]) (\<lambda>ret. bindc (liftw (updc xh_unlock_accesslock)) (\<lambda>_. retc ret)) s) \<noteq> Hang"
    for n s by (intro endsD ends_bindc ends_liftw ends_updc ends_retc)
  then show ?thesis
    unfolding xh_maps_iterate_def
    by (intro ends_bindc ends_liftw xh_maps_update_ends ends_updc endsI)
qed

lemma get_mem_protect_ends: "ends (xh_util_get_mem_protect os addr len pathname)"
proof (rule endsI)
  fix w
  have "ends (pure_cb f item)" for f :: "maps_item \<Rightarrow> protect_data \<Rightarrow> int \<times> protect_data" and item
    by (auto simp: ends_def pure_cb_def split: prod.split)
  then have "fst (xh_maps_iterate os (pure_cb f) s) \<noteq> Hang"
    for f :: "maps_item \<Rightarrow> protect_data \<Rightarrow> int \<times> protect_data" and s
    by (intro endsD xh_maps_iterate_ends)
  then show "fst (xh_util_get_mem_protect os addr len pathname w) \<noteq> Hang"
    by (auto simp: xh_util_get_mem_protect_def Let_def split: prod.split) (metis fst_conv)
qed

lemma util_ends:
  "ends (xh_util_set_addr_protect os addr prot)" "ends (xh_util_flush_instruction_cache addr)"
  "ends (xh_util_write_memory_safely os addr buf)" "ends (st64 addr v)"
  by (auto simp: ends_def xh_util_set_addr_protect_def xh_util_flush_instruction_cache_def
      xh_util_write_memory_safely_def st64_def split: prod.split run.split)

lemma replace_function_ends: "ends (xh_elf_replace_function os e addr new_func old_func)"
  unfolding xh_elf_replace_function_def xh_util_get_addr_protect_def Let_def
  by (intro ends_intros get_mem_protect_ends util_ends) simp_all

lemma find_and_replace_ends: "ends (xh_elf_find_and_replace_func os e is_plt new_func old_func symidx rel)"
  unfolding xh_elf_find_and_replace_func_def Let_def
  by (intro ends_intros replace_function_ends) (simp split: rel_common.split add: rel_fields_def)

definition plain_fits :: "u64 \<Rightarrow> u32 \<Rightarrow> bool" where
  "plain_fits rel rel_sz \<longleftrightarrow> unat rel + unat rel_sz + 24 \<le> 2 ^ 64"

lemma hook_plain_ends:
  assumes "plain_fits rel rel_sz" and "\<And>rel. ends (body rel)"
  shows "ends (hook_plain e body brk rel rel_sz)"
proof -
  have "plain_ok (xh_elf_plain_reloc_iterator_init rel rel_sz b)" for b
    using assms(1) by (simp add: plain_ok_def plain_fits_def xh_elf_plain_reloc_iterator_init_def unat_word_ariths)
  then show ?thesis
    using plain.run_loop_ends [OF _ assms(2)] by (auto simp: ends_def hook_plain_def)
qed

lemma packed_init_ends: "fst (xh_elf_packed_reloc_iterator_init m rel rel_sz b) \<noteq> Hang"
  unfolding xh_elf_packed_reloc_iterator_init_def Let_def
  by (rule endsD, intro next_val_ends ends_bindc ends_updc ends_retc)

lemma hook_packed_ends:
  assumes "\<And>rel. ends (body rel)"
  shows "ends (hook_packed e body)"
proof (rule endsI)
  fix w :: world
  obtain r it where i: "xh_elf_packed_reloc_iterator_init (w_mem w) (xe_relandroid e) (xe_relandroid_sz e)
      (xe_is_use_rela e) = (r, it)" by fastforce
  have "r \<noteq> Hang" using packed_init_ends [of "w_mem w" "xe_relandroid e" "xe_relandroid_sz e" "xe_is_use_rela e"] i by simp
  then have "ends (readc (\<lambda>_ :: world. r))" by (simp add: ends_def)
  moreover have "ends (\<lambda>w. run_loop (reloc_loop xh_elf_packed_reloc_iterator_next body False it w) w)"
    by (rule endsI) (rule packed.run_loop_ends [OF TrueI assms])
  ultimately have "ends (bindc (readc (\<lambda>_. r)) (\<lambda>_ w.
      run_loop (reloc_loop xh_elf_packed_reloc_iterator_next body False it w) w))"
    by (rule ends_bindc)
  then have "fst (bindc (readc (\<lambda>_. r)) (\<lambda>_ w.
      run_loop (reloc_loop xh_elf_packed_reloc_iterator_next body False it w) w) w) \<noteq> Hang"
    by (rule endsD)
  then show "fst (hook_packed e body w) \<noteq> Hang" by (simp add: hook_packed_def i)
qed

text \<open>
  C22: hooking a symbol ends (by returning or by a fault), whatever the relocation tables and packed
  streams in memory hold, provided that the plain tables do not reach the top of the address space, and that
  the chains of the hash table do not trap the search for the symbol: in a \<open>DT_HASH\<close> table the chain of its
  bucket does not run in a circle, in a \<open>DT_GNU_HASH\<close> table one word of the chains has its lowest bit set or
  is not mapped. Tables that are well formed (\<open>symtab_ok\<close>) satisfy that; a \<open>DT_HASH\<close> chain
  that runs in a circle is followed for ever (\<open>hash_chain_hangs\<close>).
\<close>

theorem elf_hook_ends:
  assumes "plain_fits (xe_relplt e) (xe_relplt_sz e)" and "plain_fits (xe_reldyn e) (xe_reldyn_sz e)"
    and "\<And>s. symbol = Some s \<Longrightarrow> chains_end (w_mem w) e s"
  shows "fst (xh_elf_hook os e symbol new_func old_func w) \<noteq> Hang"
  using assms
proof (cases "xe_pathname e = None \<or> symbol = None \<or> new_func = 0")
  case True
  then show ?thesis by (auto simp: xh_elf_hook_def split: option.split)
next
  case False
  then obtain s where s: "symbol = Some s" by auto
  let ?body = "\<lambda>plt i. xh_elf_find_and_replace_func os e plt new_func old_func i"
  have rest: "ends (bindc (hook_plain e (?body True i) True (xe_relplt e) (xe_relplt_sz e)) (\<lambda>r. if r \<noteq> 0 then retc r else
      bindc (hook_plain e (?body False i) False (xe_reldyn e) (xe_reldyn_sz e)) (\<lambda>r. if r \<noteq> 0 then retc r else
      hook_packed e (?body False i))))" for i
    by (intro ends_bindc ends_if ends_retc hook_plain_ends hook_packed_ends find_and_replace_ends assms(1, 2))
  have "xh_elf_find_symidx_by_name (w_mem w) e s \<noteq> Hang" using find_ends assms(3) s by blast
  then show ?thesis
    using False endsD [OF rest] by (cases "xh_elf_find_symidx_by_name (w_mem w) e s") (auto simp: xh_elf_hook_def s bindc_def split: sum.split)
qed

theorem elf_hook_ends_witness:
  "fst (xh_elf_hook plain_os sample_elf (Some ''f'') 0xbeef 0 (sample_world\<lparr>w_mem := sample_lib\<rparr>)) \<noteq> Hang"
  using elf_hook_ends [of sample_elf "Some ''f''" "sample_world\<lparr>w_mem := sample_lib\<rparr>" plain_os "0xbeef" 0]
    symtab_ok_chains_end [OF sample_symtab_ok]
  by (simp add: plain_fits_def sample_elf_def zero_elf_def)

section \<open>What hooking can change\<close>

lemma reloc_loop_frame:
  assumes "\<And>rel. frames A (body rel)" and "reloc_loop nx body brk it w = Some (r, w')"
  shows "mem_frame A (w_mem w) (w_mem w')"
proof -
  let ?P = "\<lambda>nx body brk it w rw. (\<forall>rel. frames A (body rel)) \<longrightarrow> mem_frame A (w_mem w) (w_mem (snd rw))"
  have step: "mem_frame A (w_mem w) (w_mem (snd rw))"
    if "frames A (body rel)" "body rel w = (b, w1)" "mem_frame A (w_mem w1) (w_mem (snd rw))"
    for body :: "rel_common \<Rightarrow> (world, int \<times> bool) cmd" and rel w b w1 and rw :: "int run \<times> world"
    using mem_frame_trans [OF framesD [OF that(1, 2)] that(3)] by simp
  have "?P nx body brk it w (r, w')"
    by (rule reloc_loop.raw_induct [where P = ?P, OF _ assms(2)])
      (auto split: prod.splits run.splits option.splits if_splits dest: framesD intro: step)
  with assms(1) show ?thesis by simp
qed


text \<open>Memory a hook may write: the image from its base up, a slot that wraps, \<open>*old_func\<close>.\<close>

definition hook_area :: "xh_elf \<Rightarrow> u64 \<Rightarrow> u64 set" where
  "hook_area e old_func = {x. xe_base_addr e \<le> x \<or> x < 7} \<union> (if old_func = 0 then {} else slot old_func)"

lemma slot_in_image:
  assumes "base \<le> addr"
  shows "slot addr \<subseteq> {x. base \<le> x \<or> x < 7}"
proof
  fix x
  assume "x \<in> slot addr"
  then have k: "unat (x - addr) < 8" by (simp add: slot_def)
  have x: "unat x = (unat addr + unat (x - addr)) mod 2 ^ 64"
    using unat_word_ariths(1) [of addr "x - addr"] by simp
  show "x \<in> {x. base \<le> x \<or> x < 7}"
  proof (cases "unat addr + unat (x - addr) < 2 ^ 64")
    case True
    with x assms show ?thesis by (simp add: word_le_nat_alt)
  next
    case False
    then have "unat x = (unat addr + unat (x - addr) - 2 ^ 64) mod 2 ^ 64"
      using x by (simp add: le_mod_geq)
    then have "unat x \<le> unat addr + unat (x - addr) - 2 ^ 64" by simp
    with k unat_below [of addr] have "unat x < 7" by linarith
    then show ?thesis by (simp add: word_less_nat_alt)
  qed
qed

lemma frames_find_and_replace:
  assumes "kernel_laws os"
  shows "frames (hook_area e old_func) (xh_elf_find_and_replace_func os e plt new_func old_func i rel)"
proof -
  have "frames (hook_area e old_func) (xh_elf_replace_function os e addr new_func old_func)"
    if "xe_base_addr e \<le> addr" for addr
    using slot_in_image [OF that] by (intro frames_replace [OF assms]) (auto simp: hook_area_def)
  then show ?thesis
    unfolding xh_elf_find_and_replace_func_def Let_def
    by (intro frames_bindc frames_split frames_if frames_keeps [OF keeps_readc] frames_keeps [OF keeps_retc])
      (simp_all add: not_less)
qed

lemma frames_loop:
  assumes "\<And>rel. frames A (body rel)"
  shows "mem_frame A (w_mem w) (w_mem (snd (run_loop (reloc_loop nx body brk it w) w)))"
  using reloc_loop_frame [of A body nx brk it w, OF assms] by (auto simp: run_loop_def split: option.split)

lemma frames_hook_plain: "(\<And>rel. frames A (body rel)) \<Longrightarrow> frames A (hook_plain e body brk rel rel_sz)"
  by (simp add: frames_def [of A "hook_plain e body brk rel rel_sz"] hook_plain_def frames_loop)

lemma frames_hook_packed:
  assumes "\<And>rel. frames A (body rel)"
  shows "frames A (hook_packed e body)"
proof -
  have "frames A (bindc (readc (\<lambda>_. r)) (\<lambda>_ w. run_loop (reloc_loop nx body False it w) w))"
    for r :: "int run" and nx :: "mem \<Rightarrow> packed_iter \<Rightarrow> _" and it
    by (intro frames_bindc frames_keeps [OF keeps_readc]) (unfold frames_def [of A "\<lambda>w. run_loop (h w) w" for h],
        intro allI frames_loop assms)
  then show ?thesis
    by (auto simp: frames_def [of A "hook_packed e body"] hook_packed_def frames_def split: prod.split)
qed

text \<open>
  C23: whatever the file in memory says, and whether or not it succeeds, a hook writes only the
  image from its base address up (and the word \<open>old_func\<close> points to): a relocation that points
  below the base is refused.
\<close>

theorem elf_hook_frame:
  assumes "kernel_laws os" and "xh_elf_hook os e symbol new_func old_func w = (r, w')"
    and "x < xe_base_addr e" and "7 \<le> x" and "old_func = 0 \<or> x \<notin> slot old_func"
  shows "w_mem w' x = w_mem w x"
proof -
  have "frames (hook_area e old_func) (xh_elf_hook os e symbol new_func old_func)"
    unfolding xh_elf_hook_def
    by (cases symbol; simp only: option.case)
      (intro frames_if frames_keeps [OF keeps_retc] frames_bindc frames_keeps [OF keeps_readc] frames_sum
        frames_hook_plain frames_hook_packed frames_find_and_replace assms(1))+
  from framesD [OF this assms(2)] assms(3-5) show ?thesis
    by (auto simp: mem_frame_def hook_area_def not_le not_less)
qed

theorem elf_hook_frame_witness:
  "w_mem (snd (xh_elf_hook plain_os sample_elf (Some ''f'') 0xbeef 0 (sample_world\<lparr>w_mem := sample_lib\<rparr>))) 0x800 =
     sample_lib 0x800"
  using elf_hook_frame [OF kernel_laws_plain_os, of sample_elf "Some ''f''" "0xbeef" 0
      "sample_world\<lparr>w_mem := sample_lib\<rparr>"
      "fst (xh_elf_hook plain_os sample_elf (Some ''f'') 0xbeef 0 (sample_world\<lparr>w_mem := sample_lib\<rparr>))"
      "snd (xh_elf_hook plain_os sample_elf (Some ''f'') 0xbeef 0 (sample_world\<lparr>w_mem := sample_lib\<rparr>))" "0x800"]
  by (simp add: sample_elf_def zero_elf_def)

end
