(* ===== verification/RbTree.thy ===== *)
theory RbTree
  imports Machine "HOL-Library.List_Lexorder"
begin

text \<open>
  The red-black trees of \<open>libxhook/tree.h\<close>, as \<open>RB_GENERATE\<close> expands them. A position in a tree,
  which the macros reach through the parent pointers, is a subtree together with the path of its
  ancestors, the parent first. Following a null pointer ends in \<open>Segv\<close>.
\<close>

section \<open>Trees and positions\<close>

datatype rb_color = RB_BLACK | RB_RED

datatype 'a rb_tree = RB_NULL | RB_NODE rb_color "'a rb_tree" 'a "'a rb_tree"

text \<open>An ancestor seen from below: the side we came from and what else it holds.\<close>

datatype 'a rb_link = LeftOf rb_color 'a "'a rb_tree" | RightOf rb_color "'a rb_tree" 'a

type_synonym 'a rb_path = "'a rb_link list"

primrec rb_up :: "'a rb_link \<Rightarrow> 'a rb_tree \<Rightarrow> 'a rb_tree" where
  "rb_up (LeftOf c x r) t = RB_NODE c t x r"
| "rb_up (RightOf c l x) t = RB_NODE c l x t"

primrec rb_plug :: "'a rb_path \<Rightarrow> 'a rb_tree \<Rightarrow> 'a rb_tree" where
  "rb_plug [] t = t"
| "rb_plug (p # ps) t = rb_plug ps (rb_up p t)"

fun is_red :: "'a rb_tree \<Rightarrow> bool" where
  "is_red (RB_NODE c _ _ _) = (c = RB_RED)"
| "is_red RB_NULL = False"

primrec link_color :: "'a rb_link \<Rightarrow> rb_color" where
  "link_color (LeftOf c x r) = c"
| "link_color (RightOf c l x) = c"

fun set_color :: "rb_color \<Rightarrow> 'a rb_tree \<Rightarrow> 'a rb_tree" where
  "set_color c (RB_NODE _ l x r) = RB_NODE c l x r"
| "set_color c RB_NULL = RB_NULL"

text \<open>Rotations; the macros are used only where the child that moves up exists.\<close>

fun RB_ROTATE_LEFT :: "'a rb_tree \<Rightarrow> 'a rb_tree" where
  "RB_ROTATE_LEFT (RB_NODE c l x (RB_NODE c' l' x' r')) = RB_NODE c' (RB_NODE c l x l') x' r'"
| "RB_ROTATE_LEFT t = t"

fun RB_ROTATE_RIGHT :: "'a rb_tree \<Rightarrow> 'a rb_tree" where
  "RB_ROTATE_RIGHT (RB_NODE c (RB_NODE c' l' x' r') x r) = RB_NODE c' l' x' (RB_NODE c r' x r)"
| "RB_ROTATE_RIGHT t = t"

section \<open>Insertion\<close>

text \<open>The loop of \<open>RB_INSERT_COLOR\<close> at the red node \<open>elm\<close>, and the last line of it.\<close>

fun RB_INSERT_COLOR :: "'a rb_tree \<Rightarrow> 'a rb_path \<Rightarrow> 'a rb_tree run" where
  "RB_INSERT_COLOR elm [] = Ret (set_color RB_BLACK elm)"
| "RB_INSERT_COLOR elm [parent] =
     (if link_color parent = RB_RED then Segv else Ret (set_color RB_BLACK (rb_up parent elm)))"
| "RB_INSERT_COLOR elm (parent # LeftOf gc gx gr # path) =
     (if link_color parent \<noteq> RB_RED
      then Ret (set_color RB_BLACK (rb_plug (parent # LeftOf gc gx gr # path) elm))
      else if is_red gr
      then RB_INSERT_COLOR (RB_NODE RB_RED (set_color RB_BLACK (rb_up parent elm)) gx (set_color RB_BLACK gr)) path
      else
        let sub = (case parent of RightOf _ _ _ \<Rightarrow> RB_ROTATE_LEFT (rb_up parent elm) | _ \<Rightarrow> rb_up parent elm)
        in Ret (set_color RB_BLACK (rb_plug path
             (RB_ROTATE_RIGHT (RB_NODE RB_RED (set_color RB_BLACK sub) gx gr)))))"
| "RB_INSERT_COLOR elm (parent # RightOf gc gl gx # path) =
     (if link_color parent \<noteq> RB_RED
      then Ret (set_color RB_BLACK (rb_plug (parent # RightOf gc gl gx # path) elm))
      else if is_red gl
      then RB_INSERT_COLOR (RB_NODE RB_RED (set_color RB_BLACK gl) gx (set_color RB_BLACK (rb_up parent elm))) path
      else
        let sub = (case parent of LeftOf _ _ _ \<Rightarrow> RB_ROTATE_RIGHT (rb_up parent elm) | _ \<Rightarrow> rb_up parent elm)
        in Ret (set_color RB_BLACK (rb_plug path
             (RB_ROTATE_LEFT (RB_NODE RB_RED gl gx (set_color RB_BLACK sub))))))"

text \<open>The descent that finding, inserting and (from a found node) removing share.\<close>

fun rb_descend :: "('a \<Rightarrow> 'a \<Rightarrow> int) \<Rightarrow> 'a \<Rightarrow> 'a rb_tree \<Rightarrow> 'a rb_path \<Rightarrow> 'a rb_tree \<times> 'a rb_path" where
  "rb_descend cmp elm RB_NULL path = (RB_NULL, path)"
| "rb_descend cmp elm (RB_NODE c l x r) path =
     (let comp = cmp elm x in
      if comp < 0 then rb_descend cmp elm l (LeftOf c x r # path)
      else if 0 < comp then rb_descend cmp elm r (RightOf c l x # path)
      else (RB_NODE c l x r, path))"

definition RB_INSERT :: "('a \<Rightarrow> 'a \<Rightarrow> int) \<Rightarrow> 'a rb_tree \<Rightarrow> 'a \<Rightarrow> ('a option \<times> 'a rb_tree) run" where
  "RB_INSERT cmp head elm =
     (case rb_descend cmp elm head [] of
        (RB_NODE _ _ x _, _) \<Rightarrow> Ret (Some x, head)
      | (RB_NULL, path) \<Rightarrow>
          bindr (RB_INSERT_COLOR (RB_NODE RB_RED RB_NULL elm RB_NULL) path) (\<lambda>head'. Ret (None, head')))"

section \<open>Searching\<close>

definition RB_FIND :: "('a \<Rightarrow> 'a \<Rightarrow> int) \<Rightarrow> 'a rb_tree \<Rightarrow> 'a \<Rightarrow> 'a option" where
  "RB_FIND cmp head elm =
     (case rb_descend cmp elm head [] of (RB_NODE _ _ x _, _) \<Rightarrow> Some x | (RB_NULL, _) \<Rightarrow> None)"

fun rb_nfind :: "('a \<Rightarrow> 'a \<Rightarrow> int) \<Rightarrow> 'a \<Rightarrow> 'a rb_tree \<Rightarrow> 'a option \<Rightarrow> 'a option" where
  "rb_nfind cmp elm RB_NULL res = res"
| "rb_nfind cmp elm (RB_NODE c l x r) res =
     (let comp = cmp elm x in
      if comp < 0 then rb_nfind cmp elm l (Some x)
      else if 0 < comp then rb_nfind cmp elm r res
      else Some x)"

definition RB_NFIND :: "('a \<Rightarrow> 'a \<Rightarrow> int) \<Rightarrow> 'a rb_tree \<Rightarrow> 'a \<Rightarrow> 'a option" where
  "RB_NFIND cmp head elm = rb_nfind cmp elm head None"

section \<open>Removal\<close>

text \<open>
  One round of \<open>RB_REMOVE_COLOR\<close> once the sibling is not red: \<open>elm\<close> on the left (right) of its
  parent with colour \<open>pc\<close>, element \<open>px\<close> and other child \<open>tmp\<close>. \<open>Inl\<close>: the loop goes on there.
\<close>

fun remove_left :: "'a rb_tree \<Rightarrow> rb_color \<Rightarrow> 'a \<Rightarrow> 'a rb_tree \<Rightarrow> 'a rb_path \<Rightarrow>
    (('a rb_tree \<times> 'a rb_path) + 'a rb_tree) run" where
  "remove_left elm pc px RB_NULL path = Segv"
| "remove_left elm pc px (RB_NODE tc sl tx sr) path =
     (if \<not> is_red sl \<and> \<not> is_red sr
      then Ret (Inl (RB_NODE pc elm px (RB_NODE RB_RED sl tx sr), path))
      else
        (case (if \<not> is_red sr then RB_ROTATE_RIGHT (RB_NODE RB_RED (set_color RB_BLACK sl) tx sr)
               else RB_NODE tc sl tx sr) of
           RB_NULL \<Rightarrow> Segv
         | RB_NODE _ sl' tx' sr' \<Rightarrow>
             Ret (Inr (set_color RB_BLACK (rb_plug path
               (RB_ROTATE_LEFT (RB_NODE RB_BLACK elm px (RB_NODE pc sl' tx' (set_color RB_BLACK sr')))))))))"

fun remove_right :: "'a rb_tree \<Rightarrow> rb_color \<Rightarrow> 'a \<Rightarrow> 'a rb_tree \<Rightarrow> 'a rb_path \<Rightarrow>
    (('a rb_tree \<times> 'a rb_path) + 'a rb_tree) run" where
  "remove_right elm pc px RB_NULL path = Segv"
| "remove_right elm pc px (RB_NODE tc sl tx sr) path =
     (if \<not> is_red sl \<and> \<not> is_red sr
      then Ret (Inl (RB_NODE pc (RB_NODE RB_RED sl tx sr) px elm, path))
      else
        (case (if \<not> is_red sl then RB_ROTATE_LEFT (RB_NODE RB_RED sl tx (set_color RB_BLACK sr))
               else RB_NODE tc sl tx sr) of
           RB_NULL \<Rightarrow> Segv
         | RB_NODE _ sl' tx' sr' \<Rightarrow>
             Ret (Inr (set_color RB_BLACK (rb_plug path
               (RB_ROTATE_RIGHT (RB_NODE RB_BLACK (RB_NODE pc (set_color RB_BLACK sl') tx' sr') px elm)))))))"

text \<open>A red sibling first moves above the parent.\<close>

fun remove_step :: "'a rb_tree \<Rightarrow> 'a rb_link \<Rightarrow> 'a rb_path \<Rightarrow>
    (('a rb_tree \<times> 'a rb_path) + 'a rb_tree) run" where
  "remove_step elm (LeftOf pc px RB_NULL) path = Segv"
| "remove_step elm (LeftOf pc px (RB_NODE tc sl tx sr)) path =
     (if tc = RB_RED then remove_left elm RB_RED px sl (LeftOf RB_BLACK tx sr # path)
      else remove_left elm pc px (RB_NODE tc sl tx sr) path)"
| "remove_step elm (RightOf pc RB_NULL px) path = Segv"
| "remove_step elm (RightOf pc (RB_NODE tc sl tx sr) px) path =
     (if tc = RB_RED then remove_right elm RB_RED px sr (RightOf RB_BLACK sl tx # path)
      else remove_right elm pc px (RB_NODE tc sl tx sr) path)"

lemma remove_left_Inl:
  "remove_left elm pc px t path = Ret (Inl (elm', path')) \<Longrightarrow> path' = path \<and> (is_red elm' \<longleftrightarrow> pc = RB_RED)"
  by (cases t) (auto split: if_splits rb_tree.splits)

lemma remove_right_Inl:
  "remove_right elm pc px t path = Ret (Inl (elm', path')) \<Longrightarrow> path' = path \<and> (is_red elm' \<longleftrightarrow> pc = RB_RED)"
  by (cases t) (auto split: if_splits rb_tree.splits)

lemma remove_step_Inl:
  assumes "remove_step elm p path = Ret (Inl (elm', path'))"
  shows "path' = path \<or> is_red elm' \<and> length path' = Suc (length path)"
  using assms
  by (cases "(elm, p, path)" rule: remove_step.cases)
    (auto simp del: remove_left.simps remove_right.simps split: if_splits
      dest!: remove_left_Inl remove_right_Inl)

function RB_REMOVE_COLOR :: "'a rb_tree \<Rightarrow> 'a rb_path \<Rightarrow> 'a rb_tree run" where
  "RB_REMOVE_COLOR elm [] = Ret (set_color RB_BLACK elm)"
| "RB_REMOVE_COLOR elm (p # path) =
     (if is_red elm then Ret (rb_plug (p # path) (set_color RB_BLACK elm))
      else case remove_step elm p path of
          Ret (Inl (elm', path')) \<Rightarrow> RB_REMOVE_COLOR elm' path'
        | Ret (Inr head) \<Rightarrow> Ret head
        | Segv \<Rightarrow> Segv | Undef \<Rightarrow> Undef | Hang \<Rightarrow> Hang | Abort \<Rightarrow> Abort)"
  by pat_completeness auto
termination
  by (relation "measure (\<lambda>(elm, path). 2 * length path + (if is_red elm then 0 else 1))")
    (auto dest!: remove_step_Inl)

text \<open>The node with two children is replaced by its successor, the leftmost node on its right.\<close>

fun rb_leftmost :: "rb_color \<Rightarrow> 'a rb_tree \<Rightarrow> 'a \<Rightarrow> 'a rb_tree \<Rightarrow> 'a rb_path \<Rightarrow>
    rb_color \<times> 'a \<times> 'a rb_tree \<times> 'a rb_path" where
  "rb_leftmost c RB_NULL x r path = (c, x, r, path)"
| "rb_leftmost c (RB_NODE c' l' x' r') x r path = rb_leftmost c' l' x' r' (LeftOf c x r # path)"

definition rb_unlink :: "rb_color \<Rightarrow> 'a rb_tree \<Rightarrow> 'a rb_path \<Rightarrow> 'a rb_tree run" where
  "rb_unlink color child path =
     (if color = RB_BLACK then RB_REMOVE_COLOR child path else Ret (rb_plug path child))"

fun rb_remove_at :: "'a rb_tree \<Rightarrow> 'a rb_path \<Rightarrow> 'a rb_tree run" where
  "rb_remove_at RB_NULL path = Segv"
| "rb_remove_at (RB_NODE c RB_NULL x r) path = rb_unlink c r path"
| "rb_remove_at (RB_NODE c l x RB_NULL) path = rb_unlink c l path"
| "rb_remove_at (RB_NODE c l x (RB_NODE rc rl rx rr)) path =
     (case rb_leftmost rc rl rx rr [] of (color, succ_x, child, sub) \<Rightarrow>
        rb_unlink color child (sub @ RightOf c l succ_x # path))"

definition RB_REMOVE :: "('a \<Rightarrow> 'a \<Rightarrow> int) \<Rightarrow> 'a rb_tree \<Rightarrow> 'a \<Rightarrow> 'a rb_tree run" where
  "RB_REMOVE cmp head elm = (case rb_descend cmp elm head [] of (t, path) \<Rightarrow> rb_remove_at t path)"

section \<open>Traversal\<close>

fun RB_MINMAX :: "bool \<Rightarrow> 'a rb_tree \<Rightarrow> 'a rb_path \<Rightarrow> ('a rb_tree \<times> 'a rb_path) option" where
  "RB_MINMAX neg RB_NULL path = None"
| "RB_MINMAX neg (RB_NODE c l x r) path =
     (case (if neg then RB_MINMAX neg l (LeftOf c x r # path) else RB_MINMAX neg r (RightOf c l x # path)) of
        None \<Rightarrow> Some (RB_NODE c l x r, path)
      | Some pos \<Rightarrow> Some pos)"

fun climb_right :: "'a rb_tree \<Rightarrow> 'a rb_path \<Rightarrow> ('a rb_tree \<times> 'a rb_path) option" where
  "climb_right t [] = None"
| "climb_right t (RightOf c l x # path) = climb_right (RB_NODE c l x t) path"
| "climb_right t (LeftOf c x r # path) = Some (RB_NODE c t x r, path)"

fun climb_left :: "'a rb_tree \<Rightarrow> 'a rb_path \<Rightarrow> ('a rb_tree \<times> 'a rb_path) option" where
  "climb_left t [] = None"
| "climb_left t (LeftOf c x r # path) = climb_left (RB_NODE c t x r) path"
| "climb_left t (RightOf c l x # path) = Some (RB_NODE c l x t, path)"

fun RB_NEXT :: "'a rb_tree \<times> 'a rb_path \<Rightarrow> ('a rb_tree \<times> 'a rb_path) option" where
  "RB_NEXT (RB_NULL, path) = None"
| "RB_NEXT (RB_NODE c l x r, path) =
     (if r \<noteq> RB_NULL then RB_MINMAX True r (RightOf c l x # path) else climb_right (RB_NODE c l x r) path)"

fun RB_PREV :: "'a rb_tree \<times> 'a rb_path \<Rightarrow> ('a rb_tree \<times> 'a rb_path) option" where
  "RB_PREV (RB_NULL, path) = None"
| "RB_PREV (RB_NODE c l x r, path) =
     (if l \<noteq> RB_NULL then RB_MINMAX False l (LeftOf c x r # path) else climb_left (RB_NODE c l x r) path)"

partial_function (option) rb_walk :: "('a rb_tree \<times> 'a rb_path) option \<Rightarrow> 'a rb_tree list option" where
  "rb_walk pos = (case pos of
     None \<Rightarrow> Some []
   | Some q \<Rightarrow> Option.bind (rb_walk (RB_NEXT q)) (\<lambda>ts. Some (fst q # ts)))"

text \<open>\<open>RB_FOREACH\<close>: the elements in the order in which the loop body sees them.\<close>

definition RB_FOREACH :: "'a rb_tree \<Rightarrow> 'a list option" where
  "RB_FOREACH head = map_option (concat \<circ> map (\<lambda>t. case t of RB_NODE c l x r \<Rightarrow> [x] | RB_NULL \<Rightarrow> []))
     (rb_walk (RB_MINMAX True head []))"

section \<open>The elements of a tree in order\<close>

primrec rb_inorder :: "'a rb_tree \<Rightarrow> 'a list" where
  "rb_inorder RB_NULL = []"
| "rb_inorder (RB_NODE c l x r) = rb_inorder l @ x # rb_inorder r"

fun before :: "'a rb_path \<Rightarrow> 'a list" where
  "before [] = []"
| "before (LeftOf c x r # p) = before p"
| "before (RightOf c l x # p) = before p @ rb_inorder l @ [x]"

fun after :: "'a rb_path \<Rightarrow> 'a list" where
  "after [] = []"
| "after (LeftOf c x r # p) = x # rb_inorder r @ after p"
| "after (RightOf c l x # p) = after p"

lemma inorder_plug: "rb_inorder (rb_plug p t) = before p @ rb_inorder t @ after p"
proof (induction p arbitrary: t)
  case (Cons a p)
  then show ?case by (cases a) simp_all
qed simp

lemma inorder_set_color [simp]: "rb_inorder (set_color c t) = rb_inorder t"
  by (cases t) simp_all

lemma inorder_rotate [simp]:
  "rb_inorder (RB_ROTATE_LEFT t) = rb_inorder t" "rb_inorder (RB_ROTATE_RIGHT t) = rb_inorder t"
  by (cases t rule: RB_ROTATE_LEFT.cases; simp) (cases t rule: RB_ROTATE_RIGHT.cases; simp)

lemma inorder_up: "rb_inorder (rb_up l t) = before [l] @ rb_inorder t @ after [l]"
  by (cases l) simp_all

lemma inorder_insert_color:
  "returns (\<lambda>t. rb_inorder t = before p @ rb_inorder elm @ after p) (RB_INSERT_COLOR elm p)"
  by (induction elm p rule: RB_INSERT_COLOR.induct)
    (auto simp: inorder_plug inorder_up Let_def returns_def split: rb_link.splits)

lemma before_after_Cons:
  "before (l # p) = before p @ before [l]" "after (l # p) = after [l] @ after p"
  by (cases l; simp)+

section \<open>The red-black invariant\<close>

primrec bh :: "'a rb_tree \<Rightarrow> nat" where
  "bh RB_NULL = 0"
| "bh (RB_NODE c l x r) = bh l + (if c = RB_BLACK then 1 else 0)"

primrec invc :: "'a rb_tree \<Rightarrow> bool" where
  "invc RB_NULL \<longleftrightarrow> True"
| "invc (RB_NODE c l x r) \<longleftrightarrow> (c = RB_RED \<longrightarrow> \<not> is_red l \<and> \<not> is_red r) \<and> invc l \<and> invc r"

primrec invh :: "'a rb_tree \<Rightarrow> bool" where
  "invh RB_NULL \<longleftrightarrow> True"
| "invh (RB_NODE c l x r) \<longleftrightarrow> bh l = bh r \<and> invh l \<and> invh r"

text \<open>No red node has a red child, all paths down have the same number of black nodes, the
  root is black.\<close>

definition rb_ok :: "'a rb_tree \<Rightarrow> bool" where
  "rb_ok t \<longleftrightarrow> invc t \<and> invh t \<and> \<not> is_red t"

text \<open>The same, of what surrounds a position.\<close>

definition under_black :: "'a rb_path \<Rightarrow> bool" where
  "under_black p \<longleftrightarrow> (case p of [] \<Rightarrow> False | l # _ \<Rightarrow> link_color l = RB_BLACK)"

primrec sibling :: "'a rb_link \<Rightarrow> 'a rb_tree" where
  "sibling (LeftOf c x r) = r"
| "sibling (RightOf c l x) = l"

primrec path_c :: "'a rb_path \<Rightarrow> bool" where
  "path_c [] \<longleftrightarrow> True"
| "path_c (l # p) \<longleftrightarrow> invc (sibling l) \<and>
     (link_color l = RB_RED \<longrightarrow> \<not> is_red (sibling l) \<and> under_black p) \<and> path_c p"

primrec path_h :: "'a rb_path \<Rightarrow> nat \<Rightarrow> bool" where
  "path_h [] h \<longleftrightarrow> True"
| "path_h (l # p) h \<longleftrightarrow> invh (sibling l) \<and> bh (sibling l) = h \<and>
     path_h p (h + (if link_color l = RB_BLACK then 1 else 0))"

lemma under_black_simps [simp]:
  "\<not> under_black []" "under_black (l # p) \<longleftrightarrow> link_color l = RB_BLACK"
  by (simp_all add: under_black_def)

lemma color_cases [simp]: "c \<noteq> RB_BLACK \<longleftrightarrow> c = RB_RED" "c \<noteq> RB_RED \<longleftrightarrow> c = RB_BLACK"
  by (cases c; simp)+

lemma set_color_black [simp]:
  "\<not> is_red (set_color RB_BLACK t)" "invh (set_color c t) = invh t"
  "invc t \<Longrightarrow> invc (set_color RB_BLACK t)" "\<not> is_red t \<Longrightarrow> set_color RB_BLACK t = t"
  "is_red t \<Longrightarrow> bh (set_color RB_BLACK t) = Suc (bh t)"
  by (cases t; simp)+

lemma rb_ok_plug:
  "rb_ok (rb_plug p t) \<longleftrightarrow>
     invc t \<and> invh t \<and> path_c p \<and> path_h p (bh t) \<and> (is_red t \<longrightarrow> under_black p)"
proof (induction p arbitrary: t)
  case (Cons l p)
  show ?case by (cases l) (auto simp: Cons.IH split: if_splits)
qed (auto simp: rb_ok_def)

lemma rb_ok_black [simp]: "rb_ok t \<Longrightarrow> set_color RB_BLACK t = t"
  by (simp add: rb_ok_def)

lemma is_redE: "is_red t \<Longrightarrow> (\<And>l x r. t = RB_NODE RB_RED l x r \<Longrightarrow> P) \<Longrightarrow> P"
  by (cases t) auto

lemma insert_color_ok:
  "is_red elm \<Longrightarrow> invc elm \<Longrightarrow> invh elm \<Longrightarrow> path_c p \<Longrightarrow> path_h p (bh elm) \<Longrightarrow>
     \<exists>t. RB_INSERT_COLOR elm p = Ret t \<and> rb_ok t"
proof (induction elm p rule: RB_INSERT_COLOR.induct)
  case (1 elm)
  then show ?case by (simp add: rb_ok_def)
next
  case (2 elm parent)
  then show ?case by (cases parent) (auto simp: rb_ok_def)
next
  case (3 elm parent gc gx gr path)
  then show ?case
    by (cases parent)
      (auto simp: rb_ok_plug Let_def elim!: is_redE split: rb_link.splits)
next
  case (4 elm parent gc gl gx path)
  then show ?case
    by (cases parent)
      (auto simp: rb_ok_plug Let_def elim!: is_redE split: rb_link.splits)
qed

section \<open>Removal keeps the invariant and loses one element\<close>

text \<open>What holds at the head of the loop of \<open>RB_REMOVE_COLOR\<close>: \<open>elm\<close> is one black node short.\<close>

definition short_at :: "'a rb_tree \<Rightarrow> 'a rb_path \<Rightarrow> bool" where
  "short_at elm p \<longleftrightarrow> invc (set_color RB_BLACK elm) \<and> invh elm \<and> path_c p \<and> path_h p (Suc (bh elm))"

lemma bh_0: "\<not> is_red t \<Longrightarrow> bh t = 0 \<Longrightarrow> t = RB_NULL"
  by (cases t) auto

lemma remove_left_ok:
  assumes "invc elm" "invh elm" "\<not> is_red elm" "invc t" "invh t" "\<not> is_red t" "bh t = Suc (bh elm)"
    and "path_c path" "path_h path (Suc (bh elm) + (if pc = RB_BLACK then 1 else 0))"
    and "pc = RB_RED \<Longrightarrow> under_black path"
  shows "(\<exists>e p. remove_left elm pc px t path = Ret (Inl (e, p)) \<and> short_at e p) \<or>
         (\<exists>h. remove_left elm pc px t path = Ret (Inr h) \<and> rb_ok h)"
  using assms
  by (cases t) (auto simp: short_at_def rb_ok_plug elim!: is_redE split: if_splits)

lemma remove_right_ok:
  assumes "invc elm" "invh elm" "\<not> is_red elm" "invc t" "invh t" "\<not> is_red t" "bh t = Suc (bh elm)"
    and "path_c path" "path_h path (Suc (bh elm) + (if pc = RB_BLACK then 1 else 0))"
    and "pc = RB_RED \<Longrightarrow> under_black path"
  shows "(\<exists>e p. remove_right elm pc px t path = Ret (Inl (e, p)) \<and> short_at e p) \<or>
         (\<exists>h. remove_right elm pc px t path = Ret (Inr h) \<and> rb_ok h)"
  using assms
  by (cases t) (auto simp: short_at_def rb_ok_plug elim!: is_redE split: if_splits)

lemma remove_step_ok:
  assumes "\<not> is_red elm" "short_at elm (l # path)"
  shows "(\<exists>e p. remove_step elm l path = Ret (Inl (e, p)) \<and> short_at e p) \<or>
         (\<exists>h. remove_step elm l path = Ret (Inr h) \<and> rb_ok h)"
proof (cases "(elm, l, path)" rule: remove_step.cases)
  case (2 elm' pc px tc sl tx sr path')
  with assms show ?thesis
    using remove_left_ok [of elm sl "LeftOf RB_BLACK tx sr # path" RB_RED px]
      remove_left_ok [of elm "RB_NODE tc sl tx sr" path pc px]
    by (cases tc; cases pc; simp add: short_at_def del: remove_left.simps)
next
  case (4 elm' pc tc sl tx sr px path')
  with assms show ?thesis
    using remove_right_ok [of elm sr "RightOf RB_BLACK sl tx # path" RB_RED px]
      remove_right_ok [of elm "RB_NODE tc sl tx sr" path pc px]
    by (cases tc; cases pc; simp add: short_at_def del: remove_right.simps)
qed (use assms in \<open>simp_all add: short_at_def\<close>)

lemma remove_color_ok: "short_at elm p \<Longrightarrow> \<exists>t. RB_REMOVE_COLOR elm p = Ret t \<and> rb_ok t"
proof (induction elm p rule: RB_REMOVE_COLOR.induct)
  case (1 elm)
  then show ?case by (simp add: short_at_def rb_ok_def)
next
  case (2 elm l path)
  show ?case
  proof (cases "is_red elm")
    case True
    with 2(2) have "rb_ok (rb_plug (l # path) (set_color RB_BLACK elm))"
      by (subst rb_ok_plug) (simp add: short_at_def)
    with True show ?thesis by simp
  next
    case False
    from remove_step_ok [OF this 2(2)] show ?thesis
    proof
      assume "\<exists>e p. remove_step elm l path = Ret (Inl (e, p)) \<and> short_at e p"
      then obtain e p where "remove_step elm l path = Ret (Inl (e, p))" "short_at e p" by blast
      with 2(1) [OF False] False show ?thesis by auto
    qed (use False in auto)
  qed
qed

text \<open>The elements around a position, in order: what every round of the loop keeps.\<close>

abbreviation (input) round_elems :: "(('a rb_tree \<times> 'a rb_path) + 'a rb_tree) \<Rightarrow> 'a list" where
  "round_elems s \<equiv> (case s of Inl (e, p) \<Rightarrow> rb_inorder (rb_plug p e) | Inr h \<Rightarrow> rb_inorder h)"

lemma inorder_remove_left:
  "returns (\<lambda>s. round_elems s = before path @ rb_inorder elm @ px # rb_inorder t @ after path)
     (remove_left elm pc px t path)"
proof (cases t)
  case (RB_NODE tc sl tx sr)
  then show ?thesis
    by (cases sl) (auto simp: inorder_plug returns_def split: rb_tree.splits if_splits)
qed (simp add: returns_def)

lemma inorder_remove_right:
  "returns (\<lambda>s. round_elems s = before path @ rb_inorder t @ px # rb_inorder elm @ after path)
     (remove_right elm pc px t path)"
proof (cases t)
  case (RB_NODE tc sl tx sr)
  then show ?thesis
    by (cases sr) (auto simp: inorder_plug returns_def split: rb_tree.splits if_splits)
qed (simp add: returns_def)

lemma inorder_remove_step:
  "returns (\<lambda>s. round_elems s = rb_inorder (rb_plug (l # path) elm)) (remove_step elm l path)"
proof (cases "(elm, l, path)" rule: remove_step.cases)
  case (2 elm' pc px tc sl tx sr path')
  then show ?thesis
    using inorder_remove_left [of "LeftOf RB_BLACK tx sr # path" elm px sl RB_RED]
      inorder_remove_left [of path elm px "RB_NODE tc sl tx sr" pc]
    by (cases tc; simp add: inorder_plug del: remove_left.simps)
next
  case (4 elm' pc tc sl tx sr px path')
  then show ?thesis
    using inorder_remove_right [of "RightOf RB_BLACK sl tx # path" sr px elm RB_RED]
      inorder_remove_right [of path "RB_NODE tc sl tx sr" px elm pc]
    by (cases tc; simp add: inorder_plug del: remove_right.simps)
qed (simp_all add: returns_def)

lemma inorder_remove_color:
  "returns (\<lambda>t. rb_inorder t = rb_inorder (rb_plug p elm)) (RB_REMOVE_COLOR elm p)"
proof (induction elm p rule: RB_REMOVE_COLOR.induct)
  case (2 elm l path)
  show ?case
  proof (cases "is_red elm \<or> (\<nexists>s. remove_step elm l path = Ret s)")
    case True
    then show ?thesis by (cases "remove_step elm l path") (auto simp: returns_def inorder_plug inorder_up)
  next
    case False
    then obtain s where s: "remove_step elm l path = Ret s" "\<not> is_red elm" by blast
    show ?thesis
    proof (cases s)
      case (Inl ep)
      obtain e q where ep: "ep = (e, q)" by fastforce
      from 2 [OF s(2) s(1) Inl ep [symmetric]] ep Inl s inorder_remove_step [of l path elm]
      show ?thesis by simp
    qed (use s inorder_remove_step [of l path elm] in simp)
  qed
qed simp

lemma rb_plug_append [simp]: "rb_plug (p @ q) t = rb_plug q (rb_plug p t)"
  by (induction p arbitrary: t) simp_all

lemma before_after_append [simp]:
  "before (p @ q) = before q @ before p" "after (p @ q) = after p @ after q"
proof (induction p)
  case (Cons a p)
  { case 1 from Cons show ?case by (cases a) simp_all }
  { case 2 from Cons show ?case by (cases a) simp_all }
qed simp_all

lemma unlink_ok:
  assumes "rb_ok (rb_plug p (RB_NODE c RB_NULL x child)) \<or> rb_ok (rb_plug p (RB_NODE c child x RB_NULL))"
  shows "\<exists>t. rb_unlink c child p = Ret t \<and> rb_ok t \<and> rb_inorder t = before p @ rb_inorder child @ after p"
proof (cases c)
  case RB_BLACK
  with assms have "short_at child p"
    by (auto simp: rb_ok_plug short_at_def)
  from remove_color_ok [OF this] obtain t where "RB_REMOVE_COLOR child p = Ret t" "rb_ok t" by blast
  moreover from this inorder_remove_color [of p child]
  have "rb_inorder t = before p @ rb_inorder child @ after p"
    by (simp add: inorder_plug)
  ultimately show ?thesis using RB_BLACK by (simp add: rb_unlink_def)
next
  case RB_RED
  with assms have "rb_ok (rb_plug p child)" by (auto simp: rb_ok_plug)
  with RB_RED show ?thesis by (simp add: rb_unlink_def inorder_plug)
qed

lemma leftmost_plug:
  assumes "rb_leftmost c l x r p = (c', x', child, q)"
  shows "rb_plug q (RB_NODE c' RB_NULL x' child) = rb_plug p (RB_NODE c l x r)"
  using assms by (induction c l x r p rule: rb_leftmost.induct) simp_all

lemma leftmost_before: "rb_leftmost c l x r p = (c', x', child, q) \<Longrightarrow> before q = before p"
  by (induction c l x r p rule: rb_leftmost.induct) simp_all

lemma rb_ok_replace:
  "rb_ok (rb_plug (q @ RightOf c l x # p) t) \<longleftrightarrow> rb_ok (rb_plug (q @ RightOf c l y # p) t)"
proof -
  have "path_c (q @ RightOf c l x # p) = path_c (q @ RightOf c l y # p)
    \<and> under_black (q @ RightOf c l x # p) = under_black (q @ RightOf c l y # p)"
    by (induction q) auto
  moreover have "path_h (q @ RightOf c l x # p) h = path_h (q @ RightOf c l y # p) h" for h
    by (induction q arbitrary: h) auto
  ultimately show ?thesis by (simp only: rb_ok_plug)
qed

lemma remove_at_ok:
  assumes "rb_ok (rb_plug p (RB_NODE c l x r))"
  shows "\<exists>t. rb_remove_at (RB_NODE c l x r) p = Ret t \<and> rb_ok t \<and>
    rb_inorder t = before p @ rb_inorder l @ rb_inorder r @ after p"
proof (cases "l = RB_NULL \<or> r = RB_NULL")
  case True
  with assms unlink_ok [of p c x r] unlink_ok [of p c x l] show ?thesis
    by (cases l; cases r) auto
next
  case False
  then obtain rc rl rx rr where r: "r = RB_NODE rc rl rx rr" by (cases r) auto
  obtain sc sx child q where lm: "rb_leftmost rc rl rx rr [] = (sc, sx, child, q)"
    by (metis prod_cases4)
  have sub: "rb_plug q (RB_NODE sc RB_NULL sx child) = r"
    using leftmost_plug [OF lm] r by simp
  then have "rb_ok (rb_plug (q @ RightOf c l x # p) (RB_NODE sc RB_NULL sx child))"
    using assms by simp
  then have "rb_ok (rb_plug (q @ RightOf c l sx # p) (RB_NODE sc RB_NULL sx child))"
    by (rule rb_ok_replace [THEN iffD1])
  from unlink_ok [OF disjI1, OF this] obtain t where
    t: "rb_unlink sc child (q @ RightOf c l sx # p) = Ret t" "rb_ok t"
      "rb_inorder t = before (q @ RightOf c l sx # p) @ rb_inorder child @ after (q @ RightOf c l sx # p)"
    by blast
  have "rb_inorder r = before q @ sx # rb_inorder child @ after q"
    using inorder_plug [of q "RB_NODE sc RB_NULL sx child"] sub by simp
  moreover have "before q = []"
    using leftmost_before [OF lm] by simp
  ultimately show ?thesis using t False r lm by (cases l) auto
qed

section \<open>Traversal visits every element once, in order\<close>

lemma minmax_min:
  "r \<noteq> RB_NULL \<Longrightarrow> \<exists>c x r' q. RB_MINMAX True r p = Some (RB_NODE c RB_NULL x r', q) \<and>
     x # rb_inorder r' @ after q = rb_inorder r @ after p"
proof (induction r arbitrary: p)
  case (RB_NODE c l x r)
  show ?case
  proof (cases "l = RB_NULL")
    case False
    from RB_NODE.IH(1) [OF this, of "LeftOf c x r # p"] show ?thesis by force
  qed simp
qed simp

lemma climb_right_next:
  "case climb_right t p of None \<Rightarrow> after p = []
   | Some (u, q) \<Rightarrow> \<exists>c l x r. u = RB_NODE c l x r \<and> x # rb_inorder r @ after q = after p"
  by (induction t p rule: climb_right.induct) (auto split: option.splits)

lemma next_elems:
  "case RB_NEXT (RB_NODE c l x r, p) of None \<Rightarrow> rb_inorder r @ after p = []
   | Some (u, q) \<Rightarrow> \<exists>c l x' r'. u = RB_NODE c l x' r' \<and> x' # rb_inorder r' @ after q = rb_inorder r @ after p"
proof (cases "r = RB_NULL")
  case True
  then show ?thesis using climb_right_next [of p "RB_NODE c l x r"] by (simp split: option.splits prod.splits)
next
  case False
  from minmax_min [OF this, of "RightOf c l x # p"] show ?thesis using False by fastforce
qed

lemma walk_elems:
  "xs = x # rb_inorder r @ after p \<Longrightarrow>
     \<exists>ts. rb_walk (Some (RB_NODE c l x r, p)) = Some ts \<and>
       concat (map (\<lambda>t. case t of RB_NODE c l x r \<Rightarrow> [x] | RB_NULL \<Rightarrow> []) ts) = xs"
proof (induction xs arbitrary: c l x r p)
  case (Cons a xs)
  show ?case
  proof (cases "RB_NEXT (RB_NODE c l x r, p)")
    case None
    with next_elems [where c = c and l = l and x = x and r = r and p = p] Cons.prems show ?thesis
      by (simp add: rb_walk.simps [of "Some _"] rb_walk.simps [of None])
  next
    case (Some uq)
    obtain u q where uq: "uq = (u, q)" by fastforce
    from next_elems [where c = c and l = l and x = x and r = r and p = p] Some uq obtain c' l' x' r' where
      u: "u = RB_NODE c' l' x' r'" and "x' # rb_inorder r' @ after q = rb_inorder r @ after p"
      by auto
    with Cons.prems have "xs = x' # rb_inorder r' @ after q" by simp
    from Cons.IH [OF this, of c' l'] Cons.prems Some uq u show ?thesis
      by (auto simp: rb_walk.simps [of "Some (RB_NODE c l x r, p)"])
  qed
qed simp

text \<open>C39: \<open>RB_FOREACH\<close> (the smallest node, then \<open>RB_NEXT\<close> until it gives null) ends on every
  tree and visits each element exactly once, in the order of the tree.\<close>

theorem rb_foreach_inorder: "RB_FOREACH t = Some (rb_inorder t)"
proof (cases "t = RB_NULL")
  case True
  then show ?thesis by (simp add: RB_FOREACH_def rb_walk.simps [of None])
next
  case False
  from minmax_min [OF this, of "[]"] obtain c x r q where
    m: "RB_MINMAX True t [] = Some (RB_NODE c RB_NULL x r, q)" and
    e: "rb_inorder t = x # rb_inorder r @ after q" by auto
  from walk_elems [OF e, of c RB_NULL] m show ?thesis by (auto simp: RB_FOREACH_def)
qed

section \<open>Trees ordered by a key\<close>

text \<open>
  The contract between the macros and a comparison function: on the elements that satisfy
  \<open>valid\<close> the sign of \<open>cmp\<close> is the order of their keys.
\<close>

definition rb_wf :: "('a \<Rightarrow> 'k::linorder) \<Rightarrow> ('a \<Rightarrow> bool) \<Rightarrow> 'a rb_tree \<Rightarrow> bool" where
  "rb_wf key valid t \<longleftrightarrow>
     rb_ok t \<and> sorted_wrt (<) (map key (rb_inorder t)) \<and> list_all valid (rb_inorder t)"

text \<open>The finite map a tree stands for.\<close>

definition rb_map :: "('a \<Rightarrow> 'k) \<Rightarrow> 'a rb_tree \<Rightarrow> 'k \<rightharpoonup> 'a" where
  "rb_map key t = map_of (map (\<lambda>x. (key x, x)) (rb_inorder t))"

lemma rb_wf_NULL [simp]: "rb_wf key valid RB_NULL"
  by (simp add: rb_wf_def rb_ok_def)

lemma map_of_key_None: "(\<And>x. x \<in> set xs \<Longrightarrow> key x \<noteq> k) \<Longrightarrow> map_of (map (\<lambda>x. (key x, x)) xs) k = None"
  by (induction xs) auto

lemma map_of_key_middle:
  "(\<And>x. x \<in> set xs \<Longrightarrow> key x \<noteq> key y) \<Longrightarrow>
     map_of (map (\<lambda>x. (key x, x)) (xs @ y # ys)) = (map_of (map (\<lambda>x. (key x, x)) (xs @ ys)))(key y \<mapsto> y)"
  by (induction xs) (auto simp: fun_eq_iff)

lemma sorted_keys_middle:
  fixes key :: "'a \<Rightarrow> 'k::linorder"
  assumes "sorted_wrt (<) (map key (xs @ y # ys))" "z \<in> set (xs @ ys)"
  shows "key z \<noteq> key y"
proof (cases "z \<in> set xs")
  case True
  with assms(1) have "key z < key y" by (simp add: sorted_wrt_append)
  then show ?thesis by simp
next
  case False
  with assms have "key y < key z" by (simp add: sorted_wrt_append)
  then show ?thesis by simp
qed

lemma find_append_cases:
  "List.find P (xs @ ys) = (case List.find P xs of None \<Rightarrow> List.find P ys | Some x \<Rightarrow> Some x)"
  by (induction xs) simp_all

locale rb_keyed =
  fixes cmp :: "'a \<Rightarrow> 'a \<Rightarrow> int"
    and key :: "'a \<Rightarrow> 'k::linorder"
    and valid :: "'a \<Rightarrow> bool"
  assumes cmp_less: "valid x \<Longrightarrow> valid y \<Longrightarrow> cmp x y < 0 \<longleftrightarrow> key x < key y"
    and cmp_greater: "valid x \<Longrightarrow> valid y \<Longrightarrow> 0 < cmp x y \<longleftrightarrow> key y < key x"
begin

lemma descend_plug: "rb_descend cmp e t p = (u, q) \<Longrightarrow> rb_plug q u = rb_plug p t"
  by (induction cmp e t p rule: rb_descend.induct) (auto simp: Let_def split: if_splits)

lemma descend_sides:
  assumes "rb_descend cmp e t p = (u, q)" "valid e" "list_all valid (rb_inorder t)"
    and "sorted_wrt (<) (map key (rb_inorder t))"
    and "\<forall>x \<in> set (before p). key x < key e" "\<forall>x \<in> set (after p). key e < key x"
  shows "(\<forall>x \<in> set (before q). key x < key e) \<and> (\<forall>x \<in> set (after q). key e < key x) \<and>
    (case u of RB_NULL \<Rightarrow> True | RB_NODE c l x r \<Rightarrow> key x = key e)"
  using assms
proof (induction t arbitrary: p)
  case (RB_NODE c l x r)
  have vx: "valid x" using RB_NODE.prems by simp
  consider "cmp e x < 0" | "0 < cmp e x" | "cmp e x = 0" by linarith
  then show ?case
  proof cases
    case 1
    then have "key e < key x" using cmp_less [OF \<open>valid e\<close> vx] by simp
    with RB_NODE.prems 1 show ?thesis
      by (intro RB_NODE.IH(1) [where p = "LeftOf c x r # p"]) (auto simp: sorted_wrt_append intro: order.strict_trans)
  next
    case 2
    then have "key x < key e" using cmp_greater [OF \<open>valid e\<close> vx] by simp
    with RB_NODE.prems 2 show ?thesis
      by (intro RB_NODE.IH(2) [where p = "RightOf c l x # p"]) (auto simp: sorted_wrt_append intro: order.strict_trans)
  next
    case 3
    then have "key x = key e"
      using cmp_less [OF \<open>valid e\<close> vx] cmp_greater [OF \<open>valid e\<close> vx] by auto
    with 3 RB_NODE.prems show ?thesis by auto
  qed
qed simp


lemma descend_wf:
  assumes "rb_wf key valid t" "valid e" "rb_descend cmp e t [] = (u, q)"
  shows "rb_plug q u = t" "\<forall>x \<in> set (before q). key x < key e" "\<forall>x \<in> set (after q). key e < key x"
    "u = RB_NODE c l x r \<Longrightarrow> key x = key e"
  using assms descend_sides [of e t "[]" u q] descend_plug [of e t "[]" u q]
  by (auto simp: rb_wf_def)

lemma descend_miss:
  assumes "rb_wf key valid t" "valid e" "rb_descend cmp e t [] = (RB_NULL, q)"
  shows "rb_inorder t = before q @ after q" "rb_map key t (key e) = None"
proof -
  show e: "rb_inorder t = before q @ after q"
    using descend_wf(1) [OF assms] inorder_plug [of q RB_NULL] by simp
  show "rb_map key t (key e) = None"
    unfolding rb_map_def e using descend_wf(2,3) [OF assms] by (intro map_of_key_None) auto
qed

lemma descend_hit:
  assumes "rb_wf key valid t" "valid e" "rb_descend cmp e t [] = (RB_NODE c l x r, q)"
  shows "rb_inorder t = (before q @ rb_inorder l) @ x # (rb_inorder r @ after q)"
    "rb_map key t (key e) = Some x" "x \<in> set (rb_inorder t)" "key x = key e"
proof -
  show e: "rb_inorder t = (before q @ rb_inorder l) @ x # (rb_inorder r @ after q)"
    using descend_wf(1) [OF assms] inorder_plug [of q "RB_NODE c l x r"] by simp
  then show "x \<in> set (rb_inorder t)" by simp
  show kx: "key x = key e" using descend_wf(4) [OF assms] by simp
  have "y \<in> set (before q @ rb_inorder l) \<Longrightarrow> key y \<noteq> key x" for y
    using assms(1) sorted_keys_middle [of key "before q @ rb_inorder l" x "rb_inorder r @ after q" y]
    by (auto simp: rb_wf_def e)
  then have "map_of (map (\<lambda>x. (key x, x)) ((before q @ rb_inorder l) @ x # (rb_inorder r @ after q))) (key x) = Some x"
    by (subst map_of_key_middle) auto
  then show "rb_map key t (key e) = Some x"
    unfolding rb_map_def e kx [symmetric] .
qed

text \<open>Searching is looking up in the map.\<close>

lemma find_spec:
  assumes "rb_wf key valid t" "valid e"
  shows "RB_FIND cmp t e = rb_map key t (key e)"
proof -
  obtain u q where d: "rb_descend cmp e t [] = (u, q)" by fastforce
  then show ?thesis
    using assms descend_miss descend_hit by (cases u) (simp_all add: RB_FIND_def)
qed

lemma find_sound: "rb_wf key valid t \<Longrightarrow> RB_FIND cmp t e = Some x \<Longrightarrow> valid e \<Longrightarrow>
    x \<in> set (rb_inorder t) \<and> key x = key e"
proof -
  assume a: "rb_wf key valid t" "RB_FIND cmp t e = Some x" "valid e"
  obtain u q where d: "rb_descend cmp e t [] = (u, q)" by fastforce
  with a(2) obtain c l r where "u = RB_NODE c l x r"
    by (cases u) (auto simp: RB_FIND_def)
  with d descend_hit [OF a(1,3)] show ?thesis by blast
qed

text \<open>Inserting an element with a new key adds it; with a key that is there, nothing changes and
  the element of that key is returned.\<close>

lemma insert_new:
  assumes wf: "rb_wf key valid t" and v: "valid e" and new: "rb_map key t (key e) = None"
  shows "\<exists>t'. RB_INSERT cmp t e = Ret (None, t') \<and> rb_wf key valid t' \<and>
    rb_map key t' = (rb_map key t)(key e \<mapsto> e) \<and>
    (\<exists>xs ys. rb_inorder t = xs @ ys \<and> rb_inorder t' = xs @ e # ys)"
proof -
  obtain u q where d: "rb_descend cmp e t [] = (u, q)" by fastforce
  have u: "u = RB_NULL"
    using descend_hit(2) [OF wf v] d new by (cases u) auto
  note miss = descend_miss [OF wf v d [unfolded u]] and side = descend_wf [OF wf v d]
  have "rb_ok (rb_plug q RB_NULL)" using wf side(1) u by (simp add: rb_wf_def)
  then have "\<exists>t'. RB_INSERT_COLOR (RB_NODE RB_RED RB_NULL e RB_NULL) q = Ret t' \<and> rb_ok t'"
    by (intro insert_color_ok) (auto simp: rb_ok_plug)
  then obtain t' where t': "RB_INSERT_COLOR (RB_NODE RB_RED RB_NULL e RB_NULL) q = Ret t'" "rb_ok t'"
    by blast
  from returnsD [OF inorder_insert_color t'(1)]
  have io: "rb_inorder t' = before q @ e # after q" by simp
  have "rb_wf key valid t'"
    using wf v t'(2) side(2,3) by (auto simp: rb_wf_def io miss(1) sorted_wrt_append)
  moreover have "rb_map key t' = (rb_map key t)(key e \<mapsto> e)"
    unfolding rb_map_def io miss(1) using side(2) by (intro map_of_key_middle) auto
  ultimately show ?thesis
    using t'(1) d u io miss(1) by (auto simp: RB_INSERT_def)
qed

lemma insert_present:
  assumes "rb_wf key valid t" "valid e" "rb_map key t (key e) = Some x"
  shows "RB_INSERT cmp t e = Ret (Some x, t)"
proof -
  obtain u q where "rb_descend cmp e t [] = (u, q)" by fastforce
  then show ?thesis
    using assms descend_miss(2) [OF assms(1,2)] descend_hit(2) [OF assms(1,2)]
    by (cases u) (auto simp: RB_INSERT_def)
qed

lemma remove_present:
  assumes wf: "rb_wf key valid t" and v: "valid e" and mem: "rb_map key t (key e) = Some x"
  shows "\<exists>t'. RB_REMOVE cmp t e = Ret t' \<and> rb_wf key valid t' \<and>
    rb_map key t' = (rb_map key t)(key e := None) \<and>
    (\<exists>xs ys. rb_inorder t = xs @ x # ys \<and> rb_inorder t' = xs @ ys)"
proof -
  obtain u q where d: "rb_descend cmp e t [] = (u, q)" by fastforce
  then obtain c l y r where u: "u = RB_NODE c l y r"
    using descend_miss(2) [OF wf v] mem by (cases u) auto
  note hit = descend_hit [OF wf v d [unfolded u]]
  have yx: "y = x" using hit(2) mem by simp
  let ?xs = "before q @ rb_inorder l" and ?ys = "rb_inorder r @ after q"
  have "rb_ok (rb_plug q (RB_NODE c l y r))"
    using wf descend_wf(1) [OF wf v d] u by (simp add: rb_wf_def)
  from remove_at_ok [OF this] obtain t' where
    t': "rb_remove_at u q = Ret t'" "rb_ok t'" "rb_inorder t' = ?xs @ ?ys" using u by auto
  have "rb_wf key valid t'"
    using wf t'(2) hit(1) by (auto simp: rb_wf_def t'(3) sorted_wrt_append)
  moreover have "rb_map key t' = (rb_map key t)(key e := None)"
  proof -
    have ne: "z \<in> set (?xs @ ?ys) \<Longrightarrow> key z \<noteq> key y" for z
      using wf sorted_keys_middle [of key ?xs y ?ys z] by (simp add: rb_wf_def hit(1))
    have "rb_map key t = (rb_map key t')(key y \<mapsto> y)"
      unfolding rb_map_def hit(1) t'(3) using ne by (intro map_of_key_middle) auto
    moreover have "rb_map key t' (key y) = None"
      unfolding rb_map_def t'(3) using ne by (intro map_of_key_None) auto
    ultimately show ?thesis using hit(4) by (auto simp: fun_eq_iff)
  qed
  moreover have "\<exists>xs ys. rb_inorder t = xs @ x # ys \<and> rb_inorder t' = xs @ ys"
    using hit(1) t'(3) yx by blast
  ultimately show ?thesis using t'(1) d by (auto simp: RB_REMOVE_def)
qed

text \<open>The nearest element at or above a key.\<close>

lemma nfind_aux:
  assumes "valid e" "list_all valid (rb_inorder t)" "sorted_wrt (<) (map key (rb_inorder t))"
  shows "rb_nfind cmp e t res =
    (case List.find (\<lambda>x. key e \<le> key x) (rb_inorder t) of None \<Rightarrow> res | Some x \<Rightarrow> Some x)"
  using assms(2,3)
proof (induction t arbitrary: res)
  case (RB_NODE c l x r)
  have vx: "valid x" using RB_NODE.prems by simp
  have l: "y \<in> set (rb_inorder l) \<Longrightarrow> key y < key x" for y
    using RB_NODE.prems by (simp add: sorted_wrt_append)
  have none: "key x \<le> key e \<Longrightarrow> List.find (\<lambda>x. key e \<le> key x) (rb_inorder l) = None"
    using l by (fastforce simp: find_None_iff)
  consider "cmp e x < 0" | "0 < cmp e x" | "cmp e x = 0" by linarith
  then show ?case
  proof cases
    case 1
    then have "key e < key x" using cmp_less [OF assms(1) vx] by simp
    with 1 RB_NODE show ?thesis by (simp add: find_append_cases sorted_wrt_append less_imp_le split: option.split)
  next
    case 2
    then have "key x < key e" "\<not> key e \<le> key x" using cmp_greater [OF assms(1) vx] by auto
    with 2 RB_NODE none show ?thesis by (simp add: find_append_cases sorted_wrt_append)
  next
    case 3
    then have "key x = key e" using cmp_less [OF assms(1) vx] cmp_greater [OF assms(1) vx] by auto
    with 3 none show ?thesis by (simp add: find_append_cases)
  qed
qed simp

lemma nfind_spec:
  "rb_wf key valid t \<Longrightarrow> valid e \<Longrightarrow>
     RB_NFIND cmp t e = List.find (\<lambda>x. key e \<le> key x) (rb_inorder t)"
  by (simp add: RB_NFIND_def rb_wf_def nfind_aux split: option.split)

end

text \<open>Elements changed in place, their keys kept.\<close>

lemma map_tree_simps [simp]:
  "is_red (map_rb_tree f t) = is_red t" "bh (map_rb_tree f t) = bh t"
  "rb_inorder (map_rb_tree f t) = map f (rb_inorder t)"
  by (induction t; simp)+

lemma map_tree_ok [simp]: "rb_ok (map_rb_tree f t) = rb_ok t"
proof -
  have "invc (map_rb_tree f t) = invc t" "invh (map_rb_tree f t) = invh t"
    by (induction t; simp)+
  then show ?thesis by (simp add: rb_ok_def)
qed

lemma map_tree_wf:
  assumes "rb_wf key valid t" "\<And>x. key (f x) = key x" "\<And>x. valid x \<Longrightarrow> valid (f x)"
  shows "rb_wf key valid (map_rb_tree f t)"
proof -
  have "key \<circ> f = key" using assms(2) by auto
  then show ?thesis using assms(1,3) by (auto simp: rb_wf_def list_all_iff)
qed

lemma map_tree_map:
  assumes "\<And>x. key (f x) = key x"
  shows "rb_map key (map_rb_tree f t) k = map_option f (rb_map key t k)"
proof -
  have "map_of (map (\<lambda>x. (key x, x)) (map f xs)) k = map_option f (map_of (map (\<lambda>x. (key x, x)) xs) k)" for xs
    by (induction xs) (auto simp: assms)
  then show ?thesis by (simp add: rb_map_def)
qed

section \<open>Height\<close>

lemma bh_size: "invh t \<Longrightarrow> 2 ^ bh t \<le> Suc (length (rb_inorder t))"
  by (induction t) auto

lemma descend_length:
  "invc t \<Longrightarrow> invh t \<Longrightarrow> rb_descend cmp e t p = (u, q) \<Longrightarrow>
     length q \<le> length p + 2 * bh t + (if is_red t then 1 else 0)"
proof (induction t arbitrary: p)
  case (RB_NODE c l x r)
  then show ?case
    by (cases c) (fastforce simp: Let_def split: if_splits)+
qed simp

text \<open>A descent from the root (\<open>RB_FIND\<close>, and the first loop of \<open>RB_INSERT\<close>) in a tree with
  the red-black invariant follows at most 2 * log2(n + 1) links, where n is the number of
  elements.\<close>

theorem rb_descend_logarithmic:
  assumes "rb_ok t"
  shows "2 ^ (length (snd (rb_descend cmp e t [])) div 2) \<le> Suc (length (rb_inorder t))"
proof -
  obtain u q where d: "rb_descend cmp e t [] = (u, q)" by fastforce
  from assms have t: "invc t" "invh t" "\<not> is_red t" by (simp_all add: rb_ok_def)
  have "length q \<le> 2 * bh t" using descend_length [OF t(1,2) d] t(3) by simp
  then have "(2::nat) ^ (length q div 2) \<le> 2 ^ bh t" by (intro power_increasing) auto
  from order.trans [OF this bh_size [OF t(2)]] d show ?thesis by simp
qed

theorem rb_descend_logarithmic_witness:
  "length (snd (rb_descend (-) 4
     (RB_NODE RB_BLACK (RB_NODE RB_RED RB_NULL 1 RB_NULL) 2 (RB_NODE RB_RED RB_NULL (3::int) RB_NULL)) [])) = 2
   \<and> 2 ^ (length (snd (rb_descend (-) 4
     (RB_NODE RB_BLACK (RB_NODE RB_RED RB_NULL 1 RB_NULL) 2 (RB_NODE RB_RED RB_NULL (3::int) RB_NULL)) [])) div 2)
     \<le> Suc (length (rb_inorder (RB_NODE RB_BLACK (RB_NODE RB_RED RB_NULL 1 RB_NULL) 2 (RB_NODE RB_RED RB_NULL (3::int) RB_NULL))))"
  by (rule conjI, simp add: Let_def, rule rb_descend_logarithmic) (simp add: rb_ok_def)

end
