(* ===== verification/XhCore.thy ===== *)
theory XhCore
  imports XhHook RbTree "HOL-Library.Char_ord"
begin

text \<open>
  The hook manager of \<open>libxhook/xh_core.c\<close> and its public faces \<open>xhook.c\<close> and
  \<open>xhook_ext.c\<close>: registered requests, request groups, the tree of mapped libraries, the
  refresh that matches one against the other, SIGSEGV protection and the life cycle of the
  library. A queue (\<open>TAILQ\<close>) is the list of its elements. The mutexes bracket regions that
  every path leaves, so a function run by one thread is modelled without them; what they and the
  refresh blocker do between threads is the subject of the theory on refreshing.
\<close>

section \<open>Data\<close>

text \<open>A compiled regular expression is its source text; \<open>os_regexec\<close> decides matches.\<close>

record hook_info =
  hi_regex :: string
  hi_symbol :: string
  hi_new_func :: u64
  hi_old_func :: u64

record ignore_info =
  ii_regex :: string
  ii_symbol :: "string option" \<comment> \<open>\<open>None\<close>: all symbols\<close>

record request_group =
  rg_id :: "32 word"
  rg_hook_infos :: "hook_info list"
  rg_ignore_infos :: "ignore_info list"

text \<open>The difference of two \<open>int\<close>s, as the processor computes it.\<close>

definition xh_core_request_group_cmp :: "request_group \<Rightarrow> request_group \<Rightarrow> int" where
  "xh_core_request_group_cmp a b = sint (rg_id a - rg_id b)"

definition xh_core_init_request_group :: "32 word \<Rightarrow> request_group" where
  "xh_core_init_request_group group_id = \<lparr>rg_id = group_id, rg_hook_infos = [], rg_ignore_infos = []\<rparr>"

record map_info =
  mi_pathname :: string
  mi_base_addr :: u64
  mi_elf :: xh_elf

text \<open>\<open>strcmp\<close>: the sign of the first difference; strings carry no NUL.\<close>

fun strcmp :: "string \<Rightarrow> string \<Rightarrow> int" where
  "strcmp [] [] = 0"
| "strcmp [] (d # ds) = - 1"
| "strcmp (c # cs) [] = 1"
| "strcmp (c # cs) (d # ds) = (if c = d then strcmp cs ds else int (of_char c) - int (of_char d))"

definition xh_core_map_info_cmp :: "map_info \<Rightarrow> map_info \<Rightarrow> int" where
  "xh_core_map_info_cmp a b = strcmp (mi_pathname a) (mi_pathname b)"

datatype sig_handler = OldHandler | XhHandler

text \<open>
  The static variables. \<open>refreshed\<close> is the local tree of \<open>xh_core_refresh_impl\<close> that the
  callback fills; \<open>blocker\<close> and \<open>blocker_count\<close> are what the calling thread holds of the
  refresh blocker and its thread-specific value. \<open>open_handles\<close> counts the blocks that
  \<open>xh_core_elf_open\<close> has allocated for its callers and \<open>xh_core_elf_close\<close> has not freed.
\<close>

record core =
  sigsegv_enable :: bool
  sigsegv_flag :: bool
  sigsegv_act :: sig_handler
  hook_infos :: "hook_info list"
  ignore_infos :: "ignore_info list"
  request_groups :: "request_group rb_tree"
  map_infos :: "map_info rb_tree"
  refreshed :: "map_info rb_tree"
  inited :: bool
  init_ok :: bool
  async_inited :: bool
  async_init_ok :: bool
  thread_running :: bool
  thread_do :: bool
  tls_key :: bool
  blocker_count :: "32 word"
  blocker :: lock_state
  log_priority :: nat
  open_handles :: nat

definition core0 :: core where
  "core0 = \<lparr>sigsegv_enable = True, sigsegv_flag = False, sigsegv_act = OldHandler, hook_infos = [],
     ignore_infos = [], request_groups = RB_NULL, map_infos = RB_NULL, refreshed = RB_NULL,
     inited = False, init_ok = False, async_inited = False, async_init_ok = False,
     thread_running = False, thread_do = False, tls_key = False, blocker_count = 0,
     blocker = Unlocked, log_priority = 5, open_handles = 0\<rparr>"

type_synonym 'a xcmd = "(core \<times> world, 'a) cmd"

definition updk :: "(core \<Rightarrow> core) \<Rightarrow> unit xcmd" where
  "updk f = updc (\<lambda>(c, w). (f c, w))"

section \<open>SIGSEGV protection\<close>

definition xh_core_add_sigsegv_handler :: "os \<Rightarrow> int xcmd" where
  "xh_core_add_sigsegv_handler os = (\<lambda>(c, w).
     if \<not> sigsegv_enable c then (Ret 0, (c, w))
     else case os_sigaction os w of
         Some errno \<Rightarrow> (Ret (if errno = 0 then XH_ERRNO_UNKNOWN else errno), (c, w))
       | None \<Rightarrow> (Ret 0, (c\<lparr>sigsegv_act := XhHandler\<rparr>, w)))"

definition xh_core_del_sigsegv_handler :: "unit xcmd" where
  "xh_core_del_sigsegv_handler =
     updk (\<lambda>c. if \<not> sigsegv_enable c then c else c\<lparr>sigsegv_act := OldHandler\<rparr>)"

text \<open>
  The handler, and the pattern around the calls that may fault: \<open>sigsetjmp\<close> returns 0, the body
  runs; a SIGSEGV with the flag set and the handler installed comes back to \<open>sigsetjmp\<close> with 1
  and the other branch gives \<open>fault\<close>. Without the handler the fault ends the process. What the
  body changed before the fault stays.
\<close>

definition xh_core_sigsegv_handler :: "core \<Rightarrow> 'a \<Rightarrow> 'a run \<times> core" where
  "xh_core_sigsegv_handler c fault =
     (if sigsegv_act c = XhHandler \<and> sigsegv_flag c then (Ret fault, c)
      else (Segv, c\<lparr>sigsegv_act := OldHandler\<rparr>))"

definition sigsegv_protect :: "'a \<Rightarrow> 'a xcmd \<Rightarrow> 'a xcmd" where
  "sigsegv_protect fault m = (\<lambda>(c, w).
     if \<not> sigsegv_enable c then m (c, w)
     else case m (c\<lparr>sigsegv_flag := True\<rparr>, w) of
         (Ret x, (c', w')) \<Rightarrow> (Ret x, (c'\<lparr>sigsegv_flag := False\<rparr>, w'))
       | (Segv, (c', w')) \<Rightarrow>
           (case xh_core_sigsegv_handler c' fault of
              (Ret x, c'') \<Rightarrow> (Ret x, (c''\<lparr>sigsegv_flag := False\<rparr>, w'))
            | (_, c'') \<Rightarrow> (Segv, (c'', w')))
       | (r, s') \<Rightarrow> (r, s'))"

section \<open>Registering requests\<close>

text \<open>The queue a request goes to is given by how it is updated.\<close>

definition xh_core_register_impl ::
    "os \<Rightarrow> ((hook_info list \<Rightarrow> hook_info list) \<Rightarrow> core \<Rightarrow> core) \<Rightarrow>
      string option \<Rightarrow> string option \<Rightarrow> u64 \<Rightarrow> u64 \<Rightarrow> int xcmd" where
  "xh_core_register_impl os info_queue pathname_regex_str symbol new_func old_func =
     (case (pathname_regex_str, symbol) of
        (Some regex, Some name) \<Rightarrow>
          if new_func = 0 then retc XH_ERRNO_INVAL
          else if \<not> os_regcomp os regex then retc XH_ERRNO_INVAL
          else bindc (liftw (malloc_c os)) (\<lambda>ok. if \<not> ok then retc XH_ERRNO_NOMEM
          else bindc (liftw (malloc_c os)) (\<lambda>ok. if \<not> ok then retc XH_ERRNO_NOMEM
          else bindc (updk (info_queue (\<lambda>q. q @ [\<lparr>hi_regex = regex, hi_symbol = name,
                  hi_new_func = new_func, hi_old_func = old_func\<rparr>]))) (\<lambda>_. retc 0)))
      | _ \<Rightarrow> retc XH_ERRNO_INVAL)"

definition xh_core_register :: "os \<Rightarrow> string option \<Rightarrow> string option \<Rightarrow> u64 \<Rightarrow> u64 \<Rightarrow> int xcmd" where
  "xh_core_register os = xh_core_register_impl os hook_infos_update"

definition xh_core_ignore_impl ::
    "os \<Rightarrow> ((ignore_info list \<Rightarrow> ignore_info list) \<Rightarrow> core \<Rightarrow> core) \<Rightarrow>
      string option \<Rightarrow> string option \<Rightarrow> int xcmd" where
  "xh_core_ignore_impl os info_queue pathname_regex_str symbol =
     (case pathname_regex_str of
        None \<Rightarrow> retc XH_ERRNO_INVAL
      | Some regex \<Rightarrow>
          if \<not> os_regcomp os regex then retc XH_ERRNO_INVAL
          else bindc (liftw (malloc_c os)) (\<lambda>ok. if \<not> ok then retc XH_ERRNO_NOMEM
          else bindc (if symbol \<noteq> None then liftw (malloc_c os) else retc True) (\<lambda>ok.
            if \<not> ok then retc XH_ERRNO_NOMEM
            else bindc (updk (info_queue (\<lambda>q. q @ [\<lparr>ii_regex = regex, ii_symbol = symbol\<rparr>]))) (\<lambda>_. retc 0))))"

definition xh_core_ignore :: "os \<Rightarrow> string option \<Rightarrow> string option \<Rightarrow> int xcmd" where
  "xh_core_ignore os = xh_core_ignore_impl os ignore_infos_update"

text \<open>The group of an id in place, changed by a function.\<close>

definition update_group :: "32 word \<Rightarrow> (request_group \<Rightarrow> request_group) \<Rightarrow> core \<Rightarrow> core" where
  "update_group group_id f =
     request_groups_update (map_rb_tree (\<lambda>g. if rg_id g = group_id then f g else g))"

text \<open>The group of an id is looked up and, where there is none, created.\<close>

definition ensure_group :: "os \<Rightarrow> 32 word \<Rightarrow> bool xcmd" where
  "ensure_group os group_id = (\<lambda>(c, w).
     case RB_FIND xh_core_request_group_cmp (request_groups c) (xh_core_init_request_group group_id) of
       Some _ \<Rightarrow> (Ret True, (c, w))
     | None \<Rightarrow>
         bindc (liftw (malloc_c os)) (\<lambda>ok. if \<not> ok then retc False
         else (\<lambda>(c, w).
           case RB_INSERT xh_core_request_group_cmp (request_groups c) (xh_core_init_request_group group_id) of
             Ret (_, groups) \<Rightarrow> (Ret True, (c\<lparr>request_groups := groups\<rparr>, w))
           | _ \<Rightarrow> (Segv, (c, w)))) (c, w))"

definition xh_core_grouped_register ::
    "os \<Rightarrow> 32 word \<Rightarrow> string option \<Rightarrow> string option \<Rightarrow> u64 \<Rightarrow> u64 \<Rightarrow> int xcmd" where
  "xh_core_grouped_register os group_id pathname_regex_str symbol new_func old_func =
     bindc (ensure_group os group_id) (\<lambda>ok. if \<not> ok then retc XH_ERRNO_NOMEM
     else xh_core_register_impl os (\<lambda>f. update_group group_id (rg_hook_infos_update f))
            pathname_regex_str symbol new_func old_func)"

definition xh_core_grouped_ignore :: "os \<Rightarrow> 32 word \<Rightarrow> string option \<Rightarrow> string option \<Rightarrow> int xcmd" where
  "xh_core_grouped_ignore os group_id pathname_regex_str symbol =
     bindc (ensure_group os group_id) (\<lambda>ok. if \<not> ok then retc XH_ERRNO_NOMEM
     else xh_core_ignore_impl os (\<lambda>f. update_group group_id (rg_ignore_infos_update f))
            pathname_regex_str symbol)"

section \<open>Matching requests against a library\<close>

text \<open>The inner loop over the ignore requests, for one hook request that matches the path.\<close>

datatype ignore_verdict = NotIgnored | SymbolIgnored | AllIgnored

fun ignore_scan :: "os \<Rightarrow> string \<Rightarrow> string \<Rightarrow> ignore_info list \<Rightarrow> ignore_verdict" where
  "ignore_scan os pathname symbol [] = NotIgnored"
| "ignore_scan os pathname symbol (ii # iis) =
     (if os_regexec os (ii_regex ii) pathname then
        (case ii_symbol ii of
           None \<Rightarrow> AllIgnored
         | Some s \<Rightarrow> if s = symbol then SymbolIgnored else ignore_scan os pathname symbol iis)
      else ignore_scan os pathname symbol iis)"

fun xh_core_hook_impl_with_spec_info ::
    "os \<Rightarrow> string \<Rightarrow> xh_elf \<Rightarrow> hook_info list \<Rightarrow> ignore_info list \<Rightarrow> (world, unit) cmd" where
  "xh_core_hook_impl_with_spec_info os pathname elf [] iis = retc ()"
| "xh_core_hook_impl_with_spec_info os pathname elf (hi # his) iis =
     (if os_regexec os (hi_regex hi) pathname then
        (case ignore_scan os pathname (hi_symbol hi) iis of
           AllIgnored \<Rightarrow> retc ()
         | SymbolIgnored \<Rightarrow> xh_core_hook_impl_with_spec_info os pathname elf his iis
         | NotIgnored \<Rightarrow>
             bindc (xh_elf_hook os elf (Some (hi_symbol hi)) (hi_new_func hi) (hi_old_func hi)) (\<lambda>_.
               xh_core_hook_impl_with_spec_info os pathname elf his iis))
      else xh_core_hook_impl_with_spec_info os pathname elf his iis)"

text \<open>The groups in the order of \<open>RB_FOREACH_SAFE\<close>.\<close>

fun hook_groups :: "os \<Rightarrow> string \<Rightarrow> xh_elf \<Rightarrow> request_group list \<Rightarrow> (world, unit) cmd" where
  "hook_groups os pathname elf [] = retc ()"
| "hook_groups os pathname elf (g # gs) =
     bindc (xh_core_hook_impl_with_spec_info os pathname elf (rg_hook_infos g) (rg_ignore_infos g))
       (\<lambda>_. hook_groups os pathname elf gs)"

text \<open>The result is \<open>*mi\<close> with the ELF view it now has.\<close>

definition xh_core_hook_impl :: "os \<Rightarrow> core \<Rightarrow> map_info \<Rightarrow> (world, map_info) cmd" where
  "xh_core_hook_impl os c mi =
     bindc (readc (\<lambda>w. xh_elf_init (w_mem w) (mi_elf mi) (mi_base_addr mi) (Some (mi_pathname mi))))
       (\<lambda>(r, elf). if r \<noteq> 0 then retc (mi\<lparr>mi_elf := elf\<rparr>)
        else bindc (xh_core_hook_impl_with_spec_info os (mi_pathname mi) elf (hook_infos c) (ignore_infos c))
          (\<lambda>_. bindc (hook_groups os (mi_pathname mi) elf (rb_inorder (request_groups c)))
          (\<lambda>_. retc (mi\<lparr>mi_elf := elf\<rparr>))))"

text \<open>After a fault the ELF view of \<open>mi\<close> is left over; no code reads it before it is built anew.\<close>

definition xh_core_hook :: "os \<Rightarrow> map_info \<Rightarrow> map_info xcmd" where
  "xh_core_hook os mi = sigsegv_protect mi (\<lambda>(c, w).
     case xh_core_hook_impl os c mi w of (r, w') \<Rightarrow> (r, (c, w')))"

definition xh_core_check_elf_header :: "u64 \<Rightarrow> int xcmd" where
  "xh_core_check_elf_header base_addr =
     sigsegv_protect XH_ERRNO_SEGVERR (readc (\<lambda>(c, w). xh_elf_check_elfheader (w_mem w) base_addr))"

definition xh_check_loaded_so :: "os \<Rightarrow> world \<Rightarrow> u64 \<Rightarrow> bool" where
  "xh_check_loaded_so os w addr = os_dladdr os w addr"

fun is_current_pathname_matches_any_requests ::
    "os \<Rightarrow> hook_info list \<Rightarrow> ignore_info list \<Rightarrow> string \<Rightarrow> bool" where
  "is_current_pathname_matches_any_requests os [] iis pathname = False"
| "is_current_pathname_matches_any_requests os (hi # his) iis pathname =
     (if os_regexec os (hi_regex hi) pathname then
        (case ignore_scan os pathname (hi_symbol hi) iis of
           AllIgnored \<Rightarrow> False
         | SymbolIgnored \<Rightarrow> is_current_pathname_matches_any_requests os his iis pathname
         | NotIgnored \<Rightarrow> True)
      else is_current_pathname_matches_any_requests os his iis pathname)"

section \<open>Refreshing\<close>

text \<open>Both trees hold pointers: a change of \<open>*mi\<close> is seen through the tree it is in.\<close>

definition store_mi :: "map_info \<Rightarrow> core \<Rightarrow> core" where
  "store_mi mi = refreshed_update (map_rb_tree (\<lambda>x. if mi_pathname x = mi_pathname mi then mi else x))"

definition mi_key :: "string \<Rightarrow> map_info" where
  "mi_key pathname = \<lparr>mi_pathname = pathname, mi_base_addr = 0, mi_elf = zero_elf\<rparr>"

text \<open>\<open>RB_INSERT\<close> into the refreshed tree; the result says whether the path was there already.\<close>

definition insert_refreshed :: "map_info \<Rightarrow> bool xcmd" where
  "insert_refreshed mi = (\<lambda>(c, w).
     case RB_INSERT xh_core_map_info_cmp (refreshed c) mi of
       Ret (old, t) \<Rightarrow> (Ret (old \<noteq> None), (c\<lparr>refreshed := t\<rparr>, w))
     | _ \<Rightarrow> (Segv, (c, w)))"

definition remove_map_info :: "map_info \<Rightarrow> unit xcmd" where
  "remove_map_info mi = (\<lambda>(c, w).
     case RB_REMOVE xh_core_map_info_cmp (map_infos c) mi of
       Ret t \<Rightarrow> (Ret (), (c\<lparr>map_infos := t\<rparr>, w))
     | _ \<Rightarrow> (Segv, (c, w)))"

definition hook_refreshed :: "os \<Rightarrow> map_info \<Rightarrow> int xcmd" where
  "hook_refreshed os mi =
     bindc (updk (store_mi mi)) (\<lambda>_.
     bindc (xh_core_hook os mi) (\<lambda>mi'.
     bindc (updk (store_mi mi')) (\<lambda>_. retc 0)))"

definition wants_library :: "os \<Rightarrow> core \<Rightarrow> string \<Rightarrow> bool" where
  "wants_library os c pathname \<longleftrightarrow>
     is_current_pathname_matches_any_requests os (hook_infos c) (ignore_infos c) pathname \<or>
     list_ex (\<lambda>g. is_current_pathname_matches_any_requests os (rg_hook_infos g) (rg_ignore_infos g) pathname)
       (rb_inorder (request_groups c))"

text \<open>From "check existed map item" on.\<close>

definition refresh_map_info :: "os \<Rightarrow> string \<Rightarrow> u64 \<Rightarrow> int xcmd" where
  "refresh_map_info os pathname start = (\<lambda>(c, w).
     case RB_FIND xh_core_map_info_cmp (map_infos c) (mi_key pathname) of
       Some mi \<Rightarrow>
         bindc (remove_map_info mi) (\<lambda>_.
         bindc (insert_refreshed mi) (\<lambda>repeated.
           if repeated then retc 0
           else if mi_base_addr mi \<noteq> start then hook_refreshed os (mi\<lparr>mi_base_addr := start\<rparr>)
           else retc 0)) (c, w)
     | None \<Rightarrow>
         bindc (liftw (malloc_c os)) (\<lambda>ok. if \<not> ok then retc 0 else
         bindc (liftw (malloc_c os)) (\<lambda>ok. if \<not> ok then retc 0 else
         let mi = \<lparr>mi_pathname = pathname, mi_base_addr = start, mi_elf = zero_elf\<rparr> in
         bindc (insert_refreshed mi) (\<lambda>repeated.
           if repeated then retc 0 else hook_refreshed os mi))) (c, w))"

definition xh_core_maps_iterate_cb :: "os \<Rightarrow> maps_item \<Rightarrow> int xcmd" where
  "xh_core_maps_iterate_cb os item = (\<lambda>(c, w).
     if nth_c (item_perms item) 0 \<noteq> CHR ''r'' then (Ret 0, (c, w))
     else if nth_c (item_perms item) 3 \<noteq> CHR ''p'' then (Ret 0, (c, w))
     else if item_offset item \<noteq> 0 then (Ret 0, (c, w))
     else case item_pathname item of
         None \<Rightarrow> (Segv, (c, w))
       | Some pathname \<Rightarrow>
           if nth_c pathname 0 = CHR ''['' then (Ret 0, (c, w))
           else if \<not> wants_library os c pathname then (Ret 0, (c, w))
           else if \<not> xh_check_loaded_so os w (item_start item) then (Ret 0, (c, w))
           else bindc (xh_core_check_elf_header (item_start item)) (\<lambda>r.
             if r \<noteq> 0 then retc 0 else refresh_map_info os pathname (item_start item)) (c, w))"

text \<open>\<open>RB_FOREACH_SAFE\<close> with \<open>RB_REMOVE\<close> of the element visited: the elements of the tree as it
  was when the loop began.\<close>

fun remove_all_map_infos :: "map_info list \<Rightarrow> unit xcmd" where
  "remove_all_map_infos [] = retc ()"
| "remove_all_map_infos (mi # mis) = bindc (remove_map_info mi) (\<lambda>_. remove_all_map_infos mis)"

text \<open>What the thread holds of the blocker after \<open>pthread_rwlock_rdlock\<close>: bionic answers a thread that
  is the writer with \<open>EDEADLK\<close>, which the code ignores, so that the refresh runs under the write
  lock and its unlock releases that one. A refresh inside a refresh never gets past
  \<open>xh_core_refresh_mutex\<close>.\<close>

definition rdlocked :: "core \<Rightarrow> lock_state" where
  "rdlocked c = (if blocker c = WrLocked then WrLocked else RdLocked)"

definition xh_core_refresh_impl :: "os \<Rightarrow> unit xcmd" where
  "xh_core_refresh_impl os = (\<lambda>(c, w).
     if blocker c = RdLocked then (Undef, (c, w))
     else
       bindc (updk (\<lambda>c. c\<lparr>blocker := rdlocked c\<rparr>)) (\<lambda>_.
       bindc (liftw (updc xh_maps_invalidate)) (\<lambda>_.
       bindc (updk (\<lambda>c. c\<lparr>refreshed := RB_NULL\<rparr>)) (\<lambda>_.
       bindc (xh_maps_iterate os (xh_core_maps_iterate_cb os)) (\<lambda>_.
       bindc (\<lambda>(c, w). remove_all_map_infos (rb_inorder (map_infos c)) (c, w)) (\<lambda>_.
       updk (\<lambda>c. c\<lparr>map_infos := refreshed c, refreshed := RB_NULL, blocker := Unlocked\<rparr>)))))) (c, w))"

section \<open>Life cycle\<close>

definition xh_core_block_refresh :: "unit xcmd" where
  "xh_core_block_refresh = (\<lambda>(c, w).
     let reenter_count = blocker_count c;
         c = (if tls_key c then c\<lparr>blocker_count := reenter_count + 1\<rparr> else c)
     in if reenter_count = 0
        then if blocker c \<noteq> Unlocked then (Undef, (c, w)) else (Ret (), (c\<lparr>blocker := WrLocked\<rparr>, w))
        else (Ret (), (c, w)))"

definition xh_core_unblock_refresh :: "unit xcmd" where
  "xh_core_unblock_refresh = (\<lambda>(c, w).
     let reenter_count = blocker_count c;
         reenter_count = (if 1 \<le> sint reenter_count then reenter_count - 1 else reenter_count);
         c = (if tls_key c then c\<lparr>blocker_count := reenter_count\<rparr> else c)
     in if reenter_count = 0
        then if blocker c = Unlocked then (Undef, (c, w)) else (Ret (), (c\<lparr>blocker := Unlocked\<rparr>, w))
        else (Ret (), (c, w)))"

definition xh_core_init_once :: "os \<Rightarrow> unit xcmd" where
  "xh_core_init_once os = (\<lambda>(c, w).
     if inited c then (Ret (), (c, w))
     else
       bindc (updk (\<lambda>c. c\<lparr>inited := True\<rparr>)) (\<lambda>_.
       bindc (xh_core_add_sigsegv_handler os) (\<lambda>r.
         if r \<noteq> 0 then retc ()
         else (\<lambda>(c, w).
           if \<not> os_key_create os w then (Ret (), (c, w))
           else if \<not> os_setspecific os w then (Ret (), (c\<lparr>tls_key := False, blocker_count := 0\<rparr>, w))
           else (Ret (), (c\<lparr>tls_key := True, blocker_count := 0, init_ok := True\<rparr>, w))))) (c, w))"

definition xh_core_init_async_once :: "os \<Rightarrow> unit xcmd" where
  "xh_core_init_async_once os = (\<lambda>(c, w).
     if async_inited c then (Ret (), (c, w))
     else if \<not> os_thread_create os w
     then (Ret (), (c\<lparr>async_inited := True, thread_running := False\<rparr>, w))
     else (Ret (), (c\<lparr>async_inited := True, thread_running := True, async_init_ok := True\<rparr>, w)))"

definition xh_core_refresh :: "os \<Rightarrow> bool \<Rightarrow> int xcmd" where
  "xh_core_refresh os async =
     bindc (xh_core_init_once os) (\<lambda>_ (c, w).
       if \<not> init_ok c then (Ret XH_ERRNO_UNKNOWN, (c, w))
       else if async then
         bindc (xh_core_init_async_once os) (\<lambda>_ (c, w).
           if \<not> async_init_ok c then (Ret XH_ERRNO_UNKNOWN, (c, w))
           else (Ret 0, (c\<lparr>thread_do := True\<rparr>, w))) (c, w)
       else bindc (xh_core_refresh_impl os) (\<lambda>_. retc 0) (c, w))"

text \<open>\<open>pthread_join\<close> returns once the refresh thread has left its loop.\<close>

definition xh_core_clear :: "unit xcmd" where
  "xh_core_clear =
     bindc (updk (\<lambda>c. if async_init_ok c then c\<lparr>thread_running := False, async_init_ok := False\<rparr> else c)) (\<lambda>_.
     bindc (updk (\<lambda>c. c\<lparr>async_inited := False\<rparr>)) (\<lambda>_.
     bindc (\<lambda>(c, w). (if init_ok c
         then bindc xh_core_del_sigsegv_handler (\<lambda>_. updk (\<lambda>c. c\<lparr>init_ok := False\<rparr>)) else retc ()) (c, w)) (\<lambda>_.
     bindc (updk (\<lambda>c. c\<lparr>inited := False\<rparr>)) (\<lambda>_.
     bindc (\<lambda>(c, w). remove_all_map_infos (rb_inorder (map_infos c)) (c, w)) (\<lambda>_.
     updk (\<lambda>c. c\<lparr>hook_infos := [], ignore_infos := []\<rparr>))))))"

definition xh_core_enable_debug :: "bool \<Rightarrow> unit xcmd" where
  "xh_core_enable_debug flag = updk (\<lambda>c. c\<lparr>log_priority := (if flag then 3 else 5)\<rparr>)"

definition xh_core_enable_sigsegv_protection :: "bool \<Rightarrow> unit xcmd" where
  "xh_core_enable_sigsegv_protection flag = updk (\<lambda>c. c\<lparr>sigsegv_enable := flag\<rparr>)"

section \<open>Hooking one library by hand\<close>

definition elf_open_format :: "scan_dir list" where
  "elf_open_format = [ScanHex True, ScanLit (CHR ''-''), ScanHex False, ScanWs, ScanStr 4, ScanWs,
     ScanHex True, ScanWs, ScanHex False, ScanLit (CHR '':''), ScanHex False, ScanWs,
     ScanDec False, ScanPos]"

text \<open>
  The checks on one line up to the path suffix, in a buffer of 512 bytes: the base address and
  the path where they pass. \<open>pathname_pos\<close> is the variable of that name before the line; it
  keeps its value where \<open>%n\<close> is not reached, and reading it before it was ever set is
  undefined. \<open>loaded\<close> is the check between the offset and the pathname, if there is one.
\<close>

definition open_line ::
    "(u64 \<Rightarrow> bool) \<Rightarrow> string \<Rightarrow> nat option \<Rightarrow> string \<Rightarrow> ((u64 \<times> string) option \<times> nat option) run" where
  "open_line loaded path_suffix pathname_pos line =
     (case sscanf elf_open_format (length line) line of (vals, pos) \<Rightarrow>
        let pathname_pos = (case pos of None \<Rightarrow> pathname_pos | Some _ \<Rightarrow> pos) in
        case vals of
          [VNum base_addr, VStr perm, VNum offset] \<Rightarrow>
            if nth_c perm 0 \<noteq> CHR ''r'' \<or> nth_c perm 3 \<noteq> CHR ''p'' \<or> offset \<noteq> 0 \<or> \<not> loaded base_addr
            then Ret (None, pathname_pos)
            else (case pathname_pos of
                None \<Rightarrow> Undef
              | Some p \<Rightarrow>
                  (case line_pathname 512 line p of
                     None \<Rightarrow> Ret (None, pathname_pos)
                   | Some pathname \<Rightarrow>
                       if nth_c pathname 0 = CHR ''['' \<or> length pathname < length path_suffix \<or>
                          drop (length pathname - length path_suffix) pathname \<noteq> path_suffix
                       then Ret (None, pathname_pos)
                       else Ret (Some (base_addr, pathname), pathname_pos)))
        | _ \<Rightarrow> Ret (None, pathname_pos))"

fun elf_open_loop :: "string \<Rightarrow> nat option \<Rightarrow> string list \<Rightarrow> (u64 \<times> string) option xcmd" where
  "elf_open_loop path_suffix pathname_pos [] = retc None"
| "elf_open_loop path_suffix pathname_pos (line # lines) =
     bindc (readc (\<lambda>_. open_line (\<lambda>_. True) path_suffix pathname_pos line)) (\<lambda>(found, pathname_pos).
       case found of
         None \<Rightarrow> elf_open_loop path_suffix pathname_pos lines
       | Some (base_addr, pathname) \<Rightarrow>
           bindc (xh_core_check_elf_header base_addr) (\<lambda>r.
             if r \<noteq> 0 then elf_open_loop path_suffix pathname_pos lines
             else retc (Some (base_addr, pathname))))"

definition xh_core_elf_open :: "os \<Rightarrow> string option \<Rightarrow> map_info option xcmd" where
  "xh_core_elf_open os path_suffix = (\<lambda>(c, w).
     case path_suffix of
       None \<Rightarrow> (Ret None, (c, w))
     | Some suffix \<Rightarrow>
         (case proc_maps w of
            None \<Rightarrow> (Ret None, (c, w))
          | Some content \<Rightarrow>
              if suffix = [] then (Ret None, (c, w))
              else
                bindc (elf_open_loop suffix None (file_lines 512 content)) (\<lambda>found. case found of
                    None \<Rightarrow> retc None
                  | Some (base_addr, pathname) \<Rightarrow>
                      bindc (liftw (malloc_c os)) (\<lambda>ok. if \<not> ok then retc None else
                      bindc (liftw (malloc_c os)) (\<lambda>ok. if \<not> ok then retc None else
                      bindc (updk (\<lambda>c. c\<lparr>open_handles := Suc (open_handles c)\<rparr>)) (\<lambda>_.
                      retc (Some \<lparr>mi_pathname = pathname, mi_base_addr = base_addr, mi_elf = zero_elf\<rparr>))))) (c, w)))"

text \<open>Freeing the path and the handle, which the caller does not use again.\<close>

definition xh_core_elf_close :: "map_info option \<Rightarrow> unit xcmd" where
  "xh_core_elf_close h_lib = (case h_lib of
     None \<Rightarrow> retc ()
   | Some mi \<Rightarrow> updk (\<lambda>c. c\<lparr>open_handles := open_handles c - 1\<rparr>))"

text \<open>The result and \<open>*mi\<close> afterwards.\<close>

definition xh_core_hook_single_sym_impl ::
    "os \<Rightarrow> map_info option \<Rightarrow> string option \<Rightarrow> u64 \<Rightarrow> u64 \<Rightarrow> (world, int) cmd" where
  "xh_core_hook_single_sym_impl os mi symbol new_func old_func =
     (case mi of
        None \<Rightarrow> retc XH_ERRNO_INVAL
      | Some mi \<Rightarrow>
          if symbol = None \<or> new_func = 0 then retc XH_ERRNO_INVAL
          else bindc (readc (\<lambda>w. xh_elf_init (w_mem w) (mi_elf mi) (mi_base_addr mi) (Some (mi_pathname mi))))
            (\<lambda>(ret, elf). if ret \<noteq> 0 then retc ret else xh_elf_hook os elf symbol new_func old_func))"

definition xh_core_got_hook_symbol ::
    "os \<Rightarrow> map_info option \<Rightarrow> string option \<Rightarrow> u64 \<Rightarrow> u64 \<Rightarrow> int xcmd" where
  "xh_core_got_hook_symbol os h_lib symbol new_func old_func =
     sigsegv_protect XH_ERRNO_SEGVERR (liftw (xh_core_hook_single_sym_impl os h_lib symbol new_func old_func))"

section \<open>Hooking through the export table\<close>

text \<open>\<open>xhook_ext.c\<close>. A symbol table entry holds \<open>st_value\<close> at offset 8 and is 24 bytes long.\<close>

definition xh_export_symtable_hook ::
    "os \<Rightarrow> string \<Rightarrow> u64 \<Rightarrow> string option \<Rightarrow> u64 \<Rightarrow> u64 \<Rightarrow> (world, int) cmd" where
  "xh_export_symtable_hook os pathname base_addr symbol_name handler original_address =
     (case symbol_name of
        None \<Rightarrow> retc XH_ERRNO_INVAL
      | Some symbol \<Rightarrow>
          if handler = 0 then retc XH_ERRNO_INVAL
          else bindc (readc (\<lambda>w. xh_elf_init (w_mem w) zero_elf base_addr (Some pathname))) (\<lambda>(error, self).
            if error \<noteq> 0 then retc error
            else bindc (readc (\<lambda>w. xh_elf_find_symidx_by_name (w_mem w) self symbol)) (\<lambda>found. case found of
                Inl error \<Rightarrow> retc error
              | Inr symidx \<Rightarrow>
                  let st_value = xe_symtab self + 24 * ucast symidx + 8 in
                  bindc (readc (\<lambda>w. ld64 (w_mem w) st_value)) (\<lambda>old_symaddr.
                  bindc (if original_address \<noteq> 0 then st64 original_address old_symaddr else retc ()) (\<lambda>_.
                  bindc (xh_util_get_addr_protect os st_value pathname) (\<lambda>(error, old_prot).
                    if error \<noteq> 0 then retc error
                    else bindc (xh_util_set_addr_protect os st_value (PROT_READ OR PROT_WRITE)) (\<lambda>error.
                      if error \<noteq> 0 then retc error
                      else bindc (st64 st_value (handler - xe_bias_addr self)) (\<lambda>_.
                        bindc (xh_util_flush_instruction_cache st_value) (\<lambda>_.
                        bindc (xh_util_set_addr_protect os st_value old_prot) (\<lambda>_. retc 0))))))))))"

text \<open>\<open>dladdr\<close> is asked before the pathname is taken; \<open>line\<close> and the positions start at zero.\<close>

fun find_library_loop :: "os \<Rightarrow> string \<Rightarrow> string list \<Rightarrow> (world, (u64 \<times> string) option) cmd" where
  "find_library_loop os owner_lib_name [] = retc None"
| "find_library_loop os owner_lib_name (line # lines) =
     bindc (readc (\<lambda>w. open_line (os_dladdr os w) (CHR ''/'' # owner_lib_name) (Some 0) line)) (\<lambda>(found, _).
       case found of
         None \<Rightarrow> find_library_loop os owner_lib_name lines
       | Some (base_addr, pathname) \<Rightarrow>
           bindc (readc (\<lambda>w. xh_elf_check_elfheader (w_mem w) base_addr)) (\<lambda>r.
             if r \<noteq> 0 then find_library_loop os owner_lib_name lines
             else retc (Some (base_addr, pathname))))"

definition xhook_find_library_base_addr :: "os \<Rightarrow> string \<Rightarrow> (world, int + (string \<times> u64)) cmd" where
  "xhook_find_library_base_addr os owner_lib_name = (\<lambda>w. case proc_maps w of
       None \<Rightarrow> (Ret (Inl XH_ERRNO_ELFINIT), w)
     | Some content \<Rightarrow>
         bindc (find_library_loop os owner_lib_name (file_lines 512 content)) (\<lambda>found. case found of
             None \<Rightarrow> retc (Inl XH_ERRNO_NOTFND)
           | Some (base_addr, pathname) \<Rightarrow> retc (Inr (pathname, base_addr))) w)"

definition xhook_export_symtable_hook ::
    "os \<Rightarrow> string \<Rightarrow> string option \<Rightarrow> u64 \<Rightarrow> u64 \<Rightarrow> (world, int) cmd" where
  "xhook_export_symtable_hook os owner_lib_name symbol_name handler original_address =
     bindc (xhook_find_library_base_addr os owner_lib_name) (\<lambda>found. case found of
         Inl _ \<Rightarrow> retc XH_ERRNO_NOTFND
       | Inr (path_name, base_addr) \<Rightarrow>
           xh_export_symtable_hook os path_name base_addr symbol_name handler original_address)"

section \<open>Public interface\<close>

text \<open>\<open>xhook.c\<close> and the forwarding functions of \<open>xhook_ext.c\<close>.\<close>

definition xhook_register :: "os \<Rightarrow> string option \<Rightarrow> string option \<Rightarrow> u64 \<Rightarrow> u64 \<Rightarrow> int xcmd" where
  "xhook_register = xh_core_register"
definition xhook_ignore :: "os \<Rightarrow> string option \<Rightarrow> string option \<Rightarrow> int xcmd" where
  "xhook_ignore = xh_core_ignore"
definition xhook_refresh :: "os \<Rightarrow> bool \<Rightarrow> int xcmd" where
  "xhook_refresh = xh_core_refresh"
definition xhook_clear :: "unit xcmd" where
  "xhook_clear = xh_core_clear"
definition xhook_enable_debug :: "bool \<Rightarrow> unit xcmd" where
  "xhook_enable_debug = xh_core_enable_debug"
definition xhook_enable_sigsegv_protection :: "bool \<Rightarrow> unit xcmd" where
  "xhook_enable_sigsegv_protection = xh_core_enable_sigsegv_protection"
definition xhook_block_refresh :: "unit xcmd" where
  "xhook_block_refresh = xh_core_block_refresh"
definition xhook_unblock_refresh :: "unit xcmd" where
  "xhook_unblock_refresh = xh_core_unblock_refresh"
definition xhook_grouped_register :: "os \<Rightarrow> 32 word \<Rightarrow> string option \<Rightarrow> string option \<Rightarrow> u64 \<Rightarrow> u64 \<Rightarrow> int xcmd" where
  "xhook_grouped_register = xh_core_grouped_register"
definition xhook_grouped_ignore :: "os \<Rightarrow> 32 word \<Rightarrow> string option \<Rightarrow> string option \<Rightarrow> int xcmd" where
  "xhook_grouped_ignore = xh_core_grouped_ignore"
definition xhook_elf_open :: "os \<Rightarrow> string option \<Rightarrow> map_info option xcmd" where
  "xhook_elf_open = xh_core_elf_open"
definition xhook_got_hook_symbol :: "os \<Rightarrow> map_info option \<Rightarrow> string option \<Rightarrow> u64 \<Rightarrow> u64 \<Rightarrow> int xcmd" where
  "xhook_got_hook_symbol = xh_core_got_hook_symbol"
definition xhook_elf_close :: "map_info option \<Rightarrow> unit xcmd" where
  "xhook_elf_close = xh_core_elf_close"

section \<open>The trees are ordered by their keys\<close>

lemma strcmp_less: "strcmp s t < 0 \<longleftrightarrow> s < t" and strcmp_greater: "0 < strcmp s t \<longleftrightarrow> t < s"
  by (induction s t rule: strcmp.induct) (auto simp: less_char_def)

interpretation map_tree: rb_keyed xh_core_map_info_cmp mi_pathname "\<lambda>_. True"
  by unfold_locales (simp_all add: xh_core_map_info_cmp_def strcmp_less strcmp_greater)

text \<open>The comparison of groups is the order of their ids where the difference does not overflow.\<close>

definition small_id :: "request_group \<Rightarrow> bool" where
  "small_id g \<longleftrightarrow> - (2 ^ 30) \<le> sint (rg_id g) \<and> sint (rg_id g) < 2 ^ 30"

abbreviation group_key :: "request_group \<Rightarrow> int" where
  "group_key g \<equiv> sint (rg_id g)"

lemma group_cmp_small:
  assumes "small_id a" "small_id b"
  shows "xh_core_request_group_cmp a b = sint (rg_id a) - sint (rg_id b)"
proof -
  have "sint (rg_id a - rg_id b) = signed_take_bit 31 (sint (rg_id a) - sint (rg_id b))"
    by (simp add: sint_word_ariths)
  also have "\<dots> = sint (rg_id a) - sint (rg_id b)"
    using assms by (intro signed_take_bit_int_eq_self) (auto simp: small_id_def)
  finally show ?thesis by (simp add: xh_core_request_group_cmp_def)
qed

interpretation group_tree: rb_keyed xh_core_request_group_cmp group_key small_id
  by unfold_locales (simp_all add: group_cmp_small)

section \<open>Ignore requests win\<close>

definition regex_hits :: "os \<Rightarrow> string \<Rightarrow> hook_info \<Rightarrow> bool" where
  "regex_hits os pathname hi \<longleftrightarrow> os_regexec os (hi_regex hi) pathname"

text \<open>A hook request applies to a library if its pattern matches and no matching ignore request
  names all symbols or its symbol.\<close>

definition applies :: "os \<Rightarrow> ignore_info list \<Rightarrow> string \<Rightarrow> hook_info \<Rightarrow> bool" where
  "applies os iis pathname hi \<longleftrightarrow>
     os_regexec os (hi_regex hi) pathname \<and>
     list_all (\<lambda>ii. os_regexec os (ii_regex ii) pathname \<longrightarrow>
       ii_symbol ii \<noteq> None \<and> ii_symbol ii \<noteq> Some (hi_symbol hi)) iis"

lemma scan_NotIgnored:
  "ignore_scan os pathname symbol iis = NotIgnored \<longleftrightarrow>
     list_all (\<lambda>ii. os_regexec os (ii_regex ii) pathname \<longrightarrow>
       ii_symbol ii \<noteq> None \<and> ii_symbol ii \<noteq> Some symbol) iis"
  by (induction iis) (auto split: option.split)

lemma scan_AllIgnored:
  "ignore_scan os pathname symbol iis = AllIgnored \<Longrightarrow>
     \<not> applies os iis pathname hi"
  by (induction iis) (auto simp: applies_def split: option.splits if_splits)

text \<open>A library is looked at exactly if some request applies to it, whatever the order in
  which hook and ignore requests were registered.\<close>

theorem matches_any_requests_iff:
  "is_current_pathname_matches_any_requests os his iis pathname \<longleftrightarrow> list_ex (applies os iis pathname) his"
proof (induction his)
  case (Cons hi his)
  show ?case
  proof (cases "os_regexec os (hi_regex hi) pathname")
    case True
    then show ?thesis
      using Cons scan_NotIgnored [of os pathname "hi_symbol hi" iis]
        scan_AllIgnored [of os pathname "hi_symbol hi" iis]
      by (cases "ignore_scan os pathname (hi_symbol hi) iis") (auto simp: applies_def list_ex_iff)
  qed (simp add: Cons applies_def)
qed simp

fun hook_each :: "os \<Rightarrow> xh_elf \<Rightarrow> hook_info list \<Rightarrow> (world, unit) cmd" where
  "hook_each os elf [] = retc ()"
| "hook_each os elf (hi # his) =
     bindc (xh_elf_hook os elf (Some (hi_symbol hi)) (hi_new_func hi) (hi_old_func hi)) (\<lambda>_. hook_each os elf his)"

text \<open>C35: the hooks written into a library are those of the requests that apply to it, in the order
  of their registration; the early return at an ignore-all request loses none.\<close>

theorem hook_spec_info_filter:
  "xh_core_hook_impl_with_spec_info os pathname elf his iis = hook_each os elf (filter (applies os iis pathname) his)"
proof (induction his)
  case (Cons hi his)
  show ?case
  proof (cases "os_regexec os (hi_regex hi) pathname")
    case True
    show ?thesis
    proof (cases "ignore_scan os pathname (hi_symbol hi) iis")
      case AllIgnored
      then have "\<not> applies os iis pathname h" for h by (rule scan_AllIgnored)
      with True AllIgnored show ?thesis by simp
    qed (use True Cons scan_NotIgnored [of os pathname "hi_symbol hi" iis] in \<open>auto simp: applies_def\<close>)
  qed (simp add: Cons applies_def)
qed simp

section \<open>Faults are caught where the handler is installed\<close>

definition protected :: "core \<Rightarrow> bool" where
  "protected c \<longleftrightarrow> sigsegv_enable c \<and> sigsegv_act c = XhHandler"

lemma protect_no_segv:
  assumes "protected c" and "\<And>s. sigsegv_act (fst (snd (m s))) = sigsegv_act (fst s) \<and>
    sigsegv_flag (fst (snd (m s))) = sigsegv_flag (fst s)"
  shows "fst (sigsegv_protect fault m (c, w)) \<noteq> Segv"
  using assms(1) assms(2) [of "(c\<lparr>sigsegv_flag := True\<rparr>, w)"]
  by (auto simp: sigsegv_protect_def protected_def xh_core_sigsegv_handler_def split: prod.splits run.splits)

text \<open>hooking one symbol of an opened library never ends the process with a SIGSEGV once the
  handler is installed and protection is on: a fault becomes \<open>XH_ERRNO_SEGVERR\<close>, and the flag
  that arms the handler is down again.\<close>

theorem got_hook_protected:
  assumes "protected c"
    and "xh_core_got_hook_symbol os h_lib symbol new_func old_func (c, w) = (r, (c', w'))"
  shows "r \<noteq> Segv \<and> (\<forall>x. r = Ret x \<longrightarrow> c' = c\<lparr>sigsegv_flag := False\<rparr> \<and>
    (fst (xh_core_hook_single_sym_impl os h_lib symbol new_func old_func w) = Segv \<longrightarrow> x = XH_ERRNO_SEGVERR))"
  using assms
  by (auto simp: xh_core_got_hook_symbol_def sigsegv_protect_def protected_def liftw_def
      xh_core_sigsegv_handler_def split: prod.splits run.splits)

section \<open>Request groups\<close>

abbreviation group_wf :: "core \<Rightarrow> bool" where
  "group_wf c \<equiv> rb_wf group_key small_id (request_groups c)"

abbreviation groups_map :: "core \<Rightarrow> int \<rightharpoonup> request_group" where
  "groups_map c \<equiv> rb_map group_key (request_groups c)"

lemma init_group_simps [simp]:
  "rg_id (xh_core_init_request_group i) = i" "rg_hook_infos (xh_core_init_request_group i) = []"
  "rg_ignore_infos (xh_core_init_request_group i) = []"
  by (simp_all add: xh_core_init_request_group_def)

lemma ensure_group_spec:
  assumes wf: "group_wf c" and small: "small_id (xh_core_init_request_group i)"
  shows "\<exists>ok c' w'. ensure_group os i (c, w) = (Ret ok, (c', w')) \<and> group_wf c' \<and>
    c' = c\<lparr>request_groups := request_groups c'\<rparr> \<and>
    (if groups_map c (sint i) = None \<and> ok
     then groups_map c' = (groups_map c)(sint i \<mapsto> xh_core_init_request_group i)
     else groups_map c' = groups_map c) \<and>
    (ok \<longrightarrow> groups_map c' (sint i) \<noteq> None)"
proof (cases "groups_map c (sint i)")
  case None
  with group_tree.find_spec [OF wf small] have f: "RB_FIND xh_core_request_group_cmp (request_groups c)
    (xh_core_init_request_group i) = None" by simp
  from group_tree.insert_new [OF wf small] None obtain t' where
    "RB_INSERT xh_core_request_group_cmp (request_groups c) (xh_core_init_request_group i) = Ret (None, t')"
    "rb_wf group_key small_id t'"
    "rb_map group_key t' = (groups_map c)(sint i \<mapsto> xh_core_init_request_group i)" by auto
  with None f wf show ?thesis
    by (cases "os_malloc os (allocs w)") (auto simp: ensure_group_def liftw_def malloc_c_def bindc_def)
next
  case (Some g)
  with group_tree.find_spec [OF wf small] wf show ?thesis by (auto simp: ensure_group_def)
qed

lemma register_impl_spec:
  "\<exists>r w'. xh_core_register_impl os q re sy nf ol (c, w) =
     (Ret r, ((if r = 0 then q (\<lambda>l. l @ [\<lparr>hi_regex = the re, hi_symbol = the sy, hi_new_func = nf, hi_old_func = ol\<rparr>]) c else c), w'))
     \<and> (r = 0 \<longrightarrow> re \<noteq> None \<and> sy \<noteq> None \<and> nf \<noteq> 0 \<and> os_regcomp os (the re)) \<and> r \<in> {0, XH_ERRNO_INVAL, XH_ERRNO_NOMEM}"
  by (cases re; cases sy)
    (auto simp: xh_core_register_impl_def bindc_def liftw_def malloc_c_def updk_def XH_ERRNO_INVAL_def XH_ERRNO_NOMEM_def)

lemma ignore_impl_spec:
  "\<exists>r w'. xh_core_ignore_impl os q re sy (c, w) =
     (Ret r, ((if r = 0 then q (\<lambda>l. l @ [\<lparr>ii_regex = the re, ii_symbol = sy\<rparr>]) c else c), w'))
     \<and> (r = 0 \<longrightarrow> re \<noteq> None \<and> os_regcomp os (the re)) \<and> r \<in> {0, XH_ERRNO_INVAL, XH_ERRNO_NOMEM}"
  by (cases re; cases sy)
    (auto simp: xh_core_ignore_impl_def bindc_def liftw_def malloc_c_def updk_def XH_ERRNO_INVAL_def XH_ERRNO_NOMEM_def)

lemma sint_eq_iff: "sint a = sint b \<longleftrightarrow> (a :: 32 word) = b"
proof
  assume "sint a = sint b"
  then have "(of_int (sint a) :: 32 word) = of_int (sint b)" by (rule arg_cong)
  then show "a = b" by simp
qed simp

lemma update_group_spec:
  assumes wf: "group_wf c" and "\<And>g. rg_id (f g) = rg_id g"
  shows "group_wf (update_group i f c)"
    "update_group i f c = c\<lparr>request_groups := request_groups (update_group i f c)\<rparr>"
    "groups_map (update_group i f c) = (\<lambda>k. if k = sint i then map_option f (groups_map c k) else groups_map c k)"
proof -
  let ?h = "\<lambda>g. if rg_id g = i then f g else g"
  have rg: "request_groups (update_group i f c) = map_rb_tree ?h (request_groups c)"
    by (simp add: update_group_def)
  show "group_wf (update_group i f c)"
    unfolding rg using wf by (rule map_tree_wf) (auto simp: assms(2) small_id_def)
  show "update_group i f c = c\<lparr>request_groups := request_groups (update_group i f c)\<rparr>"
    by (cases c) (simp add: update_group_def)
  show "groups_map (update_group i f c) = (\<lambda>k. if k = sint i then map_option f (groups_map c k) else groups_map c k)"
  proof
    fix k
    have key: "rb_map group_key t k = Some g \<Longrightarrow> group_key g = k" for t g
      by (auto simp: rb_map_def dest: map_of_SomeD)
    have "groups_map (update_group i f c) k = map_option ?h (groups_map c k)"
      unfolding rg by (rule map_tree_map) (simp add: assms(2))
    also have "\<dots> = (if k = sint i then map_option f (groups_map c k) else groups_map c k)"
    proof (cases "groups_map c k")
      case (Some g)
      then have "rg_id g = i \<longleftrightarrow> k = sint i" using key [OF Some] sint_eq_iff [of "rg_id g" i] by auto
      with Some show ?thesis by (cases "k = sint i") simp_all
    qed auto
    finally show "groups_map (update_group i f c) k = (if k = sint i then map_option f (groups_map c k) else groups_map c k)" .
  qed
qed

text \<open>The group of an id, or the one that is created for it.\<close>

definition group_of :: "core \<Rightarrow> 32 word \<Rightarrow> request_group" where
  "group_of c i = (case groups_map c (sint i) of None \<Rightarrow> xh_core_init_request_group i | Some g \<Rightarrow> g)"

text \<open>C40: registering a hook in a group returns 0, \<open>XH_ERRNO_INVAL\<close> or \<open>XH_ERRNO_NOMEM\<close> and keeps the
  tree of groups well formed. On success the request is the last one of the group of that id,
  which is created if it was missing; every other group, and everything else, is as before. On an
  error the requests are unchanged, but an empty group may have been created. The id of the group and
  those already in the tree are between -2^30 and 2^30 - 1 (\<open>small_id\<close>): beyond, the subtraction in
  \<open>xh_core_request_group_cmp\<close> (\<open>xh_core.c\<close>:101) can overflow and the property is false, as
  \<open>group_id_overflow\<close> below shows with eight groups.\<close>

theorem grouped_register_correct:
  assumes "group_wf c" and "small_id (xh_core_init_request_group i)"
  shows "\<exists>r c' w'. xh_core_grouped_register os i re sy nf ol (c, w) = (Ret r, (c', w')) \<and>
    r \<in> {0, XH_ERRNO_INVAL, XH_ERRNO_NOMEM} \<and> group_wf c' \<and> c' = c\<lparr>request_groups := request_groups c'\<rparr> \<and>
    (r = 0 \<longrightarrow> groups_map c' = (groups_map c)(sint i \<mapsto> (group_of c i)\<lparr>rg_hook_infos := rg_hook_infos (group_of c i) @
       [\<lparr>hi_regex = the re, hi_symbol = the sy, hi_new_func = nf, hi_old_func = ol\<rparr>]\<rparr>)) \<and>
    (r \<noteq> 0 \<longrightarrow> groups_map c' = groups_map c \<or>
       groups_map c (sint i) = None \<and> groups_map c' = (groups_map c)(sint i \<mapsto> xh_core_init_request_group i))"
proof -
  from ensure_group_spec [OF assms, of os w] obtain ok c1 w1 where
    e: "ensure_group os i (c, w) = (Ret ok, (c1, w1))" "group_wf c1" "c1 = c\<lparr>request_groups := request_groups c1\<rparr>"
    "if groups_map c (sint i) = None \<and> ok
     then groups_map c1 = (groups_map c)(sint i \<mapsto> xh_core_init_request_group i) else groups_map c1 = groups_map c"
    "ok \<longrightarrow> groups_map c1 (sint i) \<noteq> None" by blast
  show ?thesis
  proof (cases ok)
    case False
    with e show ?thesis by (auto simp: xh_core_grouped_register_def XH_ERRNO_NOMEM_def)
  next
    case True
    let ?hi = "\<lparr>hi_regex = the re, hi_symbol = the sy, hi_new_func = nf, hi_old_func = ol\<rparr>"
    let ?f = "rg_hook_infos_update (\<lambda>l. l @ [?hi])"
    from register_impl_spec [of os "\<lambda>f. update_group i (rg_hook_infos_update f)" re sy nf ol c1 w1]
    obtain r w' where r: "xh_core_grouped_register os i re sy nf ol (c, w) =
        (Ret r, ((if r = 0 then update_group i ?f c1 else c1), w'))" "r \<in> {0, XH_ERRNO_INVAL, XH_ERRNO_NOMEM}"
      using e(1) True by (auto simp: xh_core_grouped_register_def)
    have g1: "groups_map c1 (sint i) = Some (group_of c i)"
      using e(4,5) True by (auto simp: group_of_def split: option.splits if_splits)
    have "\<And>g. rg_id (?f g) = rg_id g" by simp
    note u = update_group_spec [OF e(2) this, of i]
    have "groups_map (update_group i ?f c1) = (groups_map c)(sint i \<mapsto> ?f (group_of c i))"
      unfolding u(3) using g1 e(4) by (auto simp: fun_eq_iff split: if_splits)
    moreover have "update_group i ?f c1 = c\<lparr>request_groups := request_groups (update_group i ?f c1)\<rparr>"
      using u(2) e(3) by (metis core.update_convs(6) core.surjective)
    ultimately show ?thesis using r u(1) e True by (auto split: if_splits)
  qed
qed

text \<open>An instance: the first group, on a kernel that always succeeds.\<close>

theorem grouped_register_correct_witness:
  "\<exists>c' w'. xh_core_grouped_register plain_os 7 (Some ''libc.so'') (Some ''open'') 0x1000 0 (core0, sample_world) = (Ret 0, (c', w')) \<and>
     groups_map c' 7 = Some \<lparr>rg_id = 7, rg_hook_infos = [\<lparr>hi_regex = ''libc.so'', hi_symbol = ''open'', hi_new_func = 0x1000, hi_old_func = 0\<rparr>],
       rg_ignore_infos = []\<rparr>"
proof -
  have "group_wf core0" by (simp add: core0_def)
  moreover have "small_id (xh_core_init_request_group 7)" by (simp add: small_id_def)
  moreover have "fst (xh_core_grouped_register plain_os 7 (Some ''libc.so'') (Some ''open'') 0x1000 0 (core0, sample_world)) = Ret 0"
    by code_simp
  moreover have "groups_map core0 = Map.empty" by (simp add: core0_def rb_map_def)
  ultimately show ?thesis
    using grouped_register_correct [of core0 7 plain_os "Some ''libc.so''" "Some ''open''" "0x1000" 0 sample_world]
    by (auto simp: group_of_def xh_core_init_request_group_def dest: fun_cong [where x = 7])
qed

text \<open>Group ids whose difference overflows: a group that is in the tree but is no longer found.\<close>

definition insert_groups :: "32 word list \<Rightarrow> request_group rb_tree run" where
  "insert_groups ids = foldl (\<lambda>m i. bindr m (\<lambda>t.
     bindr (RB_INSERT xh_core_request_group_cmp t (xh_core_init_request_group i)) (\<lambda>(_, t'). Ret t'))) (Ret RB_NULL) ids"

definition lossy_ids :: "32 word list" where
  "lossy_ids = [0xb0000000, 0xc0000000, 0x20000000, 0xa0000000, 0x40000000, 0x50000000, 0x90000000, 0x80000000]"

text \<open>with group ids far apart the comparison by subtraction overflows and is no order: after
  eight groups were created, group 0x20000000 is in the tree and a search for it finds nothing, so
  the next request for it goes to a second group of that id.\<close>

theorem group_id_overflow:
  "\<exists>t. insert_groups lossy_ids = Ret t \<and> 0x20000000 \<in> set (map rg_id (rb_inorder t)) \<and>
     RB_FIND xh_core_request_group_cmp t (xh_core_init_request_group 0x20000000) = None"
proof -
  have "(case insert_groups lossy_ids of Ret t \<Rightarrow> 0x20000000 \<in> set (map rg_id (rb_inorder t)) \<and>
     RB_FIND xh_core_request_group_cmp t (xh_core_init_request_group 0x20000000) = None | _ \<Rightarrow> False)"
    by code_simp
  then show ?thesis by (cases "insert_groups lossy_ids") auto
qed

section \<open>Life cycle\<close>

text \<open>An opened library whose header is not mapped, before the first refresh installs the handler.\<close>

definition stray_lib :: map_info where
  "stray_lib = \<lparr>mi_pathname = ''/a.so'', mi_base_addr = 0x5000, mi_elf = zero_elf\<rparr>"

text \<open>Protection is on by default, but the handler is installed by the first refresh only: until
  then a fault while hooking an opened library ends the process.\<close>

theorem got_hook_unprotected:
  "sigsegv_enable core0 \<and>
   fst (xh_core_got_hook_symbol plain_os (Some stray_lib) (Some ''f'') 0x1000 0 (core0, sample_world\<lparr>w_mem := \<lambda>_. None\<rparr>)) = Segv"
  by code_simp

theorem got_hook_protected_witness:
  "\<exists>w'. xh_core_got_hook_symbol plain_os (Some stray_lib) (Some ''f'') 0x1000 0
     (core0\<lparr>sigsegv_act := XhHandler\<rparr>, sample_world\<lparr>w_mem := \<lambda>_. None\<rparr>) =
   (Ret XH_ERRNO_SEGVERR, (core0\<lparr>sigsegv_act := XhHandler, sigsegv_flag := False\<rparr>, w'))"
proof -
  let ?s = "(core0\<lparr>sigsegv_act := XhHandler\<rparr>, sample_world\<lparr>w_mem := \<lambda>_. None\<rparr>)"
  obtain r c' w' where e: "xh_core_got_hook_symbol plain_os (Some stray_lib) (Some ''f'') 0x1000 0 ?s = (r, (c', w'))"
    by (metis prod.collapse)
  have "fst (xh_core_got_hook_symbol plain_os (Some stray_lib) (Some ''f'') 0x1000 0 ?s) = Ret 1009"
    by code_simp
  with e have "r = Ret XH_ERRNO_SEGVERR" by (simp add: XH_ERRNO_SEGVERR_def)
  moreover have "protected (core0\<lparr>sigsegv_act := XhHandler\<rparr>)" by (simp add: protected_def core0_def)
  ultimately show ?thesis using got_hook_protected [OF _ e] e by (simp add: core0_def)
qed

text \<open>When initialising fails, the refresh reports \<open>XH_ERRNO_UNKNOWN\<close>, and so does every later
  refresh, without trying again or changing anything, whatever the kernel would now answer, until
  the library is cleared.\<close>

theorem init_failure_sticky:
  assumes "xh_core_init_once os (c, w) = (Ret (), (c', w'))" and "\<not> init_ok c'"
  shows "xh_core_refresh os async (c, w) = (Ret XH_ERRNO_UNKNOWN, (c', w')) \<and>
    xh_core_refresh os2 async2 (c', w2) = (Ret XH_ERRNO_UNKNOWN, (c', w2))"
proof -
  have "inited c'"
    using assms(1) by (auto simp: xh_core_init_once_def xh_core_add_sigsegv_handler_def updk_def bindc_def
        split: if_splits option.splits)
  then have "xh_core_init_once os2 (c', w2) = (Ret (), (c', w2))" by (simp add: xh_core_init_once_def)
  with assms show ?thesis by (simp add: xh_core_refresh_def)
qed

definition no_key_os :: os where
  "no_key_os = plain_os\<lparr>os_key_create := \<lambda>w. False\<rparr>"

theorem init_failure_sticky_witness:
  "\<exists>c' w'. xh_core_refresh no_key_os False (core0, sample_world) = (Ret XH_ERRNO_UNKNOWN, (c', w')) \<and>
     xh_core_refresh plain_os False (c', w') = (Ret XH_ERRNO_UNKNOWN, (c', w'))"
proof -
  have "xh_core_init_once no_key_os (core0, sample_world) =
      (Ret (), (core0\<lparr>inited := True, sigsegv_act := XhHandler\<rparr>, sample_world))"
    by (simp add: xh_core_init_once_def xh_core_add_sigsegv_handler_def updk_def bindc_def no_key_os_def
        plain_os_def core0_def)
  from init_failure_sticky [OF this] show ?thesis by (simp add: core0_def)
qed

lemma remove_all_spec:
  "rb_wf mi_pathname (\<lambda>_. True) (map_infos c) \<Longrightarrow> mis = rb_inorder (map_infos c) \<Longrightarrow>
     remove_all_map_infos mis (c, w) = (Ret (), (c\<lparr>map_infos := RB_NULL\<rparr>, w))"
proof (induction mis arbitrary: c)
  case Nil
  then have "map_infos c = RB_NULL" by (cases "map_infos c") simp_all
  then show ?case by (cases c) simp
next
  case (Cons mi mis)
  let ?t = "map_infos c"
  have "rb_map mi_pathname ?t (mi_pathname mi) = Some mi"
    using Cons.prems(2) by (simp add: rb_map_def flip: Cons.prems(2))
  from map_tree.remove_present [OF Cons.prems(1) TrueI this] obtain t' xs ys where
    t': "RB_REMOVE xh_core_map_info_cmp ?t mi = Ret t'" "rb_wf mi_pathname (\<lambda>_. True) t'"
      "rb_inorder ?t = xs @ mi # ys" "rb_inorder t' = xs @ ys" by blast
  have "sorted_wrt (<) (map mi_pathname (mi # mis))"
    using Cons.prems by (simp add: rb_wf_def)
  then have "mi \<notin> set mis" by auto
  with t'(3) Cons.prems(2) have "xs = []" by (cases xs) auto
  with t' Cons.prems(2) have "mis = rb_inorder t'" by simp
  with Cons.IH [of "c\<lparr>map_infos := t'\<rparr>"] t'(1,2) show ?case
    by (simp add: remove_map_info_def)
qed

text \<open>Clearing forgets every library, hook request and ignore request, stops the refresh thread
  and lets the next refresh initialise again; the request groups stay registered.\<close>

theorem clear_correct:
  assumes "rb_wf mi_pathname (\<lambda>_. True) (map_infos c)"
  shows "\<exists>c'. xh_core_clear (c, w) = (Ret (), (c', w)) \<and> map_infos c' = RB_NULL \<and> hook_infos c' = [] \<and>
    ignore_infos c' = [] \<and> \<not> inited c' \<and> \<not> init_ok c' \<and> \<not> async_inited c' \<and> \<not> async_init_ok c' \<and>
    (async_init_ok c \<longrightarrow> \<not> thread_running c') \<and> request_groups c' = request_groups c"
proof -
  have "map_infos c1 = map_infos c \<Longrightarrow>
      remove_all_map_infos (rb_inorder (map_infos c)) (c1, w) = (Ret (), (c1\<lparr>map_infos := RB_NULL\<rparr>, w))" for c1
    using assms by (intro remove_all_spec) simp_all
  then show ?thesis
    by (auto simp: xh_core_clear_def bindc_def updk_def xh_core_del_sigsegv_handler_def)
qed

theorem clear_correct_witness:
  "\<exists>c'. xh_core_clear (core0\<lparr>request_groups := RB_NODE RB_BLACK RB_NULL (xh_core_init_request_group 7) RB_NULL\<rparr>, sample_world) =
     (Ret (), (c', sample_world)) \<and> request_groups c' \<noteq> RB_NULL"
  using clear_correct [of "core0\<lparr>request_groups := RB_NODE RB_BLACK RB_NULL (xh_core_init_request_group 7) RB_NULL\<rparr>" sample_world]
  by (auto simp: core0_def)

section \<open>Nested blocking\<close>

primrec repeat_c :: "nat \<Rightarrow> unit xcmd \<Rightarrow> unit xcmd" where
  "repeat_c 0 m = retc ()"
| "repeat_c (Suc n) m = bindc m (\<lambda>_. repeat_c n m)"

definition blocked :: "core \<Rightarrow> nat \<Rightarrow> core" where
  "blocked c n = c\<lparr>blocker_count := of_nat n, blocker := (if n = 0 then Unlocked else WrLocked)\<rparr>"

lemma sint_of_nat_small: "n < 2 ^ 31 \<Longrightarrow> sint (of_nat n :: 32 word) = int n"
  by (simp add: signed_of_nat signed_take_bit_int_eq_self)

lemma of_nat_0_iff: "n < 2 ^ 31 \<Longrightarrow> (of_nat n :: 32 word) = 0 \<longleftrightarrow> n = 0"
  using sint_of_nat_small [of n] by auto

lemma block_one: "tls_key c \<Longrightarrow> n < 2 ^ 31 \<Longrightarrow>
    xh_core_block_refresh (blocked c n, w) = (Ret (), (blocked c (Suc n), w))"
  by (auto simp: xh_core_block_refresh_def blocked_def of_nat_0_iff add.commute)

lemma unblock_one: "tls_key c \<Longrightarrow> Suc n < 2 ^ 31 \<Longrightarrow>
    xh_core_unblock_refresh (blocked c (Suc n), w) = (Ret (), (blocked c n, w))"
  using sint_of_nat_small [of "Suc n"]
  by (auto simp: xh_core_unblock_refresh_def blocked_def of_nat_0_iff)

lemma block_many: "tls_key c \<Longrightarrow> k + n < 2 ^ 31 \<Longrightarrow>
    repeat_c n xh_core_block_refresh (blocked c k, w) = (Ret (), (blocked c (k + n), w))"
  by (induction n arbitrary: k) (simp_all add: block_one)

lemma unblock_many: "tls_key c \<Longrightarrow> k + n < 2 ^ 31 \<Longrightarrow>
    repeat_c n xh_core_unblock_refresh (blocked c (k + n), w) = (Ret (), (blocked c k, w))"
  by (induction n) (simp_all add: unblock_one)

text \<open>Blocking is re-entrant: after n nested blocks and k of the matching unblocks the calling
  thread still holds the blocker for writing, unless k = n, when it is free again.\<close>

theorem block_nesting:
  assumes "tls_key c" and "blocker_count c = 0" and "blocker c = Unlocked" and "k \<le> n" and "n < 2 ^ 31"
  shows "bindc (repeat_c n xh_core_block_refresh) (\<lambda>_. repeat_c k xh_core_unblock_refresh) (c, w) =
    (Ret (), (c\<lparr>blocker_count := of_nat (n - k), blocker := (if n = k then Unlocked else WrLocked)\<rparr>, w))"
proof -
  have "blocked c 0 = c" using assms by (cases c) (simp add: blocked_def)
  with block_many [of c 0 n w] unblock_many [of c "n - k" k w] assms show ?thesis
    by (auto simp: blocked_def [of c "n - k"])
qed

theorem block_nesting_witness:
  "bindc (repeat_c 2 xh_core_block_refresh) (\<lambda>_. repeat_c 1 xh_core_unblock_refresh)
     (core0\<lparr>tls_key := True\<rparr>, sample_world) =
   (Ret (), (core0\<lparr>tls_key := True, blocker_count := 1, blocker := WrLocked\<rparr>, sample_world))"
  using block_nesting [of "core0\<lparr>tls_key := True\<rparr>" 1 2 sample_world] by (simp add: core0_def)

text \<open>An unblock without a block unlocks a lock that the thread does not hold, instead of doing
  nothing. What that does to the other threads is outside the state of one thread (\<open>Undef\<close> here); the
  theory \<open>XhThreads\<close> has it.\<close>

theorem unblock_unheld:
  "fst (xh_core_unblock_refresh (core0\<lparr>tls_key := True\<rparr>, sample_world)) = Undef"
  by (simp add: xh_core_unblock_refresh_def core0_def)

end
