(* ===== verification/XhRefresh.thy ===== *)
theory XhRefresh
  imports XhCore
begin

text \<open>
  What a refresh (\<open>xh_core_refresh_impl\<close>) leaves behind: the tree of libraries holds, for every
  path, the first mapping that passed the checks, and a refresh that finds nothing new changes
  nothing.
\<close>

section \<open>Commands that preserve a property of the state\<close>

definition preserves :: "('s \<Rightarrow> bool) \<Rightarrow> ('s, 'a) cmd \<Rightarrow> bool" where
  "preserves P m \<longleftrightarrow> (\<forall>s. P s \<longrightarrow> P (snd (m s)))"

lemma preservesI: "(\<And>s. P s \<Longrightarrow> P (snd (m s))) \<Longrightarrow> preserves P m"
  by (simp add: preserves_def)

lemma preservesD: "preserves P m \<Longrightarrow> P s \<Longrightarrow> m s = (r, s') \<Longrightarrow> P s'"
  by (metis preserves_def snd_conv)

lemma preserves_bindc:
  assumes "preserves P m" "\<And>x. preserves P (f x)"
  shows "preserves P (bindc m f)"
proof (rule preservesI)
  fix s
  assume s: "P s"
  obtain r s' where m: "m s = (r, s')" by fastforce
  from preservesD [OF assms(1) s m] have "P s'" .
  with m assms(2) show "P (snd (bindc m f s))"
    by (cases r) (simp_all add: preserves_def)
qed

lemma preserves_retc: "preserves P (retc x)" and preserves_readc: "preserves P (readc g)"
  by (simp_all add: preserves_def)

lemma preserves_updc: "(\<And>s. P s \<Longrightarrow> P (h s)) \<Longrightarrow> preserves P (updc h)"
  by (simp add: preserves_def)

lemma preserves_if: "(c \<Longrightarrow> preserves P a) \<Longrightarrow> (\<not> c \<Longrightarrow> preserves P b) \<Longrightarrow> preserves P (if c then a else b)"
  by simp

lemma preserves_split: "(\<And>a b. preserves P (f a b)) \<Longrightarrow> preserves P (case p of (a, b) \<Rightarrow> f a b)"
  by (cases p) simp

lemma preserves_sum:
  "(\<And>a. preserves P (f a)) \<Longrightarrow> (\<And>b. preserves P (g b)) \<Longrightarrow> preserves P (case x of Inl a \<Rightarrow> f a | Inr b \<Rightarrow> g b)"
  by (cases x) simp_all

lemmas preserves_intros = preserves_bindc preserves_retc preserves_readc preserves_updc preserves_if
  preserves_split preserves_sum

section \<open>The cached maps while hooks are written\<close>

text \<open>The cache is valid and holds the given entries.\<close>

definition steady :: "maps_item list \<Rightarrow> world \<Rightarrow> bool" where
  "steady its w \<longleftrightarrow> maps_invalidated w \<and> maps_ok w \<and> maps_items w = its"

lemma steady_upd [simp]:
  "steady its (w\<lparr>w_mem := m\<rparr>) = steady its w" "steady its (w\<lparr>proc_maps := pm\<rparr>) = steady its w"
  "steady its (w\<lparr>flushed := fl\<rparr>) = steady its w" "steady its (w\<lparr>allocs := k\<rparr>) = steady its w"
  "steady its (w\<lparr>access_lock := al\<rparr>) = steady its w" "steady its (w\<lparr>access_locked := b\<rparr>) = steady its w"
  by (simp_all add: steady_def maps_ok_def maps_items_def)

lemma steady_locks [simp]:
  "steady its (xh_lock_write_accesslock w) = steady its w" "steady its (xh_lock_read_accesslock w) = steady its w"
  "steady its (xh_unlock_accesslock w) = steady its w"
  by (simp_all add: xh_lock_write_accesslock_def xh_lock_read_accesslock_def xh_unlock_accesslock_def)

lemma steady_protect: "preserves (steady its) (xh_util_get_addr_protect os addr pathname)"
proof (rule preservesI)
  fix w
  assume st: "steady its w"
  then have mi: "maps_ok w" "maps_invalidated w" by (simp_all add: steady_def)
  obtain w' where "xh_maps_iterate os (pure_cb (xh_util_get_mem_protect_maps_iter_cb addr (addr + 8) pathname))
      (\<lparr>pd_prot = 0, pd_load0 = True, pd_found_all = False\<rparr>, w) =
      (case iter_items (xh_util_get_mem_protect_maps_iter_cb addr (addr + 8) pathname) (maps_items w')
         \<lparr>pd_prot = 0, pd_load0 = True, pd_found_all = False\<rparr> of (r, d') \<Rightarrow> (Ret r, (d', w')))"
    "maps_items w' = maps_items w" "maps_ok w'" "maps_invalidated w'"
    by (rule xh_maps_iterate_pure [OF mi(1) disjI1, OF mi(2)]) (use mi in simp)
  with st show "steady its (snd (xh_util_get_addr_protect os addr pathname w))"
    by (simp add: xh_util_get_addr_protect_def xh_util_get_mem_protect_def steady_def split: prod.split)
qed

lemma steady_mprotect: "kernel_laws os \<Longrightarrow> preserves (steady its) (xh_util_set_addr_protect os addr prot)"
  by (rule preservesI) (auto simp: xh_util_set_addr_protect_def split: prod.splits elim!: kernel_mprotect)

lemma steady_write: "kernel_laws os \<Longrightarrow> preserves (steady its) (xh_util_write_memory_safely os addr buf)"
proof (rule preservesI)
  fix w
  assume laws: "kernel_laws os" and st: "steady its w"
  obtain n w' where n: "os_vm_writev os w addr buf = (n, w')" by fastforce
  with laws have "(n < 0 \<longrightarrow> w' = w) \<and> (0 \<le> n \<longrightarrow> w' = w\<lparr>w_mem := stbytes (w_mem w) addr (take (nat n) buf)\<rparr>)"
    by (auto simp: kernel_laws_def split: prod.splits)
  with n st show "steady its (snd (xh_util_write_memory_safely os addr buf w))"
    by (cases "n < 0") (auto simp: xh_util_write_memory_safely_def)
qed

lemma steady_st64: "preserves (steady its) (st64 a v)"
  by (rule preservesI) (auto simp: st64_def split: run.split)

lemma steady_flush: "preserves (steady its) (xh_util_flush_instruction_cache a)"
  by (simp add: preserves_def xh_util_flush_instruction_cache_def)

lemma steady_find_and_replace:
  "kernel_laws os \<Longrightarrow> preserves (steady its) (xh_elf_find_and_replace_func os e plt new_func old_func i rel)"
  unfolding xh_elf_find_and_replace_func_def xh_elf_replace_function_def Let_def
  by (intro preserves_intros steady_protect steady_mprotect steady_write steady_st64 steady_flush)

lemma reloc_loop_preserves:
  assumes "\<And>rel. preserves P (body rel)" "P w" "reloc_loop nx body brk it w = Some (r, w')"
  shows "P w'"
proof -
  let ?Q = "\<lambda>nx body brk it w rw. (\<forall>rel. preserves P (body rel)) \<longrightarrow> P w \<longrightarrow> P (snd rw)"
  have "?Q nx body brk it w (r, w')"
    by (rule reloc_loop.raw_induct [where P = ?Q, OF _ assms(3)])
      (auto split: prod.splits run.splits option.splits if_splits; meson preservesD)
  with assms(1,2) show ?thesis by simp
qed

lemma run_loop_preserves:
  "(\<And>rel. preserves P (body rel)) \<Longrightarrow> preserves P (\<lambda>w. run_loop (reloc_loop nx body brk it w) w)"
  by (rule preservesI) (auto simp: run_loop_def split: option.split intro: reloc_loop_preserves [of P body])

lemma hook_plain_preserves:
  "(\<And>rel. preserves P (body rel)) \<Longrightarrow> preserves P (hook_plain e body brk rel rel_sz)"
proof (rule preservesI)
  fix s
  assume b: "\<And>rel. preserves P (body rel)" and s: "P s"
  have "P (snd (run_loop (reloc_loop plain_next body brk it s) s))" for it
    using run_loop_preserves [of P body plain_next brk it, OF b] s by (simp add: preserves_def)
  with s show "P (snd (hook_plain e body brk rel rel_sz s))" by (simp add: hook_plain_def)
qed

lemma hook_packed_preserves:
  assumes "\<And>rel. preserves P (body rel)"
  shows "preserves P (hook_packed e body)"
proof -
  have "preserves P (bindc (readc (\<lambda>_. r)) (\<lambda>_ w. run_loop (reloc_loop nx body False it w) w))"
    for r :: "int run" and nx :: "mem \<Rightarrow> packed_iter \<Rightarrow> _" and it
    by (intro preserves_bindc preserves_readc run_loop_preserves assms)
  then show ?thesis
    by (auto simp: preserves_def hook_packed_def split: prod.split)
qed

lemma steady_elf_hook:
  assumes "kernel_laws os"
  shows "preserves (steady its) (xh_elf_hook os e symbol new_func old_func)"
  unfolding xh_elf_hook_def
  by (cases symbol; simp only: option.case)
    (intro preserves_intros hook_plain_preserves hook_packed_preserves steady_find_and_replace assms)+

lemma steady_hook_each: "kernel_laws os \<Longrightarrow> preserves (steady its) (hook_each os e his)"
  by (induction his) (auto intro!: preserves_intros steady_elf_hook)

lemma steady_hook_groups: "kernel_laws os \<Longrightarrow> preserves (steady its) (hook_groups os pathname e gs)"
  by (induction gs) (auto simp: hook_spec_info_filter intro!: preserves_intros steady_hook_each)

lemma steady_hook_impl: "kernel_laws os \<Longrightarrow> preserves (steady its) (xh_core_hook_impl os c mi)"
  unfolding xh_core_hook_impl_def hook_spec_info_filter
  by (intro preserves_intros steady_hook_each steady_hook_groups)


section \<open>One library\<close>

abbreviation tree_wf :: "map_info rb_tree \<Rightarrow> bool" where
  "tree_wf \<equiv> rb_wf mi_pathname (\<lambda>_. True)"

abbreviation tree_map :: "map_info rb_tree \<Rightarrow> string \<rightharpoonup> map_info" where
  "tree_map \<equiv> rb_map mi_pathname"

text \<open>The base address recorded for each path.\<close>

definition bases :: "map_info rb_tree \<Rightarrow> string \<rightharpoonup> u64" where
  "bases t = map_option mi_base_addr \<circ> tree_map t"

text \<open>What a refresh works with: two well-formed trees with no path in common.\<close>

definition trees_ok :: "core \<Rightarrow> bool" where
  "trees_ok c \<longleftrightarrow> tree_wf (map_infos c) \<and> tree_wf (refreshed c) \<and>
     dom (tree_map (map_infos c)) \<inter> dom (tree_map (refreshed c)) = {}"

text \<open>Everything but the trees and the flag of the handler.\<close>

definition same_setup :: "core \<Rightarrow> core \<Rightarrow> bool" where
  "same_setup c c' \<longleftrightarrow>
     c' = c\<lparr>map_infos := map_infos c', refreshed := refreshed c', sigsegv_flag := sigsegv_flag c'\<rparr>"

lemma same_setup_refl [simp]: "same_setup c c"
  by (simp add: same_setup_def)

lemma same_setup_upd [simp]:
  "same_setup c (c'\<lparr>map_infos := t\<rparr>) = same_setup c c'" "same_setup c (c'\<lparr>refreshed := t\<rparr>) = same_setup c c'"
  "same_setup c (c'\<lparr>sigsegv_flag := b\<rparr>) = same_setup c c'"
  "same_setup (c\<lparr>map_infos := t\<rparr>) c' = same_setup c c'" "same_setup (c\<lparr>refreshed := t\<rparr>) c' = same_setup c c'"
  by (cases c; cases c'; simp add: same_setup_def)+

lemma same_setup_trans: "same_setup c c' \<Longrightarrow> same_setup c' c'' \<Longrightarrow> same_setup c c''"
  by (cases c; cases c'; cases c''; simp add: same_setup_def)

lemma same_setupD:
  assumes "same_setup c c'"
  shows "hook_infos c' = hook_infos c" "ignore_infos c' = ignore_infos c" "request_groups c' = request_groups c"
    "sigsegv_enable c' = sigsegv_enable c" "sigsegv_act c' = sigsegv_act c" "blocker c' = blocker c"
  using assms by (cases c; cases c'; simp add: same_setup_def)+

lemma wants_same_setup: "same_setup c c' \<Longrightarrow> wants_library os c' = wants_library os c"
  by (simp add: wants_library_def fun_eq_iff same_setupD)

lemma protect_ret:
  assumes "sigsegv_protect fault m (c, w) = (Ret x, (c', w'))"
    and m: "\<And>b r d v. m (c\<lparr>sigsegv_flag := b\<rparr>, w) = (r, (d, v)) \<Longrightarrow> d = c\<lparr>sigsegv_flag := b\<rparr> \<and> P v \<and> (\<forall>y. r = Ret y \<longrightarrow> Q y)"
    and "Q fault"
  shows "same_setup c c' \<and> map_infos c' = map_infos c \<and> refreshed c' = refreshed c \<and> P w' \<and> Q x"
proof (cases "sigsegv_enable c")
  case False
  with assms(1) have "m (c\<lparr>sigsegv_flag := sigsegv_flag c\<rparr>, w) = (Ret x, (c', w'))"
    by (simp add: sigsegv_protect_def)
  from m [OF this] show ?thesis by simp
next
  case True
  obtain r d v where rd: "m (c\<lparr>sigsegv_flag := True\<rparr>, w) = (r, (d, v))" by (metis prod.collapse)
  from m [OF this] assms(1,3) True show ?thesis
    by (cases r) (auto simp: sigsegv_protect_def rd xh_core_sigsegv_handler_def split: if_splits)
qed

lemma hook_impl_mi:
  "xh_core_hook_impl os c mi w = (Ret y, v) \<Longrightarrow> mi_pathname y = mi_pathname mi \<and> mi_base_addr y = mi_base_addr mi"
  by (auto simp: xh_core_hook_impl_def bindc_eq_Ret split: if_splits prod.splits)

lemma hook_ret:
  assumes "kernel_laws os" "steady its w" "xh_core_hook os mi (c, w) = (Ret mi', (c', w'))"
  shows "same_setup c c' \<and> map_infos c' = map_infos c \<and> refreshed c' = refreshed c \<and> steady its w' \<and>
    (mi_pathname mi' = mi_pathname mi \<and> mi_base_addr mi' = mi_base_addr mi)"
proof (rule protect_ret [OF assms(3) [unfolded xh_core_hook_def]])
  fix b r d v
  assume "(case (c\<lparr>sigsegv_flag := b\<rparr>, w) of (c, w) \<Rightarrow> case xh_core_hook_impl os c mi w of (r, w') \<Rightarrow> (r, (c, w'))) = (r, (d, v))"
  then have h: "xh_core_hook_impl os (c\<lparr>sigsegv_flag := b\<rparr>) mi w = (r, v)" and d: "d = c\<lparr>sigsegv_flag := b\<rparr>"
    by (auto split: prod.splits)
  have "steady its v" using preservesD [OF steady_hook_impl [OF assms(1)] assms(2) h] .
  moreover have "\<forall>y. r = Ret y \<longrightarrow> mi_pathname y = mi_pathname mi \<and> mi_base_addr y = mi_base_addr mi"
    using h hook_impl_mi by blast
  ultimately show "d = c\<lparr>sigsegv_flag := b\<rparr> \<and> steady its v \<and>
      (\<forall>y. r = Ret y \<longrightarrow> mi_pathname y = mi_pathname mi \<and> mi_base_addr y = mi_base_addr mi)" using d by blast
qed simp

lemma check_header_ret:
  assumes "xh_core_check_elf_header a (c, w) = (Ret x, (c', w'))"
  shows "same_setup c c' \<and> map_infos c' = map_infos c \<and> refreshed c' = refreshed c \<and> w' = w \<and>
    (x = 0 \<longleftrightarrow> xh_elf_check_elfheader (w_mem w) a = Ret 0)"
proof (cases "xh_elf_check_elfheader (w_mem w) a = Segv")
  case True
  with assms show ?thesis
    by (cases "sigsegv_enable c")
      (auto simp: xh_core_check_elf_header_def sigsegv_protect_def xh_core_sigsegv_handler_def
        XH_ERRNO_SEGVERR_def split: if_splits)
next
  case False
  with assms show ?thesis
    by (cases "sigsegv_enable c"; cases "xh_elf_check_elfheader (w_mem w) a")
      (auto simp: xh_core_check_elf_header_def sigsegv_protect_def)
qed

lemma insert_refreshed_spec:
  assumes "tree_wf (refreshed c)"
  shows "tree_map (refreshed c) (mi_pathname mi) \<noteq> None \<Longrightarrow> insert_refreshed mi (c, w) = (Ret True, (c, w))"
    "tree_map (refreshed c) (mi_pathname mi) = None \<Longrightarrow>
       \<exists>t'. insert_refreshed mi (c, w) = (Ret False, (c\<lparr>refreshed := t'\<rparr>, w)) \<and> tree_wf t' \<and>
         tree_map t' = (tree_map (refreshed c))(mi_pathname mi \<mapsto> mi)"
proof -
  assume "tree_map (refreshed c) (mi_pathname mi) \<noteq> None"
  then obtain x where "tree_map (refreshed c) (mi_pathname mi) = Some x" by auto
  from map_tree.insert_present [OF assms TrueI this] show "insert_refreshed mi (c, w) = (Ret True, (c, w))"
    by (cases c) (simp add: insert_refreshed_def)
next
  assume "tree_map (refreshed c) (mi_pathname mi) = None"
  from map_tree.insert_new [OF assms TrueI this]
  show "\<exists>t'. insert_refreshed mi (c, w) = (Ret False, (c\<lparr>refreshed := t'\<rparr>, w)) \<and> tree_wf t' \<and>
         tree_map t' = (tree_map (refreshed c))(mi_pathname mi \<mapsto> mi)"
    by (auto simp: insert_refreshed_def)
qed

lemma remove_map_info_spec:
  assumes "tree_wf (map_infos c)" "tree_map (map_infos c) (mi_pathname mi) = Some mi"
  shows "\<exists>t'. remove_map_info mi (c, w) = (Ret (), (c\<lparr>map_infos := t'\<rparr>, w)) \<and> tree_wf t' \<and>
    tree_map t' = (tree_map (map_infos c))(mi_pathname mi := None)"
  using map_tree.remove_present [OF assms(1) TrueI assms(2)] by (auto simp: remove_map_info_def)

lemma tree_map_key: "tree_map t p = Some mi \<Longrightarrow> mi_pathname mi = p"
  by (auto simp: rb_map_def dest: map_of_SomeD)

lemma store_mi_spec:
  assumes "tree_wf (refreshed c)"
  shows "tree_wf (refreshed (store_mi mi c))" "same_setup c (store_mi mi c)" "map_infos (store_mi mi c) = map_infos c"
    "tree_map (refreshed (store_mi mi c)) =
       (\<lambda>p. if p = mi_pathname mi then map_option (\<lambda>_. mi) (tree_map (refreshed c) p) else tree_map (refreshed c) p)"
proof -
  let ?f = "\<lambda>x. if mi_pathname x = mi_pathname mi then mi else x"
  have r: "refreshed (store_mi mi c) = map_rb_tree ?f (refreshed c)" by (simp add: store_mi_def)
  show "tree_wf (refreshed (store_mi mi c))" unfolding r using assms by (rule map_tree_wf) auto
  show "same_setup c (store_mi mi c)" "map_infos (store_mi mi c) = map_infos c"
    by (cases c; simp add: store_mi_def same_setup_def)+
  show "tree_map (refreshed (store_mi mi c)) =
       (\<lambda>p. if p = mi_pathname mi then map_option (\<lambda>_. mi) (tree_map (refreshed c) p) else tree_map (refreshed c) p)"
  proof
    fix p
    have "tree_map (refreshed (store_mi mi c)) p = map_option ?f (tree_map (refreshed c) p)"
      unfolding r by (rule map_tree_map) simp
    then show "tree_map (refreshed (store_mi mi c)) p =
        (if p = mi_pathname mi then map_option (\<lambda>_. mi) (tree_map (refreshed c) p) else tree_map (refreshed c) p)"
      using tree_map_key [of "refreshed c" p] by (cases "tree_map (refreshed c) p") auto
  qed
qed

lemma bases_store:
  "tree_wf (refreshed c) \<Longrightarrow> tree_map (refreshed c) (mi_pathname mi) \<noteq> None \<Longrightarrow>
     bases (refreshed (store_mi mi c)) = (bases (refreshed c))(mi_pathname mi \<mapsto> mi_base_addr mi) \<and>
     dom (tree_map (refreshed (store_mi mi c))) = dom (tree_map (refreshed c))"
  by (auto simp: bases_def fun_eq_iff store_mi_spec(4) split: if_splits)

lemma hook_refreshed_ret:
  assumes "kernel_laws os" "steady its w" "tree_wf (refreshed c)"
    and "tree_map (refreshed c) (mi_pathname mi) \<noteq> None"
    and "hook_refreshed os mi (c, w) = (Ret r, (c', w'))"
  shows "r = 0 \<and> same_setup c c' \<and> steady its w' \<and> map_infos c' = map_infos c \<and> tree_wf (refreshed c') \<and>
    bases (refreshed c') = (bases (refreshed c))(mi_pathname mi \<mapsto> mi_base_addr mi) \<and>
    dom (tree_map (refreshed c')) = dom (tree_map (refreshed c))"
proof -
  let ?c1 = "store_mi mi c"
  from assms(5) obtain mi' c2 where h: "xh_core_hook os mi (?c1, w) = (Ret mi', (c2, w'))"
    and c': "c' = store_mi mi' c2" and r: "r = 0"
    by (auto simp: hook_refreshed_def updk_def elim!: bindc_RetE)
  from hook_ret [OF assms(1,2) h] have hr: "same_setup ?c1 c2" "map_infos c2 = map_infos ?c1"
    "refreshed c2 = refreshed ?c1" "steady its w'" "mi_pathname mi' = mi_pathname mi"
    "mi_base_addr mi' = mi_base_addr mi" by simp_all
  note s1 = store_mi_spec [OF assms(3), of mi] and b1 = bases_store [OF assms(3,4)]
  have wf2: "tree_wf (refreshed c2)" using s1(1) hr(3) by simp
  have in2: "tree_map (refreshed c2) (mi_pathname mi') \<noteq> None"
    using assms(4) hr(3,5) s1(4) by simp
  note s2 = store_mi_spec [OF wf2, of mi'] and b2 = bases_store [OF wf2 in2]
  have "same_setup c c'" using s1(2) hr(1) s2(2) c' same_setup_trans by blast
  then show ?thesis using r hr s1 b1 s2 b2 c' by simp
qed

lemma refresh_map_info_ret:
  assumes laws: "kernel_laws os" and mall: "\<And>n. os_malloc os n" and st: "steady its w" and ok: "trees_ok c"
    and ret: "refresh_map_info os p a (c, w) = (Ret r, (c', w'))"
  shows "r = 0 \<and> same_setup c c' \<and> steady its w' \<and> trees_ok c' \<and>
    bases (refreshed c') = [p \<mapsto> a] ++ bases (refreshed c) \<and>
    tree_map (map_infos c') = (tree_map (map_infos c))(p := None)"
proof -
  note wf = ok [unfolded trees_ok_def]
  have find: "RB_FIND xh_core_map_info_cmp (map_infos c) (mi_key p) = tree_map (map_infos c) p"
    using map_tree.find_spec [of "map_infos c" "mi_key p"] wf by (simp add: mi_key_def)
  show ?thesis
  proof (cases "tree_map (map_infos c) p")
    case (Some mi)
    then have p: "mi_pathname mi = p" by (rule tree_map_key)
    from remove_map_info_spec [of c mi w] Some p wf obtain t1 where
      t1: "remove_map_info mi (c, w) = (Ret (), (c\<lparr>map_infos := t1\<rparr>, w))" "tree_wf t1"
        "tree_map t1 = (tree_map (map_infos c))(p := None)" by auto
    have none: "tree_map (refreshed c) p = None" using wf Some by blast
    with insert_refreshed_spec(2) [of "c\<lparr>map_infos := t1\<rparr>" mi w] wf p obtain t2 where
      t2: "insert_refreshed mi (c\<lparr>map_infos := t1\<rparr>, w) = (Ret False, (c\<lparr>map_infos := t1, refreshed := t2\<rparr>, w))"
        "tree_wf t2" "tree_map t2 = (tree_map (refreshed c))(p \<mapsto> mi)" by auto
    let ?c2 = "c\<lparr>map_infos := t1, refreshed := t2\<rparr>"
    have b2: "bases t2 = (bases (refreshed c))(p \<mapsto> mi_base_addr mi)" using t2(3) by (auto simp: bases_def)
    have upd: "(bases (refreshed c))(p \<mapsto> a) = [p \<mapsto> a] ++ bases (refreshed c)"
      using none by (auto simp: bases_def fun_eq_iff map_add_def split: option.split)
    have disj: "dom (tree_map t1) \<inter> dom (tree_map t2) = {}" using wf t1(3) t2(3) by auto
    show ?thesis
    proof (cases "mi_base_addr mi = a")
      case True
      then have "r = 0" "c' = ?c2" "w' = w"
        using ret Some find t1(1) t2(1) by (auto simp: refresh_map_info_def bindc_def)
      then show ?thesis using st t1 t2 b2 upd True disj by (simp add: trees_ok_def)
    next
      case False
      then have "hook_refreshed os (mi\<lparr>mi_base_addr := a\<rparr>) (?c2, w) = (Ret r, (c', w'))"
        using ret Some find t1(1) t2(1) by (auto simp: refresh_map_info_def bindc_def)
      from hook_refreshed_ret [OF laws st _ _ this] p t2 b2 upd t1 disj show ?thesis
        by (auto simp: trees_ok_def)
    qed
  next
    case None
    let ?mi = "\<lparr>mi_pathname = p, mi_base_addr = a, mi_elf = zero_elf\<rparr>"
    let ?w = "w\<lparr>allocs := Suc (Suc (allocs w))\<rparr>"
    have ret1: "bindc (insert_refreshed ?mi) (\<lambda>repeated. if repeated then retc 0 else hook_refreshed os ?mi) (c, ?w)
        = (Ret r, (c', w'))"
      using ret None find mall by (simp add: refresh_map_info_def liftw_def malloc_c_def Let_def)
    have same: "tree_map (map_infos c) = (tree_map (map_infos c))(p := None)" using None by auto
    show ?thesis
    proof (cases "tree_map (refreshed c) p")
      case (Some x)
      with insert_refreshed_spec(1) [of c ?mi ?w] wf ret1 have "r = 0" "c' = c" "w' = ?w" by auto
      moreover have "bases (refreshed c) = [p \<mapsto> a] ++ bases (refreshed c)"
        using Some by (auto simp: bases_def fun_eq_iff map_add_def split: option.split)
      ultimately show ?thesis using st ok same by simp
    next
      case new: None
      with insert_refreshed_spec(2) [of c ?mi ?w] wf obtain t2 where
        t2: "insert_refreshed ?mi (c, ?w) = (Ret False, (c\<lparr>refreshed := t2\<rparr>, ?w))"
          "tree_wf t2" "tree_map t2 = (tree_map (refreshed c))(p \<mapsto> ?mi)" by auto
      with ret1 have hk: "hook_refreshed os ?mi (c\<lparr>refreshed := t2\<rparr>, ?w) = (Ret r, (c', w'))"
        by (simp add: bindc_def)
      have b: "(bases t2)(p \<mapsto> a) = [p \<mapsto> a] ++ bases (refreshed c)"
        using new t2(3) by (auto simp: bases_def fun_eq_iff map_add_def split: option.split)
      have "steady its ?w" using st by simp
      from hook_refreshed_ret [OF laws this _ _ hk] t2 b same None wf show ?thesis
        by (auto simp: trees_ok_def)
    qed
  qed
qed


section \<open>All libraries\<close>

text \<open>What an entry of the maps says about libraries: a private, readable mapping of the start of a
  named file that some request asks for.\<close>

definition candidate :: "os \<Rightarrow> core \<Rightarrow> maps_item \<Rightarrow> (string \<times> u64) option" where
  "candidate os c item =
     (if nth_c (item_perms item) 0 = CHR ''r'' \<and> nth_c (item_perms item) 3 = CHR ''p'' \<and> item_offset item = 0
      then (case item_pathname item of
          None \<Rightarrow> None
        | Some p \<Rightarrow> if nth_c p 0 \<noteq> CHR ''['' \<and> wants_library os c p then Some (p, item_start item) else None)
      else None)"

text \<open>An entry seen in a state of the process: the library it adds, if the linker knows the address
  and an ELF header is mapped there.\<close>

definition accepted :: "os \<Rightarrow> core \<Rightarrow> maps_item \<Rightarrow> world \<Rightarrow> (string \<times> u64) list" where
  "accepted os c item w = (case candidate os c item of
     None \<Rightarrow> []
   | Some (p, a) \<Rightarrow> if os_dladdr os w a \<and> xh_elf_check_elfheader (w_mem w) a = Ret 0 then [(p, a)] else [])"

lemma map_of_snoc: "map_of (xs @ [(p, a)]) = [p \<mapsto> a] ++ map_of xs"
  by simp

lemma iterate_cb_ret:
  assumes laws: "kernel_laws os" and mall: "\<And>n. os_malloc os n" and st: "steady its w" and ok: "trees_ok c"
    and ret: "xh_core_maps_iterate_cb os item (c, w) = (Ret r, (c', w'))"
  shows "r = 0 \<and> same_setup c c' \<and> steady its w' \<and> trees_ok c' \<and>
    bases (refreshed c') = map_of (accepted os c item w) ++ bases (refreshed c) \<and>
    dom (tree_map (map_infos c')) = dom (tree_map (map_infos c)) - fst ` set (accepted os c item w)"
proof (cases "candidate os c item")
  case None
  with ret have "r = 0" "c' = c" "w' = w"
    by (auto simp: xh_core_maps_iterate_cb_def candidate_def split: if_splits option.splits)
  with None st ok show ?thesis by (simp add: accepted_def)
next
  case (Some pa)
  obtain p a where pa: "pa = (p, a)" by fastforce
  have cand: "nth_c (item_perms item) 0 = CHR ''r''" "nth_c (item_perms item) 3 = CHR ''p''" "item_offset item = 0"
    "item_pathname item = Some p" "nth_c p 0 \<noteq> CHR ''[''" "wants_library os c p" "a = item_start item"
    using Some pa by (auto simp: candidate_def split: if_splits option.splits)
  show ?thesis
  proof (cases "os_dladdr os w a")
    case False
    with ret cand have "r = 0" "c' = c" "w' = w"
      by (auto simp: xh_core_maps_iterate_cb_def xh_check_loaded_so_def)
    with Some pa st ok False show ?thesis by (simp add: accepted_def)
  next
    case True
    from ret cand True obtain x c1 w1 where hd: "xh_core_check_elf_header a (c, w) = (Ret x, (c1, w1))"
      and rest: "(if x \<noteq> 0 then retc 0 else refresh_map_info os p a) (c1, w1) = (Ret r, (c', w'))"
      by (auto simp: xh_core_maps_iterate_cb_def xh_check_loaded_so_def elim!: bindc_RetE)
    from check_header_ret [OF hd] have h: "same_setup c c1" "map_infos c1 = map_infos c" "refreshed c1 = refreshed c"
      "w1 = w" "x = 0 \<longleftrightarrow> xh_elf_check_elfheader (w_mem w) a = Ret 0" by simp_all
    have ok1: "trees_ok c1" using ok h by (simp add: trees_ok_def)
    show ?thesis
    proof (cases "x = 0")
      case False
      with rest h Some pa st ok1 show ?thesis by (simp add: accepted_def)
    next
      case x: True
      with rest have "refresh_map_info os p a (c1, w) = (Ret r, (c', w'))" using h(4) by simp
      from refresh_map_info_ret [OF laws mall st ok1 this] h x True Some pa show ?thesis
        by (auto simp: accepted_def intro: same_setup_trans)
    qed
  qed
qed

text \<open>The entries in turn, each with the state of the process in which it is looked at: what the hooks
  written for earlier entries have left.\<close>

fun visited :: "os \<Rightarrow> maps_item list \<Rightarrow> core \<times> world \<Rightarrow> world list" where
  "visited os [] s = []"
| "visited os (item # its) s = snd s # visited os its (snd (xh_core_maps_iterate_cb os item s))"

definition refresh_start :: "os \<Rightarrow> core \<times> world \<Rightarrow> core \<times> world" where
  "refresh_start os = (\<lambda>(c, w). (c\<lparr>blocker := rdlocked c, refreshed := RB_NULL\<rparr>,
     xh_lock_read_accesslock (snd (xh_maps_update os (xh_maps_invalidate w)))))"

definition accepted_all :: "os \<Rightarrow> core \<Rightarrow> maps_item list \<Rightarrow> world list \<Rightarrow> (string \<times> u64) list" where
  "accepted_all os c its ws = concat (map2 (accepted os c) its ws)"

lemma accepted_same_setup: "same_setup c c' \<Longrightarrow> accepted os c' = accepted os c"
proof -
  assume "same_setup c c'"
  then have "wants_library os c' = wants_library os c" by (rule wants_same_setup)
  then have "candidate os c' = candidate os c" 
    by (intro ext) (simp add: candidate_def split: option.split)
  then show ?thesis by (simp add: accepted_def [abs_def])
qed

lemma steady_length: "steady its w \<Longrightarrow> maps_count w = length its"
  by (auto simp: steady_def maps_ok_def maps_items_def)

lemma maps_loop_ret:
  assumes laws: "kernel_laws os" and mall: "\<And>n. os_malloc os n"
  shows "steady its w \<Longrightarrow> trees_ok c \<Longrightarrow> same_setup c0 c \<Longrightarrow> i + n = length its \<Longrightarrow>
    maps_loop (xh_core_maps_iterate_cb os) [i..<i + n] (c, w) = (Ret r, (c', w')) \<Longrightarrow>
    r = 0 \<and> same_setup c0 c' \<and> steady its w' \<and> trees_ok c' \<and>
      bases (refreshed c') = map_of (accepted_all os c0 (drop i its) (visited os (drop i its) (c, w))) ++ bases (refreshed c)"
proof (induction n arbitrary: i c w)
  case 0
  then show ?case by (simp add: accepted_all_def)
next
  case (Suc n)
  have len: "length its = maps_count w" and i: "i < maps_count w" "i < length (maps_arr w)" "its ! i = maps_arr w ! i"
    using Suc.prems(1,4) by (auto simp: steady_def maps_ok_def maps_items_def)
  have "[i..<i + Suc n] = i # [Suc i..<Suc i + n]" by (simp add: upt_conv_Cons)
  with Suc.prems(5) have "maps_loop (xh_core_maps_iterate_cb os) (i # [Suc i..<Suc i + n]) (c, w) = (Ret r, (c', w'))"
    by (simp only:)
  with i obtain x c1 w1 where
    cb: "xh_core_maps_iterate_cb os (its ! i) (c, w) = (Ret x, (c1, w1))"
    and rest: "(if x \<noteq> 0 then retc x else maps_loop (xh_core_maps_iterate_cb os) [Suc i..<Suc i + n]) (c1, w1) = (Ret r, (c', w'))"
    by (auto simp: bindc_eq_Ret simp del: upt_Suc add_Suc)
  from iterate_cb_ret [OF laws mall Suc.prems(1,2) cb] have c1: "x = 0" "same_setup c c1" "steady its w1" "trees_ok c1"
    "bases (refreshed c1) = map_of (accepted os c (its ! i) w) ++ bases (refreshed c)" by simp_all
  have s1: "same_setup c0 c1" using Suc.prems(3) c1(2) by (rule same_setup_trans)
  from rest c1(1) have rest0: "maps_loop (xh_core_maps_iterate_cb os) [Suc i..<Suc i + n] (c1, w1) = (Ret r, (c', w'))"
    by (simp only: simp_thms if_False)
  have "Suc i + n = length its" using Suc.prems(4) by simp
  note ws = Suc.IH [OF c1(3,4) s1 this rest0]
  have "drop i its = its ! i # drop (Suc i) its" using len i(1) by (simp add: Cons_nth_drop_Suc)
  then have "accepted_all os c0 (drop i its) (visited os (drop i its) (c, w)) = accepted os c (its ! i) w @
      accepted_all os c0 (drop (Suc i) its) (visited os (drop (Suc i) its) (c1, w1))"
    using accepted_same_setup [OF Suc.prems(3)] cb by (simp add: accepted_all_def)
  with ws c1(5) show ?case by simp
qed

lemma iterate_ret:
  assumes laws: "kernel_laws os" and mall: "\<And>n. os_malloc os n" and mw: "maps_ok w"
    and inv: "\<not> maps_invalidated w" and pm: "proc_maps w = Some content" and ok: "trees_ok c"
    and ret: "xh_maps_iterate os (xh_core_maps_iterate_cb os) (c, w) = (Ret r, (c', w'))"
  shows "same_setup c c' \<and> trees_ok c' \<and>
    maps_items w' = List.map_filter parse_maps_line (file_lines PATH_MAX content) \<and>
    bases (refreshed c') = map_of (accepted_all os c (maps_items w') (visited os (maps_items w')
      (c, xh_lock_read_accesslock (snd (xh_maps_update os w))))) ++ bases (refreshed c)"
proof -
  let ?its = "List.map_filter parse_maps_line (file_lines PATH_MAX content)"
  from maps_update_correct [OF mw inv pm mall] obtain w1 where
    w1: "xh_maps_update os w = (Ret (), w1)" "maps_ok w1" "maps_invalidated w1" "maps_items w1 = ?its" by auto
  let ?w2 = "xh_lock_read_accesslock w1"
  have st: "steady ?its ?w2" using w1 by (simp add: steady_def [of _ w1])
  then have len: "maps_count ?w2 = length ?its" by (rule steady_length)
  from ret w1(1) obtain c3 w3 where
    loop: "maps_loop (xh_core_maps_iterate_cb os) [0..<0 + length ?its] (c, ?w2) = (Ret r, (c3, w3))"
    and end_: "(c', w') = (c3, xh_unlock_accesslock w3)"
    using len by (auto simp: xh_maps_iterate_def liftw_def bindc_eq_Ret)
  from maps_loop_ret [OF laws mall st ok same_setup_refl _ loop] have l: "same_setup c c3" "steady ?its w3" "trees_ok c3"
    "bases (refreshed c3) = map_of (accepted_all os c ?its (visited os ?its (c, ?w2))) ++ bases (refreshed c)" by simp_all
  then have "maps_items w' = ?its" using end_ by (simp add: steady_def maps_items_def xh_unlock_accesslock_def)
  then show ?thesis using l end_ w1(1) by simp
qed


text \<open>C28: when a refresh returns, the library records, for exactly the paths of the maps file
  that some request asks for and whose mapping passed the checks (known to the linker, ELF
  header), the first such mapping as the base address; libraries that are gone are forgotten, the
  requests are untouched and the calling thread is left without the blocker, also if it held it for
  writing before (the result of \<open>pthread_rwlock_rdlock\<close> is ignored, \<open>xh_core.c\<close>:551).\<close>

theorem refresh_correct:
  assumes "kernel_laws os" and "\<And>n. os_malloc os n" and "maps_ok w" and "proc_maps w = Some content"
    and "tree_wf (map_infos c)"
    and "xh_core_refresh_impl os (c, w) = (Ret (), (c', w'))"
  shows "maps_items w' = List.map_filter parse_maps_line (file_lines PATH_MAX content) \<and>
    bases (map_infos c') = map_of (accepted_all os c (maps_items w') (visited os (maps_items w') (refresh_start os (c, w)))) \<and>
    tree_wf (map_infos c') \<and>
    hook_infos c' = hook_infos c \<and> ignore_infos c' = ignore_infos c \<and> request_groups c' = request_groups c \<and>
    blocker c' = Unlocked"
proof -
  let ?w = "xh_maps_invalidate w" and ?c = "c\<lparr>blocker := rdlocked c, refreshed := RB_NULL\<rparr>"
  from assms(6) have free: "blocker c \<noteq> RdLocked" by (auto simp: xh_core_refresh_impl_def split: if_splits)
  with assms(6) obtain r c1 w1 c2 where
    it: "xh_maps_iterate os (xh_core_maps_iterate_cb os) (?c, ?w) = (Ret r, (c1, w1))"
    and rm: "remove_all_map_infos (rb_inorder (map_infos c1)) (c1, w1) = (Ret (), (c2, w'))"
    and c': "c' = c2\<lparr>map_infos := refreshed c2, refreshed := RB_NULL, blocker := Unlocked\<rparr>"
    by (auto simp: xh_core_refresh_impl_def updk_def liftw_def bindc_eq_Ret split: if_splits)
  have w0: "maps_ok ?w" "\<not> maps_invalidated ?w" "proc_maps ?w = Some content"
    using assms(3,4) by (simp_all add: xh_maps_invalidate_def maps_ok_def)
  have ok: "trees_ok ?c" using assms(5) by (simp add: trees_ok_def rb_map_def)
  note it' = iterate_ret [OF assms(1,2) w0 ok it]
  have c2: "c2 = c1\<lparr>map_infos := RB_NULL\<rparr>" "w' = w1"
    using rm remove_all_spec [of c1 _ w1] it' by (auto simp: trees_ok_def)
  have "wants_library os ?c = wants_library os c" by (simp add: wants_library_def [abs_def])
  then have "accepted os ?c = accepted os c"
    by (intro ext) (simp add: accepted_def candidate_def split: option.split)
  then have b: "bases (refreshed c1) = map_of (accepted_all os c (maps_items w1) (visited os (maps_items w1) (refresh_start os (c, w))))"
    using it' by (simp add: accepted_all_def bases_def rb_map_def comp_def refresh_start_def)
  have sc: "same_setup ?c c1" using it' by blast
  show ?thesis
    using it' b c2 c' same_setupD [OF sc] by (auto simp: trees_ok_def)
qed

declare reloc_loop.simps [code] hash_chain.simps [code] gnu_chain.simps [code]

section \<open>Nothing new\<close>

text \<open>A computation that returns or faults, and nothing else.\<close>

definition reads :: "'a run \<Rightarrow> bool" where
  "reads m \<longleftrightarrow> m = Segv \<or> (\<exists>x. m = Ret x)"

lemma reads_bindr: "reads m \<Longrightarrow> (\<And>x. reads (f x)) \<Longrightarrow> reads (bindr m f)"
  by (cases m) (simp_all add: reads_def)

lemma reads_simps [simp]: "reads (Ret x)" "reads Segv"
  by (simp_all add: reads_def)

lemma reads_if: "reads a \<Longrightarrow> reads b \<Longrightarrow> reads (if c then a else b)"
  by simp

lemma reads_loads: "reads (ld8 m a)" "reads (ldbytes m a n)" "reads (ld16 m a)" "reads (ld32 m a)"
proof -
  show 8: "reads (ld8 m a)" for a by (simp add: ld8_def split: option.split)
  show "reads (ldbytes m a n)" for a n by (induction n arbitrary: a) (auto intro!: reads_bindr 8)
  then show "reads (ld16 m a)" "reads (ld32 m a)" by (auto simp: ld16_def ld32_def intro!: reads_bindr)
qed

lemma reads_check: "reads (xh_elf_check_elfheader m a)"
  unfolding xh_elf_check_elfheader_def by (intro reads_bindr reads_loads reads_if reads_simps)

text \<open>Reading a header ends in an answer: it cannot fault, or the fault is caught.\<close>

definition headers_safe :: "core \<Rightarrow> mem \<Rightarrow> bool" where
  "headers_safe c m \<longleftrightarrow> (sigsegv_enable c \<longrightarrow> sigsegv_act c = XhHandler) \<and>
     (\<not> sigsegv_enable c \<longrightarrow> (\<forall>a. xh_elf_check_elfheader m a \<noteq> Segv))"

lemma check_header_total:
  assumes "headers_safe c (w_mem w)"
  shows "\<exists>x c1. xh_core_check_elf_header a (c, w) = (Ret x, (c1, w))"
  using assms reads_check [of "w_mem w" a]
  by (auto simp: headers_safe_def reads_def xh_core_check_elf_header_def sigsegv_protect_def
      xh_core_sigsegv_handler_def)

text \<open>The state of a refresh that has found nothing new so far; \<open>B\<close> is what was recorded before.\<close>

definition quiet :: "os \<Rightarrow> core \<Rightarrow> maps_item list \<Rightarrow> (string \<rightharpoonup> u64) \<Rightarrow> mem \<Rightarrow> nat \<Rightarrow> core \<times> world \<Rightarrow> bool" where
  "quiet os c its B m i s \<longleftrightarrow> same_setup c (fst s) \<and> steady its (snd s) \<and> trees_ok (fst s) \<and> w_mem (snd s) = m \<and>
     bases (map_infos (fst s)) ++ bases (refreshed (fst s)) = B \<and>
     (\<forall>p \<in> dom (bases (map_infos (fst s))).
        B p = map_of (concat (map (\<lambda>item. accepted os c item (snd s)) (drop i its))) p)"

lemma dom_bases: "dom (bases t) = dom (tree_map t)"
  by (auto simp: bases_def)

lemma refresh_known:
  assumes mall: "\<And>n. os_malloc os n" and ok: "trees_ok c" and p: "p \<in> dom (tree_map (map_infos c)) \<union> dom (tree_map (refreshed c))"
    and a: "\<And>mi. tree_map (map_infos c) p = Some mi \<Longrightarrow> mi_base_addr mi = a"
  shows "\<exists>c' k. refresh_map_info os p a (c, w) = (Ret 0, (c', w\<lparr>allocs := k\<rparr>)) \<and> same_setup c c' \<and> trees_ok c' \<and>
    tree_map (map_infos c') = (tree_map (map_infos c))(p := None) \<and>
    bases (map_infos c') ++ bases (refreshed c') = bases (map_infos c) ++ bases (refreshed c)"
proof -
  note wf = ok [unfolded trees_ok_def]
  have find: "RB_FIND xh_core_map_info_cmp (map_infos c) (mi_key p) = tree_map (map_infos c) p"
    using map_tree.find_spec [of "map_infos c" "mi_key p"] wf by (simp add: mi_key_def)
  show ?thesis
  proof (cases "tree_map (map_infos c) p")
    case (Some mi)
    then have mp: "mi_pathname mi = p" by (rule tree_map_key)
    from remove_map_info_spec [of c mi w] Some mp wf obtain t1 where
      t1: "remove_map_info mi (c, w) = (Ret (), (c\<lparr>map_infos := t1\<rparr>, w))" "tree_wf t1"
        "tree_map t1 = (tree_map (map_infos c))(p := None)" by auto
    have none: "tree_map (refreshed c) p = None" using wf Some by blast
    with insert_refreshed_spec(2) [of "c\<lparr>map_infos := t1\<rparr>" mi w] wf mp obtain t2 where
      t2: "insert_refreshed mi (c\<lparr>map_infos := t1\<rparr>, w) = (Ret False, (c\<lparr>map_infos := t1, refreshed := t2\<rparr>, w))"
        "tree_wf t2" "tree_map t2 = (tree_map (refreshed c))(p \<mapsto> mi)" by auto
    have "refresh_map_info os p a (c, w) = (Ret 0, (c\<lparr>map_infos := t1, refreshed := t2\<rparr>, w\<lparr>allocs := allocs w\<rparr>))"
      using find Some t1(1) t2(1) a by (simp add: refresh_map_info_def bindc_def)
    moreover have "bases t1 ++ bases t2 = bases (map_infos c) ++ bases (refreshed c)"
      using t1(3) t2(3) Some none by (auto simp: bases_def fun_eq_iff map_add_def split: option.split)
    moreover have "dom (tree_map t1) \<inter> dom (tree_map t2) = {}" using wf t1(3) t2(3) by auto
    ultimately show ?thesis using t1 t2
      by (intro exI [of _ "c\<lparr>map_infos := t1, refreshed := t2\<rparr>"] exI [of _ "allocs w"]) (simp add: trees_ok_def)
  next
    case None
    with p have "tree_map (refreshed c) p \<noteq> None" by auto
    with insert_refreshed_spec(1) [of c "\<lparr>mi_pathname = p, mi_base_addr = a, mi_elf = zero_elf\<rparr>" "w\<lparr>allocs := Suc (Suc (allocs w))\<rparr>"] wf
    have "refresh_map_info os p a (c, w) = (Ret 0, (c, w\<lparr>allocs := Suc (Suc (allocs w))\<rparr>))"
      using find None mall by (simp add: refresh_map_info_def liftw_def malloc_c_def Let_def bindc_def)
    moreover have "tree_map (map_infos c) = (tree_map (map_infos c))(p := None)" using None by auto
    ultimately show ?thesis using ok by (intro exI [of _ c] exI [of _ "Suc (Suc (allocs w))"]) simp
  qed
qed


lemma quiet_step:
  assumes mall: "\<And>n. os_malloc os n" and safe: "headers_safe c m" and i: "i < length its"
    and named: "item_pathname (its ! i) \<noteq> None"
    and lin: "\<And>v v'. w_mem v = m \<Longrightarrow> w_mem v' = m \<Longrightarrow> os_dladdr os v = os_dladdr os v'"
    and acc: "\<And>p a w. w_mem w = m \<Longrightarrow> (p, a) \<in> set (accepted os c (its ! i) w) \<Longrightarrow> p \<in> dom B"
    and q: "quiet os c its B m i (c1, w1)"
  shows "\<exists>c2 w2. xh_core_maps_iterate_cb os (its ! i) (c1, w1) = (Ret 0, (c2, w2)) \<and> quiet os c its B m (Suc i) (c2, w2)"
proof -
  note Q = q [unfolded quiet_def fst_conv snd_conv]
  have stable: "accepted os c item v = accepted os c item w1" if "w_mem v = m" for item v
    using Q lin [of v w1] that by (simp add: accepted_def split: option.split)
  have drop: "drop i its = its ! i # drop (Suc i) its" using i by (simp add: Cons_nth_drop_Suc)
  have skip: "quiet os c its B m (Suc i) (c2, w1)"
    if "accepted os c (its ! i) w1 = []" "same_setup c1 c2" "map_infos c2 = map_infos c1" "refreshed c2 = refreshed c1" for c2
    using Q that by (auto simp: quiet_def drop trees_ok_def intro: same_setup_trans)
  have acc1: "accepted os c1 = accepted os c" using Q accepted_same_setup by blast
  show ?thesis
  proof (cases "candidate os c1 (its ! i)")
    case None
    then have "xh_core_maps_iterate_cb os (its ! i) (c1, w1) = (Ret 0, (c1, w1))"
      using named by (auto simp: candidate_def xh_core_maps_iterate_cb_def split: if_splits option.splits)
    moreover have "accepted os c (its ! i) w1 = []" unfolding acc1 [symmetric] using None by (simp add: accepted_def)
    ultimately show ?thesis using skip by auto
  next
    case (Some pa)
    obtain p a where pa: "pa = (p, a)" by fastforce
    have cand: "nth_c (item_perms (its ! i)) 0 = CHR ''r''" "nth_c (item_perms (its ! i)) 3 = CHR ''p''"
      "item_offset (its ! i) = 0" "item_pathname (its ! i) = Some p" "nth_c p 0 \<noteq> CHR ''[''" "wants_library os c1 p"
      "a = item_start (its ! i)"
      using Some pa by (auto simp: candidate_def split: if_splits option.splits)
    have ac: "accepted os c (its ! i) w1 =
        (if os_dladdr os w1 a \<and> xh_elf_check_elfheader (w_mem w1) a = Ret 0 then [(p, a)] else [])"
      unfolding acc1 [symmetric] using Some pa by (simp add: accepted_def)
    show ?thesis
    proof (cases "os_dladdr os w1 a")
      case False
      then have "xh_core_maps_iterate_cb os (its ! i) (c1, w1) = (Ret 0, (c1, w1))"
        using cand by (simp add: xh_core_maps_iterate_cb_def xh_check_loaded_so_def)
      with False ac skip show ?thesis by auto
    next
      case True
      have "headers_safe c1 (w_mem w1)" using Q safe same_setupD [of c c1] by (simp add: headers_safe_def)
      from check_header_total [OF this, of a] obtain x c2 where
        hd: "xh_core_check_elf_header a (c1, w1) = (Ret x, (c2, w1))" by blast
      from check_header_ret [OF hd] have c2: "same_setup c1 c2" "map_infos c2 = map_infos c1" "refreshed c2 = refreshed c1"
        "x = 0 \<longleftrightarrow> xh_elf_check_elfheader (w_mem w1) a = Ret 0" by simp_all
      have cb: "xh_core_maps_iterate_cb os (its ! i) (c1, w1) = (if x \<noteq> 0 then retc 0 else refresh_map_info os p a) (c2, w1)"
        using cand True hd by (simp add: xh_core_maps_iterate_cb_def xh_check_loaded_so_def)
      show ?thesis
      proof (cases "x = 0")
        case False
        with cb ac c2 skip [of c2] show ?thesis by auto
      next
        case x: True
        then have acp: "accepted os c (its ! i) w1 = [(p, a)]" using ac True c2(4) by simp
        have ok2: "trees_ok c2" using Q c2 by (simp add: trees_ok_def)
        have "p \<in> dom B" using acc [of w1 p a] acp Q by simp
        then have p: "p \<in> dom (tree_map (map_infos c2)) \<union> dom (tree_map (refreshed c2))"
          using Q c2(2,3) dom_bases by (metis Un_commute dom_map_add)
        have a: "mi_base_addr mi = a" if "tree_map (map_infos c2) p = Some mi" for mi
        proof -
          have in_M: "p \<in> dom (bases (map_infos c1))" using that c2(2) by (auto simp: bases_def)
          then have "B p = Some a" using Q acp by (simp add: drop)
          moreover have "tree_map (refreshed c1) p = None" using ok2 that c2 by (auto simp: trees_ok_def)
          then have "B p = Some (mi_base_addr mi)"
            using Q that c2(2) by (auto simp: bases_def map_add_def)
          ultimately show ?thesis by simp
        qed
        from refresh_known [OF mall ok2 p a, of w1] obtain c3 k where
          c3: "refresh_map_info os p a (c2, w1) = (Ret 0, (c3, w1\<lparr>allocs := k\<rparr>))" "same_setup c2 c3" "trees_ok c3"
            "tree_map (map_infos c3) = (tree_map (map_infos c2))(p := None)"
            "bases (map_infos c3) ++ bases (refreshed c3) = bases (map_infos c2) ++ bases (refreshed c2)" by blast
        have b3: "bases (map_infos c3) = (bases (map_infos c1))(p := None)"
          using c3(4) c2(2) by (auto simp: bases_def fun_eq_iff)
        have "same_setup c c3" using Q c2(1) c3(2) same_setup_trans by blast
        moreover have "B p' = map_of (concat (map (\<lambda>item. accepted os c item (w1\<lparr>allocs := k\<rparr>)) (drop (Suc i) its))) p'"
          if "p' \<in> dom (bases (map_infos c3))" for p'
        proof -
          have "p' \<noteq> p" "p' \<in> dom (bases (map_infos c1))" using that b3 by (auto split: if_splits)
          then show ?thesis using Q acp stable [of "w1\<lparr>allocs := k\<rparr>"] by (simp add: drop)
        qed
        ultimately have "quiet os c its B m (Suc i) (c3, w1\<lparr>allocs := k\<rparr>)"
          using Q c3 c2 by (simp add: quiet_def)
        with cb x c3(1) show ?thesis by simp
      qed
    qed
  qed
qed

lemma quiet_loop:
  assumes mall: "\<And>n. os_malloc os n" and safe: "headers_safe c m"
    and named: "\<And>item. item \<in> set its \<Longrightarrow> item_pathname item \<noteq> None"
    and lin: "\<And>v v'. w_mem v = m \<Longrightarrow> w_mem v' = m \<Longrightarrow> os_dladdr os v = os_dladdr os v'"
    and acc: "\<And>p a item w. w_mem w = m \<Longrightarrow> item \<in> set its \<Longrightarrow> (p, a) \<in> set (accepted os c item w) \<Longrightarrow> p \<in> dom B"
  shows "i + n = length its \<Longrightarrow> quiet os c its B m i (c1, w1) \<Longrightarrow>
    \<exists>c2 w2. maps_loop (xh_core_maps_iterate_cb os) [i..<i + n] (c1, w1) = (Ret 0, (c2, w2)) \<and>
      quiet os c its B m (length its) (c2, w2)"
proof (induction n arbitrary: i c1 w1)
  case 0
  then show ?case by simp
next
  case (Suc n)
  then have i: "i < length its" by simp
  then have item: "its ! i \<in> set its" by simp
  have "\<exists>c2 w2. xh_core_maps_iterate_cb os (its ! i) (c1, w1) = (Ret 0, (c2, w2)) \<and> quiet os c its B m (Suc i) (c2, w2)"
    using lin acc [OF _ item] by (intro quiet_step [OF mall safe i named [OF item] _ _ Suc.prems(2)]) blast+
  then obtain c2 w2 where
    s: "xh_core_maps_iterate_cb os (its ! i) (c1, w1) = (Ret 0, (c2, w2))" "quiet os c its B m (Suc i) (c2, w2)" by blast
  have "steady its w1" using Suc.prems(2) by (simp add: quiet_def)
  then have "i < maps_count w1" "i < length (maps_arr w1)" "its ! i = maps_arr w1 ! i"
    using i by (auto simp: steady_def maps_ok_def maps_items_def)
  moreover have "[i..<i + Suc n] = i # [Suc i..<Suc i + n]" by (simp add: upt_conv_Cons)
  ultimately have "maps_loop (xh_core_maps_iterate_cb os) [i..<i + Suc n] (c1, w1) =
      maps_loop (xh_core_maps_iterate_cb os) [Suc i..<Suc i + n] (c2, w2)"
    using s(1) by (simp del: upt_Suc add_Suc add_Suc_right)
  with Suc.IH [of "Suc i" c2 w2] s(2) Suc.prems(1) show ?case by (simp del: upt_Suc)
qed


lemma parse_named: "parse_maps_line line = Some item \<Longrightarrow> item_pathname item \<noteq> None"
  unfolding parse_maps_line_def
  by (auto split: prod.split_asm list.split_asm scan_val.split_asm option.split_asm)

lemma parsed_named: "item \<in> set (List.map_filter parse_maps_line lines) \<Longrightarrow> item_pathname item \<noteq> None"
proof -
  assume "item \<in> set (List.map_filter parse_maps_line lines)"
  then obtain line where "parse_maps_line line = Some item" by (auto simp: List.map_filter_def)
  then show ?thesis by (rule parse_named)
qed

text \<open>C29: a refresh that finds every library where it was already, and none that is new, returns,
  writes nothing into the memory of the process (no hook is written twice) and records the same
  base addresses. What the linker says of an address may depend on the memory only.\<close>

theorem refresh_idempotent:
  assumes "\<And>n. os_malloc os n" and "maps_ok w" and "proc_maps w = Some content"
    and "tree_wf (map_infos c)" and "blocker c = Unlocked" and "headers_safe c (w_mem w)"
    and lin: "\<And>v v'. w_mem v = w_mem w \<Longrightarrow> w_mem v' = w_mem w \<Longrightarrow> os_dladdr os v = os_dladdr os v'"
    and same: "bases (map_infos c) = map_of (concat (map (\<lambda>item. accepted os c item w)
           (List.map_filter parse_maps_line (file_lines PATH_MAX content))))"
  shows "\<exists>c' w'. xh_core_refresh_impl os (c, w) = (Ret (), (c', w')) \<and> w_mem w' = w_mem w \<and>
    bases (map_infos c') = bases (map_infos c) \<and> tree_wf (map_infos c')"
proof -
  let ?w = "xh_maps_invalidate w" and ?c = "c\<lparr>blocker := rdlocked c, refreshed := RB_NULL\<rparr>"
  let ?its = "List.map_filter parse_maps_line (file_lines PATH_MAX content)" and ?B = "bases (map_infos c)"
  have w0: "maps_ok ?w" "\<not> maps_invalidated ?w" "proc_maps ?w = Some content"
    using assms(2,3) by (simp_all add: xh_maps_invalidate_def maps_ok_def)
  from maps_update_correct [OF w0 assms(1)] obtain w1 where
    w1: "xh_maps_update os ?w = (Ret (), w1)" "maps_ok w1" "maps_invalidated w1" "maps_items w1 = ?its" "w_mem w1 = w_mem w"
    by (auto simp: xh_maps_invalidate_def)
  let ?w2 = "xh_lock_read_accesslock w1"
  have st: "steady ?its ?w2" using w1 by (simp add: steady_def [of _ w1])
  then have len: "maps_count ?w2 = length ?its" by (rule steady_length)
  have "wants_library os ?c = wants_library os c" by (simp add: wants_library_def [abs_def])
  then have acc: "accepted os ?c = accepted os c"
    by (intro ext) (simp add: accepted_def candidate_def split: option.split)
  have stable: "accepted os c item v = accepted os c item w" if "w_mem v = w_mem w" for item v
    using lin [of v w] that by (simp add: accepted_def split: option.split)
  have q: "quiet os ?c ?its ?B (w_mem w) 0 (?c, ?w2)"
    using assms(4) st w1(5) same stable [of ?w2] acc
    by (simp add: quiet_def trees_ok_def bases_def rb_map_def comp_def)
  have in_B: "p \<in> dom ?B" if "w_mem v = w_mem w" "item \<in> set ?its" "(p, a) \<in> set (accepted os ?c item v)" for p a item v
  proof -
    have "(p, a) \<in> set (accepted os c item w)" using that(3) stable [OF that(1)] by (simp add: acc)
    with that(2) have "(p, a) \<in> set (concat (map (\<lambda>item. accepted os c item w) ?its))" by auto
    then have "map_of (concat (map (\<lambda>item. accepted os c item w) ?its)) p \<noteq> None"
      unfolding map_of_eq_None_iff by (metis fst_conv image_eqI)
    then show ?thesis unfolding same by (rule domIff [THEN iffD2])
  qed
  have "headers_safe ?c (w_mem w)" using assms(6) by (simp add: headers_safe_def)
  then have "\<exists>c3 w3. maps_loop (xh_core_maps_iterate_cb os) [0..<0 + length ?its] (?c, ?w2) = (Ret 0, (c3, w3)) \<and>
      quiet os ?c ?its ?B (w_mem w) (length ?its) (c3, w3)"
  proof (rule quiet_loop [where c = ?c and m = "w_mem w", OF assms(1)])
    show "item \<in> set ?its \<Longrightarrow> item_pathname item \<noteq> None" for item by (rule parsed_named)
    show "w_mem v = w_mem w \<Longrightarrow> w_mem v' = w_mem w \<Longrightarrow> os_dladdr os v = os_dladdr os v'" for v v' by (rule lin)
    show "w_mem v = w_mem w \<Longrightarrow> item \<in> set ?its \<Longrightarrow> (p, a) \<in> set (accepted os ?c item v) \<Longrightarrow> p \<in> dom ?B" for p a item v
      by (rule in_B)
    show "0 + length ?its = length ?its" by simp
    show "quiet os ?c ?its ?B (w_mem w) 0 (?c, ?w2)" by (rule q)
  qed
  then obtain c3 w3 where loop: "maps_loop (xh_core_maps_iterate_cb os) [0..<0 + length ?its] (?c, ?w2) = (Ret 0, (c3, w3))"
    and q3: "quiet os ?c ?its ?B (w_mem w) (length ?its) (c3, w3)"
    by blast
  have "bases (map_infos c3) p = None" for p
  proof (rule ccontr)
    assume in_M: "bases (map_infos c3) p \<noteq> None"
    then have "?B p = None" using q3 by (simp add: quiet_def domIff)
    moreover have "?B p = (bases (map_infos c3) ++ bases (refreshed c3)) p" using q3 by (simp add: quiet_def)
    ultimately show False using in_M by (auto simp: map_add_def split: option.splits)
  qed
  then have "bases (map_infos c3) = Map.empty" by blast
  then have b3: "bases (refreshed c3) = ?B" and wf3: "trees_ok c3" using q3 by (auto simp: quiet_def)
  have "remove_all_map_infos (rb_inorder (map_infos c3)) (c3, xh_unlock_accesslock w3) =
      (Ret (), (c3\<lparr>map_infos := RB_NULL\<rparr>, xh_unlock_accesslock w3))"
    using wf3 by (intro remove_all_spec) (simp_all add: trees_ok_def)
  then have "xh_core_refresh_impl os (c, w) =
      (Ret (), (c3\<lparr>map_infos := refreshed c3, refreshed := RB_NULL, blocker := Unlocked\<rparr>, xh_unlock_accesslock w3))"
    using assms(5) w1(1) loop len
    by (simp add: xh_core_refresh_impl_def updk_def liftw_def xh_maps_iterate_def bindc_def)
  then show ?thesis using b3 wf3 q3 by (simp add: quiet_def trees_ok_def)
qed


text \<open>An instance: a library asked for by one request, whose header is mapped and nothing else.\<close>

definition loaded_item :: maps_item where
  "loaded_item = \<lparr>item_start = 0x1000, item_end = 0x2000, item_perms = ''r-xp'', item_offset = 0,
     item_pathname = Some ''/a''\<rparr>"

definition sample_loaded :: world where
  "sample_loaded = sample_world\<lparr>proc_maps := Some ''1000-2000 r-xp 0 0:0 7 /a'',
     w_mem := mem_of [(0x1000, [0x7f, 0x45, 0x4c, 0x46, 2, 1, 1, 0, 0, 0, 0, 0, 0, 0, 0, 0, 3, 0, 183, 0, 1, 0, 0, 0])]\<rparr>"

definition sample_request :: hook_info where
  "sample_request = \<lparr>hi_regex = ''/a'', hi_symbol = ''f'', hi_new_func = 0x1000, hi_old_func = 0\<rparr>"

definition sample_core :: core where
  "sample_core = core0\<lparr>sigsegv_act := XhHandler, hook_infos := [sample_request]\<rparr>"

lemma loaded_parse: "List.map_filter parse_maps_line (file_lines PATH_MAX ''1000-2000 r-xp 0 0:0 7 /a'') = [loaded_item]"
  by code_simp

lemma loaded_accepted: "w_mem v = w_mem sample_loaded \<Longrightarrow> accepted plain_os sample_core loaded_item v = [(''/a'', 0x1000)]"
proof -
  assume v: "w_mem v = w_mem sample_loaded"
  have "xh_elf_check_elfheader (w_mem sample_loaded) 0x1000 = Ret 0" by code_simp
  with v show ?thesis
    by (simp add: accepted_def candidate_def loaded_item_def nth_c_def wants_library_def sample_core_def core0_def
        sample_request_def plain_os_def)
qed

lemma sample_refresh: "fst (xh_core_refresh_impl plain_os (sample_core, sample_loaded)) = Ret ()"
  by code_simp


theorem refresh_correct_witness:
  "\<exists>c' w'. xh_core_refresh_impl plain_os (sample_core, sample_loaded) = (Ret (), (c', w')) \<and>
     bases (map_infos c') = [''/a'' \<mapsto> 0x1000]"
proof -
  obtain c' w' where r: "xh_core_refresh_impl plain_os (sample_core, sample_loaded) = (Ret (), (c', w'))"
    using sample_refresh by (metis prod.collapse)
  have "os_malloc plain_os n" "maps_ok sample_loaded" "proc_maps sample_loaded = Some ''1000-2000 r-xp 0 0:0 7 /a''"
    "tree_wf (map_infos sample_core)" for n
    by (simp_all add: plain_os_def sample_loaded_def sample_world_def maps_ok_def sample_core_def core0_def)
  note * = refresh_correct [OF kernel_laws_plain_os this r]
  have "w_mem (snd (refresh_start plain_os (sample_core, sample_loaded))) = w_mem sample_loaded"
    using keeps_snd [OF xh_maps_update_mem, of plain_os "xh_maps_invalidate sample_loaded"]
    by (simp add: refresh_start_def xh_maps_invalidate_def)
  with loaded_accepted * loaded_parse r show ?thesis by (auto simp: accepted_all_def)
qed

text \<open>The same library, recorded already.\<close>

definition known_core :: core where
  "known_core = sample_core\<lparr>map_infos := RB_NODE RB_BLACK RB_NULL
     \<lparr>mi_pathname = ''/a'', mi_base_addr = 0x1000, mi_elf = zero_elf\<rparr> RB_NULL\<rparr>"

theorem refresh_idempotent_witness:
  "\<exists>c' w'. xh_core_refresh_impl plain_os (known_core, sample_loaded) = (Ret (), (c', w')) \<and>
     w_mem w' = w_mem sample_loaded \<and> bases (map_infos c') = [''/a'' \<mapsto> 0x1000]"
proof -
  have b: "bases (map_infos known_core) = [''/a'' \<mapsto> 0x1000]"
    by (auto simp: known_core_def bases_def rb_map_def)
  have "accepted plain_os known_core = accepted plain_os sample_core"
    by (intro ext) (simp add: accepted_def candidate_def wants_library_def known_core_def split: option.split)
  then have "bases (map_infos known_core) = map_of (concat (map (\<lambda>item. accepted plain_os known_core item sample_loaded)
      (List.map_filter parse_maps_line (file_lines PATH_MAX ''1000-2000 r-xp 0 0:0 7 /a''))))"
    by (simp add: b loaded_parse loaded_accepted)
  moreover have "headers_safe known_core m" for m
    by (simp add: headers_safe_def known_core_def sample_core_def core0_def)
  ultimately show ?thesis
    using refresh_idempotent [of plain_os sample_loaded "''1000-2000 r-xp 0 0:0 7 /a''" known_core] b
    by (auto simp: plain_os_def sample_loaded_def sample_world_def maps_ok_def known_core_def sample_core_def core0_def
        rb_wf_def rb_ok_def)
qed

end
