(* ===== verification/XhThreads.thy ===== *)
theory XhThreads
  imports XhCore
begin

text \<open>
  The threads of \<open>xh_core.c\<close>: application threads that block and unblock refreshing, refresh
  synchronously or ask for an asynchronous refresh, and the refresh thread
  (\<open>xh_core_refresh_thread_func\<close>). A step is what a thread does between two points where
  another thread can come in: taking or releasing \<open>xh_core_refresh_blocker\<close> or
  \<open>xh_core_refresh_mutex\<close>, or a section under \<open>xh_core_mutex\<close>. The thread-specific counter is the one
  of \<open>xh_core_block_refresh\<close> (theory \<open>XhCore\<close>). Any application thread may call any of the
  functions in any order: it may refresh synchronously while it holds the block itself, and unblock
  what it has not blocked. The read-write lock is that of bionic: \<open>pthread_rwlock_rdlock\<close> fails
  with \<open>EDEADLK\<close> in the thread that holds the lock for writing, and \<open>pthread_rwlock_unlock\<close>
  releases the write lock of the caller, fails with \<open>EPERM\<close> when another thread is the writer, and
  otherwise takes one reader away without asking whose it is. The code looks at neither result.
\<close>

section \<open>States\<close>

text \<open>Where a thread is: outside, before \<open>pthread_rwlock_wrlock\<close>, before the refresh mutex, before
  \<open>pthread_rwlock_rdlock\<close>, in the body of \<open>xh_core_refresh_impl\<close>, before the mutex is released;
  the refresh thread waits on the condition or has left its loop.\<close>

datatype pc = Idle | WantWrite | WantMutex | WantRead | Refreshing | Releasing | Waiting | Finished

text \<open>\<open>th_misused\<close> is no variable of the code: it remembers that some thread began a refresh while
  it held the block itself, or let go of a block that it did not hold.\<close>

record threads =
  th_pc :: "nat \<Rightarrow> pc"
  th_count :: "nat \<Rightarrow> nat"
  th_writer :: "nat option"
  th_readers :: nat
  th_mutex :: "nat option"
  th_running :: bool
  th_do :: bool
  th_refreshes :: nat \<comment> \<open>refreshes done so far\<close>
  th_misused :: bool

text \<open>Thread 0 is the refresh thread, here after \<open>xh_core_init_async_once\<close> created it.\<close>

definition threads0 :: threads where
  "threads0 = \<lparr>th_pc = (\<lambda>t. if t = 0 then Waiting else Idle), th_count = (\<lambda>_. 0), th_writer = None,
     th_readers = 0, th_mutex = None, th_running = True, th_do = False, th_refreshes = 0, th_misused = False\<rparr>"

abbreviation at :: "nat \<Rightarrow> pc \<Rightarrow> threads \<Rightarrow> threads" where
  "at t p s \<equiv> s\<lparr>th_pc := (th_pc s)(t := p)\<rparr>"

abbreviation count :: "nat \<Rightarrow> nat \<Rightarrow> threads \<Rightarrow> threads" where
  "count t n s \<equiv> s\<lparr>th_count := (th_count s)(t := n)\<rparr>"

abbreviation misuse :: "bool \<Rightarrow> threads \<Rightarrow> threads" where
  "misuse b s \<equiv> s\<lparr>th_misused := th_misused s \<or> b\<rparr>"

text \<open>\<open>pthread_rwlock_unlock\<close> of the blocker by thread t; with no writer and no reader it fails.\<close>

definition rw_unlock :: "nat \<Rightarrow> threads \<Rightarrow> threads" where
  "rw_unlock t s = (case th_writer s of
     Some w \<Rightarrow> if w = t then s\<lparr>th_writer := None\<rparr> else s
   | None \<Rightarrow> s\<lparr>th_readers := th_readers s - 1\<rparr>)"

text \<open>After the refresh an application thread is idle and the refresh thread is back at the head of
  its loop, whose condition it tests without the mutex.\<close>

definition after_refresh :: "nat \<Rightarrow> threads \<Rightarrow> pc" where
  "after_refresh t s = (if t = 0 then (if th_running s then Waiting else Finished) else Idle)"

inductive step :: "threads \<Rightarrow> threads \<Rightarrow> bool" where
  block_first: "0 < t \<Longrightarrow> th_pc s t = Idle \<Longrightarrow> th_count s t = 0 \<Longrightarrow> step s (at t WantWrite (count t 1 s))"
| block_acquire: "th_pc s t = WantWrite \<Longrightarrow> th_writer s = None \<Longrightarrow> th_readers s = 0 \<Longrightarrow>
    step s (at t Idle (s\<lparr>th_writer := Some t\<rparr>))"
| block_again: "0 < t \<Longrightarrow> th_pc s t = Idle \<Longrightarrow> 0 < th_count s t \<Longrightarrow> step s (count t (Suc (th_count s t)) s)"
| unblock_inner: "0 < t \<Longrightarrow> th_pc s t = Idle \<Longrightarrow> 1 < th_count s t \<Longrightarrow> step s (count t (th_count s t - 1) s)"
| unblock_last: "0 < t \<Longrightarrow> th_pc s t = Idle \<Longrightarrow> th_count s t \<le> 1 \<Longrightarrow>
    step s (count t 0 (rw_unlock t (misuse (th_writer s \<noteq> Some t) s)))"
| refresh_sync: "0 < t \<Longrightarrow> th_pc s t = Idle \<Longrightarrow> step s (at t WantMutex s)"
| refresh_async: "0 < t \<Longrightarrow> th_pc s t = Idle \<Longrightarrow> step s (s\<lparr>th_do := True\<rparr>)"
| task: "th_pc s 0 = Waiting \<Longrightarrow> th_running s \<Longrightarrow> th_do s \<Longrightarrow> step s (at 0 WantMutex (s\<lparr>th_do := False\<rparr>))"
| leave: "th_pc s 0 = Waiting \<Longrightarrow> \<not> th_running s \<Longrightarrow> step s (at 0 Finished s)"
| stop: "0 < t \<Longrightarrow> th_pc s t = Idle \<Longrightarrow> step s (s\<lparr>th_running := False\<rparr>)"
| lock: "th_pc s t = WantMutex \<Longrightarrow> th_mutex s = None \<Longrightarrow> step s (at t WantRead (s\<lparr>th_mutex := Some t\<rparr>))"
| begin_refresh: "th_pc s t = WantRead \<Longrightarrow> th_writer s = None \<Longrightarrow>
    step s (at t Refreshing (s\<lparr>th_readers := Suc (th_readers s)\<rparr>))"
| begin_own_refresh: "th_pc s t = WantRead \<Longrightarrow> th_writer s = Some t \<Longrightarrow>
    step s (at t Refreshing (misuse True s))"
| end_refresh: "th_pc s t = Refreshing \<Longrightarrow>
    step s (at t Releasing (rw_unlock t (s\<lparr>th_refreshes := Suc (th_refreshes s)\<rparr>)))"
| unlock: "th_pc s t = Releasing \<Longrightarrow> step s (at t (after_refresh t s) (s\<lparr>th_mutex := None\<rparr>))"

inductive reachable :: "threads \<Rightarrow> bool" where
  start: "reachable threads0"
| next_: "reachable s \<Longrightarrow> step s s' \<Longrightarrow> reachable s'"

section \<open>Invariants\<close>

text \<open>A thread holds the block from the return of its first \<open>xh_core_block_refresh\<close> until the
  \<open>xh_core_unblock_refresh\<close> that matches it.\<close>

definition holds_block :: "threads \<Rightarrow> nat \<Rightarrow> bool" where
  "holds_block s t \<longleftrightarrow> 0 < th_count s t \<and> th_pc s t \<noteq> WantWrite"

text \<open>What holds however the functions are called: the writer is a thread that holds the block; the
  mutex is held by the one thread between taking and releasing it; a reader that is counted
  excludes a writer and is the one thread in a refresh.\<close>

definition inv :: "threads \<Rightarrow> bool" where
  "inv s \<longleftrightarrow>
     (\<forall>t. th_writer s = Some t \<longrightarrow> holds_block s t) \<and>
     (\<forall>t. th_mutex s = Some t \<longleftrightarrow> th_pc s t \<in> {WantRead, Refreshing, Releasing}) \<and>
     (\<forall>t. th_pc s t = WantWrite \<longrightarrow> 0 < th_count s t) \<and>
     (th_readers s = 0 \<or> th_readers s = 1 \<and> th_writer s = None \<and> th_mutex s \<noteq> None) \<and>
     (\<forall>t. th_pc s t \<in> {WantRead, Releasing} \<longrightarrow> th_readers s = 0) \<and>
     th_count s 0 = 0 \<and> th_pc s 0 \<noteq> Idle"

text \<open>What holds besides as long as the lock is not misused: who holds the block is the writer, and
  who refreshes is counted as a reader.\<close>

definition used_well :: "threads \<Rightarrow> bool" where
  "used_well s \<longleftrightarrow> (\<forall>t. holds_block s t \<longrightarrow> th_writer s = Some t) \<and> (\<forall>t. th_pc s t = Refreshing \<longrightarrow> th_readers s = 1)"

lemmas th_defs = inv_def used_well_def holds_block_def rw_unlock_def after_refresh_def

lemma inv_start: "inv threads0" and used_well_start: "used_well threads0"
  by (auto simp: th_defs threads0_def)

lemma inv_mutex: "inv s \<Longrightarrow> th_pc s t \<in> {WantRead, Refreshing, Releasing} \<Longrightarrow> th_mutex s = Some t"
  by (simp add: inv_def)

lemma one_refreshing: "inv s \<Longrightarrow> th_pc s t = Refreshing \<Longrightarrow> th_pc s u = Refreshing \<Longrightarrow> u = t"
  using inv_mutex [of s t] inv_mutex [of s u] by simp

lemma no_reader: "inv s \<Longrightarrow> th_pc s t \<in> {WantRead, Releasing} \<Longrightarrow> th_readers s = 0"
  by (auto simp: inv_def)

lemma inv_step: "step s s' \<Longrightarrow> inv s \<Longrightarrow> inv s'"
proof (induction rule: step.induct)
  case (block_acquire s t)
  then show ?case by (cases "t = 0") (auto simp: th_defs)
next
  case (begin_refresh s t)
  then have "th_mutex s = Some t" "th_readers s = 0" by (auto intro: inv_mutex no_reader)
  with begin_refresh show ?case by (auto simp: th_defs)
next
  case (begin_own_refresh s t)
  then have "th_mutex s = Some t" by (auto intro: inv_mutex)
  with begin_own_refresh show ?case by (auto simp: th_defs)
next
  case (end_refresh s t)
  then have "th_mutex s = Some t" "th_readers s \<le> 1" by (auto intro: inv_mutex simp: inv_def)
  with end_refresh show ?case by (auto simp: th_defs split: option.splits)
next
  case (unlock s t)
  then have "th_mutex s = Some t" "th_readers s = 0" by (auto intro: inv_mutex no_reader)
  with unlock show ?case by (auto simp: th_defs)
next
  case (unblock_last t s)
  then show ?case by (auto simp: th_defs split: option.splits)
qed (auto simp: th_defs)

lemma inv_reachable: "reachable s \<Longrightarrow> inv s"
  by (induction rule: reachable.induct) (auto intro: inv_start inv_step)

lemma used_well_step: "step s s' \<Longrightarrow> inv s \<Longrightarrow> used_well s \<Longrightarrow> \<not> th_misused s' \<Longrightarrow> used_well s'"
proof (induction rule: step.induct)
  case (begin_refresh s t)
  then have "th_mutex s = Some t" "th_readers s = 0" by (auto intro: inv_mutex no_reader)
  with begin_refresh show ?case by (auto simp: th_defs)
next
  case (end_refresh s t)
  then have "th_pc s u \<noteq> Refreshing" if "u \<noteq> t" for u using one_refreshing that by blast
  moreover from end_refresh have "th_readers s = 1" by (auto simp: used_well_def)
  with end_refresh(2) have "th_writer s = None" by (simp add: inv_def)
  ultimately show ?case using end_refresh by (auto simp: used_well_def holds_block_def rw_unlock_def)
next
  case (block_acquire s t)
  then show ?case by (auto simp: th_defs)
next
  case (unblock_last t s)
  then have "th_writer s = Some t" by (simp add: rw_unlock_def split: option.splits if_splits)
  with unblock_last show ?case by (auto simp: th_defs)
qed (auto simp: used_well_def holds_block_def after_refresh_def split: if_splits)

lemma misused_step: "step s s' \<Longrightarrow> th_misused s \<Longrightarrow> th_misused s'"
  by (induction rule: step.induct) (auto simp: rw_unlock_def split: option.splits)

lemma used_well_reachable: "reachable s \<Longrightarrow> \<not> th_misused s \<Longrightarrow> used_well s"
  by (induction rule: reachable.induct)
    (use used_well_start used_well_step inv_reachable misused_step in blast)+

section \<open>Two runs\<close>

text \<open>A state in which only the refresh thread, at \<open>p\<close>, and thread 1, at \<open>q\<close>, are active.\<close>

definition pcs :: "pc \<Rightarrow> pc \<Rightarrow> nat \<Rightarrow> pc" where
  "pcs p q = (\<lambda>t. if t = 0 then p else if t = 1 then q else Idle)"

definition counts :: "nat \<Rightarrow> nat \<Rightarrow> nat" where
  "counts c = (\<lambda>t. if t = 1 then c else 0)"

lemma pcs_simps: "pcs p q 0 = p" "pcs p q (Suc 0) = q" "1 < t \<Longrightarrow> pcs p q t = Idle"
    "(pcs p q)(0 := r) = pcs r q" "(pcs p q)(Suc 0 := r) = pcs p r"
    "counts c 0 = 0" "counts c (Suc 0) = c" "(counts c)(Suc 0 := d) = counts d"
  by (auto simp: pcs_def counts_def fun_eq_iff)

definition two :: "pc \<Rightarrow> pc \<Rightarrow> nat \<Rightarrow> nat option \<Rightarrow> nat \<Rightarrow> nat option \<Rightarrow> bool \<Rightarrow> nat \<Rightarrow> bool \<Rightarrow> threads" where
  "two p q c w r m d n b = \<lparr>th_pc = pcs p q, th_count = counts c, th_writer = w, th_readers = r, th_mutex = m,
     th_running = True, th_do = d, th_refreshes = n, th_misused = b\<rparr>"

lemma threads0_two: "threads0 = two Waiting Idle 0 None 0 None False 0 False"
  by (auto simp: two_def threads0_def pcs_def counts_def fun_eq_iff)

lemmas two_simps = two_def pcs_simps rw_unlock_def after_refresh_def

text \<open>Thread 2 asks for a refresh and thread 1 blocks.\<close>

lemma reach_blocked: "reachable (two Waiting Idle 1 (Some 1) 0 None True 0 False)"
proof -
  have "reachable (two Waiting Idle 0 None 0 None True 0 False)"
    using next_ [OF start refresh_async [of 2]] by (simp add: two_simps threads0_two)
  from next_ [OF this block_first [of 1]] have "reachable (two Waiting WantWrite 1 None 0 None True 0 False)"
    by (simp add: two_simps)
  from next_ [OF this block_acquire [of _ 1]] show ?thesis by (simp add: two_simps)
qed

text \<open>Then thread 1 refreshes itself, and the refresh thread takes up its task.\<close>

lemma reach_own_refresh: "reachable (two Refreshing Idle 1 None 1 (Some 0) False 1 True)"
proof -
  from next_ [OF reach_blocked refresh_sync [of 1]] have "reachable (two Waiting WantMutex 1 (Some 1) 0 None True 0 False)"
    by (simp add: two_simps)
  from next_ [OF this lock [of _ 1]] have "reachable (two Waiting WantRead 1 (Some 1) 0 (Some 1) True 0 False)"
    by (simp add: two_simps)
  from next_ [OF this begin_own_refresh [of _ 1]] have "reachable (two Waiting Refreshing 1 (Some 1) 0 (Some 1) True 0 True)"
    by (simp add: two_simps)
  from next_ [OF this end_refresh [of _ 1]] have "reachable (two Waiting Releasing 1 None 0 (Some 1) True 1 True)"
    by (simp add: two_simps)
  from next_ [OF this unlock [of _ 1]] have "reachable (two Waiting Idle 1 None 0 None True 1 True)"
    by (simp add: two_simps)
  from next_ [OF this task] have "reachable (two WantMutex Idle 1 None 0 None False 1 True)"
    by (simp add: two_simps)
  from next_ [OF this lock [of _ 0]] have "reachable (two WantRead Idle 1 None 0 (Some 0) False 1 True)"
    by (simp add: two_simps)
  from next_ [OF this begin_refresh [of _ 0]] show ?thesis by (simp add: two_simps)
qed

text \<open>Or the refresh thread takes up its task first, and thread 1 refreshes then.\<close>

lemma reach_deadlock: "reachable (two WantRead WantMutex 1 (Some 1) 0 (Some 0) False 0 False)"
proof -
  from next_ [OF reach_blocked task] have "reachable (two WantMutex Idle 1 (Some 1) 0 None False 0 False)"
    by (simp add: two_simps)
  from next_ [OF this lock [of _ 0]] have "reachable (two WantRead Idle 1 (Some 1) 0 (Some 0) False 0 False)"
    by (simp add: two_simps)
  from next_ [OF this refresh_sync [of 1]] show ?thesis by (simp add: two_simps)
qed

section \<open>Properties\<close>

text \<open>C38: however the threads call \<open>xh_core_block_refresh\<close>, \<open>xh_core_unblock_refresh\<close> and
  \<open>xh_core_refresh\<close>, at most one thread refreshes at a time and the block has at most one writer. As long as
  no thread has begun a refresh while holding the block itself or unblocked what it did not hold,
  a thread that holds the block excludes every refresh, its own and the others', and every other
  holder, until it unblocks. The condition is needed, because \<open>xh_core_refresh_impl\<close> ignores the
  result of \<open>pthread_rwlock_rdlock\<close> (\<open>xh_core.c\<close>:551): a holder's own refresh runs and its unlock
  (\<open>xh_core.c\<close>:577) gives up the holder's write lock, so that the refresh thread then
  refreshes while the holder still counts on the block.\<close>

theorem block_excludes_refresh:
  assumes "reachable s"
  shows "(th_pc s t = Refreshing \<and> th_pc s u = Refreshing \<longrightarrow> u = t) \<and>
    (th_writer s = Some t \<longrightarrow> holds_block s t) \<and>
    (\<not> th_misused s \<and> holds_block s t \<longrightarrow>
       th_writer s = Some t \<and> th_pc s u \<noteq> Refreshing \<and> (holds_block s u \<longrightarrow> u = t)) \<and>
    (\<exists>s'. reachable s' \<and> holds_block s' 1 \<and> th_pc s' 1 = Idle \<and> th_pc s' 0 = Refreshing)"
proof -
  from assms have i: "inv s" by (rule inv_reachable)
  have "\<exists>s'. reachable s' \<and> holds_block s' 1 \<and> th_pc s' 1 = Idle \<and> th_pc s' 0 = Refreshing"
    by (rule exI, rule conjI, rule reach_own_refresh) (simp add: two_simps holds_block_def)
  moreover have "th_writer s = Some t \<and> th_pc s u \<noteq> Refreshing \<and> (holds_block s u \<longrightarrow> u = t)"
    if "\<not> th_misused s" "holds_block s t"
  proof -
    have w: "holds_block s x \<Longrightarrow> th_writer s = Some x" "th_pc s x = Refreshing \<Longrightarrow> th_readers s = 1" for x
      using used_well_reachable [OF assms that(1)] by (auto simp: used_well_def)
    have "\<not> (th_readers s = 1 \<and> th_writer s = Some t)" using i by (auto simp: inv_def)
    then show ?thesis using w(1) [of t] w(1) [of u] w(2) [of u] that(2) by auto
  qed
  ultimately show ?thesis using i one_refreshing [OF i, of t u] by (auto simp: inv_def)
qed

theorem block_excludes_refresh_witness:
  "let s = two Waiting Idle 1 (Some 1) 0 None True 0 False in holds_block s 1 \<and> th_writer s = Some 1 \<and> th_pc s 0 \<noteq> Refreshing"
  using block_excludes_refresh [OF reach_blocked, of 1 0] by (simp add: holds_block_def two_simps)

text \<open>What sets the mark of misuse: the own refresh of the writer, or an unblock of a thread that is not the writer.\<close>

lemma misused_by:
  assumes "step s s'" and "\<not> th_misused s" and "th_misused s'"
  shows "\<exists>t. th_writer s = Some t \<and> th_pc s t = WantRead \<and> th_pc s' t = Refreshing \<or>
    th_writer s \<noteq> Some t \<and> th_pc s t = Idle \<and> th_count s t \<le> 1 \<and> th_count s' t = 0"
  using assms by (induction rule: step.induct) (auto simp: rw_unlock_def split: option.splits if_splits)

text \<open>A holder that refreshes while another thread has the refresh mutex and waits for the block to end
  deadlocks with it: no step of any thread changes that.\<close>

definition deadlocked :: "threads \<Rightarrow> nat \<Rightarrow> nat \<Rightarrow> bool" where
  "deadlocked s t u \<longleftrightarrow> t \<noteq> u \<and> th_pc s t = WantMutex \<and> th_writer s = Some t \<and> th_pc s u = WantRead \<and> th_mutex s = Some u"

lemma deadlocked_step: "step s s' \<Longrightarrow> inv s \<Longrightarrow> deadlocked s t u \<Longrightarrow> deadlocked s' t u"
proof (induction rule: step.induct)
  case (task s)
  then have "t \<noteq> 0 \<and> u \<noteq> 0" by (auto simp: deadlocked_def intro!: gr0I)
  with task show ?case by (simp add: deadlocked_def)
next
  case (leave s)
  then have "t \<noteq> 0 \<and> u \<noteq> 0" by (auto simp: deadlocked_def intro!: gr0I)
  with leave show ?case by (simp add: deadlocked_def)
next
  case (unlock s v)
  then have "th_mutex s = Some v" by (auto intro: inv_mutex)
  with unlock show ?case by (simp add: deadlocked_def)
qed (auto simp: deadlocked_def rw_unlock_def inv_def split: option.splits)

theorem own_refresh_deadlocks:
  "\<exists>s. reachable s \<and> \<not> th_misused s \<and> holds_block s 1 \<and> deadlocked s 1 0 \<and> (\<forall>s'. step\<^sup>*\<^sup>* s s' \<longrightarrow> deadlocked s' 1 0)"
proof -
  let ?s = "two WantRead WantMutex 1 (Some 1) 0 (Some 0) False 0 False"
  have d: "deadlocked ?s 1 0" by (simp add: deadlocked_def two_simps)
  have "reachable s' \<and> deadlocked s' 1 0" if "step\<^sup>*\<^sup>* ?s s'" for s'
    using that by (induction rule: rtranclp_induct) (use d reach_deadlock in \<open>auto intro: next_ deadlocked_step inv_reachable\<close>)
  with d reach_deadlock show ?thesis by (intro exI [of _ ?s]) (simp add: two_simps holds_block_def)
qed

text \<open>Otherwise nothing is left waiting for good: whenever no thread holds the block and nobody is inside a
  refresh or about to take the mutex for one, a thread that waits for the blocker, for the mutex or,
  as the refresh thread, with a task can go on.\<close>

theorem waiting_can_go_on:
  assumes "reachable s" and free: "\<And>u. \<not> holds_block s u"
  shows "(th_pc s t = WantRead \<longrightarrow> (\<exists>s'. step s s' \<and> th_pc s' t = Refreshing)) \<and>
    (th_pc s t = WantMutex \<and> (\<forall>u. th_pc s u \<notin> {WantRead, Refreshing, Releasing}) \<longrightarrow>
       (\<exists>s'. step s s' \<and> th_pc s' t = WantRead)) \<and>
    (th_pc s t = WantWrite \<and> (\<forall>u. th_pc s u \<noteq> Refreshing) \<longrightarrow> (\<exists>s'. step s s' \<and> holds_block s' t)) \<and>
    (th_pc s 0 = Waiting \<and> th_do s \<and> th_running s \<longrightarrow> (\<exists>s'. step s s' \<and> th_pc s' 0 = WantMutex \<and> \<not> th_do s'))"
proof -
  from assms(1) have i: "inv s" by (rule inv_reachable)
  have w: "th_writer s = None" using i free by (cases "th_writer s") (auto simp: inv_def)
  have m: "(\<forall>u. th_pc s u \<notin> {WantRead, Refreshing, Releasing}) \<Longrightarrow> th_mutex s = None"
    using i by (cases "th_mutex s") (auto simp: inv_def)
  have r: "(\<forall>u. th_pc s u \<noteq> Refreshing) \<Longrightarrow> th_readers s = 0" using i by (auto simp: inv_def)
  have c: "th_pc s t = WantWrite \<Longrightarrow> 0 < th_count s t" using i by (simp add: inv_def)
  have "th_pc s t = WantRead \<Longrightarrow> \<exists>s'. step s s' \<and> th_pc s' t = Refreshing"
    using begin_refresh [of s t] w by fastforce
  moreover have "th_pc s t = WantMutex \<Longrightarrow> \<forall>u. th_pc s u \<notin> {WantRead, Refreshing, Releasing} \<Longrightarrow>
      \<exists>s'. step s s' \<and> th_pc s' t = WantRead"
    using lock [of s t] m by fastforce
  moreover have "th_pc s t = WantWrite \<Longrightarrow> \<forall>u. th_pc s u \<noteq> Refreshing \<Longrightarrow> \<exists>s'. step s s' \<and> holds_block s' t"
    using block_acquire [of s t] w r c by (fastforce simp: holds_block_def)
  moreover have "th_pc s 0 = Waiting \<Longrightarrow> th_do s \<Longrightarrow> th_running s \<Longrightarrow> \<exists>s'. step s s' \<and> th_pc s' 0 = WantMutex \<and> \<not> th_do s'"
    using task [of s] by fastforce
  ultimately show ?thesis by blast
qed

end
