(* ===== verification/SemiDlfcn.thy ===== *)
theory SemiDlfcn
  imports XhCore
begin

text \<open>
  \<open>libsemi_dlfcn/semi_dlfcn.c\<close>: finding a loaded library by the end of its name and the address
  of one of its symbols, dynamic or not, from the symbol table of its file. The linker's list of
  loaded objects, the auxiliary vector, the API level and the file system are parameters.
\<close>

section \<open>Data\<close>

text \<open>\<open>struct dl_phdr_info\<close>. The name points into a buffer of the iterating function
  (\<open>dlpi_local\<close>) or is owned by the linker.\<close>

record dl_phdr_info =
  dlpi_addr :: u64
  dlpi_name :: "string option"
  dlpi_local :: bool
  dlpi_phdr :: u64
  dlpi_phnum :: u16

record sys =
  sys_sdk :: int \<comment> \<open>\<open>android_get_device_api_level\<close>\<close>
  sys_at_base :: u64 \<comment> \<open>\<open>getauxval(AT_BASE)\<close>\<close>
  sys_loaded :: "dl_phdr_info list" \<comment> \<open>what \<open>dl_iterate_phdr\<close> goes through\<close>
  sys_file :: "string \<Rightarrow> u8 list option" \<comment> \<open>the file \<open>open\<close> gives, if it can be opened\<close>
  sys_mmap :: "u64 \<Rightarrow> u64 \<Rightarrow> bool" \<comment> \<open>whether a mapping at that offset of that size succeeds\<close>

definition SEMI_DLINFO_MAGIC :: u32 where "SEMI_DLINFO_MAGIC = 0xFE5D15D1"

record semi_dlinfo =
  sd_magic :: u32
  sd_pathname :: "string option"
  sd_path_local :: bool
  sd_base_addr :: u64
  sd_phdrs :: u64
  sd_phdr_count :: u32
  sd_load_bias :: u64
  sd_strs :: "u8 list option"
  sd_syms :: "u8 list option"
  sd_sym_count :: u32

text \<open>The state: \<open>s_linker_base\<close>, \<open>s_dl_mutex_address\<close> and the process.\<close>

record linker_cache =
  lc_base :: u64
  lc_mutex :: u64

type_synonym ('d, 'a) icmd = "('d \<times> world, 'a) cmd"

section \<open>Going through the loaded objects\<close>

definition validate_elf_header :: "mem \<Rightarrow> u64 \<Rightarrow> bool run" where
  "validate_elf_header m base_addr =
     bindr (ldbytes m base_addr 4) (\<lambda>magic. if magic \<noteq> ELFMAG then Ret False else
     bindr (ld8 m (base_addr + 4)) (\<lambda>class. if class \<noteq> 2 then Ret False else
     bindr (ld8 m (base_addr + 5)) (\<lambda>data. if data \<noteq> 1 then Ret False else
     bindr (ld8 m (base_addr + 6)) (\<lambda>ver. if ver \<noteq> 1 then Ret False else
     bindr (ld16 m (base_addr + 16)) (\<lambda>e_type. if e_type \<noteq> 2 \<and> e_type \<noteq> 3 then Ret False else
     bindr (ld16 m (base_addr + 18)) (\<lambda>e_machine. if e_machine \<noteq> 183 then Ret False else
     bindr (ld32 m (base_addr + 20)) (\<lambda>e_version. if e_version \<noteq> 1 then Ret False else
     Ret True)))))))"

text \<open>The checks on one line of the maps file: base address and path, or the next line.\<close>

definition legacy_line :: "string \<Rightarrow> (u64 \<times> string) option" where
  "legacy_line line =
     (case sscanf elf_open_format (length line) line of
        ([VNum base_addr, VStr perm, VNum offset], pos) \<Rightarrow>
          if nth_c perm 0 \<noteq> CHR ''r'' \<or> nth_c perm 3 \<noteq> CHR ''p'' \<or> (ucast offset :: u32) \<noteq> 0 then None
          else (case line_pathname 512 line (case pos of None \<Rightarrow> 0 | Some n \<Rightarrow> n) of
              None \<Rightarrow> None
            | Some pathname \<Rightarrow>
                if nth_c pathname 0 = CHR ''['' \<or> take 5 pathname = ''/dev/'' then None
                else Some (base_addr, pathname))
      | _ \<Rightarrow> None)"

fun legacy_loop :: "os \<Rightarrow> (dl_phdr_info \<Rightarrow> ('d, int) icmd) \<Rightarrow> string list \<Rightarrow> ('d, int) icmd" where
  "legacy_loop os cb [] = retc 0"
| "legacy_loop os cb (line # lines) = (\<lambda>(d, w).
     case legacy_line line of
       None \<Rightarrow> legacy_loop os cb lines (d, w)
     | Some (base_addr, pathname) \<Rightarrow>
         if \<not> os_dladdr os w base_addr then legacy_loop os cb lines (d, w)
         else
           bindc (readc (\<lambda>(d, w). validate_elf_header (w_mem w) base_addr)) (\<lambda>valid.
           if \<not> valid then legacy_loop os cb lines else
           bindc (readc (\<lambda>(d, w). ld64 (w_mem w) (base_addr + 32))) (\<lambda>e_phoff.
           bindc (readc (\<lambda>(d, w). ld16 (w_mem w) (base_addr + 56))) (\<lambda>e_phnum.
           bindc (cb \<lparr>dlpi_addr = base_addr, dlpi_name = Some pathname, dlpi_local = True,
                     dlpi_phdr = base_addr + e_phoff, dlpi_phnum = e_phnum\<rparr>) (\<lambda>res.
           if res \<noteq> 0 then retc res else legacy_loop os cb lines)))) (d, w))"

definition legacy_iterate_maps :: "os \<Rightarrow> (dl_phdr_info \<Rightarrow> ('d, int) icmd) \<Rightarrow> ('d, int) icmd" where
  "legacy_iterate_maps os cb = (\<lambda>(d, w).
     case proc_maps w of
       None \<Rightarrow> (Ret 0, (d, w))
     | Some content \<Rightarrow> legacy_loop os cb (file_lines 512 content) (d, w))"

definition LINKER_PATHNAME_SUFFIX :: string where
  "LINKER_PATHNAME_SUFFIX = ''/system/bin/linker64''"

text \<open>\<open>sizeof(pathname)\<close> is the size of the pointer. The data is the base found.\<close>

definition find_linker_base_iter_cb :: "dl_phdr_info \<Rightarrow> (u64, int) icmd" where
  "find_linker_base_iter_cb info = (\<lambda>(base, w).
     let pathname_len = 8 in
     if pathname_len < length LINKER_PATHNAME_SUFFIX then (Ret 0, (base, w))
     else if take (length LINKER_PATHNAME_SUFFIX)
               (drop (pathname_len - length LINKER_PATHNAME_SUFFIX) (case dlpi_name info of Some p \<Rightarrow> p | None \<Rightarrow> [])) =
             LINKER_PATHNAME_SUFFIX
     then (Ret 1, (dlpi_addr info, w))
     else (Ret 0, (base, w)))"

definition get_linker_base_address :: "os \<Rightarrow> sys \<Rightarrow> (linker_cache, u64) icmd" where
  "get_linker_base_address os sys = (\<lambda>(lc, w).
     if lc_base lc \<noteq> 0 then (Ret (lc_base lc), (lc, w))
     else if sys_at_base sys \<noteq> 0 then (Ret (sys_at_base sys), (lc\<lparr>lc_base := sys_at_base sys\<rparr>, w))
     else (case legacy_iterate_maps os find_linker_base_iter_cb (lc_base lc, w) of
         (r, (base, w')) \<Rightarrow> (bindr r (\<lambda>_. Ret base), (lc\<lparr>lc_base := base\<rparr>, w'))))"

section \<open>Looking a symbol up\<close>

text \<open>A heap block read as an array of structures; reading outside it is undefined.\<close>

definition block_bytes :: "u8 list \<Rightarrow> nat \<Rightarrow> nat \<Rightarrow> u8 list run" where
  "block_bytes b off n = (if off + n \<le> length b then Ret (take n (drop off b)) else Undef)"

fun block_streq :: "string \<Rightarrow> u8 list \<Rightarrow> bool run" where
  "block_streq s [] = Undef"
| "block_streq [] (b # bs) = Ret (b = 0)"
| "block_streq (c # cs) (b # bs) = (if b = byte_of c then block_streq cs bs else Ret False)"

text \<open>Fields of an \<open>Elf64_Sym\<close> of 24 bytes: name, info, value.\<close>

definition load_sym :: "u8 list \<Rightarrow> nat \<Rightarrow> (u32 \<times> u8 \<times> u64) run" where
  "load_sym syms i = bindr (block_bytes syms (24 * i) 24) (\<lambda>e.
     Ret (le32 e, e ! 4, le64 (drop 8 e)))"

definition STT_OBJECT :: u8 where "STT_OBJECT = 1"
definition STT_FUNC :: u8 where "STT_FUNC = 2"

fun dlsym_loop :: "semi_dlinfo \<Rightarrow> u8 list \<Rightarrow> u8 list \<Rightarrow> string \<Rightarrow> nat list \<Rightarrow> u64 run" where
  "dlsym_loop d strs syms name [] = Ret 0"
| "dlsym_loop d strs syms name (i # is) =
     bindr (load_sym syms i) (\<lambda>(st_name, st_info, st_value).
       let sym_type = st_info AND 0xf in
       if sym_type = STT_FUNC \<or> sym_type = STT_OBJECT then
         bindr (if unat st_name \<le> length strs then block_streq name (drop (unat st_name) strs) else Undef) (\<lambda>eq.
           if eq then Ret (sd_load_bias d + st_value) else dlsym_loop d strs syms name is)
       else dlsym_loop d strs syms name is)"

text \<open>The handle is a \<open>semi_dlinfo_t\<close>, or any other address.\<close>

datatype dl_handle = Dlinfo semi_dlinfo | OtherPtr u64

definition semi_dlsym :: "mem \<Rightarrow> dl_handle \<Rightarrow> string \<Rightarrow> u64 run" where
  "semi_dlsym m semi_hlib name =
     (case semi_hlib of
        OtherPtr a \<Rightarrow> bindr (ld32 m a) (\<lambda>magic. if magic \<noteq> SEMI_DLINFO_MAGIC then Ret 0 else Undef)
      | Dlinfo d \<Rightarrow>
          if sd_magic d \<noteq> SEMI_DLINFO_MAGIC then Ret 0
          else if sd_sym_count d = 0 then Ret 0
          else (case (sd_strs d, sd_syms d) of
              (Some strs, Some syms) \<Rightarrow> dlsym_loop d strs syms name [0..<unat (sd_sym_count d)]
            | _ \<Rightarrow> Segv))"

definition LINKER_DL_MUTEX_SYMNAME :: string where
  "LINKER_DL_MUTEX_SYMNAME = ''__dl__ZL10g_dl_mutex''"

definition get_dl_mutex_address :: "os \<Rightarrow> sys \<Rightarrow> (linker_cache, u64) icmd" where
  "get_dl_mutex_address os sys = (\<lambda>(lc, w).
     if lc_mutex lc \<noteq> 0 then (Ret (lc_mutex lc), (lc, w))
     else
       bindc (get_linker_base_address os sys) (\<lambda>linker_base.
         if linker_base = 0 then readc (\<lambda>(lc, w). Ret (lc_mutex lc))
         else bindc (readc (\<lambda>(lc, w). semi_dlsym (w_mem w) (OtherPtr linker_base) LINKER_DL_MUTEX_SYMNAME)) (\<lambda>a.
           bindc (updc (\<lambda>(lc, w). (lc\<lparr>lc_mutex := a\<rparr>, w))) (\<lambda>_. retc a))) (lc, w))"

section \<open>Iterating on every API level\<close>

text \<open>The callback's data sits beside the linker cache.\<close>

definition on_data :: "('d, 'a) icmd \<Rightarrow> ('d \<times> linker_cache, 'a) icmd" where
  "on_data m = (\<lambda>((d, lc), w). case m (d, w) of (r, (d', w')) \<Rightarrow> (r, ((d', lc), w')))"

definition on_cache :: "(linker_cache, 'a) icmd \<Rightarrow> ('d \<times> linker_cache, 'a) icmd" where
  "on_cache m = (\<lambda>((d, lc), w). case m (lc, w) of (r, (lc', w')) \<Rightarrow> (r, ((d, lc'), w')))"

fun dl_iterate_phdr :: "(dl_phdr_info \<Rightarrow> ('d, int) icmd) \<Rightarrow> dl_phdr_info list \<Rightarrow> ('d, int) icmd" where
  "dl_iterate_phdr cb [] = retc 0"
| "dl_iterate_phdr cb (info # infos) =
     bindc (cb info) (\<lambda>ret. if ret \<noteq> 0 then retc ret else dl_iterate_phdr cb infos)"

text \<open>The linker itself, which the lists of these API levels leave out.\<close>

definition iterate_linker ::
    "os \<Rightarrow> sys \<Rightarrow> (dl_phdr_info \<Rightarrow> ('d, int) icmd) \<Rightarrow> ('d \<times> linker_cache, int) icmd" where
  "iterate_linker os sys cb =
     bindc (on_cache (get_linker_base_address os sys)) (\<lambda>linker_base.
       if linker_base = 0 then retc 0
       else
         bindc (readc (\<lambda>(d, w). ld64 (w_mem w) (linker_base + 32))) (\<lambda>e_phoff.
         bindc (readc (\<lambda>(d, w). ld16 (w_mem w) (linker_base + 56))) (\<lambda>e_phnum.
         on_data (cb \<lparr>dlpi_addr = linker_base, dlpi_name = Some LINKER_PATHNAME_SUFFIX, dlpi_local = False,
                  dlpi_phdr = linker_base + e_phoff, dlpi_phnum = e_phnum\<rparr>))))"

text \<open>The mutex of the linker, where one is found, is held from before the linker's entry to the end of
  the list; it does not change what is visited.\<close>

definition semi_dl_iterate_phdr ::
    "os \<Rightarrow> sys \<Rightarrow> (dl_phdr_info \<Rightarrow> ('d, int) icmd) \<Rightarrow> ('d \<times> linker_cache, int) icmd" where
  "semi_dl_iterate_phdr os sys cb =
     (if sys_sdk sys < 21 then on_data (legacy_iterate_maps os cb)
      else if sys_sdk sys \<le> 22 then
        bindc (on_cache (get_dl_mutex_address os sys)) (\<lambda>dl_mutex.
        bindc (iterate_linker os sys cb) (\<lambda>ret.
          if ret \<noteq> 0 then retc ret else on_data (dl_iterate_phdr cb (sys_loaded sys))))
      else if sys_sdk sys \<le> 26 then
        bindc (iterate_linker os sys cb) (\<lambda>ret.
          if ret \<noteq> 0 then retc ret else on_data (dl_iterate_phdr cb (sys_loaded sys)))
      else on_data (dl_iterate_phdr cb (sys_loaded sys)))"

section \<open>Opening a loaded library\<close>

definition ends_with :: "string \<Rightarrow> string \<Rightarrow> bool" where
  "ends_with suffix s \<longleftrightarrow> length suffix \<le> length s \<and> drop (length s - length suffix) s = suffix"

definition dlopen_iter_cb :: "string \<Rightarrow> dl_phdr_info \<Rightarrow> (semi_dlinfo, int) icmd" where
  "dlopen_iter_cb name_suffix info =
     (case dlpi_name info of
        None \<Rightarrow> retc 0
      | Some pathname \<Rightarrow>
          if length pathname < length name_suffix then retc 0
          else if drop (length pathname - length name_suffix) pathname = name_suffix then
            bindc (updc (\<lambda>(d, w). (d\<lparr>sd_pathname := Some pathname, sd_path_local := dlpi_local info,
                                     sd_base_addr := dlpi_addr info\<rparr>, w))) (\<lambda>_.
            bindc (readc (\<lambda>(d, w). ld64 (w_mem w) (dlpi_addr info + 32))) (\<lambda>e_phoff.
            bindc (updc (\<lambda>(d, w). (d\<lparr>sd_phdrs := dlpi_addr info + e_phoff\<rparr>, w))) (\<lambda>_.
            bindc (readc (\<lambda>(d, w). ld16 (w_mem w) (dlpi_addr info + 56))) (\<lambda>e_phnum.
            bindc (updc (\<lambda>(d, w). (d\<lparr>sd_phdr_count := ucast e_phnum\<rparr>, w))) (\<lambda>_.
            retc 1)))))
          else retc 0)"

text \<open>
  What \<open>memcpy\<close> reads of a shared mapping of the file: its bytes, zeros up to the end of the last
  page, and a fault on the pages after it.
\<close>

definition mapped_bytes :: "u8 list \<Rightarrow> u64 \<Rightarrow> u64 \<Rightarrow> u8 list run" where
  "mapped_bytes file off sz =
     (let file_pages = (length file + 4095) div 4096 * 4096; off = unat off; n = unat sz in
      if n = 0 then Ret []
      else if file_pages < off + n then Segv
      else Ret (take n (drop off file) @ replicate (n - (length file - off)) 0))"

text \<open>The result and what \<open>*section_out\<close> becomes, if it is written.\<close>

definition load_section ::
    "os \<Rightarrow> sys \<Rightarrow> u8 list \<Rightarrow> u64 \<Rightarrow> u64 \<Rightarrow> (world, bool \<times> u8 list option) cmd" where
  "load_section os sys file file_offset section_size =
     (let aligned_file_offset = file_offset AND NOT 4095;
          bias = file_offset - aligned_file_offset;
          map_size = section_size + 4096 in
      if sys_mmap sys aligned_file_offset map_size then
        bindc (malloc_c os) (\<lambda>ok. if \<not> ok then retc (False, None) else
        bindc (readc (\<lambda>w. mapped_bytes file (aligned_file_offset + bias) section_size)) (\<lambda>bytes.
        retc (True, Some bytes)))
      else retc (False, None))"

text \<open>The first \<open>PT_LOAD\<close> header gives the load bias; without one it stays as it is.\<close>

fun first_load_bias :: "mem \<Rightarrow> semi_dlinfo \<Rightarrow> nat list \<Rightarrow> (bool \<times> semi_dlinfo) run" where
  "first_load_bias m d [] = Ret (True, d)"
| "first_load_bias m d (i # is) =
     (let phdr = sd_phdrs d + 56 * of_nat i in
      bindr (ld32 m phdr) (\<lambda>p_type.
      if p_type = PT_LOAD then
        bindr (ld64 m (phdr + 16)) (\<lambda>p_vaddr.
        if sd_base_addr d < p_vaddr then Ret (False, d)
        else Ret (True, d\<lparr>sd_load_bias := sd_base_addr d - p_vaddr\<rparr>))
      else first_load_bias m d is))"

text \<open>An entry of the section header table, 64 bytes: type, offset, size and entry size.\<close>

definition load_shdr :: "u8 list \<Rightarrow> nat \<Rightarrow> (u32 \<times> u64 \<times> u64 \<times> u64) run" where
  "load_shdr shdrs i = bindr (block_bytes shdrs (64 * i) 64) (\<lambda>e.
     Ret (le32 (drop 4 e), le64 (drop 24 e), le64 (drop 32 e), le64 (drop 56 e)))"

definition SHT_SYMTAB :: u32 where "SHT_SYMTAB = 2"
definition SHT_STRTAB :: u32 where "SHT_STRTAB = 3"

fun section_loop ::
    "os \<Rightarrow> sys \<Rightarrow> u8 list \<Rightarrow> u16 \<Rightarrow> u8 list \<Rightarrow> nat \<Rightarrow> bool \<Rightarrow> bool \<Rightarrow> (semi_dlinfo, bool \<times> bool) icmd" where
  "section_loop os sys file e_shstrndx shdrs 0 strtbl_ok symtbl_ok = retc (strtbl_ok, symtbl_ok)"
| "section_loop os sys file e_shstrndx shdrs (Suc shdr_idx) strtbl_ok symtbl_ok =
     bindc (readc (\<lambda>_. load_shdr shdrs shdr_idx)) (\<lambda>(sh_type, sh_offset, sh_size, sh_entsize).
     bindc (if sh_type = SHT_STRTAB \<and> shdr_idx \<noteq> unat e_shstrndx then
              bindc (liftw (load_section os sys file sh_offset sh_size)) (\<lambda>(ok, out).
              bindc (updc (\<lambda>(d, w). (d\<lparr>sd_strs := (if ok then out else None)\<rparr>, w))) (\<lambda>_.
              retc (ok, symtbl_ok)))
            else if sh_type = SHT_SYMTAB then
              bindc (liftw (load_section os sys file sh_offset sh_size)) (\<lambda>(ok, out).
              if ok then
                bindc (updc (\<lambda>(d, w). (d\<lparr>sd_syms := out\<rparr>, w))) (\<lambda>_.
                bindc (readc (\<lambda>_. if sh_entsize = 0 then Undef else Ret (ucast (sh_size div sh_entsize)))) (\<lambda>n.
                bindc (updc (\<lambda>(d, w). (d\<lparr>sd_sym_count := n\<rparr>, w))) (\<lambda>_.
                retc (strtbl_ok, True))))
              else
                bindc (updc (\<lambda>(d, w). (d\<lparr>sd_syms := None, sd_sym_count := 0\<rparr>, w))) (\<lambda>_.
                retc (strtbl_ok, False)))
            else retc (strtbl_ok, symtbl_ok)) (\<lambda>(strtbl_ok, symtbl_ok).
     if strtbl_ok \<and> symtbl_ok then retc (strtbl_ok, symtbl_ok)
     else section_loop os sys file e_shstrndx shdrs shdr_idx strtbl_ok symtbl_ok))"

text \<open>
  \<open>open\<close> reads the path through a pointer that is dead where it pointed into a buffer of the
  iterating function. The size of the header table is an \<open>int\<close> product.
\<close>

definition fill_rest_neccessary_data :: "os \<Rightarrow> sys \<Rightarrow> (semi_dlinfo, bool) icmd" where
  "fill_rest_neccessary_data os sys =
     bindc (readc (\<lambda>(d, w). first_load_bias (w_mem w) d [0..<unat (sd_phdr_count d)])) (\<lambda>(ok, d).
     bindc (updc (\<lambda>(_, w). (d, w))) (\<lambda>_.
     if \<not> ok then retc False else
     bindc (readc (\<lambda>_. if sd_path_local d then Undef
                       else case sd_pathname d of None \<Rightarrow> Ret None | Some p \<Rightarrow> Ret (sys_file sys p))) (\<lambda>fd.
     case fd of None \<Rightarrow> retc False
     | Some file \<Rightarrow>
       bindc (readc (\<lambda>(d, w). ld64 (w_mem w) (sd_base_addr d + 40))) (\<lambda>e_shoff.
       bindc (readc (\<lambda>(d, w). ld16 (w_mem w) (sd_base_addr d + 58))) (\<lambda>e_shentsize.
       bindc (readc (\<lambda>(d, w). ld16 (w_mem w) (sd_base_addr d + 60))) (\<lambda>e_shnum.
       bindc (readc (\<lambda>_. if unat e_shentsize * unat e_shnum < 2 ^ 31
                         then Ret (of_nat (unat e_shentsize * unat e_shnum)) else Undef)) (\<lambda>table_size.
       bindc (liftw (load_section os sys file e_shoff table_size)) (\<lambda>(ok, out).
       if \<not> ok then retc False else
       bindc (readc (\<lambda>(d, w). ld16 (w_mem w) (sd_base_addr d + 62))) (\<lambda>e_shstrndx.
       bindc (section_loop os sys file e_shstrndx (case out of Some shdrs \<Rightarrow> shdrs | None \<Rightarrow> []) (unat e_shnum)
                False False) (\<lambda>(strtbl_ok, symtbl_ok).
       retc (strtbl_ok \<and> symtbl_ok)))))))))))"

definition zero_dlinfo :: semi_dlinfo where
  "zero_dlinfo = \<lparr>sd_magic = 0, sd_pathname = None, sd_path_local = False, sd_base_addr = 0, sd_phdrs = 0,
     sd_phdr_count = 0, sd_load_bias = 0, sd_strs = None, sd_syms = None, sd_sym_count = 0\<rparr>"

text \<open>The block of the result, from its allocation to the value returned.\<close>

definition dlopen_result :: "os \<Rightarrow> sys \<Rightarrow> string \<Rightarrow> (linker_cache, dl_handle option) icmd" where
  "dlopen_result os sys name_suffix =
     bindc (liftw (malloc_c os)) (\<lambda>ok. if \<not> ok then retc None else
     (\<lambda>(lc, w).
       case bindc (semi_dl_iterate_phdr os sys (dlopen_iter_cb name_suffix)) (\<lambda>_.
            bindc (readc (\<lambda>((d, lc), w). Ret (sd_base_addr d))) (\<lambda>base_addr.
            if base_addr \<noteq> 0 then on_data (fill_rest_neccessary_data os sys) else retc False))
              ((zero_dlinfo\<lparr>sd_magic := SEMI_DLINFO_MAGIC\<rparr>, lc), w) of
         (r, ((d, lc'), w')) \<Rightarrow>
           (bindr r (\<lambda>ok. Ret (if ok then Some (Dlinfo d) else None)), (lc', w'))))"

definition semi_dlopen :: "os \<Rightarrow> sys \<Rightarrow> string option \<Rightarrow> (linker_cache, dl_handle option) icmd" where
  "semi_dlopen os sys pathname =
     (case pathname of
        None \<Rightarrow> retc None
      | Some p \<Rightarrow>
          if p = [] then retc None
          else if p ! 0 \<noteq> CHR ''/'' then
            bindc (liftw (malloc_c os)) (\<lambda>ok. if \<not> ok then retc None
            else dlopen_result os sys (CHR ''/'' # p))
          else dlopen_result os sys p)"

section \<open>Symbols by name\<close>

text \<open>A symbol table as a list of names, \<open>st_info\<close> bytes and values, and how the two tables hold it.\<close>

type_synonym symbols = "(string \<times> u8 \<times> u64) list"

definition block_str :: "u8 list \<Rightarrow> string \<Rightarrow> bool" where
  "block_str bs s \<longleftrightarrow> take (Suc (length s)) bs = map byte_of s @ [0] \<and> CHR 0x00 \<notin> set s"

definition holds_symbols :: "u8 list \<Rightarrow> u8 list \<Rightarrow> symbols \<Rightarrow> bool" where
  "holds_symbols strs syms tab \<longleftrightarrow> list_all (\<lambda>(i, (s, info, v)).
     24 * i + 24 \<le> length syms \<and>
     (let e = take 24 (drop (24 * i) syms) in
      block_str (drop (unat (le32 e)) strs) s \<and> e ! 4 = info \<and> le64 (drop 8 e) = v)) (enumerate 0 tab)"

text \<open>The first function or object of that name, at its address.\<close>

definition symbol_address :: "u64 \<Rightarrow> symbols \<Rightarrow> string \<Rightarrow> u64" where
  "symbol_address bias tab name =
     (case find (\<lambda>(s, info, v). s = name \<and> (info AND 0xf = STT_FUNC \<or> info AND 0xf = STT_OBJECT)) tab of
        None \<Rightarrow> 0 | Some (s, info, v) \<Rightarrow> bias + v)"

lemma block_streq_str:
  assumes "take (Suc (length s)) bs = map byte_of s @ [0]" and "CHR 0x00 \<notin> set s" and "CHR 0x00 \<notin> set n"
  shows "block_streq n bs = Ret (n = s)"
  using assms
proof (induction n arbitrary: bs s)
  case Nil
  then show ?case by (cases s; cases bs) auto
next
  case (Cons c n)
  then show ?case by (cases s; cases bs) (auto simp: eq_commute [of 0])
qed

lemma block_strD:
  assumes "block_str (drop k strs) s" and "CHR 0x00 \<notin> set n"
  shows "k \<le> length strs" "block_streq n (drop k strs) = Ret (n = s)"
proof -
  show "k \<le> length strs" using assms(1) by (rule contrapos_pp) (simp add: block_str_def)
  show "block_streq n (drop k strs) = Ret (n = s)"
    using assms block_streq_str by (simp add: block_str_def)
qed

lemma symbol_address_Cons:
  "symbol_address bias ((s, info, v) # tab) name =
     (if s = name \<and> (info AND 0xf = STT_FUNC \<or> info AND 0xf = STT_OBJECT) then bias + v
      else symbol_address bias tab name)"
  by (auto simp: symbol_address_def)

lemma dlsym_loop_spec:
  assumes "list_all (\<lambda>(i, (s, info, v)).
     24 * i + 24 \<le> length syms \<and>
     (let e = take 24 (drop (24 * i) syms) in
      block_str (drop (unat (le32 e)) strs) s \<and> e ! 4 = info \<and> le64 (drop 8 e) = v)) (enumerate k tab)"
    and "CHR 0x00 \<notin> set name"
  shows "dlsym_loop d strs syms name [k..<k + length tab] = Ret (symbol_address (sd_load_bias d) tab name)"
  using assms(1)
proof (induction tab arbitrary: k)
  case Nil
  then show ?case by (simp add: symbol_address_def)
next
  case (Cons t tab)
  obtain s info v where t: "t = (s, info, v)" by (cases t)
  have IH: "dlsym_loop d strs syms name [Suc k..<Suc k + length tab] =
      Ret (symbol_address (sd_load_bias d) tab name)"
    using Cons.prems by (intro Cons.IH) simp
  define e where "e = take 24 (drop (24 * k) syms)"
  have e: "24 * k + 24 \<le> length syms" "block_str (drop (unat (le32 e)) strs) s"
      "e ! 4 = info" "le64 (drop 8 e) = v"
    using Cons.prems by (simp_all add: t e_def Let_def)
  have load: "load_sym syms k = Ret (le32 e, info, v)"
    using e(1,3,4) by (simp add: load_sym_def block_bytes_def e_def [symmetric])
  have upt: "[k..<Suc (k + length tab)] = k # [Suc k..<Suc (k + length tab)]"
    by (subst upt_conv_Cons) (simp_all del: upt_Suc)
  show ?case
    unfolding t symbol_address_Cons
    using block_strD [OF e(2) assms(2)] IH by (auto simp: load Let_def upt simp del: upt_Suc)
qed

text \<open>C37: \<open>semi_dlsym\<close> looks a name up in a symbol table the way a dynamic linker does: where the
  string and symbol blocks of a handle hold a list of symbols, the result is the load bias plus the
  value of the first function or object of that name, and NULL where there is none; symbols of other
  types are passed over, and no read leaves the blocks.\<close>

theorem semi_dlsym_correct:
  assumes "sd_magic d = SEMI_DLINFO_MAGIC" and "sd_strs d = Some strs" and "sd_syms d = Some syms"
    and "unat (sd_sym_count d) = length tab" and "holds_symbols strs syms tab"
    and "CHR 0x00 \<notin> set name"
  shows "semi_dlsym m (Dlinfo d) name = Ret (symbol_address (sd_load_bias d) tab name)"
proof (cases "sd_sym_count d = 0")
  case True
  with assms(4) have "tab = []" by simp
  with True assms(1) show ?thesis by (simp add: semi_dlsym_def symbol_address_def)
next
  case False
  with dlsym_loop_spec [of syms strs 0 tab name d] assms show ?thesis
    by (simp add: semi_dlsym_def holds_symbols_def)
qed

definition dl_symbols :: symbols where
  "dl_symbols = [(''a'', 0, 1), (''open'', 0x22, 2), (''a'', 0x12, 3), (''a'', 0x11, 4)]"

definition dl_strs :: "u8 list" where
  "dl_strs = 0 # map byte_of ''open'' @ [0] @ map byte_of ''a'' @ [0]"

definition dl_syms :: "u8 list" where
  "dl_syms = concat (map (\<lambda>(k, info, v). bytes32 k @ [info, 0, 1, 0] @ bytes64 v @ bytes64 8)
     [(6, 0, 1), (1, 0x22, 2), (6, 0x12, 3), (6, 0x11, 4)])"

definition dl_sample :: semi_dlinfo where
  "dl_sample = zero_dlinfo\<lparr>sd_magic := SEMI_DLINFO_MAGIC, sd_load_bias := 0x7000, sd_strs := Some dl_strs,
     sd_syms := Some dl_syms, sd_sym_count := 4\<rparr>"

lemma dl_holds: "holds_symbols dl_strs dl_syms dl_symbols"
  by code_simp

theorem semi_dlsym_correct_witness:
  "semi_dlsym (\<lambda>_. None) (Dlinfo dl_sample) ''a'' = Ret 0x7003 \<and>
   semi_dlsym (\<lambda>_. None) (Dlinfo dl_sample) ''b'' = Ret 0"
proof -
  have "semi_dlsym (\<lambda>_. None) (Dlinfo dl_sample) n =
      Ret (symbol_address (sd_load_bias dl_sample) dl_symbols n)" if "CHR 0x00 \<notin> set n" for n
    by (rule semi_dlsym_correct [OF _ _ _ _ dl_holds that])
      (simp_all add: dl_sample_def dl_symbols_def)
  then show ?thesis
    by (simp add: symbol_address_def dl_symbols_def dl_sample_def zero_dlinfo_def STT_FUNC_def STT_OBJECT_def)
qed

section \<open>Which library, which sections\<close>

text \<open>What \<open>semi_dlopen\<close> needs of a loaded image and its file: the fields of the ELF header in memory,
  the first \<open>PT_LOAD\<close> program header, and the section header table of the file.\<close>

type_synonym section_hdr = "u32 \<times> u64 \<times> u64 \<times> u64"

record image =
  im_phoff :: u64
  im_phnum :: u16
  im_load :: nat \<comment> \<open>index of the first \<open>PT_LOAD\<close> header\<close>
  im_vaddr :: u64 \<comment> \<open>its \<open>p_vaddr\<close>\<close>
  im_shoff :: u64
  im_shnum :: u16
  im_shstrndx :: u16

definition section_hdr_at :: "u8 list \<Rightarrow> nat \<Rightarrow> section_hdr" where
  "section_hdr_at file off =
     (let e = take 64 (drop off file) in (le32 (drop 4 e), le64 (drop 24 e), le64 (drop 32 e), le64 (drop 56 e)))"

definition section_table :: "u8 list \<Rightarrow> image \<Rightarrow> section_hdr list" where
  "section_table file im = map (\<lambda>i. section_hdr_at file (unat (im_shoff im) + 64 * i)) [0..<unat (im_shnum im)]"

fun in_file :: "u8 list \<Rightarrow> section_hdr \<Rightarrow> bool" where
  "in_file file (sh_type, off, sz, entsize) \<longleftrightarrow>
     (sh_type = SHT_STRTAB \<or> sh_type = SHT_SYMTAB \<longrightarrow> unat off + unat sz \<le> length file) \<and>
     (sh_type = SHT_SYMTAB \<longrightarrow> entsize \<noteq> 0)"

fun section_bytes :: "u8 list \<Rightarrow> section_hdr \<Rightarrow> u8 list" where
  "section_bytes file (sh_type, off, sz, entsize) = take (unat sz) (drop (unat off) file)"

fun section_count :: "section_hdr \<Rightarrow> u32" where
  "section_count (sh_type, off, sz, entsize) = ucast (sz div entsize)"

definition image_ok :: "mem \<Rightarrow> u64 \<Rightarrow> u8 list \<Rightarrow> image \<Rightarrow> bool" where
  "image_ok m base file im \<longleftrightarrow>
     ld64 m (base + 32) = Ret (im_phoff im) \<and> ld16 m (base + 56) = Ret (im_phnum im) \<and>
     ld64 m (base + 40) = Ret (im_shoff im) \<and> ld16 m (base + 58) = Ret 64 \<and>
     ld16 m (base + 60) = Ret (im_shnum im) \<and> ld16 m (base + 62) = Ret (im_shstrndx im) \<and>
     im_load im < unat (im_phnum im) \<and>
     list_all (\<lambda>i. case ld32 m (base + im_phoff im + 56 * of_nat i) of Ret t \<Rightarrow> t \<noteq> PT_LOAD | _ \<Rightarrow> False)
       [0..<im_load im] \<and>
     ld32 m (base + im_phoff im + 56 * of_nat (im_load im)) = Ret PT_LOAD \<and>
     ld64 m (base + im_phoff im + 56 * of_nat (im_load im) + 16) = Ret (im_vaddr im) \<and>
     im_vaddr im \<le> base \<and>
     unat (im_shoff im) + 64 * unat (im_shnum im) \<le> length file \<and>
     list_all (in_file file) (section_table file im)"

definition is_str :: "nat \<Rightarrow> section_hdr list \<Rightarrow> nat \<Rightarrow> bool" where
  "is_str strx secs i \<longleftrightarrow> i < length secs \<and> fst (secs ! i) = SHT_STRTAB \<and> i \<noteq> strx"

definition is_sym :: "section_hdr list \<Rightarrow> nat \<Rightarrow> bool" where
  "is_sym secs i \<longleftrightarrow> i < length secs \<and> fst (secs ! i) = SHT_SYMTAB"

text \<open>The two sections loaded: whichever kind completes the pair is the last of its kind in the table,
  the other is the next of its kind after it.\<close>

definition chosen :: "nat \<Rightarrow> section_hdr list \<Rightarrow> nat \<Rightarrow> nat \<Rightarrow> bool" where
  "chosen strx secs j k \<longleftrightarrow> is_str strx secs j \<and> is_sym secs k \<and>
     (if k < j then list_all (\<lambda>i. \<not> is_sym secs i) [Suc k..<length secs] \<and> list_all (\<lambda>i. \<not> is_str strx secs i) [Suc k..<j]
      else list_all (\<lambda>i. \<not> is_str strx secs i) [Suc j..<length secs] \<and> list_all (\<lambda>i. \<not> is_sym secs i) [Suc j..<k])"

fun scan :: "nat \<Rightarrow> section_hdr list \<Rightarrow> nat \<Rightarrow> nat option \<Rightarrow> nat option \<Rightarrow> nat option \<times> nat option" where
  "scan strx secs 0 st sy = (st, sy)"
| "scan strx secs (Suc n) st sy =
     (let st = (if is_str strx secs n then Some n else st);
          sy = (if \<not> is_str strx secs n \<and> is_sym secs n then Some n else sy) in
      if st \<noteq> None \<and> sy \<noteq> None then (st, sy) else scan strx secs n st sy)"

lemma sht_distinct [simp]: "SHT_SYMTAB \<noteq> SHT_STRTAB" "SHT_STRTAB \<noteq> SHT_SYMTAB"
  by (simp_all add: SHT_STRTAB_def SHT_SYMTAB_def)

lemma is_str_not_sym [simp]: "is_str strx secs i \<Longrightarrow> \<not> is_sym secs i"
  by (simp add: is_str_def is_sym_def)

lemma scan_sym_last:
  assumes "k < n" and "n \<le> length secs" and "is_str strx secs j" and "is_sym secs k" and "k < j"
    and "\<forall>i. k < i \<longrightarrow> \<not> is_sym secs i" and "\<forall>i. k < i \<longrightarrow> i < j \<longrightarrow> \<not> is_str strx secs i"
    and "j < n \<or> st = Some j"
  shows "scan strx secs n st None = (Some j, Some k)"
  using assms(1,2,8)
proof (induction n arbitrary: st)
  case (Suc n)
  consider "n = k" | "k < n" "is_str strx secs n" | "k < n" "\<not> is_str strx secs n"
    using Suc.prems by linarith
  then show ?case
  proof cases
    case 1
    then have "st = Some j" using Suc.prems assms(5) by auto
    then show ?thesis using 1 assms(4) is_str_not_sym by (auto simp: Let_def)
  next
    case 2
    then have "j \<le> n" using assms(7) by (metis not_le)
    then have "j < n \<or> Some n = Some j" by auto
    then have "scan strx secs n (Some n) None = (Some j, Some k)"
      using Suc.IH Suc.prems 2 by simp
    then show ?thesis using 2 by (simp add: Let_def)
  next
    case 3
    then have "n \<noteq> j" using assms(3) by auto
    then have "j < n \<or> st = Some j" using Suc.prems by auto
    then have "scan strx secs n st None = (Some j, Some k)"
      using Suc.IH Suc.prems 3 by simp
    then show ?thesis using 3 assms(6) by (simp add: Let_def)
  qed
qed simp

lemma scan_str_last:
  assumes "j < n" and "n \<le> length secs" and "is_str strx secs j" and "is_sym secs k" and "j < k"
    and "\<forall>i. j < i \<longrightarrow> \<not> is_str strx secs i" and "\<forall>i. j < i \<longrightarrow> i < k \<longrightarrow> \<not> is_sym secs i"
    and "k < n \<or> sy = Some k"
  shows "scan strx secs n None sy = (Some j, Some k)"
  using assms(1,2,8)
proof (induction n arbitrary: sy)
  case (Suc n)
  consider "n = j" | "j < n" "is_sym secs n" | "j < n" "\<not> is_sym secs n"
    using Suc.prems by linarith
  then show ?case
  proof cases
    case 1
    then have "sy = Some k" using Suc.prems assms(5) by auto
    then show ?thesis using 1 assms(3) by (auto simp: Let_def)
  next
    case 2
    then have "k \<le> n" using assms(7) by (metis not_le)
    then have "k < n \<or> Some n = Some k" by auto
    then have "scan strx secs n None (Some n) = (Some j, Some k)"
      using Suc.IH Suc.prems 2 by simp
    then show ?thesis using 2 assms(6) by (simp add: Let_def)
  next
    case 3
    then have "n \<noteq> k" using assms(4) by auto
    then have "k < n \<or> sy = Some k" using Suc.prems by auto
    then have "scan strx secs n None sy = (Some j, Some k)"
      using Suc.IH Suc.prems 3 by simp
    then show ?thesis using 3 assms(6) by (simp add: Let_def)
  qed
qed simp

lemma scan_chosen:
  assumes "chosen strx secs j k"
  shows "scan strx secs (length secs) None None = (Some j, Some k)"
proof -
  have jk: "is_str strx secs j" "is_sym secs k" "j < length secs" "k < length secs" "j \<noteq> k"
    using assms by (auto simp: chosen_def is_str_def is_sym_def)
  have out: "\<not> is_sym secs i" "\<not> is_str strx secs i" if "length secs \<le> i" for i
    using that by (simp_all add: is_sym_def is_str_def)
  show ?thesis
  proof (cases "k < j")
    case True
    with assms have "\<forall>i. k < i \<longrightarrow> \<not> is_sym secs i" "\<forall>i. k < i \<longrightarrow> i < j \<longrightarrow> \<not> is_str strx secs i"
      using out by (auto simp: chosen_def list_all_iff Suc_le_eq not_less [symmetric])
    with True jk show ?thesis by (intro scan_sym_last) auto
  next
    case False
    with assms have "\<forall>i. j < i \<longrightarrow> \<not> is_str strx secs i" "\<forall>i. j < i \<longrightarrow> i < k \<longrightarrow> \<not> is_sym secs i"
      using out by (auto simp: chosen_def list_all_iff Suc_le_eq not_less [symmetric])
    with False jk show ?thesis by (intro scan_str_last) auto
  qed
qed


text \<open>An environment where every allocation and every mapping succeeds.\<close>

definition resources :: "os \<Rightarrow> sys \<Rightarrow> bool" where
  "resources os sys \<longleftrightarrow> (\<forall>n. os_malloc os n) \<and> (\<forall>off n. sys_mmap sys off n)"

lemma load_section_ok:
  assumes "resources os sys" and "unat off + unat n \<le> length file"
  shows "load_section os sys file off n w =
    (Ret (True, Some (take (unat n) (drop (unat off) file))), w\<lparr>allocs := Suc (allocs w)\<rparr>)"
proof -
  have "length file \<le> (length file + 4095) div 4096 * 4096" by simp
  then have "\<not> (length file + 4095) div 4096 * 4096 < unat off + unat n" using assms(2) by linarith
  then have "mapped_bytes file off n = Ret (take (unat n) (drop (unat off) file))"
    using assms(2) by (simp add: mapped_bytes_def Let_def)
  then show ?thesis
    using assms(1) by (simp add: load_section_def resources_def bindc_def malloc_c_def Let_def)
qed

text \<open>The handle once given sections have been loaded.\<close>

definition with_sections ::
    "u8 list \<Rightarrow> section_hdr list \<Rightarrow> nat option \<Rightarrow> nat option \<Rightarrow> semi_dlinfo \<Rightarrow> semi_dlinfo" where
  "with_sections file secs st sy d =
     d\<lparr>sd_strs := (case st of None \<Rightarrow> sd_strs d | Some j \<Rightarrow> Some (section_bytes file (secs ! j))),
       sd_syms := (case sy of None \<Rightarrow> sd_syms d | Some k \<Rightarrow> Some (section_bytes file (secs ! k))),
       sd_sym_count := (case sy of None \<Rightarrow> sd_sym_count d | Some k \<Rightarrow> section_count (secs ! k))\<rparr>"

lemma with_sections_simps:
  "with_sections file secs (Some j) sy d =
     with_sections file secs None sy d\<lparr>sd_strs := Some (section_bytes file (secs ! j))\<rparr>"
  "with_sections file secs st (Some k) d =
     with_sections file secs st None d\<lparr>sd_syms := Some (section_bytes file (secs ! k)),
       sd_sym_count := section_count (secs ! k)\<rparr>"
  by (simp_all add: with_sections_def)

lemma section_step:
  assumes "resources os sys" and "load_shdr shdrs n = Ret (secs ! n)" and "in_file file (secs ! n)"
    and "n < length secs"
    and "st' = (if is_str (unat strx) secs n then Some n else st)"
    and "sy' = (if \<not> is_str (unat strx) secs n \<and> is_sym secs n then Some n else sy)"
  shows "\<exists>a'. section_loop os sys file strx shdrs (Suc n) (st \<noteq> None) (sy \<noteq> None)
      (with_sections file secs st sy d, w\<lparr>allocs := a\<rparr>) =
    (if st' \<noteq> None \<and> sy' \<noteq> None then retc (True, True)
     else section_loop os sys file strx shdrs n (st' \<noteq> None) (sy' \<noteq> None))
      (with_sections file secs st' sy' d, w\<lparr>allocs := a'\<rparr>)"
proof -
  obtain t off sz es where sec: "secs ! n = (t, off, sz, es)" by (cases "secs ! n")
  consider "is_str (unat strx) secs n" | "\<not> is_str (unat strx) secs n" "is_sym secs n"
    | "\<not> is_str (unat strx) secs n" "\<not> is_sym secs n" by blast
  then show ?thesis
  proof cases
    case 1
    then have t: "t = SHT_STRTAB" "n \<noteq> unat strx" using sec by (auto simp: is_str_def)
    have load: "load_section os sys file off sz w =
        (Ret (True, Some (section_bytes file (secs ! n))), w\<lparr>allocs := Suc (allocs w)\<rparr>)" for w
      using load_section_ok [OF assms(1)] assms(3) sec t(1) by simp
    show ?thesis
      using 1 t by (intro exI [of _ "Suc a"])
        (simp add: assms(2,5,6) sec bindc_def liftw_def load with_sections_def)
  next
    case 2
    then have t: "t = SHT_SYMTAB" using sec by (auto simp: is_sym_def)
    have load: "load_section os sys file off sz w =
        (Ret (True, Some (section_bytes file (secs ! n))), w\<lparr>allocs := Suc (allocs w)\<rparr>)" for w
      using load_section_ok [OF assms(1)] assms(3) sec t(1) by simp
    have "es \<noteq> 0" using assms(3) sec t by simp
    with 2 t show ?thesis by (intro exI [of _ "Suc a"])
        (simp add: assms(2,5,6) sec bindc_def liftw_def load with_sections_def)
  next
    case 3
    then have "\<not> (t = SHT_STRTAB \<and> n \<noteq> unat strx)" "t \<noteq> SHT_SYMTAB"
      using sec assms(4) by (auto simp: is_str_def is_sym_def)
    with 3 show ?thesis by (intro exI [of _ a]) (auto simp add: assms(2,5,6) sec bindc_def)
  qed
qed


lemma section_loop_scan:
  assumes "resources os sys" and "\<forall>i < length secs. load_shdr shdrs i = Ret (secs ! i)"
    and "list_all (in_file file) secs" and "n \<le> length secs" and "\<not> (st \<noteq> None \<and> sy \<noteq> None)"
    and "scan (unat strx) secs n st sy = (Some j, Some k)"
  shows "\<exists>a'. section_loop os sys file strx shdrs n (st \<noteq> None) (sy \<noteq> None)
      (with_sections file secs st sy d, w\<lparr>allocs := a\<rparr>) =
    (Ret (True, True), (with_sections file secs (Some j) (Some k) d, w\<lparr>allocs := a'\<rparr>))"
  using assms(4-6)
proof (induction n arbitrary: st sy a)
  case 0
  then show ?case by simp
next
  case (Suc n)
  define st' sy' where "st' = (if is_str (unat strx) secs n then Some n else st)"
    and "sy' = (if \<not> is_str (unat strx) secs n \<and> is_sym secs n then Some n else sy)"
  have n: "n < length secs" and shdr: "load_shdr shdrs n = Ret (secs ! n)" "in_file file (secs ! n)"
    using Suc.prems assms(2,3) by (simp_all add: list_all_length)
  obtain a1 where step: "section_loop os sys file strx shdrs (Suc n) (st \<noteq> None) (sy \<noteq> None)
      (with_sections file secs st sy d, w\<lparr>allocs := a\<rparr>) =
    (if st' \<noteq> None \<and> sy' \<noteq> None then retc (True, True)
     else section_loop os sys file strx shdrs n (st' \<noteq> None) (sy' \<noteq> None))
      (with_sections file secs st' sy' d, w\<lparr>allocs := a1\<rparr>)"
    using section_step [OF assms(1) shdr n st'_def sy'_def] by blast
  show ?case
  proof (cases "st' \<noteq> None \<and> sy' \<noteq> None")
    case True
    then have "st' = Some j" "sy' = Some k"
      using Suc.prems(3) by (simp_all add: Let_def st'_def [symmetric] sy'_def [symmetric])
    then show ?thesis unfolding step by (intro exI [of _ a1]) simp
  next
    case False
    then have "scan (unat strx) secs n st' sy' = (Some j, Some k)"
      using Suc.prems(3) by (auto simp: Let_def st'_def [symmetric] sy'_def [symmetric])
    from Suc.IH [OF _ False this] show ?thesis
      unfolding step using False Suc.prems(1) by auto
  qed
qed

lemma load_shdr_table:
  assumes "off + 64 * n \<le> length file" and "i < n"
  shows "load_shdr (take (64 * n) (drop off file)) i = Ret (section_hdr_at file (off + 64 * i))"
proof -
  have "64 * i + 64 \<le> 64 * n" using assms(2) by simp
  then have "block_bytes (take (64 * n) (drop off file)) (64 * i) 64 = Ret (take 64 (drop (off + 64 * i) file))"
    using assms(1) by (simp add: block_bytes_def drop_take add.commute)
  then show ?thesis by (simp add: load_shdr_def section_hdr_at_def Let_def)
qed

lemma first_load_bias_spec:
  assumes "list_all (\<lambda>i. case ld32 m (sd_phdrs d + 56 * of_nat i) of Ret t \<Rightarrow> t \<noteq> PT_LOAD | _ \<Rightarrow> False) is"
    and "ld32 m (sd_phdrs d + 56 * of_nat k) = Ret PT_LOAD"
    and "ld64 m (sd_phdrs d + 56 * of_nat k + 16) = Ret v" and "v \<le> sd_base_addr d"
  shows "first_load_bias m d (is @ k # js) = Ret (True, d\<lparr>sd_load_bias := sd_base_addr d - v\<rparr>)"
  using assms by (induction "is") (auto simp: Let_def not_less [symmetric] split: run.splits)


definition names_library :: "string \<Rightarrow> dl_phdr_info \<Rightarrow> bool" where
  "names_library suffix info \<longleftrightarrow> (case dlpi_name info of None \<Rightarrow> False | Some path \<Rightarrow> ends_with suffix path)"

lemma dlopen_iter_cb_skip:
  "\<not> names_library suffix info \<Longrightarrow> dlopen_iter_cb suffix info s = (Ret 0, s)"
  by (auto simp: dlopen_iter_cb_def names_library_def ends_with_def split: option.splits)

lemma dlopen_iter_cb_found:
  assumes "names_library suffix info" and "ld64 (w_mem w) (dlpi_addr info + 32) = Ret phoff"
    and "ld16 (w_mem w) (dlpi_addr info + 56) = Ret phnum"
  shows "dlopen_iter_cb suffix info (d, w) =
    (Ret 1, (d\<lparr>sd_pathname := dlpi_name info, sd_path_local := dlpi_local info, sd_base_addr := dlpi_addr info,
       sd_phdrs := dlpi_addr info + phoff, sd_phdr_count := ucast phnum\<rparr>, w))"
  using assms by (auto simp: dlopen_iter_cb_def names_library_def ends_with_def bindc_def split: option.splits)

lemma dl_iterate_finds:
  assumes "find (names_library suffix) infos = Some info"
    and "dlopen_iter_cb suffix info s = (Ret 1, s')"
  shows "dl_iterate_phdr (dlopen_iter_cb suffix) infos s = (Ret 1, s')"
  using assms(1)
proof (induction infos)
  case (Cons i infos)
  then show ?case
    by (cases "names_library suffix i") (auto simp: bindc_def dlopen_iter_cb_skip assms(2))
qed simp

lemma fill_rest_ok:
  assumes "resources os sys" and "image_ok (w_mem w) (sd_base_addr d) file im"
    and "sd_phdrs d = sd_base_addr d + im_phoff im" and "sd_phdr_count d = ucast (im_phnum im)"
    and "sd_pathname d = Some path" and "\<not> sd_path_local d" and "sys_file sys path = Some file"
    and "chosen (unat (im_shstrndx im)) (section_table file im) j k"
  shows "\<exists>a. fill_rest_neccessary_data os sys (d, w) =
    (Ret True, (with_sections file (section_table file im) (Some j) (Some k)
       (d\<lparr>sd_load_bias := sd_base_addr d - im_vaddr im\<rparr>), w\<lparr>allocs := a\<rparr>))"
proof -
  let ?secs = "section_table file im" and ?d = "d\<lparr>sd_load_bias := sd_base_addr d - im_vaddr im\<rparr>"
  note ok = assms(2) [unfolded image_ok_def]
  have num: "unat (ucast (im_phnum im) :: u32) = unat (im_phnum im)"
  proof -
    have "unat (im_phnum im) < 2 ^ LENGTH(16)" by (rule unsigned_less)
    then have "unat (im_phnum im) < 2 ^ 32" by simp
    then show ?thesis by (simp add: unsigned_ucast_eq take_bit_nat_eq_self)
  qed
  have upt: "[0..<unat (im_phnum im)] = [0..<im_load im] @ im_load im # [Suc (im_load im)..<unat (im_phnum im)]"
    using ok by (metis less_imp_add_positive upt_add_eq_append upt_conv_Cons zero_le less_imp_le)
  have bias: "first_load_bias (w_mem w) d [0..<unat (sd_phdr_count d)] = Ret (True, ?d)"
    unfolding assms(4) num upt using ok assms(3) by (intro first_load_bias_spec) simp_all
  have "unat (im_shnum im) < 2 ^ LENGTH(16)" by (rule unsigned_less)
  then have n: "unat (im_shnum im) < 2 ^ 16" by simp
  then have sz: "unat (of_nat (64 * unat (im_shnum im)) :: u64) = 64 * unat (im_shnum im)"
    by (subst unat_of_nat, intro mod_less) simp
  have table: "load_section os sys file (im_shoff im) (of_nat (64 * unat (im_shnum im))) w =
      (Ret (True, Some (take (64 * unat (im_shnum im)) (drop (unat (im_shoff im)) file))), w\<lparr>allocs := Suc (allocs w)\<rparr>)"
    using load_section_ok [OF assms(1), of "im_shoff im" "of_nat (64 * unat (im_shnum im))" "file"] ok
    unfolding sz by simp
  have len: "length ?secs = unat (im_shnum im)" by (simp add: section_table_def)
  have shdrs: "\<forall>i < length ?secs.
      load_shdr (take (64 * unat (im_shnum im)) (drop (unat (im_shoff im)) file)) i = Ret (?secs ! i)"
    using load_shdr_table ok by (simp add: section_table_def)
  from section_loop_scan [OF assms(1) shdrs _ _ _ scan_chosen [OF assms(8)], where d = ?d and w = w and a = "Suc (allocs w)"] ok
  obtain a where "section_loop os sys file (im_shstrndx im)
      (take (64 * unat (im_shnum im)) (drop (unat (im_shoff im)) file)) (unat (im_shnum im)) False False
      (?d, w\<lparr>allocs := Suc (allocs w)\<rparr>) =
      (Ret (True, True), (with_sections file ?secs (Some j) (Some k) ?d, w\<lparr>allocs := a\<rparr>))"
    by (auto simp: len with_sections_def)
  then show ?thesis
    using ok n assms(5-7) bias table
    by (intro exI [of _ a]) (simp add: fill_rest_neccessary_data_def bindc_def liftw_def)
qed


text \<open>C36: \<open>semi_dlopen\<close>, from API level 27 on, opens the library it is asked for. With a name that has
  no leading slash taken as the last component of a path, the first object of the linker's list whose
  name ends so is opened: the handle has its name, base and program headers, the load bias its first
  \<open>PT_LOAD\<close> header gives, and as symbol and string blocks the bytes of two sections of its file of these
  types, never the section name table; nothing but the allocation count of the process changes.\<close>

theorem semi_dlopen_correct:
  assumes "26 < sys_sdk sys" and "resources os sys" and "p \<noteq> []"
    and "suffix = (if hd p = CHR ''/'' then p else CHR ''/'' # p)"
    and "find (names_library suffix) (sys_loaded sys) = Some info"
    and "dlpi_name info = Some path" and "\<not> dlpi_local info" and "dlpi_addr info \<noteq> 0"
    and "sys_file sys path = Some file" and "image_ok (w_mem w) (dlpi_addr info) file im"
    and "chosen (unat (im_shstrndx im)) (section_table file im) j k"
  shows "\<exists>a. semi_dlopen os sys (Some p) (lc, w) =
    (Ret (Some (Dlinfo \<lparr>sd_magic = SEMI_DLINFO_MAGIC, sd_pathname = Some path, sd_path_local = False,
       sd_base_addr = dlpi_addr info, sd_phdrs = dlpi_addr info + im_phoff im, sd_phdr_count = ucast (im_phnum im),
       sd_load_bias = dlpi_addr info - im_vaddr im,
       sd_strs = Some (section_bytes file (section_table file im ! j)),
       sd_syms = Some (section_bytes file (section_table file im ! k)),
       sd_sym_count = section_count (section_table file im ! k)\<rparr>)), (lc, w\<lparr>allocs := a\<rparr>))"
proof -
  define d where "d = zero_dlinfo\<lparr>sd_magic := SEMI_DLINFO_MAGIC, sd_pathname := Some path, sd_path_local := False,
    sd_base_addr := dlpi_addr info, sd_phdrs := dlpi_addr info + im_phoff im, sd_phdr_count := ucast (im_phnum im)\<rparr>"
  have cb: "dlopen_iter_cb suffix info (zero_dlinfo\<lparr>sd_magic := SEMI_DLINFO_MAGIC\<rparr>, w\<lparr>allocs := a\<rparr>) =
      (Ret 1, (d, w\<lparr>allocs := a\<rparr>))" for a
    using assms(5-7,10) by (subst dlopen_iter_cb_found) (auto simp: find_Some_iff image_ok_def d_def)
  have iter: "semi_dl_iterate_phdr os sys (dlopen_iter_cb suffix)
      ((zero_dlinfo\<lparr>sd_magic := SEMI_DLINFO_MAGIC\<rparr>, lc), w\<lparr>allocs := a\<rparr>) = (Ret 1, ((d, lc), w\<lparr>allocs := a\<rparr>))" for a
    using assms(1) dl_iterate_finds [OF assms(5) cb] by (simp add: semi_dl_iterate_phdr_def on_data_def)
  have fill: "\<exists>a'. fill_rest_neccessary_data os sys (d, w\<lparr>allocs := a\<rparr>) =
    (Ret True, (with_sections file (section_table file im) (Some j) (Some k)
       (d\<lparr>sd_load_bias := sd_base_addr d - im_vaddr im\<rparr>), w\<lparr>allocs := a'\<rparr>))" for a
    using fill_rest_ok [OF assms(2), where w = "w\<lparr>allocs := a\<rparr>" and d = d and im = im and path = path] assms(9-11) by (simp add: d_def)
  have "sd_base_addr d \<noteq> 0" using assms(8) by (simp add: d_def)
  then have res: "\<exists>a'. dlopen_result os sys suffix (lc, w\<lparr>allocs := a\<rparr>) =
      (Ret (Some (Dlinfo (with_sections file (section_table file im) (Some j) (Some k)
       (d\<lparr>sd_load_bias := sd_base_addr d - im_vaddr im\<rparr>)))), (lc, w\<lparr>allocs := a'\<rparr>))" for a
    using fill [of "Suc a"] assms(2)
    by (auto simp: dlopen_result_def bindc_def liftw_def malloc_c_def resources_def iter on_data_def)
  have d: "with_sections file (section_table file im) (Some j) (Some k)
       (d\<lparr>sd_load_bias := sd_base_addr d - im_vaddr im\<rparr>) =
     \<lparr>sd_magic = SEMI_DLINFO_MAGIC, sd_pathname = Some path, sd_path_local = False,
       sd_base_addr = dlpi_addr info, sd_phdrs = dlpi_addr info + im_phoff im, sd_phdr_count = ucast (im_phnum im),
       sd_load_bias = dlpi_addr info - im_vaddr im,
       sd_strs = Some (section_bytes file (section_table file im ! j)),
       sd_syms = Some (section_bytes file (section_table file im ! k)),
       sd_sym_count = section_count (section_table file im ! k)\<rparr>"
    by (simp add: with_sections_def d_def zero_dlinfo_def)
  show ?thesis
  proof (cases "hd p = CHR ''/''")
    case True
    then show ?thesis using res [of "allocs w"] assms(3,4) by (simp add: semi_dlopen_def d hd_conv_nth)
  next
    case False
    then show ?thesis
      using res [of "Suc (allocs w)"] assms(2-4)
      by (auto simp: semi_dlopen_def d hd_conv_nth bindc_def liftw_def malloc_c_def resources_def)
  qed
qed

definition dl_shdr :: "u32 \<times> u64 \<times> u64 \<times> u64 \<Rightarrow> u8 list" where
  "dl_shdr = (\<lambda>(t, off, sz, es). bytes32 0 @ bytes32 t @ bytes64 0 @ bytes64 0 @ bytes64 off @ bytes64 sz @
     bytes64 0 @ bytes64 0 @ bytes64 es)"

definition dl_file :: "u8 list" where
  "dl_file = dl_syms @ dl_strs @
     concat (map dl_shdr [(0, 0, 0, 0), (2, 0, 96, 24), (3, 96, 8, 0), (3, 96, 1, 0)])"

definition dl_image :: image where
  "dl_image = \<lparr>im_phoff = 64, im_phnum = 1, im_load = 0, im_vaddr = 0x1000, im_shoff = 104, im_shnum = 4,
     im_shstrndx = 3\<rparr>"

definition dl_mem :: mem where
  "dl_mem = mem_of [(0x7000, replicate 32 0 @ bytes64 64 @ bytes64 104 @ replicate 8 0 @
     [1, 0, 64, 0, 4, 0, 3, 0] @ bytes32 1 @ replicate 12 0 @ bytes64 0x1000)]"

definition dl_sys :: sys where
  "dl_sys = \<lparr>sys_sdk = 28, sys_at_base = 0,
     sys_loaded = [\<lparr>dlpi_addr = 0x4000, dlpi_name = None, dlpi_local = False, dlpi_phdr = 0, dlpi_phnum = 0\<rparr>,
       \<lparr>dlpi_addr = 0x7000, dlpi_name = Some ''/lib/libc.so'', dlpi_local = False, dlpi_phdr = 0, dlpi_phnum = 0\<rparr>],
     sys_file = (\<lambda>p. if p = ''/lib/libc.so'' then Some dl_file else None), sys_mmap = (\<lambda>off n. True)\<rparr>"

definition dl_world :: world where
  "dl_world = \<lparr>w_mem = dl_mem, proc_maps = None, maps_arr = [], maps_count = 0, maps_invalidated = False,
     access_locked = False, access_lock = Unlocked, flushed = [], allocs = 0\<rparr>"

lemma le64_append: "le64 (bytes64 w @ xs) = w"
proof -
  have "le64 (bytes64 w @ xs) = le64 (bytes64 w)"
    by (simp add: le64_def bytes64_def bytes32_def)
  then show ?thesis by simp
qed

lemma length_dl_shdr: "length (dl_shdr h) = 64"
  by (cases h) (simp add: dl_shdr_def)

lemma section_hdr_at_dl: "section_hdr_at (dl_shdr h @ xs) 0 = h"
  by (cases h) (simp add: section_hdr_at_def dl_shdr_def le64_append Let_def)

lemma section_hdr_at_skip: "length xs \<le> n \<Longrightarrow> section_hdr_at (xs @ ys) n = section_hdr_at ys (n - length xs)"
  by (simp add: section_hdr_at_def)

lemma length_dl_blocks: "length dl_syms = 96" "length dl_strs = 8"
  by (simp_all add: dl_syms_def dl_strs_def)

lemma dl_table:
  "section_table dl_file dl_image = [(0, 0, 0, 0), (2, 0, 96, 24), (3, 96, 8, 0), (3, 96, 1, 0)]"
  using section_hdr_at_dl [of _ "[]"]
  by (simp add: section_table_def dl_image_def dl_file_def section_hdr_at_skip section_hdr_at_dl
      length_dl_blocks length_dl_shdr upt_rec)

lemma dl_image_ok: "image_ok dl_mem 0x7000 dl_file dl_image"
proof -
  have "length dl_file = 360"
    by (simp add: dl_file_def length_dl_blocks length_dl_shdr)
  moreover have "ld64 dl_mem 0x7020 = Ret 64" "ld16 dl_mem 0x7038 = Ret 1"
    "ld64 dl_mem 0x7028 = Ret 104" "ld16 dl_mem 0x703a = Ret 64" "ld16 dl_mem 0x703c = Ret 4"
    "ld16 dl_mem 0x703e = Ret 3" "ld32 dl_mem 0x7040 = Ret PT_LOAD" "ld64 dl_mem 0x7050 = Ret 0x1000"
    by code_simp+
  ultimately show ?thesis
    unfolding image_ok_def dl_table
    by (simp add: dl_image_def SHT_STRTAB_def SHT_SYMTAB_def word_le_nat_alt)
qed

lemma dl_chosen: "chosen 3 (section_table dl_file dl_image) 2 1"
  unfolding dl_table by code_simp

lemma dl_sections:
  "section_bytes dl_file (section_table dl_file dl_image ! 2) = dl_strs"
  "section_bytes dl_file (section_table dl_file dl_image ! 1) = dl_syms"
proof -
  show "section_bytes dl_file (section_table dl_file dl_image ! 2) = dl_strs"
    "section_bytes dl_file (section_table dl_file dl_image ! 1) = dl_syms"
    unfolding dl_table by (simp_all add: dl_file_def length_dl_blocks)
qed

theorem semi_dlopen_correct_witness:
  "\<exists>d a. semi_dlopen plain_os dl_sys (Some ''libc.so'') (\<lparr>lc_base = 0, lc_mutex = 0\<rparr>, dl_world) =
    (Ret (Some (Dlinfo d)), (\<lparr>lc_base = 0, lc_mutex = 0\<rparr>, dl_world\<lparr>allocs := a\<rparr>)) \<and>
    sd_load_bias d = 0x6000 \<and> sd_strs d = Some dl_strs \<and> sd_syms d = Some dl_syms"
proof -
  let ?info = "\<lparr>dlpi_addr = 0x7000, dlpi_name = Some ''/lib/libc.so'', dlpi_local = False, dlpi_phdr = 0, dlpi_phnum = 0\<rparr>"
  have find: "find (names_library ''/libc.so'') (sys_loaded dl_sys) = Some ?info"
    by (simp add: dl_sys_def names_library_def ends_with_def)
  have "resources plain_os dl_sys" by (simp add: resources_def plain_os_def dl_sys_def)
  from semi_dlopen_correct [OF _ this _ _ find, of "''libc.so''" "''/lib/libc.so''" dl_file dl_world dl_image 2 1
      "\<lparr>lc_base = 0, lc_mutex = 0\<rparr>"] dl_image_ok dl_chosen
  obtain a where "semi_dlopen plain_os dl_sys (Some ''libc.so'') (\<lparr>lc_base = 0, lc_mutex = 0\<rparr>, dl_world) =
    (Ret (Some (Dlinfo \<lparr>sd_magic = SEMI_DLINFO_MAGIC, sd_pathname = Some ''/lib/libc.so'', sd_path_local = False,
       sd_base_addr = 0x7000, sd_phdrs = 0x7000 + im_phoff dl_image, sd_phdr_count = ucast (im_phnum dl_image),
       sd_load_bias = 0x7000 - im_vaddr dl_image,
       sd_strs = Some (section_bytes dl_file (section_table dl_file dl_image ! 2)),
       sd_syms = Some (section_bytes dl_file (section_table dl_file dl_image ! 1)),
       sd_sym_count = section_count (section_table dl_file dl_image ! 1)\<rparr>)),
       (\<lparr>lc_base = 0, lc_mutex = 0\<rparr>, dl_world\<lparr>allocs := a\<rparr>))"
    by (auto simp: dl_sys_def dl_world_def dl_image_def)
  then show ?thesis unfolding dl_sections by (auto simp: dl_image_def)
qed

section \<open>The defects of the older API levels\<close>

text \<open>A handle under construction whose path, where there is one, is in a dead buffer.\<close>

definition dangling :: "semi_dlinfo \<Rightarrow> bool" where
  "dangling d \<longleftrightarrow> sd_base_addr d \<noteq> 0 \<longrightarrow> sd_path_local d"

lemma dlopen_iter_cb_dangling:
  assumes "dlpi_local info" and "dangling d"
  shows "dangling (fst (snd (dlopen_iter_cb suffix info (d, w))))"
  using assms
  by (auto simp: dlopen_iter_cb_def bindc_def dangling_def split: option.splits run.splits prod.splits)

lemma legacy_loop_dangling:
  "dangling d \<Longrightarrow> dangling (fst (snd (legacy_loop os (dlopen_iter_cb suffix) lines (d, w))))"
proof (induction lines arbitrary: d w)
  case (Cons line lines)
  show ?case
    using Cons.prems dlopen_iter_cb_dangling
    by (auto simp: bindc_def Cons.IH split: option.split run.split prod.split)
      (metis (no_types, lifting) Cons.IH Cons.prems dl_phdr_info.select_convs(3) dlopen_iter_cb_dangling fst_conv snd_conv)+
qed simp

lemma first_load_bias_local:
  "first_load_bias m d is = Ret (ok, d') \<Longrightarrow> sd_path_local d' = sd_path_local d"
  by (induction m d "is" rule: first_load_bias.induct) (auto simp: Let_def bindr_eq_Ret split: if_splits)

lemma fill_rest_local:
  assumes "sd_path_local d"
  shows "fst (fill_rest_neccessary_data os sys (d, w)) \<noteq> Ret True"
proof (cases "first_load_bias (w_mem w) d [0..<unat (sd_phdr_count d)]")
  case (Ret x)
  obtain ok d' where x: "x = (ok, d')" by (cases x)
  have "sd_path_local d'" using first_load_bias_local Ret x assms by simp
  then show ?thesis using Ret x by (simp add: fill_rest_neccessary_data_def bindc_def)
qed (simp_all add: fill_rest_neccessary_data_def bindc_def)

lemma legacy_result_none:
  assumes "sys_sdk sys < 21"
  shows "fst (dlopen_result os sys suffix (lc, w)) \<noteq> Ret (Some h)"
proof (cases "os_malloc os (allocs w)")
  case True
  let ?d = "zero_dlinfo\<lparr>sd_magic := SEMI_DLINFO_MAGIC\<rparr>" and ?w = "w\<lparr>allocs := Suc (allocs w)\<rparr>"
  obtain r d w' where it: "legacy_iterate_maps os (dlopen_iter_cb suffix) (?d, ?w) = (r, (d, w'))"
    by (metis prod_cases3)
  have "dangling ?d" by (simp add: dangling_def zero_dlinfo_def)
  then have d: "dangling d"
    using it legacy_loop_dangling [of ?d] 
    by (auto simp: legacy_iterate_maps_def split: option.splits) (metis fst_conv snd_conv)
  obtain r2 d2 w2 where fill: "fill_rest_neccessary_data os sys (d, w') = (r2, (d2, w2))"
    by (metis prod_cases3)
  have "sd_base_addr d \<noteq> 0 \<Longrightarrow> r2 \<noteq> Ret True"
    using fill_rest_local [of d os sys w'] d fill by (simp add: dangling_def)
  then show ?thesis
    using True assms
    by (cases r; cases r2) (auto simp: dlopen_result_def bindc_def liftw_def malloc_c_def semi_dl_iterate_phdr_def
        on_data_def it fill)
qed (simp add: dlopen_result_def bindc_def liftw_def malloc_c_def)

text \<open>Below API level 21 \<open>semi_dlopen\<close> never returns a handle. The path of a library that matches
  points into the line buffer of \<open>legacy_iterate_maps\<close>, which is gone when the path is opened, so a call
  returns NULL or its behaviour is undefined.\<close>

theorem legacy_dlopen_no_handle:
  assumes "sys_sdk sys < 21"
  shows "fst (semi_dlopen os sys p (lc, w)) \<noteq> Ret (Some h)"
proof -
  have "fst (dlopen_result os sys q (lc, w)) \<noteq> Ret (Some h)" for q w
    by (rule legacy_result_none [OF assms])
  then show ?thesis
    by (auto simp: semi_dlopen_def bindc_def liftw_def malloc_c_def split: option.split run.split)
qed

theorem legacy_dlopen_no_handle_witness:
  "fst (semi_dlopen plain_os (dl_sys\<lparr>sys_sdk := 19\<rparr>) (Some ''libc.so'')
     (\<lparr>lc_base = 0, lc_mutex = 0\<rparr>, dl_world)) \<noteq> Ret (Some (Dlinfo zero_dlinfo))"
  by (rule legacy_dlopen_no_handle) simp

text \<open>
  On API levels 21 and 22 the linker's mutex is never found, and so never taken: \<open>semi_dlsym\<close> is given the
  base address of the linker, which holds an ELF header and not a handle.
\<close>

lemma le32_ELFMAG: "le32 ELFMAG \<noteq> SEMI_DLINFO_MAGIC"
  by code_simp

lemma dl_mutex_not_found:
  assumes "ldbytes (w_mem w) (sys_at_base sys) 4 = Ret ELFMAG" and "sys_at_base sys \<noteq> 0"
    and "lc_base lc = 0" and "lc_mutex lc = 0"
  shows "get_dl_mutex_address os sys (lc, w) = (Ret 0, (lc\<lparr>lc_base := sys_at_base sys\<rparr>, w))"
  using assms le32_ELFMAG
  by (simp add: get_dl_mutex_address_def get_linker_base_address_def bindc_def semi_dlsym_def ld32_def)

text \<open>And no line of the maps file is ever taken for the linker, whatever its path.\<close>

lemma find_linker_base_never: "find_linker_base_iter_cb info s = (Ret 0, s)"
  by (cases s) (simp add: find_linker_base_iter_cb_def LINKER_PATHNAME_SUFFIX_def)

end
