(* ===== verification/IoCollect.thy ===== *)
theory IoCollect
  imports Machine "HOL-Library.Signed_Division" "HOL-Library.Sublist"
begin

text \<open>
  \<open>matrix-io-canary\<close>: what is recorded of each open file (\<open>core/io_info_collector.cc\<close>) and the
  clocks it reads (\<open>comm/io_canary_utils.cc\<close>). The trace of calls that the hooks report determines
  the record of every open file.
\<close>

section \<open>Data\<close>

datatype FileOpType = kInit | kRead | kWrite

record JavaContext =
  io_thread_id :: int
  io_thread_name :: string
  io_stack :: string

record IOInfo =
  io_path :: string
  io_java_context :: JavaContext
  io_start_time_us :: int
  io_op_type :: FileOpType
  io_op_cnt :: int
  io_buffer_size :: int
  io_op_size :: int
  io_rw_cost_us :: int
  io_max_continual_rw_cost_time_us :: int
  io_max_once_rw_cost_time_us :: int
  io_current_continual_rw_time_us :: int
  io_last_rw_time_us :: int
  io_file_size :: int
  io_total_cost_us :: int

text \<open>\<open>info_map\<close>, by file descriptor.\<close>

type_synonym info_map = "int \<rightharpoonup> IOInfo"

text \<open>Signed sums of \<open>n\<close> bits, undefined where they overflow.\<close>

definition plus_s :: "nat \<Rightarrow> int \<Rightarrow> int \<Rightarrow> int run" where
  "plus_s n x y = (if - (2 ^ (n - 1)) \<le> x + y \<and> x + y < 2 ^ (n - 1) then Ret (x + y) else Undef)"

section \<open>Clocks and file sizes\<close>

text \<open>What \<open>gettimeofday\<close> stores, what \<open>clock_gettime\<close> stores where it succeeds, what \<open>stat\<close> gives.\<close>

type_synonym timeval = "int \<times> int"
type_synonym timespec = "(int \<times> int) option"

definition GetSysTimeMicros :: "timeval \<Rightarrow> int" where
  "GetSysTimeMicros tv = fst tv * 1000000 + snd tv"

definition GetTickCountMicros :: "timespec \<Rightarrow> int" where
  "GetTickCountMicros ts = (case ts of None \<Rightarrow> 0 | Some (tv_sec, tv_nsec) \<Rightarrow> tv_sec * 1000000 + tv_nsec sdiv 1000)"

definition GetTickCount :: "timespec \<Rightarrow> int" where
  "GetTickCount ts = GetTickCountMicros ts sdiv 1000"

text \<open>The size is returned as an \<open>int\<close> of 32 bits.\<close>

definition GetFileSize :: "int option \<Rightarrow> int" where
  "GetFileSize st_size = (case st_size of None \<Rightarrow> - 1 | Some n \<Rightarrow> signed_take_bit 31 n)"

section \<open>Recording\<close>

definition new_IOInfo :: "string \<Rightarrow> JavaContext \<Rightarrow> timeval \<Rightarrow> IOInfo" where
  "new_IOInfo path java_context tv =
     \<lparr>io_path = path, io_java_context = java_context, io_start_time_us = GetSysTimeMicros tv, io_op_type = kInit,
      io_op_cnt = 0, io_buffer_size = 0, io_op_size = 0, io_rw_cost_us = 0, io_max_continual_rw_cost_time_us = 0,
      io_max_once_rw_cost_time_us = 0, io_current_continual_rw_time_us = 0, io_last_rw_time_us = 0,
      io_file_size = 0, io_total_cost_us = 0\<rparr>"

definition OnOpen :: "info_map \<Rightarrow> string \<Rightarrow> int \<Rightarrow> JavaContext \<Rightarrow> timeval \<Rightarrow> info_map" where
  "OnOpen info_map pathname open_ret java_context tv =
     (if open_ret = - 1 then info_map
      else if info_map open_ret \<noteq> None then info_map
      else info_map(open_ret \<mapsto> new_IOInfo pathname java_context tv))"

definition kContinualThreshold :: int where "kContinualThreshold = 8 * 1000"

definition count_rw :: "IOInfo \<Rightarrow> FileOpType \<Rightarrow> int \<Rightarrow> int \<Rightarrow> int \<Rightarrow> IOInfo run" where
  "count_rw info fileOpType op_size rw_cost now =
     bindr (plus_s 32 (io_op_cnt info) 1) (\<lambda>cnt.
     bindr (plus_s 64 (io_op_size info) op_size) (\<lambda>total_size.
     bindr (plus_s 64 (io_rw_cost_us info) rw_cost) (\<lambda>total_cost.
     bindr (if io_last_rw_time_us info > 0 then
              bindr (plus_s 64 now (- io_last_rw_time_us info)) (\<lambda>gap. Ret (gap < kContinualThreshold))
            else Ret False) (\<lambda>continual.
     bindr (if continual then plus_s 64 (io_current_continual_rw_time_us info) rw_cost else Ret rw_cost) (\<lambda>current.
     Ret (info\<lparr>io_op_cnt := cnt, io_op_size := total_size, io_rw_cost_us := total_cost,
       io_max_once_rw_cost_time_us :=
         (if rw_cost > io_max_once_rw_cost_time_us info then rw_cost else io_max_once_rw_cost_time_us info),
       io_current_continual_rw_time_us := current,
       io_max_continual_rw_cost_time_us :=
         (if current > io_max_continual_rw_cost_time_us info then current else io_max_continual_rw_cost_time_us info),
       io_last_rw_time_us := now,
       io_buffer_size := (if io_buffer_size info < op_size then op_size else io_buffer_size info),
       io_op_type := (if io_op_type info = kInit then fileOpType else io_op_type info)\<rparr>))))))"

definition CountRWInfo :: "info_map \<Rightarrow> int \<Rightarrow> FileOpType \<Rightarrow> int \<Rightarrow> int \<Rightarrow> timeval \<Rightarrow> info_map run" where
  "CountRWInfo info_map fd fileOpType op_size rw_cost tv =
     (case info_map fd of
        None \<Rightarrow> Ret info_map
      | Some info \<Rightarrow>
          bindr (count_rw info fileOpType op_size rw_cost (GetSysTimeMicros tv)) (\<lambda>info'.
          Ret (info_map(fd \<mapsto> info'))))"

text \<open>The size is a \<open>size_t\<close>, passed on as a \<open>long\<close>.\<close>

definition OnRead :: "info_map \<Rightarrow> int \<Rightarrow> u64 \<Rightarrow> int \<Rightarrow> int \<Rightarrow> timeval \<Rightarrow> info_map run" where
  "OnRead info_map fd sz read_ret read_cost tv =
     (if read_ret = - 1 \<or> read_cost < 0 then Ret info_map
      else if info_map fd = None then Ret info_map
      else CountRWInfo info_map fd kRead (sint sz) read_cost tv)"

definition OnWrite :: "info_map \<Rightarrow> int \<Rightarrow> u64 \<Rightarrow> int \<Rightarrow> int \<Rightarrow> timeval \<Rightarrow> info_map run" where
  "OnWrite info_map fd sz write_ret write_cost tv =
     (if write_ret = - 1 \<or> write_cost < 0 then Ret info_map
      else if info_map fd = None then Ret info_map
      else CountRWInfo info_map fd kWrite (sint sz) write_cost tv)"

definition OnClose :: "info_map \<Rightarrow> int \<Rightarrow> timeval \<Rightarrow> int option \<Rightarrow> (IOInfo option \<times> info_map) run" where
  "OnClose info_map fd tv st_size =
     (case info_map fd of
        None \<Rightarrow> Ret (None, info_map)
      | Some info \<Rightarrow>
          bindr (plus_s 64 (GetSysTimeMicros tv) (- io_start_time_us info)) (\<lambda>total_cost.
          Ret (Some (info\<lparr>io_total_cost_us := total_cost, io_file_size := GetFileSize st_size\<rparr>), info_map(fd := None))))"

section \<open>The trace of calls\<close>

text \<open>The calls the hooks report, and the collector over a sequence of them: what it has recorded, and
  the records it has handed out, in order.\<close>

datatype io_event =
    EvOpen string int JavaContext timeval
  | EvRead int u64 int int timeval
  | EvWrite int u64 int int timeval
  | EvClose int timeval "int option"

fun collect_event :: "io_event \<Rightarrow> info_map \<Rightarrow> (IOInfo option \<times> info_map) run" where
  "collect_event (EvOpen p fd ctx tv) m = Ret (None, OnOpen m p fd ctx tv)"
| "collect_event (EvRead fd sz ret cost tv) m = bindr (OnRead m fd sz ret cost tv) (\<lambda>m. Ret (None, m))"
| "collect_event (EvWrite fd sz ret cost tv) m = bindr (OnWrite m fd sz ret cost tv) (\<lambda>m. Ret (None, m))"
| "collect_event (EvClose fd tv st) m = OnClose m fd tv st"

fun collect :: "io_event list \<Rightarrow> info_map \<Rightarrow> (IOInfo list \<times> info_map) run" where
  "collect [] m = Ret ([], m)"
| "collect (e # es) m =
     bindr (collect_event e m) (\<lambda>(out, m). bindr (collect es m) (\<lambda>(outs, m).
       Ret ((case out of None \<Rightarrow> outs | Some i \<Rightarrow> i # outs), m)))"

section \<open>What the record of a file means\<close>

text \<open>A counted read or write: kind, size, cost and time.\<close>

type_synonym rw_op = "FileOpType \<times> int \<times> int \<times> int"

abbreviation rw_size :: "rw_op \<Rightarrow> int" where "rw_size x \<equiv> fst (snd x)"
abbreviation rw_cost :: "rw_op \<Rightarrow> int" where "rw_cost x \<equiv> fst (snd (snd x))"
abbreviation rw_time :: "rw_op \<Rightarrow> int" where "rw_time x \<equiv> snd (snd (snd x))"

text \<open>Operations in a row with less than 8 ms from each to the next, and the costs of such rows.\<close>

definition linked :: "rw_op list \<Rightarrow> bool" where
  "linked seg \<longleftrightarrow> successively (\<lambda>x y. rw_time y - rw_time x < kContinualThreshold) seg"

definition linked_costs :: "rw_op list list \<Rightarrow> int set" where
  "linked_costs segs = (\<lambda>seg. sum_list (map rw_cost seg)) ` set (filter linked segs)"

text \<open>The record a list of operations stands for: how many, how large and how long in all, the largest
  size, the longest operation, and the longest row of linked operations.\<close>

definition stats :: "string \<Rightarrow> JavaContext \<Rightarrow> int \<Rightarrow> rw_op list \<Rightarrow> IOInfo" where
  "stats path ctx start ops =
     \<lparr>io_path = path, io_java_context = ctx, io_start_time_us = start,
      io_op_type = (case ops of [] \<Rightarrow> kInit | x # _ \<Rightarrow> fst x), io_op_cnt = int (length ops),
      io_buffer_size = Max (insert 0 (set (map rw_size ops))), io_op_size = sum_list (map rw_size ops),
      io_rw_cost_us = sum_list (map rw_cost ops), io_max_continual_rw_cost_time_us = Max (linked_costs (sublists ops)),
      io_max_once_rw_cost_time_us = Max (insert 0 (set (map rw_cost ops))),
      io_current_continual_rw_time_us = Max (linked_costs (suffixes ops)),
      io_last_rw_time_us = (if ops = [] then 0 else rw_time (last ops)), io_file_size = 0, io_total_cost_us = 0\<rparr>"

lemma finite_linked_costs [simp]: "finite (linked_costs segs)"
  by (simp add: linked_costs_def)

lemma linked_short [simp]: "linked []" "linked [x]"
  by (simp_all add: linked_def)

lemma linked_snoc:
  "linked (seg @ [x]) \<longleftrightarrow> linked seg \<and> (seg = [] \<or> rw_time x - rw_time (last seg) < kContinualThreshold)"
  by (auto simp: linked_def successively_append_iff)

lemma suffix_last: "suffix seg ops \<Longrightarrow> seg \<noteq> [] \<Longrightarrow> last seg = last ops"
  by (auto simp: suffix_def)

lemma linked_costs_suffixes_snoc:
  "linked_costs (suffixes (ops @ [x])) = insert 0
     (if ops \<noteq> [] \<and> rw_time x - rw_time (last ops) < kContinualThreshold
      then (\<lambda>c. c + rw_cost x) ` linked_costs (suffixes ops) else {rw_cost x})"
    (is "?L = insert 0 ?R")
proof -
  have seg: "linked (seg @ [x]) \<longleftrightarrow> linked seg \<and> (seg = [] \<or> rw_time x - rw_time (last ops) < kContinualThreshold)"
    if "suffix seg ops" for seg
    using that suffix_last [of seg ops] by (cases "seg = []") (auto simp: linked_snoc)
  have "{s \<in> set (suffixes (ops @ [x])). linked s} =
      insert [] ((\<lambda>s. s @ [x]) ` {s. suffix s ops \<and> linked (s @ [x])})"
    unfolding set_suffixes_eq by (auto simp: suffix_snoc)
  then have "?L = insert 0 ((\<lambda>seg. sum_list (map rw_cost seg) + rw_cost x) ` {seg. suffix seg ops \<and> linked (seg @ [x])})"
    unfolding linked_costs_def set_filter by (simp add: image_image)
  moreover have "(\<lambda>seg. sum_list (map rw_cost seg) + rw_cost x) ` {seg. suffix seg ops \<and> linked (seg @ [x])} = ?R"
  proof (cases "ops \<noteq> [] \<and> rw_time x - rw_time (last ops) < kContinualThreshold")
    case True
    then have "{seg. suffix seg ops \<and> linked (seg @ [x])} = {seg \<in> set (suffixes ops). linked seg}"
      using seg by auto
    then show ?thesis using True unfolding linked_costs_def set_filter by (simp add: image_image)
  next
    case False
    then have "{seg. suffix seg ops \<and> linked (seg @ [x])} = {[]}" using seg by auto
    then show ?thesis unfolding if_not_P [OF False] by simp
  qed
  ultimately show ?thesis by simp
qed


lemma linked_costs_zero: "0 \<in> linked_costs (suffixes ops)" "0 \<in> linked_costs (sublists ops)"
proof -
  have "0 = sum_list (map rw_cost ([] :: rw_op list))" by simp
  then show "0 \<in> linked_costs (suffixes ops)" "0 \<in> linked_costs (sublists ops)"
    unfolding linked_costs_def by (intro image_eqI [where x = "[]"]; simp)+
qed

lemma linked_costs_sublists_snoc:
  "linked_costs (sublists (ops @ [x])) = linked_costs (sublists ops) \<union> linked_costs (suffixes (ops @ [x]))"
proof -
  have "{s \<in> set (sublists (ops @ [x])). linked s} =
      {s \<in> set (sublists ops). linked s} \<union> {s \<in> set (suffixes (ops @ [x])). linked s}"
    unfolding set_sublists_eq set_suffixes_eq by (auto simp: sublist_snoc)
  then show ?thesis unfolding linked_costs_def set_filter by (simp only: image_Un)
qed

lemma Max_shift: "finite A \<Longrightarrow> A \<noteq> {} \<Longrightarrow> Max ((\<lambda>c. c + k) ` A) = Max A + (k :: int)"
  by (rule Max_eqI) (auto intro: Max_ge)

lemma current_snoc:
  assumes "0 \<le> rw_cost x"
  shows "Max (linked_costs (suffixes (ops @ [x]))) =
    (if ops \<noteq> [] \<and> rw_time x - rw_time (last ops) < kContinualThreshold
     then Max (linked_costs (suffixes ops)) + rw_cost x else rw_cost x)"
proof -
  have ne: "linked_costs (suffixes ops) \<noteq> {}" and nn: "0 \<le> Max (linked_costs (suffixes ops))"
    using linked_costs_zero(1) [of ops] Max_ge [OF finite_linked_costs] by blast+
  show ?thesis
    unfolding linked_costs_suffixes_snoc using assms ne nn by (simp add: Max_shift)
qed

lemma max_continual_snoc:
  "Max (linked_costs (sublists (ops @ [x]))) =
     max (Max (linked_costs (sublists ops))) (Max (linked_costs (suffixes (ops @ [x]))))"
  unfolding linked_costs_sublists_snoc
  by (intro Max_Un finite_linked_costs) (use linked_costs_zero in blast)+

lemma plus_s_Ret: "- (2 ^ (n - 1)) \<le> x + y \<Longrightarrow> x + y < 2 ^ (n - 1) \<Longrightarrow> plus_s n x y = Ret (x + y)"
  by (simp add: plus_s_def)

text \<open>Operations whose counts, sums and times stay in range.\<close>

definition in_range :: "rw_op list \<Rightarrow> bool" where
  "in_range ops \<longleftrightarrow> length ops < 2 ^ 31 \<and> sum_list (map rw_size ops) < 2 ^ 63 \<and> sum_list (map rw_cost ops) < 2 ^ 63 \<and>
     list_all (\<lambda>x. 0 \<le> rw_size x \<and> 0 \<le> rw_cost x \<and> 0 < rw_time x \<and> rw_time x < 2 ^ 63) ops"

lemma sum_list_nonneg_map: "(\<And>x. x \<in> set xs \<Longrightarrow> 0 \<le> (f x :: int)) \<Longrightarrow> 0 \<le> sum_list (map f xs)"
  by (induction xs) auto

lemma linked_costs_le:
  assumes "list_all (\<lambda>x. 0 \<le> rw_cost x) ops" and "\<forall>seg \<in> set segs. sublist seg ops" and "c \<in> linked_costs segs"
  shows "c \<le> sum_list (map rw_cost ops)"
proof -
  from assms(2,3) obtain seg where c: "c = sum_list (map rw_cost seg)" and "sublist seg ops"
    by (auto simp: linked_costs_def)
  then obtain ps ss where ops: "ops = ps @ seg @ ss" by (auto simp: sublist_def)
  have "0 \<le> sum_list (map rw_cost ps)" "0 \<le> sum_list (map rw_cost ss)"
    using assms(1) by (auto intro!: sum_list_nonneg_map simp: ops list_all_iff)
  then show ?thesis by (simp add: c ops)
qed

lemma current_le:
  assumes "list_all (\<lambda>x. 0 \<le> rw_cost x) ops"
  shows "Max (linked_costs (suffixes ops)) \<le> sum_list (map rw_cost ops)"
    and "0 \<le> Max (linked_costs (suffixes ops))"
proof -
  have "\<forall>c \<in> linked_costs (suffixes ops). c \<le> sum_list (map rw_cost ops)"
    using linked_costs_le [OF assms, of "suffixes ops"] by (auto simp: suffix_imp_sublist)
  then show "Max (linked_costs (suffixes ops)) \<le> sum_list (map rw_cost ops)"
    using linked_costs_zero(1) [of ops] by (subst Max_le_iff) auto
  show "0 \<le> Max (linked_costs (suffixes ops))" using linked_costs_zero(1) by simp
qed

lemma Max_snoc: "Max (insert 0 (set (map f (ops @ [x])))) = max (f x) (Max (insert (0::int) (set (map f ops))))"
  by (simp add: insert_commute [of 0])

lemma stats_snoc:
  assumes "list_all (\<lambda>x. fst x \<noteq> kInit) ops"
  shows "stats path ctx start (ops @ [x]) = (stats path ctx start ops)\<lparr>
     io_op_cnt := int (length ops) + 1, io_op_size := sum_list (map rw_size ops) + rw_size x,
     io_rw_cost_us := sum_list (map rw_cost ops) + rw_cost x,
     io_max_once_rw_cost_time_us := max (rw_cost x) (Max (insert 0 (set (map rw_cost ops)))),
     io_current_continual_rw_time_us := Max (linked_costs (suffixes (ops @ [x]))),
     io_max_continual_rw_cost_time_us :=
       max (Max (linked_costs (sublists ops))) (Max (linked_costs (suffixes (ops @ [x])))),
     io_last_rw_time_us := rw_time x,
     io_buffer_size := max (rw_size x) (Max (insert 0 (set (map rw_size ops)))),
     io_op_type := (if ops = [] then fst x else fst (hd ops))\<rparr>"
proof -
  have "(case ops @ [x] of [] \<Rightarrow> kInit | y # _ \<Rightarrow> fst y) = (if ops = [] then fst x else fst (hd ops))"
    by (cases ops) simp_all
  then show ?thesis
    unfolding stats_def max_continual_snoc Max_snoc by simp
qed

lemma stats_sel:
  "io_op_cnt (stats path ctx start ops) = int (length ops)"
  "io_op_size (stats path ctx start ops) = sum_list (map rw_size ops)"
  "io_rw_cost_us (stats path ctx start ops) = sum_list (map rw_cost ops)"
  "io_last_rw_time_us (stats path ctx start ops) = (if ops = [] then 0 else rw_time (last ops))"
  "io_current_continual_rw_time_us (stats path ctx start ops) = Max (linked_costs (suffixes ops))"
  "io_max_continual_rw_cost_time_us (stats path ctx start ops) = Max (linked_costs (sublists ops))"
  "io_max_once_rw_cost_time_us (stats path ctx start ops) = Max (insert 0 (set (map rw_cost ops)))"
  "io_buffer_size (stats path ctx start ops) = Max (insert 0 (set (map rw_size ops)))"
  by (simp_all add: stats_def)

lemma count_rw_stats:
  assumes "in_range (ops @ [x])" and "x = (k, sz, cost, now)" and "k \<noteq> kInit" and "list_all (\<lambda>x. fst x \<noteq> kInit) ops"
  shows "count_rw (stats path ctx start ops) k sz cost now = Ret (stats path ctx start (ops @ [x]))"
proof -
  note r = assms(1) [unfolded in_range_def]
  have costs: "list_all (\<lambda>x. 0 \<le> rw_cost x) ops" and "list_all (\<lambda>x. 0 \<le> rw_size x) ops"
    using r by (simp_all add: list_all_iff)
  then have nn: "0 \<le> sum_list (map rw_cost ops)" "0 \<le> sum_list (map rw_size ops)"
    by (auto intro!: sum_list_nonneg_map simp: list_all_iff)
  have cnt: "plus_s 32 (int (length ops)) 1 = Ret (int (length (ops @ [x])))"
    using r by (subst plus_s_Ret) auto
  have sz: "plus_s 64 (sum_list (map rw_size ops)) sz = Ret (sum_list (map rw_size (ops @ [x])))"
    using r nn by (subst plus_s_Ret) (auto simp: assms(2))
  have cost: "plus_s 64 (sum_list (map rw_cost ops)) cost = Ret (sum_list (map rw_cost (ops @ [x])))"
    using r nn by (subst plus_s_Ret) (auto simp: assms(2))
  have gap: "plus_s 64 now (- rw_time (last ops)) = Ret (now - rw_time (last ops))"
    "0 < rw_time (last ops)" if "ops \<noteq> []"
  proof -
    have l: "0 < rw_time (last ops)" "rw_time (last ops) < 2 ^ 63"
      using r that by (auto simp: list_all_iff)
    then show "0 < rw_time (last ops)" by simp
    show "plus_s 64 now (- rw_time (last ops)) = Ret (now - rw_time (last ops))"
      using l r by (subst plus_s_Ret) (auto simp: assms(2))
  qed
  have cur: "plus_s 64 (Max (linked_costs (suffixes ops))) cost = Ret (Max (linked_costs (suffixes ops)) + cost)"
    using r current_le [OF costs] by (subst plus_s_Ret) (auto simp: assms(2))
  have current: "Max (linked_costs (suffixes (ops @ [x]))) =
    (if ops \<noteq> [] \<and> now - rw_time (last ops) < kContinualThreshold
     then Max (linked_costs (suffixes ops)) + cost else cost)"
    using current_snoc [of x ops] r by (simp add: assms(2))
  have kind: "io_op_type (stats path ctx start ops) = (if ops = [] then kInit else fst (hd ops))"
    "ops \<noteq> [] \<Longrightarrow> fst (hd ops) \<noteq> kInit"
    using assms(4) by (cases ops; simp add: stats_def)+
  show ?thesis
  proof (cases "ops \<noteq> [] \<and> now - rw_time (last ops) < kContinualThreshold")
    case True
    then have c: "Max (linked_costs (suffixes (ops @ [x]))) = Max (linked_costs (suffixes ops)) + cost"
      unfolding current by (rule if_P)
    show ?thesis
      unfolding stats_snoc [OF assms(4)] c using True cnt sz cost gap cur kind assms(2)
      by (simp add: count_rw_def stats_sel max_def)
  next
    case False
    then have c: "Max (linked_costs (suffixes (ops @ [x]))) = cost"
      unfolding current by (rule if_not_P)
    show ?thesis
      unfolding stats_snoc [OF assms(4)] c using False cnt sz cost gap cur kind assms(2)
      by (cases "ops = []") (simp_all add: count_rw_def stats_sel max_def)
  qed
qed

section \<open>The collector keeps what the trace says\<close>

text \<open>The operation a call adds, if it is counted, and the file it is on.\<close>

fun counted :: "io_event \<Rightarrow> (int \<times> rw_op) option" where
  "counted (EvRead fd sz ret cost tv) =
     (if ret = - 1 \<or> cost < 0 then None else Some (fd, kRead, sint sz, cost, GetSysTimeMicros tv))"
| "counted (EvWrite fd sz ret cost tv) =
     (if ret = - 1 \<or> cost < 0 then None else Some (fd, kWrite, sint sz, cost, GetSysTimeMicros tv))"
| "counted _ = None"

text \<open>What a trace, latest call first, says of a file: how it was opened and what was done since, from its
  first open that is not followed by a close.\<close>

type_synonym session = "(string \<times> JavaContext \<times> int) \<times> rw_op list"

primrec session :: "io_event list \<Rightarrow> int \<Rightarrow> session option" where
  "session [] fd = None"
| "session (e # past) fd =
     (case e of
        EvOpen p fd' ctx tv \<Rightarrow>
          if fd' = fd \<and> fd \<noteq> - 1 \<and> session past fd = None then Some ((p, ctx, GetSysTimeMicros tv), [])
          else session past fd
      | EvClose fd' tv st \<Rightarrow> if fd' = fd then None else session past fd
      | _ \<Rightarrow>
          (case counted e of
             Some (fd', x) \<Rightarrow> if fd' = fd then map_option (\<lambda>(h, ops). (h, ops @ [x])) (session past fd) else session past fd
           | None \<Rightarrow> session past fd))"

fun session_info :: "session \<Rightarrow> IOInfo" where
  "session_info ((p, ctx, start), ops) = stats p ctx start ops"

text \<open>The records handed out at the closes of a trace.\<close>

primrec closed :: "io_event list \<Rightarrow> IOInfo list" where
  "closed [] = []"
| "closed (e # past) = closed past @
     (case e of
        EvClose fd tv st \<Rightarrow>
          (case session past fd of
             None \<Rightarrow> []
           | Some s \<Rightarrow> [(session_info s)\<lparr>io_total_cost_us := GetSysTimeMicros tv - snd (snd (fst s)),
                          io_file_size := GetFileSize st\<rparr>])
      | _ \<Rightarrow> [])"

fun event_time :: "io_event \<Rightarrow> int" where
  "event_time (EvOpen p fd ctx tv) = GetSysTimeMicros tv"
| "event_time (EvRead fd sz ret cost tv) = GetSysTimeMicros tv"
| "event_time (EvWrite fd sz ret cost tv) = GetSysTimeMicros tv"
| "event_time (EvClose fd tv st) = GetSysTimeMicros tv"

definition trace_ok :: "io_event list \<Rightarrow> bool" where
  "trace_ok evs \<longleftrightarrow> in_range (map snd (List.map_filter counted evs)) \<and>
     list_all (\<lambda>e. 0 < event_time e \<and> event_time e < 2 ^ 63) evs"

lemma sum_subseq:
  "subseq xs ys \<Longrightarrow> (\<And>y. y \<in> set ys \<Longrightarrow> 0 \<le> (f y :: int)) \<Longrightarrow> sum_list (map f xs) \<le> sum_list (map f ys)"
proof (induction xs ys rule: list_emb.induct)
  case (list_emb_Cons xs ys y)
  then show ?case using list_emb_Cons.prems [of y] by fastforce
qed (auto intro!: sum_list_nonneg_map)

lemma in_range_subseq:
  assumes "subseq xs ys" and "in_range ys"
  shows "in_range xs"
proof -
  note r = assms(2) [unfolded in_range_def]
  have "sum_list (map rw_size xs) \<le> sum_list (map rw_size ys)" "sum_list (map rw_cost xs) \<le> sum_list (map rw_cost ys)"
    using r by (auto intro!: sum_subseq [OF assms(1)] simp: list_all_iff)
  moreover have "length xs \<le> length ys" using assms(1) by (rule list_emb_length)
  moreover have "set xs \<subseteq> set ys" using assms(1) by (auto elim: list_emb_set)
  ultimately show ?thesis using r by (auto simp: in_range_def list_all_iff subset_iff)
qed

lemma session_subseq:
  "session past fd = Some (h, ops) \<Longrightarrow> subseq ops (rev (map snd (List.map_filter counted past)))"
proof (induction past arbitrary: h ops)
  case (Cons e past)
  let ?rest = "rev (map snd (List.map_filter counted past))"
  have keep: "subseq ops (?rest @ xs)" if "session past fd = Some (h, ops)" for h ops xs
    using list_emb_append_mono [OF Cons.IH [OF that], of "[]" xs] by simp
  show ?case
    using Cons.prems keep [of _ _ "[]"] keep
    by (cases e) (auto simp: map_filter_simps split: if_splits option.splits
        intro!: list_emb_append_mono [OF Cons.IH])
qed simp

lemma session_kinds: "session past fd = Some (h, ops) \<Longrightarrow> list_all (\<lambda>x. fst x \<noteq> kInit) ops"
  by (induction past arbitrary: h ops) (auto split: io_event.splits if_splits option.splits)

lemma session_start:
  "session past fd = Some ((p, ctx, start), ops) \<Longrightarrow> list_all (\<lambda>e. 0 < event_time e \<and> event_time e < 2 ^ 63) past \<Longrightarrow>
     0 < start \<and> start < 2 ^ 63"
  by (induction past arbitrary: ops) (auto split: io_event.splits if_splits option.splits)


lemma map_filter_append [simp]: "List.map_filter f (xs @ ys) = List.map_filter f xs @ List.map_filter f ys"
  by (simp add: List.map_filter_def)

lemma trace_ok_prefix: "trace_ok (evs @ es) \<Longrightarrow> trace_ok evs"
  by (auto simp: trace_ok_def intro: in_range_subseq [rotated] list_emb_append2 [OF subseq_order.order_refl, of _ "[]", simplified])

lemma collect_snoc:
  "collect (es @ [e]) m = bindr (collect es m) (\<lambda>(outs, m). bindr (collect_event e m) (\<lambda>(out, m).
     Ret (outs @ (case out of None \<Rightarrow> [] | Some i \<Rightarrow> [i]), m)))"
proof (induction es arbitrary: m)
  case Nil
  show ?case by (cases "collect_event e m") (auto split: option.split)
next
  case (Cons a es)
  show ?case
  proof (cases "collect_event a m")
    case (Ret x)
    obtain out m1 where x: "x = (out, m1)" by (cases x)
    show ?thesis
    proof (cases "collect es m1")
      case (Ret y)
      obtain outs m2 where y: "y = (outs, m2)" by (cases y)
      show ?thesis
        using \<open>collect_event a m = Ret x\<close> Ret x y
        by (cases "collect_event e m2") (auto simp: Cons.IH split: option.split)
    qed (simp_all add: Ret x Cons.IH)
  qed simp_all
qed

text \<open>The state that a trace leads to.\<close>

definition kept :: "io_event list \<Rightarrow> info_map" where
  "kept past = (\<lambda>fd. map_option session_info (session past fd))"

lemma count_step:
  assumes "trace_ok (rev past @ [e])" and "counted e = Some (fd, x)" and "x = (k, sz, cost, now)"
    and "now = GetSysTimeMicros tv" and "kept past fd = Some i" and "k \<noteq> kInit"
  shows "CountRWInfo (kept past) fd k sz cost tv = Ret (kept (e # past))"
proof -
  obtain p ctx start ops where s: "session past fd = Some ((p, ctx, start), ops)"
    using assms(5) by (auto simp: kept_def)
  have "subseq (ops @ [x]) (map snd (List.map_filter counted (rev past @ [e])))"
  proof -
    have "rev (map snd (List.map_filter counted past)) = map snd (List.map_filter counted (rev past))"
      by (simp add: List.map_filter_def rev_map rev_filter)
    then show ?thesis
      using list_emb_append_mono [OF session_subseq [OF s], of "[x]" "[x]"] assms(2) by (simp add: map_filter_simps)
  qed
  then have "in_range (ops @ [x])" using assms(1) in_range_subseq by (simp add: trace_ok_def)
  from count_rw_stats [OF this assms(3,6) session_kinds [OF s]]
  have "count_rw (stats p ctx start ops) k sz cost now = Ret (stats p ctx start (ops @ [x]))" .
  moreover have "kept (e # past) = (kept past)(fd \<mapsto> stats p ctx start (ops @ [x]))"
    using assms(2) s by (auto simp: kept_def fun_eq_iff split: io_event.splits)
  ultimately show ?thesis using s assms(4) by (simp add: CountRWInfo_def kept_def)
qed

lemma kept_uncounted:
  "ret = - 1 \<or> cost < 0 \<Longrightarrow> kept (EvRead fd sz ret cost tv # past) = kept past"
  "ret = - 1 \<or> cost < 0 \<Longrightarrow> kept (EvWrite fd sz ret cost tv # past) = kept past"
  by (auto simp: kept_def)

lemma kept_unopened:
  "counted e = Some (fd, x) \<Longrightarrow> kept past fd = None \<Longrightarrow> kept (e # past) = kept past"
  by (cases e) (auto simp: kept_def fun_eq_iff split: option.splits)

lemma collect_event_kept:
  assumes "trace_ok (rev past @ [e])"
  shows "\<exists>out. collect_event e (kept past) = Ret (out, kept (e # past)) \<and>
    closed (e # past) = closed past @ (case out of None \<Rightarrow> [] | Some i \<Rightarrow> [i])"
proof (cases e)
  case (EvOpen p fd ctx tv)
  then show ?thesis
    by (auto simp: OnOpen_def kept_def new_IOInfo_def stats_def fun_eq_iff linked_costs_def)
next
  case (EvRead fd sz ret cost tv)
  then show ?thesis
    using count_step [OF assms, of fd _ kRead "sint sz" cost _ tv] kept_uncounted kept_unopened [of e fd _ past]
    by (cases "kept past fd") (auto simp: OnRead_def)
next
  case (EvWrite fd sz ret cost tv)
  then show ?thesis
    using count_step [OF assms, of fd _ kWrite "sint sz" cost _ tv] kept_uncounted kept_unopened [of e fd _ past]
    by (cases "kept past fd") (auto simp: OnWrite_def)
next
  case (EvClose fd tv st)
  show ?thesis
  proof (cases "session past fd")
    case None
    then have "kept (e # past) = kept past" using EvClose by (auto simp: kept_def fun_eq_iff)
    then show ?thesis using None EvClose by (simp add: OnClose_def kept_def)
  next
    case (Some s)
    obtain p ctx start ops where s: "s = ((p, ctx, start), ops)" by (metis prod.collapse)
    have t: "list_all (\<lambda>e. 0 < event_time e \<and> event_time e < 2 ^ 63) past" "0 < GetSysTimeMicros tv" "GetSysTimeMicros tv < 2 ^ 63"
      using assms EvClose by (simp_all add: trace_ok_def)
    have "plus_s 64 (GetSysTimeMicros tv) (- start) = Ret (GetSysTimeMicros tv - start)"
      using session_start [OF Some [unfolded s] t(1)] t by (subst plus_s_Ret) auto
    moreover have "kept (e # past) = (kept past)(fd := None)" using EvClose by (auto simp: kept_def fun_eq_iff)
    ultimately show ?thesis
      using EvClose Some s by (simp add: OnClose_def kept_def stats_def)
  qed
qed

text \<open>C30: the collector implements its trace: after any sequence of reported opens, reads, writes and closes
  on any files, as long as the counts and sums stay in range, the record kept of a descriptor has the
  number, total size and cost, largest size, longest operation and longest row of operations less than 8 ms
  apart of exactly the successful reads and writes since it was opened, and every close hands the record of
  its file out once, in order.\<close>

theorem collect_implements_trace:
  assumes "trace_ok evs"
  shows "collect evs Map.empty = Ret (closed (rev evs), \<lambda>fd. map_option session_info (session (rev evs) fd))"
proof -
  have "collect evs Map.empty = Ret (closed (rev evs), kept (rev evs))"
    using assms
  proof (induction evs rule: rev_induct)
    case Nil
    then show ?case by (simp add: kept_def fun_eq_iff)
  next
    case (snoc e es)
    from trace_ok_prefix [OF snoc.prems] have IH: "collect es Map.empty = Ret (closed (rev es), kept (rev es))"
      by (rule snoc.IH)
    from collect_event_kept [of "rev es" e] snoc.prems obtain out
      where "collect_event e (kept (rev es)) = Ret (out, kept (e # rev es))"
        "closed (e # rev es) = closed (rev es) @ (case out of None \<Rightarrow> [] | Some i \<Rightarrow> [i])" by auto
    then show ?case by (simp only: collect_snoc IH bindr.simps prod.case rev_append rev.simps append.simps)
  qed
  then show ?thesis by (simp add: kept_def)
qed


definition sample_ctx :: JavaContext where
  "sample_ctx = \<lparr>io_thread_id = 7, io_thread_name = ''main'', io_stack = ''a.b.c(D.java:1)''\<rparr>"

definition sample_trace :: "io_event list" where
  "sample_trace = [EvOpen ''/data/f'' 3 sample_ctx (10, 0), EvRead 3 4096 4096 5000 (10, 1000),
     EvRead 4 100 100 1 (10, 1500), EvRead 3 4096 (- 1) 7 (10, 2000), EvRead 3 4096 12 9000 (10, 7000),
     EvWrite 3 10 10 600 (11, 0), EvClose 3 (12, 5) (Some 5000)]"

theorem collect_implements_trace_witness:
  "\<exists>i m. collect sample_trace Map.empty = Ret ([i], m) \<and> io_path i = ''/data/f'' \<and> io_op_cnt i = 3 \<and>
     io_op_size i = 8202 \<and> io_rw_cost_us i = 14600 \<and> io_max_continual_rw_cost_time_us i = 14000 \<and>
     io_total_cost_us i = 2000005 \<and> io_op_type i = kRead"
proof -
  have "trace_ok sample_trace"
    by (simp add: trace_ok_def in_range_def sample_trace_def map_filter_simps GetSysTimeMicros_def)
  note c = collect_implements_trace [OF this]
  have "case closed (rev sample_trace) of [i] \<Rightarrow> io_path i = ''/data/f'' \<and> io_op_cnt i = 3 \<and>
      io_op_size i = 8202 \<and> io_rw_cost_us i = 14600 \<and> io_max_continual_rw_cost_time_us i = 14000 \<and>
      io_total_cost_us i = 2000005 \<and> io_op_type i = kRead | _ \<Rightarrow> False"
    by code_simp
  then show ?thesis unfolding c by (auto split: list.splits)
qed

end
