(* ===== verification/IoDetect.thy ===== *)
theory IoDetect
  imports IoCollect Md5
begin

text \<open>
  \<open>matrix-io-canary\<close>: the configuration (\<open>core/io_canary_env.cc\<close>), the keys of issues
  (\<open>comm/io_canary_utils.cc\<close>), the three detectors (\<open>detector/*.cc\<close>) and the queue between the thread that
  does the I/O and the thread that looks for issues (\<open>core/io_canary.cc\<close>).
\<close>

section \<open>Configuration\<close>

definition kMainThreadThreshold :: u32 where "kMainThreadThreshold = 0"
definition kSmallBufferThreshold :: u32 where "kSmallBufferThreshold = 1"
definition kRepeatReadThreshold :: u32 where "kRepeatReadThreshold = 2"
definition kConfigKeysLen :: u32 where "kConfigKeysLen = 3"

text \<open>The values, by key.\<close>

type_synonym IOCanaryEnv = "int list"

definition kPossibleNegativeThreshold :: int where "kPossibleNegativeThreshold = 13 * 1000"
definition kSmallBufferOpTimesThreshold :: int where "kSmallBufferOpTimesThreshold = 20"

definition new_IOCanaryEnv :: IOCanaryEnv where
  "new_IOCanaryEnv = [500 * 1000, 4096, 5]"

definition env_SetConfig :: "IOCanaryEnv \<Rightarrow> u32 \<Rightarrow> int \<Rightarrow> IOCanaryEnv" where
  "env_SetConfig env key val = (if kConfigKeysLen \<le> key then env else env[unat key := val])"

definition GetConfig :: "IOCanaryEnv \<Rightarrow> u32 \<Rightarrow> int" where
  "GetConfig env key = (if kConfigKeysLen \<le> key then - 1 else env ! unat key)"

definition GetMainThreadThreshold :: "IOCanaryEnv \<Rightarrow> int" where
  "GetMainThreadThreshold env = GetConfig env kMainThreadThreshold"
definition GetSmallBufferThreshold :: "IOCanaryEnv \<Rightarrow> int" where
  "GetSmallBufferThreshold env = GetConfig env kSmallBufferThreshold"
definition GetRepeatReadThreshold :: "IOCanaryEnv \<Rightarrow> int" where
  "GetRepeatReadThreshold env = GetConfig env kRepeatReadThreshold"

section \<open>Keys of issues\<close>

text \<open>Repeated \<open>std::getline\<close>: nothing is read after the last delimiter at the end of the text.\<close>

function split_loop :: "string \<Rightarrow> string list \<Rightarrow> char \<Rightarrow> int \<Rightarrow> string list" where
  "split_loop src sv delim cnt =
     (if src = [] then sv
      else
        let temp = takeWhile (\<lambda>c. c \<noteq> delim) src; sv = sv @ [temp] in
        if 0 < cnt \<and> cnt \<le> int (length sv) then sv
        else split_loop (drop (Suc (length temp)) src) sv delim cnt)"
  by pat_completeness auto
termination
  by (relation "measure (\<lambda>(src, sv, delim, cnt). length src)") auto

declare split_loop.simps [simp del]

definition Split :: "string \<Rightarrow> char \<Rightarrow> int \<Rightarrow> string list" where
  "Split src_str delim cnt = split_loop src_str [] delim cnt"

text \<open>The first group of the expression \<open>^(.+)(\(.+\))$\<close>: as much as possible before a parenthesis that
  holds something and is closed by the last character. A dot matches no line terminator.\<close>

definition match_frame :: "string \<Rightarrow> string option" where
  "match_frame line =
     (if line = [] \<or> last line \<noteq> CHR '')'' \<or> list_ex (\<lambda>c. c = CHR 0x0a \<or> c = CHR 0x0d) line then None
      else map_option (\<lambda>i. take i line)
        (find (\<lambda>i. line ! i = CHR ''('' \<and> i + 3 \<le> length line) (rev [1..<length line])))"

definition GetLatestStack :: "string \<Rightarrow> int \<Rightarrow> string" where
  "GetLatestStack stack cnt =
     concat (map (\<lambda>line. (case match_frame line of Some frame \<Rightarrow> frame | None \<Rightarrow> line) @ [CHR 0x0a])
       (take (nat cnt) (Split stack (CHR 0x0a) cnt)))"

definition MD5_hex :: "string \<Rightarrow> string" where
  "MD5_hex str = MD5_sig_to_string (MD5_buffer (map byte_of str) (of_nat (length str)))"

datatype IssueType = kIssueMainThreadIO | kIssueSmallBuffer | kIssueRepeatRead

record Issue =
  is_type :: IssueType
  is_info :: IOInfo
  is_key :: string
  is_repeat_read_cnt :: int
  is_stack :: string

definition GenKey :: "IOInfo \<Rightarrow> string" where
  "GenKey info = MD5_hex (io_path info @ '':'' @ GetLatestStack (io_stack (io_java_context info)) 4)"

definition new_Issue :: "IssueType \<Rightarrow> IOInfo \<Rightarrow> Issue" where
  "new_Issue type info = \<lparr>is_type = type, is_info = info, is_key = GenKey info, is_repeat_read_cnt = 0,
     is_stack = io_stack (io_java_context info)\<rparr>"

section \<open>Detectors\<close>

text \<open>The keys a detector has published, and the issues of this round.\<close>

type_synonym pub = "string set \<times> Issue list"

definition IsIssuePublished :: "string set \<Rightarrow> string \<Rightarrow> bool" where
  "IsIssuePublished published key \<longleftrightarrow> key \<in> published"

definition MarkIssuePublished :: "string set \<Rightarrow> string \<Rightarrow> string set" where
  "MarkIssuePublished published key = insert key published"

fun PublishIssue :: "Issue \<Rightarrow> pub \<Rightarrow> pub" where
  "PublishIssue target (published, issues) =
     (if IsIssuePublished published (is_key target) then (published, issues)
      else (MarkIssuePublished published (is_key target), issues @ [target]))"

text \<open>\<open>type\<close> is 1 for a long operation, 2 for a long row of operations, 3 for both.\<close>

definition main_thread_Detect :: "int \<Rightarrow> IOCanaryEnv \<Rightarrow> IOInfo \<Rightarrow> pub \<Rightarrow> pub" where
  "main_thread_Detect main_id env info pub =
     (if main_id = io_thread_id (io_java_context info) then
        let type = (if io_max_once_rw_cost_time_us info > kPossibleNegativeThreshold then 1 else 0 :: int);
            type = (if io_max_continual_rw_cost_time_us info > GetMainThreadThreshold env then type OR 2 else type) in
        if type \<noteq> 0 then PublishIssue ((new_Issue kIssueMainThreadIO info)\<lparr>is_repeat_read_cnt := type\<rparr>) pub
        else pub
      else pub)"

definition small_buffer_Detect :: "IOCanaryEnv \<Rightarrow> IOInfo \<Rightarrow> pub \<Rightarrow> pub" where
  "small_buffer_Detect env info pub =
     (if io_op_cnt info > kSmallBufferOpTimesThreshold \<and>
         io_op_size info sdiv io_op_cnt info < GetSmallBufferThreshold env \<and>
         io_max_continual_rw_cost_time_us info \<ge> kPossibleNegativeThreshold
      then PublishIssue (new_Issue kIssueSmallBuffer info) pub else pub)"

record RepeatReadInfo =
  rr_path :: string
  rr_java_stack :: string
  rr_java_thread_id :: int
  rr_op_size :: int
  rr_file_size :: int
  rr_repeat_cnt :: int
  rr_op_timems :: int

text \<open>The size of the file is passed on as an \<open>int\<close>.\<close>

definition new_RepeatReadInfo :: "IOInfo \<Rightarrow> timespec \<Rightarrow> RepeatReadInfo" where
  "new_RepeatReadInfo info ts =
     \<lparr>rr_path = io_path info, rr_java_stack = io_stack (io_java_context info),
      rr_java_thread_id = io_thread_id (io_java_context info), rr_op_size = io_op_size info,
      rr_file_size = signed_take_bit 31 (io_file_size info), rr_repeat_cnt = 1, rr_op_timems = GetTickCount ts\<rparr>"

definition same_read :: "RepeatReadInfo \<Rightarrow> RepeatReadInfo \<Rightarrow> bool" where
  "same_read a target \<longleftrightarrow> rr_path target = rr_path a \<and> rr_java_thread_id target = rr_java_thread_id a \<and>
     rr_java_stack target = rr_java_stack a \<and> rr_file_size target = rr_file_size a \<and>
     rr_op_size target = rr_op_size a"

text \<open>The loop that looks for the read and counts it: the new count and the list, or not found.\<close>

fun count_repeat :: "RepeatReadInfo \<Rightarrow> RepeatReadInfo list \<Rightarrow> (int \<times> RepeatReadInfo list) option run" where
  "count_repeat rri [] = Ret None"
| "count_repeat rri (info # infos) =
     (if same_read info rri then
        bindr (plus_s 32 (rr_repeat_cnt info) 1) (\<lambda>n. Ret (Some (n, info\<lparr>rr_repeat_cnt := n\<rparr> # infos)))
      else bindr (count_repeat rri infos) (\<lambda>r.
        Ret (map_option (\<lambda>(n, infos). (n, info # infos)) r)))"

text \<open>\<open>ts\<close> is the clock at the construction of the entry, \<open>ts'\<close> at the comparison.\<close>

type_synonym observing = "string \<rightharpoonup> RepeatReadInfo list"

definition repeat_read_Detect ::
    "IOCanaryEnv \<Rightarrow> IOInfo \<Rightarrow> timespec \<Rightarrow> timespec \<Rightarrow> observing \<Rightarrow> pub \<Rightarrow> (observing \<times> pub) run" where
  "repeat_read_Detect env info ts ts' observing_map pub =
     (let path = io_path info in
      if observing_map path = None \<and> io_max_continual_rw_cost_time_us info < kPossibleNegativeThreshold
      then Ret (observing_map, pub)
      else
        let repeat_infos = (case observing_map path of None \<Rightarrow> [] | Some l \<Rightarrow> l) in
        if io_op_type info = kWrite then Ret (observing_map(path \<mapsto> []), pub)
        else
          let rri = new_RepeatReadInfo info ts in
          if repeat_infos = [] then Ret (observing_map(path \<mapsto> [rri]), pub)
          else
            let repeat_infos = (if GetTickCount ts' - rr_op_timems (last repeat_infos) > 17 then [] else repeat_infos) in
            bindr (count_repeat rri repeat_infos) (\<lambda>found. case found of
                None \<Rightarrow> Ret (observing_map(path \<mapsto> repeat_infos @ [rri]), pub)
              | Some (repeatCnt, repeat_infos) \<Rightarrow>
                  Ret (observing_map(path \<mapsto> repeat_infos),
                    if repeatCnt \<ge> GetRepeatReadThreshold env
                    then PublishIssue ((new_Issue kIssueRepeatRead info)\<lparr>is_repeat_read_cnt := repeatCnt,
                      is_stack := rr_java_stack rri\<rparr>) pub
                    else pub)))"

section \<open>The canary\<close>

datatype detector =
    MainThreadDetector "string set"
  | SmallBufferDetector "string set"
  | RepeatReadDetector "string set" observing

text \<open>\<open>detector->Detect\<close>. The main thread has the id of the process.\<close>

fun detector_Detect :: "int \<Rightarrow> IOCanaryEnv \<Rightarrow> IOInfo \<Rightarrow> timespec \<times> timespec \<Rightarrow> detector \<Rightarrow> Issue list \<Rightarrow>
    (detector \<times> Issue list) run" where
  "detector_Detect pid env info ticks (MainThreadDetector p) issues =
     (case main_thread_Detect pid env info (p, issues) of (p, issues) \<Rightarrow> Ret (MainThreadDetector p, issues))"
| "detector_Detect pid env info ticks (SmallBufferDetector p) issues =
     (case small_buffer_Detect env info (p, issues) of (p, issues) \<Rightarrow> Ret (SmallBufferDetector p, issues))"
| "detector_Detect pid env info ticks (RepeatReadDetector p obs) issues =
     bindr (repeat_read_Detect env info (fst ticks) (snd ticks) obs (p, issues)) (\<lambda>(obs, p, issues).
       Ret (RepeatReadDetector p obs, issues))"

text \<open>The loop over the detectors; \<open>ticks\<close> gives the clock readings of each.\<close>

fun detect_all :: "int \<Rightarrow> IOCanaryEnv \<Rightarrow> IOInfo \<Rightarrow> (nat \<Rightarrow> timespec \<times> timespec) \<Rightarrow> detector list \<Rightarrow> Issue list \<Rightarrow>
    (detector list \<times> Issue list) run" where
  "detect_all pid env info ticks [] issues = Ret ([], issues)"
| "detect_all pid env info ticks (d # ds) issues =
     bindr (detector_Detect pid env info (ticks 0) d issues) (\<lambda>(d, issues).
     bindr (detect_all pid env info (\<lambda>n. ticks (Suc n)) ds issues) (\<lambda>(ds, issues).
       Ret (d # ds, issues)))"

text \<open>The state of the singleton. \<open>c_reported\<close> records the calls of the callback.\<close>

record IOCanary =
  c_exit :: bool
  c_env :: IOCanaryEnv
  c_callback :: bool \<comment> \<open>whether \<open>issued_callback\<close> is set\<close>
  c_detectors :: "detector list"
  c_collector :: info_map
  c_queue :: "IOInfo list"
  c_reported :: "Issue list list"

definition new_IOCanary :: IOCanary where
  "new_IOCanary = \<lparr>c_exit = False, c_env = new_IOCanaryEnv, c_callback = False, c_detectors = [],
     c_collector = Map.empty, c_queue = [], c_reported = []\<rparr>"

definition SetConfig :: "u32 \<Rightarrow> int \<Rightarrow> IOCanary \<Rightarrow> IOCanary" where
  "SetConfig key val c = c\<lparr>c_env := env_SetConfig (c_env c) key val\<rparr>"

definition SetIssuedCallback :: "bool \<Rightarrow> IOCanary \<Rightarrow> IOCanary" where
  "SetIssuedCallback callback c = c\<lparr>c_callback := callback\<rparr>"

text \<open>\<open>DetectorType\<close> as the number Java passes.\<close>

definition RegisterDetector :: "int \<Rightarrow> IOCanary \<Rightarrow> IOCanary" where
  "RegisterDetector type c =
     (if type = 0 then c\<lparr>c_detectors := c_detectors c @ [MainThreadDetector {}]\<rparr>
      else if type = 1 then c\<lparr>c_detectors := c_detectors c @ [SmallBufferDetector {}]\<rparr>
      else if type = 2 then c\<lparr>c_detectors := c_detectors c @ [RepeatReadDetector {} Map.empty]\<rparr>
      else c)"

definition OfferFileIOInfo :: "IOInfo \<Rightarrow> IOCanary \<Rightarrow> IOCanary" where
  "OfferFileIOInfo info c = c\<lparr>c_queue := c_queue c @ [info]\<rparr>"

definition canary_OnOpen :: "string \<Rightarrow> int \<Rightarrow> JavaContext \<Rightarrow> timeval \<Rightarrow> IOCanary \<Rightarrow> IOCanary" where
  "canary_OnOpen pathname open_ret ctx tv c = c\<lparr>c_collector := OnOpen (c_collector c) pathname open_ret ctx tv\<rparr>"

definition canary_OnRead :: "int \<Rightarrow> u64 \<Rightarrow> int \<Rightarrow> int \<Rightarrow> timeval \<Rightarrow> IOCanary \<Rightarrow> IOCanary run" where
  "canary_OnRead fd sz read_ret read_cost tv c =
     bindr (OnRead (c_collector c) fd sz read_ret read_cost tv) (\<lambda>m. Ret (c\<lparr>c_collector := m\<rparr>))"

definition canary_OnWrite :: "int \<Rightarrow> u64 \<Rightarrow> int \<Rightarrow> int \<Rightarrow> timeval \<Rightarrow> IOCanary \<Rightarrow> IOCanary run" where
  "canary_OnWrite fd sz write_ret write_cost tv c =
     bindr (OnWrite (c_collector c) fd sz write_ret write_cost tv) (\<lambda>m. Ret (c\<lparr>c_collector := m\<rparr>))"

definition canary_OnClose :: "int \<Rightarrow> timeval \<Rightarrow> int option \<Rightarrow> IOCanary \<Rightarrow> IOCanary run" where
  "canary_OnClose fd tv st_size c =
     bindr (OnClose (c_collector c) fd tv st_size) (\<lambda>(info, m).
       let c = c\<lparr>c_collector := m\<rparr> in
       case info of None \<Rightarrow> Ret c | Some info \<Rightarrow> Ret (OfferFileIOInfo info c))"

text \<open>What \<open>TakeFileIOInfo\<close> does on its next look at the queue: an entry, the end of the thread, or a wait.
  The flag is only looked at after a wait.\<close>

datatype taken = Taken IOInfo | Exited | Waits

definition TakeFileIOInfo :: "bool \<Rightarrow> IOCanary \<Rightarrow> taken \<times> IOCanary" where
  "TakeFileIOInfo woken c =
     (if woken \<and> c_exit c then (Exited, c)
      else case c_queue c of
          [] \<Rightarrow> (Waits, c)
        | info # q \<Rightarrow> (Taken info, c\<lparr>c_queue := q\<rparr>))"

text \<open>A round of the loop of \<open>Detect\<close> after an entry is taken.\<close>

definition Detect_round :: "int \<Rightarrow> IOInfo \<Rightarrow> (nat \<Rightarrow> timespec \<times> timespec) \<Rightarrow> IOCanary \<Rightarrow> IOCanary run" where
  "Detect_round pid info ticks c =
     bindr (detect_all pid (c_env c) info ticks (c_detectors c) []) (\<lambda>(ds, published_issues).
       Ret (c\<lparr>c_detectors := ds,
         c_reported := (if c_callback c \<and> published_issues \<noteq> [] then c_reported c @ [published_issues]
                        else c_reported c)\<rparr>))"

definition destroy_IOCanary :: "IOCanary \<Rightarrow> IOCanary" where
  "destroy_IOCanary c = c\<lparr>c_exit := True, c_detectors := []\<rparr>"

section \<open>Repeated reads\<close>

text \<open>The detector over a sequence of records with the clock readings at each.\<close>

fun feed :: "IOCanaryEnv \<Rightarrow> (IOInfo \<times> timespec \<times> timespec) list \<Rightarrow> observing \<Rightarrow> pub \<Rightarrow> (observing \<times> pub) run" where
  "feed env [] obs pub = Ret (obs, pub)"
| "feed env ((info, ts, ts') # xs) obs pub =
     bindr (repeat_read_Detect env info ts ts' obs pub) (\<lambda>(obs, pub). feed env xs obs pub)"

text \<open>Records of the same read: file, thread, stack and sizes agree, and it is no write.\<close>

definition alike :: "IOInfo \<Rightarrow> IOInfo \<Rightarrow> bool" where
  "alike a b \<longleftrightarrow> io_path b = io_path a \<and> io_java_context b = io_java_context a \<and> io_op_size b = io_op_size a \<and>
     io_file_size b = io_file_size a \<and> io_op_type b \<noteq> kWrite"

definition repeat_issue :: "IOInfo \<Rightarrow> int \<Rightarrow> Issue" where
  "repeat_issue info n = (new_Issue kIssueRepeatRead info)\<lparr>is_repeat_read_cnt := n\<rparr>"

lemma alike_simps:
  assumes "alike a b"
  shows "GenKey b = GenKey a" "io_path b = io_path a"
    "same_read (new_RepeatReadInfo a ts\<lparr>rr_repeat_cnt := k\<rparr>) (new_RepeatReadInfo b ts')"
  using assms by (simp_all add: alike_def GenKey_def same_read_def new_RepeatReadInfo_def)

lemma repeat_step:
  assumes "alike a b" and "obs (io_path a) = Some [(new_RepeatReadInfo a t)\<lparr>rr_repeat_cnt := k\<rparr>]"
    and "GetTickCount ts' - GetTickCount t \<le> 17" and "0 < k" and "k + 1 < 2 ^ 31"
  shows "repeat_read_Detect env b ts ts' obs pub =
    Ret (obs(io_path a \<mapsto> [(new_RepeatReadInfo a t)\<lparr>rr_repeat_cnt := k + 1\<rparr>]),
      if k + 1 \<ge> GetRepeatReadThreshold env then PublishIssue (repeat_issue b (k + 1)) pub else pub)"
proof -
  have inc: "plus_s 32 k 1 = Ret (k + 1)" using assms(4,5) by (simp add: plus_s_def)
  have time: "\<not> GetTickCount ts' - rr_op_timems (new_RepeatReadInfo a t) > 17"
    using assms(3) by (simp add: new_RepeatReadInfo_def)
  have "io_op_type b \<noteq> kWrite" using assms(1) by (simp add: alike_def)
  with alike_simps [OF assms(1)] assms(2) inc time show ?thesis
    by (simp add: repeat_read_Detect_def repeat_issue_def Let_def new_Issue_def new_RepeatReadInfo_def)
qed

lemma repeat_first:
  assumes "alike a a" and "obs (io_path a) = None \<or> obs (io_path a) = Some []"
    and "io_max_continual_rw_cost_time_us a \<ge> kPossibleNegativeThreshold"
  shows "repeat_read_Detect env a t ts' obs pub = Ret (obs(io_path a \<mapsto> [new_RepeatReadInfo a t]), pub)"
  using assms by (auto simp: repeat_read_Detect_def Let_def alike_def)

lemma PublishIssue_again:
  "is_key i = is_key j \<Longrightarrow> PublishIssue i (PublishIssue j pub) = PublishIssue j pub"
  by (cases pub) (auto simp: IsIssuePublished_def MarkIssuePublished_def)

fun publish_reads :: "int \<Rightarrow> int \<Rightarrow> IOInfo list \<Rightarrow> pub \<Rightarrow> pub" where
  "publish_reads thr k [] pub = pub"
| "publish_reads thr k (b # bs) pub =
     publish_reads thr (k + 1) bs (if thr \<le> k + 1 then PublishIssue (repeat_issue b (k + 1)) pub else pub)"

lemma publish_reads_done:
  assumes "list_all (\<lambda>b. GenKey b = GenKey a) (b # bs)"
  shows "publish_reads thr k bs (PublishIssue (repeat_issue b n) pub) = PublishIssue (repeat_issue b n) pub"
  using assms
proof (induction bs arbitrary: k)
  case (Cons c bs)
  then have "PublishIssue (repeat_issue c (k + 1)) (PublishIssue (repeat_issue b n) pub) = PublishIssue (repeat_issue b n) pub"
    by (intro PublishIssue_again) (simp add: repeat_issue_def new_Issue_def)
  with Cons show ?case by simp
qed simp

lemma publish_reads_spec:
  assumes "list_all (\<lambda>b. GenKey b = GenKey a) bs" and "k < thr"
  shows "publish_reads thr k bs pub =
    (if thr \<le> k + int (length bs) then PublishIssue (repeat_issue (bs ! nat (thr - k - 1)) thr) pub else pub)"
  using assms
proof (induction bs arbitrary: k)
  case (Cons b bs)
  show ?case
  proof (cases "thr = k + 1")
    case True
    then show ?thesis using publish_reads_done [OF Cons.prems(1), of "k + 1" "k + 1" thr pub] by simp
  next
    case False
    with Cons.prems have k: "k + 1 < thr" by simp
    then have "nat (thr - k - 1) = Suc (nat (thr - (k + 1) - 1))" by simp
    with k Cons show ?thesis by simp
  qed
qed simp

lemma feed_repeat:
  assumes "list_all (\<lambda>(b, ts, ts'). alike a b \<and> GetTickCount ts' - GetTickCount t \<le> 17) xs"
    and "obs (io_path a) = Some [(new_RepeatReadInfo a t)\<lparr>rr_repeat_cnt := k\<rparr>]"
    and "0 < k" and "k + int (length xs) < 2 ^ 31"
  shows "feed env xs obs pub =
    Ret (obs(io_path a \<mapsto> [(new_RepeatReadInfo a t)\<lparr>rr_repeat_cnt := k + int (length xs)\<rparr>]),
      publish_reads (GetRepeatReadThreshold env) k (map fst xs) pub)"
  using assms
proof (induction xs arbitrary: obs pub k)
  case Nil
  then show ?case by (simp add: fun_upd_idem)
next
  case (Cons x xs)
  obtain b ts ts' where x: "x = (b, ts, ts')" by (cases x)
  let ?pub = "if k + 1 \<ge> GetRepeatReadThreshold env then PublishIssue (repeat_issue b (k + 1)) pub else pub"
  have step: "repeat_read_Detect env b ts ts' obs pub =
      Ret (obs(io_path a \<mapsto> [(new_RepeatReadInfo a t)\<lparr>rr_repeat_cnt := k + 1\<rparr>]), ?pub)"
    using Cons.prems by (intro repeat_step) (auto simp: x)
  have "feed env xs (obs(io_path a \<mapsto> [(new_RepeatReadInfo a t)\<lparr>rr_repeat_cnt := k + 1\<rparr>])) ?pub =
    Ret (obs(io_path a \<mapsto> [(new_RepeatReadInfo a t)\<lparr>rr_repeat_cnt := k + 1 + int (length xs)\<rparr>]),
      publish_reads (GetRepeatReadThreshold env) (k + 1) (map fst xs) ?pub)"
    using Cons.prems by (subst Cons.IH [where k = "k + 1"]) simp_all
  with step show ?case by (simp only: x feed.simps bindr.simps prod.case) (simp add: algebra_simps fun_upd_def)
qed

text \<open>reading a file again and again is noticed at the configured number of reads. After any number of
  records of the same read, each less than 18 ms after the first, whose first was slow enough to be observed, no
  issue has been published below the threshold, and exactly one from there on: that of the read that reached
  the threshold, with the threshold as its count, unless its key had been published before.\<close>

theorem repeat_read_detects:
  assumes "alike a a" and "obs (io_path a) = None" and "io_max_continual_rw_cost_time_us a \<ge> kPossibleNegativeThreshold"
    and "list_all (\<lambda>(b, ts, ts'). alike a b \<and> GetTickCount ts' - GetTickCount t \<le> 17) xs"
    and "int (length xs) + 1 < 2 ^ 31" and "2 \<le> GetRepeatReadThreshold env"
  shows "feed env ((a, t, t') # xs) obs (published, issues) =
    Ret (obs(io_path a \<mapsto> [(new_RepeatReadInfo a t)\<lparr>rr_repeat_cnt := 1 + int (length xs)\<rparr>]),
      if GetRepeatReadThreshold env \<le> 1 + int (length xs) \<and> GenKey a \<notin> published
      then (insert (GenKey a) published,
        issues @ [repeat_issue (fst (xs ! nat (GetRepeatReadThreshold env - 2))) (GetRepeatReadThreshold env)])
      else (published, issues))"
proof -
  let ?obs = "obs(io_path a \<mapsto> [new_RepeatReadInfo a t])" and ?thr = "GetRepeatReadThreshold env"
  have first: "repeat_read_Detect env a t t' obs (published, issues) = Ret (?obs, (published, issues))"
    using assms(1-3) by (intro repeat_first) simp_all
  have rest: "feed env xs ?obs (published, issues) =
    Ret (?obs(io_path a \<mapsto> [(new_RepeatReadInfo a t)\<lparr>rr_repeat_cnt := 1 + int (length xs)\<rparr>]),
      publish_reads ?thr 1 (map fst xs) (published, issues))"
    using assms(4,5) by (intro feed_repeat) (simp_all add: new_RepeatReadInfo_def)
  have keys: "list_all (\<lambda>b. GenKey b = GenKey a) (map fst xs)"
    using assms(4) alike_simps(1) by (fastforce simp: list_all_iff)
  have pub: "publish_reads ?thr 1 (map fst xs) (published, issues) =
      (if ?thr \<le> 1 + int (length xs) then PublishIssue (repeat_issue (map fst xs ! nat (?thr - 1 - 1)) ?thr) (published, issues)
       else (published, issues))"
    using publish_reads_spec [OF keys, of 1 ?thr] assms(6) by simp
  show ?thesis
  proof (cases "?thr \<le> 1 + int (length xs)")
    case True
    then have n: "nat (?thr - 2) < length xs" using assms(6) by simp
    then have key: "is_key (repeat_issue (fst (xs ! nat (?thr - 2))) ?thr) = GenKey a"
      using keys by (simp add: list_all_length repeat_issue_def new_Issue_def)
    show ?thesis
      using first rest pub True n key
      by (simp add: IsIssuePublished_def MarkIssuePublished_def)
  next
    case False
    then show ?thesis using first rest pub by simp
  qed
qed


definition slow_read :: IOInfo where
  "slow_read = (new_IOInfo ''/data/f'' sample_ctx (10, 0))\<lparr>io_op_type := kRead, io_op_cnt := 1, io_op_size := 100,
     io_max_continual_rw_cost_time_us := 14000\<rparr>"

theorem repeat_read_detects_witness:
  "\<exists>obs key i. feed new_IOCanaryEnv (replicate 7 (slow_read, Some (1, 0), Some (1, 16000000))) Map.empty ({}, []) =
     Ret (obs, {key}, [i]) \<and> is_repeat_read_cnt i = 5"
proof -
  let ?t = "Some (1, 0) :: timespec" and ?t' = "Some (1, 16000000) :: timespec"
  have rep: "replicate 7 (slow_read, ?t, ?t') = (slow_read, ?t, ?t') # replicate 6 (slow_read, ?t, ?t')"
    by (simp add: numeral_eq_Suc)
  have thr: "GetRepeatReadThreshold new_IOCanaryEnv = 5"
    by (simp add: GetRepeatReadThreshold_def GetConfig_def kRepeatReadThreshold_def kConfigKeysLen_def new_IOCanaryEnv_def)
  have alike: "alike slow_read slow_read" by (simp add: alike_def slow_read_def new_IOInfo_def)
  have ticks: "GetTickCount ?t = 1000" "GetTickCount ?t' = 1016"
    by (simp_all add: GetTickCount_def GetTickCountMicros_def)
  have "kPossibleNegativeThreshold \<le> io_max_continual_rw_cost_time_us slow_read"
    by (simp add: slow_read_def kPossibleNegativeThreshold_def)
  note repeat_read_detects [OF alike _ this, of Map.empty ?t "replicate 6 (slow_read, ?t, ?t')" new_IOCanaryEnv ?t' "{}" "[]"]
  then have "feed new_IOCanaryEnv ((slow_read, ?t, ?t') # replicate 6 (slow_read, ?t, ?t')) Map.empty ({}, []) =
    Ret (Map.empty(io_path slow_read \<mapsto> [(new_RepeatReadInfo slow_read ?t)\<lparr>rr_repeat_cnt := 7\<rparr>]),
      {GenKey slow_read}, [repeat_issue slow_read 5])"
    by (simp add: thr alike ticks list_all_iff)
  then show ?thesis unfolding rep thr by (simp add: repeat_issue_def)
qed

section \<open>The contract of a detector\<close>

text \<open>Issues of a type are added at the end of the list, under new keys, which are all remembered.\<close>

definition adds_issues :: "IssueType \<Rightarrow> string set \<Rightarrow> Issue list \<Rightarrow> string set \<Rightarrow> Issue list \<Rightarrow> bool" where
  "adds_issues k p issues p' issues' \<longleftrightarrow> (\<exists>new. issues' = issues @ new \<and> distinct (map is_key new) \<and>
     p \<inter> is_key ` set new = {} \<and> p' = p \<union> is_key ` set new \<and> (\<forall>i \<in> set new. is_type i = k))"

lemma adds_issues_refl: "adds_issues k p issues p issues"
  by (simp add: adds_issues_def)

lemma adds_PublishIssue:
  "PublishIssue target (p, issues) = (p', issues') \<Longrightarrow> is_type target = k \<Longrightarrow> adds_issues k p issues p' issues'"
  by (auto simp: adds_issues_def IsIssuePublished_def MarkIssuePublished_def split: if_splits)

text \<open>What the canary relies on of a detector, and what follows for any sequence of records it sees.\<close>

locale file_io_detector =
  fixes detect :: "'a \<Rightarrow> 's \<Rightarrow> Issue list \<Rightarrow> ('s \<times> Issue list) run"
    and published :: "'s \<Rightarrow> string set"
    and kind :: IssueType
  assumes detect_adds:
    "detect a s issues = Ret (s', issues') \<Longrightarrow> adds_issues kind (published s) issues (published s') issues'"
begin

fun rounds :: "'a list \<Rightarrow> 's \<Rightarrow> ('s \<times> Issue list) run" where
  "rounds [] s = Ret (s, [])"
| "rounds (a # as) s =
     bindr (detect a s []) (\<lambda>(s, new). bindr (rounds as s) (\<lambda>(s, more). Ret (s, new @ more)))"

lemma rounds_adds:
  "rounds as s = Ret (s', issues) \<Longrightarrow> adds_issues kind (published s) [] (published s') issues"
proof (induction as arbitrary: s issues)
  case (Cons a as)
  then obtain s1 new more where d: "detect a s [] = Ret (s1, new)" and r: "rounds as s1 = Ret (s', more)"
    and i: "issues = new @ more" by (auto simp: bindr_eq_Ret)
  from detect_adds [OF d] Cons.IH [OF r] show ?case unfolding i adds_issues_def by auto
qed (simp add: adds_issues_refl)

lemma rounds_once: "rounds as s = Ret (s', issues) \<Longrightarrow> distinct (map is_key issues)"
  using rounds_adds by (auto simp: adds_issues_def)

end

lemma new_Issue_type [simp]: "is_type (new_Issue k info) = k"
  by (simp add: new_Issue_def)

lemma main_thread_adds:
  "main_thread_Detect pid env info (p, issues) = (p', issues') \<Longrightarrow> adds_issues kIssueMainThreadIO p issues p' issues'"
  by (auto simp: main_thread_Detect_def Let_def adds_issues_refl simp del: PublishIssue.simps split: if_splits
      elim!: adds_PublishIssue)

lemma small_buffer_adds:
  "small_buffer_Detect env info (p, issues) = (p', issues') \<Longrightarrow> adds_issues kIssueSmallBuffer p issues p' issues'"
  by (auto simp: small_buffer_Detect_def adds_issues_refl simp del: PublishIssue.simps split: if_splits
      elim!: adds_PublishIssue)

lemma repeat_read_adds:
  "repeat_read_Detect env info ts ts' obs (p, issues) = Ret (obs', p', issues') \<Longrightarrow>
     adds_issues kIssueRepeatRead p issues p' issues'"
  by (auto simp: repeat_read_Detect_def Let_def bindr_eq_Ret adds_issues_refl simp del: PublishIssue.simps
      split: if_splits option.splits elim!: adds_PublishIssue)

interpretation main_thread: file_io_detector
  "\<lambda>a p issues. Ret (main_thread_Detect (fst a) (fst (snd a)) (snd (snd a)) (p, issues))" "\<lambda>p. p" kIssueMainThreadIO
  by unfold_locales (simp add: main_thread_adds)

interpretation small_buffer: file_io_detector
  "\<lambda>a p issues. Ret (small_buffer_Detect (fst a) (snd a) (p, issues))" "\<lambda>p. p" kIssueSmallBuffer
  by unfold_locales (simp add: small_buffer_adds)

interpretation repeat_read: file_io_detector
  "\<lambda>(env, info, ts, ts') (p, obs) issues. bindr (repeat_read_Detect env info ts ts' obs (p, issues)) (\<lambda>(obs, p, issues).
     Ret ((p, obs), issues))" fst kIssueRepeatRead
  by unfold_locales (auto simp: bindr_eq_Ret intro: repeat_read_adds)

text \<open>So with every kind of detector.\<close>

fun detector_kind :: "detector \<Rightarrow> IssueType" where
  "detector_kind (MainThreadDetector p) = kIssueMainThreadIO"
| "detector_kind (SmallBufferDetector p) = kIssueSmallBuffer"
| "detector_kind (RepeatReadDetector p obs) = kIssueRepeatRead"

fun detector_published :: "detector \<Rightarrow> string set" where
  "detector_published (MainThreadDetector p) = p"
| "detector_published (SmallBufferDetector p) = p"
| "detector_published (RepeatReadDetector p obs) = p"

lemma detector_adds:
  assumes "detector_Detect pid env info ticks d issues = Ret (d', issues')"
  shows "detector_kind d' = detector_kind d \<and>
    adds_issues (detector_kind d) (detector_published d) issues (detector_published d') issues'"
  using assms
proof (cases d)
  case (MainThreadDetector p)
  with assms show ?thesis
    using main_thread.detect_adds [of "(pid, env, info)" p issues] by (auto split: prod.splits)
next
  case (SmallBufferDetector p)
  with assms show ?thesis
    using small_buffer.detect_adds [of "(env, info)" p issues] by (auto split: prod.splits)
next
  case (RepeatReadDetector p obs)
  with assms show ?thesis
    using repeat_read.detect_adds [of "(env, info, ticks)" "(p, obs)" issues] by (cases ticks) (auto simp: bindr_eq_Ret)
qed

text \<open>The issues of a round, for each type.\<close>

definition of_kind :: "IssueType \<Rightarrow> Issue list \<Rightarrow> Issue list" where
  "of_kind k issues = filter (\<lambda>i. is_type i = k) issues"

lemma detect_all_adds:
  assumes "detect_all pid env info ticks ds issues = Ret (ds', issues')" and "distinct (map detector_kind ds)"
  shows "map detector_kind ds' = map detector_kind ds \<and>
    (\<exists>new. issues' = issues @ new \<and> is_type ` set new \<subseteq> detector_kind ` set ds) \<and>
    (\<forall>n < length ds. adds_issues (detector_kind (ds ! n)) (detector_published (ds ! n))
       (of_kind (detector_kind (ds ! n)) issues) (detector_published (ds' ! n)) (of_kind (detector_kind (ds ! n)) issues'))"
  using assms
proof (induction ds arbitrary: ticks issues ds')
  case (Cons d ds)
  from Cons.prems obtain d1 issues1 ds1 where d: "detector_Detect pid env info (ticks 0) d issues = Ret (d1, issues1)"
    and r: "detect_all pid env info (\<lambda>n. ticks (Suc n)) ds issues1 = Ret (ds1, issues')" and ds': "ds' = d1 # ds1"
    by (auto simp: bindr_eq_Ret)
  note da = detector_adds [OF d]
  then obtain new where new: "issues1 = issues @ new" "\<forall>i \<in> set new. is_type i = detector_kind d"
    by (auto simp: adds_issues_def)
  have IH: "map detector_kind ds1 = map detector_kind ds"
    "\<exists>new. issues' = issues1 @ new \<and> is_type ` set new \<subseteq> detector_kind ` set ds"
    "\<forall>n < length ds. adds_issues (detector_kind (ds ! n)) (detector_published (ds ! n))
       (of_kind (detector_kind (ds ! n)) issues1) (detector_published (ds1 ! n)) (of_kind (detector_kind (ds ! n)) issues')"
    using Cons.IH [OF r] Cons.prems(2) by simp_all
  then obtain more where more: "issues' = issues1 @ more" "is_type ` set more \<subseteq> detector_kind ` set ds" by blast
  have "detector_kind d \<notin> detector_kind ` set ds" using Cons.prems(2) by simp
  then have k: "of_kind (detector_kind d) more = []"
    using more(2) unfolding of_kind_def filter_empty_conv by (metis image_eqI subsetD)
  have k': "of_kind (detector_kind d) new = new" using new(2) by (simp add: of_kind_def)
  have o: "of_kind (detector_kind (ds ! n)) new = []" if "n < length ds" for n
    using that new(2) \<open>detector_kind d \<notin> detector_kind ` set ds\<close> by (fastforce simp: of_kind_def filter_empty_conv)
  have first: "adds_issues (detector_kind d) (detector_published d) (of_kind (detector_kind d) issues)
      (detector_published d1) (of_kind (detector_kind d) issues')"
    using da k k' by (auto simp: adds_issues_def more(1) new(1) of_kind_def)
  have rest: "adds_issues (detector_kind (ds ! n)) (detector_published (ds ! n))
       (of_kind (detector_kind (ds ! n)) issues) (detector_published (ds1 ! n)) (of_kind (detector_kind (ds ! n)) issues')"
    if "n < length ds" for n
    using IH(3) [rule_format, OF that] o [OF that] by (simp add: new(1) of_kind_def)
  show ?case
    using da IH(1) first rest more new by (auto simp: ds' nth_Cons split: nat.split)
qed simp

end
