(* ===== verification/IoQueue.thy ===== *)
theory IoQueue
  imports IoDetect
begin

text \<open>
  The two threads of \<open>core/io_canary.cc\<close> as a step relation: the main thread reports its I/O, the detached
  thread runs \<open>Detect\<close>. Every closed file is examined exactly once, in the order of the closes, and no
  detector reports the same key twice.
\<close>

section \<open>Steps\<close>

text \<open>The detecting thread is before a look at the queue, asleep in \<open>queue_cv.wait\<close>, or has ended. The
  state also records the calls so far and the entries taken.\<close>

datatype dpc = Ready | Asleep | Ended

record canary_state =
  cs_canary :: IOCanary
  cs_pc :: dpc
  cs_trace :: "io_event list"
  cs_taken :: "IOInfo list"

fun canary_event :: "io_event \<Rightarrow> IOCanary \<Rightarrow> IOCanary run" where
  "canary_event (EvOpen p fd ctx tv) c = Ret (canary_OnOpen p fd ctx tv c)"
| "canary_event (EvRead fd sz ret cost tv) c = canary_OnRead fd sz ret cost tv c"
| "canary_event (EvWrite fd sz ret cost tv) c = canary_OnWrite fd sz ret cost tv c"
| "canary_event (EvClose fd tv st) c = canary_OnClose fd tv st c"

inductive canary_step :: "int \<Rightarrow> canary_state \<Rightarrow> canary_state \<Rightarrow> bool" for pid :: int where
  io: "canary_event e (cs_canary s) = Ret c \<Longrightarrow>
    canary_step pid s (s\<lparr>cs_canary := c, cs_trace := cs_trace s @ [e]\<rparr>)"
| config: "canary_step pid s (s\<lparr>cs_canary := SetConfig key val (cs_canary s)\<rparr>)"
| callback: "canary_step pid s (s\<lparr>cs_canary := SetIssuedCallback b (cs_canary s)\<rparr>)"
| register: "canary_step pid s (s\<lparr>cs_canary := RegisterDetector type (cs_canary s)\<rparr>)"
| detect: "cs_pc s \<noteq> Ended \<Longrightarrow> TakeFileIOInfo (cs_pc s = Asleep) (cs_canary s) = (Taken info, c) \<Longrightarrow>
    Detect_round pid info ticks c = Ret c' \<Longrightarrow>
    canary_step pid s (s\<lparr>cs_canary := c', cs_pc := Ready, cs_taken := cs_taken s @ [info]\<rparr>)"
| wait: "cs_pc s \<noteq> Ended \<Longrightarrow> TakeFileIOInfo (cs_pc s = Asleep) (cs_canary s) = (Waits, c) \<Longrightarrow>
    canary_step pid s (s\<lparr>cs_canary := c, cs_pc := Asleep\<rparr>)"
| leave: "cs_pc s \<noteq> Ended \<Longrightarrow> TakeFileIOInfo (cs_pc s = Asleep) (cs_canary s) = (Exited, c) \<Longrightarrow>
    canary_step pid s (s\<lparr>cs_canary := c, cs_pc := Ended\<rparr>)"
| destroy: "canary_step pid s (s\<lparr>cs_canary := destroy_IOCanary (cs_canary s)\<rparr>)"

definition canary_start :: canary_state where
  "canary_start = \<lparr>cs_canary = new_IOCanary, cs_pc = Ready, cs_trace = [], cs_taken = []\<rparr>"

inductive canary_reachable :: "int \<Rightarrow> canary_state \<Rightarrow> bool" for pid :: int where
  start: "canary_reachable pid canary_start"
| more: "canary_reachable pid s \<Longrightarrow> canary_step pid s s' \<Longrightarrow> canary_reachable pid s'"

inductive_cases canary_stepE: "canary_step pid s s'"

section \<open>Exactly once, in order\<close>

text \<open>What the collector has handed out has been taken or is in the queue.\<close>

definition handed_out :: "canary_state \<Rightarrow> bool" where
  "handed_out s \<longleftrightarrow>
     collect (cs_trace s) Map.empty = Ret (cs_taken s @ c_queue (cs_canary s), c_collector (cs_canary s))"

lemma canary_event_collect:
  assumes "canary_event e c = Ret c'"
  obtains out where "collect_event e (c_collector c) = Ret (out, c_collector c')"
    and "c_queue c' = c_queue c @ (case out of None \<Rightarrow> [] | Some i \<Rightarrow> [i])"
    and "c_detectors c' = c_detectors c" and "c_reported c' = c_reported c" and "c_exit c' = c_exit c"
proof (cases e)
  case (EvClose fd tv st)
  with assms obtain info m where "OnClose (c_collector c) fd tv st = Ret (info, m)"
    "(case info of None \<Rightarrow> Ret (c\<lparr>c_collector := m\<rparr>) | Some i \<Rightarrow> Ret (OfferFileIOInfo i (c\<lparr>c_collector := m\<rparr>))) = Ret c'"
    by (auto simp: canary_OnClose_def bindr_eq_Ret Let_def)
  with EvClose show ?thesis by (intro that [of info]) (auto simp: OfferFileIOInfo_def split: option.splits)
qed (use assms in \<open>auto simp: canary_OnOpen_def canary_OnRead_def canary_OnWrite_def bindr_eq_Ret intro!: that [of None]\<close>)

lemma TakeFileIOInfo_Taken:
  "TakeFileIOInfo woken c = (Taken info, c') \<Longrightarrow> c_queue c = info # c_queue c' \<and> c_collector c' = c_collector c \<and>
     c_exit c' = c_exit c \<and> c_detectors c' = c_detectors c \<and> c_reported c' = c_reported c"
  by (auto simp: TakeFileIOInfo_def split: if_splits list.splits)

lemma TakeFileIOInfo_other: "TakeFileIOInfo woken c = (r, c') \<Longrightarrow> (\<And>i. r \<noteq> Taken i) \<Longrightarrow> c' = c"
  by (auto simp: TakeFileIOInfo_def split: if_splits list.splits)

lemma Detect_round_keeps:
  "Detect_round pid info ticks c = Ret c' \<Longrightarrow> c_queue c' = c_queue c \<and> c_collector c' = c_collector c \<and>
     c_exit c' = c_exit c \<and> c_callback c' = c_callback c"
  by (auto simp: Detect_round_def bindr_eq_Ret)

lemma control_keeps:
  "c_queue (SetConfig key val c) = c_queue c" "c_collector (SetConfig key val c) = c_collector c"
  "c_queue (SetIssuedCallback b c) = c_queue c" "c_collector (SetIssuedCallback b c) = c_collector c"
  "c_queue (RegisterDetector type c) = c_queue c" "c_collector (RegisterDetector type c) = c_collector c"
  "c_queue (destroy_IOCanary c) = c_queue c" "c_collector (destroy_IOCanary c) = c_collector c"
  by (simp_all add: SetConfig_def SetIssuedCallback_def RegisterDetector_def destroy_IOCanary_def)

lemma handed_out_step:
  assumes "handed_out s" and "canary_step pid s s'"
  shows "handed_out s'"
  using assms(2,1)
proof (cases rule: canary_step.cases)
  case (io e c)
  from canary_event_collect [OF io(2)] obtain out
    where "collect_event e (c_collector (cs_canary s)) = Ret (out, c_collector c)"
      "c_queue c = c_queue (cs_canary s) @ (case out of None \<Rightarrow> [] | Some i \<Rightarrow> [i])" by metis
  with io(1) assms(1) show ?thesis by (simp add: handed_out_def collect_snoc)
next
  case (detect info c ticks c')
  with assms(1) TakeFileIOInfo_Taken [OF detect(3)] Detect_round_keeps [OF detect(4)] show ?thesis
    by (simp add: handed_out_def)
next
  case (wait c)
  with assms(1) TakeFileIOInfo_other [OF wait(3)] show ?thesis by (simp add: handed_out_def)
next
  case (leave c)
  with assms(1) TakeFileIOInfo_other [OF leave(3)] show ?thesis by (simp add: handed_out_def)
qed (simp_all add: handed_out_def control_keeps)

lemma handed_out_reachable: "canary_reachable pid s \<Longrightarrow> handed_out s"
proof (induction rule: canary_reachable.induct)
  case start
  then show ?case by (simp add: handed_out_def canary_start_def new_IOCanary_def)
qed (rule handed_out_step)

text \<open>C31: no closed file is lost, examined twice or examined out of order. In every reachable state of the
  two threads, whatever was configured or registered in between, the records the detecting thread has
  taken followed by those in the queue are the records of the closes so far, in order, each with the
  totals of its file.\<close>

theorem examined_exactly_once:
  assumes "canary_reachable pid s" and "trace_ok (cs_trace s)"
  shows "cs_taken s @ c_queue (cs_canary s) = closed (rev (cs_trace s))"
  using handed_out_reachable [OF assms(1)] collect_implements_trace [OF assms(2)] by (simp add: handed_out_def)

section \<open>At most once\<close>

definition keys_of :: "IssueType \<Rightarrow> Issue list \<Rightarrow> string list" where
  "keys_of k issues = map is_key (of_kind k issues)"

text \<open>With one detector of each kind at most, the reported keys of a kind are distinct and remembered.\<close>

definition once :: "IOCanary \<Rightarrow> bool" where
  "once c \<longleftrightarrow> (\<not> c_exit c \<and> distinct (map detector_kind (c_detectors c)) \<longrightarrow>
     (\<forall>i \<in> set (concat (c_reported c)). is_type i \<in> detector_kind ` set (c_detectors c)) \<and>
     (\<forall>n < length (c_detectors c). let d = c_detectors c ! n; ks = keys_of (detector_kind d) (concat (c_reported c)) in
        distinct ks \<and> set ks \<subseteq> detector_published d))"

lemma once_cong:
  "c_exit c' = c_exit c \<Longrightarrow> c_detectors c' = c_detectors c \<Longrightarrow> c_reported c' = c_reported c \<Longrightarrow> once c' \<longleftrightarrow> once c"
  by (simp add: once_def)

lemma once_RegisterDetector:
  assumes "once c"
  shows "once (RegisterDetector type c)"
proof -
  have "once (c\<lparr>c_detectors := c_detectors c @ [d]\<rparr>)" if "detector_published d = {}" for d
  proof -
    have "keys_of (detector_kind d) (concat (c_reported c)) = []"
      if "\<not> c_exit c" "distinct (map detector_kind (c_detectors c @ [d]))"
    proof -
      from that have "detector_kind d \<notin> detector_kind ` set (c_detectors c)" by simp
      moreover from that assms have "\<forall>i \<in> set (concat (c_reported c)). is_type i \<in> detector_kind ` set (c_detectors c)"
        unfolding once_def by simp
      ultimately show ?thesis unfolding keys_of_def of_kind_def map_is_Nil_conv filter_empty_conv by metis
    qed
    with assms show ?thesis by (auto simp: once_def nth_append Let_def less_Suc_eq)
  qed
  with assms show ?thesis by (simp add: RegisterDetector_def)
qed

lemma detect_all_kinds:
  "detect_all pid env info ticks ds issues = Ret (ds', issues') \<Longrightarrow> map detector_kind ds' = map detector_kind ds"
  by (induction ds arbitrary: ticks issues ds') (auto simp: bindr_eq_Ret dest: detector_adds)

lemma keys_of_append: "keys_of k (xs @ ys) = keys_of k xs @ keys_of k ys"
  by (simp add: keys_of_def of_kind_def)

lemma keys_of_Nil [simp]: "keys_of k [] = []"
  by (simp add: keys_of_def of_kind_def)

lemma once_Detect_round:
  assumes "once c" and "Detect_round pid info ticks c = Ret c'"
  shows "once c'"
proof -
  from assms(2) obtain ds new where d: "detect_all pid (c_env c) info ticks (c_detectors c) [] = Ret (ds, new)"
    and c': "c_exit c' = c_exit c" "c_detectors c' = ds"
      "concat (c_reported c') = concat (c_reported c) @ (if c_callback c then new else [])"
    by (auto simp: Detect_round_def bindr_eq_Ret)
  note kinds = detect_all_kinds [OF d]
  then have len: "length ds = length (c_detectors c)" by (metis length_map)
  have kset: "detector_kind ` set ds = detector_kind ` set (c_detectors c)" using kinds by (metis list.set_map)
  show ?thesis unfolding once_def c'
  proof (intro impI)
    assume a: "\<not> c_exit c \<and> distinct (map detector_kind ds)"
    then have dist: "distinct (map detector_kind (c_detectors c))" using kinds by simp
    note adds = detect_all_adds [OF d dist]
    note old = assms(1) [unfolded once_def Let_def, rule_format, OF conjI [OF conjunct1 [OF a] dist]]
    have "distinct ks \<and> set ks \<subseteq> detector_published (ds ! n)"
      if n: "n < length ds"
        and ks: "ks = keys_of (detector_kind (ds ! n)) (concat (c_reported c) @ (if c_callback c then new else []))"
      for n ks
    proof -
      have k: "detector_kind (ds ! n) = detector_kind (c_detectors c ! n)"
        using kinds n len by (metis nth_map)
      have "adds_issues (detector_kind (ds ! n)) (detector_published (c_detectors c ! n)) []
          (detector_published (ds ! n)) (of_kind (detector_kind (ds ! n)) new)"
        using adds n len by (simp add: k of_kind_def)
      then have new: "distinct (keys_of (detector_kind (ds ! n)) new)"
        "detector_published (c_detectors c ! n) \<inter> set (keys_of (detector_kind (ds ! n)) new) = {}"
        "detector_published (ds ! n) = detector_published (c_detectors c ! n) \<union> set (keys_of (detector_kind (ds ! n)) new)"
        by (auto simp: adds_issues_def keys_of_def)
      have "distinct (keys_of (detector_kind (ds ! n)) (concat (c_reported c)))"
        "set (keys_of (detector_kind (ds ! n)) (concat (c_reported c))) \<subseteq> detector_published (c_detectors c ! n)"
        using old n len by (simp_all add: k)
      with new show ?thesis unfolding ks keys_of_append by (cases "c_callback c") auto
    qed
    moreover have "(\<forall>i \<in> set (concat (c_reported c) @ (if c_callback c then new else [])). is_type i \<in> detector_kind ` set ds)"
      using old adds unfolding kset by (cases "c_callback c") auto
    ultimately show "(\<forall>i \<in> set (concat (c_reported c) @ (if c_callback c then new else [])). is_type i \<in> detector_kind ` set ds) \<and>
     (\<forall>n < length ds. let d = ds ! n; ks = keys_of (detector_kind d) (concat (c_reported c) @ (if c_callback c then new else [])) in
        distinct ks \<and> set ks \<subseteq> detector_published d)"
      by (simp add: Let_def)
  qed
qed

lemma once_step:
  assumes "once (cs_canary s)" and "canary_step pid s s'"
  shows "once (cs_canary s')"
  using assms(2)
proof (cases rule: canary_step.cases)
  case (io e c)
  from canary_event_collect [OF io(2)]
  have "c_detectors c = c_detectors (cs_canary s)" "c_reported c = c_reported (cs_canary s)" "c_exit c = c_exit (cs_canary s)"
    by metis+
  with io(1) assms(1) once_cong [of c "cs_canary s"] show ?thesis by simp
next
  case (detect info c ticks c')
  with assms(1) TakeFileIOInfo_Taken [OF detect(3)] once_cong [of c "cs_canary s"] once_Detect_round [OF _ detect(4)]
  show ?thesis by simp
next
  case (wait c)
  with assms(1) TakeFileIOInfo_other [OF wait(3)] show ?thesis by simp
next
  case (leave c)
  with assms(1) TakeFileIOInfo_other [OF leave(3)] show ?thesis by simp
next
  case destroy
  then show ?thesis by (simp add: once_def destroy_IOCanary_def)
next
  case (config key val)
  with assms(1) once_cong [of "SetConfig key val (cs_canary s)" "cs_canary s"] show ?thesis by (simp add: SetConfig_def)
next
  case (callback b)
  with assms(1) once_cong [of "SetIssuedCallback b (cs_canary s)" "cs_canary s"] show ?thesis
    by (simp add: SetIssuedCallback_def)
next
  case (register type)
  with assms(1) once_RegisterDetector show ?thesis by simp
qed

lemma once_reachable: "canary_reachable pid s \<Longrightarrow> once (cs_canary s)"
proof (induction rule: canary_reachable.induct)
  case start
  then show ?case by (simp add: once_def canary_start_def new_IOCanary_def)
next
  case (more s s')
  then show ?case by (blast intro: once_step)
qed

lemma distinct_by_kind:
  "(\<And>k. distinct (keys_of k issues)) \<Longrightarrow> distinct (map (\<lambda>i. (is_type i, is_key i)) issues)"
proof (induction issues)
  case (Cons i issues)
  have "distinct (keys_of k issues)" for k using Cons.prems [of k] by (auto simp: keys_of_def of_kind_def split: if_splits)
  moreover have "is_key i \<notin> set (keys_of (is_type i) issues)"
    using Cons.prems [of "is_type i"] by (simp add: keys_of_def of_kind_def)
  ultimately show ?case using Cons.IH by (auto simp: keys_of_def of_kind_def)
qed simp

text \<open>C32: an issue is reported at most once. In every reachable state before the destruction of the canary,
  with at most one detector of each type registered, no two of all the issues handed to the callback have the
  same type and key.\<close>

theorem issues_reported_once:
  assumes "canary_reachable pid s" and "\<not> c_exit (cs_canary s)"
    and "distinct (map detector_kind (c_detectors (cs_canary s)))"
  shows "distinct (map (\<lambda>i. (is_type i, is_key i)) (concat (c_reported (cs_canary s))))"
proof (rule distinct_by_kind)
  fix k
  let ?R = "concat (c_reported (cs_canary s))" and ?ds = "c_detectors (cs_canary s)"
  note o = once_reachable [OF assms(1), unfolded once_def Let_def, rule_format, OF conjI [OF assms(2,3)]]
  show "distinct (keys_of k ?R)"
  proof (cases "k \<in> detector_kind ` set ?ds")
    case True
    then obtain n where "n < length ?ds" "detector_kind (?ds ! n) = k" by (auto simp: in_set_conv_nth)
    with o show ?thesis by blast
  next
    case False
    with o have "of_kind k ?R = []" unfolding of_kind_def filter_empty_conv by metis
    then show ?thesis by (simp add: keys_of_def)
  qed
qed

section \<open>A run\<close>

text \<open>The main thread opens a file, reads it slowly and closes it, twice; the detecting thread examines both.\<close>

definition slow_events :: "io_event list" where
  "slow_events = [EvOpen ''/data/f'' 3 sample_ctx (10, 0), EvRead 3 100 100 14000 (10, 20000), EvClose 3 (10, 30000) (Some 100)]"

definition slow_info :: IOInfo where
  "slow_info = \<lparr>io_path = ''/data/f'', io_java_context = sample_ctx, io_start_time_us = 10000000, io_op_type = kRead,
     io_op_cnt = 1, io_buffer_size = 100, io_op_size = 100, io_rw_cost_us = 14000,
     io_max_continual_rw_cost_time_us = 14000, io_max_once_rw_cost_time_us = 14000,
     io_current_continual_rw_time_us = 14000, io_last_rw_time_us = 10020000, io_file_size = 100, io_total_cost_us = 30000\<rparr>"

definition watching :: IOCanary where
  "watching = SetIssuedCallback True (RegisterDetector 0 new_IOCanary)"

lemma reachable_events:
  assumes "canary_reachable pid s" and "collect evs (c_collector (cs_canary s)) = Ret (outs, m)"
  shows "canary_reachable pid (s\<lparr>cs_canary := (cs_canary s)\<lparr>c_collector := m, c_queue := c_queue (cs_canary s) @ outs\<rparr>,
    cs_trace := cs_trace s @ evs\<rparr>)"
  using assms
proof (induction evs arbitrary: s outs)
  case Nil
  then have "m = c_collector (cs_canary s)" "outs = []" by auto
  with Nil(1) show ?case by simp
next
  case (Cons e evs)
  from Cons.prems(2) obtain out m1 outs1 where e: "collect_event e (c_collector (cs_canary s)) = Ret (out, m1)"
    and r: "collect evs m1 = Ret (outs1, m)" and outs: "outs = (case out of None \<Rightarrow> outs1 | Some i \<Rightarrow> i # outs1)"
    by (auto simp: bindr_eq_Ret)
  let ?c = "(cs_canary s)\<lparr>c_collector := m1, c_queue := c_queue (cs_canary s) @ (case out of None \<Rightarrow> [] | Some i \<Rightarrow> [i])\<rparr>"
  have "canary_event e (cs_canary s) = Ret ?c"
    using e by (cases e) (auto simp: canary_OnOpen_def canary_OnRead_def canary_OnWrite_def canary_OnClose_def
        OfferFileIOInfo_def bindr_eq_Ret Let_def split: option.splits)
  from canary_reachable.more [OF Cons.prems(1) canary_step.io [OF this]]
  have "canary_reachable pid (s\<lparr>cs_canary := ?c, cs_trace := cs_trace s @ [e]\<rparr>)" .
  from Cons.IH [OF this, of outs1] r show ?case
    by (cases out) (simp_all add: outs)
qed

lemma slow_collect: "collect slow_events Map.empty = Ret ([slow_info], Map.empty)"
  by (simp add: slow_events_def slow_info_def OnOpen_def OnRead_def CountRWInfo_def count_rw_def OnClose_def plus_s_def
      new_IOInfo_def GetSysTimeMicros_def GetFileSize_def signed_take_bit_eq_take_bit_minus fun_upd_idem_iff)



definition reported_once :: IOCanary where
  "reported_once = watching\<lparr>c_detectors := [MainThreadDetector {GenKey slow_info}],
     c_reported := [[(new_Issue kIssueMainThreadIO slow_info)\<lparr>is_repeat_read_cnt := 1\<rparr>]]\<rparr>"

lemmas run_defs = watching_def SetIssuedCallback_def RegisterDetector_def new_IOCanary_def

lemma slow_rounds:
  "Detect_round 7 slow_info ticks (watching\<lparr>c_queue := q\<rparr>) = Ret (reported_once\<lparr>c_queue := q\<rparr>)"
  "Detect_round 7 slow_info ticks (reported_once\<lparr>c_queue := q\<rparr>) = Ret (reported_once\<lparr>c_queue := q\<rparr>)"
proof -
  have "io_thread_id (io_java_context slow_info) = 7" "io_max_once_rw_cost_time_us slow_info = 14000"
    "io_max_continual_rw_cost_time_us slow_info = 14000"
    by (simp_all add: slow_info_def sample_ctx_def)
  then show "Detect_round 7 slow_info ticks (watching\<lparr>c_queue := q\<rparr>) = Ret (reported_once\<lparr>c_queue := q\<rparr>)"
    "Detect_round 7 slow_info ticks (reported_once\<lparr>c_queue := q\<rparr>) = Ret (reported_once\<lparr>c_queue := q\<rparr>)"
    by (simp_all add: Detect_round_def run_defs reported_once_def main_thread_Detect_def kPossibleNegativeThreshold_def
        Let_def new_Issue_def IsIssuePublished_def MarkIssuePublished_def GetMainThreadThreshold_def GetConfig_def
        kConfigKeysLen_def kMainThreadThreshold_def new_IOCanaryEnv_def)
qed

lemma watching_reachable: "canary_reachable pid (canary_start\<lparr>cs_canary := watching\<rparr>)"
proof -
  from canary_reachable.more [OF canary_reachable.start canary_step.register, of pid 0]
  have "canary_reachable pid (canary_start\<lparr>cs_canary := RegisterDetector 0 new_IOCanary\<rparr>)" by (simp add: canary_start_def)
  from canary_reachable.more [OF this canary_step.callback, of True] show ?thesis by (simp add: watching_def)
qed

definition slow_state :: "IOCanary \<Rightarrow> IOInfo list \<Rightarrow> IOInfo list \<Rightarrow> canary_state" where
  "slow_state c q taken = \<lparr>cs_canary = c\<lparr>c_queue := q\<rparr>, cs_pc = Ready, cs_trace = slow_events @ slow_events, cs_taken = taken\<rparr>"

lemma slow_reachable: "canary_reachable 7 (slow_state watching [slow_info, slow_info] [])"
proof -
  have c: "c_collector watching = Map.empty" "c_queue watching = []" "watching\<lparr>c_collector := Map.empty\<rparr> = watching"
    by (simp_all add: run_defs)
  from reachable_events [OF watching_reachable, of slow_events "[slow_info]" Map.empty 7] slow_collect
  have "canary_reachable 7 (canary_start\<lparr>cs_canary := watching\<lparr>c_queue := [slow_info]\<rparr>, cs_trace := slow_events\<rparr>)"
    by (simp add: c canary_start_def)
  from reachable_events [OF this, of slow_events "[slow_info]" Map.empty] slow_collect show ?thesis
    by (simp add: c slow_state_def canary_start_def)
qed

lemma slow_detect:
  assumes "canary_reachable 7 (slow_state c (slow_info # q) taken)"
    and "\<And>ticks q. Detect_round 7 slow_info ticks (c\<lparr>c_queue := q\<rparr>) = Ret (reported_once\<lparr>c_queue := q\<rparr>)"
  shows "canary_reachable 7 (slow_state reported_once q (taken @ [slow_info]))"
proof -
  let ?s = "slow_state c (slow_info # q) taken"
  have "TakeFileIOInfo (cs_pc ?s = Asleep) (cs_canary ?s) = (Taken slow_info, c\<lparr>c_queue := q\<rparr>)" "cs_pc ?s \<noteq> Ended"
    by (simp_all add: TakeFileIOInfo_def slow_state_def)
  from canary_reachable.more [OF assms(1) canary_step.detect [OF this(2,1) assms(2)]] show ?thesis
    by (simp add: slow_state_def)
qed

lemmas slow_one = slow_detect [OF slow_reachable slow_rounds(1)]
lemmas slow_two = slow_detect [OF slow_one slow_rounds(2)]

theorem examined_exactly_once_witness:
  "\<exists>s. canary_reachable 7 s \<and> cs_taken s = [slow_info] \<and> cs_taken s @ c_queue (cs_canary s) = closed (rev (cs_trace s))"
proof -
  have "trace_ok (cs_trace (slow_state reported_once [slow_info] [slow_info]))"
    by (simp add: trace_ok_def in_range_def slow_state_def slow_events_def map_filter_simps GetSysTimeMicros_def)
  with slow_one have "cs_taken (slow_state reported_once [slow_info] [slow_info]) @ c_queue (cs_canary (slow_state reported_once [slow_info] [slow_info]))
    = closed (rev (cs_trace (slow_state reported_once [slow_info] [slow_info])))"
    by (intro examined_exactly_once [of 7]) simp_all
  with slow_one show ?thesis by (intro exI [of _ "slow_state reported_once [slow_info] [slow_info]"]) (simp add: slow_state_def)
qed

theorem issues_reported_once_witness:
  "\<exists>s. canary_reachable 7 s \<and> length (cs_taken s) = 2 \<and> length (concat (c_reported (cs_canary s))) = 1 \<and>
     distinct (map (\<lambda>i. (is_type i, is_key i)) (concat (c_reported (cs_canary s))))"
proof -
  let ?s = "slow_state reported_once [] [slow_info, slow_info]"
  have r: "canary_reachable 7 ?s" using slow_two by simp
  have "distinct (map (\<lambda>i. (is_type i, is_key i)) (concat (c_reported (cs_canary ?s))))"
    by (rule issues_reported_once [OF r]) (simp_all add: slow_state_def reported_once_def run_defs)
  with r show ?thesis by (intro exI [of _ ?s]) (simp add: slow_state_def reported_once_def)
qed

end
