(* ===== verification/IoHook.thy ===== *)
theory IoHook
  imports IoQueue XhCore
begin

text \<open>
  \<open>matrix-io-canary/src/main/cpp/io_canary_jni.cc\<close>: the functions that take the place of \<open>open\<close>, \<open>read\<close>,
  \<open>write\<close> and \<open>close\<close>, their installation with the hook library, and the hand-over of issues to Java. What the
  Java runtime answers is an argument.
\<close>

section \<open>Proxies\<close>

text \<open>A call: the ids of the process and of the calling thread, whether the thread has a JNI environment and
  the library is initialised, and the context Java gives (thread name and stack, each nullable), if any.\<close>

record call_ctx =
  cc_pid :: int
  cc_tid :: int
  cc_env :: bool
  cc_init :: bool
  cc_java :: "(string option \<times> string option) option"

definition IsMainThread :: "call_ctx \<Rightarrow> bool" where
  "IsMainThread cc \<longleftrightarrow> cc_pid cc = cc_tid cc"

text \<open>The functions whose place the proxies take, over the state of the system (files, buffers, \<open>errno\<close>): the variables
  \<open>original_open\<close> and so on. The results of \<open>read\<close> and \<open>write\<close> are the bits of a \<open>ssize_t\<close>.\<close>

record 's io_originals =
  original_open :: "string \<Rightarrow> int \<Rightarrow> u32 \<Rightarrow> 's \<Rightarrow> int \<times> 's"
  original_open64 :: "string \<Rightarrow> int \<Rightarrow> u32 \<Rightarrow> 's \<Rightarrow> int \<times> 's"
  original_read :: "int \<Rightarrow> u64 \<Rightarrow> u64 \<Rightarrow> 's \<Rightarrow> u64 \<times> 's"
  original_read_chk :: "int \<Rightarrow> u64 \<Rightarrow> u64 \<Rightarrow> u64 \<Rightarrow> 's \<Rightarrow> u64 \<times> 's"
  original_write :: "int \<Rightarrow> u64 \<Rightarrow> u64 \<Rightarrow> 's \<Rightarrow> u64 \<times> 's"
  original_write_chk :: "int \<Rightarrow> u64 \<Rightarrow> u64 \<Rightarrow> u64 \<Rightarrow> 's \<Rightarrow> u64 \<times> 's"
  original_close :: "int \<Rightarrow> 's \<Rightarrow> int \<times> 's"
  original_android_fdsan_close_with_tag :: "int \<Rightarrow> u64 \<Rightarrow> 's \<Rightarrow> int \<times> 's"

text \<open>The flags and the mode go as far as the collector, which does not look at them.\<close>

definition DoProxyOpenLogic :: "call_ctx \<Rightarrow> timeval \<Rightarrow> string \<Rightarrow> int \<Rightarrow> u32 \<Rightarrow> int \<Rightarrow> IOCanary \<Rightarrow> IOCanary" where
  "DoProxyOpenLogic cc tv pathname flags mode ret c =
     (if \<not> cc_env cc \<or> \<not> cc_init cc then c
      else case cc_java cc of
          None \<Rightarrow> c
        | Some (thread_name, stack) \<Rightarrow>
            canary_OnOpen pathname ret
              \<lparr>io_thread_id = cc_tid cc, io_thread_name = (case thread_name of None \<Rightarrow> [] | Some s \<Rightarrow> s),
               io_stack = (case stack of None \<Rightarrow> [] | Some s \<Rightarrow> s)\<rparr> tv c)"

text \<open>A proxy changes the state of the system through the original function only. \<open>t0\<close> and \<open>t1\<close> are the
  readings of the clock before and after the call, \<open>tv\<close> the time and \<open>st_size\<close> the size that the canary reads for itself.\<close>

definition ProxyOpen ::
    "'s io_originals \<Rightarrow> call_ctx \<Rightarrow> timeval \<Rightarrow> string \<Rightarrow> int \<Rightarrow> u32 \<Rightarrow> 's \<times> IOCanary \<Rightarrow> (int \<times> 's \<times> IOCanary) run" where
  "ProxyOpen og cc tv pathname flags mode = (\<lambda>(s, c).
     if \<not> IsMainThread cc then (case original_open og pathname flags mode s of (ret, s) \<Rightarrow> Ret (ret, s, c))
     else case original_open og pathname flags mode s of (ret, s) \<Rightarrow>
       Ret (ret, s, if ret \<noteq> - 1 then DoProxyOpenLogic cc tv pathname flags mode ret c else c))"

definition ProxyOpen64 ::
    "'s io_originals \<Rightarrow> call_ctx \<Rightarrow> timeval \<Rightarrow> string \<Rightarrow> int \<Rightarrow> u32 \<Rightarrow> 's \<times> IOCanary \<Rightarrow> (int \<times> 's \<times> IOCanary) run" where
  "ProxyOpen64 og cc tv pathname flags mode = (\<lambda>(s, c).
     if \<not> IsMainThread cc then (case original_open64 og pathname flags mode s of (ret, s) \<Rightarrow> Ret (ret, s, c))
     else case original_open64 og pathname flags mode s of (ret, s) \<Rightarrow>
       Ret (ret, s, if ret \<noteq> - 1 then DoProxyOpenLogic cc tv pathname flags mode ret c else c))"

definition ProxyRead ::
    "'s io_originals \<Rightarrow> call_ctx \<Rightarrow> timespec \<Rightarrow> timespec \<Rightarrow> timeval \<Rightarrow> int \<Rightarrow> u64 \<Rightarrow> u64 \<Rightarrow> 's \<times> IOCanary \<Rightarrow> (u64 \<times> 's \<times> IOCanary) run" where
  "ProxyRead og cc t0 t1 tv fd buf sz = (\<lambda>(s, c).
     if \<not> IsMainThread cc then (case original_read og fd buf sz s of (ret, s) \<Rightarrow> Ret (ret, s, c))
     else case original_read og fd buf sz s of (ret, s) \<Rightarrow>
       let read_cost_us = GetTickCountMicros t1 - GetTickCountMicros t0 in
       bindr (canary_OnRead fd sz (sint ret) read_cost_us tv c) (\<lambda>c. Ret (ret, s, c)))"

definition ProxyReadChk ::
    "'s io_originals \<Rightarrow> call_ctx \<Rightarrow> timespec \<Rightarrow> timespec \<Rightarrow> timeval \<Rightarrow> int \<Rightarrow> u64 \<Rightarrow> u64 \<Rightarrow> u64 \<Rightarrow> 's \<times> IOCanary \<Rightarrow> (u64 \<times> 's \<times> IOCanary) run" where
  "ProxyReadChk og cc t0 t1 tv fd buf cnt buf_size = (\<lambda>(s, c).
     if \<not> IsMainThread cc then (case original_read_chk og fd buf cnt buf_size s of (ret, s) \<Rightarrow> Ret (ret, s, c))
     else case original_read_chk og fd buf cnt buf_size s of (ret, s) \<Rightarrow>
       let read_cost_us = GetTickCountMicros t1 - GetTickCountMicros t0 in
       bindr (canary_OnRead fd cnt (sint ret) read_cost_us tv c) (\<lambda>c. Ret (ret, s, c)))"

definition ProxyWrite ::
    "'s io_originals \<Rightarrow> call_ctx \<Rightarrow> timespec \<Rightarrow> timespec \<Rightarrow> timeval \<Rightarrow> int \<Rightarrow> u64 \<Rightarrow> u64 \<Rightarrow> 's \<times> IOCanary \<Rightarrow> (u64 \<times> 's \<times> IOCanary) run" where
  "ProxyWrite og cc t0 t1 tv fd buf sz = (\<lambda>(s, c).
     if \<not> IsMainThread cc then (case original_write og fd buf sz s of (ret, s) \<Rightarrow> Ret (ret, s, c))
     else case original_write og fd buf sz s of (ret, s) \<Rightarrow>
       let write_cost_us = GetTickCountMicros t1 - GetTickCountMicros t0 in
       bindr (canary_OnWrite fd sz (sint ret) write_cost_us tv c) (\<lambda>c. Ret (ret, s, c)))"

definition ProxyWriteChk ::
    "'s io_originals \<Rightarrow> call_ctx \<Rightarrow> timespec \<Rightarrow> timespec \<Rightarrow> timeval \<Rightarrow> int \<Rightarrow> u64 \<Rightarrow> u64 \<Rightarrow> u64 \<Rightarrow> 's \<times> IOCanary \<Rightarrow> (u64 \<times> 's \<times> IOCanary) run" where
  "ProxyWriteChk og cc t0 t1 tv fd buf cnt buf_size = (\<lambda>(s, c).
     if \<not> IsMainThread cc then (case original_write_chk og fd buf cnt buf_size s of (ret, s) \<Rightarrow> Ret (ret, s, c))
     else case original_write_chk og fd buf cnt buf_size s of (ret, s) \<Rightarrow>
       let write_cost_us = GetTickCountMicros t1 - GetTickCountMicros t0 in
       bindr (canary_OnWrite fd cnt (sint ret) write_cost_us tv c) (\<lambda>c. Ret (ret, s, c)))"

definition ProxyClose ::
    "'s io_originals \<Rightarrow> call_ctx \<Rightarrow> timeval \<Rightarrow> int option \<Rightarrow> int \<Rightarrow> 's \<times> IOCanary \<Rightarrow> (int \<times> 's \<times> IOCanary) run" where
  "ProxyClose og cc tv st_size fd = (\<lambda>(s, c).
     if \<not> IsMainThread cc then (case original_close og fd s of (ret, s) \<Rightarrow> Ret (ret, s, c))
     else case original_close og fd s of (ret, s) \<Rightarrow>
       bindr (canary_OnClose fd tv st_size c) (\<lambda>c. Ret (ret, s, c)))"

definition Proxy_android_fdsan_close_with_tag ::
    "'s io_originals \<Rightarrow> call_ctx \<Rightarrow> timeval \<Rightarrow> int option \<Rightarrow> int \<Rightarrow> u64 \<Rightarrow> 's \<times> IOCanary \<Rightarrow> (int \<times> 's \<times> IOCanary) run" where
  "Proxy_android_fdsan_close_with_tag og cc tv st_size fd ownerId = (\<lambda>(s, c).
     if \<not> IsMainThread cc then (case original_android_fdsan_close_with_tag og fd ownerId s of (ret, s) \<Rightarrow> Ret (ret, s, c))
     else case original_android_fdsan_close_with_tag og fd ownerId s of (ret, s) \<Rightarrow>
       bindr (canary_OnClose fd tv st_size c) (\<lambda>c. Ret (ret, s, c)))"

section \<open>Installation\<close>

definition TARGET_MODULES :: "string list" where
  "TARGET_MODULES = [''libopenjdkjvm.so'', ''libjavacore.so'', ''libopenjdk.so'']"

text \<open>The addresses of the proxies, and of the variables \<open>original_open\<close> and so on, by the hooked symbol.\<close>

record hook_addrs =
  ha_proxy :: "string \<Rightarrow> u64"
  ha_original :: "string \<Rightarrow> u64"

definition hook_io :: "os \<Rightarrow> hook_addrs \<Rightarrow> map_info \<Rightarrow> string \<Rightarrow> int xcmd" where
  "hook_io os ha soinfo sy = xhook_got_hook_symbol os (Some soinfo) (Some sy) (ha_proxy ha sy) (ha_original ha sy)"

text \<open>A symbol, or the checked form where it cannot be hooked; whether one of them was.\<close>

definition hook_either :: "os \<Rightarrow> hook_addrs \<Rightarrow> map_info \<Rightarrow> string \<Rightarrow> string \<Rightarrow> bool xcmd" where
  "hook_either os ha soinfo sy chk =
     bindc (hook_io os ha soinfo sy) (\<lambda>r. if r = 0 then retc True else
     bindc (hook_io os ha soinfo chk) (\<lambda>r. retc (r = 0)))"

definition strstr :: "string \<Rightarrow> string \<Rightarrow> bool" where
  "strstr s needle \<longleftrightarrow> list_ex (\<lambda>t. take (length needle) t = needle) (suffixes s)"

text \<open>The read and write functions, which only \<open>libjavacore.so\<close> calls.\<close>

definition hook_read_write :: "os \<Rightarrow> hook_addrs \<Rightarrow> map_info \<Rightarrow> bool xcmd" where
  "hook_read_write os ha soinfo =
     bindc (hook_either os ha soinfo ''read'' ''__read_chk'') (\<lambda>ok. if \<not> ok then retc False else
     hook_either os ha soinfo ''write'' ''__write_chk'')"

fun doHook_loop :: "os \<Rightarrow> hook_addrs \<Rightarrow> string list \<Rightarrow> bool xcmd" where
  "doHook_loop os ha [] = retc True"
| "doHook_loop os ha (so_name # rest) =
     bindc (xhook_elf_open os (Some so_name)) (\<lambda>h. case h of
         None \<Rightarrow> doHook_loop os ha rest
       | Some soinfo \<Rightarrow>
           bindc (hook_io os ha soinfo ''open'') (\<lambda>_.
           bindc (hook_io os ha soinfo ''open64'') (\<lambda>_.
           bindc (if strstr so_name ''libjavacore.so'' then hook_read_write os ha soinfo else retc True) (\<lambda>ok.
             if \<not> ok then bindc (xhook_elf_close (Some soinfo)) (\<lambda>_. retc False) else
           bindc (hook_io os ha soinfo ''close'') (\<lambda>_.
           bindc (hook_io os ha soinfo ''android_fdsan_close_with_tag'') (\<lambda>_.
           bindc (xhook_elf_close (Some soinfo)) (\<lambda>_.
           doHook_loop os ha rest)))))))"

definition doHook :: "os \<Rightarrow> hook_addrs \<Rightarrow> bool xcmd" where
  "doHook os ha = doHook_loop os ha TARGET_MODULES"

text \<open>The originals are read from their variables; nothing is saved.\<close>

definition unhook_io :: "os \<Rightarrow> hook_addrs \<Rightarrow> map_info \<Rightarrow> string \<Rightarrow> int xcmd" where
  "unhook_io os ha soinfo sy =
     bindc (readc (\<lambda>(c, w). ld64 (w_mem w) (ha_original ha sy))) (\<lambda>original.
     xhook_got_hook_symbol os (Some soinfo) (Some sy) original 0)"

fun unhook_all :: "os \<Rightarrow> hook_addrs \<Rightarrow> map_info \<Rightarrow> string list \<Rightarrow> unit xcmd" where
  "unhook_all os ha soinfo [] = retc ()"
| "unhook_all os ha soinfo (sy # sys) = bindc (unhook_io os ha soinfo sy) (\<lambda>_. unhook_all os ha soinfo sys)"

fun doUnHook_loop :: "os \<Rightarrow> hook_addrs \<Rightarrow> string list \<Rightarrow> bool xcmd" where
  "doUnHook_loop os ha [] = retc True"
| "doUnHook_loop os ha (so_name # rest) =
     bindc (xhook_elf_open os (Some so_name)) (\<lambda>h. case h of
         None \<Rightarrow> doUnHook_loop os ha rest
       | Some soinfo \<Rightarrow>
           bindc (unhook_all os ha soinfo [''open'', ''open64'', ''read'', ''write'', ''__read_chk'', ''__write_chk'', ''close'']) (\<lambda>_.
           bindc (xhook_elf_close (Some soinfo)) (\<lambda>_.
           doUnHook_loop os ha rest)))"

definition doUnHook :: "os \<Rightarrow> hook_addrs \<Rightarrow> bool xcmd" where
  "doUnHook os ha = doUnHook_loop os ha TARGET_MODULES"

section \<open>Java\<close>

definition enableDetector :: "int \<Rightarrow> IOCanary \<Rightarrow> IOCanary" where
  "enableDetector detector_type c = RegisterDetector detector_type c"

definition setConfig :: "int \<Rightarrow> int \<Rightarrow> IOCanary \<Rightarrow> IOCanary" where
  "setConfig key val c = SetConfig (word_of_int key) val c"

text \<open>An \<open>IOIssue\<close> of Java.\<close>

record java_issue =
  ji_type :: int
  ji_path :: string
  ji_file_size :: int
  ji_op_cnt :: int
  ji_buffer_size :: int
  ji_op_cost_time :: int
  ji_op_type :: int
  ji_op_size :: int
  ji_thread_name :: string
  ji_stack :: string
  ji_repeat_read_cnt :: int

fun type_code :: "IssueType \<Rightarrow> int" where
  "type_code kIssueMainThreadIO = 1" | "type_code kIssueSmallBuffer = 2" | "type_code kIssueRepeatRead = 3"

fun op_code :: "FileOpType \<Rightarrow> int" where
  "op_code kInit = 0" | "op_code kRead = 1" | "op_code kWrite = 2"

definition to_java :: "Issue \<Rightarrow> java_issue" where
  "to_java issue = (let info = is_info issue in
     \<lparr>ji_type = type_code (is_type issue), ji_path = io_path info, ji_file_size = io_file_size info,
      ji_op_cnt = io_op_cnt info, ji_buffer_size = io_buffer_size info, ji_op_cost_time = io_rw_cost_us info sdiv 1000,
      ji_op_type = op_code (io_op_type info), ji_op_size = io_op_size info,
      ji_thread_name = io_thread_name (io_java_context info), ji_stack = is_stack issue,
      ji_repeat_read_cnt = is_repeat_read_cnt issue\<rparr>)"

text \<open>What \<open>GetEnv\<close> says of the calling thread; whether it can be attached.\<close>

datatype jvm_env = JNI_OK | JNI_EDETACHED bool | JNI_ERR

text \<open>What Java gets, if anything, and whether the thread was attached and is left so.\<close>

definition OnIssuePublish :: "bool \<Rightarrow> jvm_env \<Rightarrow> bool \<Rightarrow> Issue list \<Rightarrow> java_issue list option \<times> bool" where
  "OnIssuePublish kInitSuc env exception_pending published_issues =
     (if \<not> kInitSuc then (None, False)
      else case env of
          JNI_ERR \<Rightarrow> (None, False)
        | JNI_EDETACHED attach_ok \<Rightarrow>
            if \<not> attach_ok then (None, False)
            else if exception_pending then (None, True)
            else (Some (map to_java published_issues), False)
        | JNI_OK \<Rightarrow>
            if exception_pending then (None, False) else (Some (map to_java published_issues), False))"

text \<open>The result, \<open>kInitSuc\<close> and the canary after loading; \<open>ok\<close> is the result of \<open>InitJniEnv\<close>.\<close>

definition JNI_OnLoad :: "bool \<Rightarrow> IOCanary \<Rightarrow> int \<times> bool \<times> IOCanary" where
  "JNI_OnLoad ok c = (if \<not> ok then (- 1, False, c) else (0x00010006, True, SetIssuedCallback True c))"

section \<open>What the proxies change\<close>

text \<open>A call of one of the hooked functions with its arguments, and what it runs on: the thread and the readings
  of the clocks and of the size of the file.\<close>

datatype io_call =
    CallOpen string int u32
  | CallOpen64 string int u32
  | CallRead int u64 u64
  | CallReadChk int u64 u64 u64
  | CallWrite int u64 u64
  | CallWriteChk int u64 u64 u64
  | CallClose int
  | CallFdsanClose int u64

record call_env =
  ce_ctx :: call_ctx
  ce_t0 :: timespec
  ce_t1 :: timespec
  ce_tv :: timeval
  ce_size :: "int option"

definition signed :: "(u64 \<times> 's \<times> IOCanary) run \<Rightarrow> (int \<times> 's \<times> IOCanary) run" where
  "signed r = bindr r (\<lambda>(n, s, c). Ret (sint n, s, c))"

text \<open>What the hooked libraries reach by the symbols of the functions.\<close>

fun proxy_call :: "'s io_originals \<Rightarrow> call_env \<times> io_call \<Rightarrow> 's \<times> IOCanary \<Rightarrow> (int \<times> 's \<times> IOCanary) run" where
  "proxy_call og (e, CallOpen p fl mo) sc = ProxyOpen og (ce_ctx e) (ce_tv e) p fl mo sc"
| "proxy_call og (e, CallOpen64 p fl mo) sc = ProxyOpen64 og (ce_ctx e) (ce_tv e) p fl mo sc"
| "proxy_call og (e, CallRead fd buf n) sc = signed (ProxyRead og (ce_ctx e) (ce_t0 e) (ce_t1 e) (ce_tv e) fd buf n sc)"
| "proxy_call og (e, CallReadChk fd buf n z) sc = signed (ProxyReadChk og (ce_ctx e) (ce_t0 e) (ce_t1 e) (ce_tv e) fd buf n z sc)"
| "proxy_call og (e, CallWrite fd buf n) sc = signed (ProxyWrite og (ce_ctx e) (ce_t0 e) (ce_t1 e) (ce_tv e) fd buf n sc)"
| "proxy_call og (e, CallWriteChk fd buf n z) sc = signed (ProxyWriteChk og (ce_ctx e) (ce_t0 e) (ce_t1 e) (ce_tv e) fd buf n z sc)"
| "proxy_call og (e, CallClose fd) sc = ProxyClose og (ce_ctx e) (ce_tv e) (ce_size e) fd sc"
| "proxy_call og (e, CallFdsanClose fd tag) sc = Proxy_android_fdsan_close_with_tag og (ce_ctx e) (ce_tv e) (ce_size e) fd tag sc"

fun proxy_calls :: "'s io_originals \<Rightarrow> (call_env \<times> io_call) list \<Rightarrow> 's \<times> IOCanary \<Rightarrow> (int list \<times> 's \<times> IOCanary) run" where
  "proxy_calls og [] sc = Ret ([], sc)"
| "proxy_calls og (x # xs) sc =
     bindr (proxy_call og x sc) (\<lambda>(n, sc). bindr (proxy_calls og xs sc) (\<lambda>(ns, sc). Ret (n # ns, sc)))"

text \<open>The same calls without hooks: each is the function of that name with the arguments of the call.\<close>

fun original_call :: "'s io_originals \<Rightarrow> io_call \<Rightarrow> 's \<Rightarrow> int \<times> 's" where
  "original_call og (CallOpen p fl mo) s = original_open og p fl mo s"
| "original_call og (CallOpen64 p fl mo) s = original_open64 og p fl mo s"
| "original_call og (CallRead fd buf n) s = map_prod sint id (original_read og fd buf n s)"
| "original_call og (CallReadChk fd buf n z) s = map_prod sint id (original_read_chk og fd buf n z s)"
| "original_call og (CallWrite fd buf n) s = map_prod sint id (original_write og fd buf n s)"
| "original_call og (CallWriteChk fd buf n z) s = map_prod sint id (original_write_chk og fd buf n z s)"
| "original_call og (CallClose fd) s = original_close og fd s"
| "original_call og (CallFdsanClose fd tag) s = original_android_fdsan_close_with_tag og fd tag s"

fun original_calls :: "'s io_originals \<Rightarrow> io_call list \<Rightarrow> 's \<Rightarrow> int list \<times> 's" where
  "original_calls og [] s = ([], s)"
| "original_calls og (x # xs) s =
     (case original_call og x s of (n, s) \<Rightarrow> case original_calls og xs s of (ns, s) \<Rightarrow> (n # ns, s))"

text \<open>What is to be reported of a call with its result: for an open that succeeded the path, the descriptor and Java's
  context, if there is one; for a read or write the descriptor, how much was asked for (not the size of the buffer), the
  result and the time it took; for a close the descriptor, whatever the result.\<close>

definition java_context :: "call_ctx \<Rightarrow> JavaContext option" where
  "java_context cc =
     (if \<not> cc_env cc \<or> \<not> cc_init cc then None
      else map_option (\<lambda>(thread_name, stack).
        \<lparr>io_thread_id = cc_tid cc, io_thread_name = (case thread_name of None \<Rightarrow> [] | Some s \<Rightarrow> s),
         io_stack = (case stack of None \<Rightarrow> [] | Some s \<Rightarrow> s)\<rparr>) (cc_java cc))"

definition opened_event :: "call_env \<Rightarrow> string \<Rightarrow> int \<Rightarrow> io_event option" where
  "opened_event e p n = (if n = - 1 then None else map_option (\<lambda>ctx. EvOpen p n ctx (ce_tv e)) (java_context (ce_ctx e)))"

definition cost_us :: "call_env \<Rightarrow> int" where
  "cost_us e = GetTickCountMicros (ce_t1 e) - GetTickCountMicros (ce_t0 e)"

fun io_event_of :: "call_env \<Rightarrow> io_call \<Rightarrow> int \<Rightarrow> io_event option" where
  "io_event_of e (CallOpen p fl mo) r = opened_event e p r"
| "io_event_of e (CallOpen64 p fl mo) r = opened_event e p r"
| "io_event_of e (CallRead fd buf n) r = Some (EvRead fd n r (cost_us e) (ce_tv e))"
| "io_event_of e (CallReadChk fd buf n z) r = Some (EvRead fd n r (cost_us e) (ce_tv e))"
| "io_event_of e (CallWrite fd buf n) r = Some (EvWrite fd n r (cost_us e) (ce_tv e))"
| "io_event_of e (CallWriteChk fd buf n z) r = Some (EvWrite fd n r (cost_us e) (ce_tv e))"
| "io_event_of e (CallClose fd) r = Some (EvClose fd (ce_tv e) (ce_size e))"
| "io_event_of e (CallFdsanClose fd tag) r = Some (EvClose fd (ce_tv e) (ce_size e))"

definition main_event :: "call_env \<times> io_call \<Rightarrow> int \<Rightarrow> io_event option" where
  "main_event x r = (if IsMainThread (ce_ctx (fst x)) then io_event_of (fst x) (snd x) r else None)"


fun canary_events :: "io_event list \<Rightarrow> IOCanary \<Rightarrow> IOCanary run" where
  "canary_events [] c = Ret c"
| "canary_events (e # es) c = bindr (canary_event e c) (canary_events es)"


lemma proxy_open_events:
  "DoProxyOpenLogic cc tv p fl mo n c = (case java_context cc of Some ctx \<Rightarrow> canary_OnOpen p n ctx tv c | None \<Rightarrow> c)"
  by (simp add: DoProxyOpenLogic_def java_context_def split: option.split)

lemmas proxy_defs = ProxyOpen_def ProxyOpen64_def ProxyRead_def ProxyReadChk_def ProxyWrite_def ProxyWriteChk_def
  ProxyClose_def Proxy_android_fdsan_close_with_tag_def signed_def opened_event_def cost_us_def main_event_def proxy_open_events

lemma bindr_Ret_right: "bindr r Ret = r"
  by (cases r) simp_all

definition events_of :: "io_event option \<Rightarrow> io_event list" where
  "events_of ev = (case ev of None \<Rightarrow> [] | Some e \<Rightarrow> [e])"

lemma proxy_call_spec:
  "proxy_call og x (s, c) = bindr (canary_events (events_of (main_event x (fst (original_call og (snd x) s)))) c)
     (\<lambda>c. Ret (fst (original_call og (snd x) s), snd (original_call og (snd x) s), c))"
proof (cases x)
  case (Pair e call)
  then show ?thesis
    by (cases call)
      (auto simp: proxy_defs events_of_def Let_def map_prod_def bindr_assoc bindr_Ret_right split: prod.split option.split)
qed



text \<open>Calls of other threads alone leave the canary as it was, and never fail where the originals do not.\<close>

lemma workers_unseen:
  assumes "\<forall>x \<in> set calls. \<not> IsMainThread (ce_ctx (fst x))"
  shows "proxy_calls og calls (s, c) = (case original_calls og (map snd calls) s of (rs, s') \<Rightarrow> Ret (rs, s', c))"
  using assms
  by (induction calls arbitrary: s)
    (simp_all del: proxy_call.simps add: proxy_call_spec main_event_def events_of_def split: prod.split)

section \<open>Descriptors closed by another thread\<close>

text \<open>a descriptor that the main thread opens, a worker thread closes and the main thread gets again for
  another file stays recorded under the first path: the close is not seen, so the second open
  finds the descriptor in \<open>info_map\<close> and is dropped. Its reads and writes are counted for the wrong file.\<close>

theorem worker_close_misattributes:
  assumes "IsMainThread (ce_ctx e)" "\<not> IsMainThread (ce_ctx w)" "java_context (ce_ctx e) = Some ctx" "fd \<noteq> - 1" "c_collector c fd = None"
    "original_open og p fl mo s = (fd, s1)" "original_close og fd s1 = (0, s2)" "original_open og q fl mo s2 = (fd, s3)"
  shows "\<exists>c'. proxy_calls og [(e, CallOpen p fl mo), (w, CallClose fd), (e, CallOpen q fl mo)] (s, c) = Ret ([fd, 0, fd], s3, c') \<and>
    c_collector c' fd = Some (new_IOInfo p ctx (ce_tv e))"
  using assms
  by (simp del: proxy_call.simps
      add: proxy_call_spec main_event_def events_of_def opened_event_def canary_OnOpen_def OnOpen_def)

text \<open>A system whose descriptor 7 is the lowest free one whenever it is asked for one.\<close>

definition seven :: "unit io_originals" where
  "seven = \<lparr>original_open = (\<lambda>_ _ _ s. (7, s)), original_open64 = (\<lambda>_ _ _ s. (7, s)),
     original_read = (\<lambda>_ _ n s. (n, s)), original_read_chk = (\<lambda>_ _ n _ s. (n, s)),
     original_write = (\<lambda>_ _ n s. (n, s)), original_write_chk = (\<lambda>_ _ n _ s. (n, s)),
     original_close = (\<lambda>_ s. (0, s)), original_android_fdsan_close_with_tag = (\<lambda>_ _ s. (0, s))\<rparr>"

definition thread_env :: "int \<Rightarrow> call_env" where
  "thread_env tid = \<lparr>ce_ctx = \<lparr>cc_pid = 1, cc_tid = tid, cc_env = True, cc_init = True, cc_java = Some (Some ''main'', None)\<rparr>,
     ce_t0 = Some (0, 0), ce_t1 = Some (0, 0), ce_tv = (1, 0), ce_size = Some 10\<rparr>"

theorem worker_close_misattributes_witness:
  "\<exists>c'. proxy_calls seven [(thread_env 1, CallOpen ''/a'' 0 0), (thread_env 2, CallClose 7), (thread_env 1, CallOpen ''/b'' 0 0)]
     ((), new_IOCanary) = Ret ([7, 0, 7], (), c') \<and> map_option io_path (c_collector c' 7) = Some ''/a''"
proof -
  have "IsMainThread (ce_ctx (thread_env 1))" "\<not> IsMainThread (ce_ctx (thread_env 2))"
    "java_context (ce_ctx (thread_env 1)) = Some \<lparr>io_thread_id = 1, io_thread_name = ''main'', io_stack = []\<rparr>"
    by (simp_all add: IsMainThread_def java_context_def thread_env_def)
  moreover have "c_collector new_IOCanary 7 = None" by (simp add: new_IOCanary_def)
  ultimately show ?thesis
    using worker_close_misattributes [of "thread_env 1" "thread_env 2" _ 7 new_IOCanary seven "''/a''" 0 0 "()" "()" "()" "''/b''" "()"]
    by (auto simp: seven_def new_IOInfo_def)
qed

section \<open>Installation under protection\<close>

text \<open>A command that, started with \<open>n\<close> open handles where the handler protects it, does not fault and leaves the
  protection in place and as many handles open as \<open>Q\<close> says of its result.\<close>

definition safe :: "nat \<Rightarrow> ('a \<Rightarrow> nat) \<Rightarrow> 'a xcmd \<Rightarrow> bool" where
  "safe n Q m \<longleftrightarrow> (\<forall>c w r c' w'. protected c \<and> open_handles c = n \<longrightarrow> m (c, w) = (r, (c', w')) \<longrightarrow>
     r \<noteq> Segv \<and> (\<forall>x. r = Ret x \<longrightarrow> protected c' \<and> open_handles c' = Q x))"

lemma safe_retc: "Q x = n \<Longrightarrow> safe n Q (retc x)"
  by (simp add: safe_def)

lemma safe_bindc:
  assumes "safe n Q m" "\<And>x. safe (Q x) R (f x)"
  shows "safe n R (bindc m f)"
  unfolding safe_def
proof (intro allI impI)
  fix c w r c' w'
  assume p: "protected c \<and> open_handles c = n" and e: "bindc m f (c, w) = (r, (c', w'))"
  obtain r0 c0 w0 where m: "m (c, w) = (r0, (c0, w0))" by (metis prod.collapse)
  with assms(1) p have r0: "r0 \<noteq> Segv" "\<And>x. r0 = Ret x \<Longrightarrow> protected c0 \<and> open_handles c0 = Q x" unfolding safe_def by blast+
  show "r \<noteq> Segv \<and> (\<forall>x. r = Ret x \<longrightarrow> protected c' \<and> open_handles c' = R x)"
  proof (cases r0)
    case (Ret x)
    with m e have "f x (c0, w0) = (r, (c', w'))" by simp
    with assms(2) r0(2) [OF Ret] show ?thesis unfolding safe_def by blast
  qed (use m e r0 in auto)
qed

lemma safe_if: "safe n Q a \<Longrightarrow> safe n Q b \<Longrightarrow> safe n Q (if P then a else b)"
  by simp

lemma safe_option: "safe n Q a \<Longrightarrow> (\<And>x. safe n Q (b x)) \<Longrightarrow> safe n Q (case z of None \<Rightarrow> a | Some x \<Rightarrow> b x)"
  by (simp split: option.split)

lemma safe_handle: "safe n Q a \<Longrightarrow> (\<And>x. safe (Suc n) Q (b x)) \<Longrightarrow>
    safe (case z of None \<Rightarrow> n | Some _ \<Rightarrow> Suc n) Q (case z of None \<Rightarrow> a | Some x \<Rightarrow> b x)"
  by (simp split: option.split)

lemma safe_prod: "(\<And>x y. safe n Q (a x y)) \<Longrightarrow> safe n Q (case z of (x, y) \<Rightarrow> a x y)"
  by (simp split: prod.split)

lemma safe_state: "(\<And>s. safe n Q (f s)) \<Longrightarrow> safe n Q (\<lambda>s. f s s)"
  unfolding safe_def by blast

lemma safe_protect_world: "safe n (\<lambda>_. n) (sigsegv_protect fault (liftw m))"
  by (auto simp: safe_def sigsegv_protect_def protected_def liftw_def xh_core_sigsegv_handler_def
      split: prod.splits run.splits)

lemma safe_protect_read: "safe n (\<lambda>_. n) (sigsegv_protect fault (readc f))"
  by (auto simp: safe_def sigsegv_protect_def protected_def xh_core_sigsegv_handler_def
      split: prod.splits run.splits)

lemma safe_malloc: "safe n (\<lambda>_. n) (liftw (malloc_c os))"
  by (auto simp: safe_def liftw_def malloc_c_def)

lemma safe_open_line: "safe n (\<lambda>_. n) (readc (\<lambda>_. open_line loaded suf pos line))"
  by (auto simp: safe_def open_line_def Let_def split: prod.splits option.splits list.splits scan_val.splits if_splits)

lemma safe_opened: "safe n (\<lambda>_. Suc n) (updk (\<lambda>c. c\<lparr>open_handles := Suc (open_handles c)\<rparr>))"
  by (auto simp: safe_def updk_def protected_def)

lemmas safe_intros = safe_if safe_option safe_prod safe_retc safe_bindc [OF safe_protect_world] safe_bindc [OF safe_protect_read]
  safe_bindc [OF safe_malloc] safe_bindc [OF safe_open_line] safe_bindc [OF safe_opened]

lemma safe_open_loop: "safe n (\<lambda>_. n) (elf_open_loop suf pos lines)"
proof (induction lines arbitrary: pos)
  case (Cons line lines)
  then show ?case
    unfolding elf_open_loop.simps xh_core_check_elf_header_def by (intro safe_intros) simp_all
qed (simp add: safe_def)

lemma safe_elf_open: "safe n (\<lambda>h. case h of None \<Rightarrow> n | Some _ \<Rightarrow> Suc n) (xhook_elf_open os suf)"
proof -
  define F where "F = (\<lambda>maps. case suf of None \<Rightarrow> retc None | Some n \<Rightarrow>
     case maps of None \<Rightarrow> retc None | Some content \<Rightarrow> if n = [] then retc None else
       bindc (elf_open_loop n None (file_lines 512 content)) (\<lambda>found. case found of
           None \<Rightarrow> retc None
         | Some (base_addr, pathname) \<Rightarrow>
             bindc (liftw (malloc_c os)) (\<lambda>ok. if \<not> ok then retc None else
             bindc (liftw (malloc_c os)) (\<lambda>ok. if \<not> ok then retc None else
             bindc (updk (\<lambda>c. c\<lparr>open_handles := Suc (open_handles c)\<rparr>)) (\<lambda>_.
             retc (Some \<lparr>mi_pathname = pathname, mi_base_addr = base_addr, mi_elf = zero_elf\<rparr>))))))"
  have "xhook_elf_open os suf = (\<lambda>s. F (proc_maps (snd s)) s)"
    by (simp add: F_def fun_eq_iff xhook_elf_open_def xh_core_elf_open_def split: option.split)
  moreover have "safe n (\<lambda>h. case h of None \<Rightarrow> n | Some _ \<Rightarrow> Suc n) (F maps)" for maps
    unfolding F_def by (intro safe_intros safe_bindc [OF safe_open_loop]) simp_all
  ultimately show ?thesis using safe_state [of n _ "\<lambda>s. F (proc_maps (snd s))"] by simp
qed

lemma safe_elf_close: "safe (Suc n) (\<lambda>_. n) (xhook_elf_close (Some soinfo))"
  by (auto simp: safe_def xhook_elf_close_def xh_core_elf_close_def updk_def protected_def)

lemma safe_hook_io: "safe n (\<lambda>_. n) (hook_io os ha soinfo sy)"
  unfolding hook_io_def xhook_got_hook_symbol_def xh_core_got_hook_symbol_def by (rule safe_protect_world)

lemma safe_either: "safe n (\<lambda>_. n) (hook_either os ha soinfo sy chk)"
  unfolding hook_either_def by (intro safe_intros safe_bindc [OF safe_hook_io]) simp_all

lemma safe_hook_read_write: "safe n (\<lambda>_. n) (hook_read_write os ha soinfo)"
  unfolding hook_read_write_def by (intro safe_intros safe_either safe_bindc [OF safe_either]) simp_all

lemma safe_doHook_loop: "safe n (\<lambda>_. n) (doHook_loop os ha names)"
proof (induction names)
  case (Cons so_name rest)
  then show ?case
    unfolding doHook_loop.simps
    by (intro safe_bindc [OF safe_elf_open] safe_handle safe_bindc [OF safe_hook_io] safe_bindc [OF safe_elf_close] Cons.IH
        safe_bindc [where Q = "\<lambda>_. Suc n" and m = "if strstr so_name _ then _ else _"] safe_if safe_hook_read_write safe_retc refl)
qed (simp add: safe_def)

text \<open>C34: with the handler installed and protection on, installing the hooks in the three Java libraries never
  ends the process with a SIGSEGV, whatever their memory holds and whichever of them are mapped; the
  protection is still on afterwards, and every handle that was opened has been closed, also where a hook fails.\<close>

theorem doHook_protected:
  assumes "protected c" and "doHook os ha (c, w) = (r, (c', w'))"
  shows "r \<noteq> Segv \<and> (\<forall>x. r = Ret x \<longrightarrow> protected c' \<and> open_handles c' = open_handles c)"
  using assms safe_doHook_loop [of "open_handles c" os ha TARGET_MODULES] unfolding doHook_def safe_def by blast

theorem doHook_protected_witness:
  "protected (core0\<lparr>sigsegv_act := XhHandler\<rparr>) \<and>
   fst (doHook plain_os \<lparr>ha_proxy = \<lambda>_. 0x1000, ha_original = \<lambda>_. 0x2000\<rparr>
     (core0\<lparr>sigsegv_act := XhHandler\<rparr>, sample_world\<lparr>proc_maps := Some (''7000-8000 r--p 00000000 00:00 0 /l/libjavacore.so''),
        w_mem := \<lambda>_. None\<rparr>)) \<noteq> Segv"
proof -
  have p: "protected (core0\<lparr>sigsegv_act := XhHandler\<rparr>)" by (simp add: protected_def core0_def)
  with doHook_protected [OF p] show ?thesis by (metis prod.collapse)
qed

end
