(* ===== verification/QutCode.thy ===== *)
theory QutCode
  imports XhReloc
begin

text \<open>
  \<open>matrix-backtrace/src/main/cpp/libwechatbacktrace/include/QuickenInstructions.h\<close>, 64-bit: unwind
  instructions and their encoding as bytes. An instruction is a word with the operation in its
  upper and a signed immediate in its lower half.
\<close>

section \<open>Operations\<close>

definition QUT_INSTRUCTION_SP_OFFSET :: u32 where "QUT_INSTRUCTION_SP_OFFSET = 4"
definition QUT_INSTRUCTION_LR_OFFSET :: u32 where "QUT_INSTRUCTION_LR_OFFSET = 5"
definition QUT_INSTRUCTION_PC_OFFSET :: u32 where "QUT_INSTRUCTION_PC_OFFSET = 6"
definition QUT_INSTRUCTION_X20_OFFSET :: u32 where "QUT_INSTRUCTION_X20_OFFSET = 7"
definition QUT_INSTRUCTION_X28_OFFSET :: u32 where "QUT_INSTRUCTION_X28_OFFSET = 8"
definition QUT_INSTRUCTION_X29_OFFSET :: u32 where "QUT_INSTRUCTION_X29_OFFSET = 9"
definition QUT_INSTRUCTION_VSP_OFFSET :: u32 where "QUT_INSTRUCTION_VSP_OFFSET = 10"
definition QUT_INSTRUCTION_VSP_SET_IMM :: u32 where "QUT_INSTRUCTION_VSP_SET_IMM = 11"
definition QUT_INSTRUCTION_VSP_SET_BY_X29 :: u32 where "QUT_INSTRUCTION_VSP_SET_BY_X29 = 14"
definition QUT_INSTRUCTION_VSP_SET_BY_JNI_SP :: u32 where "QUT_INSTRUCTION_VSP_SET_BY_JNI_SP = 16"
definition QUT_INSTRUCTION_DEX_PC_SET :: u32 where "QUT_INSTRUCTION_DEX_PC_SET = 17"
definition QUT_END_OF_INS :: u32 where "QUT_END_OF_INS = 19"
definition QUT_FIN :: u32 where "QUT_FIN = 20"

definition QUT_INSTRUCTION_VSP_SET_BY_X29_OP :: u8 where "QUT_INSTRUCTION_VSP_SET_BY_X29_OP = 0x80"
definition QUT_INSTRUCTION_VSP_SET_BY_X29_PROLOGUE_OP :: u8 where "QUT_INSTRUCTION_VSP_SET_BY_X29_PROLOGUE_OP = 0x81"
definition QUT_INSTRUCTION_VSP_SET_BY_SP_OP :: u8 where "QUT_INSTRUCTION_VSP_SET_BY_SP_OP = 0x84"
definition QUT_INSTRUCTION_VSP_SET_BY_X29_IMM_OP :: u8 where "QUT_INSTRUCTION_VSP_SET_BY_X29_IMM_OP = 0x85"
definition QUT_INSTRUCTION_VSP_SET_BY_X29_OFFSET_OP :: u8 where "QUT_INSTRUCTION_VSP_SET_BY_X29_OFFSET_OP = 0x86"
definition QUT_INSTRUCTION_VSP_SET_BY_JNI_SP_OP :: u8 where "QUT_INSTRUCTION_VSP_SET_BY_JNI_SP_OP = 0x95"
definition QUT_INSTRUCTION_VSP_SET_IMM_OP :: u8 where "QUT_INSTRUCTION_VSP_SET_IMM_OP = 0x96"
definition QUT_INSTRUCTION_DEX_PC_SET_OP :: u8 where "QUT_INSTRUCTION_DEX_PC_SET_OP = 0x97"
definition QUT_END_OF_INS_OP :: u8 where "QUT_END_OF_INS_OP = 0x99"
definition QUT_FINISH_OP :: u8 where "QUT_FINISH_OP = 0x9f"
definition QUT_INSTRUCTION_X20_OFFSET_SLEB128_OP :: u8 where "QUT_INSTRUCTION_X20_OFFSET_SLEB128_OP = 0xf9"
definition QUT_INSTRUCTION_X28_OFFSET_SLEB128_OP :: u8 where "QUT_INSTRUCTION_X28_OFFSET_SLEB128_OP = 0xfa"
definition QUT_INSTRUCTION_X29_OFFSET_SLEB128_OP :: u8 where "QUT_INSTRUCTION_X29_OFFSET_SLEB128_OP = 0xfb"
definition QUT_INSTRUCTION_SP_OFFSET_SLEB128_OP :: u8 where "QUT_INSTRUCTION_SP_OFFSET_SLEB128_OP = 0xfc"
definition QUT_INSTRUCTION_LR_OFFSET_SLEB128_OP :: u8 where "QUT_INSTRUCTION_LR_OFFSET_SLEB128_OP = 0xfd"
definition QUT_INSTRUCTION_PC_OFFSET_SLEB128_OP :: u8 where "QUT_INSTRUCTION_PC_OFFSET_SLEB128_OP = 0xfe"
definition QUT_INSTRUCTION_VSP_OFFSET_SLEB128_OP :: u8 where "QUT_INSTRUCTION_VSP_OFFSET_SLEB128_OP = 0xff"
definition QUT_INSTRUCTION_X20_OFFSET_OP_PREFIX :: u8 where "QUT_INSTRUCTION_X20_OFFSET_OP_PREFIX = 0xb0"
definition QUT_INSTRUCTION_X28_OFFSET_OP_PREFIX :: u8 where "QUT_INSTRUCTION_X28_OFFSET_OP_PREFIX = 0xc0"
definition QUT_INSTRUCTION_X29_OFFSET_OP_PREFIX :: u8 where "QUT_INSTRUCTION_X29_OFFSET_OP_PREFIX = 0xd0"
definition QUT_INSTRUCTION_LR_OFFSET_OP_PREFIX :: u8 where "QUT_INSTRUCTION_LR_OFFSET_OP_PREFIX = 0xe0"

lemmas qut_ops = QUT_INSTRUCTION_SP_OFFSET_def QUT_INSTRUCTION_LR_OFFSET_def QUT_INSTRUCTION_PC_OFFSET_def
  QUT_INSTRUCTION_X20_OFFSET_def QUT_INSTRUCTION_X28_OFFSET_def QUT_INSTRUCTION_X29_OFFSET_def
  QUT_INSTRUCTION_VSP_OFFSET_def QUT_INSTRUCTION_VSP_SET_IMM_def QUT_INSTRUCTION_VSP_SET_BY_X29_def
  QUT_INSTRUCTION_VSP_SET_BY_JNI_SP_def QUT_INSTRUCTION_DEX_PC_SET_def QUT_END_OF_INS_def QUT_FIN_def

lemmas qut_codes = QUT_INSTRUCTION_VSP_SET_BY_X29_OP_def QUT_INSTRUCTION_VSP_SET_BY_X29_PROLOGUE_OP_def
  QUT_INSTRUCTION_VSP_SET_BY_SP_OP_def QUT_INSTRUCTION_VSP_SET_BY_X29_IMM_OP_def
  QUT_INSTRUCTION_VSP_SET_BY_X29_OFFSET_OP_def QUT_INSTRUCTION_VSP_SET_BY_JNI_SP_OP_def
  QUT_INSTRUCTION_VSP_SET_IMM_OP_def QUT_INSTRUCTION_DEX_PC_SET_OP_def QUT_END_OF_INS_OP_def QUT_FINISH_OP_def
  QUT_INSTRUCTION_X20_OFFSET_SLEB128_OP_def QUT_INSTRUCTION_X28_OFFSET_SLEB128_OP_def
  QUT_INSTRUCTION_X29_OFFSET_SLEB128_OP_def QUT_INSTRUCTION_SP_OFFSET_SLEB128_OP_def
  QUT_INSTRUCTION_LR_OFFSET_SLEB128_OP_def QUT_INSTRUCTION_PC_OFFSET_SLEB128_OP_def
  QUT_INSTRUCTION_VSP_OFFSET_SLEB128_OP_def QUT_INSTRUCTION_X20_OFFSET_OP_PREFIX_def
  QUT_INSTRUCTION_X28_OFFSET_OP_PREFIX_def QUT_INSTRUCTION_X29_OFFSET_OP_PREFIX_def
  QUT_INSTRUCTION_LR_OFFSET_OP_PREFIX_def

section \<open>Encoder\<close>

definition IMM :: "nat \<Rightarrow> int" where
  "IMM n = push_bit 2 (push_bit n 1 - 1)"

definition FILL_WITH_IMM :: "u8 \<Rightarrow> int \<Rightarrow> nat \<Rightarrow> u8" where
  "FILL_WITH_IMM prefix imm n = prefix OR word_of_int ((push_bit n 1 - 1) AND drop_bit 2 imm)"

text \<open>The \<open>do\<close> loop with the rounds so far: the bytes, their number, and what is left of the value.\<close>

function sleb_rounds :: "int \<Rightarrow> nat \<Rightarrow> nat \<Rightarrow> u8 list \<times> nat \<times> int" where
  "sleb_rounds val cnt pad_to =
     (let byte = val AND 0x7f;
          val' = drop_bit 7 val;
          more = (\<not> (val' = 0 \<and> byte AND 0x40 = 0 \<or> val' = - 1 \<and> byte AND 0x40 \<noteq> 0));
          cnt = cnt + 1;
          byte = (if more \<or> cnt < pad_to then byte OR 0x80 else byte)
      in if more then case sleb_rounds val' cnt pad_to of (bs, r) \<Rightarrow> (word_of_int byte # bs, r)
         else ([word_of_int byte], cnt, val'))"
  by pat_completeness auto
termination
proof (relation "measure (\<lambda>(v, _). nat (if v < 0 then - v - 1 else v))", goal_cases)
  case (2 val cnt pad_to)
  then have "val \<noteq> 0" "val \<noteq> - 1" by auto
  with 2 show ?case by (auto simp: drop_bit_eq_div)
qed simp

declare sleb_rounds.simps [simp del]

definition EncodeSLEB128 :: "int \<Rightarrow> nat \<Rightarrow> u8 list" where
  "EncodeSLEB128 val pad_to =
     (case sleb_rounds val 0 pad_to of (bs, cnt, val') \<Rightarrow>
        if cnt < pad_to then
          let pad_value = (if val' < 0 then 0x7f else 0) in
          bs @ replicate (pad_to - 1 - cnt) (pad_value OR 0x80) @ [pad_value]
        else bs)"

definition ins_op :: "u64 \<Rightarrow> u32" where
  "ins_op instruction = ucast (drop_bit 32 instruction)"

definition ins_imm :: "u64 \<Rightarrow> int" where
  "ins_imm instruction = sint (ucast instruction :: u32)"

text \<open>A register restored from an offset: one byte where the offset fits.\<close>

definition encode_offset :: "u8 \<Rightarrow> u8 \<Rightarrow> int \<Rightarrow> u8 list" where
  "encode_offset prefix sleb_op imm =
     (if 0 \<le> imm \<and> imm \<le> IMM 4 then [FILL_WITH_IMM prefix imm 4] else sleb_op # EncodeSLEB128 imm 0)"

text \<open>The cases of the \<open>switch\<close>: whether the loop goes on, and the bytes pushed.\<close>

definition encode_ins :: "u32 \<Rightarrow> int \<Rightarrow> bool \<times> u8 list" where
  "encode_ins op imm =
     (if op = QUT_INSTRUCTION_VSP_OFFSET then
        (True, if - IMM 6 \<le> imm \<and> imm \<le> IMM 6 then [FILL_WITH_IMM (if imm > 0 then 0 else 0x40) imm 6]
               else QUT_INSTRUCTION_VSP_OFFSET_SLEB128_OP # EncodeSLEB128 imm 0)
      else if op = QUT_INSTRUCTION_VSP_SET_BY_X29 then
        (True, if 0 < imm \<and> imm \<le> IMM 7 then [QUT_INSTRUCTION_VSP_SET_BY_X29_IMM_OP, FILL_WITH_IMM 0 imm 7]
               else QUT_INSTRUCTION_VSP_SET_BY_X29_OFFSET_OP # EncodeSLEB128 imm 0)
      else if op = QUT_INSTRUCTION_VSP_SET_BY_JNI_SP then
        (if imm \<le> IMM 7 then (True, [QUT_INSTRUCTION_VSP_SET_BY_JNI_SP_OP, FILL_WITH_IMM 0 imm 7])
         else (False, [QUT_INSTRUCTION_VSP_SET_BY_JNI_SP_OP]))
      else if op = QUT_INSTRUCTION_VSP_SET_IMM then (True, QUT_INSTRUCTION_VSP_SET_IMM_OP # EncodeSLEB128 imm 0)
      else if op = QUT_INSTRUCTION_DEX_PC_SET then (True, [QUT_INSTRUCTION_DEX_PC_SET_OP])
      else if op = QUT_END_OF_INS then (True, [QUT_END_OF_INS_OP])
      else if op = QUT_FIN then (True, [QUT_FINISH_OP])
      else if op = QUT_INSTRUCTION_X20_OFFSET then
        (True, encode_offset QUT_INSTRUCTION_X20_OFFSET_OP_PREFIX QUT_INSTRUCTION_X20_OFFSET_SLEB128_OP imm)
      else if op = QUT_INSTRUCTION_X29_OFFSET then
        (True, encode_offset QUT_INSTRUCTION_X29_OFFSET_OP_PREFIX QUT_INSTRUCTION_X29_OFFSET_SLEB128_OP imm)
      else if op = QUT_INSTRUCTION_X28_OFFSET then
        (True, encode_offset QUT_INSTRUCTION_X28_OFFSET_OP_PREFIX QUT_INSTRUCTION_X28_OFFSET_SLEB128_OP imm)
      else if op = QUT_INSTRUCTION_LR_OFFSET then
        (True, encode_offset QUT_INSTRUCTION_LR_OFFSET_OP_PREFIX QUT_INSTRUCTION_LR_OFFSET_SLEB128_OP imm)
      else if op = QUT_INSTRUCTION_SP_OFFSET then (True, QUT_INSTRUCTION_SP_OFFSET_SLEB128_OP # EncodeSLEB128 imm 0)
      else if op = QUT_INSTRUCTION_PC_OFFSET then (True, QUT_INSTRUCTION_PC_OFFSET_SLEB128_OP # EncodeSLEB128 imm 0)
      else (True, []))"

text \<open>Whether the three instructions after \<open>vsp = x29\<close> are taken for those of a prologue.\<close>

fun have_prologue :: "u64 list \<Rightarrow> bool" where
  "have_prologue (a # b # c # _) \<longleftrightarrow>
     ins_op a = QUT_INSTRUCTION_VSP_OFFSET \<and>
     ins_op b = QUT_INSTRUCTION_LR_OFFSET \<and> ins_imm b = ins_imm a - 8 \<and>
     ins_op c = QUT_INSTRUCTION_X29_OFFSET \<and> ins_imm c = ins_imm a"
| "have_prologue _ \<longleftrightarrow> False"

function QuickenInstructionsEncode64 :: "u64 list \<Rightarrow> bool \<times> u8 list" where
  "QuickenInstructionsEncode64 [] = (True, [])"
| "QuickenInstructionsEncode64 (instruction # it) =
     (let op = ins_op instruction; imm = ins_imm instruction in
      if imm AND 3 \<noteq> 0 then (False, [])
      else if op = QUT_INSTRUCTION_VSP_SET_BY_X29 \<and> imm = 0 then
        if have_prologue it
        then map_prod id ((#) QUT_INSTRUCTION_VSP_SET_BY_X29_PROLOGUE_OP) (QuickenInstructionsEncode64 (drop 3 it))
        else map_prod id ((#) QUT_INSTRUCTION_VSP_SET_BY_X29_OP) (QuickenInstructionsEncode64 it)
      else case encode_ins op imm of (go_on, bs) \<Rightarrow>
        if go_on then map_prod id ((@) bs) (QuickenInstructionsEncode64 it) else (False, bs))"
  by pat_completeness auto
termination
  by (relation "measure length") auto

declare QuickenInstructionsEncode64.simps(2) [simp del]

section \<open>SLEB128\<close>

lemma sleb_byte_and: "v AND 127 = take_bit 7 v" for v :: int
  by (simp add: take_bit_eq_mask mask_eq_exp_minus_1)

lemma sleb_bit6: "take_bit 7 v AND 64 = 0 \<longleftrightarrow> \<not> bit v 6" for v :: int
  using and_exp_eq_0_iff_not_bit [of "take_bit 7 v" 6] by (simp add: bit_take_bit_iff)

text \<open>Without padding the encoder writes the shortest encoding.\<close>

lemma sleb_rounds_encode: "fst (sleb_rounds v cnt 0) = sleb_encode v"
proof (induction v arbitrary: cnt rule: sleb_encode.induct)
  case (1 v)
  let ?stop = "drop_bit 7 v = 0 \<and> \<not> bit v 6 \<or> drop_bit 7 v = - 1 \<and> bit v 6"
  show ?case
  proof (cases ?stop)
    case True
    then show ?thesis
      by (subst sleb_rounds.simps, subst sleb_encode.simps) (auto simp: Let_def sleb_bit6 sleb_byte_and)
  next
    case False
    with 1 [OF False, of "cnt + 1"] show ?thesis
      by (subst sleb_rounds.simps, subst sleb_encode.simps)
        (auto simp: Let_def sleb_bit6 sleb_byte_and split: prod.split)
  qed
qed

lemma EncodeSLEB128_eq: "EncodeSLEB128 v 0 = sleb_encode v"
  using sleb_rounds_encode [of v 0] by (cases "sleb_rounds v 0 0") (simp add: EncodeSLEB128_def)

end
