(* ===== verification/QutTable.thy ===== *)
theory QutTable
  imports QutCode
begin

text \<open>
  \<open>QuickenTable.cpp\<close>, \<open>QuickenTable.h\<close> of \<open>libwechatbacktrace\<close>, 64-bit: the interpreter of encoded unwind
  instructions, and that it undoes the encoder.
\<close>

section \<open>State\<close>

datatype QutErrorCode =
    QUT_ERROR_NONE | QUT_ERROR_UNWIND_INFO | QUT_ERROR_INVALID_MAP | QUT_ERROR_MAX_FRAMES_EXCEEDED
  | QUT_ERROR_REPEATED_FRAME | QUT_ERROR_INVALID_ELF | QUT_ERROR_QUT_SECTION_INVALID
  | QUT_ERROR_INVALID_QUT_INSTR | QUT_ERROR_MAPS_IS_NULL | QUT_ERROR_CONTEXT_IS_NULL
  | QUT_ERROR_REQUEST_QUT_FILE_FAILED | QUT_ERROR_REQUEST_QUT_INMEM_FAILED
  | QUT_ERROR_READ_STACK_FAILED | QUT_ERROR_TABLE_INDEX_OVERFLOW

text \<open>The registers, and what the interpreter keeps beside them.\<close>

record regs =
  R20 :: u64
  R28 :: u64
  R29 :: u64
  SP :: u64
  PC :: u64
  LR :: u64

record QuickenTable = regs +
  cfa :: u64
  dex_pc :: u64
  pc_set :: bool

text \<open>The memory of the process and the bounds of the stack.\<close>

record stack =
  st_mem :: mem
  stack_bottom :: u64
  stack_top :: u64

record QutSections =
  quidx :: "u64 list"
  qutbl :: "u64 list"
  idx_size :: nat
  tbl_size :: nat
  idx_capacity :: nat
  tbl_capacity :: nat

definition QUT_TBL_ROW_SIZE :: nat where "QUT_TBL_ROW_SIZE = 7"

section \<open>Bytes of the table\<close>

text \<open>A position is a row \<open>i\<close> and the number \<open>j\<close> of a byte in it, counted from the least significant. Reads past
  the rows, and shifts by 64 or more, are undefined.\<close>

definition ReadByte :: "u64 list \<Rightarrow> nat \<times> nat \<Rightarrow> (u8 \<times> nat \<times> nat) run" where
  "ReadByte instructions = (\<lambda>(i, j).
     if length instructions \<le> i \<or> 7 < j then Undef
     else Ret (ucast (drop_bit (8 * j) (instructions ! i)), if j = 0 then (i + 1, QUT_TBL_ROW_SIZE) else (i, j - 1)))"

fun byte_pos :: "nat \<times> nat \<Rightarrow> nat" where
  "byte_pos (i, j) = 8 * i + (7 - j)"

lemma ReadByte_pos: "ReadByte ins p = Ret (b, q) \<Longrightarrow> byte_pos q = Suc (byte_pos p) \<and> snd q \<le> 7"
  by (cases p) (auto simp: ReadByte_def QUT_TBL_ROW_SIZE_def split: if_splits)

lemma byte_pos_less: "fst p < n \<Longrightarrow> byte_pos p < 8 * n"
  by (cases p) auto

lemma bindr_cong [fundef_cong]: "m = m' \<Longrightarrow> (\<And>x. m' = Ret x \<Longrightarrow> f x = g x) \<Longrightarrow> bindr m f = bindr m' g"
  by (cases m') simp_all

function sleb_read :: "u64 list \<Rightarrow> nat \<Rightarrow> nat \<times> nat \<Rightarrow> u64 \<Rightarrow> nat \<Rightarrow> (u64 \<times> nat \<times> u8 \<times> nat \<times> nat) run" where
  "sleb_read instructions amount p val shift =
     bindr (ReadByte instructions p) (\<lambda>(byte, q).
       if 64 \<le> shift then Undef
       else
         let val = val OR push_bit shift (ucast (byte AND 0x7f)); shift = shift + 7 in
         if 0x80 \<le> byte \<and> fst q < amount then sleb_read instructions amount q val shift
         else Ret (val, shift, byte, q))"
  by pat_completeness auto
termination
proof (relation "measure (\<lambda>(ins, amount, p, val, shift). 8 * amount - byte_pos p)", goal_cases)
  case (2 ins amount p val shift x byte q)
  then have "byte_pos q = Suc (byte_pos p)" "byte_pos q < 8 * amount"
    using ReadByte_pos [of ins p byte q] byte_pos_less [of q amount] by simp_all
  then show ?case by simp
qed simp

declare sleb_read.simps [simp del]

text \<open>The value, or \<open>None\<close> where the rows end inside it.\<close>

definition DecodeSLEB128 :: "u64 list \<Rightarrow> nat \<Rightarrow> nat \<times> nat \<Rightarrow> (u64 option \<times> nat \<times> nat) run" where
  "DecodeSLEB128 instructions amount p =
     bindr (sleb_read instructions amount p 0 0) (\<lambda>(val, shift, byte, q).
       let val = (if shift < 64 \<and> byte AND 0x40 \<noteq> 0 then val OR push_bit shift (- 1) else val) in
       Ret (if 0x80 \<le> byte then None else Some val, q))"

section \<open>Interpreter\<close>

definition ReadStack :: "stack \<Rightarrow> u64 \<Rightarrow> u64 option run" where
  "ReadStack s addr =
     (if stack_top s < addr \<or> addr < stack_bottom s then Ret None
      else bindr (ld64 (st_mem s) addr) (\<lambda>v. Ret (Some v)))"

text \<open>Whether the loop goes on, from which position, or the function returns.\<close>

datatype flow = GoOn "nat \<times> nat" QuickenTable | Return QutErrorCode QuickenTable

definition restore :: "stack \<Rightarrow> u64 \<Rightarrow> QuickenTable \<Rightarrow> (u64 \<Rightarrow> flow run) \<Rightarrow> flow run" where
  "restore s addr t k =
     bindr (ReadStack s addr) (\<lambda>r. case r of None \<Rightarrow> Ret (Return QUT_ERROR_READ_STACK_FAILED t) | Some v \<Rightarrow> k v)"

definition with_sleb :: "u64 list \<Rightarrow> nat \<Rightarrow> nat \<times> nat \<Rightarrow> QuickenTable \<Rightarrow> (u64 \<Rightarrow> nat \<times> nat \<Rightarrow> flow run) \<Rightarrow> flow run" where
  "with_sleb instructions amount p t k =
     bindr (DecodeSLEB128 instructions amount p) (\<lambda>(r, q). case r of
         None \<Rightarrow> Ret (Return QUT_ERROR_TABLE_INDEX_OVERFLOW t)
       | Some val \<Rightarrow> k val q)"

text \<open>Bytes \<open>10......\<close>. The case of \<open>VSP_SET_BY_X29_OFFSET\<close> has no \<open>break\<close> and runs on into the next one.\<close>

definition decode_10 :: "stack \<Rightarrow> u64 list \<Rightarrow> nat \<Rightarrow> u8 \<Rightarrow> nat \<times> nat \<Rightarrow> QuickenTable \<Rightarrow> flow run" where
  "decode_10 s instructions amount byte p t =
     (if byte = QUT_INSTRUCTION_VSP_SET_BY_X29_OP then Ret (GoOn p (t\<lparr>cfa := R29 t\<rparr>))
      else if byte = QUT_INSTRUCTION_VSP_SET_BY_X29_PROLOGUE_OP then
        let t = t\<lparr>cfa := R29 t + 16\<rparr> in
        restore s (cfa t - 8) t (\<lambda>v. let t = t\<lparr>LR := v\<rparr> in
        restore s (cfa t - 16) t (\<lambda>v. Ret (GoOn p (t\<lparr>R29 := v\<rparr>))))
      else if byte = QUT_INSTRUCTION_VSP_SET_BY_SP_OP then Ret (GoOn p (t\<lparr>cfa := SP t\<rparr>))
      else if byte = QUT_INSTRUCTION_VSP_SET_BY_JNI_SP_OP then
        bindr (ReadByte instructions p) (\<lambda>(b, q). Ret (GoOn q (t\<lparr>cfa := R28 t + push_bit 2 (ucast (b AND 0x7f))\<rparr>)))
      else if byte = QUT_INSTRUCTION_VSP_SET_IMM_OP then
        with_sleb instructions amount p t (\<lambda>val q. Ret (GoOn q (t\<lparr>cfa := val\<rparr>)))
      else if byte = QUT_INSTRUCTION_VSP_SET_BY_X29_IMM_OP then
        bindr (ReadByte instructions p) (\<lambda>(b, q). Ret (GoOn q (t\<lparr>cfa := R29 t + push_bit 2 (ucast (b AND 0x7f))\<rparr>)))
      else if byte = QUT_INSTRUCTION_VSP_SET_BY_X29_OFFSET_OP then
        with_sleb instructions amount p t (\<lambda>val q. Ret (GoOn q (t\<lparr>cfa := R29 t + val, dex_pc := R20 t\<rparr>)))
      else if byte = QUT_INSTRUCTION_DEX_PC_SET_OP then Ret (GoOn p (t\<lparr>dex_pc := R20 t\<rparr>))
      else if byte = QUT_END_OF_INS_OP then Ret (Return QUT_ERROR_NONE t)
      else if byte = QUT_FINISH_OP then Ret (Return QUT_ERROR_NONE (t\<lparr>PC := 0, LR := 0\<rparr>))
      else if byte AND 0xf0 = QUT_INSTRUCTION_X20_OFFSET_OP_PREFIX then
        restore s (cfa t - push_bit 2 (ucast (byte AND 0xf))) t (\<lambda>v. Ret (GoOn p (t\<lparr>R20 := v\<rparr>)))
      else Ret (GoOn p t))"

definition decode_11 :: "stack \<Rightarrow> u64 list \<Rightarrow> nat \<Rightarrow> u8 \<Rightarrow> nat \<times> nat \<Rightarrow> QuickenTable \<Rightarrow> flow run" where
  "decode_11 s instructions amount byte p t =
     (let addr = cfa t - push_bit 2 (ucast (byte AND 0xf)); sleb = with_sleb instructions amount p t in
      if byte AND 0xf0 = QUT_INSTRUCTION_X28_OFFSET_OP_PREFIX then
        restore s addr t (\<lambda>v. Ret (GoOn p (t\<lparr>R28 := v\<rparr>)))
      else if byte AND 0xf0 = QUT_INSTRUCTION_X29_OFFSET_OP_PREFIX then
        restore s addr t (\<lambda>v. Ret (GoOn p (t\<lparr>R29 := v\<rparr>)))
      else if byte AND 0xf0 = QUT_INSTRUCTION_LR_OFFSET_OP_PREFIX then
        restore s addr t (\<lambda>v. Ret (GoOn p (t\<lparr>LR := v\<rparr>)))
      else if byte = QUT_INSTRUCTION_X20_OFFSET_SLEB128_OP then
        sleb (\<lambda>val q. restore s (cfa t - val) t (\<lambda>v. Ret (GoOn q (t\<lparr>R20 := v\<rparr>))))
      else if byte = QUT_INSTRUCTION_X28_OFFSET_SLEB128_OP then
        sleb (\<lambda>val q. restore s (cfa t - val) t (\<lambda>v. Ret (GoOn q (t\<lparr>R28 := v\<rparr>))))
      else if byte = QUT_INSTRUCTION_X29_OFFSET_SLEB128_OP then
        sleb (\<lambda>val q. restore s (cfa t - val) t (\<lambda>v.
          if v = 0 then Ret (Return QUT_ERROR_NONE (t\<lparr>R29 := v\<rparr>)) else Ret (GoOn q (t\<lparr>R29 := v\<rparr>))))
      else if byte = QUT_INSTRUCTION_SP_OFFSET_SLEB128_OP then
        sleb (\<lambda>val q. restore s (cfa t - val) t (\<lambda>v. Ret (GoOn q (t\<lparr>SP := v\<rparr>))))
      else if byte = QUT_INSTRUCTION_LR_OFFSET_SLEB128_OP then
        sleb (\<lambda>val q. restore s (cfa t - val) t (\<lambda>v. Ret (GoOn q (t\<lparr>LR := v\<rparr>))))
      else if byte = QUT_INSTRUCTION_PC_OFFSET_SLEB128_OP then
        sleb (\<lambda>val q. restore s (cfa t - val) t (\<lambda>v. Ret (GoOn q (t\<lparr>PC := v, pc_set := True\<rparr>))))
      else if byte = QUT_INSTRUCTION_VSP_OFFSET_SLEB128_OP then
        sleb (\<lambda>val q. Ret (GoOn q (t\<lparr>cfa := cfa t + val\<rparr>)))
      else Ret (Return QUT_ERROR_INVALID_QUT_INSTR t))"

text \<open>One round of the loop.\<close>

definition decode_byte :: "stack \<Rightarrow> u64 list \<Rightarrow> nat \<Rightarrow> nat \<times> nat \<Rightarrow> QuickenTable \<Rightarrow> flow run" where
  "decode_byte s instructions amount p t =
     bindr (ReadByte instructions p) (\<lambda>(byte, q).
       if drop_bit 6 byte = 0 then Ret (GoOn q (t\<lparr>cfa := cfa t + push_bit 2 (ucast byte)\<rparr>))
       else if drop_bit 6 byte = 1 then Ret (GoOn q (t\<lparr>cfa := cfa t - ucast (push_bit 2 byte)\<rparr>))
       else if drop_bit 6 byte = 2 then decode_10 s instructions amount byte q t
       else decode_11 s instructions amount byte q t)"

text \<open>Every round that goes on has read a byte.\<close>

lemma sleb_read_pos: "sleb_read ins n p v sh = Ret (v', sh', b, q) \<Longrightarrow> byte_pos p < byte_pos q"
proof (induction ins n p v sh rule: sleb_read.induct)
  case (1 ins n p v sh)
  from 1(2) obtain b0 q0 where r: "ReadByte ins p = Ret (b0, q0)" and sh: "\<not> 64 \<le> sh"
    by (subst (asm) sleb_read.simps) (auto simp: bindr_eq_Ret split: if_splits)
  show ?case
  proof (cases "0x80 \<le> b0 \<and> fst q0 < n")
    case True
    with 1(1) [OF r refl sh refl refl True] 1(2) r sh ReadByte_pos [OF r] show ?thesis
      by (subst (asm) (2) sleb_read.simps) (simp add: Let_def)
  next
    case False
    with 1(2) r sh ReadByte_pos [OF r] show ?thesis
      by (subst (asm) sleb_read.simps) (auto simp: Let_def)
  qed
qed

lemma with_sleb_cases:
  assumes "with_sleb ins n p t k = Ret (GoOn q t')"
  obtains val r where "byte_pos p < byte_pos r" "k val r = Ret (GoOn q t')"
  using assms by (auto simp: with_sleb_def DecodeSLEB128_def bindr_eq_Ret Let_def
      dest!: sleb_read_pos split: option.splits if_splits)

lemma restore_cases:
  assumes "restore s a t k = Ret (GoOn q t')"
  obtains v where "k v = Ret (GoOn q t')"
  using assms by (auto simp: restore_def bindr_eq_Ret split: option.splits)

lemma decode_10_pos: "decode_10 s ins n b p t = Ret (GoOn q t') \<Longrightarrow> byte_pos p \<le> byte_pos q"
  by (auto simp: decode_10_def Let_def bindr_eq_Ret elim!: with_sleb_cases restore_cases dest!: ReadByte_pos
      split: if_splits)

lemma decode_11_pos: "decode_11 s ins n b p t = Ret (GoOn q t') \<Longrightarrow> byte_pos p \<le> byte_pos q"
  by (auto simp: decode_11_def Let_def elim!: with_sleb_cases restore_cases split: if_splits)

lemma decode_byte_pos: "decode_byte s ins n p t = Ret (GoOn q t') \<Longrightarrow> byte_pos p < byte_pos q"
  by (auto simp: decode_byte_def bindr_eq_Ret dest!: ReadByte_pos decode_10_pos decode_11_pos split: if_splits)

function Decode64_loop ::
    "stack \<Rightarrow> u64 list \<Rightarrow> nat \<Rightarrow> nat \<times> nat \<Rightarrow> QuickenTable \<Rightarrow> (QutErrorCode \<times> QuickenTable) run" where
  "Decode64_loop s instructions amount p t =
     (if \<not> fst p < amount then Ret (QUT_ERROR_NONE, t)
      else bindr (decode_byte s instructions amount p t) (\<lambda>f. case f of
          GoOn q t \<Rightarrow> Decode64_loop s instructions amount q t
        | Return code t \<Rightarrow> Ret (code, t)))"
  by pat_completeness auto
termination
proof (relation "measure (\<lambda>(s, ins, amount, p, t). 8 * amount - byte_pos p)", goal_cases)
  case (2 s ins amount p t x q t')
  then show ?case using decode_byte_pos [of s ins amount p t q t'] byte_pos_less [of p amount] by simp
qed simp

declare Decode64_loop.simps [simp del]

definition Decode64 :: "stack \<Rightarrow> u64 list \<Rightarrow> nat \<Rightarrow> nat \<Rightarrow> QuickenTable \<Rightarrow> (QutErrorCode \<times> QuickenTable) run" where
  "Decode64 s instructions amount start_pos t = Decode64_loop s instructions amount (0, start_pos) t"

text \<open>\<open>CHECK\<close> ends the process. An index outside the array is undefined.\<close>

definition Eval :: "stack \<Rightarrow> QutSections \<Rightarrow> nat \<Rightarrow> QuickenTable \<Rightarrow> (QutErrorCode \<times> QuickenTable) run" where
  "Eval s sec entry_offset t =
     (if length (quidx sec) \<le> entry_offset + 1 then Undef
      else
        let command = quidx sec ! (entry_offset + 1) in
        if drop_bit 63 command \<noteq> 0 then Decode64 s [command] 1 (QUT_TBL_ROW_SIZE - 1) t
        else
          let row_count = unat (drop_bit 56 command AND 0x7f); row_offset = unat (command AND 0xffffff) in
          if \<not> row_offset + row_count \<le> tbl_size sec then Abort
          else Decode64 s (drop row_offset (qutbl sec)) row_count QUT_TBL_ROW_SIZE t)"

end
