(* ===== verification/QutExec.thy ===== *)
theory QutExec
  imports QutTable
begin

text \<open>
  The meaning of unwind instructions, and that interpreting their encoding has that meaning.
\<close>

section \<open>Meaning of instructions\<close>

text \<open>One instruction: how it changes the registers, and the result where it ends the sequence.\<close>

definition exec_restore :: "stack \<Rightarrow> int \<Rightarrow> (u64 \<Rightarrow> QuickenTable) \<Rightarrow> QuickenTable \<Rightarrow> (QutErrorCode option \<times> QuickenTable) run" where
  "exec_restore s imm upd t =
     bindr (ReadStack s (cfa t - word_of_int imm)) (\<lambda>r. Ret (case r of
         None \<Rightarrow> (Some QUT_ERROR_READ_STACK_FAILED, t)
       | Some v \<Rightarrow> (None, upd v)))"

definition short_offset :: "int \<Rightarrow> bool" where
  "short_offset imm \<longleftrightarrow> 0 \<le> imm \<and> imm \<le> IMM 4"

definition exec1 :: "stack \<Rightarrow> u32 \<Rightarrow> int \<Rightarrow> QuickenTable \<Rightarrow> (QutErrorCode option \<times> QuickenTable) run" where
  "exec1 s op imm t =
     (if op = QUT_INSTRUCTION_VSP_OFFSET then Ret (None, t\<lparr>cfa := cfa t + word_of_int imm\<rparr>)
      else if op = QUT_INSTRUCTION_VSP_SET_BY_X29 then Ret (None, t\<lparr>cfa := R29 t + word_of_int imm\<rparr>)
      else if op = QUT_INSTRUCTION_VSP_SET_BY_JNI_SP then Ret (None, t\<lparr>cfa := R28 t + word_of_int imm\<rparr>)
      else if op = QUT_INSTRUCTION_VSP_SET_IMM then Ret (None, t\<lparr>cfa := word_of_int imm\<rparr>)
      else if op = QUT_INSTRUCTION_DEX_PC_SET then Ret (None, t\<lparr>dex_pc := R20 t\<rparr>)
      else if op = QUT_END_OF_INS then Ret (Some QUT_ERROR_NONE, t)
      else if op = QUT_FIN then Ret (Some QUT_ERROR_NONE, t\<lparr>PC := 0, LR := 0\<rparr>)
      else if op = QUT_INSTRUCTION_X20_OFFSET then exec_restore s imm (\<lambda>v. t\<lparr>R20 := v\<rparr>) t
      else if op = QUT_INSTRUCTION_X28_OFFSET then exec_restore s imm (\<lambda>v. t\<lparr>R28 := v\<rparr>) t
      else if op = QUT_INSTRUCTION_X29_OFFSET then
        bindr (exec_restore s imm (\<lambda>v. t\<lparr>R29 := v\<rparr>) t) (\<lambda>(r, t).
          Ret (if r = None \<and> R29 t = 0 \<and> \<not> short_offset imm then Some QUT_ERROR_NONE else r, t))
      else if op = QUT_INSTRUCTION_LR_OFFSET then exec_restore s imm (\<lambda>v. t\<lparr>LR := v\<rparr>) t
      else if op = QUT_INSTRUCTION_SP_OFFSET then exec_restore s imm (\<lambda>v. t\<lparr>SP := v\<rparr>) t
      else if op = QUT_INSTRUCTION_PC_OFFSET then exec_restore s imm (\<lambda>v. t\<lparr>PC := v, pc_set := True\<rparr>) t
      else Ret (None, t))"

fun exec :: "stack \<Rightarrow> u64 list \<Rightarrow> QuickenTable \<Rightarrow> (QutErrorCode \<times> QuickenTable) run" where
  "exec s [] t = Ret (QUT_ERROR_NONE, t)"
| "exec s (x # xs) t =
     bindr (exec1 s (ins_op x) (ins_imm x) t) (\<lambda>(r, t). case r of None \<Rightarrow> exec s xs t | Some e \<Rightarrow> Ret (e, t))"

text \<open>The instructions whose encoding keeps their meaning: immediates are multiples of four, moves of \<open>vsp\<close> by a
  small negative amount are left out but for one, \<open>x29\<close> and the JNI stack pointer have short
  non-negative immediates, and what looks like a prologue has the frame size 16.\<close>

fun encodable :: "u64 list \<Rightarrow> bool" where
  "encodable [] \<longleftrightarrow> True"
| "encodable (x # xs) \<longleftrightarrow>
     ins_imm x AND 3 = 0 \<and>
     (ins_op x = QUT_INSTRUCTION_VSP_OFFSET \<longrightarrow> 0 \<le> ins_imm x \<or> ins_imm x < - IMM 6 \<or> ins_imm x = - 128) \<and>
     (ins_op x = QUT_INSTRUCTION_VSP_SET_BY_X29 \<longrightarrow> 0 \<le> ins_imm x \<and> ins_imm x \<le> IMM 7 \<and>
        (ins_imm x = 0 \<and> have_prologue xs \<longrightarrow> ins_imm (hd xs) = 16)) \<and>
     (ins_op x = QUT_INSTRUCTION_VSP_SET_BY_JNI_SP \<longrightarrow> 0 \<le> ins_imm x \<and> ins_imm x \<le> IMM 7) \<and>
     encodable xs"

section \<open>Bytes at a position\<close>

definition row_bytes :: "u64 list \<Rightarrow> u8 list" where
  "row_bytes rows = concat (map (\<lambda>w. map (\<lambda>j. ucast (drop_bit (8 * j) w)) [7, 6, 5, 4, 3, 2, 1, 0]) rows)"

lemma length_row_bytes [simp]: "length (row_bytes rows) = 8 * length rows"
  by (induction rows) (simp_all add: row_bytes_def)

lemma nth_row_bytes:
  assumes "i < length rows" "k < 8"
  shows "row_bytes rows ! (8 * i + k) = ucast (drop_bit (8 * (7 - k)) (rows ! i))"
  using assms(1)
proof (induction rows arbitrary: i)
  case (Cons w rows)
  show ?case
  proof (cases i)
    case 0
    have "k = 0 \<or> k = 1 \<or> k = 2 \<or> k = 3 \<or> k = 4 \<or> k = 5 \<or> k = 6 \<or> k = 7" using assms(2) by linarith
    with 0 show ?thesis by (auto simp: row_bytes_def)
  next
    case (Suc m)
    have "row_bytes (w # rows) = map (\<lambda>j. ucast (drop_bit (8 * j) w)) [7, 6, 5, 4, 3, 2, 1, 0] @ row_bytes rows"
      by (simp add: row_bytes_def)
    then have "row_bytes (w # rows) ! (8 + (8 * m + k)) = row_bytes rows ! (8 * m + k)"
      by (simp add: nth_append)
    with Suc Cons show ?thesis by (simp add: add.assoc)
  qed
qed simp

definition code_at :: "u64 list \<Rightarrow> nat \<Rightarrow> nat \<times> nat \<Rightarrow> u8 list \<Rightarrow> bool" where
  "code_at ins n p bs \<longleftrightarrow> snd p \<le> 7 \<and> n \<le> length ins \<and> bs = drop (byte_pos p) (row_bytes (take n ins))"

lemma code_at_Cons:
  assumes "code_at ins n p (b # bs)"
  obtains q where "ReadByte ins p = Ret (b, q)" "code_at ins n q bs" "fst p < n"
proof -
  obtain i j where p: "p = (i, j)" by force
  let ?k = "byte_pos p" and ?q = "if j = 0 then (i + 1, 7) else (i, j - 1)"
  from assms p have j: "j \<le> 7" and n: "n \<le> length ins" and d: "drop ?k (row_bytes (take n ins)) = b # bs"
    by (auto simp: code_at_def)
  then have k: "?k < 8 * n" by (metis drop_eq_Nil length_row_bytes length_take list.distinct(1) min.absorb2 not_le)
  with p j have i: "i < n" by simp
  have b: "row_bytes (take n ins) ! ?k = b" and bs: "drop (Suc ?k) (row_bytes (take n ins)) = bs"
    using d k n by (metis nth_via_drop, metis drop_Suc list.sel(3) tl_drop)
  have "ReadByte ins p = Ret (b, ?q)"
    using b nth_row_bytes [of i "take n ins" "7 - j"] i j n by (simp add: p ReadByte_def QUT_TBL_ROW_SIZE_def)
  moreover have "byte_pos ?q = Suc ?k" using j by (auto simp: p)
  then have "code_at ins n ?q bs" using n bs j by (auto simp: code_at_def)
  ultimately show thesis using that i by (simp add: p)
qed

lemma code_at_Nil: "code_at ins n p [] \<Longrightarrow> \<not> fst p < n"
  using byte_pos_less [of p n] by (auto simp: code_at_def)

lemma code_at_more: "code_at ins n p bs \<Longrightarrow> bs \<noteq> [] \<Longrightarrow> fst p < n"
  by (cases bs) (auto elim: code_at_Cons)

section \<open>Decoding what was encoded\<close>

lemma u8_ge_128: "(0x80 :: u8) \<le> b \<longleftrightarrow> bit b 7"
proof -
  have "bit b 7 \<longleftrightarrow> bit (unat b) 7" by (simp add: bit_unsigned_iff)
  also have "\<dots> \<longleftrightarrow> odd (unat b div 128)" by (simp add: bit_iff_odd)
  finally have "bit b 7 \<longleftrightarrow> odd (unat b div 128)" .
  moreover have "unat b < 256" using unsigned_less [of b] by simp
  then have "unat b div 128 = (if 128 \<le> unat b then 1 else 0)" by (auto intro: div_nat_eqI)
  ultimately show ?thesis by (simp add: word_le_nat_alt)
qed

lemma sleb_read_encode:
  assumes "- (2 ^ 63) \<le> v" and "v < 2 ^ 63" and "shift mod 7 = 0" and "shift \<le> 63"
    and "code_at ins n p (sleb_encode (drop_bit shift v) @ rest)"
  shows "\<exists>val shift' byte q. sleb_read ins n p (word_of_int (take_bit shift v)) shift = Ret (val, shift', byte, q) \<and>
    code_at ins n q rest \<and> \<not> 0x80 \<le> byte \<and>
    (if shift' < 64 \<and> byte AND 64 \<noteq> 0 then val OR push_bit shift' (- 1) else val) = word_of_int v"
  using assms(3-5)
proof (induction "drop_bit shift v" arbitrary: shift p rule: sleb_encode.induct)
  case 1
  let ?v = "drop_bit shift v"
  let ?stop = "drop_bit 7 ?v = 0 \<and> \<not> bit ?v 6 \<or> drop_bit 7 ?v = - 1 \<and> bit ?v 6"
  show ?case
  proof (cases ?stop)
    case True
    let ?b = "word_of_int (take_bit 7 ?v) :: u8"
    have enc: "sleb_encode ?v = [?b]" using True by (subst sleb_encode.simps) simp
    with 1(4) obtain q where q: "ReadByte ins p = Ret (?b, q)" "code_at ins n q rest"
      by (auto elim: code_at_Cons)
    have b: "\<not> 0x80 \<le> ?b" using sleb_flags(1) [of ?v] byte_flag(1) [of ?b] by (simp add: u8_ge_128)
    with q 1(3) have "sleb_read ins n p (word_of_int (take_bit shift v)) shift =
        Ret (word_of_int (take_bit (shift + 7) v), shift + 7, ?b, q)"
      by (subst sleb_read.simps) (simp add: Let_def sleb_byte not_le [symmetric])
    moreover have "drop_bit (shift + 7) v = drop_bit 7 ?v" by (simp add: add.commute)
    ultimately show ?thesis
      using sleb_sign [of "shift + 7" v "bit ?v 6"] True b q(2) unfolding neg_exp by (auto simp: sleb_flags split: if_splits)
  next
    case False
    let ?b = "word_of_int (take_bit 7 ?v OR 128) :: u8"
    have enc: "sleb_encode ?v = ?b # sleb_encode (drop_bit 7 ?v)"
      by (simp only: sleb_encode.simps [of ?v] False if_False)
    have shift: "shift + 7 \<le> 63"
    proof (rule ccontr)
      assume "\<not> shift + 7 \<le> 63"
      with 1(2, 3) have "shift = 63" by presburger
      with drop_bit_63 [OF assms(1, 2)] False show False by auto
    qed
    have dd: "drop_bit (shift + 7) v = drop_bit 7 ?v" by (simp add: add.commute)
    from 1(4) obtain q where q: "ReadByte ins p = Ret (?b, q)" "code_at ins n q (sleb_encode (drop_bit (shift + 7) v) @ rest)"
      by (auto simp: enc dd elim: code_at_Cons)
    then have more: "fst q < n" by (rule_tac code_at_more [OF q(2)]) (simp add: sleb_encode.simps [of "drop_bit (shift + 7) v"])
    have b: "0x80 \<le> ?b" using sleb_flags(2) [of ?v] byte_flag(1) [of ?b] by (simp add: u8_ge_128)
    with q 1(3) more have "sleb_read ins n p (word_of_int (take_bit shift v)) shift =
        sleb_read ins n q (word_of_int (take_bit (shift + 7) v)) (shift + 7)"
      by (subst sleb_read.simps) (simp add: Let_def sleb_byte not_le [symmetric])
    with 1(1) [OF False dd [symmetric] _ shift q(2)] 1(2) show ?thesis by simp
  qed
qed

lemma with_sleb_encode:
  assumes "code_at ins n p (EncodeSLEB128 v 0 @ rest)" and "- (2 ^ 63) \<le> v" and "v < 2 ^ 63"
  obtains q where "code_at ins n q rest" "\<And>t k. with_sleb ins n p t k = k (word_of_int v) q"
proof -
  from sleb_read_encode [OF assms(2, 3), of 0 ins n p rest] assms(1) obtain val shift byte q where
    r: "sleb_read ins n p 0 0 = Ret (val, shift, byte, q)" "\<not> 0x80 \<le> byte"
      "(if shift < 64 \<and> byte AND 64 \<noteq> 0 then val OR push_bit shift (- 1) else val) = word_of_int v"
    and q: "code_at ins n q rest"
    by (auto simp: EncodeSLEB128_eq)
  then have "DecodeSLEB128 ins n p = Ret (Some (word_of_int v), q)" by (simp add: DecodeSLEB128_def Let_def)
  then show thesis using that [OF q] by (simp add: with_sleb_def)
qed

section \<open>Short forms\<close>

lemma imm4: "(imm :: int) AND 3 = 0 \<Longrightarrow> imm = 4 * (imm div 4)"
proof -
  assume "imm AND 3 = 0"
  moreover have "imm AND 3 = take_bit 2 imm" by (simp add: take_bit_eq_mask mask_eq_exp_minus_1)
  ultimately have "imm mod 4 = 0" by (simp add: take_bit_eq_mod)
  then show ?thesis by presburger
qed

lemma IMM_values: "IMM 4 = 60" "IMM 6 = 252" "IMM 7 = 508"
  by (simp_all add: IMM_def)

lemma FILL_short:
  assumes "0 \<le> k" "k < 2 ^ n"
  shows "FILL_WITH_IMM pre (4 * k) n = pre OR word_of_int k"
proof -
  have "(push_bit n 1 - 1) AND k = take_bit n k"
    by (simp add: take_bit_eq_mask mask_eq_exp_minus_1 and.commute push_bit_eq_mult)
  also have "take_bit n k = k" using assms by (simp add: take_bit_int_eq_self)
  finally show ?thesis by (simp add: FILL_WITH_IMM_def drop_bit_eq_div)
qed

lemma uint_byte: "0 \<le> k \<Longrightarrow> k < 256 \<Longrightarrow> uint (word_of_int k :: u8) = k"
  by (simp add: uint_word_of_int)

lemma ucast_byte: "0 \<le> k \<Longrightarrow> k < 256 \<Longrightarrow> (ucast (word_of_int k :: u8) :: u64) = word_of_int k"
  using uint_byte [of k] by (metis ucast_eq)

lemma byte_times4: "0 \<le> k \<Longrightarrow> k < 256 \<Longrightarrow> push_bit 2 (ucast (word_of_int k :: u8) :: u64) = word_of_int (4 * k)"
  by (simp add: ucast_byte push_bit_eq_mult)

lemma byte_low7: "0 \<le> k \<Longrightarrow> k < 128 \<Longrightarrow> word_of_int k AND 0x7f = (word_of_int k :: u8)"
proof -
  assume k: "0 \<le> k" "k < 128"
  have "uint (word_of_int k AND 0x7f :: u8) = k AND 127" using k by (simp add: uint_and uint_byte)
  also have "k AND 127 = k" using k by (simp add: sleb_byte_and take_bit_int_eq_self)
  finally show ?thesis using k by (simp add: word_uint_eq_iff uint_byte)
qed

lemma byte_low6: "0 \<le> k \<Longrightarrow> k < 64 \<Longrightarrow> drop_bit 6 (word_of_int k :: u8) = 0"
  by (simp add: drop_bit_eq_div word_uint_eq_iff uint_div_distrib uint_byte)

lemma nibble_cases:
  assumes "0 \<le> k" "k < (16 :: int)"
  obtains "k = 0" | "k = 1" | "k = 2" | "k = 3" | "k = 4" | "k = 5" | "k = 6" | "k = 7"
  | "k = 8" | "k = 9" | "k = 10" | "k = 11" | "k = 12" | "k = 13" | "k = 14" | "k = 15"
proof -
  have "k = 0 \<or> k = 1 \<or> k = 2 \<or> k = 3 \<or> k = 4 \<or> k = 5 \<or> k = 6 \<or> k = 7 \<or>
    k = 8 \<or> k = 9 \<or> k = 10 \<or> k = 11 \<or> k = 12 \<or> k = 13 \<or> k = 14 \<or> k = 15"
    using assms by presburger
  then show thesis using that by blast
qed

lemma nibble:
  assumes "0 \<le> k" "k < 16" and "pre \<in> {0xb0, 0xc0, 0xd0, 0xe0 :: u8}"
  shows "(pre OR word_of_int k) AND 0xf0 = pre" "(pre OR word_of_int k) AND 0xf = word_of_int k"
    "drop_bit 6 (pre OR word_of_int k) = drop_bit 6 pre"
    "pre = 0xb0 \<Longrightarrow> pre OR word_of_int k \<notin> {0x80, 0x81, 0x84, 0x95, 0x96, 0x85, 0x86, 0x97, 0x99, 0x9f}"
  using assms(3) by (rule_tac nibble_cases [OF assms(1, 2)]; auto)+

section \<open>One instruction\<close>

definition to_flow :: "nat \<times> nat \<Rightarrow> QutErrorCode option \<times> QuickenTable \<Rightarrow> flow" where
  "to_flow q = (\<lambda>(r, t). case r of None \<Rightarrow> GoOn q t | Some e \<Rightarrow> Return e t)"

definition decodes :: "stack \<Rightarrow> u64 list \<Rightarrow> nat \<Rightarrow> nat \<times> nat \<Rightarrow> u8 list \<Rightarrow>
    (QuickenTable \<Rightarrow> (QutErrorCode option \<times> QuickenTable) run) \<Rightarrow> bool" where
  "decodes s ins n p rest m \<longleftrightarrow>
     (\<exists>q. code_at ins n q rest \<and> (\<forall>t. decode_byte s ins n p t = bindr (m t) (\<lambda>x. Ret (to_flow q x))))"

lemma decodesI:
  assumes "code_at ins n q rest" "\<And>t. decode_byte s ins n p t = bindr (m t) (\<lambda>x. Ret (to_flow q x))"
  shows "decodes s ins n p rest m"
  using assms unfolding decodes_def by blast

text \<open>What a round does once it has read its first byte.\<close>

definition dispatch :: "stack \<Rightarrow> u64 list \<Rightarrow> nat \<Rightarrow> u8 \<Rightarrow> nat \<times> nat \<Rightarrow> QuickenTable \<Rightarrow> flow run" where
  "dispatch s ins n b q t =
     (if drop_bit 6 b = 0 then Ret (GoOn q (t\<lparr>cfa := cfa t + push_bit 2 (ucast b)\<rparr>))
      else if drop_bit 6 b = 1 then Ret (GoOn q (t\<lparr>cfa := cfa t - ucast (push_bit 2 b)\<rparr>))
      else if drop_bit 6 b = 2 then decode_10 s ins n b q t
      else decode_11 s ins n b q t)"

lemma decodes_byte:
  assumes "code_at ins n p (b # rest)" and "\<And>q t. code_at ins n q rest \<Longrightarrow>
    dispatch s ins n b q t = bindr (m t) (\<lambda>x. Ret (to_flow q x))"
  shows "decodes s ins n p rest m"
proof -
  from assms(1) obtain q where "ReadByte ins p = Ret (b, q)" "code_at ins n q rest" by (rule code_at_Cons)
  then show ?thesis using assms(2) by (intro decodesI) (simp_all add: decode_byte_def dispatch_def)
qed

lemma decodes_two:
  assumes "code_at ins n p (b # c # rest)" and "\<And>q0 q t. ReadByte ins q0 = Ret (c, q) \<Longrightarrow>
    dispatch s ins n b q0 t = bindr (m t) (\<lambda>x. Ret (to_flow q x))"
  shows "decodes s ins n p rest m"
proof -
  from assms(1) obtain q0 where 0: "ReadByte ins p = Ret (b, q0)" "code_at ins n q0 (c # rest)" by (rule code_at_Cons)
  from 0(2) obtain q where "ReadByte ins q0 = Ret (c, q)" "code_at ins n q rest" by (rule code_at_Cons)
  with 0 show ?thesis using assms(2) by (intro decodesI) (simp_all add: decode_byte_def dispatch_def)
qed

definition s32 :: "int \<Rightarrow> bool" where
  "s32 v \<longleftrightarrow> - (2 ^ 31) \<le> v \<and> v < 2 ^ 31"

lemma decodes_sleb:
  assumes "code_at ins n p (b # EncodeSLEB128 imm 0 @ rest)" and "s32 imm"
    and "\<And>q0 q t. (\<And>k. with_sleb ins n q0 t k = k (word_of_int imm) q) \<Longrightarrow>
      dispatch s ins n b q0 t = bindr (m t) (\<lambda>x. Ret (to_flow q x))"
  shows "decodes s ins n p rest m"
proof -
  from assms(1) obtain q0 where 0: "ReadByte ins p = Ret (b, q0)" "code_at ins n q0 (EncodeSLEB128 imm 0 @ rest)"
    by (rule code_at_Cons)
  from with_sleb_encode [OF 0(2)] assms(2) obtain q where "code_at ins n q rest"
    "\<And>t k. with_sleb ins n q0 t k = k (word_of_int imm) q" by (auto simp: s32_def)
  with 0 show ?thesis using assms(3) by (intro decodesI) (simp_all add: decode_byte_def dispatch_def)
qed

text \<open>Restoring a register.\<close>

lemma restore_exec:
  "restore s (cfa t - word_of_int imm) t (\<lambda>v. Ret (GoOn q (upd v))) =
   bindr (exec_restore s imm upd t) (\<lambda>x. Ret (to_flow q x))"
  by (cases "ReadStack s (cfa t - word_of_int imm)")
    (auto simp: restore_def exec_restore_def to_flow_def split: option.split)

lemma decodes_offset:
  assumes "code_at ins n p (encode_offset pre op imm @ rest)" and "imm AND 3 = 0" "s32 imm"
    and "\<And>k q t. 0 \<le> k \<Longrightarrow> k < 16 \<Longrightarrow> short_offset (4 * k) \<Longrightarrow> dispatch s ins n (pre OR word_of_int k) q t =
      restore s (cfa t - push_bit 2 (ucast (word_of_int k :: u8))) t (\<lambda>v. Ret (GoOn q (upd v t)))"
    and "\<And>q t. dispatch s ins n op q t = with_sleb ins n q t (\<lambda>val q. restore s (cfa t - val) t (\<lambda>v. kont q (upd v t)))"
    and "\<And>q t. (if short_offset imm then bindr (exec_restore s imm (\<lambda>v. upd v t) t) (\<lambda>x. Ret (to_flow q x))
       else restore s (cfa t - word_of_int imm) t (\<lambda>v. kont q (upd v t))) = bindr (m t) (\<lambda>x. Ret (to_flow q x))"
  shows "decodes s ins n p rest m"
proof (cases "short_offset imm")
  case True
  define k where "k = imm div 4"
  have imm: "imm = 4 * k" using imm4 [OF assms(2)] by (simp add: k_def)
  with True have k: "0 \<le> k" "k < 16" by (simp_all add: IMM_values short_offset_def)
  with True imm have e: "encode_offset pre op imm = [pre OR word_of_int k]"
    using FILL_short [of k 4 pre] by (simp add: encode_offset_def short_offset_def)
  show ?thesis
  proof (rule decodes_byte)
    show "code_at ins n p ((pre OR word_of_int k) # rest)" using assms(1) e by simp
    show "dispatch s ins n (pre OR word_of_int k) q t = bindr (m t) (\<lambda>x. Ret (to_flow q x))" for q t
      using assms(4) [OF k, of q t] assms(6) [of t q] True k restore_exec [of s t "4 * k" q "\<lambda>v. upd v t"]
      by (simp add: imm byte_times4)
  qed
next
  case False
  then have e: "encode_offset pre op imm = op # EncodeSLEB128 imm 0" by (auto simp: encode_offset_def short_offset_def)
  show ?thesis
  proof (rule decodes_sleb [OF _ assms(3)])
    show "code_at ins n p (op # EncodeSLEB128 imm 0 @ rest)" using assms(1) e by simp
  qed (use assms(5, 6) False in simp)
qed

lemmas decode_defs = dispatch_def decode_10_def decode_11_def qut_codes Let_def

lemma restore_x29:
  "(if short_offset imm then bindr (exec_restore s imm (\<lambda>v. t\<lparr>R29 := v\<rparr>) t) (\<lambda>x. Ret (to_flow q x))
    else restore s (cfa t - word_of_int imm) t (\<lambda>v.
      if R29 (t\<lparr>R29 := v\<rparr>) = 0 then Ret (Return QUT_ERROR_NONE (t\<lparr>R29 := v\<rparr>)) else Ret (GoOn q (t\<lparr>R29 := v\<rparr>)))) =
   bindr (exec1 s QUT_INSTRUCTION_X29_OFFSET imm t) (\<lambda>x. Ret (to_flow q x))"
  by (cases "ReadStack s (cfa t - word_of_int imm)")
    (auto simp: exec1_def qut_ops restore_def exec_restore_def to_flow_def split: option.split)

lemma decode_restores:
  assumes "imm AND 3 = 0" "s32 imm" and "code_at ins n p (bs @ rest)" and "encode_ins op imm = (True, bs)"
    and "op \<in> {QUT_INSTRUCTION_X20_OFFSET, QUT_INSTRUCTION_X28_OFFSET, QUT_INSTRUCTION_X29_OFFSET, QUT_INSTRUCTION_LR_OFFSET}"
  shows "decodes s ins n p rest (exec1 s op imm)"
proof -
  consider "op = QUT_INSTRUCTION_X20_OFFSET" | "op = QUT_INSTRUCTION_X28_OFFSET" | "op = QUT_INSTRUCTION_X29_OFFSET"
    | "op = QUT_INSTRUCTION_LR_OFFSET" using assms(5) by blast
  then show ?thesis
  proof cases
    case 1
    show ?thesis
    proof (rule decodes_offset [OF _ assms(1, 2), where kont = "\<lambda>q t. Ret (GoOn q t)" and upd = "\<lambda>v t. t\<lparr>R20 := v\<rparr>"])
      show "code_at ins n p (encode_offset QUT_INSTRUCTION_X20_OFFSET_OP_PREFIX QUT_INSTRUCTION_X20_OFFSET_SLEB128_OP imm @ rest)"
        using assms(3, 4) by (simp add: 1 encode_ins_def qut_ops)
      show "dispatch s ins n (QUT_INSTRUCTION_X20_OFFSET_OP_PREFIX OR word_of_int k) q t =
          restore s (cfa t - push_bit 2 (ucast (word_of_int k :: u8))) t (\<lambda>v. Ret (GoOn q (t\<lparr>R20 := v\<rparr>)))"
        if "0 \<le> k" "k < 16" for k q t
        using nibble [OF that, of "0xb0"] by (simp add: decode_defs)
    qed (simp_all add: decode_defs restore_exec 1 exec1_def qut_ops)
  next
    case 2
    show ?thesis
    proof (rule decodes_offset [OF _ assms(1, 2), where kont = "\<lambda>q t. Ret (GoOn q t)" and upd = "\<lambda>v t. t\<lparr>R28 := v\<rparr>"])
      show "code_at ins n p (encode_offset QUT_INSTRUCTION_X28_OFFSET_OP_PREFIX QUT_INSTRUCTION_X28_OFFSET_SLEB128_OP imm @ rest)"
        using assms(3, 4) by (simp add: 2 encode_ins_def qut_ops)
      show "dispatch s ins n (QUT_INSTRUCTION_X28_OFFSET_OP_PREFIX OR word_of_int k) q t =
          restore s (cfa t - push_bit 2 (ucast (word_of_int k :: u8))) t (\<lambda>v. Ret (GoOn q (t\<lparr>R28 := v\<rparr>)))"
        if "0 \<le> k" "k < 16" for k q t
        using nibble [OF that, of "0xc0"] by (simp add: decode_defs)
    qed (simp_all add: decode_defs restore_exec 2 exec1_def qut_ops)
  next
    case 3
    show ?thesis
    proof (rule decodes_offset [OF _ assms(1, 2), where kont = "\<lambda>q t. if R29 t = 0 then Ret (Return QUT_ERROR_NONE t) else Ret (GoOn q t)"
          and upd = "\<lambda>v t. t\<lparr>R29 := v\<rparr>"])
      show "code_at ins n p (encode_offset QUT_INSTRUCTION_X29_OFFSET_OP_PREFIX QUT_INSTRUCTION_X29_OFFSET_SLEB128_OP imm @ rest)"
        using assms(3, 4) by (simp add: 3 encode_ins_def qut_ops)
      show "dispatch s ins n (QUT_INSTRUCTION_X29_OFFSET_OP_PREFIX OR word_of_int k) q t =
          restore s (cfa t - push_bit 2 (ucast (word_of_int k :: u8))) t (\<lambda>v. Ret (GoOn q (t\<lparr>R29 := v\<rparr>)))"
        if "0 \<le> k" "k < 16" for k q t
        using nibble [OF that, of "0xd0"] by (simp add: decode_defs)
    qed (simp add: decode_defs, simp only: 3 restore_x29)
  next
    case 4
    show ?thesis
    proof (rule decodes_offset [OF _ assms(1, 2), where kont = "\<lambda>q t. Ret (GoOn q t)" and upd = "\<lambda>v t. t\<lparr>LR := v\<rparr>"])
      show "code_at ins n p (encode_offset QUT_INSTRUCTION_LR_OFFSET_OP_PREFIX QUT_INSTRUCTION_LR_OFFSET_SLEB128_OP imm @ rest)"
        using assms(3, 4) by (simp add: 4 encode_ins_def qut_ops)
      show "dispatch s ins n (QUT_INSTRUCTION_LR_OFFSET_OP_PREFIX OR word_of_int k) q t =
          restore s (cfa t - push_bit 2 (ucast (word_of_int k :: u8))) t (\<lambda>v. Ret (GoOn q (t\<lparr>LR := v\<rparr>)))"
        if "0 \<le> k" "k < 16" for k q t
        using nibble [OF that, of "0xe0"] by (simp add: decode_defs)
    qed (simp_all add: decode_defs restore_exec 4 exec1_def qut_ops)
  qed
qed

lemma decode_vsp_offset:
  assumes "imm AND 3 = 0" "s32 imm" and "code_at ins n p (bs @ rest)"
    and "encode_ins QUT_INSTRUCTION_VSP_OFFSET imm = (True, bs)"
    and "0 \<le> imm \<or> imm < - IMM 6 \<or> imm = - 128"
  shows "decodes s ins n p rest (exec1 s QUT_INSTRUCTION_VSP_OFFSET imm)"
proof -
  define k where "k = imm div 4"
  have imm: "imm = 4 * k" using imm4 [OF assms(1)] by (simp add: k_def)
  consider "0 < imm" "imm \<le> IMM 6" | "imm = 0" | "imm = - 128" | "\<not> (- IMM 6 \<le> imm \<and> imm \<le> IMM 6)"
    using assms(5) by (fastforce simp: IMM_values)
  then show ?thesis
  proof cases
    case 1
    then have k: "0 \<le> k" "k < 64" by (simp_all add: imm IMM_values)
    with 1 assms(4) imm FILL_short [of k 6 0] have "bs = [word_of_int k]"
      by (simp add: encode_ins_def IMM_values)
    with assms(3) k show ?thesis
      by (intro decodes_byte [of _ _ _ "word_of_int k"])
        (auto simp: dispatch_def byte_low6 byte_times4 exec1_def to_flow_def imm)
  next
    case 2
    with assms(4) have "bs = [0x40]" by (simp add: encode_ins_def IMM_values FILL_WITH_IMM_def)
    with assms(3) 2 show ?thesis
      by (intro decodes_byte [of _ _ _ "0x40"]) (auto simp: dispatch_def exec1_def to_flow_def)
  next
    case 3
    with assms(4) have "bs = [0x60]" by (simp add: encode_ins_def IMM_values FILL_WITH_IMM_def)
    with assms(3) 3 show ?thesis
      by (intro decodes_byte [of _ _ _ "0x60"]) (auto simp: dispatch_def exec1_def to_flow_def)
  next
    case 4
    with assms(4) have "bs = QUT_INSTRUCTION_VSP_OFFSET_SLEB128_OP # EncodeSLEB128 imm 0"
      by (auto simp: encode_ins_def)
    with assms(2, 3) show ?thesis
      by (intro decodes_sleb [of _ _ _ QUT_INSTRUCTION_VSP_OFFSET_SLEB128_OP imm])
        (auto simp: decode_defs exec1_def to_flow_def qut_ops)
  qed
qed

lemma decode_set_short:
  assumes "imm AND 3 = 0" and "code_at ins n p (b # FILL_WITH_IMM 0 imm 7 # rest)" and "0 \<le> imm" "imm \<le> IMM 7"
    and "\<And>k q0 q t. ReadByte ins q0 = Ret (word_of_int k, q) \<Longrightarrow> imm = 4 * k \<Longrightarrow> word_of_int k AND 0x7f = (word_of_int k :: u8) \<Longrightarrow>
      push_bit 2 (ucast (word_of_int k :: u8) :: u64) = word_of_int imm \<Longrightarrow>
      dispatch s ins n b q0 t = bindr (m t) (\<lambda>x. Ret (to_flow q x))"
  shows "decodes s ins n p rest m"
proof -
  define k where "k = imm div 4"
  have imm: "imm = 4 * k" using imm4 [OF assms(1)] by (simp add: k_def)
  with assms(3, 4) have k: "0 \<le> k" "k < 128" by (simp_all add: IMM_values)
  with assms(2) imm FILL_short [of k 7 0] show ?thesis
    by (intro decodes_two [of _ _ _ b "word_of_int k"] assms(5) [of _ k]) (auto simp: byte_low7 byte_times4)
qed

lemma decode_sets:
  assumes "imm AND 3 = 0" "s32 imm" and "code_at ins n p (bs @ rest)" and "encode_ins op imm = (True, bs)"
    and "op = QUT_INSTRUCTION_VSP_SET_BY_X29 \<and> 0 < imm \<and> imm \<le> IMM 7 \<or>
      op = QUT_INSTRUCTION_VSP_SET_BY_JNI_SP \<and> 0 \<le> imm \<and> imm \<le> IMM 7"
  shows "decodes s ins n p rest (exec1 s op imm)"
  using assms(5)
proof (elim disjE conjE)
  assume *: "op = QUT_INSTRUCTION_VSP_SET_BY_X29" "0 < imm" "imm \<le> IMM 7"
  with assms(4) have "bs = [QUT_INSTRUCTION_VSP_SET_BY_X29_IMM_OP, FILL_WITH_IMM 0 imm 7]"
    by (simp add: encode_ins_def qut_ops)
  with assms(1, 3) * show ?thesis
    by (intro decode_set_short [of imm _ _ _ QUT_INSTRUCTION_VSP_SET_BY_X29_IMM_OP])
      (auto simp: decode_defs exec1_def to_flow_def qut_ops)
next
  assume *: "op = QUT_INSTRUCTION_VSP_SET_BY_JNI_SP" "0 \<le> imm" "imm \<le> IMM 7"
  with assms(4) have "bs = [QUT_INSTRUCTION_VSP_SET_BY_JNI_SP_OP, FILL_WITH_IMM 0 imm 7]"
    by (simp add: encode_ins_def qut_ops)
  with assms(1, 3) * show ?thesis
    by (intro decode_set_short [of imm _ _ _ QUT_INSTRUCTION_VSP_SET_BY_JNI_SP_OP])
      (auto simp: decode_defs exec1_def to_flow_def qut_ops)
qed

lemma decode_others:
  assumes "s32 imm" and "code_at ins n p (bs @ rest)" and "encode_ins op imm = (True, bs)"
    and "op \<in> {QUT_INSTRUCTION_VSP_SET_IMM, QUT_INSTRUCTION_DEX_PC_SET, QUT_END_OF_INS, QUT_FIN,
      QUT_INSTRUCTION_SP_OFFSET, QUT_INSTRUCTION_PC_OFFSET}"
  shows "decodes s ins n p rest (exec1 s op imm)"
  using assms(4)
proof (elim insertE emptyE)
  assume *: "op = QUT_INSTRUCTION_VSP_SET_IMM"
  with assms show ?thesis
    by (intro decodes_sleb [of _ _ _ QUT_INSTRUCTION_VSP_SET_IMM_OP imm])
      (auto simp: encode_ins_def decode_defs exec1_def to_flow_def qut_ops)
next
  assume *: "op = QUT_INSTRUCTION_DEX_PC_SET"
  with assms show ?thesis
    by (intro decodes_byte [of _ _ _ QUT_INSTRUCTION_DEX_PC_SET_OP])
      (auto simp: encode_ins_def decode_defs exec1_def to_flow_def qut_ops)
next
  assume *: "op = QUT_END_OF_INS"
  with assms show ?thesis
    by (intro decodes_byte [of _ _ _ QUT_END_OF_INS_OP])
      (auto simp: encode_ins_def decode_defs exec1_def to_flow_def qut_ops)
next
  assume *: "op = QUT_FIN"
  with assms show ?thesis
    by (intro decodes_byte [of _ _ _ QUT_FINISH_OP])
      (auto simp: encode_ins_def decode_defs exec1_def to_flow_def qut_ops)
next
  assume *: "op = QUT_INSTRUCTION_SP_OFFSET"
  with assms show ?thesis
    by (intro decodes_sleb [of _ _ _ QUT_INSTRUCTION_SP_OFFSET_SLEB128_OP imm])
      (auto simp: encode_ins_def decode_defs exec1_def qut_ops restore_exec)
next
  assume *: "op = QUT_INSTRUCTION_PC_OFFSET"
  with assms show ?thesis
    by (intro decodes_sleb [of _ _ _ QUT_INSTRUCTION_PC_OFFSET_SLEB128_OP imm])
      (auto simp: encode_ins_def decode_defs exec1_def qut_ops restore_exec)
qed

section \<open>Sequences\<close>

lemma s32_ins_imm: "s32 (ins_imm x)"
  using sint_range_size [of "ucast x :: u32"] by (simp add: s32_def ins_imm_def word_size)

lemma known_or_empty:
  "op \<in> {QUT_INSTRUCTION_VSP_OFFSET, QUT_INSTRUCTION_VSP_SET_BY_X29, QUT_INSTRUCTION_VSP_SET_BY_JNI_SP} \<or>
   op \<in> {QUT_INSTRUCTION_X20_OFFSET, QUT_INSTRUCTION_X28_OFFSET, QUT_INSTRUCTION_X29_OFFSET, QUT_INSTRUCTION_LR_OFFSET} \<or>
   op \<in> {QUT_INSTRUCTION_VSP_SET_IMM, QUT_INSTRUCTION_DEX_PC_SET, QUT_END_OF_INS, QUT_FIN,
      QUT_INSTRUCTION_SP_OFFSET, QUT_INSTRUCTION_PC_OFFSET} \<or>
   encode_ins op imm = (True, []) \<and> exec1 s op imm t = Ret (None, t)"
  by (simp add: encode_ins_def exec1_def)

lemma sleb_encode_nonempty [simp]: "sleb_encode v \<noteq> []"
  by (simp add: sleb_encode.simps [of v])

lemma loop_step:
  assumes "code_at ins n p (bs @ rest)" "bs \<noteq> []" and "decodes s ins n p rest m"
    and "\<And>q t. code_at ins n q rest \<Longrightarrow> Decode64_loop s ins n q t = exec s is t"
  shows "Decode64_loop s ins n p t = bindr (m t) (\<lambda>(r, t). case r of None \<Rightarrow> exec s is t | Some e \<Rightarrow> Ret (e, t))"
proof -
  have "fst p < n" using assms(2) by (intro code_at_more [OF assms(1)]) simp
  moreover from assms(3) obtain q where q: "code_at ins n q rest"
    "decode_byte s ins n p t = bindr (m t) (\<lambda>x. Ret (to_flow q x))" unfolding decodes_def by blast
  moreover have "(case to_flow q x of GoOn q t \<Rightarrow> Decode64_loop s ins n q t | Return code t \<Rightarrow> Ret (code, t)) =
      (case x of (r, t) \<Rightarrow> case r of None \<Rightarrow> exec s is t | Some e \<Rightarrow> Ret (e, t))" for x
    using assms(4) [OF q(1)] by (cases x) (simp add: to_flow_def split: option.split)
  ultimately show ?thesis by (subst Decode64_loop.simps) (simp add: bindr_assoc)
qed

text \<open>The prologue has the effect of the four instructions it replaces.\<close>

lemma prologue_exec:
  assumes "code_at ins n p (QUT_INSTRUCTION_VSP_SET_BY_X29_PROLOGUE_OP # rest)"
    and "ins_op x = QUT_INSTRUCTION_VSP_SET_BY_X29" "ins_imm x = 0" "have_prologue (a # b # c # is)" "ins_imm a = 16"
    and "\<And>q t. code_at ins n q rest \<Longrightarrow> Decode64_loop s ins n q t = exec s is t"
  shows "Decode64_loop s ins n p t = exec s (x # a # b # c # is) t"
proof -
  let ?m = "\<lambda>t. bindr (exec_restore s 8 (\<lambda>v. t\<lparr>cfa := R29 t + 16, LR := v\<rparr>) (t\<lparr>cfa := R29 t + 16\<rparr>)) (\<lambda>(r, t).
      case r of None \<Rightarrow> exec_restore s 16 (\<lambda>v. t\<lparr>R29 := v\<rparr>) t | Some e \<Rightarrow> Ret (Some e, t))"
  have "decodes s ins n p rest ?m"
  proof (rule decodes_byte [OF assms(1)])
    fix q t
    show "dispatch s ins n QUT_INSTRUCTION_VSP_SET_BY_X29_PROLOGUE_OP q t = bindr (?m t) (\<lambda>x. Ret (to_flow q x))"
      by (cases "ReadStack s (8 + R29 t)"; cases "ReadStack s (R29 t)")
        (auto simp: decode_defs restore_def exec_restore_def to_flow_def split: option.split)
  qed
  from loop_step [OF _ _ this assms(6), of "[QUT_INSTRUCTION_VSP_SET_BY_X29_PROLOGUE_OP]" t] assms(1)
  have "Decode64_loop s ins n p t = bindr (?m t) (\<lambda>(r, t). case r of None \<Rightarrow> exec s is t | Some e \<Rightarrow> Ret (e, t))"
    by simp
  also have "\<dots> = exec s (x # a # b # c # is) t"
    using assms(2-5)
    by (cases "ReadStack s (8 + R29 t)"; cases "ReadStack s (R29 t)")
      (auto simp: exec1_def qut_ops exec_restore_def short_offset_def IMM_values split: option.split)
  finally show ?thesis .
qed

lemma encode_ins_goes_on: "(op = QUT_INSTRUCTION_VSP_SET_BY_JNI_SP \<longrightarrow> imm \<le> IMM 7) \<Longrightarrow> fst (encode_ins op imm)"
  by (simp add: encode_ins_def)

lemma encode_ins_nonempty:
  "encode_ins op imm = (True, bs) \<Longrightarrow> bs = [] \<Longrightarrow> exec1 s op imm t = Ret (None, t)"
  using known_or_empty [of op imm s t]
  by (elim disjE insertE emptyE conjE) (simp_all add: encode_ins_def qut_ops encode_offset_def split: if_splits)

definition padding :: "u8 list \<Rightarrow> bool" where
  "padding bs \<longleftrightarrow> bs = [] \<or> hd bs = QUT_END_OF_INS_OP"

lemma loop_padding:
  assumes "code_at ins n p bs" "padding bs"
  shows "Decode64_loop s ins n p t = Ret (QUT_ERROR_NONE, t)"
proof (cases bs)
  case Nil
  with assms code_at_Nil show ?thesis by (subst Decode64_loop.simps) auto
next
  case (Cons b rest)
  with assms have "code_at ins n p ([QUT_END_OF_INS_OP] @ rest)" by (simp add: padding_def)
  then obtain q where "ReadByte ins p = Ret (QUT_END_OF_INS_OP, q)" "fst p < n" by (auto elim: code_at_Cons)
  then show ?thesis by (subst Decode64_loop.simps) (simp add: decode_byte_def decode_10_def qut_codes)
qed

lemma encodes_one:
  assumes "encodable (x # xs)" "\<not> (ins_op x = QUT_INSTRUCTION_VSP_SET_BY_X29 \<and> ins_imm x = 0)"
    and "encode_ins (ins_op x) (ins_imm x) = (True, bs)" "bs \<noteq> []" "code_at ins n p (bs @ rest)"
  shows "decodes s ins n p rest (exec1 s (ins_op x) (ins_imm x))"
proof -
  let ?op = "ins_op x" and ?imm = "ins_imm x"
  have al: "?imm AND 3 = 0" using assms(1) by simp
  note known = known_or_empty [of ?op ?imm s undefined]
  consider "?op = QUT_INSTRUCTION_VSP_OFFSET"
    | "?op \<in> {QUT_INSTRUCTION_VSP_SET_BY_X29, QUT_INSTRUCTION_VSP_SET_BY_JNI_SP}"
    | "?op \<in> {QUT_INSTRUCTION_X20_OFFSET, QUT_INSTRUCTION_X28_OFFSET, QUT_INSTRUCTION_X29_OFFSET, QUT_INSTRUCTION_LR_OFFSET}"
    | "?op \<in> {QUT_INSTRUCTION_VSP_SET_IMM, QUT_INSTRUCTION_DEX_PC_SET, QUT_END_OF_INS, QUT_FIN,
      QUT_INSTRUCTION_SP_OFFSET, QUT_INSTRUCTION_PC_OFFSET}"
    using known assms(3, 4) by auto
  then show ?thesis
  proof cases
    case 1
    with decode_vsp_offset [OF al s32_ins_imm assms(5)] assms(1, 3) show ?thesis by simp
  next
    case 2
    then show ?thesis using decode_sets [OF al s32_ins_imm assms(5, 3)] assms(1, 2) by force
  next
    case 3
    then show ?thesis by (rule decode_restores [OF al s32_ins_imm assms(5, 3)])
  next
    case 4
    then show ?thesis by (rule decode_others [OF s32_ins_imm assms(5, 3)])
  qed
qed

lemma decode_encode:
  assumes "encodable is" "code_at ins n p (snd (QuickenInstructionsEncode64 is) @ pad)" "padding pad"
  shows "Decode64_loop s ins n p t = exec s is t"
  using assms(1, 2)
proof (induction "is" arbitrary: p t rule: QuickenInstructionsEncode64.induct)
  case 1
  with assms(3) show ?case by (simp add: loop_padding)
next
  case (2 x xs)
  let ?op = "ins_op x" and ?imm = "ins_imm x"
  have al: "\<not> ?imm AND 3 \<noteq> 0" and wf: "encodable xs" using 2(4) by simp_all
  show ?case
  proof (cases "?op = QUT_INSTRUCTION_VSP_SET_BY_X29 \<and> ?imm = 0")
    case set: True
    show ?thesis
    proof (cases "have_prologue xs")
      case True
      then obtain a b c ys where xs: "xs = a # b # c # ys" by (auto elim: have_prologue.elims)
      show ?thesis unfolding xs
      proof (rule prologue_exec)
        show "code_at ins n p (QUT_INSTRUCTION_VSP_SET_BY_X29_PROLOGUE_OP #
            snd (QuickenInstructionsEncode64 (drop 3 xs)) @ pad)"
          using 2(5) al set True by (simp add: QuickenInstructionsEncode64.simps Let_def)
        show "Decode64_loop s ins n q t = exec s ys t"
          if "code_at ins n q (snd (QuickenInstructionsEncode64 (drop 3 xs)) @ pad)" for q t
          using 2(1) [OF refl refl al set True _ that, of t] wf by (simp add: xs)
      qed (use set True 2(4) xs in auto)
    next
      case False
      have c: "code_at ins n p ([QUT_INSTRUCTION_VSP_SET_BY_X29_OP] @ snd (QuickenInstructionsEncode64 xs) @ pad)"
        using 2(5) al set False by (simp add: QuickenInstructionsEncode64.simps Let_def)
      then have "decodes s ins n p (snd (QuickenInstructionsEncode64 xs) @ pad) (exec1 s ?op ?imm)"
        using set by (intro decodes_byte [of _ _ _ QUT_INSTRUCTION_VSP_SET_BY_X29_OP])
          (auto simp: decode_defs exec1_def to_flow_def qut_ops)
      with loop_step [OF c _ this 2(2) [OF refl refl al set False wf]] show ?thesis by simp
    qed
  next
    case set: False
    obtain bs where e: "encode_ins ?op ?imm = (True, bs)"
      using encode_ins_goes_on [of ?op ?imm] 2(4) by (cases "encode_ins ?op ?imm") auto
    have c: "code_at ins n p (bs @ snd (QuickenInstructionsEncode64 xs) @ pad)"
      using 2(5) al set e by (auto simp: QuickenInstructionsEncode64.simps Let_def)
    note IH = 2(3) [OF refl refl al set e [symmetric] TrueI wf]
    show ?thesis
    proof (cases "bs = []")
      case True
      then show ?thesis using IH c encode_ins_nonempty [OF e True] by simp
    next
      case False
      with loop_step [OF c False encodes_one [OF 2(4) set e False c] IH] show ?thesis by simp
    qed
  qed
qed

end
