(* ===== verification/QutPack.thy ===== *)
theory QutPack
  imports QutExec
begin

text \<open>
  \<open>QuickenTableGenerator.cpp\<close> of \<open>libwechatbacktrace\<close>, 64-bit: the table that the instructions of a library are
  packed into, and the merging of the instructions of two sources. The entries are kept by
  their start, in order, each with its end and its instructions.
\<close>

type_synonym entries = "(u64 \<times> u64 \<times> u64 list) list"

section \<open>Packing\<close>

definition encode_entry :: "u64 list \<Rightarrow> u8 list" where
  "encode_entry is = (case QuickenInstructionsEncode64 is of (ok, bs) \<Rightarrow> if ok then bs else bs @ [QUT_END_OF_INS_OP])"

definition instr_tbl_count :: "u8 list list \<Rightarrow> nat" where
  "instr_tbl_count bss = sum_list (map (\<lambda>bs. if length bs > QUT_TBL_ROW_SIZE
     then (length bs + QUT_TBL_ROW_SIZE) div (QUT_TBL_ROW_SIZE + 1) else 0) bss)"

text \<open>A byte of an entry, with \<open>QUT_END_OF_INS\<close> behind the last one.\<close>

definition byte_or_end :: "u8 list \<Rightarrow> nat \<Rightarrow> u64" where
  "byte_or_end bs i = (if length bs > i then ucast (bs ! i) else ucast QUT_END_OF_INS_OP)"

definition compact :: "u8 list \<Rightarrow> u64" where
  "compact bs = foldl (\<lambda>w i. w OR push_bit ((QUT_TBL_ROW_SIZE - 1 - i) * 8) (byte_or_end bs i))
     (push_bit (QUT_TBL_ROW_SIZE * 8) 0x80) [0..<QUT_TBL_ROW_SIZE]"

definition size_ceil :: "nat \<Rightarrow> nat" where
  "size_ceil n = (n + QUT_TBL_ROW_SIZE) AND (0xffffffff - QUT_TBL_ROW_SIZE)"

text \<open>The loop over the bytes of a long entry: the row so far and the rows of the table. A store past the end of
  the table is undefined.\<close>

fun pack_rows :: "u8 list \<Rightarrow> nat \<Rightarrow> nat list \<Rightarrow> u64 \<Rightarrow> u64 list \<Rightarrow> u64 list run" where
  "pack_rows bs cap [] row tbl = Ret tbl"
| "pack_rows bs cap (i # is) row tbl =
     (let left_shift = (QUT_TBL_ROW_SIZE - i mod (QUT_TBL_ROW_SIZE + 1)) * 8;
          row = row OR push_bit left_shift (byte_or_end bs i) in
      if left_shift = 0 then if \<not> length tbl < cap then Undef else pack_rows bs cap is 0 (tbl @ [row])
      else pack_rows bs cap is row tbl)"

text \<open>One entry: the two words of the index and the table afterwards.\<close>

definition pack_entry :: "nat \<Rightarrow> u64 \<Rightarrow> u8 list \<Rightarrow> u64 list \<Rightarrow> (u64 list \<times> u64 list) run" where
  "pack_entry cap entry_point bs tbl =
     (if length bs \<le> QUT_TBL_ROW_SIZE then Ret ([entry_point, compact bs], tbl)
      else bindr (pack_rows bs cap [0..<size_ceil (length bs)] 0 tbl) (\<lambda>tbl'.
        let row_count = length tbl' - length tbl in
        if \<not> row_count \<le> 0x7f \<or> \<not> length tbl \<le> 0xffffff then Abort
        else Ret ([entry_point, push_bit (QUT_TBL_ROW_SIZE * 8) (of_nat row_count AND 0x7f) OR of_nat (length tbl) AND 0xffffff], tbl')))"

fun pack_entries :: "nat \<Rightarrow> nat \<Rightarrow> (u64 \<times> u8 list) list \<Rightarrow> u64 list \<Rightarrow> u64 list \<Rightarrow> (u64 list \<times> u64 list) run" where
  "pack_entries icap cap [] idx tbl = Ret (idx, tbl)"
| "pack_entries icap cap ((entry_point, bs) # es) idx tbl =
     (if \<not> length idx + 2 \<le> icap then Undef
      else bindr (pack_entry cap entry_point bs tbl) (\<lambda>(ws, tbl).
        if \<not> length (idx @ ws) \<le> icap \<or> \<not> length tbl \<le> cap then Abort
        else pack_entries icap cap es (idx @ ws) tbl))"

definition PackEntriesToQutSections :: "entries \<Rightarrow> QutSections run" where
  "PackEntriesToQutSections entries =
     (let entries_encoded = map (\<lambda>(start, _, is). (start, encode_entry is)) entries;
          temp_idx_capacity = length entries_encoded * 2;
          temp_tbl_capacity = instr_tbl_count (map snd entries_encoded)
      in bindr (pack_entries temp_idx_capacity temp_tbl_capacity entries_encoded [] []) (\<lambda>(idx, tbl).
        Ret \<lparr>quidx = idx, qutbl = tbl, idx_size = length idx, tbl_size = length tbl,
             idx_capacity = temp_idx_capacity, tbl_capacity = temp_tbl_capacity\<rparr>))"

section \<open>Rows\<close>

definition row_word :: "(nat \<Rightarrow> u8) \<Rightarrow> u64" where
  "row_word f = foldl (\<lambda>w i. w OR push_bit ((7 - i) * 8) (ucast (f i))) 0 [0..<8]"

lemma upt8: "[0..<8] = [0, 1, 2, 3, 4, 5, 6, 7 :: nat]" and upt7: "[0..<7] = [0, 1, 2, 3, 4, 5, 6 :: nat]"
  by (simp_all add: upt_rec)

lemma row_word_byte:
  assumes "j < 8"
  shows "ucast (drop_bit (8 * j) (row_word f)) = f (7 - j)"
proof (rule bit_word_eqI)
  fix n
  assume "n < LENGTH(8)"
  then have n: "n < 8" by simp
  have j: "j = 0 \<or> j = 1 \<or> j = 2 \<or> j = 3 \<or> j = 4 \<or> j = 5 \<or> j = 6 \<or> j = 7" using assms by linarith
  have big: "\<not> bit (f i) m" if "8 \<le> m" for i m using that by (simp add: bit_imp_le_length not_less impossible_bit)
  from j n show "bit (ucast (drop_bit (8 * j) (row_word f)) :: u8) n \<longleftrightarrow> bit (f (7 - j)) n"
    by (elim disjE) (simp_all add: row_word_def upt8 bit_ucast_word bit_drop_bit_eq bit_or_iff bit_push_bit_iff big)
qed

lemma row_bytes_row_word: "row_bytes [row_word f] = map f [0..<8]"
  using row_word_byte [of 0 f] row_word_byte [of 1 f] row_word_byte [of 2 f] row_word_byte [of 3 f]
    row_word_byte [of 4 f] row_word_byte [of 5 f] row_word_byte [of 6 f] row_word_byte [of 7 f]
  by (simp add: row_bytes_def upt8)

lemma upt_shift: "[a..<a + n] = map ((+) a) [0..<n]" for a :: nat
  by (intro nth_equalityI) auto

lemma upt_rows: "[8 * r..<8 * (r + Suc m)] = [8 * r..<8 * r + 8] @ [8 * Suc r..<8 * (Suc r + m)]"
proof -
  have "8 * (r + Suc m) = 8 * r + 8 + 8 * m" "8 * Suc r = 8 * r + 8" "8 * (Suc r + m) = 8 * r + 8 + 8 * m" by simp_all
  then show ?thesis by (simp only: upt_add_eq_append [OF le_add1])
qed

lemma row_bytes_Cons: "row_bytes (w # ws) = row_bytes [w] @ row_bytes ws"
  by (simp add: row_bytes_def)

definition entry_byte :: "u8 list \<Rightarrow> nat \<Rightarrow> u8" where
  "entry_byte bs i = (if i < length bs then bs ! i else QUT_END_OF_INS_OP)"

lemma byte_or_end_eq: "byte_or_end bs i = ucast (entry_byte bs i)"
  by (simp add: byte_or_end_def entry_byte_def)

lemma entry_bytes:
  assumes "length bs \<le> n"
  shows "\<exists>pad. map (entry_byte bs) [0..<n] = bs @ pad \<and> padding pad"
proof (intro exI conjI)
  show "map (entry_byte bs) [0..<n] = bs @ replicate (n - length bs) QUT_END_OF_INS_OP"
    using assms by (intro nth_equalityI) (auto simp: entry_byte_def nth_append)
  show "padding (replicate (n - length bs) QUT_END_OF_INS_OP)"
    by (cases "n - length bs") (simp_all add: padding_def)
qed

definition entry_row :: "u8 list \<Rightarrow> nat \<Rightarrow> u64" where
  "entry_row bs r = row_word (\<lambda>i. entry_byte bs (8 * r + i))"

lemma pack_rows_block:
  assumes "length tbl < cap"
  shows "pack_rows bs cap ([8 * r..<8 * r + 8] @ is) 0 tbl = pack_rows bs cap is 0 (tbl @ [entry_row bs r])"
proof -
  have "[8 * r..<8 * r + 8] = map ((+) (8 * r)) [0..<8]" by (rule upt_shift)
  also have "\<dots> = [8 * r, 8 * r + 1, 8 * r + 2, 8 * r + 3, 8 * r + 4, 8 * r + 5, 8 * r + 6, 8 * r + 7]"
    by (simp add: upt8)
  finally have e: "[8 * r..<8 * r + 8] = \<dots>" .
  have "Suc (Suc (8 * r)) mod 8 = 2" by presburger
  with e show ?thesis using assms
    by (simp add: Let_def QUT_TBL_ROW_SIZE_def byte_or_end_eq entry_row_def row_word_def upt8)
qed

lemma pack_rows_spec:
  "length tbl + m \<le> cap \<Longrightarrow>
   pack_rows bs cap [8 * r..<8 * (r + m)] 0 tbl = Ret (tbl @ map (entry_row bs) [r..<r + m])"
proof (induction m arbitrary: r tbl)
  case (Suc m)
  show ?case unfolding upt_rows
    using Suc.prems Suc.IH [of "tbl @ [entry_row bs r]" "Suc r"] by (simp add: pack_rows_block upt_rec [of r])
qed simp

lemma row_bytes_entry_rows: "row_bytes (map (entry_row bs) [r..<r + m]) = map (entry_byte bs) [8 * r..<8 * (r + m)]"
proof (induction m arbitrary: r)
  case (Suc m)
  have e: "map (entry_byte bs) [8 * r..<8 * r + 8] = map (\<lambda>i. entry_byte bs (8 * r + i)) [0..<8]"
    by (simp only: upt_shift [of "8 * r" 8] map_map comp_def)
  have "[r..<r + Suc m] = r # [Suc r..<Suc r + m]" by (simp add: upt_rec)
  then have "row_bytes (map (entry_row bs) [r..<r + Suc m]) =
      row_bytes [entry_row bs r] @ row_bytes (map (entry_row bs) [Suc r..<Suc r + m])"
    by (simp only: list.map row_bytes_Cons [of "entry_row bs r" "map (entry_row bs) [Suc r..<Suc r + m]"])
  also have "\<dots> = map (entry_byte bs) [8 * r..<8 * r + 8] @ map (entry_byte bs) [8 * Suc r..<8 * (Suc r + m)]"
    by (simp only: Suc.IH [of "Suc r"] e entry_row_def row_bytes_row_word)
  also have "\<dots> = map (entry_byte bs) [8 * r..<8 * (r + Suc m)]" by (simp only: upt_rows map_append)
  finally show ?case .
qed (simp add: row_bytes_def)

section \<open>What an entry is packed into\<close>

definition rows_of :: "u8 list \<Rightarrow> nat" where
  "rows_of bs = (length bs + 7) div 8"

lemma and_shifted_mask: "m AND push_bit k (mask n) = 2 ^ k * take_bit n (m div 2 ^ k)" for m :: nat
proof -
  have "m AND push_bit k (mask n) = push_bit k (take_bit n (drop_bit k m))"
    by (rule bit_eqI) (auto simp: bit_and_iff bit_push_bit_iff bit_take_bit_iff bit_drop_bit_eq bit_mask_iff)
  then show ?thesis by (simp add: push_bit_eq_mult drop_bit_eq_div mult.commute)
qed

lemma size_ceil_rows:
  assumes "n + 7 < 2 ^ 32"
  shows "size_ceil n = 8 * ((n + 7) div 8)"
proof -
  have "(0xfffffff8 :: nat) = push_bit 3 (mask 29)" by (simp add: mask_eq_exp_minus_1 push_bit_eq_mult)
  then have "size_ceil n = 8 * take_bit 29 ((n + 7) div 8)"
    using and_shifted_mask [of "n + 7" 3 29] by (simp add: size_ceil_def QUT_TBL_ROW_SIZE_def)
  also have "take_bit 29 ((n + 7) div 8) = (n + 7) div 8" using assms by (simp add: take_bit_nat_eq_self_iff less_mult_imp_div_less)
  finally show ?thesis .
qed

definition table_cmd :: "nat \<Rightarrow> nat \<Rightarrow> u64" where
  "table_cmd off m = push_bit 56 (of_nat m AND 0x7f) OR of_nat off AND 0xffffff"

text \<open>The second word of the index of an entry, in a table.\<close>

definition stored :: "u64 list \<Rightarrow> u64 \<Rightarrow> u8 list \<Rightarrow> bool" where
  "stored tbl cmd bs \<longleftrightarrow>
     (if length bs \<le> 7 then cmd = compact bs
      else \<exists>off. cmd = table_cmd off (rows_of bs) \<and> off \<le> 0xffffff \<and> rows_of bs \<le> 0x7f \<and>
        off + rows_of bs \<le> length tbl \<and> take (rows_of bs) (drop off tbl) = map (entry_row bs) [0..<rows_of bs])"

lemma stored_append: "stored tbl cmd bs \<Longrightarrow> stored (tbl @ new) cmd bs"
proof (cases "length bs \<le> 7")
  case False
  assume "stored tbl cmd bs"
  with False obtain off where "cmd = table_cmd off (rows_of bs)" "off \<le> 0xffffff" "rows_of bs \<le> 0x7f"
    "off + rows_of bs \<le> length tbl" "take (rows_of bs) (drop off tbl) = map (entry_row bs) [0..<rows_of bs]"
    by (auto simp: stored_def)
  with False show ?thesis unfolding stored_def by (auto intro!: exI [of _ off])
qed (simp add: stored_def)

lemma pack_entry_spec:
  assumes "length tbl + (if length bs \<le> 7 then 0 else rows_of bs) \<le> cap" "cap \<le> 0xffffff" "length bs \<le> 1016"
  obtains cmd new where "pack_entry cap ep bs tbl = Ret ([ep, cmd], tbl @ new)" "stored (tbl @ new) cmd bs"
    "length new = (if length bs \<le> 7 then 0 else rows_of bs)"
proof (cases "length bs \<le> 7")
  case True
  then show thesis using that [of "compact bs" "[]"] by (simp add: pack_entry_def QUT_TBL_ROW_SIZE_def stored_def)
next
  case False
  let ?m = "rows_of bs"
  from assms(3) have m: "?m \<le> 0x7f" by (simp add: rows_of_def) 
  have "size_ceil (length bs) = 8 * ?m" using assms(3) size_ceil_rows [of "length bs"] by (simp add: rows_of_def)
  then have "pack_rows bs cap [0..<size_ceil (length bs)] 0 tbl = Ret (tbl @ map (entry_row bs) [0..<?m])"
    using pack_rows_spec [of tbl ?m cap bs 0] assms(1) False by simp
  with False m assms(1, 2) show thesis
    by (intro that [of "table_cmd (length tbl) ?m" "map (entry_row bs) [0..<?m]"])
      (auto simp: pack_entry_def QUT_TBL_ROW_SIZE_def table_cmd_def stored_def Let_def intro!: exI [of _ "length tbl"])
qed

lemma pack_entries_spec:
  assumes "length idx + 2 * length es \<le> icap" "length tbl + instr_tbl_count (map snd es) \<le> cap" "cap \<le> 0xffffff"
    "\<forall>bs \<in> set (map snd es). length bs \<le> 1016"
  shows "\<exists>idx' new. pack_entries icap cap es idx tbl = Ret (idx @ idx', tbl @ new) \<and> length idx' = 2 * length es \<and>
    length new = instr_tbl_count (map snd es) \<and>
    (\<forall>k < length es. idx' ! (2 * k) = fst (es ! k) \<and> stored (tbl @ new) (idx' ! Suc (2 * k)) (snd (es ! k)))"
  using assms
proof (induction es arbitrary: idx tbl)
  case (Cons e es)
  obtain ep bs where e: "e = (ep, bs)" by force
  have c: "instr_tbl_count (map snd (e # es)) = (if length bs \<le> 7 then 0 else rows_of bs) + instr_tbl_count (map snd es)"
    by (simp add: e instr_tbl_count_def QUT_TBL_ROW_SIZE_def rows_of_def)
  with Cons.prems have "length tbl + (if length bs \<le> 7 then 0 else rows_of bs) \<le> cap" "length bs \<le> 1016"
    by (auto simp: e)
  from pack_entry_spec [OF this(1) Cons.prems(3) this(2), of ep] obtain cmd new0 where
    p: "pack_entry cap ep bs tbl = Ret ([ep, cmd], tbl @ new0)" "stored (tbl @ new0) cmd bs"
      "length new0 = (if length bs \<le> 7 then 0 else rows_of bs)" by blast
  have "length (idx @ [ep, cmd]) + 2 * length es \<le> icap" "length (tbl @ new0) + instr_tbl_count (map snd es) \<le> cap"
    using Cons.prems c p(3) by auto
  from Cons.IH [OF this Cons.prems(3)] Cons.prems(4) obtain idx' new where
    r: "pack_entries icap cap es (idx @ [ep, cmd]) (tbl @ new0) = Ret ((idx @ [ep, cmd]) @ idx', (tbl @ new0) @ new)"
      "length idx' = 2 * length es" "length new = instr_tbl_count (map snd es)"
      "\<And>k. k < length es \<Longrightarrow> idx' ! (2 * k) = fst (es ! k) \<and> stored ((tbl @ new0) @ new) (idx' ! Suc (2 * k)) (snd (es ! k))"
    by auto
  show ?case
  proof (intro exI conjI allI impI)
    show "pack_entries icap cap (e # es) idx tbl = Ret (idx @ (ep # cmd # idx'), tbl @ (new0 @ new))"
      using r(1) p(1, 3) c Cons.prems(1, 2) by (simp add: e)
    show "length (new0 @ new) = instr_tbl_count (map snd (e # es))" using r(3) p(3) c by simp
    fix k
    assume "k < length (e # es)"
    then show "(ep # cmd # idx') ! (2 * k) = fst ((e # es) ! k)"
      "stored (tbl @ new0 @ new) ((ep # cmd # idx') ! Suc (2 * k)) (snd ((e # es) ! k))"
      using r(4) [of "k - 1"] p(2) stored_append [of "tbl @ new0" cmd bs new] by (cases k; simp add: e)+
  qed (use r(2) in simp)
qed (simp add: instr_tbl_count_def)

section \<open>Evaluating a packed entry\<close>

lemma compact_row: "compact bs = row_word (\<lambda>i. if i = 0 then 0x80 else entry_byte bs (i - 1))"
  by (simp add: compact_def row_word_def upt7 upt8 QUT_TBL_ROW_SIZE_def byte_or_end_eq)

lemma compact_flag: "drop_bit 63 (compact bs) \<noteq> 0"
proof
  assume "drop_bit 63 (compact bs) = 0"
  then have "\<not> bit (drop_bit 63 (compact bs)) 0" by simp
  then have "\<not> bit (compact bs) 63" by (simp only: bit_drop_bit_eq comp_apply add_0_right not_False_eq_True)
  moreover have "(ucast (drop_bit 56 (compact bs)) :: u8) = 0x80"
    using row_word_byte [of 7 "\<lambda>i. if i = 0 then 0x80 else entry_byte bs (i - 1)"] by (simp add: compact_row)
  then have "bit (ucast (drop_bit 56 (compact bs)) :: u8) 7" by simp
  then have "bit (compact bs) 63" by (simp add: bit_ucast_word bit_drop_bit_eq)
  ultimately show False by simp
qed

lemma compact_code: "length bs \<le> 7 \<Longrightarrow> \<exists>pad. code_at [compact bs] 1 (0, 6) (bs @ pad) \<and> padding pad"
proof -
  assume "length bs \<le> 7"
  from entry_bytes [OF this] obtain pad where pad: "map (entry_byte bs) [0..<7] = bs @ pad" "padding pad" by blast
  have "row_bytes [compact bs] = 0x80 # map (entry_byte bs) [0..<7]"
    unfolding compact_row row_bytes_row_word by (simp add: upt8 upt7)
  with pad show ?thesis by (auto simp: code_at_def)
qed

lemma table_cmd_fields:
  assumes "m \<le> 0x7f" "off \<le> 0xffffff"
  shows "drop_bit 63 (table_cmd off m) = 0" "unat (drop_bit 56 (table_cmd off m) AND 0x7f) = m"
    "unat (table_cmd off m AND 0xffffff) = off"
proof -
  have m7: "(0x7f :: u64) = mask 7" and m24: "(0xffffff :: u64) = mask 24" by (simp_all add: mask_eq_exp_minus_1)
  have c: "table_cmd off m = push_bit 56 (take_bit 7 (of_nat m)) OR take_bit 24 (of_nat off)"
    by (simp add: table_cmd_def m7 m24 take_bit_eq_mask)
  show "drop_bit 63 (table_cmd off m) = 0"
    by (rule bit_word_eqI) (auto simp: c bit_simps)
  have "drop_bit 56 (table_cmd off m) AND 0x7f = take_bit 7 (of_nat m)"
    unfolding m7 by (rule bit_word_eqI) (auto simp: c bit_simps)
  then show "unat (drop_bit 56 (table_cmd off m) AND 0x7f) = m"
    using assms(1) by (simp add: unsigned_take_bit_eq take_bit_nat_eq_self unat_of_nat)
  have "table_cmd off m AND 0xffffff = take_bit 24 (of_nat off)"
    unfolding m24 by (rule bit_word_eqI) (auto simp: c bit_simps)
  then show "unat (table_cmd off m AND 0xffffff) = off"
    using assms(2) by (simp add: unsigned_take_bit_eq take_bit_nat_eq_self unat_of_nat)
qed

lemma table_code:
  assumes "take (rows_of bs) tbl = map (entry_row bs) [0..<rows_of bs]" "rows_of bs \<le> length tbl"
  shows "\<exists>pad. code_at tbl (rows_of bs) (0, 7) (bs @ pad) \<and> padding pad"
proof -
  have "length bs \<le> 8 * rows_of bs" unfolding rows_of_def by presburger
  from entry_bytes [OF this] obtain pad where "map (entry_byte bs) [0..<8 * rows_of bs] = bs @ pad" "padding pad" by blast
  with assms show ?thesis using row_bytes_entry_rows [of bs 0 "rows_of bs"] by (auto simp: code_at_def)
qed

text \<open>Sections hold a byte sequence under an entry.\<close>

definition holds_entry :: "QutSections \<Rightarrow> nat \<Rightarrow> u8 list \<Rightarrow> bool" where
  "holds_entry sec k bs \<longleftrightarrow> (\<exists>ins n p pad. code_at ins n p (bs @ pad) \<and> padding pad \<and>
     (\<forall>s t. Eval s sec k t = Decode64_loop s ins n p t))"

lemma stored_holds:
  assumes "stored (qutbl sec) (quidx sec ! Suc k) bs" "Suc k < length (quidx sec)" "tbl_size sec = length (qutbl sec)"
  shows "holds_entry sec k bs"
proof (cases "length bs \<le> 7")
  case True
  with assms have c: "quidx sec ! Suc k = compact bs" by (simp add: stored_def)
  from compact_code [OF True] obtain pad where p: "code_at [compact bs] 1 (0, 6) (bs @ pad)" "padding pad" by blast
  have "Eval s sec k t = Decode64_loop s [compact bs] 1 (0, 6) t" for s t
    using compact_flag [of bs] assms(2) by (simp add: Eval_def Decode64_def QUT_TBL_ROW_SIZE_def c)
  with p show ?thesis unfolding holds_entry_def by blast
next
  case False
  with assms(1) obtain off where c: "quidx sec ! Suc k = table_cmd off (rows_of bs)" and r: "off \<le> 0xffffff" "rows_of bs \<le> 0x7f"
    "off + rows_of bs \<le> length (qutbl sec)" "take (rows_of bs) (drop off (qutbl sec)) = map (entry_row bs) [0..<rows_of bs]"
    by (auto simp: stored_def)
  have "rows_of bs \<le> length (drop off (qutbl sec))" using r(3) by simp
  from table_code [OF r(4) this] obtain pad where
    p: "code_at (drop off (qutbl sec)) (rows_of bs) (0, 7) (bs @ pad)" "padding pad" by auto
  have "Eval s sec k t = Decode64_loop s (drop off (qutbl sec)) (rows_of bs) (0, 7) t" for s t
    using table_cmd_fields [OF r(2, 1)] assms(2, 3) r(3) by (simp add: Eval_def Decode64_def QUT_TBL_ROW_SIZE_def c Let_def)
  with p show ?thesis unfolding holds_entry_def by blast
qed

definition small_table :: "entries \<Rightarrow> bool" where
  "small_table es \<longleftrightarrow> list_all (\<lambda>(_, _, is). length (encode_entry is) \<le> 1016) es \<and>
     instr_tbl_count (map (\<lambda>(_, _, is). encode_entry is) es) \<le> 0xffffff"

lemma pack_holds:
  assumes "small_table es"
  obtains sec where "PackEntriesToQutSections es = Ret sec" "length (quidx sec) = 2 * length es"
    "idx_size sec = 2 * length es" "tbl_size sec \<le> tbl_capacity sec" "idx_capacity sec = 2 * length es"
    "\<And>k. k < length es \<Longrightarrow> quidx sec ! (2 * k) = fst (es ! k) \<and> holds_entry sec (2 * k) (encode_entry (snd (snd (es ! k))))"
proof -
  let ?enc = "map (\<lambda>(start, _, is). (start, encode_entry is)) es"
  have snds: "map snd ?enc = map (\<lambda>(_, _, is). encode_entry is) es" by (simp add: split_def)
  have small: "\<forall>bs \<in> set (map snd ?enc). length bs \<le> 1016" "instr_tbl_count (map snd ?enc) \<le> 0xffffff"
    unfolding snds using assms by (auto simp: small_table_def list_all_iff)
  from pack_entries_spec [of "[]" ?enc "length ?enc * 2" "[]" "instr_tbl_count (map snd ?enc)", OF _ _ small(2, 1)]
  obtain idx tbl where p: "pack_entries (length ?enc * 2) (instr_tbl_count (map snd ?enc)) ?enc [] [] = Ret (idx, tbl)"
    "length idx = 2 * length es" "length tbl = instr_tbl_count (map snd ?enc)"
    "\<And>k. k < length es \<Longrightarrow> idx ! (2 * k) = fst (?enc ! k) \<and> stored tbl (idx ! Suc (2 * k)) (snd (?enc ! k))"
    by auto
  let ?sec = "\<lparr>quidx = idx, qutbl = tbl, idx_size = length idx, tbl_size = length tbl,
    idx_capacity = length ?enc * 2, tbl_capacity = instr_tbl_count (map snd ?enc)\<rparr>"
  show thesis
  proof (rule that [of ?sec])
    show "PackEntriesToQutSections es = Ret ?sec" using p(1) by (simp add: PackEntriesToQutSections_def Let_def)
    fix k
    assume k: "k < length es"
    with p(2) p(4) [OF k] stored_holds [of ?sec "2 * k"] show "quidx ?sec ! (2 * k) = fst (es ! k) \<and>
        holds_entry ?sec (2 * k) (encode_entry (snd (snd (es ! k))))" by (auto simp: split_def)
  qed (use p in simp_all)
qed

end
