(* ===== verification/QutMerge.thy ===== *)
theory QutMerge
  imports QutPack
begin

text \<open>
  \<open>MergeFrameEntries\<close> of \<open>QuickenTableGenerator.cpp\<close>: the unwind entries of two sources put together.
\<close>

section \<open>Merging\<close>

text \<open>Assignment to a key of a \<open>std::map\<close>.\<close>

fun std_put :: "'k::linorder \<Rightarrow> 'v \<Rightarrow> ('k \<times> 'v) list \<Rightarrow> ('k \<times> 'v) list" where
  "std_put k v [] = [(k, v)]"
| "std_put k v ((k', v') # xs) =
     (if k < k' then (k, v) # (k', v') # xs else if k = k' then (k, v) # xs else (k', v') # std_put k v xs)"

text \<open>The loop of \<open>MergeFrameEntries\<close> with its variables \<open>from_start\<close> and \<open>from_end\<close>. The instructions recorded for a
  part of \<open>from\<close> below an entry of \<open>to\<close> are those of \<open>to\<close>.\<close>

function merge_loop :: "entries \<Rightarrow> entries \<Rightarrow> u64 \<Rightarrow> u64 \<Rightarrow> entries \<Rightarrow> entries" where
  "merge_loop [] [] fs fe res = res"
| "merge_loop ((t0, t) # to) [] fs fe res = merge_loop to [] fs fe (std_put t0 t res)"
| "merge_loop to ((f0, f1, fi) # frm) fs fe res =
     (let (fs, fe) = (if fs = fe then (f0, f1) else (fs, fe)) in
      if fs = fe then res
      else case to of
          [] \<Rightarrow> merge_loop [] frm fe fe (std_put fs (fe, fi) res)
        | (t0, t1, ti) # to' \<Rightarrow>
            if fe \<le> t0 then merge_loop to frm fe fe (std_put fs (fe, ti) res)
            else if t1 \<le> fs then merge_loop to' ((f0, f1, fi) # frm) fs fe (std_put t0 (t1, ti) res)
            else
              let res = (if fs < t0 then std_put fs (t0, ti) res else res) in
              if fe \<le> t1 then merge_loop to frm fe fe res
              else
                let res = std_put t0 (t1, ti) res; fs = t1 in
                merge_loop to' (if fe = fs then frm else (f0, f1, fi) # frm) fs fe res)"
  by pat_completeness auto
termination
  by (relation "measure (\<lambda>(to, frm, _). length to + length frm)") auto

text \<open>\<open>fs\<close> and \<open>fe\<close> are what the uninitialised variables hold.\<close>

definition MergeFrameEntries :: "entries \<Rightarrow> entries \<Rightarrow> u64 \<Rightarrow> u64 \<Rightarrow> entries" where
  "MergeFrameEntries to frm fs fe =
     (if frm = [] then to else if to = [] then frm else merge_loop to frm fs fe [])"

text \<open>merging gives a range that only the second source describes the instructions of the first source's
  next entry; the second source's own instructions are lost.\<close>

theorem merge_loses_instructions:
  assumes "c < d" "d \<le> a" "a < b"
  shows "MergeFrameEntries [(a, b, A)] [(c, d, B)] 0 0 = [(c, d, A), (a, b, A)]"
  using assms by (auto simp: MergeFrameEntries_def)

theorem merge_loses_instructions_witness:
  "MergeFrameEntries [(0x2000, 0x2040, [0xe00000000])] [(0x1000, 0x1040, [0xa00000010])] 0 0 =
   [(0x1000, 0x1040, [0xe00000000]), (0x2000, 0x2040, [0xe00000000])]"
  using merge_loses_instructions [of "0x1000" "0x1040" "0x2000" "0x2040"] by simp

section \<open>What merging keeps\<close>

definition covered :: "entries \<Rightarrow> u64 \<Rightarrow> bool" where
  "covered es pc \<longleftrightarrow> (\<exists>(a, b, _) \<in> set es. a \<le> pc \<and> pc < b)"

text \<open>Entries that end at or below an address, that start at or above it, and that follow each other.\<close>

definition ends_by :: "entries \<Rightarrow> u64 \<Rightarrow> bool" where
  "ends_by es l \<longleftrightarrow> (\<forall>(a, b, _) \<in> set es. a < b \<and> b \<le> l)"

definition starts_from :: "u64 \<Rightarrow> entries \<Rightarrow> bool" where
  "starts_from l es \<longleftrightarrow> (\<forall>(a, _) \<in> set es. l \<le> a)"

fun ranges :: "entries \<Rightarrow> bool" where
  "ranges [] \<longleftrightarrow> True"
| "ranges ((a, b, _) # es) \<longleftrightarrow> a < b \<and> starts_from b es \<and> ranges es"

lemma range_simps [simp]:
  "covered [] pc \<longleftrightarrow> False" "covered ((a, b, i) # es) pc \<longleftrightarrow> a \<le> pc \<and> pc < b \<or> covered es pc"
  "covered (xs @ ys) pc \<longleftrightarrow> covered xs pc \<or> covered ys pc"
  "ends_by [] l" "ends_by ((a, b, i) # es) l \<longleftrightarrow> a < b \<and> b \<le> l \<and> ends_by es l"
  "ends_by (xs @ ys) l \<longleftrightarrow> ends_by xs l \<and> ends_by ys l"
  "starts_from l []" "starts_from l ((a, v) # es) \<longleftrightarrow> l \<le> a \<and> starts_from l es"
  by (auto simp: covered_def ends_by_def starts_from_def ball_Un)

lemma ends_by_mono: "ends_by es l \<Longrightarrow> l \<le> l' \<Longrightarrow> ends_by es l'"
  and starts_from_mono: "starts_from l' es \<Longrightarrow> l \<le> l' \<Longrightarrow> starts_from l es"
  unfolding ends_by_def starts_from_def by (fastforce intro: order_trans)+

lemma std_put_above: "ends_by res l \<Longrightarrow> l \<le> k \<Longrightarrow> std_put k v res = res @ [(k, v)]"
proof (induction k v res rule: std_put.induct)
  case (2 k v k' v' xs)
  obtain e i where "v' = (e, i)" by force
  with 2(2, 3) have "k' < k" "ends_by xs l" by auto
  with 2 show ?case by auto
qed simp

text \<open>What is left of the second source, with the first range cut to the part not yet looked at.\<close>

fun remaining :: "u64 \<Rightarrow> u64 \<Rightarrow> entries \<Rightarrow> entries" where
  "remaining fs fe [] = []"
| "remaining fs fe ((f0, f1, fi) # frm) = (if fs = fe then (f0, f1, fi) # frm else (fs, fe, fi) # frm)"

lemma remaining_next [simp]: "remaining e e frm = frm"
  by (cases frm) auto

definition merged :: "entries \<Rightarrow> entries \<Rightarrow> entries \<Rightarrow> entries \<Rightarrow> bool" where
  "merged r res to frm \<longleftrightarrow> set res \<subseteq> set r \<and> set to \<subseteq> set r \<and>
     (\<forall>pc. covered r pc \<longleftrightarrow> covered res pc \<or> covered to pc \<or> covered frm pc)"

lemma merge_loop_spec:
  assumes "ranges to" "ranges (remaining fs fe frm)" "ends_by res l" "starts_from l to" "starts_from l (remaining fs fe frm)"
  shows "merged (merge_loop to frm fs fe res) res to (remaining fs fe frm)"
  using assms
proof (induction "length to + length frm" arbitrary: to frm fs fe res l rule: less_induct)
  case less
  show ?case
  proof (cases frm)
    case Nil
    show ?thesis
    proof (cases to)
      case (Cons t to')
      obtain t0 t1 ti where t: "t = (t0, t1, ti)" by (cases t)
      have "merged (merge_loop to' [] fs fe (res @ [(t0, t1, ti)])) (res @ [(t0, t1, ti)]) to' (remaining fs fe [])"
        using less.prems by (intro less.hyps [where l = t1]) (auto simp: Nil Cons t intro: ends_by_mono)
      then show ?thesis using less.prems std_put_above [of res l t0] by (auto simp: Nil Cons t merged_def)
    qed (simp add: Nil merged_def)
  next
    case (Cons f frm')
    obtain f0 f1 fi where f: "f = (f0, f1, fi)" by (cases f)
    obtain s e where se: "(if fs = fe then (f0, f1) else (fs, fe)) = (s, e)" by force
    then have rem: "remaining fs fe frm = (s, e, fi) # frm'" by (auto simp: Cons f split: if_splits)
    have s: "s < e" "starts_from e frm'" "ranges frm'" "l \<le> s" "starts_from l frm'" "s \<noteq> e" using less.prems unfolding rem by auto
    show ?thesis
    proof (cases to)
      case Nil
      have "merged (merge_loop [] frm' e e (res @ [(s, e, fi)])) (res @ [(s, e, fi)]) [] (remaining e e frm')"
        using less.prems s by (intro less.hyps [where l = e]) (auto simp: Nil Cons intro: ends_by_mono)
      then show ?thesis
        unfolding rem using s std_put_above [OF less.prems(3) s(4)] by (auto simp: Nil Cons f se merged_def)
    next
      case T: (Cons t to')
      obtain t0 t1 ti where t: "t = (t0, t1, ti)" by (cases t)
      have to: "t0 < t1" "starts_from t1 to'" "ranges to'" "l \<le> t0" using less.prems by (auto simp: T t)
      consider "e \<le> t0" | "\<not> e \<le> t0" "t1 \<le> s" | "\<not> e \<le> t0" "\<not> t1 \<le> s" "e \<le> t1" | "\<not> e \<le> t0" "\<not> t1 \<le> s" "\<not> e \<le> t1"
        by blast
      then show ?thesis unfolding rem
      proof cases
        case 1
        have "merged (merge_loop to frm' e e (res @ [(s, e, ti)])) (res @ [(s, e, ti)]) to (remaining e e frm')"
          using less.prems s to 1
          by (intro less.hyps [where l = e]) (auto simp: T t Cons intro: ends_by_mono starts_from_mono)
        then show "merged (merge_loop to frm fs fe res) res to ((s, e, fi) # frm')"
          using s 1 std_put_above [OF less.prems(3) s(4)] by (auto simp: T t Cons f se merged_def)
      next
        case 2
        have "merged (merge_loop to' frm s e (res @ [(t0, t1, ti)])) (res @ [(t0, t1, ti)]) to' (remaining s e frm)"
          using less.prems s to 2
          by (intro less.hyps [where l = t1]) (auto simp: T t Cons f intro: ends_by_mono starts_from_mono)
        then show "merged (merge_loop to frm fs fe res) res to ((s, e, fi) # frm')"
          using s 2 std_put_above [OF less.prems(3) to(4)] by (auto simp: T t Cons f se merged_def)
      next
        case 3
        let ?res = "if s < t0 then res @ [(s, t0, ti)] else res"
        have eq: "merge_loop to frm fs fe res = merge_loop to frm' e e ?res"
          using s 3 std_put_above [OF less.prems(3) s(4)] by (simp add: T t Cons f se)
        have "merged (merge_loop to frm' e e ?res) ?res to (remaining e e frm')"
          using less.prems s to 3
          by (intro less.hyps [where l = "if s < t0 then t0 else l"]) (auto simp: T t Cons intro: ends_by_mono starts_from_mono)
        moreover have "covered ?res pc \<or> covered to pc \<longleftrightarrow> covered res pc \<or> covered to pc \<or> s \<le> pc \<and> pc < e" for pc
          using s 3 to by (auto simp: T t)
        ultimately show "merged (merge_loop to frm fs fe res) res to ((s, e, fi) # frm')"
          unfolding eq merged_def by (auto split: if_splits)
      next
        case 4
        define res' where "res' = (if s < t0 then res @ [(s, t0, ti)] else res)"
        have r: "ends_by res' t0" "set res \<subseteq> set res'" using less.prems s to by (auto simp: res'_def intro: ends_by_mono)
        have m: "merged (merge_loop to' frm t1 e (res' @ [(t0, t1, ti)])) (res' @ [(t0, t1, ti)]) to' (remaining t1 e frm)"
          using less.prems s to 4 r(1)
          by (intro less.hyps [where l = t1]) (auto simp: T t Cons f intro: ends_by_mono starts_from_mono)
        have eq: "merge_loop to frm fs fe res = merge_loop to' frm t1 e (res' @ [(t0, t1, ti)])"
          using s to 4 std_put_above [OF less.prems(3) s(4), of "(t0, ti)"] std_put_above [OF r(1) order_refl, of "(t1, ti)"]
          by (simp only: T t Cons f, subst merge_loop.simps(3)) (auto simp: se Let_def res'_def simp del: merge_loop.simps(3))
        have c: "covered res' pc \<or> t0 \<le> pc \<and> pc < t1 \<or> t1 \<le> pc \<and> pc < e \<longleftrightarrow>
            covered res pc \<or> t0 \<le> pc \<and> pc < t1 \<or> s \<le> pc \<and> pc < e" for pc
          using s 4 to by (auto simp: res'_def)
        have rem': "remaining t1 e frm = (t1, e, fi) # frm'" using 4 by (auto simp: Cons f)
        let ?r = "merge_loop to' frm t1 e (res' @ [(t0, t1, ti)])"
        have "set res' \<subseteq> set ?r" "(t0, t1, ti) \<in> set ?r" "set to' \<subseteq> set ?r" using m by (simp_all add: merged_def)
        moreover have "covered ?r pc \<longleftrightarrow>
            (covered res' pc \<or> t0 \<le> pc \<and> pc < t1 \<or> t1 \<le> pc \<and> pc < e) \<or> covered to' pc \<or> covered frm' pc" for pc
          using m unfolding merged_def rem' range_simps by blast
        then have "covered ?r pc \<longleftrightarrow> covered res pc \<or> covered to pc \<or> covered ((s, e, fi) # frm') pc" for pc
          unfolding c T t range_simps by blast
        ultimately show "merged (merge_loop to frm fs fe res) res to ((s, e, fi) # frm')"
          unfolding eq merged_def using r(2) by (simp add: T t del: merge_loop.simps)
      qed
    qed
  qed
qed

text \<open>C7: where the uninitialised variables happen to be equal, merging two sources of disjoint ranges keeps every
  entry of the first one and describes exactly the addresses that one of them describes.\<close>

theorem merge_correct:
  assumes "ranges to" "ranges frm"
  shows "set to \<subseteq> set (MergeFrameEntries to frm x x) \<and>
    (\<forall>pc. covered (MergeFrameEntries to frm x x) pc \<longleftrightarrow> covered to pc \<or> covered frm pc)"
  using merge_loop_spec [of to x x frm "[]" 0] assms
  by (auto simp: MergeFrameEntries_def merged_def starts_from_def simp del: merge_loop.simps)

theorem merge_correct_witness:
  "set [(0x2000, 0x2040, [0xe00000000])] \<subseteq>
     set (MergeFrameEntries [(0x2000, 0x2040, [0xe00000000])] [(0x1000, 0x2010, [0xa00000010]), (0x2030, 0x2050, [])] 0 0) \<and>
   covered (MergeFrameEntries [(0x2000, 0x2040, [0xe00000000])] [(0x1000, 0x2010, [0xa00000010]), (0x2030, 0x2050, [])] 0 0) 0x2048"
  using merge_correct [of "[(0x2000, 0x2040, [0xe00000000])]" "[(0x1000, 0x2010, [0xa00000010]), (0x2030, 0x2050, [])]" 0]
  by (simp add: starts_from_def del: merge_loop.simps)

end
