(* ===== verification/QutStep.thy ===== *)
theory QutStep
  imports QutPack
begin

text \<open>
  \<open>QuickenInterface.cpp\<close> of \<open>libwechatbacktrace\<close>: looking a program counter up in the index of a table, and one
  step of unwinding with it.
\<close>

section \<open>Index\<close>

text \<open>The loop, without a value where it runs for ever: the entry found, or where the search ended. The mask cuts
  \<open>current\<close> to 32 bits.\<close>

partial_function (option) find_loop :: "u64 list \<Rightarrow> u64 \<Rightarrow> nat \<Rightarrow> nat \<Rightarrow> (nat option \<times> nat) run option" where
  "find_loop idx pc first lst =
     (if \<not> first < lst then Some (Ret (None, lst))
      else
        let current = ((first + lst) div 2) AND 0xfffffffe in
        if length idx \<le> current then Some Undef
        else
          let addr = idx ! current in
          if pc = addr then Some (Ret (Some current, lst))
          else if pc < addr then find_loop idx pc first current
          else find_loop idx pc (current + 2) lst)"

declare find_loop.simps [code]

definition FindEntry :: "QutSections \<Rightarrow> u64 \<Rightarrow> nat option run" where
  "FindEntry sec pc =
     (case find_loop (quidx sec) pc 0 (idx_size sec) of
        None \<Rightarrow> Hang
      | Some r \<Rightarrow> bindr r (\<lambda>(found, lst). case found of
            Some current \<Rightarrow> Ret (Some current)
          | None \<Rightarrow> if lst \<noteq> 0 then Ret (Some (nat ((int lst - 2) mod 2 ^ 64))) else Ret None))"

section \<open>A step\<close>

record StepContext =
  sc_regs :: regs
  sc_pc :: u64
  sc_dex_pc :: u64
  sc_frame_index :: nat
  sc_finished :: bool

text \<open>The result, \<open>last_error_code\<close> and the context afterwards.\<close>

definition StepInternal :: "stack \<Rightarrow> QutSections \<Rightarrow> StepContext \<Rightarrow> (bool \<times> QutErrorCode \<times> StepContext) run" where
  "StepInternal s sections sc =
     bindr (FindEntry sections (sc_pc sc)) (\<lambda>found. case found of
         None \<Rightarrow> Ret (False, QUT_ERROR_UNWIND_INFO, sc)
       | Some entry_offset \<Rightarrow>
           bindr (Eval s sections entry_offset
                    (regs.extend (sc_regs sc) \<lparr>cfa = SP (sc_regs sc), dex_pc = 0, pc_set = False\<rparr>)) (\<lambda>(code, t).
             let regs = regs.truncate t in
             if code = QUT_ERROR_NONE then
               let regs = (if \<not> pc_set t then regs\<lparr>PC := LR regs\<rparr> else regs);
                   regs = regs\<lparr>SP := cfa t\<rparr>
               in Ret (True, code, sc\<lparr>sc_regs := regs, sc_dex_pc := dex_pc t, sc_finished := PC regs = 0\<rparr>)
             else Ret (False, code, sc\<lparr>sc_regs := regs, sc_finished := PC regs = 0\<rparr>)))"

text \<open>Where the tables come from: the table of the library, if it is loaded; tables generated on demand for a
  program counter; and those of compiled code.\<close>

record QuickenInterface =
  qi_load_bias :: u64
  qi_sections :: "QutSections option"
  qi_in_memory :: "(u64 \<Rightarrow> QutSections option) option"
  qi_jit_cache :: bool
  qi_debug_jit :: "(u64 \<Rightarrow> QutSections option) option"

definition StepJIT :: "stack \<Rightarrow> QuickenInterface \<Rightarrow> StepContext \<Rightarrow> (bool \<times> QutErrorCode \<times> StepContext) run" where
  "StepJIT s qi sc =
     (case qi_debug_jit qi of
        Some sections_for \<Rightarrow>
          (case sections_for (sc_pc sc) of
             None \<Rightarrow> Ret (False, QUT_ERROR_REQUEST_QUT_INMEM_FAILED, sc)
           | Some sec \<Rightarrow> StepInternal s sec sc)
      | None \<Rightarrow> Ret (False, QUT_ERROR_REQUEST_QUT_INMEM_FAILED, sc))"

definition Step :: "stack \<Rightarrow> QuickenInterface \<Rightarrow> StepContext \<Rightarrow> (bool \<times> QutErrorCode \<times> StepContext) run" where
  "Step s qi sc =
     (if sc_pc sc < qi_load_bias qi then Ret (False, QUT_ERROR_UNWIND_INFO, sc)
      else case qi_sections qi of
          Some sec \<Rightarrow> StepInternal s sec sc
        | None \<Rightarrow>
            (case qi_in_memory qi of
               Some sections_for \<Rightarrow>
                 (case sections_for (sc_pc sc) of
                    None \<Rightarrow> Ret (False, QUT_ERROR_REQUEST_QUT_FILE_FAILED, sc)
                  | Some sec \<Rightarrow> StepInternal s sec sc)
             | None \<Rightarrow> Ret (False, QUT_ERROR_REQUEST_QUT_FILE_FAILED, sc)))"

section \<open>The search finds the entry below a program counter\<close>

lemma even_current:
  fixes f l :: nat
  assumes "f + l < 2 ^ 31"
  shows "((2 * f + 2 * l) div 2) AND 0xfffffffe = 2 * ((f + l) div 2)"
proof -
  have "(0xfffffffe :: nat) = push_bit 1 (mask 31)" by (simp add: mask_eq_exp_minus_1 push_bit_eq_mult)
  then have "(f + l) AND 0xfffffffe = 2 * take_bit 31 ((f + l) div 2)"
    using and_shifted_mask [of "f + l" 1 31] by simp
  moreover have "take_bit 31 ((f + l) div 2) = (f + l) div 2" using assms by (simp add: take_bit_nat_eq_self_iff)
  ultimately show ?thesis by simp
qed

text \<open>The number of the last entry that starts at or below \<open>pc\<close>, if there is one.\<close>

definition entry_below :: "u64 list \<Rightarrow> u64 \<Rightarrow> nat \<Rightarrow> bool" where
  "entry_below starts pc k \<longleftrightarrow> k < length starts \<and> starts ! k \<le> pc \<and> (\<forall>i. k < i \<and> i < length starts \<longrightarrow> pc < starts ! i)"

lemma find_loop_spec:
  fixes starts :: "u64 list"
  assumes idx: "\<And>k. k < length starts \<Longrightarrow> 2 * k < length idx \<and> idx ! (2 * k) = starts ! k"
    and sorted: "\<And>i j. i < j \<Longrightarrow> j < length starts \<Longrightarrow> starts ! i < starts ! j"
    and n: "length starts < 2 ^ 30"
    and "f \<le> l" "l \<le> length starts" "\<forall>k < f. starts ! k < pc" "\<forall>k. l \<le> k \<and> k < length starts \<longrightarrow> pc < starts ! k"
  shows "\<exists>found lst. find_loop idx pc (2 * f) (2 * l) = Some (Ret (found, lst)) \<and>
    (case found of Some c \<Rightarrow> \<exists>k. c = 2 * k \<and> entry_below starts pc k
     | None \<Rightarrow> lst = 0 \<and> (\<forall>k < length starts. pc < starts ! k) \<or> (\<exists>k. lst = 2 * Suc k \<and> entry_below starts pc k))"
  using assms(4-7)
proof (induction "l - f" arbitrary: f l rule: less_induct)
  case less
  show ?case
  proof (cases "f < l")
    case False
    then have fl: "f = l" using less.prems(1) by simp
    show ?thesis
    proof (cases l)
      case 0
      with fl less.prems show ?thesis by (subst find_loop.simps) simp
    next
      case (Suc k)
      with fl less.prems have "entry_below starts pc k" by (auto simp: entry_below_def less_imp_le)
      with fl Suc show ?thesis by (subst find_loop.simps) auto
    qed
  next
    case True
    define c where "c = (f + l) div 2"
    have c: "f \<le> c" "c < l" "c < length starts" using True less.prems(2) by (auto simp: c_def)
    have cur: "((2 * f + 2 * l) div 2) AND 0xfffffffe = 2 * c"
      unfolding c_def using True less.prems(2) n by (intro even_current) simp
    have at: "2 * c < length idx" "idx ! (2 * c) = starts ! c" using idx [OF c(3)] by simp_all
    have step: "find_loop idx pc (2 * f) (2 * l) =
        (if pc = starts ! c then Some (Ret (Some (2 * c), 2 * l))
         else if pc < starts ! c then find_loop idx pc (2 * f) (2 * c)
         else find_loop idx pc (2 * Suc c) (2 * l))"
      using True at by (subst find_loop.simps) (simp add: cur [simplified] Let_def)
    consider "pc = starts ! c" | "pc < starts ! c" | "starts ! c < pc" by (meson linorder_neqE)
    then show ?thesis
    proof cases
      case 1
      have "entry_below starts pc c" using c(3) sorted by (auto simp: entry_below_def 1)
      with step 1 show ?thesis by auto
    next
      case 2
      have "\<forall>k. c \<le> k \<and> k < length starts \<longrightarrow> pc < starts ! k"
        using 2 sorted by (metis le_neq_implies_less order.strict_trans)
      from less.hyps [OF _ c(1) _ less.prems(3) this] c 2 step show ?thesis by auto
    next
      case 3
      have "\<forall>k < Suc c. starts ! k < pc" using 3 sorted c(3) by (metis less_antisym order.strict_trans)
      with less.hyps [of l "Suc c"] c 3 step less.prems show ?thesis by auto
    qed
  qed
qed

lemma FindEntry_spec:
  assumes "\<And>k. k < length starts \<Longrightarrow> 2 * k < length (quidx sec) \<and> quidx sec ! (2 * k) = starts ! k"
    and "\<And>i j. i < j \<Longrightarrow> j < length starts \<Longrightarrow> starts ! i < starts ! j"
    and "length starts < 2 ^ 30" "idx_size sec = 2 * length starts"
  shows "(\<exists>k. FindEntry sec pc = Ret (Some (2 * k)) \<and> entry_below starts pc k) \<or>
    FindEntry sec pc = Ret None \<and> (\<forall>k < length starts. pc < starts ! k)"
proof -
  have e: "\<forall>k. length starts \<le> k \<and> k < length starts \<longrightarrow> pc < starts ! k" by auto
  from find_loop_spec [of starts "quidx sec", OF assms(1-3) _ order_refl _ e, of 0] assms(4) obtain found lst where
    f: "find_loop (quidx sec) pc 0 (idx_size sec) = Some (Ret (found, lst))" and
    r: "case found of Some c \<Rightarrow> \<exists>k. c = 2 * k \<and> entry_below starts pc k
      | None \<Rightarrow> lst = 0 \<and> (\<forall>k < length starts. pc < starts ! k) \<or> (\<exists>k. lst = 2 * Suc k \<and> entry_below starts pc k)"
    by auto
  have w: "nat ((int (2 * Suc k) - 2) mod 2 ^ 64) = 2 * k" if "entry_below starts pc k" for k
  proof -
    have "2 * k < 2 ^ 64" using that assms(3) by (simp add: entry_below_def)
    then show ?thesis by (simp add: nat_eq_iff)
  qed
  show ?thesis using r f w by (cases found) (auto simp: FindEntry_def)
qed

section \<open>A step over a packed table\<close>

lemma encodable_encodes: "encodable is \<Longrightarrow> fst (QuickenInstructionsEncode64 is)"
proof (induction "is" rule: QuickenInstructionsEncode64.induct)
  case (2 x xs)
  have e: "fst (encode_ins (ins_op x) (ins_imm x))" using 2(4) by (intro encode_ins_goes_on) simp
  have d: "encodable (drop 3 xs)" if "have_prologue xs" using 2(4) that by (auto elim!: have_prologue.elims)
  show ?case using 2 e d
    by (cases "encode_ins (ins_op x) (ins_imm x)") (simp add: QuickenInstructionsEncode64.simps(2) [of x xs] Let_def)
qed simp

text \<open>The frame above: the instructions run with \<open>vsp\<close> at the stack pointer; \<open>vsp\<close> is then the stack pointer, and
  the program counter is the restored one or the return address.\<close>

definition unwound :: "stack \<Rightarrow> u64 list \<Rightarrow> StepContext \<Rightarrow> (bool \<times> QutErrorCode \<times> StepContext) run" where
  "unwound s is sc =
     bindr (exec s is (regs.extend (sc_regs sc) \<lparr>cfa = SP (sc_regs sc), dex_pc = 0, pc_set = False\<rparr>)) (\<lambda>(code, t).
       if code = QUT_ERROR_NONE then
         let pc' = (if pc_set t then PC t else LR t) in
         Ret (True, code, sc\<lparr>sc_regs := (regs.truncate t)\<lparr>SP := cfa t, PC := pc'\<rparr>, sc_dex_pc := dex_pc t,
           sc_finished := pc' = 0\<rparr>)
       else Ret (False, code, sc\<lparr>sc_regs := regs.truncate t, sc_finished := PC t = 0\<rparr>))"

lemma eval_packed:
  assumes "holds_entry sec k (encode_entry is)" "encodable is"
  shows "Eval s sec k t = exec s is t"
proof -
  from encodable_encodes [OF assms(2)] have "encode_entry is = snd (QuickenInstructionsEncode64 is)"
    by (auto simp: encode_entry_def split: prod.split)
  with assms(1) obtain ins n p pad where "code_at ins n p (snd (QuickenInstructionsEncode64 is) @ pad)" "padding pad"
    "Eval s sec k t = Decode64_loop s ins n p t" by (auto simp: holds_entry_def)
  then show ?thesis using decode_encode [OF assms(2)] by simp
qed

lemma truncate_simps [simp]:
  "PC (regs.truncate t) = PC t" "LR (regs.truncate t) = LR t" "SP (regs.truncate t) = SP t"
  by (simp_all add: regs.truncate_def)

lemma step_at_entry:
  assumes "FindEntry sec (sc_pc sc) = Ret (Some k)" "\<And>t. Eval s sec k t = exec s is t"
  shows "StepInternal s sec sc = unwound s is sc"
  unfolding StepInternal_def unwound_def
  by (simp add: assms, intro arg_cong [where f = "bindr _"] ext) (auto simp: Let_def split: prod.split)

text \<open>The instructions of the last entry that starts at or below a program counter.\<close>

definition covering :: "entries \<Rightarrow> u64 \<Rightarrow> u64 list option" where
  "covering es pc = (case filter (\<lambda>(start, _). start \<le> pc) es of [] \<Rightarrow> None | e # rest \<Rightarrow> Some (snd (snd (last (e # rest)))))"

lemma covering_entry:
  assumes "entry_below (map fst es) pc k" "sorted_wrt (<) (map fst es)"
  shows "covering es pc = Some (snd (snd (es ! k)))"
proof -
  have k: "k < length es" "fst (es ! k) \<le> pc" "\<And>i. k < i \<Longrightarrow> i < length es \<Longrightarrow> pc < fst (es ! i)"
    using assms(1) by (auto simp: entry_below_def)
  have "fst (es ! i) \<le> pc" if "i \<le> k" for i
  proof (cases "i = k")
    case False
    with that k(1) assms(2) have "fst (es ! i) < fst (es ! k)" by (simp add: sorted_wrt_iff_nth_less)
    with k(2) show ?thesis by simp
  qed (use k(2) in simp)
  then have "\<forall>e \<in> set (take (Suc k) es). fst e \<le> pc" using k(1) by (fastforce simp: in_set_conv_nth less_Suc_eq_le)
  moreover have "\<forall>e \<in> set (drop (Suc k) es). \<not> fst e \<le> pc"
  proof
    fix e
    assume "e \<in> set (drop (Suc k) es)"
    then obtain i where "i < length (drop (Suc k) es)" "drop (Suc k) es ! i = e" by (auto simp: in_set_conv_nth)
    with k(3) [of "Suc k + i"] show "\<not> fst e \<le> pc" by (auto simp: not_le)
  qed
  ultimately have "filter (\<lambda>(start, _). start \<le> pc) (take (Suc k) es @ drop (Suc k) es) = take (Suc k) es"
    by (simp add: split_def del: append_take_drop_id)
  then have f: "filter (\<lambda>(start, _). start \<le> pc) es = take (Suc k) es" by (simp only: append_take_drop_id)
  have "last (take (Suc k) es) = es ! k" using k(1) by (simp add: take_Suc_conv_app_nth)
  moreover obtain e rest where "take (Suc k) es = e # rest" using k(1) by (cases es) auto
  ultimately show ?thesis unfolding covering_def f by simp
qed

lemma covering_none: "\<forall>k < length es. pc < fst (es ! k) \<Longrightarrow> covering es pc = None"
proof -
  assume "\<forall>k < length es. pc < fst (es ! k)"
  then have "filter (\<lambda>(start, _). start \<le> pc) es = []"
    by (fastforce simp: filter_empty_conv in_set_conv_nth)
  then show ?thesis by (simp add: covering_def)
qed

lemma packed_steps:
  assumes "small_table es" "sorted_wrt (<) (map fst es)" "length es < 2 ^ 30" "list_all (\<lambda>(_, _, is). encodable is) es"
  shows "\<exists>sec. PackEntriesToQutSections es = Ret sec \<and>
    (\<forall>s sc. StepInternal s sec sc =
      (case covering es (sc_pc sc) of
         None \<Rightarrow> Ret (False, QUT_ERROR_UNWIND_INFO, sc)
       | Some is \<Rightarrow> unwound s is sc))"
proof -
  from pack_holds [OF assms(1)] obtain sec where sec: "PackEntriesToQutSections es = Ret sec"
    "length (quidx sec) = 2 * length es" "idx_size sec = 2 * length es"
    "\<And>k. k < length es \<Longrightarrow> quidx sec ! (2 * k) = fst (es ! k) \<and> holds_entry sec (2 * k) (encode_entry (snd (snd (es ! k))))"
    by blast
  have "StepInternal s sec sc = (case covering es (sc_pc sc) of
      None \<Rightarrow> Ret (False, QUT_ERROR_UNWIND_INFO, sc) | Some is \<Rightarrow> unwound s is sc)" for s sc
  proof -
    have "(\<exists>k. FindEntry sec (sc_pc sc) = Ret (Some (2 * k)) \<and> entry_below (map fst es) (sc_pc sc) k) \<or>
        FindEntry sec (sc_pc sc) = Ret None \<and> (\<forall>k < length (map fst es). sc_pc sc < map fst es ! k)"
      by (rule FindEntry_spec) (use sec assms(2, 3) in \<open>auto simp: sorted_wrt_iff_nth_less\<close>)
    then show ?thesis
    proof (elim disjE exE conjE)
      fix k
      assume k: "FindEntry sec (sc_pc sc) = Ret (Some (2 * k))" "entry_below (map fst es) (sc_pc sc) k"
      then have "k < length es" by (simp add: entry_below_def)
      with assms(4) have "encodable (snd (snd (es ! k)))" by (auto simp: list_all_length split_def)
      with sec(4) [OF \<open>k < length es\<close>] have "Eval s sec (2 * k) t = exec s (snd (snd (es ! k))) t" for t
        by (intro eval_packed) simp_all
      from step_at_entry [OF k(1) this] covering_entry [OF k(2) assms(2)] show ?thesis by simp
    next
      assume "FindEntry sec (sc_pc sc) = Ret None" "\<forall>k < length (map fst es). sc_pc sc < map fst es ! k"
      then show ?thesis by (simp add: StepInternal_def covering_none)
    qed
  qed
  with sec(1) show ?thesis by blast
qed

text \<open>C5: unwinding with the packed table does what the instructions of the library say: for entries with
  increasing starts whose instructions the encoding can express, packed into sections that fit, a step
  from any program counter runs the instructions of the last entry that starts at or below it, from the
  registers of the frame, and reports missing unwind information below the first entry.\<close>

theorem step_correct:
  assumes "small_table es" "sorted_wrt (<) (map fst es)" "length es < 2 ^ 30" "list_all (\<lambda>(_, _, is). encodable is) es"
  shows "\<exists>sec. PackEntriesToQutSections es = Ret sec \<and>
    (\<forall>s sc. StepInternal s sec sc =
      (case covering es (sc_pc sc) of
         None \<Rightarrow> Ret (False, QUT_ERROR_UNWIND_INFO, sc)
       | Some is \<Rightarrow> unwound s is sc))"
  using assms by (rule packed_steps)

section \<open>An example\<close>

text \<open>A function whose frame pointer is set up at offset 0x10, before and after.\<close>

definition sample_entries :: entries where
  "sample_entries = [(0x1000, 0x1010, []), (0x1010, 0x1040, [0xe00000000, 0xa00000010, 0x500000008, 0x900000010])]"

definition sample_stack :: stack where
  "sample_stack = \<lparr>st_mem = stbytes (\<lambda>_. None) 0x7000 [0x20, 0x70, 0, 0, 0, 0, 0, 0, 0x34, 0x12, 0, 0, 0, 0, 0, 0],
     stack_bottom = 0x6000, stack_top = 0x8000\<rparr>"

definition sample_context :: StepContext where
  "sample_context = \<lparr>sc_regs = \<lparr>R20 = 0, R28 = 0, R29 = 0x7000, SP = 0x6ff0, PC = 0x1020, LR = 0\<rparr>, sc_pc = 0x1020,
     sc_dex_pc = 0, sc_frame_index = 0, sc_finished = False\<rparr>"

theorem step_correct_witness:
  "\<exists>sec. PackEntriesToQutSections sample_entries = Ret sec \<and>
     StepInternal sample_stack sec sample_context =
       Ret (True, QUT_ERROR_NONE, sample_context\<lparr>sc_regs := \<lparr>R20 = 0, R28 = 0, R29 = 0x7020, SP = 0x7010, PC = 0x1234, LR = 0x1234\<rparr>\<rparr>)"
proof -
  have "encode_entry [] = []" "encode_entry [0xe00000000, 0xa00000010, 0x500000008, 0x900000010] = [0x81]" by code_simp+
  then have "small_table sample_entries"
    by (simp add: small_table_def sample_entries_def instr_tbl_count_def QUT_TBL_ROW_SIZE_def)
  moreover have "sorted_wrt (<) (map fst sample_entries)"
    "list_all (\<lambda>(_, _, is). encodable is) sample_entries" by code_simp+
  moreover have "length sample_entries < 2 ^ 30" by (simp add: sample_entries_def)
  moreover have "covering sample_entries (sc_pc sample_context) = Some [0xe00000000, 0xa00000010, 0x500000008, 0x900000010]"
    by code_simp
  moreover have "unwound sample_stack [0xe00000000, 0xa00000010, 0x500000008, 0x900000010] sample_context =
      Ret (True, QUT_ERROR_NONE, sample_context\<lparr>sc_regs := \<lparr>R20 = 0, R28 = 0, R29 = 0x7020, SP = 0x7010, PC = 0x1234, LR = 0x1234\<rparr>\<rparr>)"
    by code_simp
  ultimately show ?thesis using step_correct [of sample_entries] by (auto simp: option.case)
qed

section \<open>What the encoding loses\<close>

lemma or_64: "0 \<le> j \<Longrightarrow> j < 64 \<Longrightarrow> 64 OR j = 64 + (j :: int)"
proof -
  assume "0 \<le> j" "j < 64"
  then have "drop_bit 6 j = 0" by (simp add: drop_bit_eq_div)
  then have "\<not> bit j 6" by (metis bit_drop_bit_eq add_0_right comp_apply bit_0_eq bot_apply bot_bool_def)
  then have "j AND 64 = 0" using and_exp_eq_0_iff_not_bit [of j 6] by simp
  then show ?thesis using plus_and_or [of 64 j] by (simp add: and.commute)
qed

lemma byte_01:
  assumes "0 \<le> j" "j < 64"
  shows "drop_bit 6 (0x40 OR word_of_int j :: u8) = 1"
    "(ucast (push_bit 2 (0x40 OR word_of_int j :: u8)) :: u64) = word_of_int (4 * j)"
proof -
  have b: "(0x40 OR word_of_int j :: u8) = word_of_int (64 + j)"
    using or_64 [OF assms] by (metis word_of_int_numeral of_int_or_eq word_of_int_eq_iff)
  show "drop_bit 6 (0x40 OR word_of_int j :: u8) = 1"
    using assms uint_byte [of "64 + j"] unfolding b
    by (simp only: drop_bit_eq_div word_uint_eq_iff uint_div_distrib) simp
  have "push_bit 2 (word_of_int (64 + j) :: u8) = word_of_int (4 * j)"
    by (simp add: push_bit_eq_mult)
  then show "(ucast (push_bit 2 (0x40 OR word_of_int j :: u8)) :: u64) = word_of_int (4 * j)"
    unfolding b using assms ucast_byte [of "4 * j"] by (simp only:)
qed

text \<open>a move of \<open>vsp\<close> down by at most 252 bytes comes out wrong: the encoder writes the two's complement of
  the immediate, the decoder takes it for a magnitude, so that \<open>vsp\<close> moves by the rest to 256.\<close>

theorem vsp_negative_misdecoded:
  assumes "imm AND 3 = 0" "- 252 \<le> imm" "imm < 0"
    and "code_at ins n p (snd (encode_ins QUT_INSTRUCTION_VSP_OFFSET imm) @ rest)"
  shows "\<exists>q. decode_byte s ins n p t = Ret (GoOn q (t\<lparr>cfa := cfa t - word_of_int (256 + imm)\<rparr>))"
proof -
  define j where "j = imm div 4 + 64"
  have imm: "imm = 4 * (j - 64)" using imm4 [OF assms(1)] by (simp add: j_def)
  then have j: "0 \<le> j" "j < 64" using assms(2, 3) by auto
  have "63 AND drop_bit 2 imm = take_bit 6 (j - 64)"
    by (simp add: imm drop_bit_eq_div take_bit_eq_mask mask_eq_exp_minus_1 and.commute)
  also have "\<dots> = j" using j by (simp add: take_bit_eq_mod)
  finally have "encode_ins QUT_INSTRUCTION_VSP_OFFSET imm = (True, [0x40 OR word_of_int j])"
    using assms(2, 3) by (simp add: encode_ins_def IMM_values FILL_WITH_IMM_def)
  with assms(4) obtain q where "ReadByte ins p = Ret (0x40 OR word_of_int j, q)" by (auto elim: code_at_Cons)
  then show ?thesis using byte_01 [OF j] imm by (auto simp: decode_byte_def)
qed

theorem vsp_negative_misdecoded_witness:
  "\<forall>t. \<exists>q. decode_byte sample_stack [0x807f999999999999] 1 (0, 6) t = Ret (GoOn q (t\<lparr>cfa := cfa t - 252\<rparr>))"
proof -
  have "code_at [0x807f999999999999] 1 (0, 6) (snd (encode_ins QUT_INSTRUCTION_VSP_OFFSET (- 4)) @ replicate 6 0x99)" by code_simp
  from vsp_negative_misdecoded [OF _ _ _ this] show ?thesis by simp
qed

end
