(* ===== verification/QutUnwind.thy ===== *)
theory QutUnwind
  imports QutStep
begin

text \<open>
  \<open>QuickenUnwinder.cpp\<close> and \<open>Maps\<close> of \<open>QuickenMaps.cpp\<close>, \<open>libwechatbacktrace\<close>: the walk over the frames of a stack.
\<close>

section \<open>Maps\<close>

text \<open>A mapping, as it is once its interface was asked for.\<close>

record MapInfo =
  map_start :: u64
  map_end :: u64
  map_flags :: u64
  elf_load_bias :: u64
  elf_offset :: u64
  maybe_java :: bool
  quicken_interface :: "QuickenInterface option"

definition GetRelPc :: "MapInfo \<Rightarrow> u64 \<Rightarrow> u64" where
  "GetRelPc mi pc = pc - map_start mi + elf_load_bias mi + elf_offset mi"

function find_map :: "MapInfo list \<Rightarrow> u64 \<Rightarrow> nat \<Rightarrow> nat \<Rightarrow> MapInfo option" where
  "find_map maps pc first lst =
     (if \<not> first < lst then None
      else
        let index = (first + lst) div 2; cur = maps ! index in
        if map_start cur \<le> pc \<and> pc < map_end cur then Some cur
        else if pc < map_start cur then find_map maps pc first index
        else find_map maps pc (index + 1) lst)"
  by pat_completeness auto
termination
  by (relation "measure (\<lambda>(maps, pc, first, lst). lst - first)") auto

declare find_map.simps [simp del]

text \<open>\<open>None\<close> stands for no array.\<close>

definition Maps_Find :: "MapInfo list option \<Rightarrow> u64 \<Rightarrow> MapInfo option" where
  "Maps_Find maps pc = (case maps of None \<Rightarrow> None | Some ms \<Rightarrow> find_map ms pc 0 (length ms))"

text \<open>The \<open>Maps\<close> objects made so far, the current one by its number, and what the next readings of the maps file
  give, \<open>None\<close> where it cannot be read.\<close>

record maps_state =
  objects :: "MapInfo list option list"
  current_maps :: "nat option"
  readings :: "MapInfo list option list"

definition Maps_Parse :: "nat option \<Rightarrow> maps_state \<Rightarrow> bool \<times> maps_state" where
  "Maps_Parse maps st =
     (if maps \<noteq> None \<and> maps = current_maps st then (True, st)
      else case readings st of
          Some ms # rest \<Rightarrow> (True, st\<lparr>objects := objects st @ [Some ms], current_maps := Some (length (objects st)), readings := rest\<rparr>)
        | None # rest \<Rightarrow> (False, st\<lparr>readings := rest\<rparr>)
        | [] \<Rightarrow> (False, st))"

definition Maps_current :: "maps_state \<Rightarrow> nat option \<times> maps_state" where
  "Maps_current st =
     (let st = (if current_maps st = None then snd (Maps_Parse None st) else st) in (current_maps st, st))"

definition maps_of :: "nat \<Rightarrow> maps_state \<Rightarrow> MapInfo list option" where
  "maps_of h st = (if h < length (objects st) then objects st ! h else None)"

text \<open>The mapping, the maps used from now on and the state; \<open>readable\<close> says whether two bytes can be read there.\<close>

definition GetMapInfo :: "(u64 \<Rightarrow> bool) \<Rightarrow> nat \<Rightarrow> u64 \<Rightarrow> maps_state \<Rightarrow> MapInfo option \<times> nat \<times> maps_state" where
  "GetMapInfo readable maps pc st =
     (case Maps_Find (maps_of maps st) pc of
        Some mi \<Rightarrow> (Some mi, maps, st)
      | None \<Rightarrow>
          if readable pc then
            let st = snd (Maps_Parse (Some maps) st);
                map_info = Maps_Find (maps_of maps st) pc
            in case Maps_current st of (cur, st) \<Rightarrow> (map_info, the cur, st)
          else (None, maps, st))"

section \<open>Unwinding\<close>

definition MAP_FLAG_READ :: u64 where "MAP_FLAG_READ = 1"

definition GetPcAdjustment :: "mem \<Rightarrow> MapInfo \<Rightarrow> u64 \<Rightarrow> u32 \<Rightarrow> u32 \<Rightarrow> u32 run" where
  "GetPcAdjustment m mi pc rel_pc load_bias =
     (if rel_pc < load_bias then Ret (if rel_pc < 2 then 0 else 2)
      else
        let adjusted_rel_pc = rel_pc - load_bias in
        if adjusted_rel_pc < 5 then Ret (if adjusted_rel_pc < 2 then 0 else 2)
        else if pc AND 1 \<noteq> 0 then
          let adjusted_pc = pc - 5 in
          if map_flags mi AND MAP_FLAG_READ = 0 \<or> adjusted_pc < map_start mi \<or> map_end mi \<le> adjusted_pc + 4 then Ret 2
          else bindr (ld32 m adjusted_pc) (\<lambda>v. Ret (if v AND 0xe000f000 \<noteq> 0xe000f000 then 2 else 4))
        else Ret 4)"

text \<open>A frame: its attributes and the lower 56 bits of the program counter.\<close>

record Frame =
  fr_attr :: u8
  fr_pc :: u64

definition set_pc :: "u64 \<Rightarrow> Frame \<Rightarrow> Frame" where
  "set_pc pc f = f\<lparr>fr_pc := take_bit 56 pc\<rparr>"

definition set_frame_attr_maybe_java :: "Frame \<Rightarrow> Frame" where
  "set_frame_attr_maybe_java f = f\<lparr>fr_attr := fr_attr f OR 2\<rparr>"

definition set_frame_attr_all :: "Frame \<Rightarrow> Frame" where
  "set_frame_attr_all f = f\<lparr>fr_attr := fr_attr f OR 3\<rparr>"

record unwind =
  uw_step :: StepContext
  uw_maps :: nat
  uw_state :: maps_state
  uw_last :: "(MapInfo \<times> QuickenInterface) option"
  uw_adjust_pc :: bool
  uw_backtrace :: "Frame list"

text \<open>A change of the frame at \<open>frame_index\<close>, which is then counted; undefined outside the array.\<close>

definition put_frame :: "(Frame \<Rightarrow> Frame) \<Rightarrow> unwind \<Rightarrow> unwind run" where
  "put_frame f u =
     (let i = sc_frame_index (uw_step u) in
      if length (uw_backtrace u) \<le> i then Undef
      else Ret (u\<lparr>uw_backtrace := (uw_backtrace u)[i := f (uw_backtrace u ! i)],
                 uw_step := uw_step u\<lparr>sc_frame_index := i + 1\<rparr>\<rparr>))"

datatype uflow = UGoOn unwind | UBreak QutErrorCode unwind

text \<open>The mapping of the program counter and its interface, or the error the walk ends with.\<close>

definition lookup_map :: "(u64 \<Rightarrow> bool) \<Rightarrow> bool \<Rightarrow> unwind \<Rightarrow> MapInfo option \<times> unwind" where
  "lookup_map readable update_maps_as_need u =
     (let cur_pc = PC (sc_regs (uw_step u)) in
      if update_maps_as_need
      then case GetMapInfo readable (uw_maps u) cur_pc (uw_state u) of (mi, maps, st) \<Rightarrow>
             (mi, u\<lparr>uw_maps := maps, uw_state := st\<rparr>)
      else (Maps_Find (maps_of (uw_maps u) (uw_state u)) cur_pc, u))"

definition find_interface :: "(u64 \<Rightarrow> bool) \<Rightarrow> bool \<Rightarrow> unwind \<Rightarrow> (QutErrorCode + MapInfo \<times> QuickenInterface) \<times> unwind" where
  "find_interface readable update_maps_as_need u =
     (let cur_pc = PC (sc_regs (uw_step u));
          found = (case lookup_map readable update_maps_as_need u of (map_info, u) \<Rightarrow>
                     case map_info of
                       None \<Rightarrow> (Inl QUT_ERROR_INVALID_MAP, u)
                     | Some mi \<Rightarrow>
                         case quicken_interface mi of
                           None \<Rightarrow> (Inl QUT_ERROR_INVALID_ELF, u)
                         | Some qi \<Rightarrow> (Inr (mi, qi), u\<lparr>uw_last := Some (mi, qi)\<rparr>))
      in case uw_last u of
           Some (mi, qi) \<Rightarrow> if map_start mi \<le> cur_pc \<and> cur_pc < map_end mi then (Inr (mi, qi), u) else found
         | None \<Rightarrow> found)"

text \<open>The frame of an interpreted method, if the last step found one.\<close>

definition put_dex_frame :: "nat \<Rightarrow> unwind \<Rightarrow> (bool \<times> unwind) run" where
  "put_dex_frame frame_max_size u =
     (if sc_dex_pc (uw_step u) = 0 then Ret (True, u)
      else
        bindr (put_frame (\<lambda>f. set_pc (sc_dex_pc (uw_step u)) (set_frame_attr_all f)) u) (\<lambda>u.
          let u = u\<lparr>uw_step := uw_step u\<lparr>sc_dex_pc := 0\<rparr>\<rparr> in
          Ret (sc_frame_index (uw_step u) < frame_max_size, u)))"

text \<open>The step to the next frame, and the tests after it.\<close>

definition after_step :: "u64 \<Rightarrow> u64 \<Rightarrow> unwind \<Rightarrow> bool \<times> QutErrorCode \<times> StepContext \<Rightarrow> uflow" where
  "after_step cur_pc cur_sp u = (\<lambda>(step_ret, last_error_code, sc).
     let u = u\<lparr>uw_step := sc\<rparr> in
     if \<not> step_ret then UBreak last_error_code u
     else if sc_finished sc then UBreak QUT_ERROR_NONE u
     else if cur_pc = PC (sc_regs sc) \<and> cur_sp = SP (sc_regs sc) then UBreak QUT_ERROR_REPEATED_FRAME u
     else UGoOn u)"

definition take_step :: "stack \<Rightarrow> QuickenInterface \<Rightarrow> u64 \<Rightarrow> unwind \<Rightarrow> uflow run" where
  "take_step s qi pc_adjustment u =
     (let cur_pc = PC (sc_regs (uw_step u)); cur_sp = SP (sc_regs (uw_step u)) in
      if qi_jit_cache qi
      then bindr (StepJIT s qi (uw_step u\<lparr>sc_pc := cur_pc - pc_adjustment\<rparr>)) (\<lambda>r. Ret (after_step cur_pc cur_sp u r))
      else bindr (Step s qi (uw_step u)) (\<lambda>r. Ret (after_step cur_pc cur_sp u r)))"

definition visit_frame :: "stack \<Rightarrow> nat \<Rightarrow> MapInfo \<Rightarrow> QuickenInterface \<Rightarrow> u64 \<Rightarrow> u64 \<Rightarrow> unwind \<Rightarrow> uflow run" where
  "visit_frame s frame_max_size mi qi pc pc_adjustment u =
     bindr (put_dex_frame frame_max_size u) (\<lambda>(room, u).
       if \<not> room then Ret (UBreak QUT_ERROR_MAX_FRAMES_EXCEEDED u)
       else
         bindr (put_frame (\<lambda>f. (if maybe_java mi then set_frame_attr_maybe_java else id) (set_pc (pc - pc_adjustment) f)) u) (\<lambda>u.
           let u = u\<lparr>uw_adjust_pc := True\<rparr> in
           if \<not> sc_frame_index (uw_step u) < frame_max_size then Ret (UBreak QUT_ERROR_MAX_FRAMES_EXCEEDED u)
           else take_step s qi pc_adjustment u))"

definition unwind_round :: "(u64 \<Rightarrow> bool) \<Rightarrow> stack \<Rightarrow> bool \<Rightarrow> nat \<Rightarrow> unwind \<Rightarrow> uflow run" where
  "unwind_round readable s update_maps_as_need frame_max_size u =
     (let pc = PC (sc_regs (uw_step u)) in
      case find_interface readable update_maps_as_need u of
        (Inl code, u) \<Rightarrow> bindr (put_frame (set_pc (pc - 2)) u) (\<lambda>u. Ret (UBreak code u))
      | (Inr (mi, qi), u) \<Rightarrow>
          let rel_pc = GetRelPc mi pc in
          bindr (if uw_adjust_pc u then GetPcAdjustment (st_mem s) mi pc (ucast rel_pc) (ucast (qi_load_bias qi)) else Ret 0) (\<lambda>adj.
            visit_frame s frame_max_size mi qi pc (ucast adj) (u\<lparr>uw_step := uw_step u\<lparr>sc_pc := rel_pc - ucast adj\<rparr>\<rparr>)))"

section \<open>Rounds count frames\<close>

lemma StepInternal_index:
  "StepInternal s sec sc = Ret (ok, code, sc') \<Longrightarrow> sc_frame_index sc' = sc_frame_index sc"
  by (auto simp: StepInternal_def bindr_eq_Ret Let_def split: option.splits if_splits)

text \<open>How far a round has come, and what it leaves alone.\<close>

definition advances :: "nat \<Rightarrow> unwind \<Rightarrow> unwind \<Rightarrow> bool" where
  "advances n u u' \<longleftrightarrow> sc_frame_index (uw_step u) + n \<le> sc_frame_index (uw_step u') \<and>
     length (uw_backtrace u') = length (uw_backtrace u) \<and>
     (\<forall>i. sc_frame_index (uw_step u') \<le> i \<longrightarrow> i < length (uw_backtrace u) \<longrightarrow> uw_backtrace u' ! i = uw_backtrace u ! i) \<and>
     (\<forall>i < sc_frame_index (uw_step u). i < length (uw_backtrace u) \<longrightarrow> uw_backtrace u' ! i = uw_backtrace u ! i) \<and>
     (sc_frame_index (uw_step u) \<le> length (uw_backtrace u) \<longrightarrow> sc_frame_index (uw_step u') \<le> length (uw_backtrace u))"

lemma advances_refl: "advances 0 u u"
  by (simp add: advances_def)

lemma advances_trans: "advances m u v \<Longrightarrow> advances n v w \<Longrightarrow> advances (m + n) u w"
  unfolding advances_def by auto

lemma advances_same:
  "sc_frame_index (uw_step v) = sc_frame_index (uw_step u) \<Longrightarrow> uw_backtrace v = uw_backtrace u \<Longrightarrow> advances 0 u v"
  by (simp add: advances_def)

lemma put_frame_advances: "put_frame f u = Ret v \<Longrightarrow> advances 1 u v"
  by (auto simp: put_frame_def advances_def Let_def split: if_splits)

lemma find_interface_frames:
  "find_interface readable upd u = (r, u') \<Longrightarrow> uw_step u' = uw_step u \<and> uw_backtrace u' = uw_backtrace u"
  by (auto simp: find_interface_def lookup_map_def Let_def split: option.splits prod.splits if_splits)

lemma put_dex_advances: "put_dex_frame n u = Ret (room, v) \<Longrightarrow> sc_frame_index (uw_step u) < n \<Longrightarrow>
  advances (if room then 0 else 1) u v \<and> (room \<longrightarrow> sc_frame_index (uw_step v) < n)"
proof -
  assume a: "put_dex_frame n u = Ret (room, v)" "sc_frame_index (uw_step u) < n"
  show ?thesis
  proof (cases "sc_dex_pc (uw_step u) = 0")
    case True
    with a show ?thesis by (auto simp: put_dex_frame_def advances_refl)
  next
    case False
    with a obtain w where w: "put_frame (\<lambda>f. set_pc (sc_dex_pc (uw_step u)) (set_frame_attr_all f)) u = Ret w"
      "v = w\<lparr>uw_step := uw_step w\<lparr>sc_dex_pc := 0\<rparr>\<rparr>" by (auto simp: put_dex_frame_def bindr_eq_Ret Let_def)
    moreover from a False w have "room \<longleftrightarrow> sc_frame_index (uw_step v) < n"
      by (auto simp: put_dex_frame_def bindr_eq_Ret Let_def)
    ultimately show ?thesis using put_frame_advances [OF w(1)] by (auto simp: advances_def)
  qed
qed

fun flow_state :: "uflow \<Rightarrow> unwind" where
  "flow_state (UGoOn u) = u" | "flow_state (UBreak code u) = u"

lemma after_step_advances: "sc_frame_index sc = sc_frame_index (uw_step u) \<Longrightarrow> advances 0 u (flow_state (after_step pc sp u (ok, code, sc)))"
  by (rule advances_same) (auto simp: after_step_def Let_def)

text \<open>What the walk relies on in a step: it leaves the number of frames alone.\<close>

locale stepper =
  fixes step :: "stack \<Rightarrow> QuickenInterface \<Rightarrow> StepContext \<Rightarrow> (bool \<times> QutErrorCode \<times> StepContext) run"
  assumes keeps_index: "step s qi sc = Ret (ok, code, sc') \<Longrightarrow> sc_frame_index sc' = sc_frame_index sc"
begin

lemma step_advances:
  assumes "bindr (step s qi sc) (\<lambda>r. Ret (after_step pc sp u r)) = Ret f" "sc_frame_index sc = sc_frame_index (uw_step u)"
  shows "advances 0 u (flow_state f)"
proof -
  from assms(1) obtain ok code sc' where "step s qi sc = Ret (ok, code, sc')" "f = after_step pc sp u (ok, code, sc')"
    by (auto simp: bindr_eq_Ret)
  then show ?thesis using keeps_index assms(2) by (auto intro: after_step_advances)
qed

end

interpretation plain: stepper Step
  by unfold_locales (auto simp: Step_def dest: StepInternal_index split: option.splits if_splits)

interpretation jit: stepper StepJIT
  by unfold_locales (auto simp: StepJIT_def dest: StepInternal_index split: option.splits if_splits)

lemma take_step_advances: "take_step s qi adj u = Ret f \<Longrightarrow> advances 0 u (flow_state f)"
  by (auto simp: take_step_def Let_def elim!: plain.step_advances jit.step_advances split: if_splits)

lemma visit_frame_advances:
  assumes "visit_frame s n mi qi pc adj u = Ret f" "sc_frame_index (uw_step u) < n"
  shows "advances 1 u (flow_state f)"
proof -
  from assms(1) obtain room v where d: "put_dex_frame n u = Ret (room, v)" by (auto simp: visit_frame_def bindr_eq_Ret)
  note dex = put_dex_advances [OF d assms(2)]
  show ?thesis
  proof (cases room)
    case True
    with assms(1) d obtain g w where w: "put_frame g v = Ret w"
      and f: "f = UBreak QUT_ERROR_MAX_FRAMES_EXCEEDED (w\<lparr>uw_adjust_pc := True\<rparr>) \<or> take_step s qi adj (w\<lparr>uw_adjust_pc := True\<rparr>) = Ret f"
      by (auto simp: visit_frame_def bindr_eq_Ret Let_def split: if_splits)
    have "advances 1 u w" using advances_trans [OF _ put_frame_advances [OF w], of 0 u] dex True by simp
    then have "advances 1 u (w\<lparr>uw_adjust_pc := True\<rparr>)" by (simp add: advances_def)
    then show ?thesis using f advances_trans [OF _ take_step_advances, of 1 u] by auto
  qed (use assms d dex in \<open>auto simp: visit_frame_def\<close>)
qed

lemma unwind_round_advances:
  assumes "unwind_round readable s upd n u = Ret f" "sc_frame_index (uw_step u) < n"
  shows "advances 1 u (flow_state f)"
proof -
  obtain r u1 where fi: "find_interface readable upd u = (r, u1)" by force
  then have 1: "advances 0 u u1" and i: "sc_frame_index (uw_step u1) = sc_frame_index (uw_step u)"
    using find_interface_frames [OF fi] by (auto intro: advances_same)
  show ?thesis
  proof (cases r)
    case (Inl code)
    with assms fi obtain g w where "put_frame g u1 = Ret w" "f = UBreak code w"
      by (auto simp: unwind_round_def Let_def bindr_eq_Ret)
    then show ?thesis using advances_trans [OF 1 put_frame_advances] by simp
  next
    case (Inr x)
    with assms fi obtain mi qi pc adj p where v: "visit_frame s n mi qi pc adj (u1\<lparr>uw_step := uw_step u1\<lparr>sc_pc := p\<rparr>\<rparr>) = Ret f"
      by (cases x) (auto simp: unwind_round_def Let_def bindr_eq_Ret)
    have "advances 0 u (u1\<lparr>uw_step := uw_step u1\<lparr>sc_pc := p\<rparr>\<rparr>)" using 1 by (simp add: advances_def)
    from advances_trans [OF this visit_frame_advances [OF v]] i assms(2) show ?thesis by simp
  qed
qed

text \<open>The loop ends: every round that goes on has counted a frame.\<close>

function unwind_loop :: "(u64 \<Rightarrow> bool) \<Rightarrow> stack \<Rightarrow> bool \<Rightarrow> nat \<Rightarrow> unwind \<Rightarrow> (QutErrorCode \<times> unwind) run" where
  "unwind_loop readable s update_maps_as_need frame_max_size u =
     (if \<not> sc_frame_index (uw_step u) < frame_max_size then Ret (QUT_ERROR_NONE, u)
      else bindr (unwind_round readable s update_maps_as_need frame_max_size u) (\<lambda>f. case f of
          UGoOn u \<Rightarrow> unwind_loop readable s update_maps_as_need frame_max_size u
        | UBreak code u \<Rightarrow> Ret (code, u)))"
  by pat_completeness auto
termination
proof (relation "measure (\<lambda>(r, s, upd, n, u). n - sc_frame_index (uw_step u))", goal_cases)
  case (2 r s upd n u f u')
  then show ?case using unwind_round_advances [of r s upd n u f] by (auto simp: advances_def)
qed simp

declare unwind_loop.simps [simp del]

record QuickenContext =
  qc_regs :: regs
  qc_frame_max_size :: nat
  qc_backtrace :: "Frame list"
  qc_frame_size :: nat
  qc_update_maps_as_need :: bool

definition WeChatQuickenUnwind ::
    "(u64 \<Rightarrow> bool) \<Rightarrow> stack \<Rightarrow> QuickenContext option \<Rightarrow> maps_state \<Rightarrow> (QutErrorCode \<times> QuickenContext option \<times> maps_state) run" where
  "WeChatQuickenUnwind readable s context st =
     (case context of
        None \<Rightarrow> Ret (QUT_ERROR_CONTEXT_IS_NULL, None, st)
      | Some c \<Rightarrow>
          (case Maps_current st of
             (None, st) \<Rightarrow> Ret (QUT_ERROR_MAPS_IS_NULL, Some c, st)
           | (Some maps, st) \<Rightarrow>
               bindr (unwind_loop readable s (qc_update_maps_as_need c) (qc_frame_max_size c)
                        \<lparr>uw_step = \<lparr>sc_regs = qc_regs c, sc_pc = 0, sc_dex_pc = 0, sc_frame_index = 0, sc_finished = False\<rparr>,
                         uw_maps = maps, uw_state = st, uw_last = None, uw_adjust_pc = False, uw_backtrace = qc_backtrace c\<rparr>) (\<lambda>(ret, u).
                 Ret (ret, Some (c\<lparr>qc_regs := sc_regs (uw_step u), qc_backtrace := uw_backtrace u,
                   qc_frame_size := sc_frame_index (uw_step u)\<rparr>), uw_state u))))"

section \<open>Bounds\<close>

lemma unwind_loop_advances:
  "unwind_loop readable s upd n u = Ret (code, u') \<Longrightarrow> advances 0 u u'"
proof (induction readable s upd n u rule: unwind_loop.induct)
  case (1 readable s upd n u)
  show ?case
  proof (cases "sc_frame_index (uw_step u) < n")
    case True
    with 1(2) obtain f where f: "unwind_round readable s upd n u = Ret f"
      by (subst (asm) unwind_loop.simps) (auto simp: bindr_eq_Ret)
    note adv = unwind_round_advances [OF f True]
    show ?thesis
    proof (cases f)
      case (UGoOn v)
      with 1(2) f True have "unwind_loop readable s upd n v = Ret (code, u')" by (subst (asm) unwind_loop.simps) simp
      then have "advances 0 v u'" using 1(1) [OF _ f UGoOn] True by simp
      with adv UGoOn have "advances 1 u u'" using advances_trans [of 1 u v 0 u'] by simp
      then show ?thesis by (simp add: advances_def)
    next
      case (UBreak c v)
      with 1(2) f True have "u' = v" by (subst (asm) unwind_loop.simps) simp
      with adv UBreak show ?thesis by (simp add: advances_def)
    qed
  next
    case False
    with 1(2) show ?thesis by (subst (asm) unwind_loop.simps) (simp add: advances_refl)
  qed
qed

section \<open>The walk returns\<close>

definition rets :: "'a run \<Rightarrow> bool" where
  "rets m \<longleftrightarrow> (\<exists>x. m = Ret x)"

lemma rets_Ret [simp]: "rets (Ret x)"
  by (simp add: rets_def)

lemma rets_bindr: "rets m \<Longrightarrow> (\<And>x. m = Ret x \<Longrightarrow> rets (f x)) \<Longrightarrow> rets (bindr m f)"
  by (auto simp: rets_def)

lemma ldbytes_rets: "(\<And>i. i < k \<Longrightarrow> m (a + of_nat i) \<noteq> None) \<Longrightarrow> rets (ldbytes m a k)"
proof (induction k arbitrary: a)
  case (Suc k)
  from Suc.prems [of 0] obtain b where "m a = Some b" by auto
  moreover have "rets (ldbytes m (a + 1) k)"
  proof (rule Suc.IH)
    fix i
    assume "i < k"
    then show "m (a + 1 + of_nat i) \<noteq> None" using Suc.prems [of "Suc i"] by (simp add: ac_simps)
  qed
  ultimately show ?case by (auto simp: rets_def ld8_def)
qed simp

text \<open>The stack can be read between its bounds, and by a load that starts on the upper one.\<close>

definition stack_mapped :: "stack \<Rightarrow> bool" where
  "stack_mapped s \<longleftrightarrow> (\<forall>a i. stack_bottom s \<le> a \<longrightarrow> a \<le> stack_top s \<longrightarrow> i < 8 \<longrightarrow> st_mem s (a + of_nat i) \<noteq> None)"

lemma ReadStack_rets: "stack_mapped s \<Longrightarrow> rets (ReadStack s a)"
  by (auto simp: ReadStack_def ld64_def stack_mapped_def not_less intro!: rets_bindr ldbytes_rets)

lemma exec_rets: "stack_mapped s \<Longrightarrow> rets (exec s is t)"
proof (induction "is" arbitrary: t)
  case (Cons x xs)
  have r: "rets (exec_restore s imm upd t)" for imm upd
    using Cons.prems by (auto simp: exec_restore_def intro!: rets_bindr ReadStack_rets)
  have "rets (exec1 s (ins_op x) (ins_imm x) t)"
    unfolding exec1_def by (auto simp: r intro!: rets_bindr)
  with Cons show ?case by (auto intro!: rets_bindr split: option.split)
qed simp

text \<open>Sections as the generator makes them.\<close>

definition generated :: "QutSections \<Rightarrow> bool" where
  "generated sec \<longleftrightarrow> (\<exists>es. small_table es \<and> sorted_wrt (<) (map fst es) \<and> length es < 2 ^ 30 \<and>
     list_all (\<lambda>(_, _, is). encodable is) es \<and> PackEntriesToQutSections es = Ret sec)"

lemma StepInternal_rets: "generated sec \<Longrightarrow> stack_mapped s \<Longrightarrow> rets (StepInternal s sec sc)"
proof -
  assume "generated sec" and s: "stack_mapped s"
  then obtain es where "StepInternal s sec sc = (case covering es (sc_pc sc) of
      None \<Rightarrow> Ret (False, QUT_ERROR_UNWIND_INFO, sc) | Some is \<Rightarrow> unwound s is sc)"
    unfolding generated_def using packed_steps by (metis run.inject)
  with s show ?thesis by (auto simp: unwound_def Let_def intro!: rets_bindr exec_rets split: option.split)
qed

definition sound_interface :: "QuickenInterface \<Rightarrow> bool" where
  "sound_interface qi \<longleftrightarrow> (\<forall>sec. qi_sections qi = Some sec \<longrightarrow> generated sec) \<and>
     (\<forall>f pc sec. qi_in_memory qi = Some f \<longrightarrow> f pc = Some sec \<longrightarrow> generated sec) \<and>
     (\<forall>f pc sec. qi_debug_jit qi = Some f \<longrightarrow> f pc = Some sec \<longrightarrow> generated sec)"

text \<open>And that it returns where the tables were generated.\<close>

locale safe_stepper = stepper +
  assumes step_rets: "sound_interface qi \<Longrightarrow> stack_mapped s \<Longrightarrow> rets (step s qi sc)"
begin

lemma judged_rets: "sound_interface qi \<Longrightarrow> stack_mapped s \<Longrightarrow> rets (bindr (step s qi sc) (\<lambda>r. Ret (g r)))"
  by (rule rets_bindr) (simp_all add: step_rets)

end

interpretation safe_plain: safe_stepper Step
  by unfold_locales (auto simp: Step_def sound_interface_def intro!: StepInternal_rets split: option.split)

interpretation safe_jit: safe_stepper StepJIT
  by unfold_locales (auto simp: StepJIT_def sound_interface_def intro!: StepInternal_rets split: option.split)

lemma take_step_rets: "sound_interface qi \<Longrightarrow> stack_mapped s \<Longrightarrow> rets (take_step s qi adj u)"
  by (simp add: take_step_def Let_def safe_plain.judged_rets safe_jit.judged_rets)

text \<open>The code of a readable mapping can be read, no mapping starts in the first bytes of memory, and the tables of a
  mapping were generated.\<close>

definition sound_map :: "stack \<Rightarrow> MapInfo \<Rightarrow> bool" where
  "sound_map s mi \<longleftrightarrow> 5 \<le> map_start mi \<and>
     (map_flags mi AND MAP_FLAG_READ \<noteq> 0 \<longrightarrow> (\<forall>a. map_start mi \<le> a \<longrightarrow> a < map_end mi \<longrightarrow> st_mem s a \<noteq> None)) \<and>
     (\<forall>qi. quicken_interface mi = Some qi \<longrightarrow> sound_interface qi)"

definition sound_maps :: "stack \<Rightarrow> maps_state \<Rightarrow> bool" where
  "sound_maps s st \<longleftrightarrow> (\<forall>ms mi. Some ms \<in> set (objects st) \<union> set (readings st) \<longrightarrow> mi \<in> set ms \<longrightarrow> sound_map s mi)"

lemma adjustment_rets:
  assumes "sound_map s mi" "map_start mi \<le> pc" "pc < map_end mi"
  shows "rets (GetPcAdjustment (st_mem s) mi pc rel bias)"
proof -
  have "rets (ld32 (st_mem s) (pc - 5))" if "map_flags mi AND MAP_FLAG_READ \<noteq> 0" "map_start mi \<le> pc - 5"
    unfolding ld32_def
  proof (intro rets_bindr ldbytes_rets rets_Ret)
    fix i :: nat
    assume i: "i < 4"
    have pc: "5 \<le> pc" using assms(1, 2) by (auto simp: sound_map_def)
    have "unat (pc - 5 + of_nat i) = unat pc - 5 + i"
    proof -
      have "unat pc - 5 + i < 2 ^ 64" using i unsigned_less [of pc, where 'a = nat] pc by (simp add: word_le_nat_alt)
      then show ?thesis using i pc by (simp add: unat_word_ariths unat_of_nat word_le_nat_alt unat_sub)
    qed
    then have "map_start mi \<le> pc - 5 + of_nat i" "pc - 5 + of_nat i < map_end mi"
      using that(2) assms(3) i pc by (auto simp: word_le_nat_alt word_less_nat_alt unat_sub)
    with that(1) assms(1) show "st_mem s (pc - 5 + of_nat i) \<noteq> None" by (auto simp: sound_map_def)
  qed
  then show ?thesis by (auto simp: GetPcAdjustment_def Let_def not_less intro!: rets_bindr)
qed

lemma find_map_some:
  "find_map ms pc f l = Some mi \<Longrightarrow> l \<le> length ms \<Longrightarrow> mi \<in> set ms \<and> map_start mi \<le> pc \<and> pc < map_end mi"
proof (induction ms pc f l rule: find_map.induct)
  case (1 ms pc f l)
  let ?i = "(f + l) div 2"
  show ?case
  proof (cases "f < l \<and> \<not> (map_start (ms ! ?i) \<le> pc \<and> pc < map_end (ms ! ?i))")
    case True
    with 1 show ?thesis
      by (cases "pc < map_start (ms ! ?i)") (auto simp: find_map.simps [of ms pc f l] Let_def)
  next
    case False
    with 1(3, 4) show ?thesis by (auto simp: find_map.simps [of ms pc f l] Let_def split: if_splits)
  qed
qed

lemma Maps_Find_sound:
  assumes "Maps_Find (maps_of h st) pc = Some mi" "sound_maps s st"
  shows "sound_map s mi" "map_start mi \<le> pc" "pc < map_end mi"
proof -
  from assms(1) obtain ms where ms: "h < length (objects st)" "objects st ! h = Some ms" "find_map ms pc 0 (length ms) = Some mi"
    by (auto simp: Maps_Find_def maps_of_def split: option.splits if_splits)
  have "Some ms \<in> set (objects st)" using ms(1, 2) nth_mem by metis
  with find_map_some [OF ms(3) order_refl] assms(2) show "sound_map s mi" "map_start mi \<le> pc" "pc < map_end mi"
    by (auto simp: sound_maps_def)
qed

lemma Maps_Parse_sound: "sound_maps s st \<Longrightarrow> sound_maps s (snd (Maps_Parse h st))"
  by (auto simp: Maps_Parse_def sound_maps_def split: list.split option.split)

lemma Maps_current_sound: "sound_maps s st \<Longrightarrow> sound_maps s (snd (Maps_current st))"
  by (auto simp: Maps_current_def Let_def Maps_Parse_sound)

definition sound :: "stack \<Rightarrow> unwind \<Rightarrow> bool" where
  "sound s u \<longleftrightarrow> sound_maps s (uw_state u) \<and>
     (\<forall>mi qi. uw_last u = Some (mi, qi) \<longrightarrow> sound_map s mi \<and> quicken_interface mi = Some qi)"

text \<open>What a lookup gives, and what it keeps.\<close>

definition looked_up :: "stack \<Rightarrow> u64 \<Rightarrow> MapInfo option \<times> unwind \<Rightarrow> bool" where
  "looked_up s pc = (\<lambda>(map_info, u). sound s u \<and>
     (\<forall>mi. map_info = Some mi \<longrightarrow> sound_map s mi \<and> map_start mi \<le> pc \<and> pc < map_end mi))"

lemma GetMapInfo_sound:
  assumes "GetMapInfo readable h pc st = (map_info, h', st')" "sound_maps s st"
  shows "sound_maps s st' \<and> (\<forall>mi. map_info = Some mi \<longrightarrow> sound_map s mi \<and> map_start mi \<le> pc \<and> pc < map_end mi)"
proof (cases "Maps_Find (maps_of h st) pc = None \<and> readable pc")
  case True
  let ?st = "snd (Maps_Parse (Some h) st)"
  have "map_info = Maps_Find (maps_of h ?st) pc" "st' = snd (Maps_current ?st)"
    using assms(1) True by (auto simp: GetMapInfo_def Let_def split: prod.splits)
  moreover note Maps_Parse_sound [OF assms(2), of "Some h"]
  ultimately show ?thesis using Maps_current_sound Maps_Find_sound by metis
next
  case False
  then show ?thesis using assms Maps_Find_sound by (auto simp: GetMapInfo_def split: option.splits)
qed

lemma find_interface_sound:
  assumes "find_interface readable upd u = (r, u')" "sound s u"
  shows "sound s u' \<and> (\<forall>mi qi. r = Inr (mi, qi) \<longrightarrow> sound_map s mi \<and> quicken_interface mi = Some qi \<and>
    map_start mi \<le> PC (sc_regs (uw_step u)) \<and> PC (sc_regs (uw_step u)) < map_end mi)"
proof -
  let ?pc = "PC (sc_regs (uw_step u))"
  have maps: "sound_maps s (uw_state u)" using assms(2) by (simp add: sound_def)
  have l: "looked_up s ?pc (lookup_map readable upd u)"
  proof (cases upd)
    case True
    obtain mi h st where g: "GetMapInfo readable (uw_maps u) ?pc (uw_state u) = (mi, h, st)" by (cases rule: prod_cases3) auto
    with GetMapInfo_sound [OF g maps] True assms(2) show ?thesis by (auto simp: lookup_map_def looked_up_def sound_def)
  next
    case False
    with Maps_Find_sound [OF _ maps] assms(2) show ?thesis by (auto simp: lookup_map_def looked_up_def)
  qed
  obtain map_info v where "lookup_map readable upd u = (map_info, v)" by force
  then show ?thesis using assms l
    by (auto simp: find_interface_def looked_up_def sound_def Let_def split: option.splits if_splits)
qed

lemma sound_upd [simp]:
  "sound s (u\<lparr>uw_step := sc\<rparr>) \<longleftrightarrow> sound s u" "sound s (u\<lparr>uw_adjust_pc := b\<rparr>) \<longleftrightarrow> sound s u"
  "sound s (u\<lparr>uw_backtrace := fs\<rparr>) \<longleftrightarrow> sound s u"
  by (simp_all add: sound_def)

lemma rounds_keep_sound:
  "put_frame f u = Ret v \<Longrightarrow> sound s v \<longleftrightarrow> sound s u"
  "put_dex_frame n u = Ret (room, v) \<Longrightarrow> sound s v \<longleftrightarrow> sound s u"
  "take_step s' qi adj u = Ret fl \<Longrightarrow> sound s (flow_state fl) \<longleftrightarrow> sound s u"
proof -
  show p: "put_frame f u = Ret v \<Longrightarrow> sound s v \<longleftrightarrow> sound s u" for f u v
    by (auto simp: put_frame_def Let_def split: if_splits)
  show "put_dex_frame n u = Ret (room, v) \<Longrightarrow> sound s v \<longleftrightarrow> sound s u"
    by (auto simp: put_dex_frame_def Let_def bindr_eq_Ret p split: if_splits)
  show "take_step s' qi adj u = Ret fl \<Longrightarrow> sound s (flow_state fl) \<longleftrightarrow> sound s u"
    by (auto simp: take_step_def after_step_def Let_def bindr_eq_Ret split: if_splits)
qed

lemma visit_frame_sound:
  assumes "visit_frame s' n mi qi pc adj u = Ret f"
  shows "sound s (flow_state f) \<longleftrightarrow> sound s u"
proof -
  from assms obtain room v where d: "put_dex_frame n u = Ret (room, v)" by (auto simp: visit_frame_def bindr_eq_Ret)
  show ?thesis
  proof (cases room)
    case True
    with assms d obtain g w where w: "put_frame g v = Ret w"
      and f: "f = UBreak QUT_ERROR_MAX_FRAMES_EXCEEDED (w\<lparr>uw_adjust_pc := True\<rparr>) \<or> take_step s' qi adj (w\<lparr>uw_adjust_pc := True\<rparr>) = Ret f"
      by (auto simp: visit_frame_def bindr_eq_Ret Let_def split: if_splits)
    have "sound s (flow_state f) \<longleftrightarrow> sound s w"
      using f rounds_keep_sound(3) [of s' qi adj "w\<lparr>uw_adjust_pc := True\<rparr>" f s] by auto
    then show ?thesis using rounds_keep_sound(1) [OF w] rounds_keep_sound(2) [OF d] by simp
  next
    case False
    with assms d have "flow_state f = v" by (auto simp: visit_frame_def)
    then show ?thesis using rounds_keep_sound(2) [OF d] by simp
  qed
qed

lemma put_frame_rets: "sc_frame_index (uw_step u) < length (uw_backtrace u) \<Longrightarrow> rets (put_frame f u)"
  by (simp add: put_frame_def Let_def)

lemma visit_frame_rets:
  assumes "stack_mapped s" "sound_interface qi" "sc_frame_index (uw_step u) < n" "n \<le> length (uw_backtrace u)"
  shows "rets (visit_frame s n mi qi pc adj u)"
proof -
  have d: "rets (put_dex_frame n u)"
    using assms by (auto simp: put_dex_frame_def Let_def intro!: rets_bindr put_frame_rets)
  have "sc_frame_index (uw_step v) < length (uw_backtrace v)" if "put_dex_frame n u = Ret (True, v)" for v
    using put_dex_advances [OF that assms(3)] assms(4) by (auto simp: advances_def)
  then show ?thesis unfolding visit_frame_def
    using assms d by (auto simp: Let_def intro!: rets_bindr put_frame_rets take_step_rets)
qed

lemma unwind_round_rets:
  assumes "stack_mapped s" "sound s u" "sc_frame_index (uw_step u) < n" "n \<le> length (uw_backtrace u)"
  shows "rets (unwind_round readable s upd n u) \<and> (\<forall>f. unwind_round readable s upd n u = Ret f \<longrightarrow> sound s (flow_state f))"
proof -
  obtain r u1 where fi: "find_interface readable upd u = (r, u1)" by force
  note fs = find_interface_sound [OF fi assms(2)]
  have i: "uw_step u1 = uw_step u" "uw_backtrace u1 = uw_backtrace u" using find_interface_frames [OF fi] by simp_all
  show ?thesis
  proof (cases r)
    case (Inl code)
    have "rets (put_frame f u1)" for f using assms(3, 4) i by (simp add: put_frame_rets)
    moreover have "sound s w" if "put_frame f u1 = Ret w" for f w using rounds_keep_sound(1) [OF that] fs by simp
    ultimately show ?thesis using Inl fi by (auto simp: unwind_round_def Let_def bindr_eq_Ret intro!: rets_bindr)
  next
    case (Inr x)
    obtain mi qi where x: "x = (mi, qi)" by force
    have mi: "sound_map s mi" "sound_interface qi" using fs Inr x by (auto simp: sound_map_def)
    have "rets (visit_frame s n mi qi pc adj (u1\<lparr>uw_step := uw_step u1\<lparr>sc_pc := p\<rparr>\<rparr>))" for pc adj p
      using assms i mi(2) by (intro visit_frame_rets) simp_all
    moreover have "sound s (flow_state f)" if "visit_frame s n mi qi pc adj (u1\<lparr>uw_step := sc\<rparr>) = Ret f" for pc adj sc f
      using visit_frame_sound [OF that] fs by simp
    moreover have "rets (GetPcAdjustment (st_mem s) mi (PC (sc_regs (uw_step u))) rel bias)" for rel bias
      using fs Inr x by (intro adjustment_rets) auto
    ultimately show ?thesis using Inr x fi by (auto simp: unwind_round_def Let_def bindr_eq_Ret intro!: rets_bindr)
  qed
qed

lemma unwind_loop_rets:
  assumes "stack_mapped s" "sound s u" "n \<le> length (uw_backtrace u)"
  shows "rets (unwind_loop readable s upd n u)"
  using assms
proof (induction readable s upd n u rule: unwind_loop.induct)
  case (1 readable s upd n u)
  show ?case
  proof (cases "sc_frame_index (uw_step u) < n")
    case True
    from unwind_round_rets [OF 1(2, 3) True 1(4), of readable upd] obtain f where
      f: "unwind_round readable s upd n u = Ret f" "sound s (flow_state f)" by (auto simp: rets_def)
    have "n \<le> length (uw_backtrace (flow_state f))" using unwind_round_advances [OF f(1) True] 1(4) by (simp add: advances_def)
    then have "rets (unwind_loop readable s upd n v)" if "f = UGoOn v" for v
      using 1(1) [OF _ f(1) that 1(2)] f(2) True that by simp
    then show ?thesis using f(1) True by (subst unwind_loop.simps) (cases f; simp)
  qed (simp add: unwind_loop.simps [of readable s upd n u])
qed

section \<open>Finding a mapping\<close>

text \<open>Mappings as the kernel lists them.\<close>

definition ordered_maps :: "MapInfo list \<Rightarrow> bool" where
  "ordered_maps ms \<longleftrightarrow> (\<forall>mi \<in> set ms. map_start mi < map_end mi) \<and> sorted_wrt (\<lambda>a b. map_end a \<le> map_start b) ms"

lemma find_map_none:
  assumes "ordered_maps ms" "f \<le> l" "l \<le> length ms" "find_map ms pc f l = None"
    "\<forall>i < f. map_end (ms ! i) \<le> pc" "\<forall>i. l \<le> i \<and> i < length ms \<longrightarrow> pc < map_start (ms ! i)"
  shows "\<forall>mi \<in> set ms. \<not> (map_start mi \<le> pc \<and> pc < map_end mi)"
  using assms
proof (induction ms pc f l rule: find_map.induct)
  case (1 ms pc f l)
  show ?case
  proof (cases "f < l")
    case True
    define c where "c = (f + l) div 2"
    have c: "f \<le> c" "c < l" "c < length ms" using True 1(5) by (auto simp: c_def)
    have out: "\<not> (map_start (ms ! c) \<le> pc \<and> pc < map_end (ms ! c))"
      and next_ps: "if pc < map_start (ms ! c) then find_map ms pc f c = None else find_map ms pc (c + 1) l = None"
      using True 1(6) by (auto simp: find_map.simps [of ms pc f l] Let_def c_def split: if_splits)
    have before: "map_start (ms ! i) < map_end (ms ! i)" if "i < length ms" for i
      using 1(3) that by (auto simp: ordered_maps_def)
    have order: "map_end (ms ! i) \<le> map_start (ms ! j)" if "i < j" "j < length ms" for i j
      using 1(3) that by (auto simp: ordered_maps_def sorted_wrt_iff_nth_less)
    show ?thesis
    proof (cases "pc < map_start (ms ! c)")
      case True
      have "pc < map_start (ms ! i)" if "c \<le> i" "i < length ms" for i
        using that True order [of c i] before [OF c(3)] by (cases "i = c") auto
      then show ?thesis using 1(1) [OF _ c_def refl out True 1(3) c(1)] \<open>f < l\<close> True next_ps 1(7) c by auto
    next
      case False
      then have e: "map_end (ms ! c) \<le> pc" using out by auto
      have "map_end (ms ! i) \<le> pc" if "i < c + 1" for i
        using that e order [of i c] before [OF c(3)] c(3) by (cases "i = c") auto
      then show ?thesis using 1(2) [OF _ c_def refl out False 1(3)] \<open>f < l\<close> False next_ps 1(5, 8) c by auto
    qed
  next
    case False
    with 1(4) have "f = l" by simp
    show ?thesis
    proof
      fix mi
      assume "mi \<in> set ms"
      then obtain i where "i < length ms" "ms ! i = mi" by (auto simp: in_set_conv_nth)
      with 1(7, 8) \<open>f = l\<close> show "\<not> (map_start mi \<le> pc \<and> pc < map_end mi)" by (cases "i < f") (auto simp: not_less)
    qed
  qed
qed

text \<open>among mappings in the order of the maps file, the search finds the mapping that holds an address, and
  finds nothing exactly where no mapping holds it.\<close>

theorem Maps_Find_correct:
  assumes "ordered_maps ms"
  shows "Maps_Find (Some ms) pc = Some mi \<longleftrightarrow> mi \<in> set ms \<and> map_start mi \<le> pc \<and> pc < map_end mi"
proof
  assume "Maps_Find (Some ms) pc = Some mi"
  then show "mi \<in> set ms \<and> map_start mi \<le> pc \<and> pc < map_end mi"
    using find_map_some [of ms pc 0 "length ms"] by (simp add: Maps_Find_def)
next
  assume a: "mi \<in> set ms \<and> map_start mi \<le> pc \<and> pc < map_end mi"
  show "Maps_Find (Some ms) pc = Some mi"
  proof (cases "find_map ms pc 0 (length ms)")
    case None
    have "\<forall>mi \<in> set ms. \<not> (map_start mi \<le> pc \<and> pc < map_end mi)"
      by (rule find_map_none [OF assms _ _ None]) auto
    with a show ?thesis by blast
  next
    case (Some m)
    from find_map_some [OF this] have m: "m \<in> set ms" "map_start m \<le> pc" "pc < map_end m" by simp_all
    then obtain i j where ij: "i < length ms" "ms ! i = m" "j < length ms" "ms ! j = mi"
      using a by (metis in_set_conv_nth)
    have "map_end (ms ! i) \<le> map_start (ms ! j)" if "i < j" "j < length ms" for i j
      using assms that by (simp add: ordered_maps_def sorted_wrt_iff_nth_less)
    from this [of i j] this [of j i] have "\<not> i < j" "\<not> j < i" using ij m a by (auto dest: leD order.trans)
    then show ?thesis using Some ij by (auto simp: Maps_Find_def)
  qed
qed

text \<open>asking for the maps to be read again when an address is in no mapping changes nothing: the reading is
  skipped where the maps asked are the current ones, and its result would not be searched otherwise. A
  library loaded since is not found.\<close>

theorem maps_never_refreshed:
  assumes "h < length (objects st)"
  shows "fst (GetMapInfo readable h pc st) = Maps_Find (maps_of h st) pc \<and>
    (current_maps st = Some h \<longrightarrow> GetMapInfo readable h pc st = (Maps_Find (maps_of h st) pc, h, st))"
proof -
  have "maps_of h (snd (Maps_Parse (Some h) st)) = maps_of h st"
    using assms by (auto simp: maps_of_def Maps_Parse_def nth_append split: list.split option.split)
  then show ?thesis
    by (auto simp: GetMapInfo_def Let_def Maps_current_def Maps_Parse_def split: option.split prod.split)
qed

text \<open>C6: a walk over a stack ends and stays inside the array of the caller: over a mapped stack, with tables from
  the generator whose entries the encoding can express (\<open>sound_maps\<close>), it returns; it counts at most as many frames as the array has room for, stores no frame
  outside the array, and leaves the ones behind the counted ones alone.\<close>

theorem unwind_returns_in_bounds:
  assumes "length (qc_backtrace c) = qc_frame_max_size c" "stack_mapped s" "sound_maps s st"
  shows "\<exists>code d st'. WeChatQuickenUnwind readable s (Some c) st = Ret (code, Some d, st') \<and>
    (code = QUT_ERROR_MAPS_IS_NULL \<and> d = c \<or>
     length (qc_backtrace d) = qc_frame_max_size c \<and> qc_frame_size d \<le> qc_frame_max_size c \<and>
     drop (qc_frame_size d) (qc_backtrace d) = drop (qc_frame_size d) (qc_backtrace c))"
proof -
  obtain cur st1 where cur: "Maps_current st = (cur, st1)" by force
  show ?thesis
  proof (cases cur)
    case (Some h)
    define u where "u = \<lparr>uw_step = \<lparr>sc_regs = qc_regs c, sc_pc = 0, sc_dex_pc = 0, sc_frame_index = 0, sc_finished = False\<rparr>,
      uw_maps = h, uw_state = st1, uw_last = None, uw_adjust_pc = False, uw_backtrace = qc_backtrace c\<rparr>"
    have "sound s u" using Maps_current_sound [OF assms(3)] cur by (simp add: sound_def u_def)
    then have "rets (unwind_loop readable s (qc_update_maps_as_need c) (qc_frame_max_size c) u)"
      using assms(1, 2) by (intro unwind_loop_rets) (simp_all add: u_def)
    then obtain code v where v: "unwind_loop readable s (qc_update_maps_as_need c) (qc_frame_max_size c) u = Ret (code, v)"
      by (auto simp: rets_def)
    have a: "length (uw_backtrace v) = length (qc_backtrace c)" "sc_frame_index (uw_step v) \<le> length (qc_backtrace c)"
      "\<And>i. sc_frame_index (uw_step v) \<le> i \<Longrightarrow> i < length (qc_backtrace c) \<Longrightarrow> uw_backtrace v ! i = qc_backtrace c ! i"
      using unwind_loop_advances [OF v] by (auto simp: advances_def u_def)
    have "drop (sc_frame_index (uw_step v)) (uw_backtrace v) = drop (sc_frame_index (uw_step v)) (qc_backtrace c)"
      using a by (intro nth_equalityI) auto
    with a(1, 2) v Some cur assms(1) show ?thesis by (auto simp: WeChatQuickenUnwind_def u_def)
  qed (use cur in \<open>simp add: WeChatQuickenUnwind_def\<close>)
qed


text \<open>A library with one table, two frames of which are on a small stack.\<close>

definition small_stack :: stack where
  "small_stack = \<lparr>st_mem = stbytes (\<lambda>_. None) 0x7000 [0x20, 0x70, 0, 0, 0, 0, 0, 0, 0x34, 0x12, 0, 0, 0, 0, 0, 0],
     stack_bottom = 0x7000, stack_top = 0x7008\<rparr>"

definition sample_sections :: QutSections where
  "sample_sections = \<lparr>quidx = [0x1000, 0x8099999999999999, 0x1010, 0x8081999999999999], qutbl = [],
     idx_size = 4, tbl_size = 0, idx_capacity = 4, tbl_capacity = 0\<rparr>"

definition sample_map :: MapInfo where
  "sample_map = \<lparr>map_start = 0x1000, map_end = 0x2000, map_flags = 4, elf_load_bias = 0x1000, elf_offset = 0, maybe_java = False,
     quicken_interface = Some \<lparr>qi_load_bias = 0x1000, qi_sections = Some sample_sections, qi_in_memory = None,
       qi_jit_cache = False, qi_debug_jit = None\<rparr>\<rparr>"

definition sample_maps :: maps_state where
  "sample_maps = \<lparr>objects = [], current_maps = None, readings = [Some [sample_map]]\<rparr>"

definition sample_quicken_context :: QuickenContext where
  "sample_quicken_context = \<lparr>qc_regs = \<lparr>R20 = 0, R28 = 0, R29 = 0x7000, SP = 0x6ff0, PC = 0x1020, LR = 0\<rparr>, qc_frame_max_size = 3,
     qc_backtrace = replicate 3 \<lparr>fr_attr = 0, fr_pc = 0\<rparr>, qc_frame_size = 0, qc_update_maps_as_need = False\<rparr>"

lemma stbytes_keeps: "m x \<noteq> None \<Longrightarrow> stbytes m a bs x \<noteq> None"
  by (induction m a bs rule: stbytes.induct) (auto split: if_splits)

lemma stbytes_mapped: "k < length bs \<Longrightarrow> stbytes m a bs (a + of_nat k) \<noteq> None"
proof (induction bs arbitrary: m a k)
  case (Cons b bs)
  show ?case
  proof (cases k)
    case 0
    have "stbytes (m(a := Some b)) (a + 1) bs a \<noteq> None" by (rule stbytes_keeps) simp
    with 0 show ?thesis by simp
  next
    case (Suc j)
    have "stbytes (m(a := Some b)) (a + 1) bs (a + 1 + of_nat j) \<noteq> None"
      using Cons.prems Suc by (intro Cons.IH) simp
    with Suc show ?thesis by (simp only: stbytes.simps of_nat_Suc add.assoc not_False_eq_True)
  qed
qed simp

lemma small_stack_mapped: "stack_mapped small_stack"
  unfolding stack_mapped_def
proof (intro allI impI)
  fix a :: u64 and i :: nat
  assume a: "stack_bottom small_stack \<le> a" "a \<le> stack_top small_stack" "i < 8"
  define k where "k = unat a - 0x7000 + i"
  have "unat a = 0x7000 + (k - i)" "k < 16" "i \<le> k" using a by (auto simp: small_stack_def word_le_nat_alt k_def)
  then have "unat a + i = 0x7000 + k" by simp
  then have "of_nat (unat a + i) = (of_nat (0x7000 + k) :: u64)" by simp
  then have "a + of_nat i = 0x7000 + of_nat k" by simp
  then show "st_mem small_stack (a + of_nat i) \<noteq> None"
    using stbytes_mapped [of k "[0x20, 0x70, 0, 0, 0, 0, 0, 0, 0x34, 0x12, 0, 0, 0, 0, 0, 0]"] \<open>k < 16\<close>
    by (simp add: small_stack_def del: stbytes.simps)
qed

lemma sample_maps_sound: "sound_maps small_stack sample_maps"
proof -
  have "PackEntriesToQutSections sample_entries = Ret sample_sections" by code_simp
  moreover have "encode_entry [] = []" "encode_entry [0xe00000000, 0xa00000010, 0x500000008, 0x900000010] = [0x81]" by code_simp+
  then have "small_table sample_entries"
    by (simp add: small_table_def sample_entries_def instr_tbl_count_def QUT_TBL_ROW_SIZE_def)
  moreover have "sorted_wrt (<) (map fst sample_entries)"
    "list_all (\<lambda>(_, _, is). encodable is) sample_entries" by code_simp+
  moreover have "length sample_entries < 2 ^ 30" by (simp add: sample_entries_def)
  ultimately have "generated sample_sections" unfolding generated_def by blast
  then show ?thesis
    by (simp add: sound_maps_def sample_maps_def sound_map_def sample_map_def sound_interface_def MAP_FLAG_READ_def)
qed

theorem unwind_returns_in_bounds_witness:
  "\<exists>code d st'. WeChatQuickenUnwind (\<lambda>_. False) small_stack (Some sample_quicken_context) sample_maps = Ret (code, Some d, st') \<and>
    (code = QUT_ERROR_MAPS_IS_NULL \<and> d = sample_quicken_context \<or>
     length (qc_backtrace d) = 3 \<and> qc_frame_size d \<le> 3 \<and>
     drop (qc_frame_size d) (qc_backtrace d) = drop (qc_frame_size d) (qc_backtrace sample_quicken_context))"
  using unwind_returns_in_bounds [of sample_quicken_context small_stack sample_maps "\<lambda>_. False"] small_stack_mapped sample_maps_sound
  by (simp add: sample_quicken_context_def)

theorem Maps_Find_correct_witness:
  "Maps_Find (Some [sample_map, sample_map\<lparr>map_start := 0x3000, map_end := 0x4000\<rparr>]) 0x3010 =
     Some (sample_map\<lparr>map_start := 0x3000, map_end := 0x4000\<rparr>)"
  by (subst Maps_Find_correct) (simp_all add: ordered_maps_def sample_map_def)

theorem maps_never_refreshed_witness:
  "GetMapInfo (\<lambda>_. True) 0 0x3010 (sample_maps\<lparr>objects := [Some []], current_maps := Some 0\<rparr>) =
     (None, 0, sample_maps\<lparr>objects := [Some []], current_maps := Some 0\<rparr>)"
  using maps_never_refreshed [of 0 "sample_maps\<lparr>objects := [Some []], current_maps := Some 0\<rparr>" "\<lambda>_. True" "0x3010"]
  by (simp add: Maps_Find_def maps_of_def find_map.simps)

end
