(* ===== verification/MgPool.thy ===== *)
theory MgPool
  imports Machine
begin

text \<open>
  \<open>matrix-hooks/src/main/cpp/memguard\<close>: the pool of guarded pages (\<open>util/PagePool.cpp\<close>), the arithmetic it uses
  (\<open>util/Auxiliary.h\<close>), the protection of memory areas (\<open>port/Memory.cpp\<close>), the random numbers
  (\<open>port/Random.cpp\<close>) and the options (\<open>Options.inc\<close>). \<open>size_t\<close> and addresses are 64-bit words, slot
  numbers integers.
\<close>

section \<open>Alignment\<close>

definition IsPowOf2 :: "u64 \<Rightarrow> bool" where
  "IsPowOf2 v \<longleftrightarrow> v AND (v - 1) = 0"

definition AlignUpTo :: "u64 \<Rightarrow> u64 \<Rightarrow> u64" where
  "AlignUpTo v align = (if IsPowOf2 align then (v + align - 1) AND NOT (align - 1) else (v + align - 1) div align * align)"

definition AlignDownTo :: "u64 \<Rightarrow> u64 \<Rightarrow> u64" where
  "AlignDownTo v align = (if IsPowOf2 align then v AND NOT (align - 1) else v div align * align)"

definition AlignUpToPowOf2 :: "u64 \<Rightarrow> u64" where
  "AlignUpToPowOf2 v =
     (let v = v - 1;
          v = v OR drop_bit 1 v;
          v = v OR drop_bit 2 v;
          v = v OR drop_bit 4 v;
          v = v OR drop_bit 8 v;
          v = v OR drop_bit 16 v
      in v + 1)"

section \<open>Random numbers\<close>

definition InitializeRndSeed :: "u32 \<Rightarrow> u32 \<Rightarrow> u32" where
  "InitializeRndSeed now tid = now + tid"

text \<open>The number, which is also the state afterwards.\<close>

definition GenerateUnsignedInt32 :: "u32 \<Rightarrow> u32" where
  "GenerateUnsignedInt32 s =
     (let s = s XOR push_bit 7 s;
          s = s XOR drop_bit 17 s
      in s XOR push_bit 5 s)"

section \<open>Options\<close>

record Options =
  maxAllocationSize :: u64
  maxDetectableAllocationCount :: u64
  maxSkippedAllocationCount :: u64
  percentageOfLeftSideGuard :: u64
  perfectRightSideGuard :: bool
  ignoreOverlappedReading :: bool

definition default_options :: Options where
  "default_options = \<lparr>maxAllocationSize = 64 * 1024, maxDetectableAllocationCount = 16384, maxSkippedAllocationCount = 5,
     percentageOfLeftSideGuard = 30, perfectRightSideGuard = False, ignoreOverlappedReading = False\<rparr>"

section \<open>Memory areas\<close>

datatype prot = NoAccess | ReadOnly | ReadWrite

text \<open>The protection of every mapped address.\<close>

type_synonym protection = "u64 \<Rightarrow> prot option"

text \<open>The page size, and whether the kernel grants a change of protection of so many bytes from an address.\<close>

record guard_os =
  page_size :: u64
  grants :: "u64 \<Rightarrow> u64 \<Rightarrow> bool"

definition guarded_prot :: "Options \<Rightarrow> prot" where
  "guarded_prot opts = (if ignoreOverlappedReading opts then ReadOnly else NoAccess)"

text \<open>\<open>mmap\<close> gave the area at an address, or failed.\<close>

definition MapMemArea :: "Options \<Rightarrow> u64 option \<Rightarrow> u64 \<Rightarrow> protection \<Rightarrow> protection" where
  "MapMemArea opts res sz pr = (case res of
       None \<Rightarrow> pr
     | Some start \<Rightarrow> (\<lambda>a. if start \<le> a \<and> a - start < sz then Some (guarded_prot opts) else pr a))"

text \<open>\<open>mprotect\<close> works on whole pages: the address has to start one, and the last one is changed as a whole.\<close>

definition mprotect :: "guard_os \<Rightarrow> u64 \<Rightarrow> u64 \<Rightarrow> prot \<Rightarrow> protection \<Rightarrow> bool \<times> protection" where
  "mprotect os start sz p pr =
     (if unat start mod unat (page_size os) \<noteq> 0 \<or> \<not> grants os start sz then (False, pr)
      else (True, \<lambda>a. if start \<le> a \<and> unat (a - start) div unat (page_size os) * unat (page_size os) < unat sz \<and> pr a \<noteq> None
                      then Some p else pr a))"

text \<open>A failure is only written to the log.\<close>

definition MarkAreaReadWrite :: "guard_os \<Rightarrow> u64 \<Rightarrow> u64 \<Rightarrow> protection \<Rightarrow> protection" where
  "MarkAreaReadWrite os start sz pr = snd (mprotect os start sz ReadWrite pr)"

definition MarkAreaInaccessible :: "guard_os \<Rightarrow> Options \<Rightarrow> u64 \<Rightarrow> u64 \<Rightarrow> protection \<Rightarrow> protection" where
  "MarkAreaInaccessible os opts start sz pr = snd (mprotect os start sz (guarded_prot opts) pr)"

text \<open>A store to an address.\<close>

definition touch :: "u64 \<Rightarrow> protection \<Rightarrow> unit run" where
  "touch a pr = (if pr a = Some ReadWrite then Ret () else Segv)"

section \<open>Pool\<close>

definition MAX_RECORDED_STACKFRAME_COUNT :: nat where "MAX_RECORDED_STACKFRAME_COUNT = 16"
definition SLOT_NONE :: int where "SLOT_NONE = - 1"

datatype GuardSide = ON_LEFT | ON_RIGHT
datatype InternalGuardSide = UNINITIALIZED | INTERNAL_ON_LEFT | INTERNAL_ON_RIGHT

record PageMeta =
  isBorrowed :: bool
  allocatedStart :: u64
  allocatedSize :: u64
  guardSide :: InternalGuardSide
  borrowThreadId :: int
  borrowThreadName :: string
  stackTraceOnBorrow :: "u64 list"
  returnThreadId :: int
  returnThreadName :: string
  stackTraceOnReturn :: "u64 list"

text \<open>A record of zero bytes. The stack traces are kept up to their counts.\<close>

definition zero_meta :: PageMeta where
  "zero_meta = \<lparr>isBorrowed = False, allocatedStart = 0, allocatedSize = 0, guardSide = UNINITIALIZED, borrowThreadId = 0,
     borrowThreadName = [], stackTraceOnBorrow = [], returnThreadId = 0, returnThreadName = [], stackTraceOnReturn = []\<rparr>"

text \<open>The bytes a record takes.\<close>

definition SIZEOF_PAGE_META :: u64 where "SIZEOF_PAGE_META = 344"

datatype GuardIssueType = UNKNOWN | OVERFLOW | UNDERFLOW | USE_AFTER_FREE | DOUBLE_FREE

text \<open>The state: the pool, what the allocation logic keeps, and the variables of the calling thread.\<close>

record pool =
  gOpts :: Options
  pages :: protection
  sGuardPageSize :: u64
  sSlotSize :: u64
  sSlotAreaStart :: u64
  sSlotAreaSize :: u64
  sSlotAreaEnd :: u64
  sMetas :: "PageMeta list"
  sFreeSlots :: "int list"
  sFreeSlotCount :: u64
  sLentPageCount :: u64
  sAdjustedPercentageOfLeftSideGuard :: u64
  sSampleCycleLength :: u64
  sLastRndValue :: u32
  gLastIssueType :: GuardIssueType
  sampleCounter :: u32
  isCallingAlloc :: bool
  isCallingFree :: bool
  fault_addr :: "u64 option" \<comment> \<open>where the last access faulted: \<open>si_addr\<close> of the signal\<close>

text \<open>Who calls: the thread, its name and the return addresses on its stack.\<close>

record caller =
  gettid :: int
  self_name :: string
  call_stack :: "u64 list"

definition UnwindStack :: "caller \<Rightarrow> u64 list" where
  "UnwindStack who = take MAX_RECORDED_STACKFRAME_COUNT (call_stack who)"

text \<open>Array accesses; outside the array they are undefined.\<close>

definition at :: "'a list \<Rightarrow> int \<Rightarrow> 'a run" where
  "at xs i = (if 0 \<le> i \<and> i < int (length xs) then Ret (xs ! nat i) else Undef)"

definition put_at :: "'a list \<Rightarrow> int \<Rightarrow> 'a \<Rightarrow> 'a list run" where
  "put_at xs i x = (if 0 \<le> i \<and> i < int (length xs) then Ret (xs[nat i := x]) else Undef)"

text \<open>The three areas, each with the answer of \<open>mmap\<close>.\<close>

definition Prepare :: "guard_os \<Rightarrow> u64 option \<Rightarrow> u64 option \<Rightarrow> u64 option \<Rightarrow> pool \<Rightarrow> bool \<times> pool" where
  "Prepare os slot_area meta_area free_area p =
     (let n = maxDetectableAllocationCount (gOpts p);
          p = p\<lparr>sGuardPageSize := page_size os\<rparr>;
          p = p\<lparr>sSlotSize := AlignUpTo (maxAllocationSize (gOpts p)) (page_size os)\<rparr>;
          p = p\<lparr>sSlotAreaSize := sGuardPageSize p + (sSlotSize p + sGuardPageSize p) * n\<rparr>;
          p = p\<lparr>pages := MapMemArea (gOpts p) slot_area (sSlotAreaSize p) (pages p)\<rparr>
      in case slot_area of
           None \<Rightarrow> (False, p\<lparr>sSlotAreaStart := 0\<rparr>)
         | Some start \<Rightarrow>
             let p = p\<lparr>sSlotAreaStart := start, sSlotAreaEnd := start + sSlotAreaSize p\<rparr>;
                 metaAreaSize = SIZEOF_PAGE_META * n;
                 p = p\<lparr>pages := MapMemArea (gOpts p) meta_area metaAreaSize (pages p)\<rparr>
             in case meta_area of
                  None \<Rightarrow> (False, p)
                | Some meta_start \<Rightarrow>
                    let p = p\<lparr>pages := MarkAreaReadWrite os meta_start metaAreaSize (pages p), sMetas := replicate (unat n) zero_meta\<rparr>;
                        freeSlotsSize = 8 * n;
                        p = p\<lparr>pages := MapMemArea (gOpts p) free_area freeSlotsSize (pages p)\<rparr>
                    in case free_area of
                         None \<Rightarrow> (False, p)
                       | Some free_start \<Rightarrow>
                           (True, p\<lparr>pages := MarkAreaReadWrite os free_start freeSlotsSize (pages p), sFreeSlots := replicate (unat n) 0\<rparr>))"

definition GetSlotSize :: "pool \<Rightarrow> u64" where
  "GetSlotSize p = sSlotSize p"

text \<open>The assertion at the head of most operations; the slot is cut to 32 bits for its second half.\<close>

definition good_slot :: "int \<Rightarrow> pool \<Rightarrow> bool" where
  "good_slot slot p \<longleftrightarrow> 0 \<le> slot \<and> slot mod 2 ^ 32 < uint (maxDetectableAllocationCount (gOpts p))"

definition GetGuardedPageStart :: "int \<Rightarrow> pool \<Rightarrow> u64 run" where
  "GetGuardedPageStart slot p =
     (if \<not> good_slot slot p then Abort
      else Ret (sSlotAreaStart p + sGuardPageSize p + (sSlotSize p + sGuardPageSize p) * word_of_int slot))"

definition GetAllocatedAddress :: "int \<Rightarrow> pool \<Rightarrow> u64 run" where
  "GetAllocatedAddress slot p = (if \<not> good_slot slot p then Abort else bindr (at (sMetas p) slot) (\<lambda>m. Ret (allocatedStart m)))"

definition pool_GetAllocatedSize :: "int \<Rightarrow> pool \<Rightarrow> u64 run" where
  "pool_GetAllocatedSize slot p = (if \<not> good_slot slot p then Abort else bindr (at (sMetas p) slot) (\<lambda>m. Ret (allocatedSize m)))"

definition IsSlotBorrowed :: "int \<Rightarrow> pool \<Rightarrow> bool run" where
  "IsSlotBorrowed slot p = (if \<not> good_slot slot p then Abort else bindr (at (sMetas p) slot) (\<lambda>m. Ret (isBorrowed m)))"

text \<open>The side, where there is one to report.\<close>

definition GetSlotGuardSide :: "int \<Rightarrow> pool \<Rightarrow> GuardSide option run" where
  "GetSlotGuardSide slot p =
     (if slot = SLOT_NONE then Ret None
      else bindr (at (sMetas p) slot) (\<lambda>meta.
        if \<not> isBorrowed meta then Ret None
        else Ret (Some (if guardSide meta = INTERNAL_ON_LEFT then ON_LEFT else ON_RIGHT))))"

definition GetSlotIdOfAddress :: "u64 \<Rightarrow> pool \<Rightarrow> int run" where
  "GetSlotIdOfAddress addr p =
     (if addr < sSlotAreaStart p \<or> sSlotAreaEnd p \<le> addr then Ret SLOT_NONE
      else bindr (GetGuardedPageStart 0 p) (\<lambda>firstGuardedPageStart.
        if addr < firstGuardedPageStart then Ret 0
        else if sSlotSize p + sGuardPageSize p = 0 then Undef
        else Ret (sint ((addr - firstGuardedPageStart) div (sSlotSize p + sGuardPageSize p)))))"

definition IsAddressInGuardPage :: "guard_os \<Rightarrow> u64 \<Rightarrow> pool \<Rightarrow> bool" where
  "IsAddressInGuardPage os addr p =
     (if addr < sSlotAreaStart p \<or> sSlotAreaEnd p \<le> addr then False
      else
        let addrPageCount = (addr - sSlotAreaStart p) div page_size os;
            maxAllocationPageCount = sSlotSize p div page_size os
        in addrPageCount mod (maxAllocationPageCount + 1) = 0)"

definition GetThreadInfoOnBorrow :: "int \<Rightarrow> pool \<Rightarrow> (int \<times> string) run" where
  "GetThreadInfoOnBorrow slot p =
     (if \<not> good_slot slot p then Abort else bindr (at (sMetas p) slot) (\<lambda>m. Ret (borrowThreadId m, borrowThreadName m)))"

definition GetStackTraceOnBorrow :: "int \<Rightarrow> pool \<Rightarrow> u64 list run" where
  "GetStackTraceOnBorrow slot p = (if \<not> good_slot slot p then Abort else bindr (at (sMetas p) slot) (\<lambda>m. Ret (stackTraceOnBorrow m)))"

definition GetThreadInfoOnReturn :: "int \<Rightarrow> pool \<Rightarrow> (int \<times> string) run" where
  "GetThreadInfoOnReturn slot p =
     (if \<not> good_slot slot p then Abort else bindr (at (sMetas p) slot) (\<lambda>m. Ret (returnThreadId m, returnThreadName m)))"

definition GetStackTraceOnReturn :: "int \<Rightarrow> pool \<Rightarrow> u64 list run" where
  "GetStackTraceOnReturn slot p = (if \<not> good_slot slot p then Abort else bindr (at (sMetas p) slot) (\<lambda>m. Ret (stackTraceOnReturn m)))"


section \<open>Borrowing and returning\<close>

text \<open>A value of a slot number kept in an \<open>int\<close>.\<close>

definition to_int :: "int \<Rightarrow> int" where
  "to_int v = signed_take_bit 31 v"

definition next_random :: "(pool, u32) cmd" where
  "next_random = (\<lambda>p. let r = GenerateUnsignedInt32 (sLastRndValue p) in (Ret r, p\<lparr>sLastRndValue := r\<rparr>))"

text \<open>The slot, under the mutex: a fresh one, or one of the returned ones by lot.\<close>

definition pick_slot :: "(pool, int) cmd" where
  "pick_slot = (\<lambda>p.
     if sLentPageCount p < maxDetectableAllocationCount (gOpts p)
     then (Ret (sint (sLentPageCount p)), p\<lparr>sLentPageCount := sLentPageCount p + 1\<rparr>)
     else if sFreeSlotCount p > 0 then
       bindc next_random (\<lambda>r.
       bindc (readc (\<lambda>p. Ret (to_int (uint (ucast r mod sFreeSlotCount p))))) (\<lambda>picked.
       bindc (readc (\<lambda>p. at (sFreeSlots p) picked)) (\<lambda>slot.
       bindc (updc (\<lambda>p. p\<lparr>sFreeSlotCount := sFreeSlotCount p - 1\<rparr>)) (\<lambda>_.
       bindc (readc (\<lambda>p. bindr (at (sFreeSlots p) (uint (sFreeSlotCount p))) (put_at (sFreeSlots p) picked))) (\<lambda>free.
       bindc (updc (\<lambda>p. p\<lparr>sFreeSlots := free\<rparr>)) (\<lambda>_. retc slot)))))) p
     else (Ret SLOT_NONE, p))"

definition set_meta :: "int \<Rightarrow> (PageMeta \<Rightarrow> PageMeta) \<Rightarrow> (pool, unit) cmd" where
  "set_meta slot f =
     bindc (readc (\<lambda>p. bindr (at (sMetas p) slot) (\<lambda>m. put_at (sMetas p) slot (f m)))) (\<lambda>metas.
       updc (\<lambda>p. p\<lparr>sMetas := metas\<rparr>))"

text \<open>Where in the slot the allocation starts.\<close>

definition alloc_offset :: "pool \<Rightarrow> u64 \<Rightarrow> u64 \<Rightarrow> GuardSide \<Rightarrow> u64" where
  "alloc_offset p sz alignment guard_side =
     (if guard_side = ON_RIGHT then
        let padding = GetSlotSize p - sz in
        if \<not> perfectRightSideGuard (gOpts p) then AlignDownTo padding alignment else padding
      else 0)"

definition BorrowSlot :: "guard_os \<Rightarrow> caller \<Rightarrow> u64 \<Rightarrow> u64 \<Rightarrow> GuardSide \<Rightarrow> (pool, int) cmd" where
  "BorrowSlot os who sz alignment guard_side = (\<lambda>p.
     if sz > sSlotSize p then (Ret SLOT_NONE, p)
     else if AlignUpTo sz alignment > GetSlotSize p then (Ret SLOT_NONE, p)
     else
       bindc pick_slot (\<lambda>slot.
       if slot = SLOT_NONE then retc slot
       else
         bindc (set_meta slot (\<lambda>m. m\<lparr>isBorrowed := True, allocatedSize := sz, borrowThreadId := gettid who,
           borrowThreadName := self_name who, stackTraceOnBorrow := UnwindStack who, returnThreadId := 0,
           returnThreadName := [], stackTraceOnReturn := []\<rparr>)) (\<lambda>_.
         bindc (readc (GetGuardedPageStart slot)) (\<lambda>guardedPageStart.
         bindc (readc (\<lambda>p. Ret (guardedPageStart + alloc_offset p sz alignment guard_side))) (\<lambda>start.
         bindc (set_meta slot (\<lambda>m. m\<lparr>allocatedStart := start\<rparr>)) (\<lambda>_.
         bindc (updc (\<lambda>p. p\<lparr>pages := MarkAreaReadWrite os (AlignDownTo start (page_size os)) (AlignUpTo sz (page_size os)) (pages p)\<rparr>)) (\<lambda>_.
         retc (to_int slot))))))) p)"

text \<open>A store of one byte; where it faults, the kernel keeps the address for the signal handler. The store of
  \<open>TriggerIssue\<close> to the guard page is meant to fault.\<close>

definition store_byte :: "u64 \<Rightarrow> (pool, unit) cmd" where
  "store_byte addr = (\<lambda>p. case touch addr (pages p) of
     Ret _ \<Rightarrow> (Ret (), p)
   | r \<Rightarrow> (r, p\<lparr>fault_addr := Some addr\<rparr>))"

definition TriggerIssue :: "int \<Rightarrow> GuardIssueType \<Rightarrow> (pool, unit) cmd" where
  "TriggerIssue slot ty =
     (if slot = SLOT_NONE then retc ()
      else
        bindc (updc (\<lambda>p. p\<lparr>gLastIssueType := ty\<rparr>)) (\<lambda>_.
        bindc (readc (GetGuardedPageStart slot)) (\<lambda>start.
        bindc (readc (\<lambda>p. Ret (start + GetSlotSize p))) (\<lambda>rightSideGuardPageAddr.
        store_byte rightSideGuardPageAddr))))"

definition ReturnSlot :: "guard_os \<Rightarrow> caller \<Rightarrow> int \<Rightarrow> (pool, unit) cmd" where
  "ReturnSlot os who slot =
     bindc (readc (\<lambda>p. if \<not> good_slot slot p then Abort else at (sMetas p) slot)) (\<lambda>meta.
     bindc (if \<not> isBorrowed meta then TriggerIssue slot DOUBLE_FREE else retc ()) (\<lambda>_.
     bindc (set_meta slot (\<lambda>m. m\<lparr>isBorrowed := False, returnThreadId := gettid who, returnThreadName := self_name who,
       stackTraceOnReturn := UnwindStack who\<rparr>)) (\<lambda>_.
     bindc (readc (GetGuardedPageStart slot)) (\<lambda>guardedPageStart.
     bindc (updc (\<lambda>p. p\<lparr>pages := MarkAreaReadWrite os guardedPageStart (GetSlotSize p) (pages p)\<rparr>)) (\<lambda>_.
     bindc (updc (\<lambda>p. p\<lparr>pages := MarkAreaInaccessible os (gOpts p) guardedPageStart (GetSlotSize p) (pages p)\<rparr>)) (\<lambda>_.
     (\<lambda>p. if sFreeSlotCount p \<ge> maxDetectableAllocationCount (gOpts p) then (Ret (), p)
          else
            bindc (readc (\<lambda>p. put_at (sFreeSlots p) (uint (sFreeSlotCount p)) slot)) (\<lambda>free.
              updc (\<lambda>p. p\<lparr>sFreeSlots := free, sFreeSlotCount := sFreeSlotCount p + 1\<rparr>)) p)))))))"

section \<open>Powers of two\<close>

lemma nat_and_pred: "(m :: nat) AND (m - 1) = 0 \<Longrightarrow> 0 < m \<Longrightarrow> \<exists>k. m = 2 ^ k"
proof (induction m rule: less_induct)
  case (less m)
  show ?case
  proof (cases "even m")
    case True
    then obtain h where h: "m = 2 * h" by blast
    with less.prems(2) have "0 < h" by simp
    have "2 * h - 1 = 1 + 2 * (h - 1)" using \<open>0 < h\<close> by simp
    moreover have "(2 * h) AND (1 + 2 * (h - 1)) = 2 * (h AND (h - 1))" by (subst and_rec) (simp add: mod2_eq_if)
    ultimately have "h AND (h - 1) = 0" using less.prems(1) by (simp add: h)
    with less.IH [of h] h \<open>0 < h\<close> obtain k where "h = 2 ^ k" by auto
    with h show ?thesis by (intro exI [of _ "Suc k"]) simp
  next
    case False
    then obtain h where h: "m = 1 + 2 * h" by (metis oddE add.commute)
    have "(1 + 2 * h) AND (2 * h) = 2 * (h AND h)" by (subst and_rec) (simp add: mod2_eq_if)
    with less.prems(1) h have "h = 0" by simp
    with h show ?thesis by (intro exI [of _ 0]) simp
  qed
qed

lemma unat_pow: "k < 64 \<Longrightarrow> unat (2 ^ k :: u64) = 2 ^ k"
proof -
  assume "k < 64"
  then have "(2 :: nat) ^ k < 2 ^ 64" by (intro power_strict_increasing) simp_all
  then show ?thesis using unat_of_nat [of "2 ^ k", where 'a = 64] by simp
qed

lemma pow_minus_one: "k < 64 \<Longrightarrow> (2 ^ k - 1 :: u64) = mask k"
  by (simp add: mask_eq_exp_minus_1)

lemma IsPowOf2_iff: "IsPowOf2 v \<longleftrightarrow> v = 0 \<or> (\<exists>k < 64. v = 2 ^ k)"
proof (cases "v = 0")
  case False
  have u: "unat (v - 1) = unat v - 1" using False by (simp add: unat_minus_one)
  have "IsPowOf2 v \<longleftrightarrow> unat v AND (unat v - 1) = 0"
    unfolding IsPowOf2_def by (metis u unsigned_and_eq unsigned_0 unsigned_eq_0_iff)
  also have "\<dots> \<longleftrightarrow> (\<exists>k. unat v = 2 ^ k)"
  proof
    assume "unat v AND (unat v - 1) = 0"
    then show "\<exists>k. unat v = 2 ^ k" using nat_and_pred [of "unat v"] False by (simp add: unat_gt_0)
  next
    assume "\<exists>k. unat v = 2 ^ k"
    then obtain k where k: "unat v = 2 ^ k" by blast
    have "(2 ^ k - 1 :: nat) = mask k" by (simp add: mask_eq_exp_minus_1)
    then have "unat v AND (unat v - 1) = take_bit k (2 ^ k)" by (simp add: k take_bit_eq_mask)
    then show "unat v AND (unat v - 1) = 0" by simp
  qed
  also have "\<dots> \<longleftrightarrow> (\<exists>k < 64. v = 2 ^ k)"
  proof
    assume "\<exists>k. unat v = 2 ^ k"
    then obtain k where k: "unat v = 2 ^ k" by blast
    then have "(2 :: nat) ^ k < 2 ^ 64" using unsigned_less [of v, where 'a = nat] by simp
    then have "k < 64" by (metis power_less_imp_less_exp one_less_numeral_iff semiring_norm(76))
    with k unat_pow [of k] show "\<exists>k < 64. v = 2 ^ k" by (metis unsigned_word_eqI)
  qed (use unat_pow in blast)
  finally show ?thesis using False by simp
qed (simp add: IsPowOf2_def)

lemma and_not_mask: "k < 64 \<Longrightarrow> unat (v AND NOT (mask k) :: u64) = unat v div 2 ^ k * 2 ^ k"
proof -
  assume k: "k < 64"
  have "v AND NOT (mask k) = push_bit k (drop_bit k v)"
    by (rule bit_word_eqI) (auto simp: bit_simps)
  then have "unat (v AND NOT (mask k)) = take_bit 64 (push_bit k (drop_bit k (unat v)))"
    using take_bit_nat_eq_self [OF unsigned_less [of v]] by (simp add: unsigned_push_bit_eq unsigned_drop_bit_eq)
  also have "push_bit k (drop_bit k (unat v)) = unat v div 2 ^ k * 2 ^ k"
    by (simp add: push_bit_eq_mult drop_bit_eq_div)
  also have "take_bit 64 \<dots> = \<dots>"
  proof (rule take_bit_nat_eq_self)
    show "unat v div 2 ^ k * 2 ^ k < 2 ^ 64"
      using unsigned_less [of v, where 'a = nat] by (intro le_less_trans [OF div_times_less_eq_dividend]) simp
  qed
  finally show ?thesis .
qed

lemma AlignDownTo_unat: "k < 64 \<Longrightarrow> unat (AlignDownTo v (2 ^ k)) = unat v div 2 ^ k * 2 ^ k"
  by (simp add: AlignDownTo_def IsPowOf2_iff pow_minus_one and_not_mask) blast

lemma AlignUpTo_unat:
  assumes "k < 64" "unat v + 2 ^ k \<le> 2 ^ 64"
  shows "unat (AlignUpTo v (2 ^ k)) = (unat v + 2 ^ k - 1) div 2 ^ k * 2 ^ k"
proof -
  have "of_nat (unat v + 2 ^ k - 1) = (of_nat (unat v + 2 ^ k) - of_nat 1 :: u64)" by (intro of_nat_diff) (simp add: trans_le_add2)
  then have "v + 2 ^ k - 1 = of_nat (unat v + 2 ^ k - 1)" by simp
  then have "unat (v + 2 ^ k - 1) = unat v + 2 ^ k - 1"
    using assms(2) by (simp only: unat_of_nat) simp
  moreover have "IsPowOf2 (2 ^ k)" using assms(1) by (auto simp: IsPowOf2_iff)
  ultimately show ?thesis using assms(1) by (simp add: AlignUpTo_def pow_minus_one and_not_mask)
qed

lemma AlignTo_0: "AlignUpTo v 0 = 0" "AlignDownTo v 0 = 0"
  by (simp_all add: AlignUpTo_def AlignDownTo_def IsPowOf2_def)

section \<open>Layout\<close>

text \<open>In natural numbers: the size of a slot with its guard page, where the pages of a slot start, and the number
  of slots.\<close>

definition unit_size :: "pool \<Rightarrow> nat" where
  "unit_size p = unat (sSlotSize p) + unat (sGuardPageSize p)"

definition slot_start :: "pool \<Rightarrow> nat \<Rightarrow> nat" where
  "slot_start p i = unat (sSlotAreaStart p) + unat (sGuardPageSize p) + unit_size p * i"

definition slots :: "pool \<Rightarrow> nat" where
  "slots p = unat (maxDetectableAllocationCount (gOpts p))"

definition layout :: "guard_os \<Rightarrow> pool \<Rightarrow> bool" where
  "layout os p \<longleftrightarrow> (\<exists>k < 63. page_size os = 2 ^ k) \<and> sGuardPageSize p = page_size os \<and>
     unat (page_size os) dvd unat (sSlotSize p) \<and> 0 < sSlotSize p \<and> unat (page_size os) dvd unat (sSlotAreaStart p) \<and>
     slot_start p (slots p) < 2 ^ 64 \<and> sSlotAreaEnd p = of_nat (slot_start p (slots p)) \<and> 0 < slots p \<and> slots p < 2 ^ 31"

lemma layoutE:
  assumes "layout os p"
  obtains k where "k < 63" "page_size os = 2 ^ k" "unat (page_size os) = 2 ^ k" "sGuardPageSize p = 2 ^ k"
    "2 ^ k dvd unat (sSlotSize p)" "2 ^ k dvd unat (sSlotAreaStart p)"
  using assms unat_pow by (auto simp: layout_def)

lemma slot_start_Suc: "slot_start p (Suc i) = slot_start p i + unit_size p"
  by (simp add: slot_start_def)

lemma slot_start_mono: "i \<le> j \<Longrightarrow> slot_start p i \<le> slot_start p j"
  by (simp add: slot_start_def)

lemma unit_size_pos: "layout os p \<Longrightarrow> 0 < unit_size p"
  by (auto simp: layout_def unit_size_def word_less_nat_alt)

lemma slot_end_le: "layout os p \<Longrightarrow> i < slots p \<Longrightarrow> slot_start p i + unit_size p \<le> slot_start p (slots p)"
  using slot_start_mono [of "Suc i" "slots p" p] by (simp add: slot_start_Suc)

lemma slot_start_less: "layout os p \<Longrightarrow> i \<le> slots p \<Longrightarrow> slot_start p i < 2 ^ 64"
  using slot_start_mono [of i "slots p" p] by (simp add: layout_def)

lemma good_slot_iff: "layout os p \<Longrightarrow> i < 2 ^ 32 \<Longrightarrow> good_slot (int i) p \<longleftrightarrow> i < slots p"
proof -
  assume "i < 2 ^ 32"
  then have "int i mod 2 ^ 32 = int i" by simp
  moreover have "uint (maxDetectableAllocationCount (gOpts p)) = int (slots p)" by (simp add: slots_def)
  ultimately show ?thesis by (simp only: good_slot_def) simp
qed

lemma sint_small: "i < 2 ^ 31 \<Longrightarrow> sint (of_nat i :: u64) = int i"
proof -
  assume i: "i < 2 ^ 31"
  then have "int (unat (of_nat i :: u64)) = int i" by (simp only: unat_of_nat) simp
  then have "uint (of_nat i :: u64) = int i" by simp
  with i show ?thesis by (simp add: sint_uint signed_take_bit_int_eq_self)
qed

lemma GetGuardedPageStart_eq:
  assumes "layout os p" "i < slots p"
  shows "GetGuardedPageStart (int i) p = Ret (of_nat (slot_start p i))" "unat (of_nat (slot_start p i) :: u64) = slot_start p i"
proof -
  have "i < 2 ^ 32" using assms by (auto simp: layout_def)
  then have "good_slot (int i) p" using assms by (simp add: good_slot_iff)
  moreover have "sSlotAreaStart p + sGuardPageSize p + (sSlotSize p + sGuardPageSize p) * word_of_int (int i) =
      of_nat (slot_start p i)"
    by (simp add: slot_start_def unit_size_def)
  ultimately show "GetGuardedPageStart (int i) p = Ret (of_nat (slot_start p i))"
    by (simp add: GetGuardedPageStart_def)
  show "unat (of_nat (slot_start p i) :: u64) = slot_start p i"
    using slot_start_less [of os p i] assms by (simp add: unat_of_nat)
qed

lemma area_end_unat: "layout os p \<Longrightarrow> unat (sSlotAreaEnd p) = slot_start p (slots p)"
  using slot_start_less [of os p "slots p"] by (simp add: layout_def unat_of_nat)

text \<open>A slot's pages and the guard page behind them lead back to the slot.\<close>

lemma GetSlotIdOfAddress_slot:
  assumes "layout os p" "i < slots p" "slot_start p i \<le> unat a" "unat a < slot_start p i + unit_size p"
  shows "GetSlotIdOfAddress a p = Ret (int i)"
proof -
  have s0: "unat (sSlotAreaStart p) \<le> slot_start p 0" "slot_start p 0 \<le> unat a"
    using slot_start_mono [of 0 i p] assms(3) by (simp_all add: slot_start_def)
  have e: "unat a < slot_start p (slots p)" using slot_end_le [OF assms(1, 2)] assms(4) by simp
  have g: "GetGuardedPageStart 0 p = Ret (of_nat (slot_start p 0))" "unat (of_nat (slot_start p 0) :: u64) = slot_start p 0"
    using GetGuardedPageStart_eq [of os p 0] assms(1) by (simp_all add: layout_def)
  have u: "unat (sSlotSize p + sGuardPageSize p) = unit_size p"
  proof -
    have "unit_size p < 2 ^ 64" using slot_end_le [OF assms(1, 2)] slot_start_less [OF assms(1) order_refl] by simp
    then show ?thesis by (simp add: unit_size_def unat_word_ariths)
  qed
  have "unat (a - of_nat (slot_start p 0)) = unat a - slot_start p 0"
    using s0(2) g(2) by (simp add: unat_sub word_le_nat_alt)
  then have "unat ((a - of_nat (slot_start p 0)) div (sSlotSize p + sGuardPageSize p)) = (unat a - slot_start p 0) div unit_size p"
    by (simp add: unat_div u)
  also have "(unat a - slot_start p 0) div unit_size p = i"
  proof -
    have "unat a - slot_start p 0 = unit_size p * i + (unat a - slot_start p i)"
      using assms(3) by (simp add: slot_start_def)
    then show ?thesis using assms(4) unit_size_pos [OF assms(1)] by simp
  qed
  finally have q: "(a - of_nat (slot_start p 0)) div (sSlotSize p + sGuardPageSize p) = of_nat i"
    by (metis word_nat_cases unat_of_nat of_nat_unat ucast_id)
  have "sint (of_nat i :: u64) = int i" using assms(1, 2) by (intro sint_small) (simp add: layout_def)
  moreover have "sSlotSize p + sGuardPageSize p \<noteq> 0" using u unit_size_pos [OF assms(1)] by auto
  ultimately show ?thesis
    using s0 e g q area_end_unat [OF assms(1)]
    by (auto simp: GetSlotIdOfAddress_def word_less_nat_alt word_le_nat_alt not_less)
qed

lemma unit_size_less: "layout os p \<Longrightarrow> unit_size p < 2 ^ 64"
  using slot_end_le [of os p 0] slot_start_less [of os p "slots p"] by (simp add: layout_def)

lemma GetSlotIdOfAddress_guard:
  assumes "layout os p" "unat (sSlotAreaStart p) \<le> unat a" "unat a < slot_start p 0"
  shows "GetSlotIdOfAddress a p = Ret 0"
proof -
  have "GetGuardedPageStart 0 p = Ret (of_nat (slot_start p 0))" "unat (of_nat (slot_start p 0) :: u64) = slot_start p 0"
    using GetGuardedPageStart_eq [of os p 0] assms(1) by (simp_all add: layout_def)
  moreover have "unat a < unat (sSlotAreaEnd p)"
    using assms(3) slot_start_mono [of 0 "slots p" p] area_end_unat [OF assms(1)] by simp
  ultimately show ?thesis using assms(2, 3) by (auto simp: GetSlotIdOfAddress_def word_less_nat_alt word_le_nat_alt)
qed

lemma GetSlotIdOfAddress_outside:
  "layout os p \<Longrightarrow> unat a < unat (sSlotAreaStart p) \<or> slot_start p (slots p) \<le> unat a \<Longrightarrow> GetSlotIdOfAddress a p = Ret SLOT_NONE"
  by (auto simp: GetSlotIdOfAddress_def word_less_nat_alt word_le_nat_alt area_end_unat)

text \<open>The guard pages: one before each slot and one behind the last.\<close>

definition guard_page :: "pool \<Rightarrow> u64 \<Rightarrow> bool" where
  "guard_page p a \<longleftrightarrow> (\<exists>i \<le> slots p. slot_start p i \<le> unat a + unat (sGuardPageSize p) \<and> unat a < slot_start p i)"

lemma guard_page_mod:
  assumes "layout os p"
  shows "guard_page p a \<longleftrightarrow> unat (sSlotAreaStart p) \<le> unat a \<and> unat a < slot_start p (slots p) \<and>
    (unat a - unat (sSlotAreaStart p)) mod unit_size p < unat (sGuardPageSize p)"
proof -
  let ?g = "unat (sGuardPageSize p)" and ?b = "unat (sSlotAreaStart p)" and ?u = "unit_size p"
  have g: "?g < ?u" using assms by (auto simp: layout_def unit_size_def word_less_nat_alt)
  show ?thesis
  proof
    assume "guard_page p a"
    then obtain i where i: "i \<le> slots p" "slot_start p i \<le> unat a + ?g" "unat a < slot_start p i" by (auto simp: guard_page_def)
    have x: "unat a - ?b = ?u * i + (unat a + ?g - slot_start p i)" "unat a + ?g - slot_start p i < ?g" "?b \<le> unat a"
      using i by (auto simp: slot_start_def)
    then have "(unat a - ?b) mod ?u = unat a + ?g - slot_start p i" using g by simp
    with x i slot_start_mono [OF i(1), of p] show "?b \<le> unat a \<and> unat a < slot_start p (slots p) \<and> (unat a - ?b) mod ?u < ?g" by auto
  next
    assume r: "?b \<le> unat a \<and> unat a < slot_start p (slots p) \<and> (unat a - ?b) mod ?u < ?g"
    define i where "i = (unat a - ?b) div ?u"
    have x: "unat a - ?b = ?u * i + (unat a - ?b) mod ?u" by (simp add: i_def)
    have "?u * i \<le> unat a - ?b" by (simp add: i_def)
    moreover have "unat a - ?b < ?g + ?u * slots p" using r by (auto simp: slot_start_def)
    ultimately have "?u * i < ?u * Suc (slots p)" using g by simp
    then have "i < Suc (slots p)" using mult_less_cancel1 by blast
    with r x show "guard_page p a" by (auto simp: guard_page_def slot_start_def intro!: exI [of _ i])
  qed
qed

lemma div_mod_zero_iff: "0 < n \<Longrightarrow> x div n mod c = 0 \<longleftrightarrow> x mod (n * c) < n" for x n c :: nat
proof (cases "x div n mod c = 0")
  case False
  have "n * 1 \<le> n * (x div n mod c)" using False by (intro mult_le_mono2) simp
  then have "\<not> x mod (n * c) < n" unfolding mod_mult2_eq by linarith
  with False show ?thesis by simp
qed (simp add: mod_mult2_eq)

lemma IsAddressInGuardPage_iff:
  assumes "layout os p"
  shows "IsAddressInGuardPage os a p \<longleftrightarrow> guard_page p a"
proof (cases "unat (sSlotAreaStart p) \<le> unat a \<and> unat a < slot_start p (slots p)")
  case True
  obtain k where k: "k < 63" "page_size os = 2 ^ k" "unat (page_size os) = 2 ^ k" "sGuardPageSize p = 2 ^ k" "2 ^ k dvd unat (sSlotSize p)"
    using layoutE [OF assms] by metis
  let ?x = "unat a - unat (sSlotAreaStart p)" and ?P = "2 ^ k :: nat"
  obtain c where c: "unat (sSlotSize p) = ?P * c" using k(5) by blast
  have u: "unit_size p = ?P * (c + 1)" using k c by (simp add: unit_size_def algebra_simps)
  have d: "unat ((a - sSlotAreaStart p) div page_size os) = ?x div ?P"
    using True k(3) by (simp add: unat_div unat_sub word_le_nat_alt)
  have "1 * (c + 1) \<le> ?P * (c + 1)" by (rule mult_le_mono1) simp
  then have "c + 1 < 2 ^ 64" using u unit_size_less [OF assms] by simp
  moreover have "unat (sSlotSize p div page_size os) = c" using c k(3) by (simp add: unat_div)
  ultimately have m: "unat (sSlotSize p div page_size os + 1) = c + 1" by (simp add: unat_word_ariths)
  have "IsAddressInGuardPage os a p \<longleftrightarrow> (?x div ?P) mod (c + 1) = 0"
    using True area_end_unat [OF assms] d m
    by (auto simp: IsAddressInGuardPage_def word_less_nat_alt word_le_nat_alt Let_def unat_mod simp flip: unsigned_eq_0_iff [where 'a = nat])
  also have "\<dots> \<longleftrightarrow> ?x mod (?P * (c + 1)) < ?P"
    by (rule div_mod_zero_iff) simp
  finally show ?thesis using True k(3, 2, 4) u by (simp add: guard_page_mod [OF assms])
next
  case False
  then have "\<not> guard_page p a" unfolding guard_page_mod [OF assms] by blast
  moreover have "a < sSlotAreaStart p \<or> sSlotAreaEnd p \<le> a"
    using False by (simp add: word_less_nat_alt word_le_nat_alt area_end_unat [OF assms] not_le not_less de_Morgan_conj)
  ultimately show ?thesis by (simp only: IsAddressInGuardPage_def if_True)
qed

end
