(* ===== verification/MgInv.thy ===== *)
theory MgInv
  imports MgPool
begin

text \<open>
  The invariant of the pool of guarded pages, and that borrowing and returning a slot keep it and do what they
  promise: an allocation lies inside its slot and can be written, everything else in the area faults.
\<close>

section \<open>Invariant\<close>

lemma layout_upd [simp]:
  "slot_start (p\<lparr>pages := x1\<rparr>) i = slot_start p i" "slot_start (p\<lparr>sMetas := x2\<rparr>) i = slot_start p i"
  "slot_start (p\<lparr>sFreeSlots := x3\<rparr>) i = slot_start p i" "slot_start (p\<lparr>sFreeSlotCount := x4\<rparr>) i = slot_start p i"
  "slot_start (p\<lparr>sLentPageCount := x5\<rparr>) i = slot_start p i" "slot_start (p\<lparr>sLastRndValue := x6\<rparr>) i = slot_start p i"
  "slots (p\<lparr>pages := x1\<rparr>) = slots p" "slots (p\<lparr>sMetas := x2\<rparr>) = slots p"
  "slots (p\<lparr>sFreeSlots := x3\<rparr>) = slots p" "slots (p\<lparr>sFreeSlotCount := x4\<rparr>) = slots p"
  "slots (p\<lparr>sLentPageCount := x5\<rparr>) = slots p" "slots (p\<lparr>sLastRndValue := x6\<rparr>) = slots p"
  "layout os (p\<lparr>pages := x1\<rparr>) = layout os p" "layout os (p\<lparr>sMetas := x2\<rparr>) = layout os p"
  "layout os (p\<lparr>sFreeSlots := x3\<rparr>) = layout os p" "layout os (p\<lparr>sFreeSlotCount := x4\<rparr>) = layout os p"
  "layout os (p\<lparr>sLentPageCount := x5\<rparr>) = layout os p" "layout os (p\<lparr>sLastRndValue := x6\<rparr>) = layout os p"
  by (simp_all add: slot_start_def unit_size_def slots_def layout_def)

definition in_slot :: "pool \<Rightarrow> nat \<Rightarrow> u64 \<Rightarrow> bool" where
  "in_slot p i a \<longleftrightarrow> slot_start p i \<le> unat a \<and> unat a < slot_start p i + unat (sSlotSize p)"

definition in_area :: "pool \<Rightarrow> u64 \<Rightarrow> bool" where
  "in_area p a \<longleftrightarrow> unat (sSlotAreaStart p) \<le> unat a \<and> unat a < slot_start p (slots p)"

abbreviation lent :: "pool \<Rightarrow> nat" where
  "lent p \<equiv> unat (sLentPageCount p)"

abbreviation free_list :: "pool \<Rightarrow> int list" where
  "free_list p \<equiv> take (unat (sFreeSlotCount p)) (sFreeSlots p)"

abbreviation borrowed :: "pool \<Rightarrow> nat \<Rightarrow> bool" where
  "borrowed p i \<equiv> isBorrowed (sMetas p ! i)"

text \<open>The free list has the slots that were lent once and are not borrowed, each once. \<open>S\<close> are slots on their way out.\<close>

definition books :: "nat set \<Rightarrow> pool \<Rightarrow> bool" where
  "books S p \<longleftrightarrow> length (sMetas p) = slots p \<and> length (sFreeSlots p) = slots p \<and> lent p \<le> slots p \<and>
     unat (sFreeSlotCount p) \<le> slots p \<and> distinct (free_list p) \<and>
     set (free_list p) = int ` {i. i < lent p \<and> \<not> borrowed p i \<and> i \<notin> S} \<and> (\<forall>i < slots p. borrowed p i \<longrightarrow> i < lent p)"

text \<open>A borrowed slot holds its allocation, which can be written.\<close>

definition placed :: "pool \<Rightarrow> nat \<Rightarrow> bool" where
  "placed p i \<longleftrightarrow> slot_start p i \<le> unat (allocatedStart (sMetas p ! i)) \<and>
     unat (allocatedStart (sMetas p ! i)) + unat (allocatedSize (sMetas p ! i)) \<le> slot_start p i + unat (sSlotSize p) \<and>
     (\<forall>a. unat (allocatedStart (sMetas p ! i)) \<le> unat a \<longrightarrow>
        unat a < unat (allocatedStart (sMetas p ! i)) + unat (allocatedSize (sMetas p ! i)) \<longrightarrow> pages p a = Some ReadWrite)"

text \<open>Only the pages of borrowed slots can be written.\<close>

definition sealed :: "pool \<Rightarrow> bool" where
  "sealed p \<longleftrightarrow> (\<forall>a. in_area p a \<longrightarrow> pages p a \<noteq> None \<and>
     (pages p a = Some ReadWrite \<longrightarrow> (\<exists>i < slots p. borrowed p i \<and> in_slot p i a)))"

definition pool_inv :: "guard_os \<Rightarrow> pool \<Rightarrow> bool" where
  "pool_inv os p \<longleftrightarrow> layout os p \<and> books {} p \<and> sealed p \<and> (\<forall>i < slots p. borrowed p i \<longrightarrow> placed p i)"

lemma books_upd [simp]:
  "books S (p\<lparr>pages := x1\<rparr>) = books S p" "books S (p\<lparr>sLastRndValue := x6\<rparr>) = books S p"
  by (simp_all add: books_def)

lemma swap_last:
  assumes "distinct (take (Suc n) xs)" "n < length xs" "k \<le> n"
  shows "distinct (take n (xs[k := xs ! n])) \<and> set (take n (xs[k := xs ! n])) = set (take (Suc n) xs) - {xs ! k}"
proof -
  have t: "take (Suc n) xs = take n xs @ [xs ! n]" using assms(2) by (rule take_Suc_conv_app_nth)
  show ?thesis
  proof (cases "k = n")
    case True
    then have "take n (xs[k := xs ! n]) = take n xs" by simp
    with True assms(1) t show ?thesis by auto
  next
    case False
    then have k: "k < length (take n xs)" "take n xs ! k = xs ! k" using assms(2, 3) by auto
    have "take n (xs[k := xs ! n]) = (take n xs)[k := xs ! n]" by (rule take_update_swap)
    moreover have "distinct (take n xs)" "xs ! n \<notin> set (take n xs)" using assms(1) t by auto
    moreover have "xs ! k \<noteq> xs ! n" using k calculation(3) by (metis nth_mem)
    ultimately show ?thesis using k t by (auto simp: set_update_distinct intro: distinct_list_update)
  qed
qed

lemma to_int_small: "0 \<le> i \<Longrightarrow> i < 2 ^ 31 \<Longrightarrow> to_int i = i"
  by (simp add: to_int_def signed_take_bit_int_eq_self)

lemma at_eq: "i < length xs \<Longrightarrow> at xs (int i) = Ret (xs ! i)" "i < length xs \<Longrightarrow> put_at xs (int i) x = Ret (xs[i := x])"
  by (simp_all add: at_def put_at_def)

text \<open>What picking a slot changes.\<close>

definition picked :: "pool \<Rightarrow> nat \<Rightarrow> pool \<Rightarrow> bool" where
  "picked p i q \<longleftrightarrow> i < slots p \<and> \<not> borrowed p i \<and> i < lent q \<and> books {i} q \<and>
     (\<exists>n fs c r. q = p\<lparr>sLentPageCount := n, sFreeSlots := fs, sFreeSlotCount := c, sLastRndValue := r\<rparr>)"

lemma pickedI:
  "q = p\<lparr>sLentPageCount := n, sFreeSlots := fs, sFreeSlotCount := c, sLastRndValue := r\<rparr> \<Longrightarrow> i < slots p \<Longrightarrow> \<not> borrowed p i \<Longrightarrow>
     i < lent q \<Longrightarrow> books {i} q \<Longrightarrow> picked p i q"
  unfolding picked_def by blast

lemma pick_fresh:
  assumes "books {} p" "slots p < 2 ^ 31" "lent p < slots p"
  shows "\<exists>q. pick_slot p = (Ret (int (lent p)), q) \<and> picked p (lent p) q"
proof (intro exI conjI)
  let ?q = "p\<lparr>sLentPageCount := sLentPageCount p + 1\<rparr>"
  have n: "unat (sLentPageCount p + 1) = lent p + 1" using assms(2, 3) by (simp add: unat_word_ariths)
  have "sint (sLentPageCount p) = int (lent p)" using sint_small [of "lent p"] assms(2, 3) by simp
  then show "pick_slot p = (Ret (int (lent p)), ?q)"
    using assms(3) by (simp add: pick_slot_def word_less_nat_alt slots_def)
  have nb: "\<not> borrowed p (lent p)" using assms(1, 3) by (auto simp: books_def)
  have "{i. i < Suc (lent p) \<and> \<not> borrowed p i \<and> i \<noteq> lent p} = {i. i < lent p \<and> \<not> borrowed p i}" by auto
  then have "books {lent p} ?q" using assms(1, 3) n nb by (auto simp: books_def less_Suc_eq)
  then show "picked p (lent p) ?q"
    using nb assms(3) n by (intro pickedI [where n = "sLentPageCount p + 1" and fs = "sFreeSlots p" and c = "sFreeSlotCount p"
      and r = "sLastRndValue p"]) simp_all
qed

lemma pick_returned:
  assumes "books {} p" "slots p < 2 ^ 31" "\<not> lent p < slots p" "0 < sFreeSlotCount p"
  shows "\<exists>i q. pick_slot p = (Ret (int i), q) \<and> picked p i q"
proof -
  define c where "c = unat (sFreeSlotCount p)"
  define r where "r = GenerateUnsignedInt32 (sLastRndValue p)"
  define k where "k = unat (ucast r mod sFreeSlotCount p)"
  have c: "0 < c" "c \<le> slots p" "length (sFreeSlots p) = slots p" using assms(1, 4) by (auto simp: books_def c_def word_less_nat_alt)
  have k: "k < c" using c(1) by (simp add: k_def c_def unat_mod)
  have t: "to_int (uint (ucast r mod sFreeSlotCount p)) = int k"
  proof -
    have "int k < 2 ^ 31" using k c(2) assms(2) by simp
    moreover have "uint (ucast r mod sFreeSlotCount p) = int k" by (simp add: k_def)
    ultimately show ?thesis by (simp only: to_int_small [of "int k"])
  qed
  have "sFreeSlotCount p \<noteq> 0" using assms(4) by auto
  then have n: "unat (sFreeSlotCount p - 1) = c - 1" by (simp add: c_def unat_minus_one)
  obtain i where i: "sFreeSlots p ! k = int i" "i < lent p" "\<not> borrowed p i"
  proof -
    have "sFreeSlots p ! k \<in> set (free_list p)" using k c by (auto simp: c_def in_set_conv_nth intro!: exI [of _ k])
    then show thesis using assms(1) that by (auto simp: books_def)
  qed
  define fs where "fs = (sFreeSlots p)[k := sFreeSlots p ! (c - 1)]"
  let ?q = "p\<lparr>sFreeSlotCount := sFreeSlotCount p - 1, sFreeSlots := fs, sLastRndValue := r\<rparr>"
  have u: "uint (sFreeSlotCount p - 1) = int (c - 1)" by (simp only: n [symmetric]) simp
  have "pick_slot p = (Ret (int i), ?q)"
    using assms(3, 4) c k t i(1) at_eq(1) [of k "sFreeSlots p"] at_eq(1) [of "c - 1" "sFreeSlots p"] at_eq(2) [of k "sFreeSlots p"]
    by (simp add: pick_slot_def next_random_def Let_def word_less_nat_alt slots_def r_def u fs_def bindc_def)
  moreover have "picked p i ?q"
  proof (rule pickedI)
    show "?q = p\<lparr>sLentPageCount := sLentPageCount p, sFreeSlots := fs, sFreeSlotCount := sFreeSlotCount p - 1, sLastRndValue := r\<rparr>" by simp
    show "i < slots p" "\<not> borrowed p i" "i < lent ?q" using i assms(1) by (auto simp: books_def)
    have "take (Suc (c - 1)) (sFreeSlots p) = free_list p" using c(1) by (simp add: c_def)
    with swap_last [of "c - 1" "sFreeSlots p" k] c k assms(1) i
    have "distinct (take (c - 1) fs)" "set (take (c - 1) fs) = set (free_list p) - {int i}"
      by (auto simp: books_def fs_def)
    then show "books {i} ?q" using assms(1) n c(2) i by (auto simp: books_def fs_def)
  qed
  ultimately show ?thesis by blast
qed

lemma pick_none: "books {} p \<Longrightarrow> \<not> lent p < slots p \<Longrightarrow> sFreeSlotCount p = 0 \<Longrightarrow>
  pick_slot p = (Ret SLOT_NONE, p) \<and> (\<forall>i < slots p. borrowed p i)"
  by (auto simp: pick_slot_def word_less_nat_alt slots_def books_def)

section \<open>Where an allocation is put\<close>

lemma AlignDownTo_le: "unat (AlignDownTo v al) \<le> unat v"
proof (cases "IsPowOf2 al")
  case True
  then show ?thesis by (simp add: AlignDownTo_def unsigned_and_eq and_nat_def nat_le_iff)
next
  case False
  have le: "unat v div unat al * unat al \<le> unat v" by (rule div_times_less_eq_dividend)
  have "unat (v div al * al) = unat v div unat al * unat al mod 2 ^ 64" by (simp add: unat_word_ariths unat_div mod_mult_left_eq)
  also have "\<dots> \<le> unat v" using le by (intro order.trans [OF mod_less_eq_dividend])
  finally show ?thesis using False by (simp only: AlignDownTo_def if_False)
qed

text \<open>The pages from the one an allocation starts in, as many as its size takes.\<close>

lemma window_inside:
  fixes P b S st sz :: nat
  assumes "P dvd b" "P dvd S" "0 < P" "b \<le> st" "st + sz \<le> b + S"
  shows "b \<le> st div P * P" "st div P * P + (sz + P - 1) div P * P \<le> b + S"
proof -
  obtain x e where x: "b = P * x" and e: "b + S = P * e" using assms(1, 2) by (metis dvd_add dvdE)
  have "x \<le> st div P" using assms(3, 4) x by (metis div_le_mono nonzero_mult_div_cancel_left not_gr0)
  then show "b \<le> st div P * P" by (simp add: x mult.commute)
  define q m where "q = st div P" and "m = (sz + P - 1) div P"
  have q: "P * q \<le> st" by (simp add: q_def)
  have m: "P * m \<le> sz + P - 1" by (simp add: m_def)
  have "P * (q + m) < P * (e + 1)"
  proof -
    have "P * (q + m) = P * q + P * m" by (rule distrib_left)
    also have "\<dots> \<le> st + (sz + P - 1)" using q m by simp
    also have "\<dots> < P * e + P" using assms(3, 5) e by simp
    finally show ?thesis by simp
  qed
  then have "q + m < e + 1" using mult_less_cancel1 by blast
  then have "P * (q + m) \<le> P * e" by (intro mult_le_mono2) simp
  then show "st div P * P + (sz + P - 1) div P * P \<le> b + S"
    by (simp add: q_def m_def e distrib_left mult.commute)
qed

lemma window_covers:
  fixes P a b S off sz :: nat
  assumes "P dvd b" "P dvd S" "0 < P" "a dvd off" "off + sz \<le> S" "S < off + sz + a" "a dvd P \<or> P dvd a"
  shows "b + off + sz \<le> (b + off) div P * P + (sz + P - 1) div P * P"
proof -
  define q m d where "q = (b + off) div P" and "m = (sz + P - 1) div P" and "d = (b + off) mod P"
  have st: "b + off = P * q + d" "d < P" using assms(3) by (simp_all add: q_def d_def)
  have sz: "sz \<le> P * m" using assms(3) dividend_less_div_times [of P "sz + P - 1"] by (simp add: m_def mult.commute)
  obtain e where e: "b + S = P * e" using assms(1, 2) by (metis dvd_add dvdE)
  have "d + sz \<le> P * m"
  proof (cases "P dvd off")
    case True
    then have "d = 0" using assms(1) by (simp add: d_def)
    with sz show ?thesis by simp
  next
    case False
    with assms(4, 7) have aP: "a dvd P" using dvd_trans by blast
    then have "a dvd b + off" using assms(1, 4) by (meson dvd_add dvd_trans)
    then have "a dvd d" using aP unfolding d_def by (simp add: dvd_mod)
    obtain x y where xy: "P = a * x" "d = a * y" using aP \<open>a dvd d\<close> by (metis dvdE)
    with st(2) have "Suc y \<le> x" using mult_less_cancel1 by (metis Suc_leI)
    then have "a * Suc y \<le> a * x" by (rule mult_le_mono2)
    then have da: "d + a \<le> P" using xy by simp
    show ?thesis
    proof (rule ccontr)
      assume "\<not> d + sz \<le> P * m"
      then have "P * (q + m) < P * e" using st(1) assms(5) e by (simp add: distrib_left)
      then have "Suc (q + m) \<le> e" using mult_less_cancel1 by (metis Suc_leI)
      then have "P * Suc (q + m) \<le> P * e" by (rule mult_le_mono2)
      moreover have "P * e < P * q + d + sz + a" using assms(6) e st(1) by simp
      ultimately show False using sz da by (simp add: distrib_left)
    qed
  qed
  then show ?thesis using st(1) by (simp add: q_def m_def mult.commute)
qed

lemma pow_dvd: "(2 :: nat) ^ i dvd 2 ^ j \<or> (2 :: nat) ^ j dvd 2 ^ i"
  by (metis le_imp_power_dvd linorder_le_cases)

text \<open>How far the start is from the one the size asks for.\<close>

lemma alloc_offset_spec:
  assumes "sz \<le> sSlotSize p" "IsPowOf2 al"
  shows "unat (alloc_offset p sz al side) + unat sz \<le> unat (sSlotSize p)"
    "\<exists>j. 2 ^ j dvd unat (alloc_offset p sz al side) \<and> unat (sSlotSize p) < unat (alloc_offset p sz al side) + unat sz + 2 ^ j
      \<or> alloc_offset p sz al side = 0"
proof -
  let ?pad = "sSlotSize p - sz" and ?off = "alloc_offset p sz al side"
  have pad: "unat ?pad = unat (sSlotSize p) - unat sz" "unat sz \<le> unat (sSlotSize p)"
    using assms(1) by (simp_all add: unat_sub word_le_nat_alt)
  have c: "?off = 0 \<or> ?off = ?pad \<or> ?off = AlignDownTo ?pad al" by (auto simp: alloc_offset_def GetSlotSize_def Let_def)
  then show "unat ?off + unat sz \<le> unat (sSlotSize p)"
    using pad AlignDownTo_le [of ?pad al] by auto
  from assms(2) consider "al = 0" | j where "j < 64" "al = 2 ^ j" by (auto simp: IsPowOf2_iff)
  then show "\<exists>j. 2 ^ j dvd unat ?off \<and> unat (sSlotSize p) < unat ?off + unat sz + 2 ^ j \<or> ?off = 0"
  proof cases
    case 1
    with c AlignTo_0 pad show ?thesis by (metis (no_types, lifting) add.commute le_add_diff_inverse2 less_add_one one_dvd power_0)
  next
    case (2 j)
    have "unat (AlignDownTo ?pad al) = unat ?pad div 2 ^ j * 2 ^ j" using 2 by (simp add: AlignDownTo_unat)
    moreover have "unat ?pad < unat ?pad div 2 ^ j * 2 ^ j + 2 ^ j" using dividend_less_div_times [of "2 ^ j" "unat ?pad"] by simp
    ultimately have "2 ^ j dvd unat (AlignDownTo ?pad al) \<and> unat (sSlotSize p) < unat (AlignDownTo ?pad al) + unat sz + 2 ^ j"
      using pad by simp
    moreover have "2 ^ 0 dvd unat ?pad \<and> unat (sSlotSize p) < unat ?pad + unat sz + 2 ^ 0" using pad by simp
    ultimately show ?thesis using c by metis
  qed
qed

section \<open>Borrowing a slot\<close>

definition all_granted :: "guard_os \<Rightarrow> bool" where
  "all_granted os \<longleftrightarrow> (\<forall>a n. grants os a n)"

text \<open>A change of protection from a page on, over whole pages.\<close>

lemma mprotect_window:
  assumes "all_granted os" "0 < unat (page_size os)" "unat (page_size os) dvd unat start" "unat (page_size os) dvd unat sz"
  shows "snd (mprotect os start sz pr m) =
    (\<lambda>a. if unat start \<le> unat a \<and> unat a < unat start + unat sz \<and> m a \<noteq> None then Some pr else m a)"
proof -
  let ?P = "unat (page_size os)"
  obtain c where c: "unat sz = ?P * c" using assms(4) by blast
  have w: "x div ?P * ?P < unat sz \<longleftrightarrow> x < unat sz" for x
  proof -
    have "x div ?P * ?P < ?P * c \<longleftrightarrow> x div ?P < c" using assms(2) by (simp add: mult.commute)
    also have "\<dots> \<longleftrightarrow> x < ?P * c" using assms(2) by (simp add: less_mult_imp_div_less div_less_iff_less_mult mult.commute)
    finally show ?thesis by (simp only: c)
  qed
  have e: "start \<le> a \<and> unat (a - start) div ?P * ?P < unat sz \<longleftrightarrow> unat start \<le> unat a \<and> unat a < unat start + unat sz" for a
    unfolding w by (auto simp: word_le_nat_alt unat_sub)
  have "unat start mod ?P = 0" "grants os start sz" using assms(1, 3) by (simp_all add: all_granted_def)
  then have "snd (mprotect os start sz pr m) =
      (\<lambda>a. if (start \<le> a \<and> unat (a - start) div ?P * ?P < unat sz) \<and> m a \<noteq> None then Some pr else m a)"
    by (simp add: mprotect_def)
  then show ?thesis unfolding e by (simp only: conj_assoc)
qed

lemma set_meta_eq:
  "i < length (sMetas p) \<Longrightarrow> set_meta (int i) f p = (Ret (), p\<lparr>sMetas := (sMetas p)[i := f (sMetas p ! i)]\<rparr>)"
  by (simp add: set_meta_def at_eq)

text \<open>The state once slot \<open>i\<close> was borrowed.\<close>

definition lend :: "guard_os \<Rightarrow> caller \<Rightarrow> u64 \<Rightarrow> u64 \<Rightarrow> nat \<Rightarrow> pool \<Rightarrow> pool" where
  "lend os who sz start i q = q\<lparr>
     sMetas := (sMetas q)[i := (sMetas q ! i)\<lparr>isBorrowed := True, allocatedSize := sz,
       borrowThreadId := gettid who, borrowThreadName := self_name who, stackTraceOnBorrow := UnwindStack who,
       returnThreadId := 0, returnThreadName := [], stackTraceOnReturn := [], allocatedStart := start\<rparr>],
     pages := MarkAreaReadWrite os (AlignDownTo start (page_size os)) (AlignUpTo sz (page_size os)) (pages q)\<rparr>"

lemma picked_simps:
  assumes "picked p i q"
  shows "sMetas q = sMetas p" "pages q = pages p" "gOpts q = gOpts p" "sSlotSize q = sSlotSize p" "slots q = slots p"
    "slot_start q j = slot_start p j" "layout os q = layout os p" "in_area q = in_area p" "in_slot q = in_slot p"
    "alloc_offset q sz al side = alloc_offset p sz al side" "sSlotAreaStart q = sSlotAreaStart p"
  using assms by (auto simp: picked_def in_area_def in_slot_def fun_eq_iff alloc_offset_def GetSlotSize_def)

lemma BorrowSlot_eq:
  assumes "layout os p" "sz \<le> sSlotSize p" "AlignUpTo sz al \<le> sSlotSize p" "pick_slot p = (Ret (int i), q)" "picked p i q"
  shows "BorrowSlot os who sz al side p =
    (Ret (int i), lend os who sz (of_nat (slot_start p i) + alloc_offset p sz al side) i q)"
proof -
  note q = picked_simps [OF assms(5)]
  have i: "i < slots p" "length (sMetas p) = slots p" "i < 2 ^ 31"
    using assms(1, 5) q by (auto simp: picked_def books_def layout_def)
  have g: "GetGuardedPageStart (int i) (q\<lparr>sMetas := ms\<rparr>) = Ret (of_nat (slot_start p i))" for ms
    using GetGuardedPageStart_eq(1) [of os "q\<lparr>sMetas := ms\<rparr>" i] assms(1) i q by simp
  have o: "alloc_offset (q\<lparr>sMetas := ms\<rparr>) sz al side = alloc_offset p sz al side" for ms
    using q by (simp add: alloc_offset_def GetSlotSize_def)
  have t: "to_int (int i) = int i" using to_int_small [of "int i"] i(3) by simp
  show ?thesis
    using assms(2-4) i q by (simp add: BorrowSlot_def GetSlotSize_def set_meta_eq g o t SLOT_NONE_def lend_def bindc_def not_less)
qed

lemma start_unat:
  assumes "layout os p" "i < slots p" "sz \<le> sSlotSize p" "IsPowOf2 al"
  shows "unat (of_nat (slot_start p i) + alloc_offset p sz al side) = slot_start p i + unat (alloc_offset p sz al side)"
proof -
  have "slot_start p i + unat (alloc_offset p sz al side) < 2 ^ 64"
    using alloc_offset_spec(1) [OF assms(3, 4), of side] slot_end_le [OF assms(1, 2)] slot_start_less [OF assms(1) order_refl]
    by (simp add: unit_size_def)
  then show ?thesis using GetGuardedPageStart_eq(2) [OF assms(1, 2)] by (simp add: unat_word_ariths)
qed

lemma page_dvd:
  assumes "layout os p"
  shows "0 < unat (page_size os)" "unat (page_size os) dvd unat (sSlotSize p)" "unat (page_size os) dvd slot_start p i"
proof -
  obtain k where k: "unat (page_size os) = 2 ^ k" "sGuardPageSize p = page_size os" using assms unat_pow by (auto simp: layout_def)
  then show "0 < unat (page_size os)" by simp
  show S: "unat (page_size os) dvd unat (sSlotSize p)" using assms by (simp add: layout_def)
  show "unat (page_size os) dvd slot_start p i"
    using assms S k(2) by (simp add: layout_def slot_start_def unit_size_def)
qed

text \<open>The pages made accessible: they lie in the slot and hold the allocation.\<close>

lemma lend_window:
  fixes side :: GuardSide
  assumes "layout os p" "i < slots p" "sz \<le> sSlotSize p" "IsPowOf2 al" "all_granted os"
  defines "start \<equiv> of_nat (slot_start p i) + alloc_offset p sz al side"
  obtains lo hi where
    "MarkAreaReadWrite os (AlignDownTo start (page_size os)) (AlignUpTo sz (page_size os)) m =
       (\<lambda>a. if lo \<le> unat a \<and> unat a < hi \<and> m a \<noteq> None then Some ReadWrite else m a)"
    "slot_start p i \<le> lo" "hi \<le> slot_start p i + unat (sSlotSize p)" "lo \<le> unat start" "unat start + unat sz \<le> hi"
proof -
  obtain k where k: "k < 63" "page_size os = 2 ^ k" "unat (page_size os) = 2 ^ k" using layoutE [OF assms(1)] by metis
  let ?P = "2 ^ k :: nat" and ?off = "unat (alloc_offset p sz al side)" and ?b = "slot_start p i" and ?S = "unat (sSlotSize p)"
  note P = page_dvd [OF assms(1), unfolded k(3)]
  have st: "unat start = ?b + ?off" unfolding start_def using assms by (intro start_unat)
  note off = alloc_offset_spec [OF assms(3, 4), of side]
  let ?lo = "unat start div ?P * ?P" and ?n = "(unat sz + ?P - 1) div ?P * ?P"
  have "unat sz + ?P \<le> 2 ^ 64"
    using unit_size_less [OF assms(1)] assms(1, 3) k by (auto simp: unit_size_def layout_def word_le_nat_alt)
  then have u: "unat (AlignUpTo sz (page_size os)) = ?n" using k by (simp add: AlignUpTo_unat)
  have d: "unat (AlignDownTo start (page_size os)) = ?lo" using k by (simp add: AlignDownTo_unat)
  have "MarkAreaReadWrite os (AlignDownTo start (page_size os)) (AlignUpTo sz (page_size os)) m =
      (\<lambda>a. if ?lo \<le> unat a \<and> unat a < ?lo + ?n \<and> m a \<noteq> None then Some ReadWrite else m a)"
  proof -
    have "?P dvd ?lo" "?P dvd ?n" by simp_all
    then show ?thesis unfolding MarkAreaReadWrite_def
      using mprotect_window [OF assms(5), of "AlignDownTo start (page_size os)" "AlignUpTo sz (page_size os)" ReadWrite m]
      unfolding u d k(3) by simp
  qed
  moreover have "?b \<le> ?lo" "?lo + ?n \<le> ?b + ?S" using window_inside [of ?P ?b ?S "unat start" "unat sz"] P off(1) st by simp_all
  moreover have "unat start + unat sz \<le> ?lo + ?n"
  proof -
    obtain j where "2 ^ j dvd ?off \<and> ?S < ?off + unat sz + 2 ^ j \<or> ?off = 0" using off(2) by auto
    then show ?thesis
    proof
      assume j: "2 ^ j dvd ?off \<and> ?S < ?off + unat sz + 2 ^ j"
      show ?thesis unfolding st using window_covers [of ?P ?b ?S "2 ^ j" ?off "unat sz"] P off(1) j pow_dvd [of j k] by simp
    next
      assume "?off = 0"
      then show ?thesis unfolding st
        using window_covers [of ?P ?b ?P "?P" 0 "unat sz"] P dividend_less_div_times [of ?P "unat sz + ?P - 1"] by simp
    qed
  qed
  ultimately show thesis using that by simp
qed

lemma slots_disjoint:
  "layout os p \<Longrightarrow> in_slot p i a \<Longrightarrow> in_slot p j a \<Longrightarrow> i = j"
proof (induction i j rule: linorder_wlog)
  case (le i j)
  show ?case
  proof (rule ccontr)
    assume "i \<noteq> j"
    with le(1) have "Suc i \<le> j" by simp
    from slot_start_mono [OF this, of p] have "slot_start p i + unit_size p \<le> slot_start p j" by (simp add: slot_start_Suc)
    with le(3, 4) show False by (simp add: in_slot_def unit_size_def)
  qed
qed blast

lemma slot_in_area: "layout os p \<Longrightarrow> i < slots p \<Longrightarrow> in_slot p i a \<Longrightarrow> in_area p a"
  using slot_end_le [of os p i] slot_start_mono [of 0 i p] by (auto simp: in_slot_def in_area_def unit_size_def slot_start_def)

lemma lend_inv:
  assumes inv: "pool_inv os p" and pk: "picked p i q" and args: "sz \<le> sSlotSize p" "IsPowOf2 al" "all_granted os"
  shows "pool_inv os (lend os who sz (of_nat (slot_start p i) + alloc_offset p sz al side) i q)"
proof -
  define start where "start = of_nat (slot_start p i) + alloc_offset p sz al side"
  define q' where "q' = lend os who sz start i q"
  note q = picked_simps [OF pk]
  have lay: "layout os p" and i: "i < slots p" "length (sMetas p) = slots p" "\<not> borrowed p i"
    using inv pk by (auto simp: pool_inv_def picked_def books_def)
  from lend_window [OF lay i(1) args, of side "pages p", folded start_def] obtain lo hi where w:
    "MarkAreaReadWrite os (AlignDownTo start (page_size os)) (AlignUpTo sz (page_size os)) (pages p) =
       (\<lambda>a. if lo \<le> unat a \<and> unat a < hi \<and> pages p a \<noteq> None then Some ReadWrite else pages p a)"
    "slot_start p i \<le> lo" "hi \<le> slot_start p i + unat (sSlotSize p)" "lo \<le> unat start" "unat start + unat sz \<le> hi"
    by blast
  have f: "slots q' = slots p" "\<And>j. slot_start q' j = slot_start p j" "layout os q'" "in_area q' = in_area p" "in_slot q' = in_slot p"
    "sSlotSize q' = sSlotSize p"
    using q lay by (auto simp: q'_def lend_def in_area_def in_slot_def fun_eq_iff)
  have pg: "pages q' = (\<lambda>a. if lo \<le> unat a \<and> unat a < hi \<and> pages p a \<noteq> None then Some ReadWrite else pages p a)"
    using w(1) q by (simp add: q'_def lend_def)
  have m: "sMetas q' ! i = (sMetas p ! i)\<lparr>isBorrowed := True, allocatedSize := sz, borrowThreadId := gettid who,
      borrowThreadName := self_name who, stackTraceOnBorrow := UnwindStack who, returnThreadId := 0, returnThreadName := [],
      stackTraceOnReturn := [], allocatedStart := start\<rparr>" "\<And>j. j \<noteq> i \<Longrightarrow> sMetas q' ! j = sMetas p ! j"
    "length (sMetas q') = slots p"
    using i q by (simp_all add: q'_def lend_def)
  have b: "borrowed q' j \<longleftrightarrow> j = i \<or> borrowed p j" for j using m by (cases "j = i") simp_all
  have mapped: "pages p a \<noteq> None" if "in_slot p i a" for a
    using inv slot_in_area [OF lay i(1) that] by (auto simp: pool_inv_def sealed_def)
  have "placed q' i"
  proof -
    have "pages q' a = Some ReadWrite" if "unat start \<le> unat a" "unat a < unat start + unat sz" for a
      using that w mapped [of a] unfolding pg by (auto simp: in_slot_def)
    with m w f show ?thesis by (auto simp: placed_def)
  qed
  moreover have "placed q' j" if "borrowed p j" "j < slots p" for j
  proof -
    have "placed p j" using inv that by (simp add: pool_inv_def)
    moreover have "j \<noteq> i" using that i(3) by auto
    ultimately show ?thesis using m(2) f by (simp add: placed_def pg)
  qed
  moreover have "books {} q'"
  proof -
    have "books {i} q" "i < lent q" using pk by (simp_all add: picked_def)
    moreover have "sLentPageCount q' = sLentPageCount q" "sFreeSlots q' = sFreeSlots q" "sFreeSlotCount q' = sFreeSlotCount q"
      by (simp_all add: q'_def lend_def)
    moreover have "{j. j < lent q \<and> \<not> borrowed q' j} = {j. j < lent q \<and> \<not> borrowed p j \<and> j \<noteq> i}" using b by auto
    ultimately show ?thesis using b f(1) m(3) q by (auto simp: books_def)
  qed
  moreover have "sealed q'"
    unfolding sealed_def f(1, 4, 5)
  proof (intro allI impI)
    fix a
    assume "in_area p a"
    then have a: "pages p a \<noteq> None" "pages p a = Some ReadWrite \<longrightarrow> (\<exists>j < slots p. borrowed p j \<and> in_slot p j a)"
      using inv by (auto simp: pool_inv_def sealed_def)
    show "pages q' a \<noteq> None \<and> (pages q' a = Some ReadWrite \<longrightarrow> (\<exists>j < slots p. borrowed q' j \<and> in_slot p j a))"
    proof (cases "lo \<le> unat a \<and> unat a < hi")
      case True
      then have "in_slot p i a" using w(2, 3) by (simp add: in_slot_def)
      with True a(1) i(1) b show ?thesis by (auto simp: pg)
    next
      case False
      then have "pages q' a = pages p a" by (auto simp: pg)
      with a b show ?thesis by auto
    qed
  qed
  ultimately show ?thesis using b f unfolding pool_inv_def q'_def [symmetric] start_def [symmetric] by auto
qed

lemma lend_meta:
  "i < length (sMetas q) \<Longrightarrow> allocatedStart (sMetas (lend os who sz start i q) ! i) = start"
  "i < length (sMetas q) \<Longrightarrow> allocatedSize (sMetas (lend os who sz start i q) ! i) = sz"
  "i < length (sMetas q) \<Longrightarrow> isBorrowed (sMetas (lend os who sz start i q) ! i)"
  "j \<noteq> i \<Longrightarrow> sMetas (lend os who sz start i q) ! j = sMetas q ! j"
  by (simp_all add: lend_def)

text \<open>Where an allocation starts in its slot: at its start under a guard on the left; so that it ends with the
  slot under a perfect guard on the right; else on the last multiple of the alignment where it fits.\<close>

definition start_for :: "pool \<Rightarrow> u64 \<Rightarrow> u64 \<Rightarrow> GuardSide \<Rightarrow> nat \<Rightarrow> nat \<Rightarrow> bool" where
  "start_for p sz al side i st \<longleftrightarrow>
     (if side = ON_LEFT then st = slot_start p i
      else if perfectRightSideGuard (gOpts p) then st + unat sz = slot_start p i + unat (sSlotSize p)
      else if al = 0 then st = slot_start p i
      else unat al dvd st - slot_start p i \<and> slot_start p i \<le> st \<and> st + unat sz \<le> slot_start p i + unat (sSlotSize p) \<and>
        slot_start p i + unat (sSlotSize p) < st + unat sz + unat al)"

lemma start_for_offset:
  assumes "sz \<le> sSlotSize p" "IsPowOf2 al"
  shows "start_for p sz al side i (slot_start p i + unat (alloc_offset p sz al side))"
proof -
  have pad: "unat (sSlotSize p - sz) = unat (sSlotSize p) - unat sz" "unat sz \<le> unat (sSlotSize p)"
    using assms(1) by (simp_all add: unat_sub word_le_nat_alt)
  consider "al = 0" | j where "j < 64" "al = 2 ^ j" using assms(2) by (auto simp: IsPowOf2_iff)
  then show ?thesis
  proof cases
    case 1
    with pad show ?thesis by (cases side) (auto simp: start_for_def alloc_offset_def GetSlotSize_def Let_def AlignTo_0)
  next
    case (2 j)
    have "al \<noteq> 0" using 2 unat_pow [of j] by auto
    define x where "x = unat (AlignDownTo (sSlotSize p - sz) al)"
    have x: "x = unat (sSlotSize p - sz) div 2 ^ j * 2 ^ j" using 2 by (simp add: x_def AlignDownTo_unat)
    have "2 ^ j dvd x" by (simp add: x)
    moreover have "x \<le> unat (sSlotSize p - sz)" unfolding x by (rule div_times_less_eq_dividend)
    moreover have "unat (sSlotSize p - sz) < x + 2 ^ j"
      unfolding x using dividend_less_div_times [of "2 ^ j" "unat (sSlotSize p - sz)"] by simp
    moreover have "unat al = 2 ^ j" using 2 by (simp add: unat_pow)
    ultimately show ?thesis using \<open>al \<noteq> 0\<close> pad
      by (cases side) (auto simp: start_for_def alloc_offset_def GetSlotSize_def Let_def simp flip: x_def)
  qed
qed

text \<open>What borrowing a slot promises.\<close>

definition lent_slot :: "pool \<Rightarrow> u64 \<Rightarrow> u64 \<Rightarrow> GuardSide \<Rightarrow> nat \<Rightarrow> pool \<Rightarrow> bool" where
  "lent_slot p sz al side i q \<longleftrightarrow> i < slots p \<and> \<not> borrowed p i \<and> borrowed q i \<and> (\<forall>j. j \<noteq> i \<longrightarrow> sMetas q ! j = sMetas p ! j) \<and>
     allocatedSize (sMetas q ! i) = sz \<and> start_for p sz al side i (unat (allocatedStart (sMetas q ! i))) \<and>
     gOpts q = gOpts p \<and> slots q = slots p \<and> slot_start q = slot_start p \<and> sSlotSize q = sSlotSize p"

lemma borrow_spec:
  assumes inv: "pool_inv os p" and args: "IsPowOf2 al" "all_granted os"
  shows "BorrowSlot os who sz al side p = (Ret SLOT_NONE, p) \<and>
      (sSlotSize p < sz \<or> sSlotSize p < AlignUpTo sz al \<or> (\<forall>i < slots p. borrowed p i)) \<or>
    (\<exists>i q. BorrowSlot os who sz al side p = (Ret (int i), q) \<and> lent_slot p sz al side i q \<and> pool_inv os q)"
proof (cases "sz \<le> sSlotSize p \<and> AlignUpTo sz al \<le> sSlotSize p")
  case True
  have lay: "layout os p" and bk: "books {} p" and n: "slots p < 2 ^ 31" using inv by (auto simp: pool_inv_def layout_def)
  consider (none) "\<not> lent p < slots p" "sFreeSlotCount p = 0" | (some) i q where "pick_slot p = (Ret (int i), q)" "picked p i q"
    using pick_fresh [OF bk n] pick_returned [OF bk n] by (metis word_neq_0_conv)
  then show ?thesis
  proof cases
    case none
    from pick_none [OF bk none] have "BorrowSlot os who sz al side p = (Ret SLOT_NONE, p)"
      using True by (simp add: BorrowSlot_def GetSlotSize_def not_less)
    then show ?thesis using pick_none [OF bk none] by blast
  next
    case some
    let ?start = "of_nat (slot_start p i) + alloc_offset p sz al side" and ?q = "lend os who sz (of_nat (slot_start p i) + alloc_offset p sz al side) i q"
    note q = picked_simps [OF some(2)]
    have i: "i < slots p" "i < length (sMetas q)" "\<not> borrowed p i" using some(2) bk q by (auto simp: picked_def books_def)
    have "start_for p sz al side i (unat ?start)"
      using start_for_offset [of sz p al side i] start_unat [OF lay i(1), of sz al side] True args by simp
    then have "lent_slot p sz al side i ?q"
      using i q by (simp add: lent_slot_def lend_meta) (simp add: lend_def fun_eq_iff)
    moreover have "pool_inv os ?q" using lend_inv [OF inv some(2)] True args by blast
    ultimately show ?thesis using BorrowSlot_eq [OF lay _ _ some] True by blast
  qed
next
  case False
  then have "BorrowSlot os who sz al side p = (Ret SLOT_NONE, p)" by (auto simp: BorrowSlot_def GetSlotSize_def)
  with False show ?thesis by (auto simp: not_le)
qed

section \<open>Returning a slot\<close>

definition retire :: "guard_os \<Rightarrow> caller \<Rightarrow> nat \<Rightarrow> pool \<Rightarrow> pool" where
  "retire os who i p = p\<lparr>
     sMetas := (sMetas p)[i := (sMetas p ! i)\<lparr>isBorrowed := False, returnThreadId := gettid who, returnThreadName := self_name who,
       stackTraceOnReturn := UnwindStack who\<rparr>],
     pages := (\<lambda>a. if in_slot p i a \<and> pages p a \<noteq> None then Some (guarded_prot (gOpts p)) else pages p a),
     sFreeSlots := (sFreeSlots p)[unat (sFreeSlotCount p) := int i],
     sFreeSlotCount := sFreeSlotCount p + 1\<rparr>"

lemma guarded_not_rw [simp]: "guarded_prot opts \<noteq> ReadWrite"
  by (simp add: guarded_prot_def)

lemma mark_slot:
  assumes "layout os p" "i < slots p" "all_granted os"
  shows "snd (mprotect os (of_nat (slot_start p i)) (sSlotSize p) pr m) = (\<lambda>a. if in_slot p i a \<and> m a \<noteq> None then Some pr else m a)"
  using mprotect_window [OF assms(3) page_dvd(1) [OF assms(1)], of "of_nat (slot_start p i)" "sSlotSize p" pr m] page_dvd [OF assms(1)]
  unfolding GetGuardedPageStart_eq(2) [OF assms(1, 2)] in_slot_def by simp

text \<open>A borrowed slot leaves room on the free list.\<close>

lemma free_room:
  assumes "books {} p" "i < slots p" "borrowed p i"
  shows "unat (sFreeSlotCount p) < slots p"
proof -
  have "int i \<notin> set (free_list p)" "set (free_list p) \<subseteq> int ` {..< slots p}" "int i \<in> int ` {..< slots p}"
    using assms by (auto simp: books_def)
  then have "set (free_list p) \<subset> int ` {..< slots p}" by blast
  then have "card (set (free_list p)) < card (int ` {..< slots p})" by (intro psubset_card_mono) simp_all
  moreover have "card (set (free_list p)) = unat (sFreeSlotCount p)"
    using assms(1) distinct_card [of "free_list p"] by (simp add: books_def min_absorb2)
  ultimately show ?thesis by (simp add: card_image)
qed

lemma ReturnSlot_eq:
  assumes "pool_inv os p" "i < slots p" "borrowed p i" "all_granted os"
  shows "ReturnSlot os who (int i) p = (Ret (), retire os who i p)"
proof -
  have lay: "layout os p" and n: "length (sMetas p) = slots p" "length (sFreeSlots p) = slots p" "i < 2 ^ 32"
    and room: "unat (sFreeSlotCount p) < slots p"
    using assms free_room [of p i] by (auto simp: pool_inv_def books_def layout_def)
  have good: "good_slot (int i) p" using good_slot_iff [OF lay n(3)] assms(2) by simp
  have g: "GetGuardedPageStart (int i) (p\<lparr>sMetas := ms\<rparr>) = Ret (of_nat (slot_start p i))" for ms
    using GetGuardedPageStart_eq(1) [of os "p\<lparr>sMetas := ms\<rparr>" i] lay assms(2) by simp
  have u: "uint (sFreeSlotCount p) = int (unat (sFreeSlotCount p))" by simp
  have put: "put_at (sFreeSlots p) (uint (sFreeSlotCount p)) (int i) = Ret ((sFreeSlots p)[unat (sFreeSlotCount p) := int i])"
    using room n(2) unfolding u by (intro at_eq) simp
  have at: "at (sMetas p) (int i) = Ret (sMetas p ! i)" using n(1) assms(2) by (intro at_eq) simp
  have set: "set_meta (int i) h p = (Ret (), p\<lparr>sMetas := (sMetas p)[i := h (sMetas p ! i)]\<rparr>)" for h
    using n(1) assms(2) by (intro set_meta_eq) simp
  have full: "\<not> maxDetectableAllocationCount (gOpts p) \<le> sFreeSlotCount p"
    using room by (simp add: word_le_nat_alt slots_def)
  have mark: "MarkAreaInaccessible os opts (of_nat (slot_start p i)) (sSlotSize p)
      (MarkAreaReadWrite os (of_nat (slot_start p i)) (sSlotSize p) m) =
      (\<lambda>a. if in_slot p i a \<and> m a \<noteq> None then Some (guarded_prot opts) else m a)" for opts m
    unfolding MarkAreaReadWrite_def MarkAreaInaccessible_def mark_slot [OF lay assms(2, 4)] by (auto simp: fun_eq_iff)
  show ?thesis
    using assms(3) good by (simp add: ReturnSlot_def at set g GetSlotSize_def mark full put retire_def)
qed

lemma retire_inv:
  assumes inv: "pool_inv os p" and i: "i < slots p" "borrowed p i"
  shows "pool_inv os (retire os who i p)"
proof -
  define q where "q = retire os who i p"
  have lay: "layout os p" and bk: "books {} p" and n: "length (sMetas p) = slots p" "length (sFreeSlots p) = slots p"
    using inv by (auto simp: pool_inv_def books_def)
  note room = free_room [OF bk i]
  have f: "slots q = slots p" "\<And>j. slot_start q j = slot_start p j" "layout os q" "in_area q = in_area p" "in_slot q = in_slot p"
    "sSlotSize q = sSlotSize p" "lent q = lent p"
    using lay by (auto simp: q_def retire_def in_area_def in_slot_def fun_eq_iff)
  have pg: "pages q = (\<lambda>a. if in_slot p i a \<and> pages p a \<noteq> None then Some (guarded_prot (gOpts p)) else pages p a)"
    by (simp add: q_def retire_def)
  have m: "\<And>j. j \<noteq> i \<Longrightarrow> sMetas q ! j = sMetas p ! j" "\<not> borrowed q i" using i n by (simp_all add: q_def retire_def)
  have b: "borrowed q j \<longleftrightarrow> j \<noteq> i \<and> borrowed p j" for j using m by (cases "j = i") simp_all
  have "placed q j" if "borrowed q j" "j < slots p" for j
  proof -
    have j: "j \<noteq> i" "placed p j" using inv that b by (auto simp: pool_inv_def)
    have "\<not> in_slot p i a" if "unat (allocatedStart (sMetas p ! j)) \<le> unat a"
      "unat a < unat (allocatedStart (sMetas p ! j)) + unat (allocatedSize (sMetas p ! j))" for a
    proof -
      have "in_slot p j a" using that j(2) by (auto simp: placed_def in_slot_def)
      then show ?thesis using slots_disjoint [OF lay] j(1) by blast
    qed
    with j m(1) [OF j(1)] f show ?thesis by (simp add: placed_def pg)
  qed
  moreover have "books {} q"
  proof -
    have c: "unat (sFreeSlotCount p + 1) = Suc (unat (sFreeSlotCount p))"
      using room lay by (simp add: unat_word_ariths layout_def)
    have fl: "free_list q = free_list p @ [int i]"
      using room n by (simp add: q_def retire_def c take_Suc_conv_app_nth)
    have "{j. j < lent p \<and> \<not> borrowed q j} = insert i {j. j < lent p \<and> \<not> borrowed p j}"
      using b i bk by (auto simp: books_def)
    then show ?thesis using bk fl b i n room c f(1, 7) by (auto simp: books_def q_def retire_def)
  qed
  moreover have "sealed q"
    unfolding sealed_def f(1, 4, 5)
  proof (intro allI impI)
    fix a
    assume "in_area p a"
    then have a: "pages p a \<noteq> None" "pages p a = Some ReadWrite \<longrightarrow> (\<exists>j < slots p. borrowed p j \<and> in_slot p j a)"
      using inv by (auto simp: pool_inv_def sealed_def)
    show "pages q a \<noteq> None \<and> (pages q a = Some ReadWrite \<longrightarrow> (\<exists>j < slots p. borrowed q j \<and> in_slot p j a))"
      using a b by (auto simp: pg)
  qed
  ultimately show ?thesis using f unfolding pool_inv_def q_def [symmetric] by auto
qed

text \<open>No address is in a slot and in a guard page.\<close>

lemma slot_not_guard:
  assumes "layout os p" "in_slot p j a"
  shows "\<not> guard_page p a"
proof
  assume "guard_page p a"
  then obtain i where i: "i \<le> slots p" "slot_start p i \<le> unat a + unat (sGuardPageSize p)" "unat a < slot_start p i"
    by (auto simp: guard_page_def)
  show False
  proof (cases "i \<le> j")
    case True
    then show ?thesis using slot_start_mono [OF True, of p] i(3) assms(2) by (simp add: in_slot_def)
  next
    case False
    then have "slot_start p j + unit_size p \<le> slot_start p i" using slot_start_mono [of "Suc j" i p] by (simp add: slot_start_Suc)
    then show ?thesis using i(2) assms(2) by (simp add: in_slot_def unit_size_def)
  qed
qed

text \<open>A guard page can never be written.\<close>

lemma guard_not_rw:
  assumes "pool_inv os p" "guard_page p a"
  shows "pages p a \<noteq> Some ReadWrite" "pages p a \<noteq> None"
proof -
  have lay: "layout os p" using assms(1) by (simp add: pool_inv_def)
  have "in_area p a" using guard_page_mod [OF lay] assms(2) by (auto simp: in_area_def)
  moreover have "\<not> in_slot p j a" for j using slot_not_guard [OF lay] assms(2) by blast
  ultimately show "pages p a \<noteq> Some ReadWrite" "pages p a \<noteq> None" using assms(1) by (auto simp: pool_inv_def sealed_def)
qed

lemma behind_slot:
  assumes "layout os p" "i < slots p"
  shows "guard_page p (of_nat (slot_start p i) + sSlotSize p)" "unat (of_nat (slot_start p i) + sSlotSize p) = slot_start p i + unat (sSlotSize p)"
proof -
  have "slot_start p i + unat (sSlotSize p) < 2 ^ 64"
    using slot_end_le [OF assms] slot_start_less [OF assms(1) order_refl] by (simp add: unit_size_def)
  then show u: "unat (of_nat (slot_start p i) + sSlotSize p) = slot_start p i + unat (sSlotSize p)"
    using GetGuardedPageStart_eq(2) [OF assms] by (simp add: unat_word_ariths)
  obtain k where "sGuardPageSize p = 2 ^ k" "k < 63" using layoutE [OF assms(1)] by metis
  then have "0 < unat (sGuardPageSize p)" using unat_pow [of k] by simp
  then show "guard_page p (of_nat (slot_start p i) + sSlotSize p)"
    unfolding guard_page_def using assms(2) u by (intro exI [of _ "Suc i"]) (simp add: slot_start_Suc unit_size_def)
qed

text \<open>The first byte of the guard page behind a slot.\<close>

definition behind :: "pool \<Rightarrow> nat \<Rightarrow> u64" where
  "behind p i = of_nat (slot_start p i) + sSlotSize p"

lemma double_return:
  assumes "pool_inv os p" "i < slots p" "\<not> borrowed p i"
  shows "ReturnSlot os who (int i) p = (Segv, p\<lparr>gLastIssueType := DOUBLE_FREE, fault_addr := Some (behind p i)\<rparr>)"
proof -
  have lay: "layout os p" and n: "length (sMetas p) = slots p" "i < 2 ^ 32"
    using assms(1, 2) by (auto simp: pool_inv_def books_def layout_def)
  have "good_slot (int i) p" using good_slot_iff [OF lay n(2)] assms(2) by simp
  moreover have "GetGuardedPageStart (int i) (p\<lparr>gLastIssueType := x\<rparr>) = GetGuardedPageStart (int i) p" for x
    by (simp add: GetGuardedPageStart_def good_slot_def)
  ultimately show ?thesis
    using assms n GetGuardedPageStart_eq [OF lay assms(2)] guard_not_rw(1) [OF assms(1) behind_slot(1) [OF lay assms(2)]]
    by (simp add: ReturnSlot_def TriggerIssue_def at_eq SLOT_NONE_def touch_def store_byte_def behind_def GetSlotSize_def bindc_def)
qed

end
