(* ===== verification/MgAlloc.thy ===== *)
theory MgAlloc
  imports MgInv
begin

text \<open>
  \<open>memguard/util/Allocation.cpp\<close>: which allocations are guarded, and the guarded allocation and release of a
  block. The live blocks are a map from their starts to their sizes, which the operations keep the way an
  allocator should.
\<close>

section \<open>Operations\<close>

definition ShouldBeGuardedThisTime :: "(pool, bool) cmd" where
  "ShouldBeGuardedThisTime = (\<lambda>p.
     if sampleCounter p = 0 then
       bindc next_random (\<lambda>r.
       bindc (updc (\<lambda>p. p\<lparr>sampleCounter := ucast (ucast r AND (sSampleCycleLength p - 1))\<rparr>)) (\<lambda>_. retc True)) p
     else (Ret False, p\<lparr>sampleCounter := sampleCounter p - 1\<rparr>))"

definition ShouldBeGuardedOnLeft :: "(pool, bool) cmd" where
  "ShouldBeGuardedOnLeft =
     bindc next_random (\<lambda>r.
     readc (\<lambda>p. Ret (ucast ((r AND (push_bit 10 1 - 1)) * 100) \<le> push_bit 10 (sAdjustedPercentageOfLeftSideGuard p))))"

text \<open>A call that is under way already gives up; the flag is cleared on the way out.\<close>

definition RECURSIVE_GUARD :: "(pool \<Rightarrow> bool) \<Rightarrow> (bool \<Rightarrow> pool \<Rightarrow> pool) \<Rightarrow> 'a \<Rightarrow> (pool, 'a) cmd \<Rightarrow> (pool, 'a) cmd" where
  "RECURSIVE_GUARD flag set_flag ret_value_on_reentered body = (\<lambda>p.
     if flag p then (Ret ret_value_on_reentered, p)
     else
       bindc (updc (set_flag True)) (\<lambda>_.
       bindc body (\<lambda>r.
       bindc (updc (set_flag False)) (\<lambda>_. retc r))) p)"

text \<open>The time and the thread are the seed.\<close>

definition allocation_Prepare :: "u32 \<Rightarrow> u32 \<Rightarrow> (pool, bool) cmd" where
  "allocation_Prepare now tid =
     bindc (updc (\<lambda>p. p\<lparr>sAdjustedPercentageOfLeftSideGuard :=
       (if percentageOfLeftSideGuard (gOpts p) > 100 then 100 else percentageOfLeftSideGuard (gOpts p))\<rparr>)) (\<lambda>_.
     bindc (updc (\<lambda>p. let len = AlignUpToPowOf2 (maxSkippedAllocationCount (gOpts p)) in
       p\<lparr>sSampleCycleLength := (if len = 0 then 1 else if len = 1 then 2 else len)\<rparr>)) (\<lambda>_.
     bindc (updc (\<lambda>p. p\<lparr>sLastRndValue := InitializeRndSeed now tid\<rparr>)) (\<lambda>_.
     bindc next_random (\<lambda>r.
     bindc (updc (\<lambda>p. p\<lparr>sampleCounter := ucast (ucast r AND (sSampleCycleLength p - 1))\<rparr>)) (\<lambda>_.
     retc True)))))"

text \<open>The null pointer says that the allocation is left to the system.\<close>

definition AlignedAllocate :: "guard_os \<Rightarrow> caller \<Rightarrow> u64 \<Rightarrow> u64 \<Rightarrow> (pool, u64) cmd" where
  "AlignedAllocate os who sz alignment =
     RECURSIVE_GUARD isCallingAlloc (\<lambda>b p. p\<lparr>isCallingAlloc := b\<rparr>) 0
       (bindc ShouldBeGuardedThisTime (\<lambda>guarded.
        if \<not> guarded then retc 0
        else (\<lambda>p.
          if alignment > GetSlotSize p then (Ret 0, p)
          else if \<not> IsPowOf2 alignment then (Ret 0, p)
          else if AlignUpTo sz alignment > GetSlotSize p then (Ret 0, p)
          else
            bindc ShouldBeGuardedOnLeft (\<lambda>on_left.
            bindc (BorrowSlot os who sz alignment (if on_left then ON_LEFT else ON_RIGHT)) (\<lambda>slot.
            if slot = SLOT_NONE then retc 0 else readc (GetAllocatedAddress slot))) p)))"

definition Allocate :: "guard_os \<Rightarrow> caller \<Rightarrow> u64 \<Rightarrow> (pool, u64) cmd" where
  "Allocate os who sz = AlignedAllocate os who sz (push_bit 1 8)"

definition IsAllocatedByThisAllocator :: "u64 \<Rightarrow> pool \<Rightarrow> bool run" where
  "IsAllocatedByThisAllocator ptr p = bindr (GetSlotIdOfAddress ptr p) (\<lambda>slot. Ret (slot \<noteq> SLOT_NONE))"

definition GetAllocatedSize :: "u64 \<Rightarrow> pool \<Rightarrow> u64 run" where
  "GetAllocatedSize ptr p = bindr (GetSlotIdOfAddress ptr p) (\<lambda>slot.
     if to_int slot = SLOT_NONE then Ret 0 else pool_GetAllocatedSize (to_int slot) p)"

definition Free :: "guard_os \<Rightarrow> caller \<Rightarrow> u64 \<Rightarrow> (pool, bool) cmd" where
  "Free os who ptr =
     RECURSIVE_GUARD isCallingFree (\<lambda>b p. p\<lparr>isCallingFree := b\<rparr>) False
       (bindc (readc (GetSlotIdOfAddress ptr)) (\<lambda>slot.
        if to_int slot \<noteq> SLOT_NONE then bindc (ReturnSlot os who (to_int slot)) (\<lambda>_. retc True) else retc False))"

section \<open>Live blocks\<close>

text \<open>Start and size of every borrowed block.\<close>

definition blocks :: "pool \<Rightarrow> (u64 \<times> u64) list" where
  "blocks p = map (\<lambda>m. (allocatedStart m, allocatedSize m)) (filter isBorrowed (sMetas p))"

definition live :: "pool \<Rightarrow> u64 \<rightharpoonup> u64" where
  "live p = map_of (blocks p)"

text \<open>The invariant between two calls of a thread.\<close>

definition alloc_inv :: "guard_os \<Rightarrow> pool \<Rightarrow> bool" where
  "alloc_inv os p \<longleftrightarrow> pool_inv os p \<and> \<not> isCallingAlloc p \<and> \<not> isCallingFree p"

lemma pool_inv_upd [simp]:
  "pool_inv os (p\<lparr>isCallingAlloc := b\<rparr>) = pool_inv os p" "pool_inv os (p\<lparr>isCallingFree := b\<rparr>) = pool_inv os p"
  "pool_inv os (p\<lparr>sampleCounter := c\<rparr>) = pool_inv os p" "pool_inv os (p\<lparr>sLastRndValue := r\<rparr>) = pool_inv os p"
  "pool_inv os (p\<lparr>gLastIssueType := t\<rparr>) = pool_inv os p" "pool_inv os (p\<lparr>fault_addr := f\<rparr>) = pool_inv os p"
  by (simp_all add: pool_inv_def layout_def books_def sealed_def placed_def in_area_def in_slot_def slot_start_def unit_size_def slots_def)

lemma live_upd [simp]:
  "live (p\<lparr>isCallingAlloc := b\<rparr>) = live p" "live (p\<lparr>isCallingFree := b\<rparr>) = live p" "live (p\<lparr>sampleCounter := c\<rparr>) = live p"
  "live (p\<lparr>sLastRndValue := r\<rparr>) = live p" "live (p\<lparr>gLastIssueType := t\<rparr>) = live p" "live (p\<lparr>fault_addr := f\<rparr>) = live p"
  by (simp_all add: live_def blocks_def)

lemma guard_pos: "layout os p \<Longrightarrow> 0 < unat (sGuardPageSize p)"
  using page_dvd(1) by (simp add: layout_def)

text \<open>A borrowed slot is found by the start of its block.\<close>

lemma slot_of_start:
  assumes "pool_inv os p" "i < slots p" "borrowed p i"
  shows "GetSlotIdOfAddress (allocatedStart (sMetas p ! i)) p = Ret (int i)"
proof -
  have lay: "layout os p" and "placed p i" using assms by (auto simp: pool_inv_def)
  with guard_pos [OF lay] assms(2) show ?thesis
    by (intro GetSlotIdOfAddress_slot [of os]) (auto simp: placed_def unit_size_def)
qed

lemma live_iff:
  assumes "pool_inv os p"
  shows "live p a = Some n \<longleftrightarrow> (\<exists>i < slots p. borrowed p i \<and> allocatedStart (sMetas p ! i) = a \<and> allocatedSize (sMetas p ! i) = n)"
proof -
  have len: "length (sMetas p) = slots p" using assms by (simp add: pool_inv_def books_def)
  have mem: "(a, k) \<in> set (blocks p) \<longleftrightarrow>
      (\<exists>i < slots p. borrowed p i \<and> allocatedStart (sMetas p ! i) = a \<and> allocatedSize (sMetas p ! i) = k)" for k
    by (auto simp: blocks_def in_set_conv_nth len image_iff Bex_def)
  show ?thesis
  proof
    assume "live p a = Some n"
    then show "\<exists>i < slots p. borrowed p i \<and> allocatedStart (sMetas p ! i) = a \<and> allocatedSize (sMetas p ! i) = n"
      using mem map_of_SomeD unfolding live_def by metis
  next
    assume r: "\<exists>i < slots p. borrowed p i \<and> allocatedStart (sMetas p ! i) = a \<and> allocatedSize (sMetas p ! i) = n"
    then obtain i where i: "i < slots p" "borrowed p i" "allocatedStart (sMetas p ! i) = a" "allocatedSize (sMetas p ! i) = n" by blast
    obtain k where k: "live p a = Some k" using r weak_map_of_SomeI [of a n] mem unfolding live_def by metis
    then obtain j where j: "j < slots p" "borrowed p j" "allocatedStart (sMetas p ! j) = a" "allocatedSize (sMetas p ! j) = k"
      using mem map_of_SomeD unfolding live_def by metis
    have "int i = int j" using slot_of_start [OF assms i(1, 2)] slot_of_start [OF assms j(1, 2)] i(3) j(3) by simp
    with i j k show "live p a = Some n" by simp
  qed
qed

lemma live_slotE:
  assumes "pool_inv os p" "live p a = Some n"
  obtains i where "i < slots p" "borrowed p i" "allocatedStart (sMetas p ! i) = a" "allocatedSize (sMetas p ! i) = n"
    "GetSlotIdOfAddress a p = Ret (int i)"
  using assms live_iff slot_of_start by metis

lemma map_eqI: "(\<And>x n. f x = Some n \<longleftrightarrow> g x = Some n) \<Longrightarrow> f = g" for f g :: "'a \<rightharpoonup> 'b"
  by (rule ext) (metis not_None_eq)

lemma lent_live:
  assumes "pool_inv os p" "pool_inv os q" "lent_slot p sz al side i q"
  defines "a \<equiv> allocatedStart (sMetas q ! i)"
  shows "live p a = None" "live q = (live p)(a \<mapsto> sz)" "a \<noteq> 0"
proof -
  have i: "i < slots p" "\<not> borrowed p i" "borrowed q i" "allocatedSize (sMetas q ! i) = sz" "slots q = slots p" "slot_start q = slot_start p"
    and o: "\<And>j. j \<noteq> i \<Longrightarrow> sMetas q ! j = sMetas p ! j"
    using assms(3) by (auto simp: lent_slot_def)
  have uniq: "j = i" if "j < slots p" "borrowed q j" "allocatedStart (sMetas q ! j) = a" for j
    using slot_of_start [OF assms(2)] that i(1, 3, 5) unfolding a_def by (metis of_nat_eq_iff run.inject)
  show "live p a = None"
  proof (rule ccontr)
    assume "live p a \<noteq> None"
    then obtain n where "live p a = Some n" by blast
    from live_slotE [OF assms(1) this] obtain j where j: "j < slots p" "borrowed p j" "allocatedStart (sMetas p ! j) = a" by metis
    then have "j \<noteq> i" using i(2) by auto
    with uniq [of j] o [of j] j show False by simp
  qed
  show "live q = (live p)(a \<mapsto> sz)"
  proof (rule map_eqI)
    fix x n
    have "live q x = Some n \<longleftrightarrow> (\<exists>j < slots p. borrowed q j \<and> allocatedStart (sMetas q ! j) = x \<and> allocatedSize (sMetas q ! j) = n)"
      using live_iff [OF assms(2)] i(5) by simp
    also have "\<dots> \<longleftrightarrow> ((live p)(a \<mapsto> sz)) x = Some n"
    proof (cases "x = a")
      case True
      have "allocatedStart (sMetas q ! i) = a" by (simp add: a_def)
      then have "(\<exists>j < slots p. borrowed q j \<and> allocatedStart (sMetas q ! j) = a \<and> allocatedSize (sMetas q ! j) = n) \<longleftrightarrow> n = sz"
        using uniq i by blast
      with True show ?thesis by auto
    next
      case False
      have "(\<exists>j < slots p. borrowed q j \<and> allocatedStart (sMetas q ! j) = x \<and> allocatedSize (sMetas q ! j) = n) \<longleftrightarrow>
          (\<exists>j < slots p. borrowed p j \<and> allocatedStart (sMetas p ! j) = x \<and> allocatedSize (sMetas p ! j) = n)"
        using False o i(2) unfolding a_def by metis
      with False show ?thesis using live_iff [OF assms(1)] by simp
    qed
    finally show "live q x = Some n \<longleftrightarrow> ((live p)(a \<mapsto> sz)) x = Some n" .
  qed
  show "a \<noteq> 0"
  proof -
    have "slot_start q i \<le> unat a" "layout os q" using assms(2) i by (auto simp: pool_inv_def placed_def a_def)
    with guard_pos [of os q] show ?thesis by (auto simp: slot_start_def)
  qed
qed

text \<open>What no operation of the pool changes.\<close>

definition flags :: "pool \<Rightarrow> bool \<times> bool \<times> Options \<times> u64 \<times> u64 \<times> u32" where
  "flags p = (isCallingAlloc p, isCallingFree p, gOpts p, sSampleCycleLength p, sAdjustedPercentageOfLeftSideGuard p, sampleCounter p)"

lemma flags_upd:
  "flags (p\<lparr>pages := x1\<rparr>) = flags p" "flags (p\<lparr>sMetas := x2\<rparr>) = flags p" "flags (p\<lparr>sFreeSlots := x3\<rparr>) = flags p"
  "flags (p\<lparr>sFreeSlotCount := x4\<rparr>) = flags p" "flags (p\<lparr>sLentPageCount := x5\<rparr>) = flags p"
  "flags (p\<lparr>sLastRndValue := x6\<rparr>) = flags p" "flags (p\<lparr>gLastIssueType := x7\<rparr>) = flags p" "flags (p\<lparr>fault_addr := x8\<rparr>) = flags p"
  by (simp_all add: flags_def)

lemma keeps_flags:
  "keeps flags next_random" "keeps flags pick_slot" "keeps flags (set_meta slot f)" "keeps flags ShouldBeGuardedOnLeft"
proof -
  show r: "keeps flags next_random" by (simp add: keeps_def next_random_def Let_def flags_upd)
  show "keeps flags (set_meta slot f)" unfolding set_meta_def by (intro keeps_intros) (simp add: flags_upd)
  show "keeps flags ShouldBeGuardedOnLeft" unfolding ShouldBeGuardedOnLeft_def by (intro keeps_intros r)
  show "keeps flags pick_slot"
    unfolding pick_slot_def by (rule keepsI) (auto simp: flags_upd intro!: keeps_snd keeps_intros r)
qed

lemma keeps_flags_BorrowSlot: "keeps flags (BorrowSlot os who sz al side)"
  unfolding BorrowSlot_def by (rule keepsI) (auto simp: flags_upd intro!: keeps_snd keeps_intros keeps_flags)

lemma keeps_flags_store: "keeps flags (store_byte addr)"
  by (simp add: keeps_def store_byte_def flags_upd split: run.split)

lemma keeps_flags_ReturnSlot: "keeps flags (ReturnSlot os who slot)"
  unfolding ReturnSlot_def TriggerIssue_def
  by (intro keeps_intros keeps_flags keeps_flags_store keepsI) (auto simp: flags_upd intro!: keeps_snd keeps_intros)

section \<open>Allocation\<close>

text \<open>The sampling changes nothing but the counter and the random numbers.\<close>

lemma guarded_this_time:
  "\<exists>c r. ShouldBeGuardedThisTime p = (Ret (sampleCounter p = 0), p\<lparr>sampleCounter := c, sLastRndValue := r\<rparr>)"
proof (cases "sampleCounter p = 0")
  case True
  show ?thesis unfolding ShouldBeGuardedThisTime_def next_random_def Let_def using True
    by (intro exI [of _ "ucast (ucast (GenerateUnsignedInt32 (sLastRndValue p)) AND (sSampleCycleLength p - 1))"]
      exI [of _ "GenerateUnsignedInt32 (sLastRndValue p)"]) simp
next
  case False
  then show ?thesis unfolding ShouldBeGuardedThisTime_def
    by (intro exI [of _ "sampleCounter p - 1"] exI [of _ "sLastRndValue p"]) simp
qed

lemma guarded_on_left: "\<exists>b r. ShouldBeGuardedOnLeft p = (Ret b, p\<lparr>sLastRndValue := r\<rparr>)"
  unfolding ShouldBeGuardedOnLeft_def next_random_def Let_def
  by (intro exI [of _ "ucast ((GenerateUnsignedInt32 (sLastRndValue p) AND (push_bit 10 1 - 1)) * 100) \<le>
      push_bit 10 (sAdjustedPercentageOfLeftSideGuard p)"] exI [of _ "GenerateUnsignedInt32 (sLastRndValue p)"]) simp

lemma RECURSIVE_GUARD_Ret:
  "\<not> flag p \<Longrightarrow> body (set_flag True p) = (Ret a, q) \<Longrightarrow> RECURSIVE_GUARD flag set_flag d body p = (Ret a, set_flag False q)"
  by (simp add: RECURSIVE_GUARD_def)

lemma RECURSIVE_GUARD_Segv:
  "\<not> flag p \<Longrightarrow> body (set_flag True p) = (Segv, q) \<Longrightarrow> RECURSIVE_GUARD flag set_flag d body p = (Segv, q)"
  by (simp add: RECURSIVE_GUARD_def)

lemma flag_off:
  "\<not> isCallingAlloc p \<Longrightarrow> p\<lparr>isCallingAlloc := False\<rparr> = p" "\<not> isCallingFree p \<Longrightarrow> p\<lparr>isCallingFree := False\<rparr> = p"
  by (cases p, simp)+

lemma lent_slot_upd:
  "lent_slot (p\<lparr>sLastRndValue := r\<rparr>) sz al side i q = lent_slot p sz al side i q"
  "lent_slot (p\<lparr>isCallingAlloc := b\<rparr>) sz al side i q = lent_slot p sz al side i q"
  "lent_slot (p\<lparr>sampleCounter := c\<rparr>) sz al side i q = lent_slot p sz al side i q"
  "lent_slot p sz al side i (q\<lparr>isCallingAlloc := b\<rparr>) = lent_slot p sz al side i q"
  by (simp_all add: lent_slot_def start_for_def slot_start_def unit_size_def slots_def fun_eq_iff)

text \<open>What an allocation does: it is left to the system and nothing but counters changes, or a slot is lent.\<close>

lemma AlignedAllocate_cases:
  assumes inv: "alloc_inv os p" and os: "all_granted os"
  obtains (skipped) q where "AlignedAllocate os who sz al p = (Ret 0, q)" "alloc_inv os q" "\<exists>c r. q = p\<lparr>sampleCounter := c, sLastRndValue := r\<rparr>"
      "sampleCounter p \<noteq> 0 \<or> sSlotSize p < al \<or> \<not> IsPowOf2 al \<or> sSlotSize p < AlignUpTo sz al \<or> sSlotSize p < sz \<or> (\<forall>i < slots p. borrowed p i)"
  | (guarded) i side q where "AlignedAllocate os who sz al p = (Ret (allocatedStart (sMetas q ! i)), q)" "alloc_inv os q"
      "lent_slot p sz al side i q" "sampleCounter p = 0" "al \<le> sSlotSize p" "IsPowOf2 al"
proof -
  let ?p = "p\<lparr>isCallingAlloc := True\<rparr>"
  have fl: "\<not> isCallingAlloc p" "\<not> isCallingFree p" "pool_inv os p" using inv by (simp_all add: alloc_inv_def)
  obtain c r where g: "ShouldBeGuardedThisTime ?p = (Ret (sampleCounter p = 0), ?p\<lparr>sampleCounter := c, sLastRndValue := r\<rparr>)"
    using guarded_this_time [of ?p] by auto
  let ?p1 = "?p\<lparr>sampleCounter := c, sLastRndValue := r\<rparr>"
  have q: "?p\<lparr>sampleCounter := c, sLastRndValue := x\<rparr>\<lparr>isCallingAlloc := False\<rparr> = p\<lparr>sampleCounter := c, sLastRndValue := x\<rparr>"
    "alloc_inv os (p\<lparr>sampleCounter := c, sLastRndValue := x\<rparr>)" for x
    using fl flag_off(1) [of "p\<lparr>sampleCounter := c, sLastRndValue := x\<rparr>"] by (simp_all add: alloc_inv_def)
  note start = RECURSIVE_GUARD_Ret [where flag = isCallingAlloc and p = p and set_flag = "\<lambda>b p. p\<lparr>isCallingAlloc := b\<rparr>", OF fl(1)]
  let ?bad = "sampleCounter p \<noteq> 0 \<or> sSlotSize p < al \<or> \<not> IsPowOf2 al \<or> sSlotSize p < AlignUpTo sz al"
  show thesis
  proof (cases ?bad)
    case True
    then have "AlignedAllocate os who sz al p = (Ret 0, ?p1\<lparr>isCallingAlloc := False\<rparr>)"
      unfolding AlignedAllocate_def by (intro start) (auto simp: g GetSlotSize_def)
    then show thesis using q True by (intro skipped) auto
  next
    case False
    obtain b r' where l: "ShouldBeGuardedOnLeft ?p1 = (Ret b, ?p1\<lparr>sLastRndValue := r'\<rparr>)" using guarded_on_left by blast
    let ?p2 = "?p1\<lparr>sLastRndValue := r'\<rparr>" and ?side = "if b then ON_LEFT else ON_RIGHT"
    have i2: "pool_inv os ?p2" using fl(3) by simp
    have run: "AlignedAllocate os who sz al p = (Ret a, q\<lparr>isCallingAlloc := False\<rparr>)"
      if "bindc (BorrowSlot os who sz al ?side) (\<lambda>slot. if slot = SLOT_NONE then retc 0 else readc (GetAllocatedAddress slot)) ?p2 = (Ret a, q)"
      for a q
      unfolding AlignedAllocate_def using False that
      by (intro start) (simp add: g GetSlotSize_def l)
    from borrow_spec [OF i2, of al who sz ?side] False os
    consider "BorrowSlot os who sz al ?side ?p2 = (Ret SLOT_NONE, ?p2)" "sSlotSize p < sz \<or> (\<forall>i < slots p. borrowed p i)"
      | i q where "BorrowSlot os who sz al ?side ?p2 = (Ret (int i), q)" "lent_slot ?p2 sz al ?side i q" "pool_inv os q"
      by (auto simp: slots_def)
    then show thesis
    proof cases
      case 1
      then have "AlignedAllocate os who sz al p = (Ret 0, ?p2\<lparr>isCallingAlloc := False\<rparr>)" by (intro run) simp
      then show thesis using 1(2) q [of r'] by (intro skipped) auto
    next
      case (2 i q)
      have i: "i < slots q" "i < 2 ^ 32" "layout os q" "length (sMetas q) = slots q"
        using 2(2, 3) by (auto simp: lent_slot_def pool_inv_def books_def layout_def)
      have "GetAllocatedAddress (int i) q = Ret (allocatedStart (sMetas q ! i))"
        using good_slot_iff [OF i(3, 2)] i by (simp add: GetAllocatedAddress_def at_eq)
      then have "AlignedAllocate os who sz al p = (Ret (allocatedStart (sMetas q ! i)), q\<lparr>isCallingAlloc := False\<rparr>)"
        using 2(1) by (intro run) (simp add: SLOT_NONE_def)
      moreover have "\<not> isCallingFree q"
        using keepsD [OF keeps_flags_BorrowSlot 2(1)] fl by (simp add: flags_def)
      then have "alloc_inv os (q\<lparr>isCallingAlloc := False\<rparr>)" using 2(3) by (simp add: alloc_inv_def)
      ultimately show thesis
        using False 2(2) by (intro guarded [of "q\<lparr>isCallingAlloc := False\<rparr>" i ?side]) (simp_all add: lent_slot_upd not_less)
    qed
  qed
qed

lemma view_upd [simp]:
  "slots (p\<lparr>isCallingAlloc := x0\<rparr>) = slots p" "slot_start (p\<lparr>isCallingAlloc := x0\<rparr>) i = slot_start p i"
  "layout os (p\<lparr>isCallingAlloc := x0\<rparr>) = layout os p" "in_slot (p\<lparr>isCallingAlloc := x0\<rparr>) i a = in_slot p i a"
  "in_area (p\<lparr>isCallingAlloc := x0\<rparr>) a = in_area p a" "GetSlotIdOfAddress a (p\<lparr>isCallingAlloc := x0\<rparr>) = GetSlotIdOfAddress a p"
  "slots (p\<lparr>isCallingFree := x1\<rparr>) = slots p" "slot_start (p\<lparr>isCallingFree := x1\<rparr>) i = slot_start p i"
  "layout os (p\<lparr>isCallingFree := x1\<rparr>) = layout os p" "in_slot (p\<lparr>isCallingFree := x1\<rparr>) i a = in_slot p i a"
  "in_area (p\<lparr>isCallingFree := x1\<rparr>) a = in_area p a" "GetSlotIdOfAddress a (p\<lparr>isCallingFree := x1\<rparr>) = GetSlotIdOfAddress a p"
  "slots (p\<lparr>sampleCounter := x2\<rparr>) = slots p" "slot_start (p\<lparr>sampleCounter := x2\<rparr>) i = slot_start p i"
  "layout os (p\<lparr>sampleCounter := x2\<rparr>) = layout os p" "in_slot (p\<lparr>sampleCounter := x2\<rparr>) i a = in_slot p i a"
  "in_area (p\<lparr>sampleCounter := x2\<rparr>) a = in_area p a" "GetSlotIdOfAddress a (p\<lparr>sampleCounter := x2\<rparr>) = GetSlotIdOfAddress a p"
  "slots (p\<lparr>gLastIssueType := x3\<rparr>) = slots p" "slot_start (p\<lparr>gLastIssueType := x3\<rparr>) i = slot_start p i"
  "layout os (p\<lparr>gLastIssueType := x3\<rparr>) = layout os p" "in_slot (p\<lparr>gLastIssueType := x3\<rparr>) i a = in_slot p i a"
  "in_area (p\<lparr>gLastIssueType := x3\<rparr>) a = in_area p a" "GetSlotIdOfAddress a (p\<lparr>gLastIssueType := x3\<rparr>) = GetSlotIdOfAddress a p"
  "slots (p\<lparr>fault_addr := x5\<rparr>) = slots p" "slot_start (p\<lparr>fault_addr := x5\<rparr>) i = slot_start p i"
  "layout os (p\<lparr>fault_addr := x5\<rparr>) = layout os p" "in_slot (p\<lparr>fault_addr := x5\<rparr>) i a = in_slot p i a"
  "in_area (p\<lparr>fault_addr := x5\<rparr>) a = in_area p a" "GetSlotIdOfAddress a (p\<lparr>fault_addr := x5\<rparr>) = GetSlotIdOfAddress a p"
  "in_slot (p\<lparr>sLastRndValue := x4\<rparr>) i a = in_slot p i a" "in_area (p\<lparr>sLastRndValue := x4\<rparr>) a = in_area p a"
  "GetSlotIdOfAddress a (p\<lparr>sLastRndValue := x4\<rparr>) = GetSlotIdOfAddress a p"
  by (simp_all add: slots_def slot_start_def unit_size_def layout_def in_slot_def in_area_def GetSlotIdOfAddress_def GetGuardedPageStart_def
    good_slot_def)

section \<open>Release\<close>

lemma retire_metas:
  "i < length (sMetas p) \<Longrightarrow> \<not> borrowed (retire os who i p) i"
  "j \<noteq> i \<Longrightarrow> sMetas (retire os who i p) ! j = sMetas p ! j"
  "slots (retire os who i p) = slots p"
  by (simp_all add: retire_def)

lemma retire_live:
  assumes "pool_inv os p" "i < slots p" "borrowed p i"
  shows "live (retire os who i p) = (live p)(allocatedStart (sMetas p ! i) := None)"
proof (rule map_eqI)
  fix x n
  let ?q = "retire os who i p" and ?a = "allocatedStart (sMetas p ! i)"
  have len: "length (sMetas p) = slots p" using assms(1) by (simp add: pool_inv_def books_def)
  have uniq: "j = i" if "j < slots p" "borrowed p j" "allocatedStart (sMetas p ! j) = ?a" for j
    using slot_of_start [OF assms(1)] that assms(2, 3) by (metis of_nat_eq_iff run.inject)
  have "live ?q x = Some n \<longleftrightarrow> (\<exists>j < slots p. borrowed ?q j \<and> allocatedStart (sMetas ?q ! j) = x \<and> allocatedSize (sMetas ?q ! j) = n)"
    using live_iff [OF retire_inv [OF assms]] by (simp add: retire_metas)
  also have "\<dots> \<longleftrightarrow> (\<exists>j < slots p. j \<noteq> i \<and> borrowed p j \<and> allocatedStart (sMetas p ! j) = x \<and> allocatedSize (sMetas p ! j) = n)"
    using retire_metas len assms(2) by metis
  also have "\<dots> \<longleftrightarrow> x \<noteq> ?a \<and> live p x = Some n"
    using live_iff [OF assms(1)] uniq assms by metis
  finally show "live ?q x = Some n \<longleftrightarrow> ((live p)(?a := None)) x = Some n" by auto
qed

lemma slots_small: "layout os p \<Longrightarrow> i < slots p \<Longrightarrow> to_int (int i) = int i"
  by (rule to_int_small) (auto simp: layout_def)

lemma Free_slot:
  assumes inv: "alloc_inv os p" and os: "all_granted os" and i: "GetSlotIdOfAddress a p = Ret (int i)" "i < slots p"
  shows "borrowed p i \<Longrightarrow> Free os who a p = (Ret True, retire os who i p)"
    and "\<not> borrowed p i \<Longrightarrow> Free os who a p = (Segv, p\<lparr>isCallingFree := True, gLastIssueType := DOUBLE_FREE, fault_addr := Some (behind p i)\<rparr>)"
proof -
  let ?p = "p\<lparr>isCallingFree := True\<rparr>"
  have fl: "\<not> isCallingFree p" "pool_inv os ?p" "layout os p" using inv by (simp_all add: alloc_inv_def pool_inv_def [of os p])
  have s: "slots ?p = slots p" "sMetas ?p = sMetas p" "GetSlotIdOfAddress a ?p = Ret (int i)"
    using i(1) by simp_all
  have t: "to_int (int i) = int i" using slots_small fl(3) i(2) .
  show "Free os who a p = (Ret True, retire os who i p)" if "borrowed p i"
  proof -
    have "ReturnSlot os who (int i) ?p = (Ret (), retire os who i ?p)"
      using ReturnSlot_eq [OF fl(2) _ _ os] i(2) that s by simp
    then have "Free os who a p = (Ret True, (retire os who i ?p)\<lparr>isCallingFree := False\<rparr>)"
      unfolding Free_def by (intro RECURSIVE_GUARD_Ret fl(1)) (simp add: i(1) t SLOT_NONE_def)
    moreover have "(retire os who i ?p)\<lparr>isCallingFree := False\<rparr> = retire os who i p"
      using fl(1) by (cases p) (simp add: retire_def in_slot_def slot_start_def unit_size_def fun_eq_iff)
    ultimately show ?thesis by simp
  qed
  show "Free os who a p = (Segv, p\<lparr>isCallingFree := True, gLastIssueType := DOUBLE_FREE, fault_addr := Some (behind p i)\<rparr>)" if "\<not> borrowed p i"
  proof -
    have "ReturnSlot os who (int i) ?p = (Segv, ?p\<lparr>gLastIssueType := DOUBLE_FREE, fault_addr := Some (behind p i)\<rparr>)"
      using that i(2) s(1, 2) double_return [OF fl(2), of i who] by (simp add: behind_def)
    then show ?thesis
      unfolding Free_def by (intro RECURSIVE_GUARD_Segv fl(1)) (simp add: i(1) t SLOT_NONE_def)
  qed
qed

lemma Free_outside:
  assumes "alloc_inv os p" "\<not> in_area p a"
  shows "Free os who a p = (Ret False, p)"
proof -
  have fl: "\<not> isCallingFree p" "layout os (p\<lparr>isCallingFree := True\<rparr>)"
    using assms(1) by (simp_all add: alloc_inv_def pool_inv_def)
  have "GetSlotIdOfAddress a (p\<lparr>isCallingFree := True\<rparr>) = Ret SLOT_NONE"
    using GetSlotIdOfAddress_outside [OF fl(2)] assms(2) by (auto simp: in_area_def not_le not_less)
  then have "Free os who a p = (Ret False, p\<lparr>isCallingFree := True\<rparr>\<lparr>isCallingFree := False\<rparr>)"
    unfolding Free_def by (intro RECURSIVE_GUARD_Ret fl(1)) (simp add: SLOT_NONE_def to_int_def)
  with fl(1) flag_off(2) [of p] show ?thesis by simp
qed

lemma retire_alloc_inv: "alloc_inv os p \<Longrightarrow> i < slots p \<Longrightarrow> borrowed p i \<Longrightarrow> alloc_inv os (retire os who i p)"
  using retire_inv by (simp add: alloc_inv_def retire_def)

lemma retire_sealed:
  assumes "in_slot p i b" shows "pages (retire os who i p) b \<noteq> Some ReadWrite"
  using assms by (auto simp: retire_def)

section \<open>Live blocks under the invariant\<close>

lemma live_writable:
  assumes "pool_inv os p" "live p a = Some n" "unat a \<le> unat b" "unat b < unat a + unat n"
  shows "pages p b = Some ReadWrite"
  using live_slotE [OF assms(1, 2)] assms by (metis pool_inv_def placed_def)

lemma live_in_slot:
  assumes "pool_inv os p" "live p a = Some n" "unat a \<le> unat b" "unat b < unat a + unat n" "GetSlotIdOfAddress a p = Ret (int i)"
  shows "in_slot p i b"
proof -
  from live_slotE [OF assms(1, 2)] obtain j where j: "j < slots p" "borrowed p j" "allocatedStart (sMetas p ! j) = a"
    "allocatedSize (sMetas p ! j) = n" "GetSlotIdOfAddress a p = Ret (int j)" .
  then have "placed p j" "j = i" using assms(1, 5) by (auto simp: pool_inv_def)
  with j assms(3, 4) show ?thesis by (auto simp: placed_def in_slot_def)
qed

lemma live_apart:
  assumes "pool_inv os p" "live p a = Some n" "live p b = Some m" "a \<noteq> b"
  shows "unat a + unat n \<le> unat b \<or> unat b + unat m \<le> unat a"
proof (rule ccontr)
  have lay: "layout os p" using assms(1) by (simp add: pool_inv_def)
  from live_slotE [OF assms(1, 2)] obtain i where i: "i < slots p" "borrowed p i" "allocatedStart (sMetas p ! i) = a"
    "allocatedSize (sMetas p ! i) = n" .
  from live_slotE [OF assms(1, 3)] obtain j where j: "j < slots p" "borrowed p j" "allocatedStart (sMetas p ! j) = b"
    "allocatedSize (sMetas p ! j) = m" .
  have "i \<noteq> j" using i(3) j(3) assms(4) by auto
  have pl: "placed p i" "placed p j" using assms(1) i j by (simp_all add: pool_inv_def)
  have "slot_start p i + unit_size p \<le> slot_start p j \<or> slot_start p j + unit_size p \<le> slot_start p i"
    using \<open>i \<noteq> j\<close> slot_start_mono [of "Suc i" j p] slot_start_mono [of "Suc j" i p]
    by (cases i j rule: linorder_cases) (simp_all add: slot_start_Suc)
  moreover assume "\<not> (unat a + unat n \<le> unat b \<or> unat b + unat m \<le> unat a)"
  ultimately show False using pl i(3, 4) j(3, 4) by (auto simp: placed_def unit_size_def)
qed

section \<open>Preparation\<close>

text \<open>The pool before it is prepared: the static variables have their initial values.\<close>

definition unprepared :: "pool \<Rightarrow> bool" where
  "unprepared p \<longleftrightarrow> sFreeSlotCount p = 0 \<and> sLentPageCount p = 0 \<and> \<not> isCallingAlloc p \<and> \<not> isCallingFree p"

text \<open>The sizes of the slots and of the three areas, in natural numbers.\<close>

definition slot_bytes :: "guard_os \<Rightarrow> Options \<Rightarrow> nat" where
  "slot_bytes os opts = (unat (maxAllocationSize opts) + unat (page_size os) - 1) div unat (page_size os) * unat (page_size os)"

definition area_bytes :: "guard_os \<Rightarrow> Options \<Rightarrow> nat" where
  "area_bytes os opts = unat (page_size os) + (slot_bytes os opts + unat (page_size os)) * unat (maxDetectableAllocationCount opts)"

text \<open>The addresses of the pages that \<open>n\<close> bytes from \<open>a\<close> take.\<close>

definition page_span :: "guard_os \<Rightarrow> u64 \<Rightarrow> nat \<Rightarrow> nat set" where
  "page_span os a n = {unat a ..< unat a + (n + unat (page_size os) - 1) div unat (page_size os) * unat (page_size os)}"

text \<open>What \<open>mmap\<close> answers: areas at page boundaries that do not overlap.\<close>

definition mapped_areas :: "guard_os \<Rightarrow> Options \<Rightarrow> u64 \<Rightarrow> u64 \<Rightarrow> u64 \<Rightarrow> bool" where
  "mapped_areas os opts slot_area meta_area free_area \<longleftrightarrow>
     unat (page_size os) dvd unat slot_area \<and> unat slot_area + area_bytes os opts < 2 ^ 64 \<and>
     page_span os slot_area (area_bytes os opts) \<inter> page_span os meta_area (344 * unat (maxDetectableAllocationCount opts)) = {} \<and>
     page_span os slot_area (area_bytes os opts) \<inter> page_span os free_area (8 * unat (maxDetectableAllocationCount opts)) = {}"

text \<open>Options that can be served: blocks of at least one byte and up to \<open>2 ^ 31\<close> slots.\<close>

definition sane_options :: "guard_os \<Rightarrow> Options \<Rightarrow> bool" where
  "sane_options os opts \<longleftrightarrow> (\<exists>k < 63. page_size os = 2 ^ k) \<and> 0 < maxAllocationSize opts \<and>
     unat (maxAllocationSize opts) + unat (page_size os) \<le> 2 ^ 64 \<and>
     0 < maxDetectableAllocationCount opts \<and> unat (maxDetectableAllocationCount opts) < 2 ^ 31"

lemma page_round:
  fixes P x n :: nat
  assumes "0 < P" "x div P * P < n"
  shows "x < (n + P - 1) div P * P"
proof -
  define q where "q = x div P"
  have "Suc q * P \<le> n + P - 1" using assms by (simp add: q_def)
  then have "Suc q \<le> (n + P - 1) div P" using assms(1) by (simp add: less_eq_div_iff_mult_less_eq)
  then have "Suc q * P \<le> (n + P - 1) div P * P" by (rule mult_le_mono1)
  moreover have "x < Suc q * P" using assms(1) dividend_less_div_times [of P x] by (simp add: q_def)
  ultimately show ?thesis by simp
qed

text \<open>Making an area accessible leaves other pages as they are.\<close>

lemma MarkAreaReadWrite_other:
  assumes "0 < unat (page_size os)" "unat a \<notin> page_span os start (unat sz)"
  shows "MarkAreaReadWrite os start sz pr a = pr a"
proof -
  have "\<not> (start \<le> a \<and> unat (a - start) div unat (page_size os) * unat (page_size os) < unat sz)"
  proof
    assume "start \<le> a \<and> unat (a - start) div unat (page_size os) * unat (page_size os) < unat sz"
    then show False
      using page_round [OF assms(1), of "unat (a - start)" "unat sz"] assms(2) by (auto simp: page_span_def unat_sub word_le_nat_alt)
  qed
  then show ?thesis by (auto simp: MarkAreaReadWrite_def mprotect_def)
qed

lemma MapMemArea_other: "unat a \<notin> {unat start ..< unat start + unat sz} \<Longrightarrow> MapMemArea opts (Some start) sz pr a = pr a"
  by (auto simp: MapMemArea_def word_le_nat_alt word_less_nat_alt unat_sub)

lemma MapMemArea_inside: "unat start \<le> unat a \<Longrightarrow> unat a < unat start + unat sz \<Longrightarrow>
  MapMemArea opts (Some start) sz pr a = Some (guarded_prot opts)"
  by (auto simp: MapMemArea_def word_le_nat_alt word_less_nat_alt unat_sub)

lemma page_span_bytes: "0 < unat (page_size os) \<Longrightarrow> {unat a ..< unat a + n} \<subseteq> page_span os a n"
  using dividend_less_div_times [of "unat (page_size os)" "n + unat (page_size os) - 1"] by (auto simp: page_span_def)

text \<open>
  Once \<open>Prepare\<close> has got its areas from the kernel, the pool is in its invariant: the slots are laid out in
  the area with a guard page before, between and behind them, all of it inaccessible, and no block is live. The
  areas are where \<open>mmap\<close> says: at page boundaries, inside the address space and apart from each other.
\<close>

lemma prepare_inv:
  assumes p: "unprepared p" and opts: "sane_options os (gOpts p)" and maps: "mapped_areas os (gOpts p) sa ma fa"
  shows "\<exists>q. Prepare os (Some sa) (Some ma) (Some fa) p = (True, q) \<and> alloc_inv os q \<and> live q = Map.empty \<and> gOpts q = gOpts p \<and>
    slots q = unat (maxDetectableAllocationCount (gOpts p)) \<and> unat (sSlotSize q) = slot_bytes os (gOpts p)"
proof -
  let ?n = "maxDetectableAllocationCount (gOpts p)" and ?P = "unat (page_size os)"
  let ?N = "unat (maxDetectableAllocationCount (gOpts p))"
  obtain k where k: "k < 63" "page_size os = 2 ^ k" "?P = 2 ^ k" "0 < ?P"
    using opts unat_pow by (auto simp: sane_options_def)
  define ss where "ss = AlignUpTo (maxAllocationSize (gOpts p)) (page_size os)"
  have ss: "unat ss = slot_bytes os (gOpts p)"
    unfolding ss_def slot_bytes_def k(3) unfolding k(2) using opts k by (intro AlignUpTo_unat) (simp_all add: sane_options_def)
  define az where "az = page_size os + (ss + page_size os) * ?n"
  have area: "unat sa + area_bytes os (gOpts p) < 2 ^ 64" using maps by (simp add: mapped_areas_def)
  have az: "unat az = area_bytes os (gOpts p)"
  proof -
    have "az = of_nat (area_bytes os (gOpts p))" by (simp add: az_def area_bytes_def flip: ss)
    then show ?thesis using area by (simp only: unat_of_nat) simp
  qed
  have sz: "unat (SIZEOF_PAGE_META * ?n) = 344 * ?N" "unat (8 * ?n) = 8 * ?N"
    using opts by (simp_all add: sane_options_def SIZEOF_PAGE_META_def unat_word_ariths)
  define pg where "pg = MarkAreaReadWrite os fa (8 * ?n) (MapMemArea (gOpts p) (Some fa) (8 * ?n)
    (MarkAreaReadWrite os ma (SIZEOF_PAGE_META * ?n) (MapMemArea (gOpts p) (Some ma) (SIZEOF_PAGE_META * ?n)
      (MapMemArea (gOpts p) (Some sa) az (pages p)))))"
  define q where "q = p\<lparr>sGuardPageSize := page_size os, sSlotSize := ss, sSlotAreaSize := az, sSlotAreaStart := sa,
    sSlotAreaEnd := sa + az, sMetas := replicate ?N zero_meta, sFreeSlots := replicate ?N 0, pages := pg\<rparr>"
  have run: "Prepare os (Some sa) (Some ma) (Some fa) p = (True, q)"
    by (simp add: Prepare_def Let_def q_def pg_def ss_def az_def)
  have s: "slots q = ?N" "unit_size q = slot_bytes os (gOpts p) + ?P" "slot_start q (slots q) = unat sa + area_bytes os (gOpts p)"
    by (simp_all add: q_def slots_def unit_size_def ss slot_start_def area_bytes_def)
  have "0 < slot_bytes os (gOpts p)"
  proof -
    have "0 < unat (maxAllocationSize (gOpts p))" using opts by (simp add: sane_options_def word_less_nat_alt)
    then have "1 \<le> (unat (maxAllocationSize (gOpts p)) + ?P - 1) div ?P" using k(4) by (simp add: less_eq_div_iff_mult_less_eq)
    then show ?thesis using k(4) by (simp add: slot_bytes_def)
  qed
  then have "0 < ss" by (simp add: word_less_nat_alt ss)
  moreover have "?P dvd slot_bytes os (gOpts p)" by (simp add: slot_bytes_def)
  moreover have "sa + az = of_nat (unat sa + area_bytes os (gOpts p))" by (simp flip: az)
  ultimately have lay: "layout os q"
    unfolding layout_def s(3) using maps opts k(1, 2) area
    by (auto simp: q_def ss mapped_areas_def sane_options_def slots_def word_less_nat_alt)
  have "in_area q a \<Longrightarrow> pages q a = Some (guarded_prot (gOpts p))" for a
  proof -
    assume "in_area q a"
    then have a: "unat sa \<le> unat a" "unat a < unat sa + area_bytes os (gOpts p)" unfolding in_area_def s(3) by (simp_all add: q_def)
    then have "unat a \<in> page_span os sa (area_bytes os (gOpts p))" using page_span_bytes [OF k(4)] by fastforce
    then have o: "unat a \<notin> page_span os ma (344 * ?N)" "unat a \<notin> page_span os fa (8 * ?N)"
      using maps by (auto simp: mapped_areas_def)
    then have o': "unat a \<notin> {unat ma ..< unat ma + 344 * ?N}" "unat a \<notin> {unat fa ..< unat fa + 8 * ?N}"
      using page_span_bytes [OF k(4)] by blast+
    have "pages q a = MapMemArea (gOpts p) (Some sa) az (pages p) a"
      using o o' unfolding sz [symmetric] by (simp add: q_def pg_def MarkAreaReadWrite_other [OF k(4)] MapMemArea_other)
    also have "\<dots> = Some (guarded_prot (gOpts p))" using a by (intro MapMemArea_inside) (simp_all add: az)
    finally show ?thesis .
  qed
  then have "sealed q" by (auto simp: sealed_def)
  moreover have b: "\<not> borrowed q i" if "i < slots q" for i using that s(1) by (simp add: q_def zero_meta_def)
  then have "books {} q" using p by (auto simp: books_def q_def unprepared_def slots_def)
  ultimately have inv: "alloc_inv os q" using lay b p by (auto simp: alloc_inv_def pool_inv_def q_def unprepared_def)
  have "live q = Map.empty" by (simp add: live_def blocks_def q_def zero_meta_def)
  with run inv s(1) show ?thesis by (auto simp: q_def ss)
qed

end
