(* ===== verification/MgHeap.thy ===== *)
theory MgHeap
  imports MgAlloc
begin

text \<open>
  The guarded blocks as a heap: the contract of a store of blocks and its clients, that the allocation logic of
  \<open>memguard\<close> fulfils it, and what the guard pages catch.
\<close>

section \<open>A store of blocks\<close>

text \<open>What a client asks for: a block of a size and an alignment, or the release of the block it holds at a position.\<close>

datatype request = Grab u64 u64 | Release nat

text \<open>A client that releases nothing but what it holds. It keeps the blocks it got, the newest first.\<close>

fun serve :: "(u64 \<Rightarrow> u64 \<Rightarrow> ('s, u64) cmd) \<Rightarrow> (u64 \<Rightarrow> ('s, bool) cmd) \<Rightarrow> request list \<Rightarrow> (u64 \<times> u64) list \<Rightarrow> ('s, (u64 \<times> u64) list) cmd" where
  "serve grab release [] held = retc held"
| "serve grab release (Grab sz al # rs) held =
     bindc (grab sz al) (\<lambda>a. serve grab release rs (if a = 0 then held else (a, sz) # held))"
| "serve grab release (Release k # rs) held =
     (if k < length held
      then bindc (release (fst (held ! k))) (\<lambda>_. serve grab release rs (take k held @ drop (Suc k) held))
      else serve grab release rs held)"

lemma map_of_remove:
  "distinct (map fst xs) \<Longrightarrow> k < length xs \<Longrightarrow>
     map_of (take k xs @ drop (Suc k) xs) = (map_of xs)(fst (xs ! k) := None) \<and> distinct (map fst (take k xs @ drop (Suc k) xs))"
proof -
  assume d: "distinct (map fst xs)" and k: "k < length xs"
  have xs: "xs = take k xs @ xs ! k # drop (Suc k) xs" using k by (simp add: id_take_nth_drop)
  define ys zs x where "ys = take k xs" and "zs = drop (Suc k) xs" and "x = xs ! k"
  have e: "xs = ys @ x # zs" using xs by (simp add: ys_def zs_def x_def)
  have d': "distinct (map fst (ys @ x # zs))" using d e by simp
  then have n: "map_of ys (fst x) = None" "map_of zs (fst x) = None" by (auto simp: map_of_eq_None_iff)
  have "map_of (ys @ zs) = (map_of (ys @ x # zs))(fst x := None)"
    using n by (cases x) (auto simp: map_add_def fun_eq_iff split: option.split)
  with d' show ?thesis unfolding ys_def [symmetric] zs_def [symmetric] x_def [symmetric] using e by auto
qed

locale block_store =
  fixes inv :: "'s \<Rightarrow> bool"
    and blocks_of :: "'s \<Rightarrow> u64 \<rightharpoonup> u64"
    and grab :: "u64 \<Rightarrow> u64 \<Rightarrow> ('s, u64) cmd"
    and release :: "u64 \<Rightarrow> ('s, bool) cmd"
  assumes grab_law: "inv s \<Longrightarrow> \<exists>a t. grab sz al s = (Ret a, t) \<and> inv t \<and>
      (a = 0 \<and> blocks_of t = blocks_of s \<or> a \<noteq> 0 \<and> blocks_of s a = None \<and> blocks_of t = (blocks_of s)(a \<mapsto> sz))"
    and release_law: "inv s \<Longrightarrow> blocks_of s a = Some n \<Longrightarrow>
      \<exists>t. release a s = (Ret True, t) \<and> inv t \<and> blocks_of t = (blocks_of s)(a := None)"
begin

text \<open>Whatever the requests, the client is served without a fault and holds exactly the blocks of the store.\<close>

lemma served:
  "inv s \<Longrightarrow> distinct (map fst held) \<Longrightarrow> blocks_of s = map_of held \<Longrightarrow>
     \<exists>held' t. serve grab release rs held s = (Ret held', t) \<and> inv t \<and> distinct (map fst held') \<and> blocks_of t = map_of held'"
proof (induction rs arbitrary: held s)
  case (Cons r rs)
  show ?case
  proof (cases r)
    case (Grab sz al)
    from grab_law [OF Cons.prems(1), of sz al] obtain a t where t: "grab sz al s = (Ret a, t)" "inv t"
      "a = 0 \<and> blocks_of t = blocks_of s \<or> a \<noteq> 0 \<and> blocks_of s a = None \<and> blocks_of t = (blocks_of s)(a \<mapsto> sz)" by blast
    let ?h = "if a = 0 then held else (a, sz) # held"
    have "distinct (map fst ?h)" "blocks_of t = map_of ?h"
      using t(3) Cons.prems(2, 3) by (auto simp: map_of_eq_None_iff)
    from Cons.IH [OF t(2) this] show ?thesis by (simp add: Grab t(1))
  next
    case (Release k)
    show ?thesis
    proof (cases "k < length held")
      case True
      obtain a n where a: "held ! k = (a, n)" by fastforce
      with True Cons.prems(2, 3) have "blocks_of s a = Some n" by (metis map_of_eq_Some_iff nth_mem)
      from release_law [OF Cons.prems(1) this] obtain t where t: "release a s = (Ret True, t)" "inv t"
        "blocks_of t = (blocks_of s)(a := None)" by blast
      with map_of_remove [OF Cons.prems(2) True] a Cons.prems(3) Cons.IH [OF t(2), of "take k held @ drop (Suc k) held"] True
      show ?thesis by (simp add: Release)
    next
      case False
      with Cons.IH [OF Cons.prems] show ?thesis by (simp add: Release)
    qed
  qed
qed auto

end

section \<open>The guarded heap\<close>

lemma AlignedAllocate_live:
  assumes "alloc_inv os p" "all_granted os"
  shows "\<exists>a q. AlignedAllocate os who sz al p = (Ret a, q) \<and> alloc_inv os q \<and>
    (a = 0 \<and> live q = live p \<or> a \<noteq> 0 \<and> live p a = None \<and> live q = (live p)(a \<mapsto> sz))"
proof (cases rule: AlignedAllocate_cases [OF assms, of who sz al, case_names skipped guarded])
  case (guarded i side q)
  then show ?thesis using lent_live [of os p q sz al side i] assms(1) by (simp add: alloc_inv_def)
qed auto

lemma Free_live:
  assumes "alloc_inv os p" "all_granted os" "live p a = Some n"
  shows "\<exists>q. Free os who a p = (Ret True, q) \<and> alloc_inv os q \<and> live q = (live p)(a := None)"
proof -
  have inv: "pool_inv os p" using assms(1) by (simp add: alloc_inv_def)
  from live_slotE [OF inv assms(3)] obtain i where i: "i < slots p" "borrowed p i" "allocatedStart (sMetas p ! i) = a"
    "GetSlotIdOfAddress a p = Ret (int i)" .
  show ?thesis
    using Free_slot(1) [OF assms(1, 2) i(4, 1, 2)] retire_alloc_inv [OF assms(1) i(1, 2)] retire_live [OF inv i(1, 2)] i(3) by simp
qed

interpretation guarded_heap: block_store "\<lambda>p. alloc_inv os p \<and> all_granted os" live "AlignedAllocate os who" "Free os who" for os who
  by unfold_locales (use AlignedAllocate_live Free_live in blast)+

section \<open>What the guard pages catch\<close>

lemma touch_guard: "pool_inv os p \<Longrightarrow> guard_page p a \<Longrightarrow> touch a (pages p) = Segv"
  using guard_not_rw(1) by (simp add: touch_def)

text \<open>The page before a slot and the page behind it.\<close>

lemma guard_around:
  assumes "layout os p" "i < slots p"
  shows "slot_start p i \<le> unat a + unat (sGuardPageSize p) \<Longrightarrow> unat a < slot_start p i \<Longrightarrow> guard_page p a"
    and "slot_start p i + unat (sSlotSize p) \<le> unat a \<Longrightarrow> unat a < slot_start p i + unit_size p \<Longrightarrow> guard_page p a"
proof -
  show "guard_page p a" if "slot_start p i \<le> unat a + unat (sGuardPageSize p)" "unat a < slot_start p i"
    using that assms(2) unfolding guard_page_def by (intro exI [of _ i]) simp
  show "guard_page p a" if "slot_start p i + unat (sSlotSize p) \<le> unat a" "unat a < slot_start p i + unit_size p"
    using that assms(2) unfolding guard_page_def by (intro exI [of _ "Suc i"]) (simp add: slot_start_Suc unit_size_def)
qed

lemma lent_guards:
  fixes d :: u64
  assumes inv: "pool_inv os q" and l: "lent_slot p sz al side i q"
  defines "a \<equiv> allocatedStart (sMetas q ! i)"
  shows "side = ON_LEFT \<Longrightarrow> 0 < d \<Longrightarrow> d \<le> sGuardPageSize q \<Longrightarrow> touch (a - d) (pages q) = Segv"
    and "side = ON_RIGHT \<Longrightarrow> \<exists>gap. (if perfectRightSideGuard (gOpts p) then gap = 0 else al \<noteq> 0 \<longrightarrow> gap < al) \<and>
      (\<forall>d < sGuardPageSize q. touch (a + sz + gap + d) (pages q) = Segv)"
proof -
  have lay: "layout os q" and i: "i < slots q" and eq: "slot_start q = slot_start p" "sSlotSize q = sSlotSize p" "slots q = slots p"
    and sf: "start_for p sz al side i (unat a)" and pl: "placed q i" and sz: "allocatedSize (sMetas q ! i) = sz"
    using assms by (auto simp: pool_inv_def lent_slot_def)
  have a: "slot_start q i \<le> unat a" "unat a + unat sz \<le> slot_start q i + unat (sSlotSize q)"
    using pl sz by (auto simp: placed_def a_def)
  have e: "slot_start q i + unit_size q < 2 ^ 64" using slot_end_le [OF lay i] slot_start_less [OF lay order_refl] by simp
  show "touch (a - d) (pages q) = Segv" if "side = ON_LEFT" "0 < d" "d \<le> sGuardPageSize q"
  proof -
    have "unat a = slot_start q i" using sf that(1) eq by (simp add: start_for_def)
    moreover have "unat (sGuardPageSize q) \<le> slot_start q i" by (simp add: slot_start_def)
    moreover have "unat d \<le> unat (sGuardPageSize q)" "0 < unat d" using that(2, 3) by (simp_all add: word_le_nat_alt word_less_nat_alt)
    ultimately have "unat (a - d) = slot_start q i - unat d" by (simp add: unat_sub word_le_nat_alt)
    then show ?thesis using \<open>unat d \<le> _\<close> \<open>0 < unat d\<close> \<open>unat (sGuardPageSize q) \<le> _\<close>
      by (intro touch_guard [OF inv] guard_around(1) [OF lay i]) simp_all
  qed
  assume r: "side = ON_RIGHT"
  define gap where "gap = slot_start q i + unat (sSlotSize q) - (unat a + unat sz)"
  have "touch (a + sz + of_nat gap + d) (pages q) = Segv" if "d < sGuardPageSize q" for d
  proof -
    have "a + sz + of_nat gap + d = of_nat (unat a + unat sz + gap + unat d)" by simp
    also have "unat a + unat sz + gap + unat d = slot_start q i + unat (sSlotSize q) + unat d" using a(2) by (simp add: gap_def)
    finally have "unat (a + sz + of_nat gap + d) = slot_start q i + unat (sSlotSize q) + unat d"
      using that e by (simp only: unat_of_nat) (simp add: unit_size_def word_less_nat_alt)
    then show ?thesis using that by (intro touch_guard [OF inv] guard_around(2) [OF lay i]) (simp_all add: unit_size_def word_less_nat_alt)
  qed
  moreover have "if perfectRightSideGuard (gOpts p) then (of_nat gap :: u64) = 0 else al \<noteq> 0 \<longrightarrow> of_nat gap < al"
  proof -
    have g: "gap < 2 ^ 64" using e by (simp add: gap_def unit_size_def)
    have "gap = 0" if "perfectRightSideGuard (gOpts p)"
      using that sf r eq by (auto simp: start_for_def gap_def)
    moreover have "gap < unat al" if "\<not> perfectRightSideGuard (gOpts p)" "al \<noteq> 0"
      using that sf r eq by (auto simp: start_for_def gap_def)
    ultimately show ?thesis using g by (auto simp: word_less_nat_alt unat_of_nat)
  qed
  ultimately show "\<exists>gap. (if perfectRightSideGuard (gOpts p) then gap = 0 else al \<noteq> 0 \<longrightarrow> gap < al) \<and>
      (\<forall>d < sGuardPageSize q. touch (a + sz + gap + d) (pages q) = Segv)" by blast
qed

section \<open>An example\<close>

text \<open>Two slots of a page each, with pages of 4096 bytes.\<close>

definition sample_os :: guard_os where
  "sample_os = \<lparr>page_size = 4096, grants = (\<lambda>_ _. True)\<rparr>"

definition sample_caller :: caller where
  "sample_caller = \<lparr>gettid = 7, self_name = ''main'', call_stack = [4096, 8192]\<rparr>"

definition sample_options :: Options where
  "sample_options = default_options\<lparr>maxAllocationSize := 100, maxDetectableAllocationCount := 2\<rparr>"

definition sample_pool :: pool where
  "sample_pool = \<lparr>gOpts = sample_options, pages = (\<lambda>_. None), sGuardPageSize = 0, sSlotSize = 0, sSlotAreaStart = 0, sSlotAreaSize = 0,
     sSlotAreaEnd = 0, sMetas = [], sFreeSlots = [], sFreeSlotCount = 0, sLentPageCount = 0, sAdjustedPercentageOfLeftSideGuard = 0,
     sSampleCycleLength = 0, sLastRndValue = 0xFCDE97AB, gLastIssueType = UNKNOWN, sampleCounter = 0, isCallingAlloc = False,
     isCallingFree = False, fault_addr = None\<rparr>"

definition prepared_pool :: pool where
  "prepared_pool = snd (Prepare sample_os (Some 65536) (Some 131072) (Some 139264) sample_pool)"

lemma sample_unprepared: "unprepared sample_pool" "gOpts sample_pool = sample_options"
  by (simp_all add: unprepared_def sample_pool_def)

lemma sample_granted: "all_granted sample_os"
  by (simp add: all_granted_def sample_os_def)

lemma sample_sane: "sane_options sample_os sample_options"
proof -
  have "page_size sample_os = 2 ^ 12" by (simp add: sample_os_def)
  moreover have "(12 :: nat) < 63" by simp
  ultimately have "\<exists>k < 63. page_size sample_os = 2 ^ k" by blast
  then show ?thesis by (simp add: sane_options_def sample_options_def default_options_def sample_os_def)
qed

lemma sample_mapped: "mapped_areas sample_os sample_options 65536 131072 139264"
  by (simp add: mapped_areas_def area_bytes_def slot_bytes_def page_span_def sample_os_def sample_options_def default_options_def)

lemma prepared_inv: "alloc_inv sample_os prepared_pool" "live prepared_pool = Map.empty" "slots prepared_pool = 2"
  "sampleCounter prepared_pool = 0"
proof -
  obtain q where "Prepare sample_os (Some 65536) (Some 131072) (Some 139264) sample_pool = (True, q)" "alloc_inv sample_os q"
    "live q = Map.empty" "slots q = unat (maxDetectableAllocationCount sample_options)"
    using prepare_inv [OF sample_unprepared(1)] sample_sane sample_mapped unfolding sample_unprepared(2) by blast
  then show "alloc_inv sample_os prepared_pool" "live prepared_pool = Map.empty" "slots prepared_pool = 2"
    by (simp_all add: prepared_pool_def sample_options_def)
  show "sampleCounter prepared_pool = 0" by (simp add: prepared_pool_def Prepare_def Let_def sample_pool_def)
qed

lemma prepared_slot_size: "sSlotSize prepared_pool = 4096"
  by (simp add: prepared_pool_def Prepare_def Let_def sample_pool_def sample_os_def sample_options_def default_options_def AlignUpTo_def
    IsPowOf2_def)

lemma prepared_sizes: "unat (maxDetectableAllocationCount sample_options) = 2" "slot_bytes sample_os sample_options = 4096"
  by (simp_all add: sample_options_def slot_bytes_def sample_os_def default_options_def)

lemma prepared_slot_free: "\<not> (\<forall>i < slots prepared_pool. borrowed prepared_pool i)"
proof
  assume "\<forall>i < slots prepared_pool. borrowed prepared_pool i"
  then have "borrowed prepared_pool 0" "0 < slots prepared_pool" using prepared_inv(3) by simp_all
  then show False
    using live_iff [of sample_os prepared_pool "allocatedStart (sMetas prepared_pool ! 0)"] prepared_inv(1, 2) by (auto simp: alloc_inv_def)
qed

text \<open>With a block of 100 bytes in it.\<close>

definition lent_pool :: pool where
  "lent_pool = snd (AlignedAllocate sample_os sample_caller 100 16 prepared_pool)"

definition lent_address :: u64 where
  "lent_address = (case fst (AlignedAllocate sample_os sample_caller 100 16 prepared_pool) of Ret a \<Rightarrow> a | _ \<Rightarrow> 0)"

lemma lent_pool_live:
  "AlignedAllocate sample_os sample_caller 100 16 prepared_pool = (Ret lent_address, lent_pool)" "alloc_inv sample_os lent_pool"
  "live lent_pool = [lent_address \<mapsto> 100]" "lent_address \<noteq> 0"
proof -
  have ok: "\<not> (sSlotSize prepared_pool < 16)" "IsPowOf2 16" "\<not> sSlotSize prepared_pool < AlignUpTo 100 16" "\<not> sSlotSize prepared_pool < 100"
    by (simp_all add: prepared_slot_size IsPowOf2_def AlignUpTo_def)
  obtain a q where "AlignedAllocate sample_os sample_caller 100 16 prepared_pool = (Ret a, q)" "alloc_inv sample_os q" "live q = [a \<mapsto> 100]"
    "a \<noteq> 0"
  proof (cases rule: AlignedAllocate_cases [OF prepared_inv(1) sample_granted, of sample_caller 100 16, case_names skipped guarded])
    case (skipped q)
    then show thesis using ok prepared_slot_free prepared_inv(4) by simp
  next
    case (guarded i side q)
    then show thesis using that lent_live(2, 3) [of sample_os prepared_pool q 100 16 side i] prepared_inv(1, 2) by (simp add: alloc_inv_def)
  qed
  then show "AlignedAllocate sample_os sample_caller 100 16 prepared_pool = (Ret lent_address, lent_pool)" "alloc_inv sample_os lent_pool"
    "live lent_pool = [lent_address \<mapsto> 100]" "lent_address \<noteq> 0"
    by (simp_all add: lent_pool_def lent_address_def)
qed

text \<open>A live block is known by its start, and aligned.\<close>

lemma live_known:
  assumes "pool_inv os q" "live q a = Some n"
  shows "IsAllocatedByThisAllocator a q = Ret True" "GetAllocatedSize a q = Ret n"
proof -
  from live_slotE [OF assms] obtain i where i: "i < slots q" "allocatedSize (sMetas q ! i) = n" "GetSlotIdOfAddress a q = Ret (int i)" .
  have lay: "layout os q" "length (sMetas q) = slots q" "i < 2 ^ 32" using assms(1) i(1) by (auto simp: pool_inv_def books_def layout_def)
  show "IsAllocatedByThisAllocator a q = Ret True" using i(3) by (simp add: IsAllocatedByThisAllocator_def SLOT_NONE_def)
  show "GetAllocatedSize a q = Ret n"
    using i good_slot_iff [OF lay(1, 3)] lay(2)
    by (simp add: GetAllocatedSize_def pool_GetAllocatedSize_def SLOT_NONE_def slots_small [OF lay(1) i(1)] at_eq)
qed

lemma lent_aligned:
  assumes "pool_inv os p" "lent_slot p sz al side i q" "IsPowOf2 al" "al \<noteq> 0" "al \<le> page_size os" "\<not> perfectRightSideGuard (gOpts p)"
  shows "unat al dvd unat (allocatedStart (sMetas q ! i))"
proof -
  let ?a = "unat (allocatedStart (sMetas q ! i))"
  have lay: "layout os p" using assms(1) by (simp add: pool_inv_def)
  obtain k where k: "unat (page_size os) = 2 ^ k" using layoutE [OF lay] by metis
  obtain j where j: "unat al = 2 ^ j" using assms(3, 4) unat_pow by (auto simp: IsPowOf2_iff)
  have "(2 :: nat) ^ j \<le> 2 ^ k" using assms(5) j k by (simp add: word_le_nat_alt)
  then have "j \<le> k" by (metis power_le_imp_le_exp one_less_numeral_iff semiring_norm(76))
  then have "unat al dvd unat (page_size os)" unfolding j k by (rule le_imp_power_dvd)
  then have d: "unat al dvd slot_start p i" using page_dvd(3) [OF lay] dvd_trans by blast
  have "start_for p sz al side i ?a" using assms(2) by (simp add: lent_slot_def)
  then have "?a = slot_start p i \<or> unat al dvd ?a - slot_start p i \<and> slot_start p i \<le> ?a"
    using assms(4, 6) by (auto simp: start_for_def split: if_splits)
  then show ?thesis using d by (metis dvd_diffD)
qed

section \<open>Properties\<close>

text \<open>
  C13: A slot that is borrowed was free, holds the allocation on the side that was asked for and leaves the other slots alone.
  Under a guard on the left every byte of the page before the block faults; under one on the right every byte of
  the page behind the slot faults, which follows the block at once under the perfect guard and else after less than
  the alignment. A slot is refused for a block that does not fit and when all of them are borrowed.
\<close>

theorem BorrowSlot_correct:
  assumes "pool_inv os p" "IsPowOf2 al" "all_granted os"
  shows "BorrowSlot os who sz al side p = (Ret SLOT_NONE, p) \<and>
      (sSlotSize p < sz \<or> sSlotSize p < AlignUpTo sz al \<or> (\<forall>i < slots p. borrowed p i)) \<or>
    (\<exists>i q a. BorrowSlot os who sz al side p = (Ret (int i), q) \<and> pool_inv os q \<and> lent_slot p sz al side i q \<and>
      a = allocatedStart (sMetas q ! i) \<and>
      (side = ON_LEFT \<longrightarrow> (\<forall>d. 0 < d \<longrightarrow> d \<le> sGuardPageSize q \<longrightarrow> touch (a - d) (pages q) = Segv)) \<and>
      (side = ON_RIGHT \<longrightarrow> (\<exists>gap. (if perfectRightSideGuard (gOpts p) then gap = 0 else al \<noteq> 0 \<longrightarrow> gap < al) \<and>
         (\<forall>d < sGuardPageSize q. touch (a + sz + gap + d) (pages q) = Segv))))"
  using borrow_spec [OF assms, of who sz side]
proof
  assume "\<exists>i q. BorrowSlot os who sz al side p = (Ret (int i), q) \<and> lent_slot p sz al side i q \<and> pool_inv os q"
  then obtain i q where q: "BorrowSlot os who sz al side p = (Ret (int i), q)" "lent_slot p sz al side i q" "pool_inv os q" by blast
  then show ?thesis using lent_guards(1) [OF q(3, 2)] lent_guards(2) [OF q(3, 2)] by blast
qed blast

theorem BorrowSlot_correct_witness:
  "\<exists>i q a. BorrowSlot sample_os sample_caller 100 16 ON_LEFT prepared_pool = (Ret (int i), q) \<and>
    lent_slot prepared_pool 100 16 ON_LEFT i q \<and> a = allocatedStart (sMetas q ! i) \<and> touch (a - 1) (pages q) = Segv"
proof -
  have inv: "pool_inv sample_os prepared_pool" using prepared_inv(1) by (simp add: alloc_inv_def)
  have ok: "IsPowOf2 16" "\<not> sSlotSize prepared_pool < AlignUpTo 100 16" "\<not> sSlotSize prepared_pool < 100"
    by (simp_all add: prepared_slot_size IsPowOf2_def AlignUpTo_def)
  have g: "1 \<le> sGuardPageSize q" if "pool_inv sample_os q" for q
    using guard_pos [of sample_os q] that by (simp add: pool_inv_def word_le_nat_alt)
  show ?thesis
    using BorrowSlot_correct [OF inv ok(1) sample_granted, of sample_caller 100 ON_LEFT] ok prepared_slot_free g by fastforce
qed

text \<open>
  C11: An aligned allocation returns, never faults, and keeps the invariant. It is left to the system, with the blocks
  and the protection of every page as they were; or the new block is apart from every live one, can be written in full, is
  known to the allocator by its start, and is aligned, unless the alignment exceeds a page or the perfect guard is on. A call
  whose turn it is, whose request fits and for which there is a slot is never left to the system.
\<close>

theorem AlignedAllocate_correct:
  assumes "alloc_inv os p" "all_granted os"
  shows "\<exists>a q. AlignedAllocate os who sz al p = (Ret a, q) \<and> alloc_inv os q \<and>
    (if a = 0 then live q = live p \<and> pages q = pages p \<and>
       (sampleCounter p \<noteq> 0 \<or> sSlotSize p < al \<or> \<not> IsPowOf2 al \<or> sSlotSize p < AlignUpTo sz al \<or> sSlotSize p < sz \<or>
        (\<forall>i < slots p. borrowed p i))
     else live p a = None \<and> live q = (live p)(a \<mapsto> sz) \<and>
       (\<forall>b n. live p b = Some n \<longrightarrow> unat a + unat sz \<le> unat b \<or> unat b + unat n \<le> unat a) \<and>
       (\<forall>b. unat a \<le> unat b \<longrightarrow> unat b < unat a + unat sz \<longrightarrow> touch b (pages q) = Ret ()) \<and>
       IsAllocatedByThisAllocator a q = Ret True \<and> GetAllocatedSize a q = Ret sz \<and>
       (al \<noteq> 0 \<longrightarrow> al \<le> page_size os \<longrightarrow> \<not> perfectRightSideGuard (gOpts p) \<longrightarrow> unat al dvd unat a))"
proof (cases rule: AlignedAllocate_cases [OF assms, of who sz al, case_names skipped guarded])
  case (skipped q)
  then have "live q = live p" "pages q = pages p" by auto
  with skipped show ?thesis by auto
next
  case (guarded i side q)
  let ?a = "allocatedStart (sMetas q ! i)"
  have inv: "pool_inv os p" "pool_inv os q" using assms(1) guarded(2) by (simp_all add: alloc_inv_def)
  note l = lent_live [OF inv guarded(3)]
  have la: "live q ?a = Some sz" using l(2) by simp
  have "unat ?a + unat sz \<le> unat b \<or> unat b + unat n \<le> unat ?a" if "live p b = Some n" for b n
    using live_apart [OF inv(2) la, of b n] l(1, 2) that by (cases "b = ?a") auto
  moreover have "touch b (pages q) = Ret ()" if "unat ?a \<le> unat b" "unat b < unat ?a + unat sz" for b
    using live_writable [OF inv(2) la that] by (simp add: touch_def)
  moreover have "unat al dvd unat ?a" if "al \<noteq> 0" "al \<le> page_size os" "\<not> perfectRightSideGuard (gOpts p)"
    using lent_aligned [OF inv(1) guarded(3, 6)] that by blast
  ultimately show ?thesis
    using guarded(1, 2) l live_known [OF inv(2) la] by (intro exI [of _ ?a] exI [of _ q]) simp
qed

theorem AlignedAllocate_correct_witness:
  "\<exists>q. AlignedAllocate sample_os sample_caller 100 16 prepared_pool = (Ret lent_address, q) \<and>
    lent_address \<noteq> 0 \<and> live q = [lent_address \<mapsto> 100] \<and> unat (16 :: u64) dvd unat lent_address"
  using lent_pool_live(4) AlignedAllocate_correct [OF prepared_inv(1) sample_granted, of sample_caller 100 16] lent_pool_live(1) prepared_inv(2)
  by (auto simp: sample_os_def prepared_pool_def Prepare_def Let_def sample_pool_def sample_options_def default_options_def split: if_splits)

text \<open>Every address of the area belongs to a slot.\<close>

lemma area_slot:
  assumes "layout os p" "in_area p a"
  obtains i where "i < slots p" "GetSlotIdOfAddress a p = Ret (int i)"
proof (cases "unat a < slot_start p 0")
  case True
  then show thesis using that [of 0] GetSlotIdOfAddress_guard [OF assms(1)] assms by (simp add: in_area_def layout_def)
next
  case False
  define i where "i = (unat a - slot_start p 0) div unit_size p"
  note u = unit_size_pos [OF assms(1)]
  have "unat a - slot_start p 0 = unit_size p * i + (unat a - slot_start p 0) mod unit_size p" by (simp add: i_def)
  moreover have "(unat a - slot_start p 0) mod unit_size p < unit_size p" using u by simp
  ultimately have s: "slot_start p i \<le> unat a" "unat a < slot_start p i + unit_size p" using False by (auto simp: slot_start_def)
  have "i < slots p"
  proof (rule ccontr)
    assume "\<not> i < slots p"
    then have "slot_start p (slots p) \<le> slot_start p i" by (intro slot_start_mono) simp
    then show False using s(1) assms(2) by (simp add: in_area_def)
  qed
  then show thesis using that GetSlotIdOfAddress_slot [OF assms(1) _ s] by blast
qed

lemma retire_slot_id: "GetSlotIdOfAddress a (retire os who i p) = GetSlotIdOfAddress a p"
  by (simp add: retire_def GetSlotIdOfAddress_def GetGuardedPageStart_def good_slot_def)

text \<open>
  C12: The release of a live block succeeds. The block is gone and no other one. In the state it leaves, before its slot is lent
  again, every byte of the block faults, while the other blocks can still be written; and releasing it a second time is
  caught: the call faults at the first byte behind the slot of the block and leaves \<open>DOUBLE_FREE\<close> for the signal handler.
\<close>

theorem Free_correct:
  assumes "alloc_inv os p" "all_granted os" "live p a = Some n"
  shows "\<exists>q. Free os who a p = (Ret True, q) \<and> alloc_inv os q \<and> live q = (live p)(a := None) \<and>
    (\<forall>b. unat a \<le> unat b \<longrightarrow> unat b < unat a + unat n \<longrightarrow> touch b (pages q) = Segv) \<and>
    (\<forall>c m b. live q c = Some m \<longrightarrow> unat c \<le> unat b \<longrightarrow> unat b < unat c + unat m \<longrightarrow> touch b (pages q) = Ret ()) \<and>
    (\<exists>i. GetSlotIdOfAddress a p = Ret (int i) \<and>
      Free os who' a q = (Segv, q\<lparr>isCallingFree := True, gLastIssueType := DOUBLE_FREE, fault_addr := Some (behind q i)\<rparr>))"
proof -
  have inv: "pool_inv os p" "length (sMetas p) = slots p" using assms(1) by (simp_all add: alloc_inv_def pool_inv_def books_def)
  from live_slotE [OF inv(1) assms(3)] obtain i where i: "i < slots p" "borrowed p i" "allocatedStart (sMetas p ! i) = a"
    "GetSlotIdOfAddress a p = Ret (int i)" .
  let ?q = "retire os who i p"
  have q: "alloc_inv os ?q" "live ?q = (live p)(a := None)" using retire_alloc_inv [OF assms(1) i(1, 2)] retire_live [OF inv(1) i(1, 2)] i(3) by simp_all
  then have "Free os who' a ?q = (Segv, ?q\<lparr>isCallingFree := True, gLastIssueType := DOUBLE_FREE, fault_addr := Some (behind ?q i)\<rparr>)"
    using i inv(2) by (intro Free_slot(2) [OF _ assms(2), of ?q a i]) (simp_all add: retire_slot_id retire_metas)
  moreover have "touch b (pages ?q) = Segv" if "unat a \<le> unat b" "unat b < unat a + unat n" for b
    using retire_sealed [OF live_in_slot [OF inv(1) assms(3) that i(4)]] by (simp add: touch_def)
  moreover have "touch b (pages ?q) = Ret ()" if "live ?q c = Some m" "unat c \<le> unat b" "unat b < unat c + unat m" for c m b
    using live_writable [of os ?q c m b] q(1) that by (simp add: touch_def alloc_inv_def)
  ultimately show ?thesis using Free_slot(1) [OF assms(1, 2) i(4, 1, 2)] q i(4) by blast
qed

theorem Free_correct_witness:
  "\<exists>q. Free sample_os sample_caller lent_address lent_pool = (Ret True, q) \<and> live q = Map.empty \<and>
    touch lent_address (pages q) = Segv \<and>
    (\<exists>i. Free sample_os sample_caller lent_address q =
      (Segv, q\<lparr>isCallingFree := True, gLastIssueType := DOUBLE_FREE, fault_addr := Some (behind q i)\<rparr>))"
proof -
  have "live lent_pool lent_address = Some 100" by (simp add: lent_pool_live(3))
  from Free_correct [OF lent_pool_live(2) sample_granted this, of sample_caller sample_caller]
  obtain q where q: "Free sample_os sample_caller lent_address lent_pool = (Ret True, q)" "live q = (live lent_pool)(lent_address := None)"
    "\<forall>b. unat lent_address \<le> unat b \<longrightarrow> unat b < unat lent_address + unat (100 :: u64) \<longrightarrow> touch b (pages q) = Segv"
    "\<exists>i. Free sample_os sample_caller lent_address q =
      (Segv, q\<lparr>isCallingFree := True, gLastIssueType := DOUBLE_FREE, fault_addr := Some (behind q i)\<rparr>)" by blast
  from q(3) have "touch lent_address (pages q) = Segv" by simp
  with q show ?thesis by (auto simp: lent_pool_live(3))
qed

text \<open>
  For every address the release does one of three things. Outside the area it reports that the block is
  not its own and changes nothing. Inside, it takes back the slot the address lies in, guard pages and interior pointers
  included, if that one is borrowed, and faults with \<open>DOUBLE_FREE\<close> if it is not.
\<close>

theorem Free_any:
  assumes "alloc_inv os p" "all_granted os"
  shows "(if in_area p a
    then (\<exists>i < slots p. GetSlotIdOfAddress a p = Ret (int i) \<and>
      (if borrowed p i then (\<exists>q. Free os who a p = (Ret True, q) \<and> alloc_inv os q \<and> live q = (live p)(allocatedStart (sMetas p ! i) := None))
       else Free os who a p = (Segv, p\<lparr>isCallingFree := True, gLastIssueType := DOUBLE_FREE, fault_addr := Some (behind p i)\<rparr>)))
    else Free os who a p = (Ret False, p))"
proof (cases "in_area p a")
  case True
  have inv: "pool_inv os p" "layout os p" using assms(1) by (simp_all add: alloc_inv_def pool_inv_def)
  from area_slot [OF inv(2) True] obtain i where i: "i < slots p" "GetSlotIdOfAddress a p = Ret (int i)" .
  with Free_slot [OF assms i(2, 1), of who] retire_alloc_inv [OF assms(1) i(1)] retire_live [OF inv(1) i(1)] True show ?thesis
    by (auto intro!: exI [of _ i])
qed (use Free_outside [OF assms(1)] in simp)

theorem Free_any_witness: "Free sample_os sample_caller 0 prepared_pool = (Ret False, prepared_pool)"
proof -
  have "sSlotAreaStart prepared_pool = 65536" by (simp add: prepared_pool_def Prepare_def Let_def sample_pool_def)
  then have "\<not> in_area prepared_pool 0" by (simp add: in_area_def)
  then show ?thesis using Free_any [OF prepared_inv(1) sample_granted, of 0 sample_caller] by simp
qed

text \<open>
  C14: A program that allocates what it likes and releases only what it holds is never stopped by the
  guards, for any sequence of calls. In the end it holds exactly the live blocks, which do not overlap and can be written in full.
\<close>

theorem client_served:
  assumes "alloc_inv os p" "all_granted os" "live p = Map.empty"
  shows "\<exists>held q. serve (AlignedAllocate os who) (Free os who) rs [] p = (Ret held, q) \<and> alloc_inv os q \<and>
    distinct (map fst held) \<and> live q = map_of held \<and>
    (\<forall>(a, n) \<in> set held. \<forall>(b, m) \<in> set held. a \<noteq> b \<longrightarrow> unat a + unat n \<le> unat b \<or> unat b + unat m \<le> unat a) \<and>
    (\<forall>(a, n) \<in> set held. \<forall>b. unat a \<le> unat b \<longrightarrow> unat b < unat a + unat n \<longrightarrow> touch b (pages q) = Ret ())"
proof -
  from guarded_heap.served [of os p "[]" who rs] assms obtain held q where
    q: "serve (AlignedAllocate os who) (Free os who) rs [] p = (Ret held, q)" "alloc_inv os q" "distinct (map fst held)" "live q = map_of held"
    by auto
  have inv: "pool_inv os q" using q(2) by (simp add: alloc_inv_def)
  have l: "live q a = Some n" if "(a, n) \<in> set held" for a n using q(3, 4) that by simp
  have "\<forall>(a, n) \<in> set held. \<forall>(b, m) \<in> set held. a \<noteq> b \<longrightarrow> unat a + unat n \<le> unat b \<or> unat b + unat m \<le> unat a"
    using live_apart [OF inv l l] by auto
  moreover have "\<forall>(a, n) \<in> set held. \<forall>b. unat a \<le> unat b \<longrightarrow> unat b < unat a + unat n \<longrightarrow> touch b (pages q) = Ret ()"
    using live_writable [OF inv l] by (auto simp: touch_def)
  ultimately show ?thesis using q by blast
qed

theorem client_served_witness:
  "\<exists>held q. serve (AlignedAllocate sample_os sample_caller) (Free sample_os sample_caller) [Grab 100 16, Grab 8 8, Release 0, Grab 50 1] []
    prepared_pool = (Ret held, q) \<and> distinct (map fst held) \<and> live q = map_of held"
  using client_served [OF prepared_inv(1) sample_granted prepared_inv(2), of sample_caller "[Grab 100 16, Grab 8 8, Release 0, Grab 50 1]"]
  by blast

end
