(* ===== verification/MgSample.thy ===== *)
theory MgSample
  imports MgHeap
begin

text \<open>
  Which allocations are guarded: the rounding to a power of two that the length of the sampling cycle comes from, and how many
  allocations are skipped between two guarded ones.
\<close>

section \<open>Rounding up to a power of two\<close>

text \<open>The shifts copy every bit to the positions below it.\<close>

lemma smear_step:
  fixes x v :: u64
  assumes "\<And>n. bit x n \<longleftrightarrow> (\<exists>j < k. bit v (n + j))"
  shows "bit (x OR drop_bit k x) n \<longleftrightarrow> (\<exists>j < 2 * k. bit v (n + j))"
proof -
  have "(\<exists>j < k. bit v (n + j)) \<or> (\<exists>j < k. bit v (k + n + j)) \<longleftrightarrow> (\<exists>j < 2 * k. bit v (n + j))"
  proof
    assume "(\<exists>j < k. bit v (n + j)) \<or> (\<exists>j < k. bit v (k + n + j))"
    then show "\<exists>j < 2 * k. bit v (n + j)"
    proof
      assume "\<exists>j < k. bit v (k + n + j)"
      then obtain j where "j < k" "bit v (n + (k + j))" by (auto simp: add_ac)
      then show ?thesis by (intro exI [of _ "k + j"]) simp
    qed (metis le_add1 less_le_trans mult_2)
  next
    assume "\<exists>j < 2 * k. bit v (n + j)"
    then obtain j where j: "j < 2 * k" "bit v (n + j)" by blast
    show "(\<exists>j < k. bit v (n + j)) \<or> (\<exists>j < k. bit v (k + n + j))"
    proof (cases "j < k")
      case False
      then have "bit v (k + n + (j - k))" "j - k < k" using j by (simp_all add: add_ac)
      then show ?thesis by blast
    qed (use j in blast)
  qed
  then show ?thesis by (simp add: bit_or_iff bit_drop_bit_eq assms add_ac)
qed

lemma smear:
  fixes v :: u64
  defines "x \<equiv> AlignUpToPowOf2 (v + 1) - 1"
  shows "bit x n \<longleftrightarrow> (\<exists>j < 32. bit v (n + j))"
proof -
  let ?x1 = "v OR drop_bit 1 v"
  let ?x2 = "?x1 OR drop_bit 2 ?x1"
  let ?x4 = "?x2 OR drop_bit 4 ?x2"
  let ?x8 = "?x4 OR drop_bit 8 ?x4"
  have "bit v n \<longleftrightarrow> (\<exists>j < 1. bit v (n + j))" for n by simp
  from smear_step [of v, OF this] have "bit ?x1 n \<longleftrightarrow> (\<exists>j < 2. bit v (n + j))" for n by simp
  from smear_step [OF this] have "bit ?x2 n \<longleftrightarrow> (\<exists>j < 4. bit v (n + j))" for n by simp
  from smear_step [OF this] have "bit ?x4 n \<longleftrightarrow> (\<exists>j < 8. bit v (n + j))" for n by simp
  from smear_step [OF this] have "bit ?x8 n \<longleftrightarrow> (\<exists>j < 16. bit v (n + j))" for n by simp
  from smear_step [OF this] have "bit (?x8 OR drop_bit 16 ?x8) n \<longleftrightarrow> (\<exists>j < 32. bit v (n + j))" by simp
  then show ?thesis by (simp add: x_def AlignUpToPowOf2_def Let_def)
qed

text \<open>The least power of two that is no less, up to 32 bits.\<close>

lemma least_power:
  fixes x :: u64
  assumes "0 < m" "m \<le> 2 ^ 32" "\<And>n. bit x n \<longleftrightarrow> (\<exists>j < 32. bit (of_nat (m - 1) :: u64) (n + j))"
  obtains k where "k \<le> 32" "x = mask k" "m \<le> 2 ^ k" "k = 0 \<or> 2 ^ (k - 1) < m"
proof -
  define w where "w = m - 1"
  have w: "w < 2 ^ 32" using assms(1, 2) by (simp add: w_def)
  have b: "bit (of_nat w :: u64) n \<longleftrightarrow> n < 64 \<and> bit w n" for n by (simp add: bit_of_nat_iff possible_bit_def)
  have high: "n < 32" if "bit w n" for n
  proof (rule ccontr)
    assume "\<not> n < 32"
    then have "(2 :: nat) ^ 32 \<le> 2 ^ n" by (intro power_increasing) simp_all
    moreover have "2 ^ n \<le> w" using that by (metis bit_iff_odd div_less even_zero not_le)
    ultimately show False using w by simp
  qed
  show thesis
  proof (cases "w = 0")
    case True
    then have "x = mask 0" using assms(3) by (intro bit_word_eqI) (simp add: w_def)
    with True assms(1) show thesis using that [of 0] by (simp add: w_def)
  next
    case False
    then obtain h where h: "2 ^ h \<le> w" "w < 2 ^ Suc h" using ex_power_ivl1 [of 2 w] by auto
    have bh: "bit w h"
    proof -
      have "w div 2 ^ h = 1" using h by (intro div_nat_eqI) simp_all
      then show ?thesis by (simp add: bit_iff_odd)
    qed
    have le: "n \<le> h" if "bit w n" for n
    proof (rule ccontr)
      assume "\<not> n \<le> h"
      then have "(2 :: nat) ^ Suc h \<le> 2 ^ n" by (intro power_increasing) simp_all
      moreover have "2 ^ n \<le> w" using that by (metis bit_iff_odd div_less even_zero not_le)
      ultimately show False using h by simp
    qed
    have "x = mask (Suc h)"
    proof (rule bit_word_eqI)
      fix n
      assume "n < LENGTH(64)"
      have "(\<exists>j < 32. bit (of_nat w :: u64) (n + j)) \<longleftrightarrow> n \<le> h"
      proof
        assume "\<exists>j < 32. bit (of_nat w :: u64) (n + j)"
        then obtain j where "bit w (n + j)" by (auto simp: b)
        then show "n \<le> h" using le [of "n + j"] by simp
      next
        assume "n \<le> h"
        with bh high [OF bh] show "\<exists>j < 32. bit (of_nat w :: u64) (n + j)" by (intro exI [of _ "h - n"]) (simp add: b)
      qed
      then show "bit x n \<longleftrightarrow> bit (mask (Suc h) :: u64) n"
        using assms(3) [of n] \<open>n < LENGTH(64)\<close> by (simp add: w_def bit_mask_iff possible_bit_def less_Suc_eq_le)
    qed
    moreover have "m \<le> 2 ^ Suc h" "2 ^ h < m" using h assms(1) by (simp_all add: w_def)
    ultimately show thesis using that [of "Suc h"] high [OF bh] by simp
  qed
qed

lemma AlignUpToPowOf2_least:
  assumes "0 < unat v" "unat v \<le> 2 ^ 32"
  obtains k where "k \<le> 32" "AlignUpToPowOf2 v = 2 ^ k" "unat (AlignUpToPowOf2 v) = 2 ^ k" "unat v \<le> 2 ^ k" "k = 0 \<or> 2 ^ (k - 1) < unat v"
proof -
  have "of_nat (unat v - 1) = (of_nat (unat v) - of_nat 1 :: u64)" using assms(1) by (intro of_nat_diff) simp
  then have v: "v = of_nat (unat v - 1) + 1" by simp
  obtain k where k: "k \<le> 32" "AlignUpToPowOf2 v - 1 = mask k" "unat v \<le> 2 ^ k" "k = 0 \<or> 2 ^ (k - 1) < unat v"
    using least_power [OF assms, of "AlignUpToPowOf2 v - 1"] smear [of "of_nat (unat v - 1)"] v by metis
  from k(2) have "AlignUpToPowOf2 v = 2 ^ k" by (simp add: mask_eq_exp_minus_1 diff_eq_eq)
  with k that [of k] unat_pow [of k] show thesis by simp
qed

section \<open>The sampling cycle\<close>

text \<open>The decisions on so many allocations in a row.\<close>

fun decisions :: "nat \<Rightarrow> (pool, bool list) cmd" where
  "decisions 0 = retc []"
| "decisions (Suc n) = bindc ShouldBeGuardedThisTime (\<lambda>b. bindc (decisions n) (\<lambda>bs. retc (b # bs)))"

lemma and_less: "0 < L \<Longrightarrow> unat (ucast (r AND (L - 1)) :: u32) < unat L" for r L :: u64
proof -
  assume "0 < L"
  have "unat (ucast (r AND (L - 1)) :: u32) = take_bit 32 (unat (r AND (L - 1)))" by (simp add: unsigned_ucast_eq)
  also have "\<dots> \<le> unat (r AND (L - 1))" by (rule take_bit_nat_less_eq_self)
  also have "\<dots> \<le> unat (L - 1)" by (simp add: unsigned_and_eq and_nat_def nat_le_iff)
  also have "\<dots> < unat L" using \<open>0 < L\<close> by (metis unat_minus_one word_less_nat_alt unsigned_0 diff_less zero_less_one order_less_irrefl)
  finally show ?thesis .
qed

lemma decisions_cycle:
  "0 < sSampleCycleLength p \<Longrightarrow> unat (sampleCounter p) = c \<Longrightarrow>
     \<exists>q. decisions (Suc c) p = (Ret (replicate c False @ [True]), q) \<and> unat (sampleCounter q) < unat (sSampleCycleLength p) \<and>
       sSampleCycleLength q = sSampleCycleLength p"
proof (induction c arbitrary: p)
  case 0
  then have "sampleCounter p = 0" by (simp add: unsigned_eq_0_iff)
  then show ?case using and_less [OF 0(1)] by (simp add: ShouldBeGuardedThisTime_def next_random_def Let_def)
next
  case (Suc c)
  let ?p = "p\<lparr>sampleCounter := sampleCounter p - 1\<rparr>"
  have nz: "sampleCounter p \<noteq> 0" using Suc.prems(2) by auto
  then have "unat (sampleCounter ?p) = c" using Suc.prems(2) by (simp add: unat_minus_one)
  from Suc.IH [OF _ this] Suc.prems(1) obtain q where q: "decisions (Suc c) ?p = (Ret (replicate c False @ [True]), q)"
    "unat (sampleCounter q) < unat (sSampleCycleLength p)" "sSampleCycleLength q = sSampleCycleLength p" by auto
  have "ShouldBeGuardedThisTime p = (Ret False, ?p)" using nz by (simp add: ShouldBeGuardedThisTime_def)
  then have "decisions (Suc (Suc c)) p = (Ret (replicate (Suc c) False @ [True]), q)"
    using q(1) by (simp add: bindc_def del: decisions.simps) (simp add: decisions.simps(2) [of "Suc c"] bindc_def del: decisions.simps)
  with q show ?case by blast
qed

text \<open>The length of the cycle the preparation sets, and the counter it starts from.\<close>

lemma cycle_length:
  assumes "unat m \<le> 2 ^ 32"
  defines "L \<equiv> (let len = AlignUpToPowOf2 m in if len = 0 then 1 else if len = 1 then 2 else len)"
  obtains k where "L = 2 ^ k" "k \<le> 32" "unat L = 2 ^ k"
    "case unat m of 0 \<Rightarrow> k = 0 | Suc 0 \<Rightarrow> k = 1 | m \<Rightarrow> m \<le> 2 ^ k \<and> 2 ^ (k - 1) < m"
proof (cases "unat m = 0")
  case True
  then have "m = 0" by (simp add: unsigned_eq_0_iff)
  then have "L = 1" by (simp add: L_def AlignUpToPowOf2_def)
  then show thesis using that [of 0] True by simp
next
  case False
  then obtain j where j: "j \<le> 32" "AlignUpToPowOf2 m = 2 ^ j" "unat (AlignUpToPowOf2 m) = 2 ^ j" "unat m \<le> 2 ^ j" "j = 0 \<or> 2 ^ (j - 1) < unat m"
    using AlignUpToPowOf2_least [OF _ assms(1)] by auto
  show thesis
  proof (cases "j = 0")
    case True
    then have "L = 2" "unat m = 1" using j False by (simp_all add: L_def)
    then show thesis using that [of 1] by simp
  next
    case nz: False
    have "(2 :: nat) ^ 1 \<le> 2 ^ j" using nz by (intro power_increasing) simp_all
    then have "AlignUpToPowOf2 m \<noteq> 0" "AlignUpToPowOf2 m \<noteq> 1" using j(3) by auto
    then have "L = 2 ^ j" "unat L = 2 ^ j" using j by (simp_all add: L_def)
    moreover have "1 < unat m"
    proof -
      have "(1 :: nat) \<le> 2 ^ (j - 1)" by simp
      then show ?thesis using nz j(5) by linarith
    qed
    ultimately show thesis using that [of j] j nz by (auto split: nat.split)
  qed
qed

lemma prepare_counter:
  assumes "unat (maxSkippedAllocationCount (gOpts p)) \<le> 2 ^ 32"
  shows "unat (sampleCounter (snd (allocation_Prepare now tid p))) < unat (sSampleCycleLength (snd (allocation_Prepare now tid p)))"
proof -
  let ?q = "snd (allocation_Prepare now tid p)"
  define L where "L = (let len = AlignUpToPowOf2 (maxSkippedAllocationCount (gOpts p)) in if len = 0 then 1 else if len = 1 then 2 else len)"
  have q: "sSampleCycleLength ?q = L" "sampleCounter ?q = ucast (ucast (GenerateUnsignedInt32 (InitializeRndSeed now tid)) AND (L - 1))"
    by (simp_all add: allocation_Prepare_def next_random_def Let_def L_def)
  obtain k where "unat L = 2 ^ k" by (rule cycle_length [OF assms, folded L_def])
  then have "0 < L" by (simp add: word_less_nat_alt)
  then show ?thesis unfolding q by (rule and_less)
qed

text \<open>
  With the default options, where the description promises to skip at most 5 allocations, 7 are skipped for some seeds: the cycle has
  the length 8.
\<close>

lemma sampling_exceeds_option:
  "\<exists>q t. maxSkippedAllocationCount (gOpts q) = 5 \<and> allocation_Prepare 1 6 (p\<lparr>gOpts := default_options\<rparr>) = (Ret True, q) \<and>
    decisions 8 q = (Ret (replicate 7 False @ [True]), t)"
proof -
  define q where "q = snd (allocation_Prepare 1 6 (p\<lparr>gOpts := default_options\<rparr>))"
  have a: "AlignUpToPowOf2 5 = 8" by (simp add: AlignUpToPowOf2_def Let_def)
  have q: "allocation_Prepare 1 6 (p\<lparr>gOpts := default_options\<rparr>) = (Ret True, q)" "sSampleCycleLength q = 8" "gOpts q = default_options"
    "sampleCounter q = ucast (ucast (GenerateUnsignedInt32 (InitializeRndSeed 1 6)) AND (7 :: u64))"
    by (simp_all add: q_def allocation_Prepare_def next_random_def Let_def default_options_def a)
  have "sampleCounter q = 7" unfolding q(4) by (simp add: GenerateUnsignedInt32_def InitializeRndSeed_def Let_def)
  then have "unat (sampleCounter q) = 7" by simp
  moreover have "0 < sSampleCycleLength q" by (simp add: q(2))
  ultimately obtain t where "decisions (Suc 7) q = (Ret (replicate 7 False @ [True]), t)" using decisions_cycle by blast
  moreover have "Suc 7 = 8" by simp
  ultimately have "decisions 8 q = (Ret (replicate 7 False @ [True]), t)" by (simp only:)
  moreover have "maxSkippedAllocationCount (gOpts q) = 5" by (simp add: q(3) default_options_def)
  ultimately show ?thesis using q(1) by blast
qed

text \<open>When the number of skipped allocations that the cycle allows, one less than its length, is within the option.\<close>

lemma within_option:
  assumes "case m of 0 \<Rightarrow> k = 0 | Suc 0 \<Rightarrow> k = 1 | m \<Rightarrow> m \<le> 2 ^ k \<and> 2 ^ (k - 1) < m"
  shows "(2 :: nat) ^ k - 1 \<le> m \<longleftrightarrow> (\<exists>j. m = 2 ^ j \<or> m + 1 = 2 ^ j)"
proof (cases "m \<le> 1")
  case True
  then have "m = 0 \<and> k = 0 \<or> m = 1 \<and> k = 1" using assms by (auto simp: le_Suc_eq)
  moreover have "1 = (2 :: nat) ^ 0" by simp
  ultimately have "2 ^ k - 1 \<le> m" "m = 2 ^ 0 \<or> m + 1 = 2 ^ 0" by auto
  then show ?thesis by blast
next
  case False
  with assms have m: "m \<le> 2 ^ k" "2 ^ (k - 1) < m" by (auto split: nat.splits)
  then have k: "0 < k" using False by (cases k) auto
  have "j = k" if "m = 2 ^ j \<or> m + 1 = 2 ^ j" for j
  proof -
    have "(2 :: nat) ^ j \<le> 2 ^ k + 1" "(2 :: nat) ^ (k - 1) < 2 ^ j" using m that by linarith+
    moreover have "1 < (2 :: nat) ^ k" using k by (intro one_less_power) simp_all
    then have "(2 :: nat) ^ k + 1 < 2 ^ Suc k" by simp
    ultimately have "(2 :: nat) ^ j < 2 ^ Suc k" "(2 :: nat) ^ (k - 1) < 2 ^ j" by linarith+
    then have "j < Suc k" "k - 1 < j" by (simp_all only: power_strict_increasing_iff [of "2 :: nat"] one_less_numeral_iff semiring_norm)
    then show ?thesis by simp
  qed
  then have "(\<exists>j. m = 2 ^ j \<or> m + 1 = 2 ^ j) \<longleftrightarrow> m = 2 ^ k \<or> m + 1 = 2 ^ k" by blast
  also have "\<dots> \<longleftrightarrow> 2 ^ k - 1 \<le> m" using m(1) by linarith
  finally show ?thesis by simp
qed

text \<open>
  C20: For an option of at most 2^32 the sampling cycle has the length 1 for the option 0, 2 for 1, and the least power of two
  that is no less than the option otherwise. From the preparation on, the counter is below the length; the allocations the
  counter counts down are skipped, the next one is guarded, and the counter is below the length again: at most
  one less than the length are skipped in a row. \<open>Options.inc\<close> promises that no more are skipped than the option
  says. What the cycle allows keeps that promise exactly if the option or its successor is a power of two; with the
  default of 5 the cycle has the length 8, and for a seed 7 allocations are skipped before the first guarded one.
\<close>

theorem sampling_correct:
  assumes "unat (maxSkippedAllocationCount (gOpts p)) \<le> 2 ^ 32"
  shows "(\<exists>q k. allocation_Prepare now tid p = (Ret True, q) \<and> sSampleCycleLength q = 2 ^ k \<and> k \<le> 32 \<and>
    (case unat (maxSkippedAllocationCount (gOpts p)) of 0 \<Rightarrow> k = 0 | Suc 0 \<Rightarrow> k = 1 | m \<Rightarrow> m \<le> 2 ^ k \<and> 2 ^ (k - 1) < m) \<and>
    ((2 :: nat) ^ k - 1 \<le> unat (maxSkippedAllocationCount (gOpts p)) \<longleftrightarrow>
      (\<exists>j. unat (maxSkippedAllocationCount (gOpts p)) = 2 ^ j \<or> unat (maxSkippedAllocationCount (gOpts p)) + 1 = 2 ^ j)) \<and>
    unat (sampleCounter q) < 2 ^ k \<and>
    (\<forall>s. sSampleCycleLength s = 2 ^ k \<longrightarrow> unat (sampleCounter s) < 2 ^ k \<longrightarrow>
      (\<exists>t. decisions (Suc (unat (sampleCounter s))) s = (Ret (replicate (unat (sampleCounter s)) False @ [True]), t) \<and>
        sSampleCycleLength t = 2 ^ k \<and> unat (sampleCounter t) < 2 ^ k))) \<and>
    (\<exists>q t. maxSkippedAllocationCount (gOpts q) = 5 \<and> allocation_Prepare 1 6 (p\<lparr>gOpts := default_options\<rparr>) = (Ret True, q) \<and>
      decisions 8 q = (Ret (replicate 7 False @ [True]), t))"
proof -
  let ?m = "maxSkippedAllocationCount (gOpts p)"
  define L where "L = (let len = AlignUpToPowOf2 ?m in if len = 0 then 1 else if len = 1 then 2 else len)"
  obtain k where k: "L = 2 ^ k" "k \<le> 32" "unat L = 2 ^ k"
    "case unat ?m of 0 \<Rightarrow> k = 0 | Suc 0 \<Rightarrow> k = 1 | m \<Rightarrow> m \<le> 2 ^ k \<and> 2 ^ (k - 1) < m"
    by (rule cycle_length [OF assms, folded L_def])
  define q where "q = snd (allocation_Prepare now tid p)"
  have q: "allocation_Prepare now tid p = (Ret True, q)" "sSampleCycleLength q = L"
    by (simp_all add: q_def allocation_Prepare_def next_random_def Let_def L_def)
  have c: "unat (sampleCounter q) < 2 ^ k" using prepare_counter [OF assms, of now tid] q(2) k(3) by (simp add: q_def)
  have step: "\<exists>t. decisions (Suc (unat (sampleCounter s))) s = (Ret (replicate (unat (sampleCounter s)) False @ [True]), t) \<and>
        sSampleCycleLength t = 2 ^ k \<and> unat (sampleCounter t) < 2 ^ k" if "sSampleCycleLength s = 2 ^ k" for s
  proof -
    have "0 < L" using k(3) by (simp add: word_less_nat_alt)
    then show ?thesis using decisions_cycle [of s "unat (sampleCounter s)"] that k(1, 3) by auto
  qed
  show ?thesis
    by (rule conjI [OF exI [of _ q, OF exI [of _ k]] sampling_exceeds_option], intro conjI allI impI)
      (rule q(1), simp only: q(2) k(1), rule k(2), rule k(4), rule within_option [OF k(4)], rule c, rule step, assumption)
qed

theorem sampling_correct_witness:
  "\<exists>q k. allocation_Prepare 1 6 (sample_pool\<lparr>gOpts := default_options\<rparr>) = (Ret True, q) \<and> sSampleCycleLength q = 2 ^ k \<and>
    unat (sampleCounter q) < 2 ^ k"
  using sampling_correct [of "sample_pool\<lparr>gOpts := default_options\<rparr>" 1 6] by (auto simp: default_options_def)

end
