(* ===== verification/MgIssue.thy ===== *)
theory MgIssue
  imports MgHeap
begin

text \<open>
  \<open>memguard/util/Issue.cpp\<close> and \<open>util/SignalHandler.cpp\<close>: what is reported about an access that faulted. The
  symbols of the return addresses, the time, the process name and the dump file are left out; the report is the
  record of what is printed.
\<close>

section \<open>Reports\<close>

definition GetNearestSlotID :: "guard_os \<Rightarrow> u64 \<Rightarrow> pool \<Rightarrow> int run" where
  "GetNearestSlotID os addr p =
     bindr (GetGuardedPageStart 0 p) (\<lambda>first.
     if addr < first then Ret 0
     else
       bindr (GetSlotIdOfAddress addr p) (\<lambda>slot.
       if slot \<noteq> SLOT_NONE then
         if \<not> IsAddressInGuardPage os addr p then Ret slot
         else if addr mod page_size os * 2 > page_size os \<and> slot < sint (maxDetectableAllocationCount (gOpts p) - 1) then Ret (slot + 1)
         else Ret slot
       else Ret slot))"

text \<open>The distance is printed for overflows and underflows, the thread that released the block after its release.\<close>

record guard_report =
  issue :: GuardIssueType
  accessing_addr :: u64
  overlappedRelOffset :: "u64 option"
  bufferSize :: u64
  accessingThread :: "int \<times> string"
  accessingStackTrace :: "u64 list"
  allocateThread :: "int \<times> string"
  allocateStackTrace :: "u64 list"
  freeInfo :: "((int \<times> string) \<times> u64 list) option"

definition last_issue :: "int \<Rightarrow> u64 \<Rightarrow> u64 \<Rightarrow> pool \<Rightarrow> GuardIssueType run" where
  "last_issue slot addr start p =
     (if gLastIssueType p = UNKNOWN then
        bindr (IsSlotBorrowed slot p) (\<lambda>slot_borrowed.
        if slot_borrowed then
          if start \<noteq> 0 then Ret (if addr \<le> start then UNDERFLOW else OVERFLOW) else Ret UNKNOWN
        else Ret USE_AFTER_FREE)
      else Ret (gLastIssueType p))"

definition issue_offset :: "GuardIssueType \<Rightarrow> u64 \<Rightarrow> u64 \<Rightarrow> u64 \<Rightarrow> u64 option" where
  "issue_offset ty addr start sz = (case ty of
       OVERFLOW \<Rightarrow> Some (addr - start - sz)
     | UNDERFLOW \<Rightarrow> Some (start - addr - sz)
     | _ \<Rightarrow> None)"

text \<open>No report where the address belongs to no slot. The code runs on a thread of its own, \<open>reporter\<close>, with the context of the thread
  that faulted, \<open>who\<close>: the stack is that of the latter, the id and the name are what \<open>gettid\<close> and \<open>prctl\<close> answer in the former.\<close>

definition Report :: "guard_os \<Rightarrow> caller \<Rightarrow> caller \<Rightarrow> u64 \<Rightarrow> pool \<Rightarrow> guard_report option run" where
  "Report os who reporter addr p =
     bindr (GetNearestSlotID os addr p) (\<lambda>slot.
     if slot = SLOT_NONE then Ret None
     else
       bindr (GetAllocatedAddress slot p) (\<lambda>start.
       bindr (last_issue slot addr start p) (\<lambda>ty.
       bindr (pool_GetAllocatedSize slot p) (\<lambda>sz.
       bindr (GetThreadInfoOnBorrow slot p) (\<lambda>allocate_thread.
       bindr (GetStackTraceOnBorrow slot p) (\<lambda>allocate_trace.
       bindr (if ty = DOUBLE_FREE \<or> ty = USE_AFTER_FREE
              then bindr (GetThreadInfoOnReturn slot p) (\<lambda>t. bindr (GetStackTraceOnReturn slot p) (\<lambda>s. Ret (Some (t, s))))
              else Ret None) (\<lambda>free_info.
       Ret (Some \<lparr>issue = ty, accessing_addr = addr, overlappedRelOffset = issue_offset ty addr start sz, bufferSize = sz,
         accessingThread = (gettid reporter, self_name reporter), accessingStackTrace = UnwindStack who,
         allocateThread = allocate_thread, allocateStackTrace = allocate_trace, freeInfo = free_info\<rparr>))))))))"

fun GetIssueTypeName :: "GuardIssueType \<Rightarrow> string" where
  "GetIssueTypeName OVERFLOW = ''OVERFLOW''"
| "GetIssueTypeName UNDERFLOW = ''UNDERFLOW''"
| "GetIssueTypeName USE_AFTER_FREE = ''USE_AFTER_FREE''"
| "GetIssueTypeName DOUBLE_FREE = ''DOUBLE_FREE''"
| "GetIssueTypeName UNKNOWN = ''UNKNOWN''"

section \<open>The signal handler\<close>

text \<open>The handler that was there before, and what becomes of the process.\<close>

datatype prev_action = PrevSigAction | PrevDefault | PrevIgnore | PrevHandler
datatype after_fault = CallPrevious | RaiseDefault | Resume

text \<open>The report thread, if one could be run. The type of the last issue is thread-local; the report thread is a clone
  that shares the thread-local storage of the one that faulted.\<close>

definition SegvSignalHandler :: "guard_os \<Rightarrow> caller \<Rightarrow> caller option \<Rightarrow> prev_action \<Rightarrow> bool \<Rightarrow> u64 \<Rightarrow> pool \<Rightarrow> (guard_report option \<times> after_fault) run" where
  "SegvSignalHandler os who report_thread prev accerr si_addr p =
     bindr (if accerr then IsAllocatedByThisAllocator si_addr p else Ret False) (\<lambda>own.
     bindr (if \<not> own then Ret None else case report_thread of None \<Rightarrow> Ret None | Some reporter \<Rightarrow> Report os who reporter si_addr p) (\<lambda>report.
     case prev of
       PrevSigAction \<Rightarrow> Ret (report, CallPrevious)
     | PrevDefault \<Rightarrow> Ret (report, RaiseDefault)
     | PrevIgnore \<Rightarrow>
         bindr (if gLastIssueType p \<noteq> UNKNOWN \<and> si_addr \<noteq> 0 then Ret True else IsAllocatedByThisAllocator si_addr p) (\<lambda>crash.
         Ret (report, if crash then RaiseDefault else Resume))
     | PrevHandler \<Rightarrow> Ret (report, CallPrevious)))"

text \<open>The type of an issue.\<close>

definition issue_of :: "GuardIssueType \<Rightarrow> u64 \<Rightarrow> u64 \<Rightarrow> bool \<Rightarrow> GuardIssueType" where
  "issue_of lastIssueType addr start slot_borrowed =
     (if lastIssueType = UNKNOWN then
        if slot_borrowed then
          if start \<noteq> 0 then (if addr \<le> start then UNDERFLOW else OVERFLOW) else UNKNOWN
        else USE_AFTER_FREE
      else lastIssueType)"

section \<open>Which slot an address is counted to\<close>

lemma nearest_in_slot:
  assumes "layout os p" "i < slots p" "in_slot p i a"
  shows "GetNearestSlotID os a p = Ret (int i)" "GetSlotIdOfAddress a p = Ret (int i)"
proof -
  show s: "GetSlotIdOfAddress a p = Ret (int i)"
    using assms(3) by (intro GetSlotIdOfAddress_slot [OF assms(1, 2)]) (auto simp: in_slot_def unit_size_def)
  have n0: "GetGuardedPageStart 0 p = Ret (of_nat (slot_start p 0))" "unat (of_nat (slot_start p 0) :: u64) = slot_start p 0"
    using GetGuardedPageStart_eq [of os p 0] assms(1) by (simp_all add: layout_def)
  have "\<not> a < of_nat (slot_start p 0)"
    using assms(3) slot_start_mono [of 0 i p] n0(2) by (simp add: word_less_nat_alt in_slot_def)
  moreover have "\<not> IsAddressInGuardPage os a p"
    using slot_not_guard [OF assms(1) assms(3)] IsAddressInGuardPage_iff [OF assms(1)] by simp
  ultimately show "GetNearestSlotID os a p = Ret (int i)" by (simp add: GetNearestSlotID_def n0(1) s SLOT_NONE_def)
qed

lemma guard_offset:
  assumes "layout os p" "unat a = slot_start p i + unat (sSlotSize p) + d" "d < unat (page_size os)"
  shows "unat (a mod page_size os * 2) = 2 * d"
proof -
  obtain k where k: "k < 63" "unat (page_size os) = 2 ^ k" using layoutE [OF assms(1)] by metis
  have "unat (page_size os) dvd slot_start p i + unat (sSlotSize p)" using page_dvd [OF assms(1)] by simp
  then have "unat a mod unat (page_size os) = d" using assms(2, 3) by auto
  then have m: "unat (a mod page_size os) = d" by (simp add: unat_mod)
  have "(2 :: nat) ^ Suc k \<le> 2 ^ 63" using k(1) by (intro power_increasing) simp_all
  then have "2 * d < 2 ^ 64" using assms(3) k(2) by simp
  then show ?thesis using m by (simp add: unat_word_ariths)
qed

text \<open>A guard page: its first half is counted to the slot before it, the rest to the slot behind it, where there is one.\<close>

lemma nearest_in_guard:
  assumes "layout os p" "i < slots p" "unat a = slot_start p i + unat (sSlotSize p) + d" "d < unat (sGuardPageSize p)"
  shows "GetNearestSlotID os a p = Ret (int (if 2 * d > unat (sGuardPageSize p) \<and> Suc i < slots p then Suc i else i))"
    "GetSlotIdOfAddress a p = Ret (int i)"
proof -
  have g: "sGuardPageSize p = page_size os" using assms(1) by (simp add: layout_def)
  show s: "GetSlotIdOfAddress a p = Ret (int i)"
    using assms(3, 4) by (intro GetSlotIdOfAddress_slot [OF assms(1, 2)]) (auto simp: unit_size_def)
  have n0: "GetGuardedPageStart 0 p = Ret (of_nat (slot_start p 0))" "unat (of_nat (slot_start p 0) :: u64) = slot_start p 0"
    using GetGuardedPageStart_eq [of os p 0] assms(1) by (simp_all add: layout_def)
  have nf: "\<not> a < of_nat (slot_start p 0)" using assms(3) slot_start_mono [of 0 i p] n0(2) by (simp add: word_less_nat_alt)
  have gp: "IsAddressInGuardPage os a p"
    unfolding IsAddressInGuardPage_iff [OF assms(1)] using assms by (intro guard_around(2) [OF assms(1, 2)]) (simp_all add: unit_size_def)
  have h: "a mod page_size os * 2 > page_size os \<longleftrightarrow> 2 * d > unat (sGuardPageSize p)"
    using guard_offset [OF assms(1, 3)] assms(4) g by (simp add: word_less_nat_alt)
  have "maxDetectableAllocationCount (gOpts p) - 1 = of_nat (slots p - 1)" "slots p - 1 < 2 ^ 31"
    using assms(1) by (auto simp: layout_def slots_def of_nat_diff word_less_nat_alt)
  then have "sint (maxDetectableAllocationCount (gOpts p) - 1) = int (slots p - 1)" by (simp add: sint_small)
  then have l: "int i < sint (maxDetectableAllocationCount (gOpts p) - 1) \<longleftrightarrow> Suc i < slots p" using assms(2) by auto
  show "GetNearestSlotID os a p = Ret (int (if 2 * d > unat (sGuardPageSize p) \<and> Suc i < slots p then Suc i else i))"
    using nf gp by (simp add: GetNearestSlotID_def n0(1) s SLOT_NONE_def h l)
qed

lemma nearest_first_guard:
  assumes "layout os p" "unat (sSlotAreaStart p) \<le> unat a" "unat a < slot_start p 0"
  shows "GetNearestSlotID os a p = Ret 0" "GetSlotIdOfAddress a p = Ret 0"
proof -
  have "GetGuardedPageStart 0 p = Ret (of_nat (slot_start p 0))" "unat (of_nat (slot_start p 0) :: u64) = slot_start p 0"
    using GetGuardedPageStart_eq [of os p 0] assms(1) by (simp_all add: layout_def)
  then show "GetNearestSlotID os a p = Ret 0" using assms(3) by (simp add: GetNearestSlotID_def word_less_nat_alt)
qed (rule GetSlotIdOfAddress_guard [OF assms])

text \<open>The report about a slot.\<close>

lemma Report_slot:
  assumes "pool_inv os p" "i < slots p" "GetNearestSlotID os a p = Ret (int i)"
  defines "m \<equiv> sMetas p ! i"
  defines "ty \<equiv> issue_of (gLastIssueType p) a (allocatedStart m) (isBorrowed m)"
  shows "Report os who reporter a p = Ret (Some \<lparr>issue = ty, accessing_addr = a,
    overlappedRelOffset = issue_offset ty a (allocatedStart m) (allocatedSize m), bufferSize = allocatedSize m,
    accessingThread = (gettid reporter, self_name reporter), accessingStackTrace = UnwindStack who,
    allocateThread = (borrowThreadId m, borrowThreadName m), allocateStackTrace = stackTraceOnBorrow m,
    freeInfo = (if ty = DOUBLE_FREE \<or> ty = USE_AFTER_FREE then Some ((returnThreadId m, returnThreadName m), stackTraceOnReturn m) else None)\<rparr>)"
proof -
  have lay: "layout os p" "length (sMetas p) = slots p" "i < 2 ^ 32" using assms(1, 2) by (auto simp: pool_inv_def books_def layout_def)
  have g: "good_slot (int i) p" using good_slot_iff [OF lay(1, 3)] assms(2) by simp
  have at: "at (sMetas p) (int i) = Ret m" using assms(2) lay(2) by (simp add: at_eq m_def)
  have ty: "last_issue (int i) a (allocatedStart m) p = Ret ty"
    by (simp add: ty_def issue_of_def last_issue_def IsSlotBorrowed_def g at)
  show ?thesis
    by (simp add: Report_def assms(3) SLOT_NONE_def GetAllocatedAddress_def pool_GetAllocatedSize_def GetThreadInfoOnBorrow_def
      GetStackTraceOnBorrow_def GetThreadInfoOnReturn_def GetStackTraceOnReturn_def g at ty)
qed

lemma handler_reports:
  assumes "IsAllocatedByThisAllocator a p = Ret True" "Report os who reporter a p = Ret r"
  shows "\<exists>af. SegvSignalHandler os who (Some reporter) prev True a p = Ret (r, af) \<and> af \<noteq> Resume"
  using assms by (cases prev) (simp_all add: SegvSignalHandler_def)

section \<open>Properties\<close>

lemma allocated_known: "GetSlotIdOfAddress a p = Ret (int i) \<Longrightarrow> IsAllocatedByThisAllocator a p = Ret True"
  by (simp add: IsAllocatedByThisAllocator_def SLOT_NONE_def)

text \<open>What the handler says about an address whose nearest slot is \<open>i\<close>.\<close>

lemma handler_slot:
  assumes "pool_inv os p" "i < slots p" "GetNearestSlotID os b p = Ret (int i)" "GetSlotIdOfAddress b p = Ret (int j)"
  shows "\<exists>r af. SegvSignalHandler os who (Some reporter) prev True b p = Ret (Some r, af) \<and> af \<noteq> Resume \<and> accessing_addr r = b \<and>
    accessingThread r = (gettid reporter, self_name reporter) \<and> accessingStackTrace r = UnwindStack who \<and>
    issue r = issue_of (gLastIssueType p) b (allocatedStart (sMetas p ! i)) (borrowed p i) \<and>
    overlappedRelOffset r = issue_offset (issue r) b (allocatedStart (sMetas p ! i)) (allocatedSize (sMetas p ! i)) \<and>
    bufferSize r = allocatedSize (sMetas p ! i) \<and>
    freeInfo r = (if issue r = DOUBLE_FREE \<or> issue r = USE_AFTER_FREE
      then Some ((returnThreadId (sMetas p ! i), returnThreadName (sMetas p ! i)), stackTraceOnReturn (sMetas p ! i)) else None)"
  using handler_reports [OF allocated_known [OF assms(4)] Report_slot [OF assms(1-3)], of who reporter prev] by fastforce

lemma retire_meta:
  "i < length (sMetas p) \<Longrightarrow> sMetas (retire os who i p) ! i = (sMetas p ! i)\<lparr>isBorrowed := False, returnThreadId := gettid who,
     returnThreadName := self_name who, stackTraceOnReturn := UnwindStack who\<rparr>"
  "gLastIssueType (retire os who i p) = gLastIssueType p"
  by (simp_all add: retire_def)

text \<open>An allocation leaves the type of the last issue alone.\<close>

lemma keeps_guard:
  assumes "keeps part body" "\<And>b p. part (set_flag b p) = part p"
  shows "keeps part (RECURSIVE_GUARD flag set_flag d body)"
  unfolding RECURSIVE_GUARD_def
proof (rule keeps_choose)
  show "part (snd (bindc (updc (set_flag True)) (\<lambda>_. bindc body (\<lambda>r. bindc (updc (set_flag False)) (\<lambda>_. retc r))) p)) = part p" for p
    by (rule keeps_snd) (intro keeps_intros assms)
qed simp

lemma keeps_issue_parts: "keeps gLastIssueType next_random" "keeps gLastIssueType pick_slot" "keeps gLastIssueType (set_meta slot f)"
proof -
  show r: "keeps gLastIssueType next_random" by (simp add: keeps_def next_random_def Let_def)
  show "keeps gLastIssueType (set_meta slot f)" unfolding set_meta_def by (intro keeps_intros) simp
  show "keeps gLastIssueType pick_slot" unfolding pick_slot_def by (rule keepsI) (auto intro!: keeps_snd keeps_intros r)
qed

lemma keeps_issue: "keeps gLastIssueType (AlignedAllocate os who sz al)"
proof -
  have b: "keeps gLastIssueType (BorrowSlot os who sz al side)" for side
    unfolding BorrowSlot_def by (rule keepsI) (auto intro!: keeps_snd keeps_intros keeps_issue_parts)
  have l: "keeps gLastIssueType ShouldBeGuardedOnLeft" unfolding ShouldBeGuardedOnLeft_def by (intro keeps_intros keeps_issue_parts)
  have t: "keeps gLastIssueType ShouldBeGuardedThisTime"
    unfolding ShouldBeGuardedThisTime_def by (rule keepsI) (auto intro!: keeps_snd keeps_intros keeps_issue_parts)
  have a: "keeps gLastIssueType (\<lambda>p. if al > GetSlotSize p then (Ret 0, p) else if \<not> IsPowOf2 al then (Ret 0, p)
      else if AlignUpTo sz al > GetSlotSize p then (Ret 0, p)
      else bindc ShouldBeGuardedOnLeft (\<lambda>on_left. bindc (BorrowSlot os who sz al (if on_left then ON_LEFT else ON_RIGHT)) (\<lambda>slot.
            if slot = SLOT_NONE then retc 0 else readc (GetAllocatedAddress slot))) p)"
    by (rule keepsI) (auto intro!: keeps_snd keeps_intros b l)
  show ?thesis
    unfolding AlignedAllocate_def by (intro keeps_guard keeps_intros t a) simp
qed

definition sample_reporter :: caller where
  "sample_reporter = \<lparr>gettid = 8, self_name = ''main'', call_stack = []\<rparr>"

lemma lent_pool_issue: "gLastIssueType lent_pool = UNKNOWN"
  using keepsD [OF keeps_issue lent_pool_live(1)] by (simp add: prepared_pool_def Prepare_def Let_def sample_pool_def)

text \<open>
  C17: A write into a block after its release, before its slot is lent again, faults, and the handler, when no issue was found before and
  its report thread runs, reports a use after free at that address, with the size of the block, the thread and the stack that
  released it and the stack of the access; the process does not go on.
\<close>

theorem use_after_free_reported:
  assumes "alloc_inv os p" "all_granted os" "live p a = Some n" "gLastIssueType p = UNKNOWN"
    and "unat a \<le> unat b" "unat b < unat a + unat n"
  shows "\<exists>q r af. Free os who a p = (Ret True, q) \<and> touch b (pages q) = Segv \<and>
    SegvSignalHandler os acc (Some reporter) prev True b q = Ret (Some r, af) \<and> af \<noteq> Resume \<and> issue r = USE_AFTER_FREE \<and> bufferSize r = n \<and>
    accessing_addr r = b \<and> accessingStackTrace r = UnwindStack acc \<and> freeInfo r = Some ((gettid who, self_name who), UnwindStack who)"
proof -
  have inv: "pool_inv os p" "length (sMetas p) = slots p" using assms(1) by (simp_all add: alloc_inv_def pool_inv_def books_def)
  from live_slotE [OF inv(1) assms(3)] obtain i where i: "i < slots p" "borrowed p i" "allocatedStart (sMetas p ! i) = a"
    "allocatedSize (sMetas p ! i) = n" "GetSlotIdOfAddress a p = Ret (int i)" .
  let ?q = "retire os who i p"
  have b: "in_slot p i b" using live_in_slot [OF inv(1) assms(3, 5, 6) i(5)] .
  have q: "pool_inv os ?q" "slots ?q = slots p" using retire_inv [OF inv(1) i(1, 2)] by (simp_all add: retire_metas)
  have "in_slot ?q i b" using b by (simp add: retire_def in_slot_def)
  note near = nearest_in_slot [of os ?q i b, OF _ _ this]
  have "layout os ?q" using q(1) by (simp add: pool_inv_def)
  with near q i(1) have "GetNearestSlotID os b ?q = Ret (int i)" "GetSlotIdOfAddress b ?q = Ret (int i)" by simp_all
  from handler_slot [OF q(1) _ this, of acc reporter prev] q(2) i(1) obtain r af where
    r: "SegvSignalHandler os acc (Some reporter) prev True b ?q = Ret (Some r, af)" "af \<noteq> Resume"
      "accessing_addr r = b" "accessingStackTrace r = UnwindStack acc"
      "issue r = issue_of (gLastIssueType ?q) b (allocatedStart (sMetas ?q ! i)) (borrowed ?q i)" "bufferSize r = allocatedSize (sMetas ?q ! i)"
      "freeInfo r = (if issue r = DOUBLE_FREE \<or> issue r = USE_AFTER_FREE
        then Some ((returnThreadId (sMetas ?q ! i), returnThreadName (sMetas ?q ! i)), stackTraceOnReturn (sMetas ?q ! i)) else None)"
    by auto
  have m: "\<not> borrowed ?q i" "allocatedSize (sMetas ?q ! i) = n" "returnThreadId (sMetas ?q ! i) = gettid who"
    "returnThreadName (sMetas ?q ! i) = self_name who" "stackTraceOnReturn (sMetas ?q ! i) = UnwindStack who" "gLastIssueType ?q = UNKNOWN"
    using i inv(2) assms(4) by (simp_all add: retire_meta)
  have "issue r = USE_AFTER_FREE" using r(5) m by (simp add: issue_of_def)
  moreover have "touch b (pages ?q) = Segv" using retire_sealed [OF b] by (simp add: touch_def)
  ultimately show ?thesis using Free_slot(1) [OF assms(1, 2) i(5, 1, 2)] r m by auto
qed

theorem use_after_free_reported_witness:
  "\<exists>q r af. Free sample_os sample_caller lent_address lent_pool = (Ret True, q) \<and>
    SegvSignalHandler sample_os sample_caller (Some sample_reporter) PrevDefault True lent_address q = Ret (Some r, af) \<and> issue r = USE_AFTER_FREE \<and>
    freeInfo r = Some ((7, ''main''), [4096, 8192])"
proof -
  have "gLastIssueType lent_pool = UNKNOWN" by (rule lent_pool_issue)
  from use_after_free_reported [OF lent_pool_live(2) sample_granted _ this, of lent_address 100 lent_address sample_caller sample_caller sample_reporter PrevDefault]
  show ?thesis by (auto simp: lent_pool_live(3) sample_caller_def UnwindStack_def MAX_RECORDED_STACKFRAME_COUNT_def)
qed

text \<open>
  C16: The second release of a block faults at the first byte of the guard page behind its slot, and the report that the handler
  makes of that very fault, at the address the kernel gives it, is a double free of this block, with its size, the thread and the
  stack of the first release and the stack of the second one; the process does not go on.
\<close>

theorem double_free_reported:
  assumes "alloc_inv os p" "all_granted os" "live p a = Some n"
  shows "\<exists>q s i b r af. Free os who a p = (Ret True, q) \<and> Free os who' a q = (Segv, s) \<and> fault_addr s = Some b \<and>
    GetSlotIdOfAddress a p = Ret (int i) \<and> GetGuardedPageStart (int i) s = Ret (b - GetSlotSize s) \<and> touch b (pages s) = Segv \<and>
    SegvSignalHandler os who' (Some reporter) prev True b s = Ret (Some r, af) \<and> af \<noteq> Resume \<and> issue r = DOUBLE_FREE \<and> bufferSize r = n \<and>
    accessing_addr r = b \<and> accessingStackTrace r = UnwindStack who' \<and> freeInfo r = Some ((gettid who, self_name who), UnwindStack who)"
proof -
  have inv: "pool_inv os p" "length (sMetas p) = slots p" using assms(1) by (simp_all add: alloc_inv_def pool_inv_def books_def)
  from live_slotE [OF inv(1) assms(3)] obtain i where i: "i < slots p" "borrowed p i" "allocatedStart (sMetas p ! i) = a"
    "allocatedSize (sMetas p ! i) = n" "GetSlotIdOfAddress a p = Ret (int i)" .
  let ?q = "retire os who i p"
  let ?b = "behind ?q i"
  let ?s = "?q\<lparr>isCallingFree := True, gLastIssueType := DOUBLE_FREE, fault_addr := Some ?b\<rparr>"
  have q: "alloc_inv os ?q" using retire_alloc_inv [OF assms(1) i(1, 2)] .
  have s: "pool_inv os ?s" "slots ?s = slots p" "i < slots ?s" "layout os ?s"
    using q i(1) by (simp_all add: alloc_inv_def retire_metas pool_inv_def [of os ?q])
  have b: "unat ?b = slot_start ?s i + unat (sSlotSize ?s) + 0" using behind_slot(2) [OF s(4, 3)] by (simp add: behind_def)
  have "0 < unat (sGuardPageSize ?s)" by (rule guard_pos [OF s(4)])
  note near = nearest_in_guard [OF s(4, 3) b this]
  from handler_slot [OF s(1, 3) _ near(2), of who' reporter prev] near(1) obtain r af where
    r: "SegvSignalHandler os who' (Some reporter) prev True ?b ?s = Ret (Some r, af)" "af \<noteq> Resume"
      "accessing_addr r = ?b" "accessingStackTrace r = UnwindStack who'"
      "issue r = issue_of (gLastIssueType ?s) ?b (allocatedStart (sMetas ?s ! i)) (borrowed ?s i)" "bufferSize r = allocatedSize (sMetas ?s ! i)"
      "freeInfo r = (if issue r = DOUBLE_FREE \<or> issue r = USE_AFTER_FREE
        then Some ((returnThreadId (sMetas ?s ! i), returnThreadName (sMetas ?s ! i)), stackTraceOnReturn (sMetas ?s ! i)) else None)"
    by auto
  have "issue r = DOUBLE_FREE" using r(5) by (simp add: issue_of_def)
  moreover have "Free os who' a ?q = (Segv, ?s)"
    using i inv(2) q by (intro Free_slot(2) [OF _ assms(2), of ?q a i]) (simp_all add: retire_slot_id retire_metas)
  moreover have "fault_addr ?s = Some ?b" by simp
  moreover have "GetGuardedPageStart (int i) ?s = Ret (?b - GetSlotSize ?s)"
    using GetGuardedPageStart_eq(1) [OF s(4, 3)] by (simp add: behind_def GetSlotSize_def)
  moreover have "touch ?b (pages ?s) = Segv" using touch_guard [OF s(1) behind_slot(1) [OF s(4, 3)]] by (simp add: behind_def)
  moreover have "freeInfo r = Some ((gettid who, self_name who), UnwindStack who)" "bufferSize r = n"
    using r(6, 7) \<open>issue r = DOUBLE_FREE\<close> i inv(2) by (simp_all add: retire_meta)
  ultimately show ?thesis using Free_slot(1) [OF assms(1, 2) i(5, 1, 2)] i(5) r(1-4) by blast
qed

theorem double_free_reported_witness:
  "\<exists>q s b r af. Free sample_os sample_caller lent_address lent_pool = (Ret True, q) \<and> Free sample_os sample_caller lent_address q = (Segv, s) \<and>
    fault_addr s = Some b \<and>
    SegvSignalHandler sample_os sample_caller (Some sample_reporter) PrevDefault True b s = Ret (Some r, af) \<and> issue r = DOUBLE_FREE \<and> bufferSize r = 100"
proof -
  have "live lent_pool lent_address = Some 100" by (simp add: lent_pool_live(3))
  from double_free_reported [OF lent_pool_live(2) sample_granted this, of sample_caller sample_caller sample_reporter PrevDefault] show ?thesis by blast
qed

text \<open>The page before a slot: the first guard page, or the one behind the slot before it.\<close>

lemma nearest_before:
  assumes "layout os p" "i < slots p" "unat b + d = slot_start p i" "0 < d" "d \<le> unat (sGuardPageSize p)" "i = 0 \<or> 2 * d < unat (sGuardPageSize p)"
  shows "GetNearestSlotID os b p = Ret (int i) \<and> (\<exists>j. GetSlotIdOfAddress b p = Ret (int j))"
proof (cases i)
  case 0
  then have "unat (sSlotAreaStart p) \<le> unat b" "unat b < slot_start p 0" using assms(3-5) by (auto simp: slot_start_def)
  from nearest_first_guard [OF assms(1) this] 0 show ?thesis by (intro conjI exI [of _ 0]) simp_all
next
  case (Suc j)
  let ?d = "unat (sGuardPageSize p) - d"
  have "unat b = slot_start p j + unat (sSlotSize p) + ?d" using assms(3, 5) Suc by (simp add: slot_start_Suc unit_size_def)
  moreover have "j < slots p" "?d < unat (sGuardPageSize p)" "2 * ?d > unat (sGuardPageSize p)" using assms(2, 4-6) Suc by auto
  ultimately show ?thesis using nearest_in_guard [OF assms(1), of j b ?d] Suc assms(2) by auto
qed

lemma beside_block:
  assumes "alloc_inv os p" "gLastIssueType p = UNKNOWN" "live p a = Some n" "0 < n" "GetSlotIdOfAddress a p = Ret (int i)"
  shows "unat b = slot_start p i + unat (sSlotSize p) + d \<Longrightarrow> 2 * d \<le> unat (sGuardPageSize p) \<Longrightarrow>
      touch b (pages p) = Segv \<and> (\<exists>r af. SegvSignalHandler os acc (Some reporter) prev True b p = Ret (Some r, af) \<and> af \<noteq> Resume \<and>
        issue r = OVERFLOW \<and> bufferSize r = n \<and> overlappedRelOffset r = Some (b - (a + n)))"
    and "unat c + e = slot_start p i \<Longrightarrow> 0 < e \<Longrightarrow> e \<le> unat (sGuardPageSize p) \<Longrightarrow> i = 0 \<or> 2 * e < unat (sGuardPageSize p) \<Longrightarrow>
      touch c (pages p) = Segv \<and> (\<exists>r af. SegvSignalHandler os acc (Some reporter) prev True c p = Ret (Some r, af) \<and> af \<noteq> Resume \<and>
        issue r = UNDERFLOW \<and> bufferSize r = n \<and> overlappedRelOffset r = Some (a - c - n) \<and> overlappedRelOffset r \<noteq> Some (a - c))"
proof -
  have inv: "pool_inv os p" "layout os p" using assms(1) by (simp_all add: alloc_inv_def pool_inv_def)
  from live_slotE [OF inv(1) assms(3)] obtain j where j: "j < slots p" "borrowed p j" "allocatedStart (sMetas p ! j) = a"
    "allocatedSize (sMetas p ! j) = n" "GetSlotIdOfAddress a p = Ret (int j)" .
  then have i: "i < slots p" "borrowed p i" "allocatedStart (sMetas p ! i) = a" "allocatedSize (sMetas p ! i) = n" using assms(5) by simp_all
  then have "placed p i" using inv(1) by (simp add: pool_inv_def)
  then have a: "slot_start p i \<le> unat a" "unat a + unat n \<le> slot_start p i + unat (sSlotSize p)" using i by (auto simp: placed_def)
  have g: "0 < unat (sGuardPageSize p)" by (rule guard_pos [OF inv(2)])
  have nz: "a \<noteq> 0" using a(1) g by (auto simp: slot_start_def)
  have n: "0 < unat n" using assms(4) by (simp add: word_less_nat_alt)
  show "touch b (pages p) = Segv \<and> (\<exists>r af. SegvSignalHandler os acc (Some reporter) prev True b p = Ret (Some r, af) \<and> af \<noteq> Resume \<and>
        issue r = OVERFLOW \<and> bufferSize r = n \<and> overlappedRelOffset r = Some (b - (a + n)))"
    if b: "unat b = slot_start p i + unat (sSlotSize p) + d" "2 * d \<le> unat (sGuardPageSize p)"
  proof -
    have d: "d < unat (sGuardPageSize p)" using b(2) g by auto
    have "\<not> b \<le> a" using b(1) a(2) n by (simp add: word_le_nat_alt)
    then have ty: "issue_of UNKNOWN b a True = OVERFLOW" using nz by (simp add: issue_of_def)
    have "touch b (pages p) = Segv"
      using b d by (intro touch_guard [OF inv(1)] guard_around(2) [OF inv(2) i(1)]) (simp_all add: unit_size_def)
    moreover have "GetNearestSlotID os b p = Ret (int i)" "GetSlotIdOfAddress b p = Ret (int i)"
      using nearest_in_guard [OF inv(2) i(1) b(1) d] b(2) by simp_all
    from handler_slot [OF inv(1) i(1) this, of acc reporter prev] have "\<exists>r af. SegvSignalHandler os acc (Some reporter) prev True b p = Ret (Some r, af) \<and>
        af \<noteq> Resume \<and> issue r = OVERFLOW \<and> bufferSize r = n \<and> overlappedRelOffset r = Some (b - (a + n))"
      using i(2-4) assms(2) ty by (auto simp: issue_offset_def diff_diff_eq)
    ultimately show ?thesis by blast
  qed
  show "touch c (pages p) = Segv \<and> (\<exists>r af. SegvSignalHandler os acc (Some reporter) prev True c p = Ret (Some r, af) \<and> af \<noteq> Resume \<and>
        issue r = UNDERFLOW \<and> bufferSize r = n \<and> overlappedRelOffset r = Some (a - c - n) \<and> overlappedRelOffset r \<noteq> Some (a - c))"
    if c: "unat c + e = slot_start p i" "0 < e" "e \<le> unat (sGuardPageSize p)" "i = 0 \<or> 2 * e < unat (sGuardPageSize p)"
  proof -
    have "c \<le> a" using c(1) a(1) by (simp add: word_le_nat_alt)
    then have ty: "issue_of UNKNOWN c a True = UNDERFLOW" using nz by (simp add: issue_of_def)
    have "touch c (pages p) = Segv"
      using c by (intro touch_guard [OF inv(1)] guard_around(1) [OF inv(2) i(1)]) simp_all
    moreover obtain k where "GetNearestSlotID os c p = Ret (int i)" "GetSlotIdOfAddress c p = Ret (int k)"
      using nearest_before [OF inv(2) i(1) c] by blast
    from handler_slot [OF inv(1) i(1) this, of acc reporter prev] have "\<exists>r af. SegvSignalHandler os acc (Some reporter) prev True c p = Ret (Some r, af) \<and>
        af \<noteq> Resume \<and> issue r = UNDERFLOW \<and> bufferSize r = n \<and> overlappedRelOffset r = Some (a - c - n)"
      using i(2-4) assms(2) ty by (auto simp: issue_offset_def)
    moreover have "a - c - n \<noteq> a - c" using assms(4) by auto
    ultimately show ?thesis by auto
  qed
qed

text \<open>
  C18: Accesses beside a live block that fault are told apart. In the first half of the guard page behind its slot the report is
  an overflow of this block, with the distance from its end; in the second half of the page before the slot, and anywhere in
  it for the first slot, it is an underflow of this block. The distance printed for an underflow is
  the distance from its start less the size of the block, which is wrong for every block that is not empty.
\<close>

theorem out_of_bounds_reported:
  assumes "alloc_inv os p" "gLastIssueType p = UNKNOWN" "live p a = Some n" "0 < n" "GetSlotIdOfAddress a p = Ret (int i)"
  shows "(\<forall>b d. unat b = slot_start p i + unat (sSlotSize p) + d \<longrightarrow> 2 * d \<le> unat (sGuardPageSize p) \<longrightarrow>
      touch b (pages p) = Segv \<and> (\<exists>r af. SegvSignalHandler os acc (Some reporter) prev True b p = Ret (Some r, af) \<and> af \<noteq> Resume \<and>
        issue r = OVERFLOW \<and> bufferSize r = n \<and> overlappedRelOffset r = Some (b - (a + n)))) \<and>
    (\<forall>c e. unat c + e = slot_start p i \<longrightarrow> 0 < e \<longrightarrow> e \<le> unat (sGuardPageSize p) \<longrightarrow> (i = 0 \<or> 2 * e < unat (sGuardPageSize p)) \<longrightarrow>
      touch c (pages p) = Segv \<and> (\<exists>r af. SegvSignalHandler os acc (Some reporter) prev True c p = Ret (Some r, af) \<and> af \<noteq> Resume \<and>
        issue r = UNDERFLOW \<and> bufferSize r = n \<and> overlappedRelOffset r = Some (a - c - n) \<and> overlappedRelOffset r \<noteq> Some (a - c)))"
  using beside_block [OF assms] by blast

theorem out_of_bounds_reported_witness:
  "\<exists>i b c r s af ag. GetSlotIdOfAddress lent_address lent_pool = Ret (int i) \<and>
    SegvSignalHandler sample_os sample_caller (Some sample_reporter) PrevDefault True b lent_pool = Ret (Some r, af) \<and> issue r = OVERFLOW \<and>
    SegvSignalHandler sample_os sample_caller (Some sample_reporter) PrevDefault True c lent_pool = Ret (Some s, ag) \<and> issue s = UNDERFLOW"
proof -
  have inv: "pool_inv sample_os lent_pool" "layout sample_os lent_pool" using lent_pool_live(2) by (simp_all add: alloc_inv_def pool_inv_def)
  have l: "live lent_pool lent_address = Some 100" by (simp add: lent_pool_live(3))
  from live_slotE [OF inv(1) l] obtain i where i: "i < slots lent_pool" "GetSlotIdOfAddress lent_address lent_pool = Ret (int i)" .
  have g: "0 < unat (sGuardPageSize lent_pool)" "2 * 1 < unat (sGuardPageSize lent_pool)"
    using guard_pos [OF inv(2)] inv(2) by (simp_all add: layout_def sample_os_def)
  define b c where "b = of_nat (slot_start lent_pool i) + sSlotSize lent_pool" and "c = (of_nat (slot_start lent_pool i - 1) :: u64)"
  have b: "unat b = slot_start lent_pool i + unat (sSlotSize lent_pool) + 0" using behind_slot(2) [OF inv(2) i(1)] by (simp add: b_def)
  have "slot_start lent_pool i < 2 ^ 64" "0 < slot_start lent_pool i" using slot_start_less [OF inv(2), of i] i(1) g(1) by (auto simp: slot_start_def)
  then have c: "unat c + 1 = slot_start lent_pool i" unfolding c_def by (simp only: unat_of_nat) simp
  have "0 < (100 :: u64)" by simp
  note w = out_of_bounds_reported [OF lent_pool_live(2) lent_pool_issue l this i(2), of sample_caller sample_reporter PrevDefault]
  have "2 * 0 \<le> unat (sGuardPageSize lent_pool)" "0 < (1 :: nat)" "1 \<le> unat (sGuardPageSize lent_pool)" using g by simp_all
  note small = this g(2)
  from w b small(1) obtain r af where
    "SegvSignalHandler sample_os sample_caller (Some sample_reporter) PrevDefault True b lent_pool = Ret (Some r, af)" "issue r = OVERFLOW" by blast
  moreover from w [THEN conjunct2, rule_format, OF c small(2, 3) disjI2 [OF small(4)]] obtain s ag where
    "SegvSignalHandler sample_os sample_caller (Some sample_reporter) PrevDefault True c lent_pool = Ret (Some s, ag)" "issue s = UNDERFLOW" by blast
  ultimately show ?thesis using i(2) by blast
qed

end
