(* ===== verification/MgIntercept.thy ===== *)
theory MgIntercept
  imports MgHeap
begin

text \<open>
  \<open>memguard/util/Interception.cpp\<close>: the functions that take the place of \<open>malloc\<close>, \<open>free\<close>, \<open>operator new\<close> and the
  others. The functions they replace are the system's and an argument of every handler.
\<close>

section \<open>The process\<close>

text \<open>The pool with the protection of all memory, its bytes, \<open>errno\<close>, and whatever the system keeps for its own allocator.\<close>

record 'h process =
  guarded :: pool
  bytes :: "u64 \<Rightarrow> u8"
  errno :: int
  system :: 'h

definition ENOMEM :: int where "ENOMEM = 12"
definition EINVAL :: int where "EINVAL = 22"
definition DEFAULT_PTR_ALIGN :: u64 where "DEFAULT_PTR_ALIGN = 16"

text \<open>The functions that were replaced.\<close>

record 'h originals =
  orig_malloc :: "u64 \<Rightarrow> ('h process, u64) cmd"
  orig_calloc :: "u64 \<Rightarrow> u64 \<Rightarrow> ('h process, u64) cmd"
  orig_realloc :: "u64 \<Rightarrow> u64 \<Rightarrow> ('h process, u64) cmd"
  orig_memalign :: "u64 \<Rightarrow> u64 \<Rightarrow> ('h process, u64) cmd"
  orig_posix_memalign :: "u64 \<Rightarrow> u64 \<Rightarrow> u64 \<Rightarrow> ('h process, int) cmd"
  orig_strdup :: "u64 \<Rightarrow> ('h process, u64) cmd"
  orig_strndup :: "u64 \<Rightarrow> u64 \<Rightarrow> ('h process, u64) cmd"
  orig_malloc_usable_size :: "u64 \<Rightarrow> ('h process, u64) cmd"
  orig_free :: "u64 \<Rightarrow> ('h process, unit) cmd"
  orig_SYM_NEW :: "u64 \<Rightarrow> ('h process, u64) cmd"
  orig_SYM_NEW_NOTHROW :: "u64 \<Rightarrow> ('h process, u64) cmd"
  orig_SYM_NEW_ALIGNED :: "u64 \<Rightarrow> u64 \<Rightarrow> ('h process, u64) cmd"
  orig_SYM_NEW_ALIGNED_NOTHROW :: "u64 \<Rightarrow> u64 \<Rightarrow> ('h process, u64) cmd"
  orig_SYM_NEW_ARR :: "u64 \<Rightarrow> ('h process, u64) cmd"
  orig_SYM_NEW_ARR_NOTHROW :: "u64 \<Rightarrow> ('h process, u64) cmd"
  orig_SYM_NEW_ARR_ALIGNED :: "u64 \<Rightarrow> u64 \<Rightarrow> ('h process, u64) cmd"
  orig_SYM_NEW_ARR_ALIGNED_NOTHROW :: "u64 \<Rightarrow> u64 \<Rightarrow> ('h process, u64) cmd"
  orig_SYM_DELETE :: "u64 \<Rightarrow> ('h process, unit) cmd"
  orig_SYM_DELETE_NOTHROW :: "u64 \<Rightarrow> ('h process, unit) cmd"
  orig_SYM_DELETE_ALIGNED :: "u64 \<Rightarrow> u64 \<Rightarrow> ('h process, unit) cmd"
  orig_SYM_DELETE_ALIGNED_NOTHROW :: "u64 \<Rightarrow> u64 \<Rightarrow> ('h process, unit) cmd"
  orig_SYM_DELETE_SIZE :: "u64 \<Rightarrow> u32 \<Rightarrow> ('h process, unit) cmd"
  orig_SYM_DELETE_SIZE_ALIGNED :: "u64 \<Rightarrow> u32 \<Rightarrow> u64 \<Rightarrow> ('h process, unit) cmd"
  orig_SYM_DELETE_ARR :: "u64 \<Rightarrow> ('h process, unit) cmd"
  orig_SYM_DELETE_ARR_NOTHROW :: "u64 \<Rightarrow> ('h process, unit) cmd"
  orig_SYM_DELETE_ARR_ALIGNED :: "u64 \<Rightarrow> u64 \<Rightarrow> ('h process, unit) cmd"
  orig_SYM_DELETE_ARR_ALIGNED_NOTHROW :: "u64 \<Rightarrow> u64 \<Rightarrow> ('h process, unit) cmd"
  orig_SYM_DELETE_ARR_SIZE :: "u64 \<Rightarrow> u32 \<Rightarrow> ('h process, unit) cmd"
  orig_SYM_DELETE_ARR_SIZE_ALIGNED :: "u64 \<Rightarrow> u32 \<Rightarrow> u64 \<Rightarrow> ('h process, unit) cmd"

text \<open>An operation of the pool in the process.\<close>

definition on_pool :: "(pool, 'a) cmd \<Rightarrow> ('h process, 'a) cmd" where
  "on_pool m = (\<lambda>s. case m (guarded s) of (r, p) \<Rightarrow> (r, s\<lparr>guarded := p\<rparr>))"

section \<open>Memory\<close>

definition readable :: "'h process \<Rightarrow> mem" where
  "readable s = (\<lambda>a. case pages (guarded s) a of Some ReadWrite \<Rightarrow> Some (bytes s a) | Some ReadOnly \<Rightarrow> Some (bytes s a) | _ \<Rightarrow> None)"

definition store8 :: "u64 \<Rightarrow> u8 \<Rightarrow> ('h process, unit) cmd" where
  "store8 a b = (\<lambda>s. if pages (guarded s) a = Some ReadWrite then (Ret (), s\<lparr>bytes := (bytes s)(a := b)\<rparr>) else (Segv, s))"

fun store_bytes :: "u64 \<Rightarrow> u8 list \<Rightarrow> ('h process, unit) cmd" where
  "store_bytes a [] = retc ()"
| "store_bytes a (b # bs) = bindc (store8 a b) (\<lambda>_. store_bytes (a + 1) bs)"

definition memset :: "u64 \<Rightarrow> u8 \<Rightarrow> nat \<Rightarrow> ('h process, unit) cmd" where
  "memset a b n = store_bytes a (replicate n b)"

definition memcpy :: "u64 \<Rightarrow> u64 \<Rightarrow> nat \<Rightarrow> ('h process, unit) cmd" where
  "memcpy dst src n = bindc (readc (\<lambda>s. ldbytes (readable s) src n)) (store_bytes dst)"

text \<open>The search for the end of a string. With no zero byte in all of memory it goes round for ever.\<close>

fun strlen_upto :: "nat \<Rightarrow> mem \<Rightarrow> u64 \<Rightarrow> nat run" where
  "strlen_upto 0 m a = Hang"
| "strlen_upto (Suc k) m a = bindr (ld8 m a) (\<lambda>b. if b = 0 then Ret 0 else bindr (strlen_upto k m (a + 1)) (\<lambda>n. Ret (Suc n)))"

definition strlen :: "mem \<Rightarrow> u64 \<Rightarrow> nat run" where
  "strlen m a = strlen_upto (2 ^ 64) m a"

section \<open>The handlers of C\<close>

definition HandleMAlloc :: "'h originals \<Rightarrow> guard_os \<Rightarrow> caller \<Rightarrow> u64 \<Rightarrow> ('h process, u64) cmd" where
  "HandleMAlloc orig os who sz =
     bindc (on_pool (Allocate os who sz)) (\<lambda>res. if res = 0 then orig_malloc orig sz else retc res)"

definition HandleCAlloc :: "'h originals \<Rightarrow> guard_os \<Rightarrow> caller \<Rightarrow> u64 \<Rightarrow> u64 \<Rightarrow> ('h process, u64) cmd" where
  "HandleCAlloc orig os who elem_count elem_size =
     bindc (on_pool (Allocate os who (elem_count * elem_size))) (\<lambda>res.
     if res = 0 then orig_calloc orig elem_count elem_size
     else bindc (memset res 0 (unat (elem_count * elem_size))) (\<lambda>_. retc res))"

definition HandleFree :: "'h originals \<Rightarrow> guard_os \<Rightarrow> caller \<Rightarrow> u64 \<Rightarrow> ('h process, unit) cmd" where
  "HandleFree orig os who ptr =
     bindc (on_pool (Free os who ptr)) (\<lambda>done. if \<not> done then orig_free orig ptr else retc ())"

definition HandleReAlloc :: "'h originals \<Rightarrow> guard_os \<Rightarrow> caller \<Rightarrow> u64 \<Rightarrow> u64 \<Rightarrow> ('h process, u64) cmd" where
  "HandleReAlloc orig os who ptr sz =
     (if ptr = 0 then HandleMAlloc orig os who sz
      else if sz = 0 then bindc (HandleFree orig os who ptr) (\<lambda>_. retc ptr)
      else
        bindc (readc (\<lambda>s. IsAllocatedByThisAllocator ptr (guarded s))) (\<lambda>own.
        if \<not> own then orig_realloc orig ptr sz
        else
          bindc (HandleMAlloc orig os who sz) (\<lambda>newPtr.
          if newPtr = 0 then bindc (updc (\<lambda>s. s\<lparr>errno := ENOMEM\<rparr>)) (\<lambda>_. retc 0)
          else
            bindc (readc (\<lambda>s. GetAllocatedSize ptr (guarded s))) (\<lambda>oldSize.
            bindc (memcpy newPtr ptr (unat (if oldSize \<le> sz then oldSize else sz))) (\<lambda>_.
            bindc (on_pool (Free os who ptr)) (\<lambda>_. retc newPtr))))))"

definition HandleMemAlign :: "'h originals \<Rightarrow> guard_os \<Rightarrow> caller \<Rightarrow> u64 \<Rightarrow> u64 \<Rightarrow> ('h process, u64) cmd" where
  "HandleMemAlign orig os who alignment byte_count =
     (if \<not> IsPowOf2 alignment then bindc (updc (\<lambda>s. s\<lparr>errno := EINVAL\<rparr>)) (\<lambda>_. retc 0)
      else bindc (on_pool (AlignedAllocate os who byte_count alignment)) (\<lambda>res.
        if res \<noteq> 0 then retc res else orig_memalign orig alignment byte_count))"

text \<open>The block is stored where \<open>ptr\<close> points to.\<close>

definition HandlePosixMemAlign :: "'h originals \<Rightarrow> guard_os \<Rightarrow> caller \<Rightarrow> u64 \<Rightarrow> u64 \<Rightarrow> u64 \<Rightarrow> ('h process, int) cmd" where
  "HandlePosixMemAlign orig os who ptr alignment sz =
     (if alignment AND 7 \<noteq> 0 then retc EINVAL
      else bindc (on_pool (AlignedAllocate os who sz alignment)) (\<lambda>res.
        if res \<noteq> 0 then bindc (store_bytes ptr (bytes64 res)) (\<lambda>_. retc 0)
        else orig_posix_memalign orig ptr alignment sz))"

definition HandleAlignedAlloc :: "'h originals \<Rightarrow> guard_os \<Rightarrow> caller \<Rightarrow> u64 \<Rightarrow> u64 \<Rightarrow> ('h process, u64) cmd" where
  "HandleAlignedAlloc orig os who alignment sz =
     (if alignment = 0 then readc (\<lambda>_. Undef)
      else if sz mod alignment \<noteq> 0 then bindc (updc (\<lambda>s. s\<lparr>errno := EINVAL\<rparr>)) (\<lambda>_. retc 0)
      else HandleMemAlign orig os who alignment sz)"

definition HandleStrDup :: "'h originals \<Rightarrow> guard_os \<Rightarrow> caller \<Rightarrow> u64 \<Rightarrow> ('h process, u64) cmd" where
  "HandleStrDup orig os who str =
     bindc (readc (\<lambda>s. strlen (readable s) str)) (\<lambda>len.
     bindc (on_pool (Allocate os who (of_nat len + 1))) (\<lambda>buf.
     if buf \<noteq> 0 then bindc (memcpy buf str (len + 1)) (\<lambda>_. retc buf) else orig_strdup orig str))"

definition HandleStrNDup :: "'h originals \<Rightarrow> guard_os \<Rightarrow> caller \<Rightarrow> u64 \<Rightarrow> u64 \<Rightarrow> ('h process, u64) cmd" where
  "HandleStrNDup orig os who str n =
     bindc (readc (\<lambda>s. strlen (readable s) str)) (\<lambda>len.
     let dupLen = (if unat n \<le> len then unat n else len) in
     bindc (on_pool (Allocate os who (of_nat dupLen + 1))) (\<lambda>buf.
     if buf \<noteq> 0 then bindc (memcpy buf str dupLen) (\<lambda>_. bindc (store8 (buf + of_nat dupLen) 0) (\<lambda>_. retc buf))
     else orig_strndup orig str n))"

definition HandleMAllocUsableSize :: "'h originals \<Rightarrow> u64 \<Rightarrow> ('h process, u64) cmd" where
  "HandleMAllocUsableSize orig ptr =
     bindc (readc (\<lambda>s. IsAllocatedByThisAllocator ptr (guarded s))) (\<lambda>own.
     if own then readc (\<lambda>s. GetAllocatedSize ptr (guarded s)) else orig_malloc_usable_size orig ptr)"

section \<open>The handlers of C++\<close>

definition HandleNew :: "'h originals \<Rightarrow> guard_os \<Rightarrow> caller \<Rightarrow> u64 \<Rightarrow> ('h process, u64) cmd" where
  "HandleNew orig os who sz =
     bindc (on_pool (AlignedAllocate os who sz DEFAULT_PTR_ALIGN)) (\<lambda>result. if result \<noteq> 0 then retc result else orig_SYM_NEW orig sz)"

definition HandleNewNoThrow :: "'h originals \<Rightarrow> guard_os \<Rightarrow> caller \<Rightarrow> u64 \<Rightarrow> ('h process, u64) cmd" where
  "HandleNewNoThrow orig os who sz =
     bindc (on_pool (AlignedAllocate os who sz DEFAULT_PTR_ALIGN)) (\<lambda>result. if result \<noteq> 0 then retc result else orig_SYM_NEW_NOTHROW orig sz)"

definition HandleNewAligned :: "'h originals \<Rightarrow> guard_os \<Rightarrow> caller \<Rightarrow> u64 \<Rightarrow> u64 \<Rightarrow> ('h process, u64) cmd" where
  "HandleNewAligned orig os who sz align =
     bindc (on_pool (AlignedAllocate os who sz align)) (\<lambda>result. if result \<noteq> 0 then retc result else orig_SYM_NEW_ALIGNED orig sz align)"

definition HandleNewAlignedNoThrow :: "'h originals \<Rightarrow> guard_os \<Rightarrow> caller \<Rightarrow> u64 \<Rightarrow> u64 \<Rightarrow> ('h process, u64) cmd" where
  "HandleNewAlignedNoThrow orig os who sz align =
     bindc (on_pool (AlignedAllocate os who sz align)) (\<lambda>result. if result \<noteq> 0 then retc result else orig_SYM_NEW_ALIGNED_NOTHROW orig sz align)"

definition HandleNewArr :: "'h originals \<Rightarrow> guard_os \<Rightarrow> caller \<Rightarrow> u64 \<Rightarrow> ('h process, u64) cmd" where
  "HandleNewArr orig os who sz =
     bindc (on_pool (AlignedAllocate os who sz DEFAULT_PTR_ALIGN)) (\<lambda>result. if result \<noteq> 0 then retc result else orig_SYM_NEW_ARR orig sz)"

definition HandleNewArrNoThrow :: "'h originals \<Rightarrow> guard_os \<Rightarrow> caller \<Rightarrow> u64 \<Rightarrow> ('h process, u64) cmd" where
  "HandleNewArrNoThrow orig os who sz =
     bindc (on_pool (AlignedAllocate os who sz DEFAULT_PTR_ALIGN)) (\<lambda>result. if result \<noteq> 0 then retc result else orig_SYM_NEW_ARR_NOTHROW orig sz)"

definition HandleNewArrAligned :: "'h originals \<Rightarrow> guard_os \<Rightarrow> caller \<Rightarrow> u64 \<Rightarrow> u64 \<Rightarrow> ('h process, u64) cmd" where
  "HandleNewArrAligned orig os who sz align =
     bindc (on_pool (AlignedAllocate os who sz align)) (\<lambda>result. if result \<noteq> 0 then retc result else orig_SYM_NEW_ARR_ALIGNED orig sz align)"

definition HandleNewArrAlignedNoThrow :: "'h originals \<Rightarrow> guard_os \<Rightarrow> caller \<Rightarrow> u64 \<Rightarrow> u64 \<Rightarrow> ('h process, u64) cmd" where
  "HandleNewArrAlignedNoThrow orig os who sz align =
     bindc (on_pool (AlignedAllocate os who sz align)) (\<lambda>result. if result \<noteq> 0 then retc result else orig_SYM_NEW_ARR_ALIGNED_NOTHROW orig sz align)"

definition HandleDelete :: "'h originals \<Rightarrow> guard_os \<Rightarrow> caller \<Rightarrow> u64 \<Rightarrow> ('h process, unit) cmd" where
  "HandleDelete orig os who ptr =
     bindc (on_pool (Free os who ptr)) (\<lambda>done. if \<not> done then orig_SYM_DELETE orig ptr else retc ())"

definition HandleDeleteNoThrow :: "'h originals \<Rightarrow> guard_os \<Rightarrow> caller \<Rightarrow> u64 \<Rightarrow> ('h process, unit) cmd" where
  "HandleDeleteNoThrow orig os who ptr =
     bindc (on_pool (Free os who ptr)) (\<lambda>done. if \<not> done then orig_SYM_DELETE_NOTHROW orig ptr else retc ())"

definition HandleDeleteAligned :: "'h originals \<Rightarrow> guard_os \<Rightarrow> caller \<Rightarrow> u64 \<Rightarrow> u64 \<Rightarrow> ('h process, unit) cmd" where
  "HandleDeleteAligned orig os who ptr align =
     bindc (on_pool (Free os who ptr)) (\<lambda>done. if \<not> done then orig_SYM_DELETE_ALIGNED orig ptr align else retc ())"

definition HandleDeleteAlignedNoThrow :: "'h originals \<Rightarrow> guard_os \<Rightarrow> caller \<Rightarrow> u64 \<Rightarrow> u64 \<Rightarrow> ('h process, unit) cmd" where
  "HandleDeleteAlignedNoThrow orig os who ptr align =
     bindc (on_pool (Free os who ptr)) (\<lambda>done. if \<not> done then orig_SYM_DELETE_ALIGNED_NOTHROW orig ptr align else retc ())"

definition HandleDeleteSize :: "'h originals \<Rightarrow> guard_os \<Rightarrow> caller \<Rightarrow> u64 \<Rightarrow> u32 \<Rightarrow> ('h process, unit) cmd" where
  "HandleDeleteSize orig os who ptr sz =
     bindc (on_pool (Free os who ptr)) (\<lambda>done. if \<not> done then orig_SYM_DELETE_SIZE orig ptr sz else retc ())"

definition HandleDeleteSizeAligned :: "'h originals \<Rightarrow> guard_os \<Rightarrow> caller \<Rightarrow> u64 \<Rightarrow> u32 \<Rightarrow> u64 \<Rightarrow> ('h process, unit) cmd" where
  "HandleDeleteSizeAligned orig os who ptr sz align =
     bindc (on_pool (Free os who ptr)) (\<lambda>done. if \<not> done then orig_SYM_DELETE_SIZE_ALIGNED orig ptr sz align else retc ())"

definition HandleDeleteArr :: "'h originals \<Rightarrow> guard_os \<Rightarrow> caller \<Rightarrow> u64 \<Rightarrow> ('h process, unit) cmd" where
  "HandleDeleteArr orig os who ptr =
     bindc (on_pool (Free os who ptr)) (\<lambda>done. if \<not> done then orig_SYM_DELETE_ARR orig ptr else retc ())"

definition HandleDeleteArrNoThrow :: "'h originals \<Rightarrow> guard_os \<Rightarrow> caller \<Rightarrow> u64 \<Rightarrow> ('h process, unit) cmd" where
  "HandleDeleteArrNoThrow orig os who ptr =
     bindc (on_pool (Free os who ptr)) (\<lambda>done. if \<not> done then orig_SYM_DELETE_ARR_NOTHROW orig ptr else retc ())"

definition HandleDeleteArrAligned :: "'h originals \<Rightarrow> guard_os \<Rightarrow> caller \<Rightarrow> u64 \<Rightarrow> u64 \<Rightarrow> ('h process, unit) cmd" where
  "HandleDeleteArrAligned orig os who ptr align =
     bindc (on_pool (Free os who ptr)) (\<lambda>done. if \<not> done then orig_SYM_DELETE_ARR_ALIGNED orig ptr align else retc ())"

definition HandleDeleteArrAlignedNoThrow :: "'h originals \<Rightarrow> guard_os \<Rightarrow> caller \<Rightarrow> u64 \<Rightarrow> u64 \<Rightarrow> ('h process, unit) cmd" where
  "HandleDeleteArrAlignedNoThrow orig os who ptr align =
     bindc (on_pool (Free os who ptr)) (\<lambda>done. if \<not> done then orig_SYM_DELETE_ARR_ALIGNED_NOTHROW orig ptr align else retc ())"

definition HandleDeleteArrSize :: "'h originals \<Rightarrow> guard_os \<Rightarrow> caller \<Rightarrow> u64 \<Rightarrow> u32 \<Rightarrow> ('h process, unit) cmd" where
  "HandleDeleteArrSize orig os who ptr sz =
     bindc (on_pool (Free os who ptr)) (\<lambda>done. if \<not> done then orig_SYM_DELETE_ARR_SIZE orig ptr sz else retc ())"

definition HandleDeleteArrSizeAligned :: "'h originals \<Rightarrow> guard_os \<Rightarrow> caller \<Rightarrow> u64 \<Rightarrow> u32 \<Rightarrow> u64 \<Rightarrow> ('h process, unit) cmd" where
  "HandleDeleteArrSizeAligned orig os who ptr sz align =
     bindc (on_pool (Free os who ptr)) (\<lambda>done. if \<not> done then orig_SYM_DELETE_ARR_SIZE_ALIGNED orig ptr sz align else retc ())"

section \<open>Bytes\<close>

lemma on_pool_eq [simp]: "m (guarded s) = (r, p) \<Longrightarrow> on_pool m s = (r, s\<lparr>guarded := p\<rparr>)"
  by (simp add: on_pool_def)

lemma ldbytes_eq:
  "(\<And>k. k < n \<Longrightarrow> m (a + of_nat k) = Some (f k)) \<Longrightarrow> ldbytes m a n = Ret (map f [0..<n])"
proof (induction n arbitrary: a f)
  case (Suc n)
  have "ldbytes m (a + 1) n = Ret (map (\<lambda>k. f (Suc k)) [0..<n])"
  proof (rule Suc.IH)
    fix k
    assume "k < n"
    then show "m (a + 1 + of_nat k) = Some (f (Suc k))" using Suc.prems [of "Suc k"] by (simp add: add.assoc)
  qed
  moreover have "m a = Some (f 0)" using Suc.prems [of 0] by simp
  ultimately show ?case by (simp add: ld8_def map_upt_Suc del: upt_Suc)
qed simp

lemma store_bytes_eq:
  "(\<And>k. k < length bs \<Longrightarrow> pages (guarded s) (a + of_nat k) = Some ReadWrite) \<Longrightarrow> length bs \<le> 2 ^ 64 \<Longrightarrow>
     store_bytes a bs s = (Ret (), s\<lparr>bytes := (\<lambda>x. if unat (x - a) < length bs then bs ! unat (x - a) else bytes s x)\<rparr>)"
proof (induction bs arbitrary: a s)
  case (Cons b bs)
  let ?s = "s\<lparr>bytes := (bytes s)(a := b)\<rparr>"
  have "store8 a b s = (Ret (), ?s)" using Cons.prems(1) [of 0] by (simp add: store8_def)
  moreover have "store_bytes (a + 1) bs ?s = (Ret (), ?s\<lparr>bytes := (\<lambda>x. if unat (x - (a + 1)) < length bs then bs ! unat (x - (a + 1)) else bytes ?s x)\<rparr>)"
  proof (rule Cons.IH)
    fix k
    assume "k < length bs"
    then show "pages (guarded ?s) (a + 1 + of_nat k) = Some ReadWrite" using Cons.prems(1) [of "Suc k"] by (simp add: add.assoc)
  qed (use Cons.prems(2) in simp)
  moreover have "(if unat (x - (a + 1)) < length bs then bs ! unat (x - (a + 1)) else bytes ?s x) =
      (if unat (x - a) < length (b # bs) then (b # bs) ! unat (x - a) else bytes s x)" for x
  proof (cases "x = a")
    case True
    have "x - (a + 1) = - 1" using True by simp
    then have "unat (x - (a + 1)) = 2 ^ 64 - 1" by (simp add: unsigned_minus_1_eq_mask mask_eq_exp_minus_1)
    then show ?thesis using True Cons.prems(2) by simp
  next
    case False
    then have "x - a \<noteq> 0" by simp
    then have "unat (x - a - 1) = unat (x - a) - 1" "0 < unat (x - a)" by (simp_all add: unat_minus_one unat_gt_0)
    then have "unat (x - a) = Suc (unat (x - (a + 1)))" by (simp add: diff_diff_eq)
    then show ?thesis using False by simp
  qed
  ultimately show ?case by simp
qed simp

lemma block_addr: "unat a + n \<le> 2 ^ 64 \<Longrightarrow> k < n \<Longrightarrow> unat (a + of_nat k :: u64) = unat a + k"
proof -
  assume "unat a + n \<le> 2 ^ 64" "k < n"
  then have "unat a + k < 2 ^ 64" by simp
  moreover have "a + of_nat k = of_nat (unat a + k)" by simp
  ultimately show ?thesis by (simp only: unat_of_nat) simp
qed

section \<open>The system's allocator\<close>

text \<open>What the pool relies on: its area stays as it is.\<close>

definition keeps_area :: "'h process \<Rightarrow> 'h process \<Rightarrow> bool" where
  "keeps_area s t \<longleftrightarrow> (\<exists>pg. guarded t = (guarded s)\<lparr>pages := pg\<rparr> \<and> (\<forall>b. in_area (guarded s) b \<longrightarrow> pg b = pages (guarded s) b)) \<and>
     (\<forall>b. in_area (guarded s) b \<longrightarrow> bytes t b = bytes s b)"

text \<open>\<open>malloc\<close> returns, keeps the memory of others, and gives no block or a block of its own that can be written.\<close>

definition malloc_contract :: "'h originals \<Rightarrow> bool" where
  "malloc_contract orig \<longleftrightarrow> (\<forall>sz s. \<exists>a t. orig_malloc orig sz s = (Ret a, t) \<and> keeps_area s t \<and>
     (a \<noteq> 0 \<longrightarrow> (\<forall>k < unat sz. \<not> in_area (guarded s) (a + of_nat k) \<and> pages (guarded t) (a + of_nat k) = Some ReadWrite)))"

lemma pool_inv_pages:
  assumes "pool_inv os p" "\<forall>b. in_area p b \<longrightarrow> pg b = pages p b"
  shows "pool_inv os (p\<lparr>pages := pg\<rparr>)"
proof -
  have lay: "layout os p" using assms(1) by (simp add: pool_inv_def)
  have a: "in_area (p\<lparr>pages := pg\<rparr>) = in_area p" "in_slot (p\<lparr>pages := pg\<rparr>) = in_slot p" by (auto simp: in_area_def in_slot_def fun_eq_iff)
  have "placed (p\<lparr>pages := pg\<rparr>) i" if "placed p i" "i < slots p" for i
  proof -
    have "in_area p b" if "unat (allocatedStart (sMetas p ! i)) \<le> unat b"
      "unat b < unat (allocatedStart (sMetas p ! i)) + unat (allocatedSize (sMetas p ! i))" for b
      using that \<open>placed p i\<close> slot_in_area [OF lay \<open>i < slots p\<close>, of b] by (auto simp: placed_def in_slot_def)
    then show ?thesis using \<open>placed p i\<close> assms(2) by (simp add: placed_def)
  qed
  then show ?thesis using assms by (auto simp: pool_inv_def sealed_def a)
qed

lemma keeps_area_inv:
  assumes "keeps_area s t" "alloc_inv os (guarded s)"
  shows "alloc_inv os (guarded t)" "live (guarded t) = live (guarded s)"
proof -
  obtain pg where pg: "guarded t = (guarded s)\<lparr>pages := pg\<rparr>" "\<forall>b. in_area (guarded s) b \<longrightarrow> pg b = pages (guarded s) b"
    using assms(1) by (auto simp: keeps_area_def)
  show "alloc_inv os (guarded t)" using pool_inv_pages [OF _ pg(2)] assms(2) by (simp add: alloc_inv_def pg(1))
  show "live (guarded t) = live (guarded s)" by (simp add: pg(1) live_def blocks_def)
qed

text \<open>The block of a live start.\<close>

lemma live_bounds:
  assumes "pool_inv os p" "live p a = Some n" "k < unat n"
  shows "unat a + unat n \<le> 2 ^ 64" "unat (a + of_nat k) = unat a + k" "pages p (a + of_nat k) = Some ReadWrite" "in_area p (a + of_nat k)"
proof -
  have lay: "layout os p" using assms(1) by (simp add: pool_inv_def)
  from live_slotE [OF assms(1, 2)] obtain i where i: "i < slots p" "borrowed p i" "allocatedStart (sMetas p ! i) = a" "allocatedSize (sMetas p ! i) = n"
    "GetSlotIdOfAddress a p = Ret (int i)" .
  then have "placed p i" using assms(1) by (simp add: pool_inv_def)
  then have "unat a + unat n \<le> slot_start p i + unat (sSlotSize p)" using i(3, 4) by (simp add: placed_def)
  also have "\<dots> < 2 ^ 64" using slot_end_le [OF lay i(1)] slot_start_less [OF lay order_refl] by (simp add: unit_size_def)
  finally show b: "unat a + unat n \<le> 2 ^ 64" by simp
  show u: "unat (a + of_nat k) = unat a + k" using block_addr [OF b assms(3)] .
  then show "pages p (a + of_nat k) = Some ReadWrite" using live_writable [OF assms(1, 2)] assms(3) by simp
  show "in_area p (a + of_nat k)" using slot_in_area [OF lay i(1) live_in_slot [OF assms(1, 2) _ _ i(5)]] u assms(3) by simp
qed

section \<open>Allocation through the handlers\<close>

text \<open>The guarded half of an allocation: nothing, or a new block; no byte changes.\<close>

lemma on_pool_allocate:
  assumes "alloc_inv os (guarded s)" "all_granted os"
  obtains (skipped) q where "on_pool (AlignedAllocate os who sz al) s = (Ret 0, s\<lparr>guarded := q\<rparr>)" "alloc_inv os q" "live q = live (guarded s)"
      "in_area q = in_area (guarded s)"
  | (lent) a q where "on_pool (AlignedAllocate os who sz al) s = (Ret a, s\<lparr>guarded := q\<rparr>)" "alloc_inv os q" "a \<noteq> 0"
      "live (guarded s) a = None" "live q = (live (guarded s))(a \<mapsto> sz)"
proof (cases rule: AlignedAllocate_cases [OF assms, of who sz al, case_names skipped guarded])
  case (skipped q)
  then obtain c r where "q = (guarded s)\<lparr>sampleCounter := c, sLastRndValue := r\<rparr>" by blast
  then have "live q = live (guarded s)" "in_area q = in_area (guarded s)" by (auto simp: fun_eq_iff)
  with skipped that(1) show thesis by simp
next
  case (guarded i side q)
  then show thesis using that(2) lent_live [of os "MgIntercept.guarded s" q sz al side i] assms(1) by (simp add: alloc_inv_def)
qed

lemma HandleMAlloc_spec:
  assumes inv: "alloc_inv os (guarded s)" and os: "all_granted os" and orig: "malloc_contract orig"
  obtains a t where "HandleMAlloc orig os who sz s = (Ret a, t)" "alloc_inv os (guarded t)"
    "live (guarded t) = live (guarded s) \<or> a \<noteq> 0 \<and> live (guarded s) a = None \<and> live (guarded t) = (live (guarded s))(a \<mapsto> sz)"
    "\<And>b n k. live (guarded s) b = Some n \<Longrightarrow> k < unat n \<Longrightarrow> bytes t (b + of_nat k) = bytes s (b + of_nat k)"
    "\<And>k. a \<noteq> 0 \<Longrightarrow> k < unat sz \<Longrightarrow> pages (guarded t) (a + of_nat k) = Some ReadWrite"
    "\<And>b n k l. a \<noteq> 0 \<Longrightarrow> live (guarded s) b = Some n \<Longrightarrow> k < unat sz \<Longrightarrow> l < unat n \<Longrightarrow> a + of_nat k \<noteq> b + of_nat l"
proof (cases rule: on_pool_allocate [OF inv os, of who sz "push_bit 1 8", case_names skipped lent])
  case (skipped q)
  let ?s = "s\<lparr>guarded := q\<rparr>"
  obtain a t where t: "orig_malloc orig sz ?s = (Ret a, t)" "keeps_area ?s t"
    "a \<noteq> 0 \<Longrightarrow> k < unat sz \<Longrightarrow> \<not> in_area q (a + of_nat k) \<and> pages (guarded t) (a + of_nat k) = Some ReadWrite" for k
    using orig unfolding malloc_contract_def by (metis (no_types, lifting) process.select_convs(1) process.surjective process.update_convs(1))
  note k = keeps_area_inv [OF t(2), of os]
  have p: "pool_inv os (guarded s)" using inv by (simp add: alloc_inv_def)
  show thesis
  proof (rule that [of a t])
    show "HandleMAlloc orig os who sz s = (Ret a, t)" using skipped(1) t(1) by (simp add: HandleMAlloc_def Allocate_def)
    show "alloc_inv os (guarded t)" "live (guarded t) = live (guarded s) \<or>
        a \<noteq> 0 \<and> live (guarded s) a = None \<and> live (guarded t) = (live (guarded s))(a \<mapsto> sz)"
      using k skipped(2, 3) by simp_all
    show "bytes t (b + of_nat k) = bytes s (b + of_nat k)" if "live (guarded s) b = Some n" "k < unat n" for b n k
      using live_bounds(4) [OF p that] t(2) skipped(4) by (simp add: keeps_area_def)
    show "pages (guarded t) (a + of_nat k) = Some ReadWrite" if "a \<noteq> 0" "k < unat sz" for k using t(3) that by blast
    show "a + of_nat k \<noteq> b + of_nat l" if "a \<noteq> 0" "live (guarded s) b = Some n" "k < unat sz" "l < unat n" for b n k l
      using live_bounds(4) [OF p that(2, 4)] t(3) [OF that(1, 3)] skipped(4) by metis
  qed
next
  case (lent a q)
  have p: "pool_inv os q" using lent(2) by (simp add: alloc_inv_def)
  have la: "live q a = Some sz" using lent(5) by simp
  show thesis
  proof (rule that [of a "s\<lparr>guarded := q\<rparr>"])
    show "HandleMAlloc orig os who sz s = (Ret a, s\<lparr>guarded := q\<rparr>)" using lent(1, 3) by (simp add: HandleMAlloc_def Allocate_def)
    show "pages (guarded (s\<lparr>guarded := q\<rparr>)) (a + of_nat k) = Some ReadWrite" if "k < unat sz" for k
      using live_bounds(3) [OF p la that] by simp
    show "a + of_nat k \<noteq> b + of_nat l" if "live (guarded s) b = Some n" "k < unat sz" "l < unat n" for b n k l
    proof -
      have "b \<noteq> a" "live q b = Some n" using that(1) lent(4, 5) by auto
      then show ?thesis
        using live_apart [OF p la, of b n] live_bounds(2) [OF p la that(2)] live_bounds(2) [OF p \<open>live q b = Some n\<close> that(3)] that(2, 3) by auto
    qed
  qed (use lent in simp_all)
qed

lemma readable_rw: "pages (guarded s) a = Some ReadWrite \<Longrightarrow> readable s a = Some (bytes s a)"
  by (simp add: readable_def)

text \<open>A copy between two pieces of memory that can be written.\<close>

lemma memcpy_eq:
  assumes "\<And>k. k < n \<Longrightarrow> pages (guarded s) (dst + of_nat k) = Some ReadWrite" "n \<le> 2 ^ 64"
    and "\<And>k. k < n \<Longrightarrow> readable s (src + of_nat k) = Some (f k)"
  shows "memcpy dst src n s = (Ret (), s\<lparr>bytes := (\<lambda>x. if unat (x - dst) < n then f (unat (x - dst)) else bytes s x)\<rparr>)"
proof -
  have "ldbytes (readable s) src n = Ret (map f [0..<n])" using assms(3) by (rule ldbytes_eq)
  moreover have "store_bytes dst (map f [0..<n]) s = (Ret (), s\<lparr>bytes := (\<lambda>x. if unat (x - dst) < n then f (unat (x - dst)) else bytes s x)\<rparr>)"
    using store_bytes_eq [of "map f [0..<n]" s dst] assms(1, 2) by (simp cong: if_cong)
  ultimately show ?thesis by (simp add: memcpy_def)
qed

lemma offset_unat: "k < 2 ^ 64 \<Longrightarrow> unat (a + of_nat k - a :: u64) = k"
  by (simp add: unat_of_nat)

section \<open>Properties\<close>

text \<open>
  C15: The reallocation of a guarded block to a size other than 0 (for 0 see \<open>realloc_zero_dangles\<close> below) returns and keeps the invariant. It fails with
  \<open>ENOMEM\<close> and leaves the block and its bytes; or the bytes of the block, up to the smaller of the two sizes, are at
  the start of the new block and the old block is released. The system's \<open>malloc\<close>, which serves what is not
  guarded, is assumed to give memory of its own.
\<close>

theorem HandleReAlloc_correct:
  assumes "alloc_inv os (guarded s)" "all_granted os" "malloc_contract orig" "live (guarded s) a = Some n" "sz \<noteq> 0"
  shows "\<exists>r t. HandleReAlloc orig os who a sz s = (Ret r, t) \<and> alloc_inv os (guarded t) \<and>
    (if r = 0 then errno t = ENOMEM \<and> live (guarded t) = live (guarded s) \<and> (\<forall>k < unat n. bytes t (a + of_nat k) = bytes s (a + of_nat k))
     else (n \<noteq> 0 \<longrightarrow> r \<noteq> a) \<and> (live (guarded t) = (live (guarded s))(a := None) \<or> live (guarded t) = (live (guarded s))(r \<mapsto> sz, a := None)) \<and>
       (\<forall>k < unat (min n sz). bytes t (r + of_nat k) = bytes s (a + of_nat k)))"
proof -
  have p: "pool_inv os (guarded s)" using assms(1) by (simp add: alloc_inv_def)
  have nz: "a \<noteq> 0"
  proof -
    from live_slotE [OF p assms(4)] obtain i where i: "i < slots (guarded s)" "borrowed (guarded s) i" "allocatedStart (sMetas (guarded s) ! i) = a" .
    then have "placed (guarded s) i" "layout os (guarded s)" using p by (simp_all add: pool_inv_def)
    with i(3) guard_pos [of os "guarded s"] show ?thesis by (auto simp: placed_def slot_start_def)
  qed
  obtain r t where t: "HandleMAlloc orig os who sz s = (Ret r, t)" "alloc_inv os (guarded t)"
    "live (guarded t) = live (guarded s) \<or> r \<noteq> 0 \<and> live (guarded s) r = None \<and> live (guarded t) = (live (guarded s))(r \<mapsto> sz)"
    "\<And>b n k. live (guarded s) b = Some n \<Longrightarrow> k < unat n \<Longrightarrow> bytes t (b + of_nat k) = bytes s (b + of_nat k)"
    "\<And>k. r \<noteq> 0 \<Longrightarrow> k < unat sz \<Longrightarrow> pages (guarded t) (r + of_nat k) = Some ReadWrite"
    "\<And>b n k l. r \<noteq> 0 \<Longrightarrow> live (guarded s) b = Some n \<Longrightarrow> k < unat sz \<Longrightarrow> l < unat n \<Longrightarrow> r + of_nat k \<noteq> b + of_nat l"
    by (rule HandleMAlloc_spec [OF assms(1-3), of who sz]) blast
  have own: "IsAllocatedByThisAllocator a (guarded s) = Ret True" using live_known [OF p assms(4)] by simp
  show ?thesis
  proof (cases "r = 0")
    case True
    then have "HandleReAlloc orig os who a sz s = (Ret 0, t\<lparr>errno := ENOMEM\<rparr>)"
      using nz assms(5) own t(1) by (simp add: HandleReAlloc_def)
    with True t(2, 3, 4) assms(4) show ?thesis by simp
  next
    case False
    let ?n = "unat (min n sz)"
    have q: "pool_inv os (guarded t)" using t(2) by (simp add: alloc_inv_def)
    have la: "live (guarded t) a = Some n" using t(3) assms(4) by auto
    have ra: "r \<noteq> a \<or> n = 0" using t(6) [OF False assms(4), of 0 0] assms(5) by (auto simp: unat_gt_0)
    have min: "unat (if n \<le> sz then n else sz) = ?n" by (simp add: min_def)
    define u where "u = t\<lparr>bytes := (\<lambda>x. if unat (x - r) < ?n then bytes t (a + of_nat (unat (x - r))) else bytes t x)\<rparr>"
    have cp: "memcpy r a ?n t = (Ret (), u)" unfolding u_def
    proof (rule memcpy_eq)
      show "?n \<le> 2 ^ 64" using unsigned_less [of "min n sz", where 'a = nat] by simp
      fix k
      assume "k < ?n"
      then have k: "k < unat n" "k < unat sz" by (auto simp: min_def word_le_nat_alt split: if_splits)
      show "pages (guarded t) (r + of_nat k) = Some ReadWrite" using t(5) [OF False k(2)] .
      show "readable t (a + of_nat k) = Some (bytes t (a + of_nat k))" using live_bounds(3) [OF q la k(1)] by (rule readable_rw)
    qed
    have gu: "guarded u = guarded t" by (simp add: u_def)
    obtain v where v: "Free os who a (guarded t) = (Ret True, v)" "alloc_inv os v" "live v = (live (guarded t))(a := None)"
      using Free_live [OF t(2) assms(2) la] by blast
    have "HandleReAlloc orig os who a sz s = (Ret r, u\<lparr>guarded := v\<rparr>)"
      using nz assms(5) own t(1) False live_known(2) [OF q la] cp v(1) gu by (simp add: HandleReAlloc_def min)
    moreover have "bytes u (r + of_nat k) = bytes s (a + of_nat k)" if "k < ?n" for k
    proof -
      have "k < 2 ^ 64" using that unsigned_less [of "min n sz", where 'a = nat] by simp
      then have "bytes u (r + of_nat k) = bytes t (a + of_nat k)" using that by (simp add: u_def unat_of_nat)
      moreover have "k < unat n" using that by (auto simp: min_def word_le_nat_alt split: if_splits)
      ultimately show ?thesis using t(4) assms(4) by simp
    qed
    ultimately show ?thesis using v t(3) False ra by (auto simp: fun_upd_twist)
  qed
qed

section \<open>An example\<close>

text \<open>A system that has no memory left.\<close>

definition no_memory :: "unit originals" where
  "no_memory = \<lparr>orig_malloc = (\<lambda>_. retc 0), orig_calloc = (\<lambda>_ _. retc 0), orig_realloc = (\<lambda>_ _. retc 0),
     orig_memalign = (\<lambda>_ _. retc 0), orig_posix_memalign = (\<lambda>_ _ _. retc ENOMEM),
     orig_strdup = (\<lambda>_. retc 0), orig_strndup = (\<lambda>_ _. retc 0),
     orig_malloc_usable_size = (\<lambda>_. retc 0), orig_free = (\<lambda>_. retc ()),
     orig_SYM_NEW = (\<lambda>_. retc 0), orig_SYM_NEW_NOTHROW = (\<lambda>_. retc 0),
     orig_SYM_NEW_ALIGNED = (\<lambda>_ _. retc 0), orig_SYM_NEW_ALIGNED_NOTHROW = (\<lambda>_ _. retc 0),
     orig_SYM_NEW_ARR = (\<lambda>_. retc 0), orig_SYM_NEW_ARR_NOTHROW = (\<lambda>_. retc 0),
     orig_SYM_NEW_ARR_ALIGNED = (\<lambda>_ _. retc 0), orig_SYM_NEW_ARR_ALIGNED_NOTHROW = (\<lambda>_ _. retc 0),
     orig_SYM_DELETE = (\<lambda>_. retc ()), orig_SYM_DELETE_NOTHROW = (\<lambda>_. retc ()),
     orig_SYM_DELETE_ALIGNED = (\<lambda>_ _. retc ()), orig_SYM_DELETE_ALIGNED_NOTHROW = (\<lambda>_ _. retc ()),
     orig_SYM_DELETE_SIZE = (\<lambda>_ _. retc ()), orig_SYM_DELETE_SIZE_ALIGNED = (\<lambda>_ _ _. retc ()),
     orig_SYM_DELETE_ARR = (\<lambda>_. retc ()), orig_SYM_DELETE_ARR_NOTHROW = (\<lambda>_. retc ()),
     orig_SYM_DELETE_ARR_ALIGNED = (\<lambda>_ _. retc ()),
     orig_SYM_DELETE_ARR_ALIGNED_NOTHROW = (\<lambda>_ _. retc ()),
     orig_SYM_DELETE_ARR_SIZE = (\<lambda>_ _. retc ()), orig_SYM_DELETE_ARR_SIZE_ALIGNED = (\<lambda>_ _ _. retc ())\<rparr>"

definition process_of :: "pool \<Rightarrow> unit process" where
  "process_of p = \<lparr>guarded = p, bytes = (\<lambda>_. 1), errno = 0, system = ()\<rparr>"

text \<open>A system whose \<open>malloc\<close> gives the memory from 0x1000 on, where that is outside the area of the pool.\<close>

definition some_memory :: "unit originals" where
  "some_memory = no_memory\<lparr>orig_malloc := (\<lambda>sz s.
     if \<forall>k < unat sz. \<not> in_area (guarded s) (0x1000 + of_nat k)
     then (Ret 0x1000, s\<lparr>guarded := (guarded s)\<lparr>pages := (\<lambda>b. if unat (b - 0x1000) < unat sz then Some ReadWrite else pages (guarded s) b)\<rparr>\<rparr>)
     else (Ret 0, s))\<rparr>"

lemma some_memory_contract: "malloc_contract some_memory"
  unfolding malloc_contract_def
proof (intro allI)
  fix sz :: u64 and s :: "unit process"
  show "\<exists>a t. orig_malloc some_memory sz s = (Ret a, t) \<and> keeps_area s t \<and>
     (a \<noteq> 0 \<longrightarrow> (\<forall>k < unat sz. \<not> in_area (guarded s) (a + of_nat k) \<and> pages (guarded t) (a + of_nat k) = Some ReadWrite))"
  proof (cases "\<forall>k < unat sz. \<not> in_area (guarded s) (0x1000 + of_nat k)")
    case True
    have "unat (of_nat k :: u64) < unat sz" if "k < unat sz" for k
      using that unsigned_less [of sz, where 'a = nat] by (simp add: unat_of_nat)
    moreover have "\<not> in_area (guarded s) b" if "unat (b - 0x1000) < unat sz" for b
      using True [rule_format, OF that] by simp
    ultimately show ?thesis using True
      by (auto simp: some_memory_def keeps_area_def
          intro!: exI [of _ "\<lambda>b. if unat (b - 0x1000) < unat sz then Some ReadWrite else pages (guarded s) b"])
  next
    case False
    then show ?thesis by (auto simp: some_memory_def keeps_area_def intro!: exI [of _ "pages (guarded s)"])
  qed
qed

lemma lent_pool_area: "in_area lent_pool b \<Longrightarrow> 65536 \<le> unat b"
proof -
  assume b: "in_area lent_pool b"
  have "sampleCounter prepared_pool = 0 \<and> \<not> (\<forall>i < slots prepared_pool. borrowed prepared_pool i)"
    using prepared_inv(4) prepared_slot_free by simp
  then obtain i side where "lent_slot prepared_pool 100 16 side i lent_pool"
    using lent_pool_live(1, 4) by (cases rule: AlignedAllocate_cases [OF prepared_inv(1) sample_granted, of sample_caller 100 16]) auto
  then have "slot_start lent_pool 0 = slot_start prepared_pool 0" by (simp add: lent_slot_def)
  moreover have "sGuardPageSize lent_pool = sGuardPageSize prepared_pool"
    using lent_pool_live(2) prepared_inv(1) by (simp add: alloc_inv_def pool_inv_def layout_def)
  ultimately have "sSlotAreaStart lent_pool = sSlotAreaStart prepared_pool" by (simp add: slot_start_def word_unat_eq_iff)
  also have "\<dots> = 65536" by (simp add: prepared_pool_def Prepare_def Let_def sample_pool_def)
  finally show ?thesis using b by (simp add: in_area_def word_le_nat_alt)
qed

lemma some_memory_malloc: "\<exists>m u. m \<noteq> 0 \<and> HandleMAlloc some_memory sample_os sample_caller 50 (process_of lent_pool) = (Ret m, u)"
proof -
  have inv: "alloc_inv sample_os (guarded (process_of lent_pool))" using lent_pool_live by (simp add: process_of_def)
  show ?thesis
  proof (cases rule: on_pool_allocate [OF inv sample_granted, of sample_caller 50 "push_bit 1 8", case_names skipped lent])
    case (skipped q)
    have "\<not> in_area lent_pool (0x1000 + of_nat k)" if "k < unat (50 :: u64)" for k
      using lent_pool_area [of "0x1000 + of_nat k"] that by (auto simp: unat_word_ariths unat_of_nat)
    then show ?thesis using skipped by (simp add: HandleMAlloc_def Allocate_def some_memory_def process_of_def)
  next
    case (lent a q)
    then show ?thesis by (auto simp: HandleMAlloc_def Allocate_def)
  qed
qed

theorem HandleReAlloc_correct_witness:
  "\<exists>r t. HandleReAlloc some_memory sample_os sample_caller lent_address 50 (process_of lent_pool) = (Ret r, t) \<and>
    alloc_inv sample_os (guarded t) \<and> r \<noteq> 0 \<and> r \<noteq> lent_address \<and> bytes t r = 1 \<and> live (guarded t) lent_address = None"
proof -
  have s: "alloc_inv sample_os (guarded (process_of lent_pool))" "live (guarded (process_of lent_pool)) lent_address = Some 100" "(50 :: u64) \<noteq> 0"
    using lent_pool_live by (simp_all add: process_of_def)
  from HandleReAlloc_correct [OF s(1) sample_granted some_memory_contract s(2, 3), of sample_caller]
  obtain r t where t: "HandleReAlloc some_memory sample_os sample_caller lent_address 50 (process_of lent_pool) = (Ret r, t)"
    "alloc_inv sample_os (guarded t)"
    "r \<noteq> 0 \<Longrightarrow> r \<noteq> lent_address" "r \<noteq> 0 \<Longrightarrow> live (guarded t) lent_address = None"
    "r \<noteq> 0 \<Longrightarrow> \<forall>k < unat (min 100 (50 :: u64)). bytes t (r + of_nat k) = bytes (process_of lent_pool) (lent_address + of_nat k)"
    by (auto split: if_splits)
  have "IsAllocatedByThisAllocator lent_address (guarded (process_of lent_pool)) = Ret True"
    using live_known(1) [OF _ s(2)] s(1) unfolding alloc_inv_def by blast
  then have "r \<noteq> 0" using some_memory_malloc t(1) lent_pool_live(4) by (auto simp: HandleReAlloc_def bindc_eq_Ret)
  moreover have "0 < unat (min 100 (50 :: u64))" by (simp add: min_def)
  then have "bytes t (r + of_nat 0) = bytes (process_of lent_pool) (lent_address + of_nat 0)" using t(5) [OF \<open>r \<noteq> 0\<close>] by blast
  then have "bytes t r = 1" by (simp add: process_of_def)
  ultimately show ?thesis using t by blast
qed

text \<open>
  C19: Releasing a pointer of the area gives the slot back, whichever of the thirteen functions of C and C++ is called; a pointer outside goes to the
  function of the system that was called, with its arguments, and the pool is left alone.
\<close>

theorem release_dispatch:
  assumes "alloc_inv os (guarded s)" "all_granted os"
  shows "(\<forall>n. live (guarded s) a = Some n \<longrightarrow> (\<exists>q. alloc_inv os q \<and> live q = (live (guarded s))(a := None) \<and>
      HandleFree orig os who a s = (Ret (), s\<lparr>guarded := q\<rparr>) \<and>
      HandleDelete orig os who a s = (Ret (), s\<lparr>guarded := q\<rparr>) \<and>
      HandleDeleteNoThrow orig os who a s = (Ret (), s\<lparr>guarded := q\<rparr>) \<and>
      HandleDeleteAligned orig os who a align s = (Ret (), s\<lparr>guarded := q\<rparr>) \<and>
      HandleDeleteAlignedNoThrow orig os who a align s = (Ret (), s\<lparr>guarded := q\<rparr>) \<and>
      HandleDeleteSize orig os who a sz s = (Ret (), s\<lparr>guarded := q\<rparr>) \<and>
      HandleDeleteSizeAligned orig os who a sz align s = (Ret (), s\<lparr>guarded := q\<rparr>) \<and>
      HandleDeleteArr orig os who a s = (Ret (), s\<lparr>guarded := q\<rparr>) \<and>
      HandleDeleteArrNoThrow orig os who a s = (Ret (), s\<lparr>guarded := q\<rparr>) \<and>
      HandleDeleteArrAligned orig os who a align s = (Ret (), s\<lparr>guarded := q\<rparr>) \<and>
      HandleDeleteArrAlignedNoThrow orig os who a align s = (Ret (), s\<lparr>guarded := q\<rparr>) \<and>
      HandleDeleteArrSize orig os who a sz s = (Ret (), s\<lparr>guarded := q\<rparr>) \<and>
      HandleDeleteArrSizeAligned orig os who a sz align s = (Ret (), s\<lparr>guarded := q\<rparr>))) \<and>
    (\<not> in_area (guarded s) a \<longrightarrow>
      HandleFree orig os who a s = orig_free orig a s \<and>
      HandleDelete orig os who a s = orig_SYM_DELETE orig a s \<and>
      HandleDeleteNoThrow orig os who a s = orig_SYM_DELETE_NOTHROW orig a s \<and>
      HandleDeleteAligned orig os who a align s = orig_SYM_DELETE_ALIGNED orig a align s \<and>
      HandleDeleteAlignedNoThrow orig os who a align s = orig_SYM_DELETE_ALIGNED_NOTHROW orig a align s \<and>
      HandleDeleteSize orig os who a sz s = orig_SYM_DELETE_SIZE orig a sz s \<and>
      HandleDeleteSizeAligned orig os who a sz align s = orig_SYM_DELETE_SIZE_ALIGNED orig a sz align s \<and>
      HandleDeleteArr orig os who a s = orig_SYM_DELETE_ARR orig a s \<and>
      HandleDeleteArrNoThrow orig os who a s = orig_SYM_DELETE_ARR_NOTHROW orig a s \<and>
      HandleDeleteArrAligned orig os who a align s = orig_SYM_DELETE_ARR_ALIGNED orig a align s \<and>
      HandleDeleteArrAlignedNoThrow orig os who a align s = orig_SYM_DELETE_ARR_ALIGNED_NOTHROW orig a align s \<and>
      HandleDeleteArrSize orig os who a sz s = orig_SYM_DELETE_ARR_SIZE orig a sz s \<and>
      HandleDeleteArrSizeAligned orig os who a sz align s = orig_SYM_DELETE_ARR_SIZE_ALIGNED orig a sz align s)"
proof -
  have "Free os who a (guarded s) = (Ret True, q) \<Longrightarrow> on_pool (Free os who a) s = (Ret True, s\<lparr>guarded := q\<rparr>)" for q by simp
  moreover have "\<not> in_area (guarded s) a \<Longrightarrow> on_pool (Free os who a) s = (Ret False, s)" using Free_outside [OF assms(1)] by simp
  ultimately show ?thesis
    using Free_live [OF assms, of a] by (fastforce simp: HandleFree_def
      HandleDelete_def HandleDeleteNoThrow_def HandleDeleteAligned_def HandleDeleteAlignedNoThrow_def HandleDeleteSize_def HandleDeleteSizeAligned_def HandleDeleteArr_def HandleDeleteArrNoThrow_def HandleDeleteArrAligned_def HandleDeleteArrAlignedNoThrow_def HandleDeleteArrSize_def HandleDeleteArrSizeAligned_def)
qed

theorem release_dispatch_witness:
  "(\<exists>q. live q = Map.empty \<and> HandleFree no_memory sample_os sample_caller lent_address (process_of lent_pool) = (Ret (), (process_of lent_pool)\<lparr>guarded := q\<rparr>)) \<and>
   HandleDelete no_memory sample_os sample_caller 0 (process_of prepared_pool) = (Ret (), process_of prepared_pool)"
proof
  have "alloc_inv sample_os (guarded (process_of lent_pool))" "live (guarded (process_of lent_pool)) = [lent_address \<mapsto> 100]"
    using lent_pool_live by (simp_all add: process_of_def)
  with release_dispatch [OF this(1) sample_granted, of lent_address no_memory sample_caller]
  show "\<exists>q. live q = Map.empty \<and> HandleFree no_memory sample_os sample_caller lent_address (process_of lent_pool) =
      (Ret (), (process_of lent_pool)\<lparr>guarded := q\<rparr>)" by auto
  have "alloc_inv sample_os (guarded (process_of prepared_pool))" using prepared_inv(1) by (simp add: process_of_def)
  moreover have "sSlotAreaStart prepared_pool = 65536" by (simp add: prepared_pool_def Prepare_def Let_def sample_pool_def)
  then have "\<not> in_area (guarded (process_of prepared_pool)) 0" by (simp add: in_area_def process_of_def)
  ultimately show "HandleDelete no_memory sample_os sample_caller 0 (process_of prepared_pool) = (Ret (), process_of prepared_pool)"
    using release_dispatch [OF _ sample_granted, of "process_of prepared_pool" 0 no_memory sample_caller] by (simp add: no_memory_def)
qed

text \<open>
  The reallocation of a guarded block to the size 0 releases it and returns the pointer to it all the same, which
  is not null; every byte of the block faults.
\<close>

theorem realloc_zero_dangles:
  assumes "alloc_inv os (guarded s)" "all_granted os" "live (guarded s) a = Some n"
  shows "\<exists>t. HandleReAlloc orig os who a 0 s = (Ret a, t) \<and> a \<noteq> 0 \<and> live (guarded t) a = None \<and>
    (\<forall>k < unat n. touch (a + of_nat k) (pages (guarded t)) = Segv)"
proof -
  have p: "pool_inv os (guarded s)" using assms(1) by (simp add: alloc_inv_def)
  from live_slotE [OF p assms(3)] obtain i where i: "i < slots (guarded s)" "borrowed (guarded s) i" "allocatedStart (sMetas (guarded s) ! i) = a"
    "GetSlotIdOfAddress a (guarded s) = Ret (int i)" .
  let ?q = "retire os who i (guarded s)"
  have "placed (guarded s) i" "layout os (guarded s)" using p i by (simp_all add: pool_inv_def)
  then have nz: "a \<noteq> 0" using i(3) guard_pos [of os "guarded s"] by (auto simp: placed_def slot_start_def)
  have "HandleReAlloc orig os who a 0 s = (Ret a, s\<lparr>guarded := ?q\<rparr>)"
    using nz Free_slot(1) [OF assms(1, 2) i(4, 1, 2)] by (simp add: HandleReAlloc_def HandleFree_def)
  moreover have "live ?q a = None" using retire_live [OF p i(1, 2)] i(3) by simp
  moreover have "touch (a + of_nat k) (pages ?q) = Segv" if "k < unat n" for k
  proof -
    have "in_slot (guarded s) i (a + of_nat k)"
      using live_in_slot [OF p assms(3) _ _ i(4)] live_bounds(2) [OF p assms(3) that] that by simp
    from retire_sealed [OF this] show ?thesis by (simp add: touch_def)
  qed
  ultimately show ?thesis using nz by auto
qed

theorem realloc_zero_dangles_witness:
  "\<exists>t. HandleReAlloc no_memory sample_os sample_caller lent_address 0 (process_of lent_pool) = (Ret lent_address, t) \<and> lent_address \<noteq> 0 \<and>
    touch lent_address (pages (guarded t)) = Segv"
proof -
  have "alloc_inv sample_os (guarded (process_of lent_pool))" "live (guarded (process_of lent_pool)) lent_address = Some 100"
    using lent_pool_live by (simp_all add: process_of_def)
  from realloc_zero_dangles [OF this(1) sample_granted this(2), of no_memory sample_caller] obtain t where
    t: "HandleReAlloc no_memory sample_os sample_caller lent_address 0 (process_of lent_pool) = (Ret lent_address, t)" "lent_address \<noteq> 0"
      "\<forall>k < unat (100 :: u64). touch (lent_address + of_nat k) (pages (guarded t)) = Segv" by blast
  have "0 < unat (100 :: u64)" by simp
  with t(3) have "touch (lent_address + of_nat 0) (pages (guarded t)) = Segv" by blast
  with t show ?thesis by auto
qed

text \<open>
  A guarded \<open>calloc\<close> gives a block of the product of its arguments, taken modulo \<open>2 ^ 64\<close>, with every byte of it zero and the other blocks as they
  were. It does so as well where the product overflows, when the block is smaller than what was asked for; the C
  standard asks for a null pointer then.
\<close>

theorem HandleCAlloc_guarded:
  assumes "alloc_inv os (guarded s)" "all_granted os" "sampleCounter (guarded s) = 0" "\<exists>i < slots (guarded s). \<not> borrowed (guarded s) i"
    and "16 \<le> sSlotSize (guarded s)" "c * e \<le> sSlotSize (guarded s)" "AlignUpTo (c * e) 16 \<le> sSlotSize (guarded s)"
  shows "\<exists>r t. HandleCAlloc orig os who c e s = (Ret r, t) \<and> r \<noteq> 0 \<and> alloc_inv os (guarded t) \<and>
    live (guarded t) = (live (guarded s))(r \<mapsto> c * e) \<and> (\<forall>k < unat (c * e). bytes t (r + of_nat k) = 0) \<and>
    (\<forall>b n. live (guarded s) b = Some n \<longrightarrow> (\<forall>k < unat n. bytes t (b + of_nat k) = bytes s (b + of_nat k))) \<and>
    (2 ^ 64 \<le> unat c * unat e \<longrightarrow> unat (c * e) < unat c * unat e)"
proof -
  have pow: "IsPowOf2 16" "push_bit 1 (8 :: u64) = 16" by (simp_all add: IsPowOf2_def)
  let ?m = "c * e"
  show ?thesis
  proof (cases rule: AlignedAllocate_cases [OF assms(1, 2), of who ?m 16, case_names skipped guarded])
    case (skipped q)
    then show ?thesis using assms(3-7) pow by auto
  next
    case (guarded i side q)
    have p: "pool_inv os (MgIntercept.guarded s)" "pool_inv os q" using assms(1) guarded(2) by (simp_all add: alloc_inv_def)
    note l = lent_live [OF p guarded(3)]
    define r where "r = allocatedStart (sMetas q ! i)"
    have la: "live q r = Some ?m" using l(2) by (simp add: r_def)
    let ?s = "s\<lparr>guarded := q\<rparr>" and ?b = "\<lambda>x. if unat (x - r) < unat ?m then 0 else bytes s x"
    have "store_bytes r (replicate (unat ?m) 0) ?s = (Ret (), ?s\<lparr>bytes := ?b\<rparr>)"
      using store_bytes_eq [of "replicate (unat ?m) 0" ?s r] live_bounds(3) [OF p(2) la] unsigned_less [of ?m, where 'a = nat]
      by (simp cong: if_cong)
    then have run: "HandleCAlloc orig os who c e s = (Ret r, ?s\<lparr>bytes := ?b\<rparr>)"
      using guarded(1) l(3) by (simp add: HandleCAlloc_def Allocate_def pow memset_def r_def)
    have other: "?b (b + of_nat k) = bytes s (b + of_nat k)" if "live (MgIntercept.guarded s) b = Some n" "k < unat n" for b n k
    proof -
      have b: "b \<noteq> r" "live q b = Some n" using that(1) l(1, 2) by (auto simp: r_def)
      have "\<not> unat (b + of_nat k - r) < unat ?m"
      proof
        assume u: "unat (b + of_nat k - r) < unat ?m"
        have "b + of_nat k = r + of_nat (unat (b + of_nat k - r))" by simp
        then have "unat (b + of_nat k) = unat r + unat (b + of_nat k - r)" using live_bounds(2) [OF p(2) la u] by metis
        moreover have "unat (b + of_nat k) = unat b + k" using live_bounds(2) [OF p(2) b(2) that(2)] .
        ultimately show False using live_apart [OF p(2) la b(2)] b(1) u that(2) by auto
      qed
      then show ?thesis by simp
    qed
    have zero: "?b (r + of_nat k) = 0" if "k < unat ?m" for k
      using that unsigned_less [of ?m, where 'a = nat] offset_unat [of k r] by simp
    have wrap: "unat (c * e) < unat c * unat e" if "2 ^ 64 \<le> unat c * unat e"
      using that unsigned_less [of ?m, where 'a = nat] by simp
    define t where "t = ?s\<lparr>bytes := ?b\<rparr>"
    have t: "bytes t = ?b" "MgIntercept.guarded t = q" by (simp_all add: t_def)
    show ?thesis
    proof (intro exI [of _ r] exI [of _ t] conjI)
      show "HandleCAlloc orig os who c e s = (Ret r, t)" using run by (simp only: t_def)
      show "r \<noteq> 0" "alloc_inv os (MgIntercept.guarded t)" "live (MgIntercept.guarded t) = (live (MgIntercept.guarded s))(r \<mapsto> c * e)"
        using l(2, 3) guarded(2) by (simp_all add: t(2) r_def)
      show "\<forall>k < unat (c * e). bytes t (r + of_nat k) = 0" unfolding t(1) using zero by blast
      show "\<forall>b n. live (MgIntercept.guarded s) b = Some n \<longrightarrow> (\<forall>k < unat n. bytes t (b + of_nat k) = bytes s (b + of_nat k))"
        unfolding t(1) using other by blast
      show "2 ^ 64 \<le> unat c * unat e \<longrightarrow> unat (c * e) < unat c * unat e" using wrap by blast
    qed
  qed
qed

theorem HandleCAlloc_guarded_witness:
  "\<exists>r t. HandleCAlloc no_memory sample_os sample_caller (2 ^ 63) 2 (process_of prepared_pool) = (Ret r, t) \<and> r \<noteq> 0 \<and> live (guarded t) r = Some 0"
proof -
  have inv: "alloc_inv sample_os (guarded (process_of prepared_pool))" "sampleCounter (guarded (process_of prepared_pool)) = 0"
    "\<exists>i < slots (guarded (process_of prepared_pool)). \<not> borrowed (guarded (process_of prepared_pool)) i"
    "16 \<le> sSlotSize (guarded (process_of prepared_pool))"
    using prepared_inv prepared_slot_free by (simp_all add: process_of_def prepared_slot_size)
  have m: "(2 ^ 63 :: u64) * 2 = 0" by simp
  have "AlignUpTo 0 16 = 0" by (simp add: AlignUpTo_def IsPowOf2_def)
  then have "0 \<le> sSlotSize (guarded (process_of prepared_pool))" "AlignUpTo 0 16 \<le> sSlotSize (guarded (process_of prepared_pool))" by simp_all
  from HandleCAlloc_guarded [OF inv(1) sample_granted inv(2-4), of "2 ^ 63" 2 no_memory sample_caller, unfolded m, OF this] show ?thesis
    by (metis fun_upd_same)
qed

end
