(* ===== verification/MgInstall.thy ===== *)
theory MgInstall
  imports MgSample MgIssue MgIntercept
begin

text \<open>
  \<open>memguard/MemGuard.cpp\<close>: the installation, which prepares the pool and the sampling in turn. What the parts around them answer,
  the directory of the dump file, the monitor of loaded libraries, the unwinder, the signal handler and the hooks, is an argument.
\<close>

section \<open>Installation\<close>

record guard_env =
  dump_dir_ok :: bool
  so_load_monitor_ok :: bool
  areas :: "u64 option \<times> u64 option \<times> u64 option"
  unwinder_ok :: bool
  signal_handler_ok :: bool
  seed_time :: u32
  seed_thread :: u32
  interceptors_ok :: bool

record guard_state =
  sInstalled :: bool
  the_pool :: pool

definition in_state :: "(pool, 'a) cmd \<Rightarrow> (guard_state, 'a) cmd" where
  "in_state m = (\<lambda>g. case m (the_pool g) of (r, p) \<Rightarrow> (r, g\<lparr>the_pool := p\<rparr>))"

definition Install :: "guard_env \<Rightarrow> guard_os \<Rightarrow> Options option \<Rightarrow> (guard_state, bool) cmd" where
  "Install env os opts = (\<lambda>g. case opts of
     None \<Rightarrow> (Ret False, g)
   | Some given \<Rightarrow>
       if sInstalled g then (Ret True, g)
       else
         bindc (updc (\<lambda>g. g\<lparr>sInstalled := True, the_pool := (the_pool g)\<lparr>gOpts := given\<rparr>\<rparr>)) (\<lambda>_.
         if \<not> dump_dir_ok env then retc False
         else if \<not> so_load_monitor_ok env then retc False
         else
           bindc (in_state (\<lambda>p. case areas env of (sa, ma, fa) \<Rightarrow> case Prepare os sa ma fa p of (ok, p) \<Rightarrow> (Ret ok, p))) (\<lambda>pool_ok.
           if \<not> pool_ok then retc False
           else if \<not> unwinder_ok env then retc False
           else if \<not> signal_handler_ok env then retc False
           else
             bindc (in_state (allocation_Prepare (seed_time env) (seed_thread env))) (\<lambda>alloc_ok.
             if \<not> alloc_ok then retc False
             else if \<not> interceptors_ok env then retc False
             else retc True))) g)"

lemma in_state_flag: "in_state m g = (r, h) \<Longrightarrow> sInstalled h = sInstalled g"
  by (auto simp: in_state_def split: prod.splits)

text \<open>The preparation of the sampling in closed form.\<close>

lemma allocation_Prepare_eq:
  "\<exists>pct len c r. allocation_Prepare now tid p = (Ret True, p\<lparr>sAdjustedPercentageOfLeftSideGuard := pct, sSampleCycleLength := len,
     sampleCounter := c, sLastRndValue := r\<rparr>)"
proof -
  let ?q = "snd (allocation_Prepare now tid p)"
  have "allocation_Prepare now tid p = (Ret True, p\<lparr>sAdjustedPercentageOfLeftSideGuard := sAdjustedPercentageOfLeftSideGuard ?q,
      sSampleCycleLength := sSampleCycleLength ?q, sampleCounter := sampleCounter ?q, sLastRndValue := sLastRndValue ?q\<rparr>)"
    by (simp add: allocation_Prepare_def next_random_def Let_def)
  then show ?thesis by blast
qed

lemma alloc_inv_sampling:
  "alloc_inv os (p\<lparr>sAdjustedPercentageOfLeftSideGuard := pct, sSampleCycleLength := len, sampleCounter := c, sLastRndValue := r\<rparr>) = alloc_inv os p"
  "live (p\<lparr>sAdjustedPercentageOfLeftSideGuard := pct, sSampleCycleLength := len, sampleCounter := c, sLastRndValue := r\<rparr>) = live p"
  by (simp_all add: alloc_inv_def pool_inv_def layout_def books_def sealed_def placed_def in_area_def in_slot_def slot_start_def unit_size_def slots_def
    live_def blocks_def)

text \<open>
  C21: When every part answers well, the first installation succeeds and leaves a pool in its invariant, with no live block, whose sampling
  counter is below the length of its cycle: allocations and releases can be served from then on. The options are sane
  (\<open>sane_options\<close>: a page size that is a power of two, a size and a count above 0, fewer than 2^31 slots) and the skip count is at most 2^32.
\<close>

theorem Install_correct:
  assumes "\<not> sInstalled g" "unprepared (the_pool g)" "sane_options os opts" "mapped_areas os opts sa ma fa"
    and "dump_dir_ok env" "so_load_monitor_ok env" "areas env = (Some sa, Some ma, Some fa)" "unwinder_ok env" "signal_handler_ok env" "interceptors_ok env"
    and "unat (maxSkippedAllocationCount opts) \<le> 2 ^ 32"
  shows "\<exists>h. Install env os (Some opts) g = (Ret True, h) \<and> sInstalled h \<and> alloc_inv os (the_pool h) \<and> live (the_pool h) = Map.empty \<and>
    gOpts (the_pool h) = opts \<and> unat (sampleCounter (the_pool h)) < unat (sSampleCycleLength (the_pool h))"
proof -
  let ?p = "(the_pool g)\<lparr>gOpts := opts\<rparr>"
  have "unprepared ?p" using assms(2) by (simp add: unprepared_def)
  from prepare_inv [OF this, of os sa ma fa] assms(3, 4) obtain q where
    q: "Prepare os (Some sa) (Some ma) (Some fa) ?p = (True, q)" "alloc_inv os q" "live q = Map.empty" "gOpts q = opts" by auto
  obtain pct len c r where a: "allocation_Prepare (seed_time env) (seed_thread env) q =
      (Ret True, q\<lparr>sAdjustedPercentageOfLeftSideGuard := pct, sSampleCycleLength := len, sampleCounter := c, sLastRndValue := r\<rparr>)"
    using allocation_Prepare_eq by blast
  let ?h = "g\<lparr>sInstalled := True, the_pool := q\<lparr>sAdjustedPercentageOfLeftSideGuard := pct, sSampleCycleLength := len,
    sampleCounter := c, sLastRndValue := r\<rparr>\<rparr>"
  have "Install env os (Some opts) g = (Ret True, ?h)"
    using assms(1, 5-10) q(1) a by (simp add: Install_def in_state_def)
  moreover have "unat c < unat len" using prepare_counter [of q "seed_time env" "seed_thread env"] a q(4) assms(11) by simp
  ultimately show ?thesis using q(2-4) alloc_inv_sampling by simp
qed

definition sample_env :: guard_env where
  "sample_env = \<lparr>dump_dir_ok = True, so_load_monitor_ok = True, areas = (Some 65536, Some 131072, Some 139264), unwinder_ok = True,
     signal_handler_ok = True, seed_time = 1, seed_thread = 6, interceptors_ok = True\<rparr>"

theorem Install_correct_witness:
  "\<exists>h. Install sample_env sample_os (Some sample_options) \<lparr>sInstalled = False, the_pool = sample_pool\<rparr> = (Ret True, h) \<and>
    alloc_inv sample_os (the_pool h) \<and> live (the_pool h) = Map.empty"
  using Install_correct [of "\<lparr>sInstalled = False, the_pool = sample_pool\<rparr>" sample_os sample_options 65536 131072 139264 sample_env]
    sample_unprepared(1) sample_sane sample_mapped
  by (auto simp: sample_env_def sample_options_def default_options_def)

text \<open>
  A failed installation is reported as a success ever after: the flag is set before the work is done and stays set, so the
  second call does nothing and returns true.
\<close>

theorem install_failure_forgotten:
  assumes "Install env os (Some opts) g = (Ret False, h)"
  shows "Install env' os (Some opts') h = (Ret True, h)"
proof -
  have "sInstalled h"
    using assms unfolding Install_def by (auto split: if_splits elim!: bindc_RetE dest!: in_state_flag)
  then show ?thesis by (simp add: Install_def)
qed

theorem install_failure_forgotten_witness:
  "\<exists>h. Install (sample_env\<lparr>areas := (None, None, None)\<rparr>) sample_os (Some sample_options) \<lparr>sInstalled = False, the_pool = sample_pool\<rparr> = (Ret False, h) \<and>
    Install sample_env sample_os (Some sample_options) h = (Ret True, h) \<and> sMetas (the_pool h) = []"
proof -
  let ?g = "\<lparr>sInstalled = False, the_pool = sample_pool\<rparr>" and ?env = "sample_env\<lparr>areas := (None, None, None)\<rparr>"
  define h where "h = snd (Install ?env sample_os (Some sample_options) ?g)"
  have h: "Install ?env sample_os (Some sample_options) ?g = (Ret False, h)" "sMetas (the_pool h) = []"
    by (simp_all add: h_def Install_def in_state_def sample_env_def Prepare_def Let_def sample_pool_def bindc_def)
  from install_failure_forgotten [OF h(1), of sample_env sample_options] h show ?thesis by blast
qed

end
