(* ===== verification/SplayMap.thy ===== *)
theory SplayMap
  imports Prelude "HOL-Library.Tree" "HOL-Library.Monad_Syntax"
begin

text \<open>
  \<open>matrix-hooks/src/main/cpp/common/struct/splay_map.h\<close> over the buffers of \<open>buffer_source.h\<close>: the ordered map
  of the memory hook, a top-down splay tree whose nodes live in a growing array. Node 0 is no element: it is the
  header under which a search hangs the two side trees, and as a pointer it means none. Removed nodes are chained
  through their left links. Pointers and counters are natural numbers with the wrap-around of \<open>uint32_t\<close>
  written out where they grow; \<open>None\<close> stands for an access outside the buffers, the use of a missing buffer
  or a search that never returns. The operations are those of a build without \<open>ENABLE_SPLAY_CHECK\<close>.
\<close>

section \<open>Data\<close>

record 'k sm_node =
  sn_key :: 'k
  sn_left :: nat
  sn_right :: nat

record tree_info =
  ti_root_ptr :: nat
  ti_free_ptr :: nat
  ti_b_size :: nat
  ti_t_size :: nat

text \<open>What the instance of the template fixes: the size of a node and of a value, and the key and the value that
  zeroed memory holds.\<close>

record ('k, 'v) sm_types =
  sz_node :: nat
  sz_val :: nat
  key_zero :: 'k
  val_zero :: 'v

text \<open>\<open>t_info\<close> is \<open>None\<close> while it is the null pointer.\<close>

record ('k, 'v) splay_map =
  t_info :: "tree_info option"
  k_buff :: "'k sm_node list"
  last_ptr :: nat
  v_buff :: "'v list"
  i_size :: nat

definition u32_of :: "nat \<Rightarrow> nat" where
  "u32_of n = n mod 2 ^ 32"

definition sizeof_tree_info :: nat where
  "sizeof_tree_info = 16"

definition zero_node :: "('k, 'v) sm_types \<Rightarrow> 'k sm_node" where
  "zero_node T = \<lparr>sn_key = key_zero T, sn_left = 0, sn_right = 0\<rparr>"

section \<open>Accesses to the node buffer\<close>

definition get_node :: "'k sm_node list \<Rightarrow> nat \<Rightarrow> 'k sm_node option" where
  "get_node k p = (if p < length k then Some (k ! p) else None)"

definition get_node_lc :: "'k sm_node list \<Rightarrow> nat \<Rightarrow> nat option" where
  "get_node_lc k p = map_option sn_left (get_node k p)"

definition get_node_rc :: "'k sm_node list \<Rightarrow> nat \<Rightarrow> nat option" where
  "get_node_rc k p = map_option sn_right (get_node k p)"

definition get_node_key :: "'k sm_node list \<Rightarrow> nat \<Rightarrow> 'k option" where
  "get_node_key k p = map_option sn_key (get_node k p)"

definition set_node_lc :: "nat \<Rightarrow> nat \<Rightarrow> 'k sm_node list \<Rightarrow> 'k sm_node list option" where
  "set_node_lc p v k = (if p < length k then Some (k[p := (k ! p)\<lparr>sn_left := v\<rparr>]) else None)"

definition set_node_rc :: "nat \<Rightarrow> nat \<Rightarrow> 'k sm_node list \<Rightarrow> 'k sm_node list option" where
  "set_node_rc p v k = (if p < length k then Some (k[p := (k ! p)\<lparr>sn_right := v\<rparr>]) else None)"

definition set_node_key :: "nat \<Rightarrow> 'k \<Rightarrow> 'k sm_node list \<Rightarrow> 'k sm_node list option" where
  "set_node_key p v k = (if p < length k then Some (k[p := (k ! p)\<lparr>sn_key := v\<rparr>]) else None)"

definition get_val :: "'v list \<Rightarrow> nat \<Rightarrow> 'v option" where
  "get_val v p = (if p < length v then Some (v ! p) else None)"

definition set_val :: "nat \<Rightarrow> 'v \<Rightarrow> 'v list \<Rightarrow> 'v list option" where
  "set_val p x v = (if p < length v then Some (v[p := x]) else None)"

section \<open>Splaying\<close>

text \<open>The loop, with the results it leaves: whether the key was met, the ends of the two side trees and the node
  it stopped at.\<close>

partial_function (option) splay_loop ::
    "'k::linorder \<Rightarrow> nat \<Rightarrow> nat \<Rightarrow> nat \<Rightarrow> 'k sm_node list \<Rightarrow> (bool \<times> nat \<times> nat \<times> nat \<times> 'k sm_node list) option" where
  "splay_loop key l r t k = do {
     tkey \<leftarrow> get_node_key k t;
     if tkey > key then do {
       tlc \<leftarrow> get_node_lc k t;
       if tlc = 0 then Some (False, l, r, t, k)
       else do {
         ckey \<leftarrow> get_node_key k tlc;
         if ckey > key then do {
           c \<leftarrow> get_node_rc k tlc;
           k \<leftarrow> set_node_lc t c k;
           k \<leftarrow> set_node_rc tlc t k;
           n \<leftarrow> get_node_lc k tlc;
           if n = 0 then Some (False, l, r, tlc, k)
           else do {
             k \<leftarrow> set_node_lc r tlc k;
             n \<leftarrow> get_node_lc k tlc;
             splay_loop key l tlc n k }
         } else do {
           k \<leftarrow> set_node_lc r t k;
           n \<leftarrow> get_node_lc k t;
           splay_loop key l t n k } } }
     else if tkey < key then do {
       trc \<leftarrow> get_node_rc k t;
       if trc = 0 then Some (False, l, r, t, k)
       else do {
         ckey \<leftarrow> get_node_key k trc;
         if ckey < key then do {
           c \<leftarrow> get_node_lc k trc;
           k \<leftarrow> set_node_rc t c k;
           k \<leftarrow> set_node_lc trc t k;
           n \<leftarrow> get_node_rc k trc;
           if n = 0 then Some (False, l, r, trc, k)
           else do {
             k \<leftarrow> set_node_rc l trc k;
             n \<leftarrow> get_node_rc k trc;
             splay_loop key trc r n k }
         } else do {
           k \<leftarrow> set_node_rc l t k;
           n \<leftarrow> get_node_rc k t;
           splay_loop key t r n k } } }
     else Some (True, l, r, t, k) }"

text \<open>Hanging the side trees under the node of the loop.\<close>

definition splay_assemble :: "nat \<Rightarrow> nat \<Rightarrow> nat \<Rightarrow> 'k sm_node list \<Rightarrow> 'k sm_node list option" where
  "splay_assemble l r t k = do {
     c \<leftarrow> get_node_lc k t; k \<leftarrow> set_node_rc l c k;
     c \<leftarrow> get_node_rc k t; k \<leftarrow> set_node_lc r c k;
     c \<leftarrow> get_node_rc k 0; k \<leftarrow> set_node_lc t c k;
     c \<leftarrow> get_node_lc k 0; k \<leftarrow> set_node_rc t c k;
     k \<leftarrow> set_node_lc 0 0 k;
     set_node_rc 0 0 k }"

text \<open>The result of \<open>splay\<close>, with the root it leaves in its reference argument.\<close>

definition splay :: "'k::linorder \<Rightarrow> nat \<Rightarrow> 'k sm_node list \<Rightarrow> (bool \<times> nat \<times> 'k sm_node list) option" where
  "splay key root k =
     (if root = 0 then Some (False, root, k)
      else do {
        (ret, l, r, t, k) \<leftarrow> splay_loop key 0 0 root k;
        k \<leftarrow> splay_assemble l r t k;
        Some (ret, t, k) })"

section \<open>Operations\<close>

definition with_tree :: "tree_info \<Rightarrow> 'k sm_node list \<Rightarrow> ('k, 'v) splay_map \<Rightarrow> ('k, 'v) splay_map" where
  "with_tree ti k s = s\<lparr>t_info := Some ti, k_buff := k\<rparr>"

definition inter_find :: "'k::linorder \<Rightarrow> ('k, 'v) splay_map \<Rightarrow> (nat \<times> ('k, 'v) splay_map) option" where
  "inter_find key s = do {
     ti \<leftarrow> t_info s;
     (ret, root, k) \<leftarrow> splay key (ti_root_ptr ti) (k_buff s);
     Some (if ret then root else 0, with_tree (ti\<lparr>ti_root_ptr := root\<rparr>) k s) }"

text \<open>The inner loop of the enumeration pushes the left spine; it ends the enumeration when the stack holds more
  nodes than the tree.\<close>

partial_function (option) enum_push :: "'k sm_node list \<Rightarrow> nat \<Rightarrow> nat \<Rightarrow> nat list \<Rightarrow> (bool \<times> nat list) option" where
  "enum_push k t_size root stk =
     (if root = 0 then Some (True, stk)
      else if length (root # stk) > t_size then Some (False, root # stk)
      else do {
        n \<leftarrow> get_node_lc k root;
        enum_push k t_size n (root # stk) })"

text \<open>A callback gets the key, a reference to the value and whatever it captures.\<close>

type_synonym ('k, 'v, 'c) sm_callback = "'k \<Rightarrow> 'v \<Rightarrow> 'c \<Rightarrow> ('v \<times> 'c) option"

partial_function (option) enum_loop ::
    "('k, 'v, 'c) sm_callback \<Rightarrow> 'k sm_node list \<Rightarrow> nat \<Rightarrow> nat \<Rightarrow> nat list \<Rightarrow> nat \<Rightarrow> 'v list \<Rightarrow> 'c \<Rightarrow> ('v list \<times> 'c) option"
where
  "enum_loop callback k t_size root stk count v c =
     (if root \<noteq> 0 \<or> stk \<noteq> [] then do {
        (go, stk) \<leftarrow> enum_push k t_size root stk;
        if \<not> go then Some (v, c)
        else if stk = [] then enum_loop callback k t_size 0 [] count v c
        else do {
          key \<leftarrow> get_node_key k (hd stk);
          x \<leftarrow> get_val v (hd stk);
          (x, c) \<leftarrow> callback key x c;
          v \<leftarrow> set_val (hd stk) x v;
          let count = u32_of (count + 1);
          if count > t_size then Some (v, c)
          else do {
            n \<leftarrow> get_node_rc k (hd stk);
            enum_loop callback k t_size n (tl stk) count v c } } }
      else Some (v, c))"

definition inter_enumerate ::
    "nat \<Rightarrow> ('k, 'v, 'c) sm_callback \<Rightarrow> ('k, 'v) splay_map \<Rightarrow> 'c \<Rightarrow> (('k, 'v) splay_map \<times> 'c) option" where
  "inter_enumerate root callback s c =
     (if root = 0 then Some (s, c)
      else do {
        ti \<leftarrow> t_info s;
        (v, c) \<leftarrow> enum_loop callback (k_buff s) (ti_t_size ti) root [] 0 (v_buff s) c;
        Some (s\<lparr>v_buff := v\<rparr>, c) })"

definition free_node :: "nat \<Rightarrow> ('k, 'v) splay_map \<Rightarrow> ('k, 'v) splay_map option" where
  "free_node ptr s =
     (if ptr = 0 then Some s
      else do {
        ti \<leftarrow> t_info s;
        k \<leftarrow> set_node_lc ptr (ti_free_ptr ti) (k_buff s);
        Some (with_tree (ti\<lparr>ti_free_ptr := ptr\<rparr>) k s) })"

definition next_free_node :: "('k, 'v) splay_map \<Rightarrow> (nat \<times> ('k, 'v) splay_map) option" where
  "next_free_node s = do {
     ti \<leftarrow> t_info s;
     if ti_free_ptr ti = 0 then Some (ti_t_size ti, s)
     else do {
       n \<leftarrow> get_node_lc (k_buff s) (ti_free_ptr ti);
       Some (ti_free_ptr ti, with_tree (ti\<lparr>ti_free_ptr := n\<rparr>) (k_buff s) s) } }"

text \<open>The two flags are the answers of \<open>realloc\<close> for the two buffers. A buffer of \<open>malloc_size\<close> bytes
  holds the nodes that fit into it.\<close>

definition reallocate_init ::
    "('k, 'v) sm_types \<Rightarrow> bool \<Rightarrow> bool \<Rightarrow> ('k, 'v) splay_map \<Rightarrow> (bool \<times> ('k, 'v) splay_map) option" where
  "reallocate_init T key_ok val_ok s =
     (let malloc_size = u32_of (sizeof_tree_info + i_size s * sz_node T);
          ti = \<lparr>ti_root_ptr = 0, ti_free_ptr = 0, ti_b_size = 0, ti_t_size = 0\<rparr>
      in if \<not> key_ok then Some (False, s)
      else if malloc_size < sizeof_tree_info then None
      else let s = with_tree ti (replicate ((malloc_size - sizeof_tree_info) div sz_node T) (zero_node T)) s;
               malloc_size = u32_of (i_size s * sz_val T)
           in if \<not> val_ok then Some (False, s)
           else Some (True, s\<lparr>t_info := Some (ti\<lparr>ti_b_size := i_size s\<rparr>),
                              v_buff := replicate (malloc_size div sz_val T) (val_zero T)\<rparr>))"

definition reallocate_grow ::
    "('k, 'v) sm_types \<Rightarrow> bool \<Rightarrow> bool \<Rightarrow> ('k, 'v) splay_map \<Rightarrow> (bool \<times> ('k, 'v) splay_map) option" where
  "reallocate_grow T key_ok val_ok s = do {
     ti \<leftarrow> t_info s;
     let b = ti_b_size ti;
     let malloc_size = u32_of (sizeof_tree_info + u32_of (b + i_size s) * sz_node T);
     if \<not> key_ok then Some (False, s)
     else if malloc_size < sizeof_tree_info + (b + i_size s) * sz_node T then None
     else do {
       let s = s\<lparr>k_buff := take b (k_buff s) @ replicate (i_size s) (zero_node T)\<rparr>;
       let malloc_size = u32_of (u32_of (b + i_size s) * sz_val T);
       if \<not> val_ok then Some (False, s)
       else if malloc_size < (b + i_size s) * sz_val T then None
       else Some (True, s\<lparr>t_info := Some (ti\<lparr>ti_b_size := u32_of (b + i_size s)\<rparr>),
                          v_buff := take b (v_buff s) @ replicate (i_size s) (val_zero T)\<rparr>) } }"

definition reallocate_memory ::
    "('k, 'v) sm_types \<Rightarrow> bool \<Rightarrow> bool \<Rightarrow> bool \<Rightarrow> ('k, 'v) splay_map \<Rightarrow> (bool \<times> ('k, 'v) splay_map) option" where
  "reallocate_memory T key_ok val_ok is_init s =
     (if is_init then reallocate_init T key_ok val_ok s else reallocate_grow T key_ok val_ok s)"

text \<open>The contents and the size of the two buffers the sources hold, if any.\<close>

definition sm_init ::
    "('k, 'v) sm_types \<Rightarrow> bool \<Rightarrow> bool \<Rightarrow> nat \<Rightarrow> (tree_info \<times> 'k sm_node list \<times> nat) option \<Rightarrow> ('v list \<times> nat) option
     \<Rightarrow> ('k, 'v) splay_map option" where
  "sm_init T key_ok val_ok is kb vb =
     (let s = \<lparr>t_info = None, k_buff = [], last_ptr = 0, v_buff = [], i_size = (if is = 0 then 1024 else is)\<rparr>;
          fresh = (\<lambda>s. map_option snd (reallocate_memory T key_ok val_ok True s))
      in case kb of
           None \<Rightarrow> fresh s
         | Some (ti, k, len) \<Rightarrow>
             if len > sizeof_tree_info then
               let s = s\<lparr>t_info := Some ti\<rparr>
               in if ti_b_size ti * sz_node T > len - sizeof_tree_info \<or> ti_root_ptr ti \<ge> ti_b_size ti
                     \<or> ti_free_ptr ti \<ge> ti_b_size ti \<or> ti_t_size ti \<ge> ti_b_size ti
                     \<or> (case vb of None \<Rightarrow> True | Some (v, vlen) \<Rightarrow> vlen < ti_b_size ti * sz_val T)
                  then fresh s
                  else Some (s\<lparr>k_buff := k, v_buff := fst (the vb)\<rparr>)
             else fresh s)"

text \<open>The constructor: both sources are new and hold no buffer.\<close>

definition sm_new :: "('k, 'v) sm_types \<Rightarrow> bool \<Rightarrow> bool \<Rightarrow> nat \<Rightarrow> ('k, 'v) splay_map option" where
  "sm_new T key_ok val_ok is = sm_init T key_ok val_ok is None None"

text \<open>A new node: its number is taken from the chain of free nodes or is the new size.\<close>

definition sm_insert ::
    "('k::linorder, 'v) sm_types \<Rightarrow> bool \<Rightarrow> bool \<Rightarrow> 'k \<Rightarrow> 'v \<Rightarrow> ('k, 'v) splay_map \<Rightarrow> (nat option \<times> ('k, 'v) splay_map) option"
where
  "sm_insert T key_ok val_ok key x s = do {
     ti \<leftarrow> t_info s;
     (ok, s) \<leftarrow> (if u32_of (ti_t_size ti + 1) = ti_b_size ti then reallocate_memory T key_ok val_ok False s
                  else Some (True, s));
     if \<not> ok then Some (None, s)
     else do {
       ti \<leftarrow> t_info s;
       if ti_root_ptr ti = 0 then do {
         (n, s) \<leftarrow> next_free_node (with_tree (ti\<lparr>ti_t_size := 1\<rparr>) (k_buff s) s);
         k \<leftarrow> set_node_key n key (k_buff s);
         k \<leftarrow> set_node_lc n 0 k;
         k \<leftarrow> set_node_rc n 0 k;
         v \<leftarrow> set_val n x (v_buff s);
         ti \<leftarrow> t_info s;
         Some (Some n, (with_tree (ti\<lparr>ti_root_ptr := n\<rparr>) k s)\<lparr>v_buff := v\<rparr>) }
       else do {
         (found, root, k) \<leftarrow> splay key (ti_root_ptr ti) (k_buff s);
         let s = with_tree (ti\<lparr>ti_root_ptr := root\<rparr>) k s;
         if found then do {
           v \<leftarrow> set_val root x (v_buff s);
           Some (Some root, s\<lparr>v_buff := v\<rparr>) }
         else do {
           rkey \<leftarrow> get_node_key k root;
           ti \<leftarrow> t_info s;
           (n, s) \<leftarrow> next_free_node (with_tree (ti\<lparr>ti_t_size := u32_of (ti_t_size ti + 1)\<rparr>) k s);
           k \<leftarrow> set_node_key n key (k_buff s);
           k \<leftarrow> (if rkey > key then do {
                    c \<leftarrow> get_node_lc k root;
                    k \<leftarrow> set_node_lc n c k;
                    set_node_rc n root k }
                  else do {
                    c \<leftarrow> get_node_rc k root;
                    k \<leftarrow> set_node_rc n c k;
                    set_node_lc n root k });
           v \<leftarrow> set_val n x (v_buff s);
           k \<leftarrow> (if rkey > key then set_node_lc root 0 k else set_node_rc root 0 k);
           ti \<leftarrow> t_info s;
           Some (Some n, (with_tree (ti\<lparr>ti_root_ptr := n\<rparr>) k s)\<lparr>v_buff := v\<rparr>) } } } }"

text \<open>The slot of the removed value is returned; the value stays in it.\<close>

definition sm_remove :: "'k::linorder \<Rightarrow> ('k, 'v) splay_map \<Rightarrow> (nat option \<times> ('k, 'v) splay_map) option" where
  "sm_remove key s = do {
     ti \<leftarrow> t_info s;
     (found, root, k) \<leftarrow> splay key (ti_root_ptr ti) (k_buff s);
     let s = with_tree (ti\<lparr>ti_root_ptr := root\<rparr>) k s;
     if \<not> found then Some (None, s)
     else do {
       lc \<leftarrow> get_node_lc k root;
       (x, k) \<leftarrow> (if lc = 0 then do { rc \<leftarrow> get_node_rc k root; Some (rc, k) }
                   else do {
                     (_, x, k) \<leftarrow> splay key lc k;
                     c \<leftarrow> get_node_rc k root;
                     k \<leftarrow> set_node_rc x c k;
                     Some (x, k) });
       s \<leftarrow> free_node root (s\<lparr>k_buff := k\<rparr>);
       ti \<leftarrow> t_info s;
       Some (Some root, s\<lparr>t_info := Some (ti\<lparr>ti_t_size := (ti_t_size ti + 2 ^ 32 - 1) mod 2 ^ 32, ti_root_ptr := x\<rparr>)\<rparr>) } }"

definition sm_exist :: "'k::linorder \<Rightarrow> ('k, 'v) splay_map \<Rightarrow> (bool \<times> ('k, 'v) splay_map) option" where
  "sm_exist key s = do { (p, s) \<leftarrow> inter_find key s; Some (p \<noteq> 0, s\<lparr>last_ptr := p\<rparr>) }"

definition sm_find :: "('k, 'v) splay_map \<Rightarrow> 'v option" where
  "sm_find s = get_val (v_buff s) (last_ptr s)"

definition sm_root_ptr :: "('k, 'v) splay_map \<Rightarrow> nat option" where
  "sm_root_ptr s = map_option ti_root_ptr (t_info s)"

definition sm_get :: "nat \<Rightarrow> ('k, 'v) splay_map \<Rightarrow> 'v option" where
  "sm_get p s = get_val (v_buff s) p"

definition sm_size :: "('k, 'v) splay_map \<Rightarrow> nat option" where
  "sm_size s = map_option ti_t_size (t_info s)"

definition sm_enumerate ::
    "('k, 'v, 'c) sm_callback \<Rightarrow> ('k, 'v) splay_map \<Rightarrow> 'c \<Rightarrow> (('k, 'v) splay_map \<times> 'c) option" where
  "sm_enumerate callback s c = do { ti \<leftarrow> t_info s; inter_enumerate (ti_root_ptr ti) callback s c }"

end
