(* ===== verification/SplayInv.thy ===== *)
theory SplayInv
  imports SplayMap
begin

text \<open>
  Splaying restructures the nodes of the buffer and nothing else: the nodes reachable from the root form a tree
  whose order of elements it keeps, and the search returns. The loop is followed with the two side trees as lists
  of frames, the frame linked last first.
\<close>

section \<open>The links and keys of a buffer\<close>

definition lf :: "'k sm_node list \<Rightarrow> nat \<Rightarrow> nat" where
  "lf k x = sn_left (k ! x)"

definition rf :: "'k sm_node list \<Rightarrow> nat \<Rightarrow> nat" where
  "rf k x = sn_right (k ! x)"

definition kf :: "'k sm_node list \<Rightarrow> nat \<Rightarrow> 'k" where
  "kf k x = sn_key (k ! x)"

named_theorems node_simps \<open>accesses to the node buffer in terms of its links and keys\<close>

definition set_lc :: "nat \<Rightarrow> nat \<Rightarrow> 'k sm_node list \<Rightarrow> 'k sm_node list" where
  "set_lc p v k = k[p := (k ! p)\<lparr>sn_left := v\<rparr>]"

definition set_rc :: "nat \<Rightarrow> nat \<Rightarrow> 'k sm_node list \<Rightarrow> 'k sm_node list" where
  "set_rc p v k = k[p := (k ! p)\<lparr>sn_right := v\<rparr>]"

definition set_key :: "nat \<Rightarrow> 'k \<Rightarrow> 'k sm_node list \<Rightarrow> 'k sm_node list" where
  "set_key p v k = k[p := (k ! p)\<lparr>sn_key := v\<rparr>]"

lemma get_node_simps [node_simps]:
  "p < length k \<Longrightarrow> get_node_lc k p = Some (lf k p)"
  "p < length k \<Longrightarrow> get_node_rc k p = Some (rf k p)"
  "p < length k \<Longrightarrow> get_node_key k p = Some (kf k p)"
  by (simp_all add: get_node_lc_def get_node_rc_def get_node_key_def get_node_def lf_def rf_def kf_def)

lemma set_node_simps [node_simps]:
  "p < length k \<Longrightarrow> set_node_lc p v k = Some (set_lc p v k)"
  "p < length k \<Longrightarrow> set_node_rc p v k = Some (set_rc p v k)"
  "p < length k \<Longrightarrow> set_node_key p x k = Some (set_key p x k)"
  by (simp_all add: set_node_lc_def set_node_rc_def set_node_key_def set_lc_def set_rc_def set_key_def)

lemma length_set_links [simp]:
  "length (set_lc p v k) = length k" "length (set_rc p v k) = length k" "length (set_key p x k) = length k"
  by (simp_all add: set_lc_def set_rc_def set_key_def)

lemma links_after_set [node_simps]:
  "p < length k \<Longrightarrow> lf (set_lc p v k) = (lf k)(p := v)"
  "p < length k \<Longrightarrow> lf (set_rc p v k) = lf k"
  "p < length k \<Longrightarrow> lf (set_key p x k) = lf k"
  "p < length k \<Longrightarrow> rf (set_lc p v k) = rf k"
  "p < length k \<Longrightarrow> rf (set_rc p v k) = (rf k)(p := v)"
  "p < length k \<Longrightarrow> rf (set_key p x k) = rf k"
  "p < length k \<Longrightarrow> kf (set_lc p v k) = kf k"
  "p < length k \<Longrightarrow> kf (set_rc p v k) = kf k"
  "p < length k \<Longrightarrow> kf (set_key p x k) = (kf k)(p := x)"
  by (auto simp: fun_eq_iff lf_def rf_def kf_def set_lc_def set_rc_def set_key_def nth_list_update)

section \<open>Trees of nodes\<close>

text \<open>The nodes reachable from a pointer form this tree.\<close>

fun ptree :: "nat \<Rightarrow> (nat \<Rightarrow> nat) \<Rightarrow> (nat \<Rightarrow> nat) \<Rightarrow> nat \<Rightarrow> nat tree \<Rightarrow> bool" where
  "ptree n L R p Leaf \<longleftrightarrow> p = 0"
| "ptree n L R p (Node a x b) \<longleftrightarrow> p = x \<and> 0 < x \<and> x < n \<and> ptree n L R (L x) a \<and> ptree n L R (R x) b"

abbreviation nodes :: "'a tree \<Rightarrow> 'a set" where
  "nodes t \<equiv> set_tree t"

lemma ptree_cong:
  assumes "ptree n L R p t" and "\<And>x. x \<in> nodes t \<Longrightarrow> L' x = L x" and "\<And>x. x \<in> nodes t \<Longrightarrow> R' x = R x"
    and "n \<le> n'"
  shows "ptree n' L' R' p t"
  using assms by (induction t arbitrary: p) auto

lemma ptree_upd [simp]:
  "x \<notin> nodes t \<Longrightarrow> ptree n (L(x := v)) R p t = ptree n L R p t"
  "x \<notin> nodes t \<Longrightarrow> ptree n L (R(x := v)) p t = ptree n L R p t"
  by (induction t arbitrary: p) auto

lemma ptree_zero_iff: "ptree n L R p t \<Longrightarrow> p = 0 \<longleftrightarrow> t = Leaf"
  by (cases t) auto

lemma ptree_nodes: "ptree n L R p t \<Longrightarrow> x \<in> nodes t \<Longrightarrow> 0 < x \<and> x < n"
  by (induction t arbitrary: p) auto

lemma ptree_NodeE:
  assumes "ptree n L R p t" and "p \<noteq> 0"
  obtains a b where "t = Node a p b" "0 < p" "p < n" "ptree n L R (L p) a" "ptree n L R (R p) b"
  using assms by (cases t) auto

lemma ptree_unique: "ptree n L R p t \<Longrightarrow> ptree n L R p t' \<Longrightarrow> t = t'"
proof (induction t arbitrary: p t')
  case Leaf
  then show ?case by (cases t') auto
next
  case (Node a x b)
  then show ?case by (cases t') auto
qed

section \<open>Side trees\<close>

text \<open>Where the next node will be linked: the header while there is no frame.\<close>

fun tip :: "(nat \<times> nat tree) list \<Rightarrow> nat" where
  "tip [] = 0"
| "tip ((x, a) # fs) = x"

fun lchain :: "nat \<Rightarrow> (nat \<Rightarrow> nat) \<Rightarrow> (nat \<Rightarrow> nat) \<Rightarrow> (nat \<times> nat tree) list \<Rightarrow> bool" where
  "lchain n L R [] \<longleftrightarrow> True"
| "lchain n L R ((x, a) # fs) \<longleftrightarrow> 0 < x \<and> x < n \<and> ptree n L R (L x) a \<and> R (tip fs) = x \<and> lchain n L R fs"

text \<open>The right side tree is the left one with the links exchanged.\<close>

fun lorder :: "(nat \<times> nat tree) list \<Rightarrow> nat list" where
  "lorder [] = []"
| "lorder ((x, a) # fs) = lorder fs @ inorder a @ [x]"

fun rorder :: "(nat \<times> nat tree) list \<Rightarrow> nat list" where
  "rorder [] = []"
| "rorder ((x, b) # fs) = x # inorder b @ rorder fs"

fun rchain :: "nat \<Rightarrow> (nat \<Rightarrow> nat) \<Rightarrow> (nat \<Rightarrow> nat) \<Rightarrow> (nat \<times> nat tree) list \<Rightarrow> bool" where
  "rchain n L R [] \<longleftrightarrow> True"
| "rchain n L R ((x, b) # fs) \<longleftrightarrow> 0 < x \<and> x < n \<and> ptree n L R (R x) b \<and> L (tip fs) = x \<and> rchain n L R fs"

lemma tip_in: "fs \<noteq> [] \<Longrightarrow> tip fs \<in> set (lorder fs)" "fs \<noteq> [] \<Longrightarrow> tip fs \<in> set (rorder fs)"
  by (cases fs; auto)+

lemma tip_cases: "tip fs = 0 \<or> tip fs \<in> set (lorder fs)" "tip fs = 0 \<or> tip fs \<in> set (rorder fs)"
  by (cases fs; auto)+

lemma lchain_nodes: "lchain n L R fs \<Longrightarrow> x \<in> set (lorder fs) \<Longrightarrow> 0 < x \<and> x < n"
  by (induction fs rule: lorder.induct) (auto dest: ptree_nodes)

lemma rchain_nodes: "rchain n L R fs \<Longrightarrow> x \<in> set (rorder fs) \<Longrightarrow> 0 < x \<and> x < n"
  by (induction fs rule: rorder.induct) (auto dest: ptree_nodes)

lemma lchain_tip: "lchain n L R fs \<Longrightarrow> 0 < n \<Longrightarrow> tip fs < n"
  by (cases fs rule: tip.cases) auto

lemma rchain_tip: "rchain n L R fs \<Longrightarrow> 0 < n \<Longrightarrow> tip fs < n"
  by (cases fs rule: tip.cases) auto

text \<open>Changing a link of a node outside the side tree, or the open link of its tip, keeps it.\<close>

lemma lchain_upd_L: "x \<notin> set (lorder fs) \<Longrightarrow> lchain n (L(x := v)) R fs = lchain n L R fs"
  by (induction fs rule: lorder.induct) auto

lemma lchain_upd_R:
  "x \<notin> set (lorder fs) \<Longrightarrow> x \<noteq> 0 \<Longrightarrow> lchain n L (R(x := v)) fs = lchain n L R fs"
proof (induction fs rule: lorder.induct)
  case (2 y a fs)
  then have "tip fs \<noteq> x" using tip_cases(1) [of fs] by auto
  with 2 show ?case by (simp add: fun_upd_other del: fun_upd_apply)
qed simp

lemma lchain_upd_tip:
  assumes "distinct (lorder fs)" and "lchain n L R fs"
  shows "lchain n L (R(tip fs := v)) fs"
proof (cases fs rule: tip.cases)
  case (2 x a rest)
  then have "x \<notin> nodes a" "x \<notin> set (lorder rest)" "tip rest \<noteq> x" "0 < x"
    using assms tip_cases(1) [of rest] by auto
  then show ?thesis using assms 2 by (simp add: lchain_upd_R)
qed simp

lemma rchain_upd_R: "x \<notin> set (rorder fs) \<Longrightarrow> rchain n L (R(x := v)) fs = rchain n L R fs"
  by (induction fs rule: rorder.induct) auto

lemma rchain_upd_L:
  "x \<notin> set (rorder fs) \<Longrightarrow> x \<noteq> 0 \<Longrightarrow> rchain n (L(x := v)) R fs = rchain n L R fs"
proof (induction fs rule: rorder.induct)
  case (2 y a fs)
  then have "tip fs \<noteq> x" using tip_cases(2) [of fs] by auto
  with 2 show ?case by (simp add: fun_upd_other del: fun_upd_apply)
qed simp

lemma rchain_upd_tip:
  assumes "distinct (rorder fs)" and "rchain n L R fs"
  shows "rchain n (L(tip fs := v)) R fs"
proof (cases fs rule: tip.cases)
  case (2 x a rest)
  then have "x \<notin> nodes a" "x \<notin> set (rorder rest)" "tip rest \<noteq> x" "0 < x"
    using assms tip_cases(2) [of rest] by auto
  then show ?thesis using assms 2 by (simp add: rchain_upd_L)
qed simp

text \<open>A side tree whose open link is given a tree is a tree below the header.\<close>

fun lclose :: "(nat \<times> nat tree) list \<Rightarrow> nat tree \<Rightarrow> nat tree" where
  "lclose [] t = t"
| "lclose ((x, a) # fs) t = lclose fs (Node a x t)"

fun rclose :: "(nat \<times> nat tree) list \<Rightarrow> nat tree \<Rightarrow> nat tree" where
  "rclose [] t = t"
| "rclose ((x, b) # fs) t = rclose fs (Node t x b)"

lemma inorder_lclose [simp]: "inorder (lclose fs t) = lorder fs @ inorder t"
  by (induction fs t rule: lclose.induct) simp_all

lemma inorder_rclose [simp]: "inorder (rclose fs t) = inorder t @ rorder fs"
  by (induction fs t rule: rclose.induct) simp_all

lemma ptree_lclose: "lchain n L R fs \<Longrightarrow> ptree n L R (R (tip fs)) t \<Longrightarrow> ptree n L R (R 0) (lclose fs t)"
  by (induction fs t rule: lclose.induct) auto

lemma ptree_rclose: "rchain n L R fs \<Longrightarrow> ptree n L R (L (tip fs)) t \<Longrightarrow> ptree n L R (L 0) (rclose fs t)"
  by (induction fs t rule: rclose.induct) auto

section \<open>The loop\<close>

text \<open>The buffer \<open>k\<close> differs from \<open>k0\<close> in the links of these nodes and of the header only.\<close>

definition links_kept :: "nat set \<Rightarrow> 'k sm_node list \<Rightarrow> 'k sm_node list \<Rightarrow> bool" where
  "links_kept X k0 k \<longleftrightarrow> length k = length k0 \<and> kf k = kf k0 \<and>
     (\<forall>x. x \<notin> X \<longrightarrow> x \<noteq> 0 \<longrightarrow> lf k x = lf k0 x \<and> rf k x = rf k0 x)"

lemma links_kept_refl [simp]: "links_kept X k k"
  by (simp add: links_kept_def)

lemma links_kept_set:
  assumes "links_kept X k0 k" and "p = 0 \<or> p \<in> X" and "p < length k"
  shows "links_kept X k0 (set_lc p v k)" "links_kept X k0 (set_rc p v k)"
  using assms by (auto simp: links_kept_def node_simps)

text \<open>\<open>xs\<close> are the nodes of the tree in order.\<close>

definition loop_inv ::
    "'k::linorder sm_node list \<Rightarrow> nat list \<Rightarrow> 'k \<Rightarrow> 'k sm_node list \<Rightarrow> (nat \<times> nat tree) list \<Rightarrow> nat \<Rightarrow> nat tree
     \<Rightarrow> (nat \<times> nat tree) list \<Rightarrow> bool" where
  "loop_inv k0 xs key k ls t T rs \<longleftrightarrow>
     0 < length k \<and> links_kept (set xs) k0 k \<and> distinct xs \<and> sorted_wrt (\<lambda>x y. kf k0 x < kf k0 y) xs
     \<and> lorder ls @ inorder T @ rorder rs = xs \<and> T \<noteq> Leaf
     \<and> ptree (length k) (lf k) (rf k) t T \<and> lchain (length k) (lf k) (rf k) ls \<and> rchain (length k) (lf k) (rf k) rs
     \<and> (\<forall>x\<in>set (lorder ls). kf k x < key) \<and> (\<forall>x\<in>set (rorder rs). key < kf k x)"

lemma loop_inv_NodeE:
  assumes "loop_inv k0 xs key k ls t T rs"
  obtains a b where "T = Node a t b" "t < length k" "0 < t"
  using assms by (cases T) (auto simp: loop_inv_def)

lemma loop_inv_tips:
  assumes "loop_inv k0 xs key k ls t T rs"
  shows "tip ls < length k" "tip rs < length k" "tip ls = 0 \<or> tip ls \<in> set xs" "tip rs = 0 \<or> tip rs \<in> set xs"
    "tip ls \<notin> nodes T" "tip rs \<notin> nodes T" "0 \<notin> set xs"
proof -
  note d = assms [unfolded loop_inv_def]
  show "tip ls < length k" "tip rs < length k" using d lchain_tip rchain_tip by blast+
  have z: "0 \<notin> set xs"
    using d ptree_nodes [of _ _ _ t T 0] lchain_nodes [of _ _ _ ls 0] rchain_nodes [of _ _ _ rs 0] by auto
  then show "0 \<notin> set xs" .
  show "tip ls = 0 \<or> tip ls \<in> set xs" "tip rs = 0 \<or> tip rs \<in> set xs"
    using d tip_cases(1) [of ls] tip_cases(2) [of rs] by auto
  show "tip ls \<notin> nodes T" "tip rs \<notin> nodes T"
    using d z tip_cases(1) [of ls] tip_cases(2) [of rs] by auto
qed

lemma loop_inv_order:
  assumes "loop_inv k0 xs key k ls t (Node a t b) rs"
  shows "\<forall>x\<in>nodes a. kf k x < kf k t" "\<forall>x\<in>nodes b. kf k t < kf k x"
proof -
  have "sorted_wrt (\<lambda>x y. kf k x < kf k y) (lorder ls @ inorder (Node a t b) @ rorder rs)"
    using assms by (simp add: loop_inv_def links_kept_def)
  then show "\<forall>x\<in>nodes a. kf k x < kf k t" "\<forall>x\<in>nodes b. kf k t < kf k x"
    by (simp_all add: sorted_wrt_append)
qed

lemma link_right:
  assumes I: "loop_inv k0 xs key k ls t (Node a t b) rs" and "key < kf k t" and "a \<noteq> Leaf"
  shows "loop_inv k0 xs key (set_lc (tip rs) t k) ls (lf k t) a ((t, b) # rs)"
    and "lf (set_lc (tip rs) t k) t = lf k t"
proof -
  note d = I [unfolded loop_inv_def] and p = loop_inv_tips [OF I]
  have disj: "tip rs \<notin> nodes a" "tip rs \<notin> nodes b" "t \<noteq> tip rs" "tip rs \<notin> set (lorder ls)"
    using p d tip_cases(2) [of rs] by auto
  have ord: "\<forall>x\<in>nodes b. key < kf k x"
    using loop_inv_order(2) [OF I] \<open>key < kf k t\<close> by (blast intro: less_trans)
  have "rchain (length k) ((lf k)(tip rs := t)) (rf k) rs"
    using d by (intro rchain_upd_tip) auto
  then show "loop_inv k0 xs key (set_lc (tip rs) t k) ls (lf k t) a ((t, b) # rs)"
    using d p disj ord \<open>a \<noteq> Leaf\<close> \<open>key < kf k t\<close>
    by (auto simp: loop_inv_def node_simps links_kept_set lchain_upd_L)
  show "lf (set_lc (tip rs) t k) t = lf k t"
    using p disj by (simp add: node_simps)
qed

lemma link_left:
  assumes I: "loop_inv k0 xs key k ls t (Node a t b) rs" and "kf k t < key" and "b \<noteq> Leaf"
  shows "loop_inv k0 xs key (set_rc (tip ls) t k) ((t, a) # ls) (rf k t) b rs"
    and "rf (set_rc (tip ls) t k) t = rf k t"
proof -
  note d = I [unfolded loop_inv_def] and p = loop_inv_tips [OF I]
  have disj: "tip ls \<notin> nodes a" "tip ls \<notin> nodes b" "t \<noteq> tip ls" "tip ls \<notin> set (rorder rs)"
    using p d tip_cases(1) [of ls] by auto
  have ord: "\<forall>x\<in>nodes a. kf k x < key"
    using loop_inv_order(1) [OF I] \<open>kf k t < key\<close> by (blast intro: less_trans)
  have "lchain (length k) (lf k) ((rf k)(tip ls := t)) ls"
    using d by (intro lchain_upd_tip) auto
  then show "loop_inv k0 xs key (set_rc (tip ls) t k) ((t, a) # ls) (rf k t) b rs"
    using d p disj ord \<open>b \<noteq> Leaf\<close> \<open>kf k t < key\<close>
    by (auto simp: loop_inv_def node_simps links_kept_set rchain_upd_R)
  show "rf (set_rc (tip ls) t k) t = rf k t"
    using p disj by (simp add: node_simps)
qed

lemma rotate_right:
  assumes I: "loop_inv k0 xs key k ls t (Node (Node a c b) t d) rs"
  shows "loop_inv k0 xs key (set_rc c t (set_lc t (rf k c) k)) ls c (Node a c (Node b t d)) rs"
    and "lf (set_rc c t (set_lc t (rf k c) k)) c = lf k c"
  using I by (auto simp: loop_inv_def node_simps links_kept_set lchain_upd_L lchain_upd_R rchain_upd_L rchain_upd_R)

lemma rotate_left:
  assumes I: "loop_inv k0 xs key k ls t (Node d t (Node b c a)) rs"
  shows "loop_inv k0 xs key (set_lc c t (set_rc t (lf k c) k)) ls c (Node (Node d t b) c a) rs"
    and "rf (set_lc c t (set_rc t (lf k c) k)) c = rf k c"
  using I by (auto simp: loop_inv_def node_simps links_kept_set lchain_upd_L lchain_upd_R rchain_upd_L rchain_upd_R)

text \<open>The loop stops at the node of the key or next to where it would be.\<close>

definition loop_stop ::
    "'k::linorder sm_node list \<Rightarrow> nat list \<Rightarrow> 'k \<Rightarrow> (bool \<times> nat \<times> nat \<times> nat \<times> 'k sm_node list) option \<Rightarrow> bool" where
  "loop_stop k0 xs key res \<longleftrightarrow> (\<exists>ret ls rs t a b k.
     res = Some (ret, tip ls, tip rs, t, k) \<and> loop_inv k0 xs key k ls t (Node a t b) rs
     \<and> (ret \<longleftrightarrow> kf k t = key) \<and> (key < kf k t \<longrightarrow> a = Leaf) \<and> (kf k t < key \<longrightarrow> b = Leaf))"

lemma loop_stopI:
  assumes "loop_inv k0 xs key k ls t (Node a t b) rs" and "ret \<longleftrightarrow> kf k t = key"
    and "key < kf k t \<Longrightarrow> a = Leaf" and "kf k t < key \<Longrightarrow> b = Leaf"
  shows "loop_stop k0 xs key (Some (ret, tip ls, tip rs, t, k))"
  using assms unfolding loop_stop_def by blast

lemma loop_inv_children:
  assumes "loop_inv k0 xs key k ls t (Node a t b) rs"
  shows "t < length k" "lf k t = 0 \<longleftrightarrow> a = Leaf" "rf k t = 0 \<longleftrightarrow> b = Leaf"
    "a \<noteq> Leaf \<Longrightarrow> lf k t < length k" "b \<noteq> Leaf \<Longrightarrow> rf k t < length k"
    "a \<noteq> Leaf \<Longrightarrow> \<exists>c d. a = Node c (lf k t) d" "b \<noteq> Leaf \<Longrightarrow> \<exists>c d. b = Node c (rf k t) d"
  using assms by (cases a; cases b; auto simp: loop_inv_def)+

lemma splay_loop_right:
  assumes I: "loop_inv k0 xs key k ls t (Node a t b) rs" and key: "key < kf k t"
    and IH: "\<And>k ls t' T rs. loop_inv k0 xs key k ls t' T rs \<Longrightarrow> size T < size (Node a t b)
               \<Longrightarrow> loop_stop k0 xs key (splay_loop key (tip ls) (tip rs) t' k)"
  shows "loop_stop k0 xs key (splay_loop key (tip ls) (tip rs) t k)"
proof (cases "a = Leaf")
  case True
  then show ?thesis
    using I key loop_inv_children [OF I]
    by (simp add: splay_loop.simps [of key _ _ t] node_simps loop_stopI [OF I])
next
  case False
  note ch = loop_inv_children [OF I]
  obtain c d where a: "a = Node c (lf k t) d" using ch(6) [OF False] by blast
  show ?thesis
  proof (cases "key < kf k (lf k t)")
    case zig: True
    let ?c = "lf k t"
    let ?k = "set_rc ?c t (set_lc t (rf k ?c) k)"
    have R: "loop_inv k0 xs key ?k ls ?c (Node c ?c (Node d t b)) rs"
      using rotate_right(1) [of k0 xs key k ls t c ?c d b rs] I a by simp
    have kf: "kf ?k = kf k" using ch False by (simp add: node_simps)
    show ?thesis
    proof (cases "c = Leaf")
      case True
      then show ?thesis
        using False key zig ch loop_inv_children [OF R] loop_stopI [OF R, of False] kf
        by (simp add: splay_loop.simps [of key _ _ t] node_simps)
    next
      case nl: False
      note link = link_right [OF R _ nl, unfolded kf, OF zig]
      have "loop_stop k0 xs key (splay_loop key (tip ls) ?c (lf ?k ?c) (set_lc (tip rs) ?c ?k))"
        using IH [OF link(1)] a by simp
      then show ?thesis
        using nl False key zig ch loop_inv_children [OF R] link(2) loop_inv_tips(2) [OF R]
        by (simp add: splay_loop.simps [of key _ _ t] node_simps)
    qed
  next
    case zag: False
    note link = link_right [OF I key False]
    have "loop_stop k0 xs key (splay_loop key (tip ls) t (lf k t) (set_lc (tip rs) t k))"
      using IH [OF link(1)] by simp
    then show ?thesis
      using False key zag ch link(2) loop_inv_tips(2) [OF I]
      by (simp add: splay_loop.simps [of key _ _ t] node_simps)
  qed
qed

lemma splay_loop_left:
  assumes I: "loop_inv k0 xs key k ls t (Node a t b) rs" and key: "kf k t < key"
    and IH: "\<And>k ls t' T rs. loop_inv k0 xs key k ls t' T rs \<Longrightarrow> size T < size (Node a t b)
               \<Longrightarrow> loop_stop k0 xs key (splay_loop key (tip ls) (tip rs) t' k)"
  shows "loop_stop k0 xs key (splay_loop key (tip ls) (tip rs) t k)"
proof (cases "b = Leaf")
  case True
  then show ?thesis
    using I key less_imp_not_less [OF key] loop_inv_children [OF I]
    by (simp add: splay_loop.simps [of key _ _ t] node_simps loop_stopI [OF I])
next
  case False
  note ch = loop_inv_children [OF I]
  obtain c d where b: "b = Node d (rf k t) c" using ch(7) [OF False] by blast
  have nk: "\<not> key < kf k t" using key by simp
  show ?thesis
  proof (cases "kf k (rf k t) < key")
    case zig: True
    let ?c = "rf k t"
    let ?k = "set_lc ?c t (set_rc t (lf k ?c) k)"
    have R: "loop_inv k0 xs key ?k ls ?c (Node (Node a t d) ?c c) rs"
      using rotate_left(1) [of k0 xs key k ls t a d ?c c rs] I b by simp
    have kf: "kf ?k = kf k" using ch False by (simp add: node_simps)
    show ?thesis
    proof (cases "c = Leaf")
      case True
      then show ?thesis
        using False key nk zig ch loop_inv_children [OF R] loop_stopI [OF R, of False] kf
        by (simp add: splay_loop.simps [of key _ _ t] node_simps)
    next
      case nl: False
      note link = link_left [OF R _ nl, unfolded kf, OF zig]
      have "loop_stop k0 xs key (splay_loop key ?c (tip rs) (rf ?k ?c) (set_rc (tip ls) ?c ?k))"
        using IH [OF link(1)] b by simp
      then show ?thesis
        using nl False key nk zig ch loop_inv_children [OF R] link(2) loop_inv_tips(1) [OF R]
        by (simp add: splay_loop.simps [of key _ _ t] node_simps)
    qed
  next
    case zag: False
    note link = link_left [OF I key False]
    have "loop_stop k0 xs key (splay_loop key t (tip rs) (rf k t) (set_rc (tip ls) t k))"
      using IH [OF link(1)] by simp
    then show ?thesis
      using False key nk zag ch link(2) loop_inv_tips(1) [OF I]
      by (simp add: splay_loop.simps [of key _ _ t] node_simps)
  qed
qed

lemma splay_loop_stops:
  "loop_inv k0 xs key k ls t T rs \<Longrightarrow> loop_stop k0 xs key (splay_loop key (tip ls) (tip rs) t k)"
proof (induction "size T" arbitrary: k ls t T rs rule: less_induct)
  case less
  from less.prems obtain a b where T: "T = Node a t b" and t: "t < length k"
    by (rule loop_inv_NodeE)
  note I = less.prems [unfolded T] and IH = less.hyps [unfolded T]
  consider "key < kf k t" | "kf k t < key" | "kf k t = key" by fastforce
  then show ?case
  proof cases
    case 1
    then show ?thesis using splay_loop_right [OF I] IH by blast
  next
    case 2
    then show ?thesis using splay_loop_left [OF I] IH by blast
  next
    case 3
    then show ?thesis
      using t by (simp add: splay_loop.simps [of key _ _ t] node_simps loop_stopI [OF I])
  qed
qed

section \<open>Splaying a tree\<close>

text \<open>Hanging the side trees under the node of the loop gives one tree again.\<close>

lemma assemble_tree:
  assumes I: "loop_inv k0 xs key k ls t (Node a t b) rs"
  obtains k' where "splay_assemble (tip ls) (tip rs) t k = Some k'" "links_kept (set xs) k0 k'"
    "ptree (length k') (lf k') (rf k') t (Node (lclose ls a) t (rclose rs b))" "lf k' 0 = 0" "rf k' 0 = 0"
proof -
  note d = I [unfolded loop_inv_def] and p = loop_inv_tips [OF I] and ch = loop_inv_children [OF I]
  let ?n = "length k" and ?l = "tip ls" and ?r = "tip rs"
  let ?k1 = "set_rc ?l (lf k t) k"
  let ?k2 = "set_lc ?r (rf k t) ?k1"
  let ?k3 = "set_lc t (rf ?k2 0) ?k2"
  let ?k4 = "set_rc t (lf ?k3 0) ?k3"
  let ?k' = "set_rc 0 0 (set_lc 0 0 ?k4)"
  have disj: "?l \<notin> nodes a" "?r \<notin> nodes a" "?l \<notin> nodes b" "?r \<notin> nodes b" "t \<noteq> ?l" "t \<noteq> ?r" "t \<noteq> 0"
    "?r \<notin> set (lorder ls)" "?l \<notin> set (rorder rs)" "t \<notin> set (lorder ls)" "t \<notin> set (rorder rs)"
    "t \<notin> nodes a" "t \<notin> nodes b" "0 \<notin> nodes a" "0 \<notin> nodes b" "0 \<notin> set (lorder ls)" "0 \<notin> set (rorder rs)"
    "distinct (lorder ls)" "distinct (rorder rs)"
    using p d tip_cases(1) [of ls] tip_cases(2) [of rs] by auto
  have lt: "0 < ?n" "?l < ?n" "?r < ?n" "t < ?n" using d p ch by auto
  have kept: "links_kept (set xs) k0 k" "t \<in> set xs" using d by auto
  have f2: "lf ?k2 = (lf k)(?r := rf k t)" "rf ?k2 = (rf k)(?l := lf k t)" using lt disj by (simp_all add: node_simps)
  have chl: "lchain ?n (lf ?k2) (rf ?k2) ls" and chr: "rchain ?n (lf ?k2) (rf ?k2) rs"
    using d lchain_upd_tip [of ls] rchain_upd_tip [of rs] disj
    by (simp_all add: f2 lchain_upd_L rchain_upd_R)
  have sub: "ptree ?n (lf ?k2) (rf ?k2) (lf k t) a" "ptree ?n (lf ?k2) (rf ?k2) (rf k t) b"
    using d disj by (simp_all add: f2)
  have A: "ptree ?n (lf ?k2) (rf ?k2) (rf ?k2 0) (lclose ls a)"
    using ptree_lclose [OF chl] sub(1) by (simp add: f2(2))
  have B: "ptree ?n (lf ?k2) (rf ?k2) (lf ?k2 0) (rclose rs b)"
    using ptree_rclose [OF chr] sub(2) by (simp add: f2(1))
  have nA: "nodes (lclose ls a) = set (lorder ls) \<union> nodes a" and nB: "nodes (rclose rs b) = nodes b \<union> set (rorder rs)"
    by (metis inorder_lclose set_append set_inorder, metis inorder_rclose set_append set_inorder)
  show ?thesis
  proof
    show "splay_assemble ?l ?r t k = Some ?k'"
      using lt disj by (simp add: splay_assemble_def node_simps)
    show "links_kept (set xs) k0 ?k'"
      using p lt by (intro links_kept_set) (simp_all add: kept)
    show "ptree (length ?k') (lf ?k') (rf ?k') t (Node (lclose ls a) t (rclose rs b))"
      using A B nA nB disj lt by (simp add: node_simps)
    show "lf ?k' 0 = 0" "rf ?k' 0 = 0" using lt by (simp_all add: node_simps)
  qed
qed

theorem splay_correct:
  assumes T: "ptree (length k) (lf k) (rf k) root T" and "root \<noteq> 0"
    and "distinct (inorder T)" and "sorted_wrt (\<lambda>x y. kf k x < kf k y) (inorder T)"
  obtains a t b k' where "splay key root k = Some (kf k t = key, t, k')"
    and "ptree (length k') (lf k') (rf k') t (Node a t b)" and "inorder (Node a t b) = inorder T"
    and "links_kept (nodes T) k k'"
    and "\<forall>x\<in>nodes a. kf k x < key" and "\<forall>x\<in>nodes b. key < kf k x"
proof -
  from T \<open>root \<noteq> 0\<close> have "T \<noteq> Leaf" "0 < length k" by (cases T; auto)+
  then have "loop_inv k (inorder T) key k [] root T []"
    using assms by (simp add: loop_inv_def)
  from splay_loop_stops [OF this]
  obtain ret ls rs t a b k1 where L: "splay_loop key 0 0 root k = Some (ret, tip ls, tip rs, t, k1)"
    and I: "loop_inv k (inorder T) key k1 ls t (Node a t b) rs"
    and ret: "ret \<longleftrightarrow> kf k1 t = key" and st: "key < kf k1 t \<longrightarrow> a = Leaf" "kf k1 t < key \<longrightarrow> b = Leaf"
    by (auto simp: loop_stop_def)
  obtain k' where k': "splay_assemble (tip ls) (tip rs) t k1 = Some k'" "links_kept (nodes T) k k'"
    "ptree (length k') (lf k') (rf k') t (Node (lclose ls a) t (rclose rs b))"
    using assemble_tree [OF I] by (metis set_inorder)
  note d = I [unfolded loop_inv_def]
  have kf: "kf k1 = kf k" using d by (simp add: links_kept_def)
  note ord = loop_inv_order [OF I, unfolded kf]
  have sides: "\<forall>x\<in>set (lorder ls). kf k x < key" "\<forall>x\<in>set (rorder rs). key < kf k x" using d by (simp_all add: kf)
  have "\<forall>x\<in>nodes a. kf k x < key"
    using st(1) ord(1) by (cases "key < kf k t") (force simp: kf)+
  moreover have "\<forall>x\<in>nodes b. key < kf k x"
    using st(2) ord(2) by (cases "kf k t < key") (force simp: kf)+
  ultimately have K: "\<forall>x\<in>nodes (lclose ls a). kf k x < key" "\<forall>x\<in>nodes (rclose rs b). key < kf k x"
    using sides by (simp_all add: ball_Un flip: set_inorder)
  show ?thesis
  proof (rule that [of t k' "lclose ls a" "rclose rs b"])
    show "splay key root k = Some (kf k t = key, t, k')"
      using L k'(1) ret \<open>root \<noteq> 0\<close> by (simp add: splay_def kf)
  qed (use k' K d in simp_all)
qed

end
