(* ===== verification/SplayOps.thy ===== *)
theory SplayOps
  imports SplayInv
begin

text \<open>
  The invariant of the splay map, its abstract value, and what each of its operations does to both. The abstract
  value is the number of the node of each key, so that it tells more than the map from keys to values: the callers
  keep these numbers, and a node keeps its number as long as its key is in the map.
\<close>

section \<open>Trees and free chains\<close>

fun fchain :: "(nat \<Rightarrow> nat) \<Rightarrow> nat \<Rightarrow> nat list \<Rightarrow> bool" where
  "fchain L p [] \<longleftrightarrow> p = 0"
| "fchain L p (x # xs) \<longleftrightarrow> p = x \<and> 0 < x \<and> fchain L (L x) xs"

lemma fchain_cong:
  assumes "fchain L p xs" and "\<And>x. x \<in> set xs \<Longrightarrow> L' x = L x"
  shows "fchain L' p xs"
  using assms by (induction xs arbitrary: p) auto

lemma fchain_pos: "fchain L p xs \<Longrightarrow> x \<in> set xs \<Longrightarrow> 0 < x"
  by (induction xs arbitrary: p) auto

text \<open>The nodes in use are the first ones of the buffer after the header: those of the tree and those of the
  chain.\<close>

definition tree_rep :: "'k::linorder sm_node list \<Rightarrow> nat \<Rightarrow> nat \<Rightarrow> nat tree \<Rightarrow> nat list \<Rightarrow> bool" where
  "tree_rep k root free T fs \<longleftrightarrow>
     ptree (length k) (lf k) (rf k) root T \<and> fchain (lf k) free fs \<and> distinct (inorder T @ fs)
     \<and> sorted_wrt (\<lambda>x y. kf k x < kf k y) (inorder T)
     \<and> nodes T \<union> set fs = {0<..size T + length fs} \<and> size T + length fs < length k"

definition slots :: "'k sm_node list \<Rightarrow> nat list \<Rightarrow> 'k \<rightharpoonup> nat" where
  "slots k xs = map_of (map (\<lambda>x. (kf k x, x)) xs)"

lemma sorted_keys_distinct: "sorted_wrt (\<lambda>x y. kf k x < (kf k y :: 'k::linorder)) xs \<Longrightarrow> distinct (map (kf k) xs)"
  by (induction xs) auto

lemma slots_eq_Some:
  assumes "sorted_wrt (\<lambda>x y. kf k x < (kf k y :: 'k::linorder)) xs"
  shows "slots k xs key = Some x \<longleftrightarrow> x \<in> set xs \<and> kf k x = key"
  using sorted_keys_distinct [OF assms] by (auto simp: slots_def map_of_eq_Some_iff comp_def)

lemma slots_eq_None: "slots k xs key = None \<longleftrightarrow> (\<forall>x\<in>set xs. kf k x \<noteq> key)"
  by (force simp: slots_def map_of_eq_None_iff)

lemma slots_cong: "(\<And>x. x \<in> set xs \<Longrightarrow> kf k' x = kf k x) \<Longrightarrow> slots k' xs = slots k xs"
  unfolding slots_def by (intro arg_cong [where f = map_of]) simp

lemma tree_rep_sizes:
  assumes "tree_rep k root free T fs"
  shows "root < length k" "0 < length k" "\<And>x. x \<in> nodes T \<Longrightarrow> 0 < x \<and> x < length k" "nodes T \<inter> set fs = {}"
    "\<And>x. x \<in> set fs \<Longrightarrow> 0 < x \<and> x < length k"
proof -
  show "0 < length k" using assms by (auto simp: tree_rep_def)
  then show "root < length k" using assms by (cases T) (auto simp: tree_rep_def)
  show "nodes T \<inter> set fs = {}" using assms by (simp add: tree_rep_def)
  have u: "nodes T \<union> set fs = {0<..size T + length fs}" "size T + length fs < length k"
    using assms by (simp_all add: tree_rep_def)
  show "0 < x \<and> x < length k" if "x \<in> nodes T" for x
    using that u by (metis UnI1 greaterThanAtMost_iff le_less_trans)
  show "0 < x \<and> x < length k" if "x \<in> set fs" for x
    using that u by (metis UnI2 greaterThanAtMost_iff le_less_trans)
qed

lemma inorder_eqD:
  assumes "inorder t = inorder t'" shows "nodes t = nodes t'" "size t = size t'"
  using assms by (metis set_inorder, metis length_inorder)

text \<open>A search brings the tree into another shape, with the key at the root if it is there.\<close>

lemma splay_rep:
  assumes R: "tree_rep k root free T fs" and "root \<noteq> 0"
  obtains a t b k' where "splay key root k = Some (kf k t = key, t, k')"
    "tree_rep k' t free (Node a t b) fs" "inorder (Node a t b) = inorder T"
    "links_kept (nodes T) k k'" "\<forall>x\<in>nodes a. kf k x < key" "\<forall>x\<in>nodes b. key < kf k x"
proof -
  have "ptree (length k) (lf k) (rf k) root T" "distinct (inorder T)" "sorted_wrt (\<lambda>x y. kf k x < kf k y) (inorder T)"
    using R by (simp_all add: tree_rep_def)
  then obtain a t b k' where *: "splay key root k = Some (kf k t = key, t, k')"
    "ptree (length k') (lf k') (rf k') t (Node a t b)" "inorder (Node a t b) = inorder T"
    "links_kept (nodes T) k k'" "\<forall>x\<in>nodes a. kf k x < key" "\<forall>x\<in>nodes b. key < kf k x"
    using splay_correct \<open>root \<noteq> 0\<close> by metis
  have k': "kf k' = kf k" "length k' = length k" using *(4) by (simp_all add: links_kept_def)
  have "fchain (lf k') free fs"
  proof (rule fchain_cong)
    show "fchain (lf k) free fs" using R by (simp add: tree_rep_def)
    show "lf k' x = lf k x" if "x \<in> set fs" for x
      using that *(4) tree_rep_sizes(4,5) [OF R] by (auto simp: links_kept_def)
  qed
  then have "tree_rep k' t free (Node a t b) fs"
    using R * k' inorder_eqD [OF *(3)] unfolding tree_rep_def by metis
  with * show ?thesis using that by metis
qed

lemma slots_splayed:
  assumes "inorder T' = inorder T" "links_kept X k k'"
  shows "slots k' (inorder T') = slots k (inorder T)"
  using assms by (simp add: slots_def links_kept_def)

text \<open>The next free node: one of the chain, or the first one that was never used.\<close>

definition next_node :: "nat tree \<Rightarrow> nat list \<Rightarrow> nat" where
  "next_node T fs = (case fs of [] \<Rightarrow> size T + 1 | x # _ \<Rightarrow> x)"

lemma next_node_fresh:
  assumes R: "tree_rep k root free T fs" and room: "size T + 1 < length k"
  defines "n \<equiv> next_node T fs"
  shows "n \<notin> nodes T" "n \<notin> set (tl fs)" "0 < n" "n < length k"
    "insert n (nodes T) \<union> set (tl fs) = {0<..size T + 1 + length (tl fs)}"
    "fchain (lf k) (if free = 0 then 0 else lf k free) (tl fs)" "free = 0 \<longleftrightarrow> fs = []" "free \<noteq> 0 \<Longrightarrow> n = free"
    "size T + 1 + length (tl fs) < length k"
proof -
  have u: "nodes T \<union> set fs = {0<..size T + length fs}" and d: "distinct (inorder T @ fs)"
    and c: "fchain (lf k) free fs" and s: "size T + length fs < length k"
    using R by (simp_all add: tree_rep_def)
  have ins: "{0<..Suc m} = insert (Suc m) {0<..m}" for m by auto
  show "n \<notin> nodes T" "n \<notin> set (tl fs)" "0 < n" "n < length k"
    "fchain (lf k) (if free = 0 then 0 else lf k free) (tl fs)" "free = 0 \<longleftrightarrow> fs = []" "free \<noteq> 0 \<Longrightarrow> n = free"
    "size T + 1 + length (tl fs) < length k"
    using u d c room s tree_rep_sizes(5) [OF R]
    by (cases fs; force simp: n_def next_node_def)+
  show "insert n (nodes T) \<union> set (tl fs) = {0<..size T + 1 + length (tl fs)}"
    using u by (cases fs) (auto simp: n_def next_node_def ins)
qed

section \<open>Adding and taking away a node\<close>

lemma option_eqI: "(\<And>x. a = Some x \<longleftrightarrow> b = Some x) \<Longrightarrow> a = b"
  by (cases a; cases b; auto)

lemma slots_insert:
  assumes "sorted_wrt (\<lambda>x y. kf k x < (kf k y :: 'k::linorder)) xs" "sorted_wrt (\<lambda>x y. kf k' x < kf k' y) xs'"
    and "set xs' = insert n (set xs)" "n \<notin> set xs" "kf k' = (kf k)(n := key)" "\<forall>x\<in>set xs. kf k x \<noteq> key"
  shows "slots k' xs' = (slots k xs)(key \<mapsto> n)"
proof (rule ext, rule option_eqI)
  fix q x
  show "slots k' xs' q = Some x \<longleftrightarrow> ((slots k xs)(key \<mapsto> n)) q = Some x"
    using assms by (auto simp: slots_eq_Some)
qed

lemma slots_remove:
  assumes "sorted_wrt (\<lambda>x y. kf k x < (kf k y :: 'k::linorder)) xs" "sorted_wrt (\<lambda>x y. kf k' x < kf k' y) xs'"
    and "set xs' = set xs - {n}" "n \<in> set xs" "kf k' = kf k"
  shows "slots k' xs' = (slots k xs)(kf k n := None)"
proof (rule ext, rule option_eqI)
  fix q x
  have "kf k x = kf k n \<longleftrightarrow> x = n" if "x \<in> set xs" for x
    using that assms(4) slots_eq_Some [OF assms(1)] by (metis option.inject)
  then show "slots k' xs' q = Some x \<longleftrightarrow> ((slots k xs)(kf k n := None)) q = Some x"
    using assms by (auto simp: slots_eq_Some)
qed

text \<open>The buffer after a new node was put above the root.\<close>

definition put_root :: "nat \<Rightarrow> nat \<Rightarrow> 'k::linorder \<Rightarrow> 'k sm_node list \<Rightarrow> 'k sm_node list" where
  "put_root n t key k =
     (if key < kf k t then set_lc t 0 (set_rc n t (set_lc n (lf k t) (set_key n key k)))
      else set_rc t 0 (set_lc n t (set_rc n (rf k t) (set_key n key k))))"

definition put_tree :: "nat \<Rightarrow> bool \<Rightarrow> nat tree \<Rightarrow> nat \<Rightarrow> nat tree \<Rightarrow> nat tree" where
  "put_tree n lt a t b = (if lt then Node a n (Node Leaf t b) else Node (Node a t Leaf) n b)"

lemma inorder_put_tree:
  "inorder (put_tree n lt a t b) = (if lt then inorder a @ n # t # inorder b else inorder a @ t # n # inorder b)"
  by (simp add: put_tree_def)

lemma put_root_rep:
  assumes R: "tree_rep k t free (Node a t b) fs" and room: "size (Node a t b) + 1 < length k"
    and key: "\<forall>x\<in>nodes a. kf k x < key" "\<forall>x\<in>nodes b. key < kf k x" "kf k t \<noteq> key"
  defines "n \<equiv> next_node (Node a t b) fs" and "T' \<equiv> put_tree (next_node (Node a t b) fs) (key < kf k t) a t b"
  shows "tree_rep (put_root n t key k) n (if free = 0 then 0 else lf k free) T' (tl fs)"
    and "slots (put_root n t key k) (inorder T') = (slots k (inorder (Node a t b)))(key \<mapsto> n)"
    and "size T' = size (Node a t b) + 1"
proof -
  note f = next_node_fresh [OF R room, folded n_def]
  let ?k = "put_root n t key k"
  have T: "ptree (length k) (lf k) (rf k) t (Node a t b)" "distinct (inorder (Node a t b) @ fs)"
    "sorted_wrt (\<lambda>x y. kf k x < kf k y) (inorder (Node a t b))"
    using R by (simp_all add: tree_rep_def)
  have tn: "t \<noteq> n" "t < length k" "0 < t" "n \<notin> nodes a" "n \<notin> nodes b" "t \<notin> nodes a" "t \<notin> nodes b"
    using f(1) T by auto
  have kf: "kf ?k = (kf k)(n := key)" and len: "length ?k = length k"
    using tn f(4) by (simp_all add: put_root_def node_simps)
  have ptr: "ptree (length k) (lf ?k) (rf ?k) n T'"
    using T tn f(3,4) by (simp add: put_root_def node_simps T'_def put_tree_def flip: n_def)
  have nodes': "nodes T' = insert n (nodes (Node a t b))" and size': "size T' = size (Node a t b) + 1"
    by (auto simp: T'_def put_tree_def simp flip: n_def)
  have ord: "sorted_wrt (\<lambda>x y. kf ?k x < kf ?k y) (inorder T')"
  proof -
    have "kf k t < key" if "\<not> key < kf k t" using that key(3) by simp
    moreover have "sorted_wrt (\<lambda>x y. kf ?k x < kf ?k y) (inorder a)" "sorted_wrt (\<lambda>x y. kf ?k x < kf ?k y) (inorder b)"
      using T(3) tn by (auto simp: kf sorted_wrt_append intro!: sorted_wrt_mono_rel [of _ "\<lambda>x y. kf k x < kf k y"])
    ultimately show ?thesis
      using T(3) tn key by (auto simp: T'_def inorder_put_tree kf sorted_wrt_append simp flip: n_def)
  qed
  have fch: "fchain (lf ?k) (if free = 0 then 0 else lf k free) (tl fs)"
  proof (rule fchain_cong [OF f(6)])
    fix x assume x: "x \<in> set (tl fs)"
    then have "x \<in> set fs" by (cases fs) auto
    then show "lf ?k x = lf k x"
      using x f(2,4) T tn tree_rep_sizes(4) [OF R] by (auto simp: put_root_def node_simps)
  qed
  have dis: "distinct (inorder T' @ tl fs)"
  proof -
    have "distinct (tl fs)" "\<forall>x\<in>set (tl fs). x \<notin> nodes (Node a t b)" using T(2) by (cases fs; auto)+
    then show ?thesis using T(2) tn f(1,2) by (auto simp: T'_def inorder_put_tree simp flip: n_def)
  qed
  show "size T' = size (Node a t b) + 1" by (rule size')
  show "tree_rep ?k n (if free = 0 then 0 else lf k free) T' (tl fs)"
    using ptr ord fch dis f(5,9) by (simp add: tree_rep_def len nodes' size')
  show "slots ?k (inorder T') = (slots k (inorder (Node a t b)))(key \<mapsto> n)"
    by (rule slots_insert [OF T(3) ord]) (use nodes' f(1) kf key in auto)
qed

text \<open>The first node of an empty map.\<close>

definition put_first :: "nat \<Rightarrow> 'k::linorder \<Rightarrow> 'k sm_node list \<Rightarrow> 'k sm_node list" where
  "put_first n key k = set_rc n 0 (set_lc n 0 (set_key n key k))"

lemma put_first_rep:
  assumes R: "tree_rep k 0 free Leaf fs" and room: "1 < length k"
  defines "n \<equiv> next_node Leaf fs"
  shows "tree_rep (put_first n key k) n (if free = 0 then 0 else lf k free) (Node Leaf n Leaf) (tl fs)"
    and "slots (put_first n key k) [n] = [key \<mapsto> n]"
proof -
  have room': "size (Leaf :: nat tree) + 1 < length k" using room by simp
  note f = next_node_fresh [OF R room', folded n_def]
  let ?k = "put_first n key k"
  have kf: "kf ?k = (kf k)(n := key)" and len: "length ?k = length k"
    using f(4) by (simp_all add: put_first_def node_simps)
  have "fchain (lf ?k) (if free = 0 then 0 else lf k free) (tl fs)"
    by (rule fchain_cong [OF f(6)]) (use f(2,4) in \<open>auto simp: put_first_def node_simps\<close>)
  moreover have "ptree (length k) (lf ?k) (rf ?k) n (Node Leaf n Leaf)"
    using f(3,4) by (simp add: put_first_def node_simps)
  moreover have "distinct (n # tl fs)" using R f(2) by (cases fs) (auto simp: tree_rep_def)
  ultimately show "tree_rep ?k n (if free = 0 then 0 else lf k free) (Node Leaf n Leaf) (tl fs)"
    using f(5,9) by (simp add: tree_rep_def len)
  show "slots ?k [n] = [key \<mapsto> n]" by (auto simp: slots_def kf)
qed

text \<open>Taking the root away.\<close>

lemma join_rep:
  assumes R: "tree_rep k t free (Node a t b) fs" and P: "ptree (length k) L R x T'"
    and in': "inorder T' = inorder a @ inorder b"
    and k': "lf k' = L(t := free)" "rf k' = R" "kf k' = kf k" "length k' = length k"
    and L: "\<And>y. y \<in> set fs \<Longrightarrow> L y = lf k y"
  shows "tree_rep k' x t T' (t # fs)"
    and "slots k' (inorder T') = (slots k (inorder (Node a t b)))(kf k t := None)"
    and "size T' + 1 = size (Node a t b)"
proof -
  have T: "distinct (inorder (Node a t b) @ fs)" "0 < t" "t < length k" "fchain (lf k) free fs"
    "sorted_wrt (\<lambda>x y. kf k x < kf k y) (inorder (Node a t b))"
    using R by (auto simp: tree_rep_def)
  have n': "nodes T' = nodes a \<union> nodes b" using in' by (metis set_append set_inorder)
  have s': "size T' = size a + size b" using in' by (metis length_append length_inorder)
  then show "size T' + 1 = size (Node a t b)" by simp
  have tn: "t \<notin> nodes a" "t \<notin> nodes b" "t \<notin> set fs" using T by auto
  have ord: "sorted_wrt (\<lambda>x y. kf k' x < kf k' y) (inorder T')"
    using T(5) by (auto simp: in' k' sorted_wrt_append)
  have "fchain (lf k') t (t # fs)"
  proof -
    have "fchain (L(t := free)) free fs" by (rule fchain_cong [OF T(4)]) (use tn L in auto)
    then show ?thesis using T(2) by (simp add: k')
  qed
  moreover have "ptree (length k') (lf k') (rf k') x T'" using P tn n' by (simp add: k')
  moreover have "distinct (inorder T' @ t # fs)" using T(1) by (auto simp: in')
  moreover have "nodes T' \<union> set (t # fs) = {0<..size T' + length (t # fs)}"
    "size T' + length (t # fs) < length k'"
    using R by (auto simp: tree_rep_def n' s' k')
  ultimately show "tree_rep k' x t T' (t # fs)" using ord by (simp add: tree_rep_def)
  show "slots k' (inorder T') = (slots k (inorder (Node a t b)))(kf k t := None)"
    by (rule slots_remove [OF T(5) ord]) (use tn n' k' in auto)
qed

section \<open>The invariant\<close>

text \<open>The tree and the chain as read off the buffer; a tree of \<open>n\<close> nodes is not deeper than \<open>n\<close>.\<close>

fun node_tree :: "nat \<Rightarrow> 'k sm_node list \<Rightarrow> nat \<Rightarrow> nat tree" where
  "node_tree 0 k p = Leaf"
| "node_tree (Suc n) k p = (if p = 0 then Leaf else Node (node_tree n k (lf k p)) p (node_tree n k (rf k p)))"

fun node_chain :: "nat \<Rightarrow> 'k sm_node list \<Rightarrow> nat \<Rightarrow> nat list" where
  "node_chain 0 k p = []"
| "node_chain (Suc n) k p = (if p = 0 then [] else p # node_chain n k (lf k p))"

lemma node_tree_eq: "ptree m (lf k) (rf k) p T \<Longrightarrow> size T \<le> n \<Longrightarrow> node_tree n k p = T"
proof (induction n k p arbitrary: T rule: node_tree.induct)
  case (2 n k p)
  then show ?case by (cases T) auto
qed simp

lemma node_chain_eq: "fchain (lf k) p xs \<Longrightarrow> length xs \<le> n \<Longrightarrow> node_chain n k p = xs"
proof (induction n k p arbitrary: xs rule: node_chain.induct)
  case (2 n k p)
  then show ?case by (cases xs) auto
qed simp

definition sm_rep :: "('k::linorder, 'v) splay_map \<Rightarrow> tree_info \<Rightarrow> nat tree \<Rightarrow> nat list \<Rightarrow> bool" where
  "sm_rep s ti T fs \<longleftrightarrow> t_info s = Some ti \<and> tree_rep (k_buff s) (ti_root_ptr ti) (ti_free_ptr ti) T fs
     \<and> ti_t_size ti = size T \<and> size T + length fs < ti_b_size ti \<and> ti_b_size ti \<le> length (k_buff s)
     \<and> length (v_buff s) = ti_b_size ti \<and> ti_b_size ti < 2 ^ 32 \<and> 0 < i_size s"

definition sm_tree :: "('k, 'v) splay_map \<Rightarrow> nat tree" where
  "sm_tree s = (case t_info s of None \<Rightarrow> Leaf | Some ti \<Rightarrow> node_tree (ti_t_size ti) (k_buff s) (ti_root_ptr ti))"

definition sm_inv :: "('k::linorder, 'v) splay_map \<Rightarrow> bool" where
  "sm_inv s = (case t_info s of None \<Rightarrow> False
     | Some ti \<Rightarrow> sm_rep s ti (sm_tree s) (node_chain (ti_b_size ti) (k_buff s) (ti_free_ptr ti)))"

text \<open>The nodes in the order of their keys, and the node of each key.\<close>

definition sm_nodes :: "('k, 'v) splay_map \<Rightarrow> nat list" where
  "sm_nodes s = inorder (sm_tree s)"

definition sm_slot :: "('k, 'v) splay_map \<Rightarrow> 'k \<rightharpoonup> nat" where
  "sm_slot s = slots (k_buff s) (sm_nodes s)"

lemma sm_repD:
  assumes "sm_rep s ti T fs"
  shows "sm_inv s" "sm_tree s = T" "sm_nodes s = inorder T" "sm_slot s = slots (k_buff s) (inorder T)"
proof -
  have d: "ptree (length (k_buff s)) (lf (k_buff s)) (rf (k_buff s)) (ti_root_ptr ti) T"
    "fchain (lf (k_buff s)) (ti_free_ptr ti) fs" "t_info s = Some ti" "ti_t_size ti = size T" "length fs \<le> ti_b_size ti"
    using assms by (auto simp: sm_rep_def tree_rep_def)
  show T: "sm_tree s = T" using node_tree_eq [OF d(1)] d(3,4) by (simp add: sm_tree_def)
  show "sm_inv s" using assms node_chain_eq [OF d(2) d(5)] d(3) by (simp add: sm_inv_def T)
  show "sm_nodes s = inorder T" by (simp add: sm_nodes_def T)
  then show "sm_slot s = slots (k_buff s) (inorder T)" by (simp add: sm_slot_def)
qed

lemma sm_invE:
  assumes "sm_inv s"
  obtains ti T fs where "sm_rep s ti T fs"
  using assms by (auto simp: sm_inv_def split: option.splits)

lemma sm_rep_sorted: "sm_rep s ti T fs \<Longrightarrow> sorted_wrt (\<lambda>x y. kf (k_buff s) x < kf (k_buff s) y) (inorder T)"
  by (simp add: sm_rep_def tree_rep_def)

lemma sm_rep_root: "sm_rep s ti T fs \<Longrightarrow> ti_root_ptr ti = 0 \<longleftrightarrow> T = Leaf"
  unfolding sm_rep_def tree_rep_def using ptree_zero_iff by blast

lemma sm_rep_node:
  assumes "sm_rep s ti T fs" and "x \<in> nodes T"
  shows "0 < x" "x < ti_b_size ti" "x < length (k_buff s)" "x < length (v_buff s)"
proof -
  have "x \<in> {0<..size T + length fs}" "size T + length fs < ti_b_size ti" "ti_b_size ti \<le> length (k_buff s)"
    "length (v_buff s) = ti_b_size ti"
    using assms by (auto simp: sm_rep_def tree_rep_def)
  then show "0 < x" "x < ti_b_size ti" "x < length (k_buff s)" "x < length (v_buff s)" by auto
qed

section \<open>Searching\<close>

lemma slot_at_root:
  assumes "sorted_wrt (\<lambda>x y. kf k x < (kf k y :: 'k::linorder)) (inorder (Node a t b))"
    and "\<forall>x\<in>nodes a. kf k x < key" "\<forall>x\<in>nodes b. key < kf k x"
  shows "slots k (inorder (Node a t b)) key = (if kf k t = key then Some t else None)"
proof (cases "kf k t = key")
  case True
  then show ?thesis using slots_eq_Some [OF assms(1), of key t] by simp
next
  case False
  then show ?thesis using slots_eq_None [of k "inorder (Node a t b)" key] assms(2,3) by fastforce
qed

text \<open>What a search leaves: another shape of the same tree.\<close>

lemma splay_state:
  assumes S: "sm_rep s ti T fs" and "T \<noteq> Leaf"
  obtains a t b k' where "splay key (ti_root_ptr ti) (k_buff s) = Some (kf k' t = key, t, k')"
    "sm_rep (with_tree (ti\<lparr>ti_root_ptr := t\<rparr>) k' s) (ti\<lparr>ti_root_ptr := t\<rparr>) (Node a t b) fs"
    "inorder (Node a t b) = inorder T" "kf k' = kf (k_buff s)"
    "\<forall>x\<in>nodes a. kf k' x < key" "\<forall>x\<in>nodes b. key < kf k' x"
    "slots k' (inorder (Node a t b)) = sm_slot s" "sm_slot s key = (if kf k' t = key then Some t else None)"
proof -
  have R: "tree_rep (k_buff s) (ti_root_ptr ti) (ti_free_ptr ti) T fs" using S by (simp add: sm_rep_def)
  obtain a t b k' where *: "splay key (ti_root_ptr ti) (k_buff s) = Some (kf (k_buff s) t = key, t, k')"
    "tree_rep k' t (ti_free_ptr ti) (Node a t b) fs" "inorder (Node a t b) = inorder T"
    "links_kept (nodes T) (k_buff s) k'" "\<forall>x\<in>nodes a. kf (k_buff s) x < key" "\<forall>x\<in>nodes b. key < kf (k_buff s) x"
    using splay_rep [OF R] sm_rep_root [OF S] \<open>T \<noteq> Leaf\<close> by metis
  have k': "kf k' = kf (k_buff s)" "length k' = length (k_buff s)" using *(4) by (simp_all add: links_kept_def)
  have "sm_rep (with_tree (ti\<lparr>ti_root_ptr := t\<rparr>) k' s) (ti\<lparr>ti_root_ptr := t\<rparr>) (Node a t b) fs"
    using S *(2) k' inorder_eqD(2) [OF *(3)] by (simp add: sm_rep_def with_tree_def)
  moreover have sl: "slots k' (inorder (Node a t b)) = sm_slot s"
    using slots_splayed [OF *(3,4)] sm_repD(4) [OF S] by simp
  moreover have "sm_slot s key = (if kf k' t = key then Some t else None)"
    using slot_at_root [of k' a t b key] *(2,5,6) k' by (simp add: tree_rep_def flip: sl)
  ultimately show ?thesis using that [OF _ _ *(3)] * k' by simp
qed

lemma sm_exist_rep:
  assumes S: "sm_rep s ti T fs"
  obtains s' ti' T' where "sm_exist key s = Some (sm_slot s key \<noteq> None, s')" "sm_rep s' ti' T' fs"
    "sm_slot s' = sm_slot s" "v_buff s' = v_buff s" "size T' = size T" "ti_b_size ti' = ti_b_size ti" "i_size s' = i_size s"
    "last_ptr s' = (case sm_slot s key of None \<Rightarrow> 0 | Some n \<Rightarrow> n)"
    "\<forall>n. sm_slot s key = Some n \<longrightarrow> ti_root_ptr ti' = n"
proof (cases "T = Leaf")
  case True
  then have "ti_root_ptr ti = 0" using sm_rep_root [OF S] by simp
  moreover have "sm_slot s key = None" using sm_repD(4) [OF S] True by (simp add: slots_def)
  moreover have "with_tree (ti\<lparr>ti_root_ptr := 0\<rparr>) (k_buff s) s = s"
    using S \<open>ti_root_ptr ti = 0\<close> by (simp add: with_tree_def sm_rep_def)
  moreover have "sm_rep (s\<lparr>last_ptr := 0\<rparr>) ti T fs" using S by (simp add: sm_rep_def)
  ultimately show ?thesis
    using that [of "s\<lparr>last_ptr := 0\<rparr>" ti T] S sm_repD(4) [OF S] sm_repD(4) [of "s\<lparr>last_ptr := 0\<rparr>" ti T fs]
    by (simp add: sm_exist_def inter_find_def splay_def sm_rep_def)
next
  case False
  obtain a t b k' where *: "splay key (ti_root_ptr ti) (k_buff s) = Some (kf k' t = key, t, k')"
    "sm_rep (with_tree (ti\<lparr>ti_root_ptr := t\<rparr>) k' s) (ti\<lparr>ti_root_ptr := t\<rparr>) (Node a t b) fs"
    "inorder (Node a t b) = inorder T" "kf k' = kf (k_buff s)"
    "\<forall>x\<in>nodes a. kf k' x < key" "\<forall>x\<in>nodes b. key < kf k' x"
    "slots k' (inorder (Node a t b)) = sm_slot s" "sm_slot s key = (if kf k' t = key then Some t else None)"
    by (rule splay_state [OF S False])
  let ?p = "if kf k' t = key then t else 0"
  let ?s = "(with_tree (ti\<lparr>ti_root_ptr := t\<rparr>) k' s)\<lparr>last_ptr := ?p\<rparr>"
  have t: "0 < t" using sm_rep_node(1) [OF *(2), of t] by simp
  have S': "sm_rep ?s (ti\<lparr>ti_root_ptr := t\<rparr>) (Node a t b) fs" using *(2) by (simp add: sm_rep_def)
  have sl: "sm_slot ?s = sm_slot s"
    using sm_repD(4) [OF S'] *(7) by (simp add: with_tree_def)
  show ?thesis
    by (rule that [of ?s, OF _ S' sl])
      (use *(1,8) S t inorder_eqD(2) [OF *(3)] in \<open>auto simp: sm_exist_def inter_find_def sm_rep_def with_tree_def split: if_splits\<close>)
qed

section \<open>Growing\<close>

text \<open>The map has to grow before it takes another key, and the grown buffers have a size that 32 bits hold.\<close>

definition sm_full :: "('k, 'v) splay_map \<Rightarrow> bool" where
  "sm_full s = (case t_info s of None \<Rightarrow> False | Some ti \<Rightarrow> ti_t_size ti + 1 = ti_b_size ti)"

definition sm_cap :: "('k, 'v) splay_map \<Rightarrow> nat" where
  "sm_cap s = (case t_info s of None \<Rightarrow> 0 | Some ti \<Rightarrow> ti_b_size ti)"

definition cap_fits :: "('k, 'v) sm_types \<Rightarrow> nat \<Rightarrow> bool" where
  "cap_fits T c \<longleftrightarrow> 0 < sz_node T \<and> 0 < sz_val T \<and> sizeof_tree_info + c * sz_node T < 2 ^ 32 \<and> c * sz_val T < 2 ^ 32"

lemma cap_fits_lt: "cap_fits T c \<Longrightarrow> c < 2 ^ 32"
proof -
  assume "cap_fits T c"
  then have "c * 1 \<le> c * sz_val T" "c * sz_val T < 2 ^ 32" by (auto simp: cap_fits_def intro: mult_le_mono2)
  then show ?thesis by linarith
qed

lemma cap_fits_mono: "cap_fits T c \<Longrightarrow> c' \<le> c \<Longrightarrow> cap_fits T c'"
  unfolding cap_fits_def by (meson add_le_mono1 le_less_trans mult_le_mono1 nat_add_left_cancel_le)

lemma tree_rep_cong:
  assumes R: "tree_rep k root free T fs" and k': "\<And>x. x \<in> nodes T \<union> set fs \<Longrightarrow> k' ! x = k ! x"
    and len: "size T + length fs < length k'"
  shows "tree_rep k' root free T fs"
proof -
  have u: "nodes T \<union> set fs = {0<..size T + length fs}" using R by (simp add: tree_rep_def)
  have f: "lf k' x = lf k x" "rf k' x = rf k x" "kf k' x = kf k x" if "x \<in> nodes T \<union> set fs" for x
    using k' [OF that] by (simp_all add: lf_def rf_def kf_def)
  have "ptree n (lf k') (rf k') p t" if "ptree m (lf k) (rf k) p t" "nodes t \<subseteq> nodes T" "\<forall>x\<in>nodes t. x < n" for m n p t
    using that f by (induction t arbitrary: p) auto
  moreover have "\<forall>x\<in>nodes T. x < length k'" using u len by (metis UnI1 greaterThanAtMost_iff le_less_trans)
  ultimately have "ptree (length k') (lf k') (rf k') root T" using R by (auto simp: tree_rep_def)
  moreover have "fchain (lf k') free fs"
  proof (rule fchain_cong)
    show "fchain (lf k) free fs" using R by (simp add: tree_rep_def)
    show "lf k' x = lf k x" if "x \<in> set fs" for x using f(1) that by blast
  qed
  moreover have "sorted_wrt (\<lambda>x y. kf k' x < kf k' y) (inorder T)"
  proof (rule sorted_wrt_mono_rel)
    show "sorted_wrt (\<lambda>x y. kf k x < kf k y) (inorder T)" using R by (simp add: tree_rep_def)
    show "kf k' x < kf k' y" if "x \<in> set (inorder T)" "y \<in> set (inorder T)" "kf k x < kf k y" for x y
      using that f(3) by (metis UnI1 set_inorder)
  qed
  ultimately show ?thesis using R len by (simp add: tree_rep_def)
qed

lemma grow_rep:
  assumes S: "sm_rep s ti T fs" and fits: "cap_fits Ty (ti_b_size ti + i_size s)"
  obtains s' ti' where "reallocate_memory Ty ka va False s = Some (ka \<and> va, s')" "sm_rep s' ti' T fs"
    "sm_slot s' = sm_slot s" "\<exists>vs. v_buff s' = v_buff s @ vs" "i_size s' = i_size s" "ti_root_ptr ti' = ti_root_ptr ti"
    "last_ptr s' = last_ptr s"
    "ti_b_size ti' = (if ka \<and> va then ti_b_size ti + i_size s else ti_b_size ti)" "\<not> (ka \<and> va) \<Longrightarrow> v_buff s' = v_buff s"
proof -
  let ?b = "ti_b_size ti" and ?i = "i_size s"
  let ?k = "take ?b (k_buff s) @ replicate ?i (zero_node Ty)"
  let ?s1 = "s\<lparr>k_buff := ?k\<rparr>"
  let ?ti = "ti\<lparr>ti_b_size := ?b + ?i\<rparr>"
  let ?s2 = "?s1\<lparr>t_info := Some ?ti, v_buff := v_buff s @ replicate ?i (val_zero Ty)\<rparr>"
  have d: "t_info s = Some ti" "tree_rep (k_buff s) (ti_root_ptr ti) (ti_free_ptr ti) T fs" "ti_t_size ti = size T"
    "size T + length fs < ?b" "?b \<le> length (k_buff s)" "length (v_buff s) = ?b" "?b < 2 ^ 32" "0 < ?i"
    using S by (simp_all add: sm_rep_def)
  have nb: "x < ?b" if "x \<in> nodes T \<union> set fs" for x
  proof -
    have "nodes T \<union> set fs = {0<..size T + length fs}" using d(2) by (simp add: tree_rep_def)
    with that show ?thesis using d(4) by (metis greaterThanAtMost_iff le_less_trans)
  qed
  have R: "tree_rep ?k (ti_root_ptr ti) (ti_free_ptr ti) T fs"
    by (rule tree_rep_cong [OF d(2)]) (use nb d in \<open>auto simp: nth_append\<close>)
  have fit: "u32_of (sizeof_tree_info + u32_of (?b + ?i) * sz_node Ty) = sizeof_tree_info + (?b + ?i) * sz_node Ty"
    "u32_of (u32_of (?b + ?i) * sz_val Ty) = (?b + ?i) * sz_val Ty" "u32_of (?b + ?i) = ?b + ?i" "?b + ?i < 2 ^ 32"
    using fits cap_fits_lt [OF fits] by (simp_all add: u32_of_def cap_fits_def)
  have S1: "sm_rep ?s1 ti T fs" and S2: "sm_rep ?s2 ?ti T fs"
    using S R d fit(4) by (auto simp: sm_rep_def)
  have sl: "slots ?k (inorder T) = slots (k_buff s) (inorder T)"
    by (rule slots_cong) (use nb d in \<open>auto simp: kf_def nth_append\<close>)
  have sl': "sm_slot ?s1 = sm_slot s" "sm_slot ?s2 = sm_slot s"
    using sm_repD(4) [OF S1] sm_repD(4) [OF S2] sm_repD(4) [OF S] sl by simp_all
  show ?thesis
  proof (cases "ka \<and> va")
    case True
    then show ?thesis
      by (intro that [of ?s2 ?ti, OF _ S2 sl'(2)])
        (use d fit in \<open>auto simp: reallocate_memory_def reallocate_grow_def Let_def\<close>)
  next
    case False
    then show ?thesis
    proof (cases ka)
      case True
      then show ?thesis using False
        by (intro that [of ?s1 ti, OF _ S1 sl'(1)])
          (use d fit in \<open>auto simp: reallocate_memory_def reallocate_grow_def Let_def\<close>)
    next
      case False
      then show ?thesis
        by (intro that [of s ti, OF _ S refl])
          (use d in \<open>auto simp: reallocate_memory_def reallocate_grow_def Let_def\<close>)
    qed
  qed
qed

section \<open>Inserting\<close>

lemma fchain_head: "fchain L p xs \<Longrightarrow> p = 0 \<or> p \<in> set xs"
  by (cases xs) auto

text \<open>The node an insertion takes is inside the buffers.\<close>

lemma next_node_state:
  assumes S: "sm_rep s ti T fs" and room: "size T + 1 \<noteq> ti_b_size ti"
  shows "size T + 1 < length (k_buff s)" "next_node T fs < length (v_buff s)"
    "size T + 1 + length (tl fs) < ti_b_size ti" "ti_free_ptr ti < length (k_buff s)"
    "ti_free_ptr ti \<noteq> 0 \<Longrightarrow> next_node T fs = ti_free_ptr ti" "ti_free_ptr ti = 0 \<Longrightarrow> next_node T fs = size T + 1"
proof -
  have d: "tree_rep (k_buff s) (ti_root_ptr ti) (ti_free_ptr ti) T fs" "size T + length fs < ti_b_size ti"
    "ti_b_size ti \<le> length (k_buff s)" "length (v_buff s) = ti_b_size ti"
    using S by (simp_all add: sm_rep_def)
  show l: "size T + 1 < length (k_buff s)" and b: "size T + 1 + length (tl fs) < ti_b_size ti"
    using room d by (cases fs; simp)+
  note f = next_node_fresh [OF d(1) l]
  show "next_node T fs < length (v_buff s)"
    using f(5) b d(4) by (metis UnI1 greaterThanAtMost_iff insertI1 le_less_trans)
  show "ti_free_ptr ti \<noteq> 0 \<Longrightarrow> next_node T fs = ti_free_ptr ti" by (rule f(8))
  show "ti_free_ptr ti = 0 \<Longrightarrow> next_node T fs = size T + 1" using f(7) by (simp add: next_node_def)
  have "fchain (lf (k_buff s)) (ti_free_ptr ti) fs" using d(1) by (simp add: tree_rep_def)
  then show "ti_free_ptr ti < length (k_buff s)"
    using fchain_head tree_rep_sizes(2,5) [OF d(1)] by metis
qed

definition inserted ::
    "'k::linorder \<Rightarrow> 'v \<Rightarrow> ('k, 'v) splay_map \<Rightarrow> nat \<Rightarrow> ('k, 'v) splay_map \<Rightarrow> bool" where
  "inserted key x s n s' \<longleftrightarrow> sm_inv s' \<and> sm_slot s' = (sm_slot s)(key \<mapsto> n)
     \<and> (case sm_slot s key of Some m \<Rightarrow> n = m | None \<Rightarrow> n \<notin> ran (sm_slot s))
     \<and> 0 < n \<and> n < length (v_buff s') \<and> v_buff s' = (v_buff s)[n := x] \<and> sm_root_ptr s' = Some n
     \<and> sm_cap s' = sm_cap s \<and> i_size s' = i_size s"

lemma inserted_cong:
  assumes "inserted key x s n s'" "sm_slot s = sm_slot s0" "v_buff s = v_buff s0" "sm_cap s = sm_cap s0" "i_size s = i_size s0"
  shows "inserted key x s0 n s'"
  using assms by (auto simp: inserted_def split: option.splits)

lemma ran_slots:
  assumes "sorted_wrt (\<lambda>x y. kf k x < (kf k y :: 'k::linorder)) xs"
  shows "ran (slots k xs) = set xs"
  using slots_eq_Some [OF assms] by (auto simp: ran_def)

lemma insert_new_node:
  fixes s :: "('k::linorder, 'v) splay_map" and x :: 'v
  assumes S: "sm_rep s ti (Node a t b) fs" and room: "size (Node a t b) + 1 \<noteq> ti_b_size ti"
    and root: "ti_root_ptr ti = t"
    and key: "\<forall>x\<in>nodes a. kf (k_buff s) x < key" "\<forall>x\<in>nodes b. key < kf (k_buff s) x" "kf (k_buff s) t \<noteq> key"
  defines "n \<equiv> next_node (Node a t b) fs"
    and "free \<equiv> if ti_free_ptr ti = 0 then 0 else lf (k_buff s) (ti_free_ptr ti)"
  defines "s' \<equiv> with_tree (ti\<lparr>ti_t_size := size (Node a t b) + 1, ti_free_ptr := free, ti_root_ptr := n\<rparr>)
                  (put_root n t key (k_buff s)) s\<lparr>v_buff := (v_buff s)[n := x]\<rparr>"
  shows "inserted key x s n s'"
proof -
  let ?k = "k_buff s" and ?T = "Node a t b"
  have R: "tree_rep ?k t (ti_free_ptr ti) ?T fs" using S root by (simp add: sm_rep_def)
  note st = next_node_state [OF S room, folded n_def]
  note f = next_node_fresh [OF R st(1), folded n_def]
  note P = put_root_rep [OF R st(1) key, folded n_def free_def]
  have len: "length (put_root n t key ?k) = length ?k" by (simp add: put_root_def)
  have S': "sm_rep s' (ti\<lparr>ti_t_size := size ?T + 1, ti_free_ptr := free, ti_root_ptr := n\<rparr>)
              (put_tree n (key < kf ?k t) a t b) (tl fs)"
    using S P(1,3) st(3) by (simp add: sm_rep_def s'_def with_tree_def len)
  have sl: "sm_slot s' = (sm_slot s)(key \<mapsto> n)"
    using sm_repD(4) [OF S'] sm_repD(4) [OF S] P(2) by (simp add: s'_def with_tree_def)
  have "sm_slot s key = None"
    using key sm_repD(4) [OF S] slots_eq_None [of ?k "inorder ?T" key] by fastforce
  moreover have "n \<notin> ran (sm_slot s)"
    using sm_repD(4) [OF S] ran_slots [OF sm_rep_sorted [OF S]] f(1) by simp
  ultimately show ?thesis
    using sm_repD(1) [OF S'] sl f(3) st(2) S
    by (simp add: inserted_def s'_def with_tree_def sm_root_ptr_def sm_cap_def sm_rep_def)
qed

lemma insert_first:
  fixes s :: "('k::linorder, 'v) splay_map" and x :: 'v and key :: 'k
  assumes S: "sm_rep s ti Leaf fs" and room: "1 \<noteq> ti_b_size ti"
  defines "n \<equiv> next_node Leaf fs"
    and "free \<equiv> if ti_free_ptr ti = 0 then 0 else lf (k_buff s) (ti_free_ptr ti)"
  defines "s' \<equiv> with_tree (ti\<lparr>ti_t_size := 1, ti_free_ptr := free, ti_root_ptr := n\<rparr>)
                  (put_first n key (k_buff s)) s\<lparr>v_buff := (v_buff s)[n := x]\<rparr>"
  shows "inserted key x s n s'"
proof -
  have root: "ti_root_ptr ti = 0" using sm_rep_root [OF S] by simp
  have R: "tree_rep (k_buff s) 0 (ti_free_ptr ti) Leaf fs" using S root by (simp add: sm_rep_def)
  have room': "size (Leaf :: nat tree) + 1 \<noteq> ti_b_size ti" using room by simp
  note st = next_node_state [OF S room', folded n_def]
  have r1: "1 < length (k_buff s)" using st(1) by simp
  note P = put_first_rep [OF R r1, folded n_def free_def]
  note f = next_node_fresh [OF R st(1), folded n_def]
  have len: "length (put_first n key (k_buff s)) = length (k_buff s)" by (simp add: put_first_def)
  have S': "sm_rep s' (ti\<lparr>ti_t_size := 1, ti_free_ptr := free, ti_root_ptr := n\<rparr>) (Node Leaf n Leaf) (tl fs)"
    using S P(1) st(3) by (simp add: sm_rep_def s'_def with_tree_def len)
  have "sm_slot s = Map.empty" using sm_repD(4) [OF S] by (simp add: slots_def)
  moreover have "sm_slot s' = [key \<mapsto> n]"
    using sm_repD(4) [OF S'] P(2) by (simp add: s'_def with_tree_def)
  ultimately show ?thesis
    using sm_repD(1) [OF S'] f(3) st(2) S
    by (simp add: inserted_def s'_def with_tree_def sm_root_ptr_def sm_cap_def sm_rep_def)
qed

lemma insert_room:
  fixes s :: "('k::linorder, 'v) splay_map"
  assumes S: "sm_rep s ti T fs" and room: "size T + 1 \<noteq> ti_b_size ti"
  obtains n s' where "sm_insert Ty ka va key x s = Some (Some n, s')" "inserted key x s n s'"
proof (cases "T = Leaf")
  case True
  have root: "ti_root_ptr ti = 0" using sm_rep_root [OF S] True by simp
  have d: "t_info s = Some ti" "ti_t_size ti = 0" "ti_b_size ti < 2 ^ 32" "length (v_buff s) \<le> length (k_buff s)"
    using S True by (simp_all add: sm_rep_def)
  note st = next_node_state [OF S room, unfolded True]
  let ?n = "next_node Leaf fs"
  have n: "?n < length (k_buff s)" "?n < length (v_buff s)" using st(2) d(4) by simp_all
  have nf: "next_free_node (s\<lparr>t_info := Some (ti\<lparr>ti_t_size := Suc 0\<rparr>)\<rparr>) = Some (?n, s\<lparr>t_info := Some (ti\<lparr>ti_t_size := Suc 0,
      ti_free_ptr := if ti_free_ptr ti = 0 then 0 else lf (k_buff s) (ti_free_ptr ti)\<rparr>)\<rparr>)"
    using st by (auto simp: next_free_node_def node_simps with_tree_def)
  show ?thesis
  proof (rule that [OF _ insert_first [of s ti fs key x]])
    show "sm_rep s ti Leaf fs" "1 \<noteq> ti_b_size ti" using S room True by simp_all
    show "sm_insert Ty ka va key x s = Some (Some ?n,
            with_tree (ti\<lparr>ti_t_size := 1, ti_free_ptr := if ti_free_ptr ti = 0 then 0 else lf (k_buff s) (ti_free_ptr ti),
                          ti_root_ptr := ?n\<rparr>) (put_first ?n key (k_buff s)) s\<lparr>v_buff := (v_buff s)[?n := x]\<rparr>)"
      using d root room True n
      by (simp add: sm_insert_def u32_of_def with_tree_def node_simps set_val_def put_first_def nf)
  qed
next
  case False
  obtain a t b k' where *: "splay key (ti_root_ptr ti) (k_buff s) = Some (kf k' t = key, t, k')"
    "sm_rep (with_tree (ti\<lparr>ti_root_ptr := t\<rparr>) k' s) (ti\<lparr>ti_root_ptr := t\<rparr>) (Node a t b) fs"
    "inorder (Node a t b) = inorder T" "kf k' = kf (k_buff s)"
    "\<forall>x\<in>nodes a. kf k' x < key" "\<forall>x\<in>nodes b. key < kf k' x"
    "slots k' (inorder (Node a t b)) = sm_slot s" "sm_slot s key = (if kf k' t = key then Some t else None)"
    by (rule splay_state [OF S False])
  let ?ti = "ti\<lparr>ti_root_ptr := t\<rparr>"
  let ?s = "with_tree ?ti k' s"
  have sz: "size (Node a t b) = size T" using inorder_eqD(2) [OF *(3)] .
  have d: "t_info s = Some ti" "ti_t_size ti = size T" "ti_b_size ti < 2 ^ 32" "ti_root_ptr ti \<noteq> 0"
     "length (v_buff s) = ti_b_size ti" "size T + 1 < ti_b_size ti"
    using S sm_rep_root [OF S] False room by (simp_all add: sm_rep_def)
  have t: "0 < t" "t < length k'" "t < length (v_buff s)" using sm_rep_node [OF *(2), of t] by (simp_all add: with_tree_def)
  have sl: "sm_slot ?s = sm_slot s" using sm_repD(4) [OF *(2)] *(7) by (simp add: with_tree_def)
  show ?thesis
  proof (cases "kf k' t = key")
    case True
    let ?s' = "?s\<lparr>v_buff := (v_buff s)[t := x]\<rparr>"
    have S': "sm_rep ?s' ?ti (Node a t b) fs" using *(2) by (simp add: sm_rep_def with_tree_def)
    have "inserted key x s t ?s'"
      using sm_repD(1,4) [OF S'] *(7,8) True t d
      by (auto simp: inserted_def with_tree_def sm_root_ptr_def sm_cap_def)
    moreover have "sm_insert Ty ka va key x s = Some (Some t, ?s')"
      using d * True t by (simp add: sm_insert_def u32_of_def with_tree_def set_val_def)
    ultimately show ?thesis using that by blast
  next
    case new: False
    let ?n = "next_node (Node a t b) fs"
    have room': "size (Node a t b) + 1 \<noteq> ti_b_size ?ti" using room sz by simp
    note st = next_node_state [OF *(2) room']
    have n: "?n < length k'" "?n < length (v_buff s)" using st(2) *(2) by (simp_all add: sm_rep_def with_tree_def)
    have nf: "next_free_node (s\<lparr>t_info := Some (ti\<lparr>ti_root_ptr := t, ti_t_size := Suc (size T)\<rparr>), k_buff := k'\<rparr>)
        = Some (?n, s\<lparr>t_info := Some (ti\<lparr>ti_root_ptr := t, ti_t_size := Suc (size T),
            ti_free_ptr := if ti_free_ptr ti = 0 then 0 else lf k' (ti_free_ptr ti)\<rparr>), k_buff := k'\<rparr>)"
      using st sz by (auto simp: next_free_node_def node_simps with_tree_def)
    have "inserted key x ?s ?n (with_tree (?ti\<lparr>ti_t_size := size (Node a t b) + 1,
            ti_free_ptr := if ti_free_ptr ti = 0 then 0 else lf k' (ti_free_ptr ti), ti_root_ptr := ?n\<rparr>)
            (put_root ?n t key k') ?s\<lparr>v_buff := (v_buff s)[?n := x]\<rparr>)" (is "inserted _ _ _ _ ?s'")
      using insert_new_node [OF *(2) room', of key x] *(5,6) new
      by (cases "ti_free_ptr ti = 0") (simp_all add: with_tree_def)
    then have "inserted key x s ?n ?s'"
      by (rule inserted_cong [OF _ sl]) (use d in \<open>simp_all add: with_tree_def sm_cap_def\<close>)
    moreover have "sm_insert Ty ka va key x s = Some (Some ?n, ?s')"
      using d *(1) new n t sz
      by (simp add: sm_insert_def u32_of_def with_tree_def node_simps set_val_def put_root_def Let_def nf)
    ultimately show ?thesis using that by blast
  qed
qed

text \<open>An insertion stores the value at the node of its key, or fails and changes nothing that is visible when the
  buffers could not grow.\<close>

theorem sm_insert_correct:
  fixes s :: "('k::linorder, 'v) splay_map"
  assumes inv: "sm_inv s" and fits: "sm_full s \<Longrightarrow> cap_fits Ty (sm_cap s + i_size s)"
  shows "\<exists>s'. if sm_full s \<and> \<not> (ka \<and> va)
     then sm_insert Ty ka va key x s = Some (None, s') \<and> sm_inv s' \<and> sm_slot s' = sm_slot s \<and> v_buff s' = v_buff s
          \<and> sm_cap s' = sm_cap s \<and> i_size s' = i_size s
     else \<exists>n. sm_insert Ty ka va key x s = Some (Some n, s') \<and> sm_inv s' \<and> sm_slot s' = (sm_slot s)(key \<mapsto> n)
          \<and> (case sm_slot s key of Some m \<Rightarrow> n = m | None \<Rightarrow> n \<notin> ran (sm_slot s))
          \<and> (\<exists>vs. v_buff s' = (v_buff s @ vs)[n := x]) \<and> n < length (v_buff s') \<and> 0 < n \<and> sm_root_ptr s' = Some n
          \<and> sm_cap s' = (if sm_full s then sm_cap s + i_size s else sm_cap s) \<and> i_size s' = i_size s"
proof -
  from inv obtain ti T fs where S: "sm_rep s ti T fs" by (rule sm_invE)
  then have d: "t_info s = Some ti" "ti_t_size ti = size T" "ti_b_size ti < 2 ^ 32" "size T < ti_b_size ti" by (simp_all add: sm_rep_def)
  have full: "sm_full s \<longleftrightarrow> size T + 1 = ti_b_size ti" and cap: "sm_cap s = ti_b_size ti"
    using d by (simp_all add: sm_full_def sm_cap_def)
  show ?thesis
  proof (cases "sm_full s")
    case False
    then obtain n s' where "sm_insert Ty ka va key x s = Some (Some n, s')" "inserted key x s n s'"
      using insert_room [OF S] full by blast
    then show ?thesis using False
      by (intro exI [of _ s']) (auto simp: inserted_def intro!: exI [of _ "[]"])
  next
    case True
    then have "cap_fits Ty (ti_b_size ti + i_size s)" using fits cap by simp
    then obtain s1 ti1 where g: "reallocate_memory Ty ka va False s = Some (ka \<and> va, s1)" "sm_rep s1 ti1 T fs"
      "sm_slot s1 = sm_slot s" "\<exists>vs. v_buff s1 = v_buff s @ vs" "i_size s1 = i_size s"
      "ti_b_size ti1 = (if ka \<and> va then ti_b_size ti + i_size s else ti_b_size ti)"
      "\<not> (ka \<and> va) \<Longrightarrow> v_buff s1 = v_buff s"
      by (metis grow_rep [OF S])
    have u: "u32_of (ti_t_size ti + 1) = ti_b_size ti" using True full d by (simp add: u32_of_def)
    have t1: "t_info s1 = Some ti1" and i: "0 < i_size s" using g(2,5) by (simp_all add: sm_rep_def)
    have step: "sm_insert Ty ka va key x s = (if ka \<and> va then sm_insert Ty ka va key x s1 else Some (None, s1))"
      using d u g(1,2,6) i full True by (auto simp: sm_insert_def u32_of_def sm_rep_def)
    show ?thesis
    proof (cases "ka \<and> va")
      case False
      then show ?thesis
        using step g True cap sm_repD(1) [OF g(2)] t1 by (intro exI [of _ s1]) (auto simp: sm_cap_def)
    next
      case ok: True
      have "size T + 1 \<noteq> ti_b_size ti1" using g(6) ok i full True by simp
      then obtain n s' where "sm_insert Ty ka va key x s1 = Some (Some n, s')" "inserted key x s1 n s'"
        using insert_room [OF g(2)] by blast
      then show ?thesis
        using ok step g(3,4,5,6) True cap t1
        by (intro exI [of _ s']) (auto simp: inserted_def sm_cap_def split: option.splits)
    qed
  qed
qed

section \<open>Removing\<close>

text \<open>What is left of the tree when its root goes: the right subtree, or the left one splayed to its greatest node
  with the right one below it.\<close>

definition unlink_root :: "'k::linorder \<Rightarrow> nat \<Rightarrow> 'k sm_node list \<Rightarrow> (nat \<times> 'k sm_node list) option" where
  "unlink_root key root k = do {
     lc \<leftarrow> get_node_lc k root;
     if lc = 0 then do { rc \<leftarrow> get_node_rc k root; Some (rc, k) }
     else do {
       (_, x, k) \<leftarrow> splay key lc k;
       c \<leftarrow> get_node_rc k root;
       k \<leftarrow> set_node_rc x c k;
       Some (x, k) } }"

lemma unlink_root_tree:
  assumes R: "tree_rep k t free (Node a t b) fs" and key: "kf k t = key"
  obtains x k' T' where "unlink_root key t k = Some (x, k')" "ptree (length k) (lf k') (rf k') x T'"
    "inorder T' = inorder a @ inorder b" "kf k' = kf k" "length k' = length k" "\<forall>y\<in>set fs. lf k' y = lf k y"
proof -
  have d: "0 < t" "t < length k" "ptree (length k) (lf k) (rf k) (lf k t) a" "ptree (length k) (lf k) (rf k) (rf k t) b"
    "distinct (inorder (Node a t b) @ fs)" "sorted_wrt (\<lambda>x y. kf k x < kf k y) (inorder (Node a t b))"
    using R by (simp_all add: tree_rep_def)
  show ?thesis
  proof (cases "a = Leaf")
    case True
    then show ?thesis
      using that [of "rf k t" k b] d by (simp add: unlink_root_def node_simps)
  next
    case False
    have lt: "\<forall>x\<in>nodes a. kf k x < key" using d(6) key by (simp add: sorted_wrt_append)
    have "lf k t \<noteq> 0" "distinct (inorder a)" "sorted_wrt (\<lambda>x y. kf k x < kf k y) (inorder a)"
      using d False ptree_zero_iff [OF d(3)] by (auto simp: sorted_wrt_append)
    then obtain a' x b' k1 where *: "splay key (lf k t) k = Some (kf k x = key, x, k1)"
      "ptree (length k1) (lf k1) (rf k1) x (Node a' x b')" "inorder (Node a' x b') = inorder a"
      "links_kept (nodes a) k k1" "\<forall>y\<in>nodes b'. key < kf k y"
      using splay_correct [OF d(3)] by metis
    have na: "nodes (Node a' x b') = nodes a" using inorder_eqD(1) [OF *(3)] .
    then have "b' = Leaf" using *(5) lt by (cases b') (auto dest: less_asym)
    have k1: "length k1 = length k" "kf k1 = kf k" "\<And>y. y \<notin> nodes a \<Longrightarrow> y \<noteq> 0 \<Longrightarrow> lf k1 y = lf k y \<and> rf k1 y = rf k y"
      using *(4) by (simp_all add: links_kept_def)
    have b: "ptree (length k) (lf k1) (rf k1) (rf k t) b"
    proof (rule ptree_cong [OF d(4)])
      show "lf k1 y = lf k y" "rf k1 y = rf k y" if "y \<in> nodes b" for y
        using that k1(3) [of y] d(5) ptree_nodes [OF d(4)] by auto
    qed simp
    have tx: "rf k1 t = rf k t" using k1(3) [of t] d by auto
    have d': "distinct (inorder (Node a' x b'))" "x \<in> nodes a" using *(3) d(5) na by auto
    then have x: "x < length k" "x \<notin> nodes b" "x \<notin> nodes a'"
      using *(2) k1(1) d(5) by auto
    have "unlink_root key t k = Some (x, set_rc x (rf k t) k1)"
      using *(1) d \<open>lf k t \<noteq> 0\<close> k1 x tx by (simp add: unlink_root_def node_simps)
    moreover have "ptree (length k) (lf (set_rc x (rf k t) k1)) (rf (set_rc x (rf k t) k1)) x (Node a' x b)"
      using *(2) k1 x b by (simp add: node_simps)
    moreover have "inorder (Node a' x b) = inorder a @ inorder b" using *(3) \<open>b' = Leaf\<close> by simp
    moreover have "\<forall>y\<in>set fs. lf (set_rc x (rf k t) k1) y = lf k y"
    proof
      fix y assume "y \<in> set fs"
      then show "lf (set_rc x (rf k t) k1) y = lf k y"
        using d(5) k1(3) [of y] tree_rep_sizes(5) [OF R, of y] x k1(1) by (auto simp: node_simps)
    qed
    moreover have "kf (set_rc x (rf k t) k1) = kf k" "length (set_rc x (rf k t) k1) = length k"
      using k1 x by (simp_all add: node_simps)
    ultimately show ?thesis using that [of x "set_rc x (rf k t) k1" "Node a' x b"] by blast
  qed
qed

theorem sm_remove_correct:
  fixes s :: "('k::linorder, 'v) splay_map"
  assumes inv: "sm_inv s"
  shows "\<exists>s'. sm_remove key s = Some (sm_slot s key, s') \<and> sm_inv s' \<and> sm_slot s' = (sm_slot s)(key := None)
     \<and> v_buff s' = v_buff s \<and> sm_cap s' = sm_cap s \<and> i_size s' = i_size s"
proof -
  from inv obtain ti T fs where S: "sm_rep s ti T fs" by (rule sm_invE)
  then have d: "t_info s = Some ti" "ti_t_size ti = size T" "ti_b_size ti < 2 ^ 32" "size T < ti_b_size ti" by (simp_all add: sm_rep_def)
  show ?thesis
  proof (cases "T = Leaf")
    case True
    have "ti_root_ptr ti = 0" using sm_rep_root [OF S] True by simp
    moreover have "sm_slot s = Map.empty" using sm_repD(4) [OF S] True by (simp add: slots_def)
    moreover have "with_tree (ti\<lparr>ti_root_ptr := 0\<rparr>) (k_buff s) s = s"
      using d(1) \<open>ti_root_ptr ti = 0\<close> by (simp add: with_tree_def)
    ultimately show ?thesis using d inv by (simp add: sm_remove_def splay_def)
  next
    case False
    obtain a t b k' where *: "splay key (ti_root_ptr ti) (k_buff s) = Some (kf k' t = key, t, k')"
      "sm_rep (with_tree (ti\<lparr>ti_root_ptr := t\<rparr>) k' s) (ti\<lparr>ti_root_ptr := t\<rparr>) (Node a t b) fs"
      "inorder (Node a t b) = inorder T" "slots k' (inorder (Node a t b)) = sm_slot s"
      "sm_slot s key = (if kf k' t = key then Some t else None)"
      by (rule splay_state [OF S False, of key]) blast
    let ?s = "with_tree (ti\<lparr>ti_root_ptr := t\<rparr>) k' s"
    show ?thesis
    proof (cases "kf k' t = key")
      case False
      have "sm_slot ?s = sm_slot s" using sm_repD(4) [OF *(2)] *(4) by (simp add: with_tree_def)
      moreover have "(sm_slot s)(key := None) = sm_slot s" using *(5) False by (simp add: fun_upd_idem)
      ultimately show ?thesis
        using d *(1,5) False sm_repD(1) [OF *(2)]
        by (intro exI [of _ ?s]) (simp add: sm_remove_def sm_cap_def, simp add: with_tree_def)
    next
      case True
      have R: "tree_rep k' t (ti_free_ptr ti) (Node a t b) fs" using *(2) by (simp add: sm_rep_def with_tree_def)
      obtain x k1 T' where u: "unlink_root key t k' = Some (x, k1)" "ptree (length k') (lf k1) (rf k1) x T'"
        "inorder T' = inorder a @ inorder b" "kf k1 = kf k'" "length k1 = length k'" "\<forall>y\<in>set fs. lf k1 y = lf k' y"
        by (rule unlink_root_tree [OF R True])
      have t: "0 < t" "t < length k'" using sm_rep_node [OF *(2), of t] by (simp_all add: with_tree_def)
      let ?k = "set_lc t (ti_free_ptr ti) k1"
      have k: "lf ?k = (lf k1)(t := ti_free_ptr ti)" "rf ?k = rf k1" "kf ?k = kf k'" "length ?k = length k'"
        using t u by (simp_all add: node_simps)
      note J = join_rep [OF R u(2,3) k bspec [OF u(6)]]
      let ?ti = "ti\<lparr>ti_free_ptr := t, ti_t_size := size T', ti_root_ptr := x\<rparr>"
      let ?s' = "s\<lparr>t_info := Some ?ti, k_buff := ?k\<rparr>"
      have S': "sm_rep ?s' ?ti T' (t # fs)"
        using J(1,3) *(2) k(4) by (simp add: sm_rep_def with_tree_def)
      have "sm_slot ?s' = (sm_slot s)(key := None)"
        using sm_repD(4) [OF S'] J(2) *(4) True by simp
      moreover have "(ti_t_size ti + 2 ^ 32 - 1) mod 2 ^ 32 = size T'"
      proof -
        have "ti_t_size ti + 2 ^ 32 - 1 = size T' + 2 ^ 32" "size T' < 2 ^ 32"
          using J(3) d(2,3,4) inorder_eqD(2) [OF *(3)] by simp_all
        then show ?thesis by simp
      qed
      then have "sm_remove key s = Some (Some t, ?s')"
        using d(1) *(1) True u(1,5) t
        by (simp add: sm_remove_def unlink_root_def free_node_def node_simps with_tree_def Let_def split: bind_splits)
      ultimately show ?thesis
        using sm_repD(1) [OF S'] *(5) True d by (intro exI [of _ ?s']) (simp add: sm_cap_def)
    qed
  qed
qed

end
