(* ===== verification/SplaySpec.thy ===== *)
theory SplaySpec
  imports SplayOps
begin

text \<open>
  What the splay map promises: the enumeration visits every entry once in the order of the keys, a new map is
  empty, and any sequence of operations on it answers as a finite map does. The contract is the locale
  \<open>keyed_slots\<close>, which the operations of the map interpret.
\<close>

section \<open>Enumerating\<close>

text \<open>The stack of the enumeration: nodes whose left subtree was visited, with their right subtrees.\<close>

fun pstack :: "nat \<Rightarrow> (nat \<Rightarrow> nat) \<Rightarrow> (nat \<Rightarrow> nat) \<Rightarrow> (nat \<times> nat tree) list \<Rightarrow> bool" where
  "pstack n L R [] \<longleftrightarrow> True"
| "pstack n L R ((x, b) # ps) \<longleftrightarrow> 0 < x \<and> x < n \<and> ptree n L R (R x) b \<and> pstack n L R ps"

lemma length_rorder: "length ps \<le> length (rorder ps)"
  by (induction ps rule: rorder.induct) auto

lemma enum_push_pushes:
  assumes "ptree (length k) (lf k) (rf k) p T" and "length ps + size T \<le> m" and "pstack (length k) (lf k) (rf k) ps"
  shows "\<exists>ps'. enum_push k m p (map fst ps) = Some (True, map fst ps') \<and> pstack (length k) (lf k) (rf k) ps'
     \<and> rorder ps' = inorder T @ rorder ps"
  using assms
proof (induction T arbitrary: p ps)
  case Leaf
  then show ?case by (auto simp: enum_push.simps [of k m 0] intro!: exI [of _ ps])
next
  case (Node a x b)
  let ?ps = "(x, b) # ps"
  have x: "p = x" "0 < x" "x < length k" "ptree (length k) (lf k) (rf k) (lf k x) a" using Node.prems by simp_all
  have "\<exists>ps'. enum_push k m (lf k x) (map fst ?ps) = Some (True, map fst ps') \<and> pstack (length k) (lf k) (rf k) ps'
     \<and> rorder ps' = inorder a @ rorder ?ps"
    using Node.prems by (intro Node.IH(1)) auto
  then show ?case
    using x Node.prems(2) by (simp add: enum_push.simps [of k m x] node_simps)
qed

text \<open>The callback applied to the nodes of a list in turn.\<close>

fun visit_nodes :: "('k, 'v, 'c) sm_callback \<Rightarrow> 'k sm_node list \<Rightarrow> nat list \<Rightarrow> 'v list \<Rightarrow> 'c \<Rightarrow> ('v list \<times> 'c) option" where
  "visit_nodes callback k [] v c = Some (v, c)"
| "visit_nodes callback k (x # xs) v c = do {
     (y, c) \<leftarrow> callback (kf k x) (v ! x) c;
     visit_nodes callback k xs (v[x := y]) c }"

lemma enum_loop_visits:
  assumes "ptree (length k) (lf k) (rf k) p T" and "pstack (length k) (lf k) (rf k) ps"
    and "count + length (inorder T @ rorder ps) = m" and "m < 2 ^ 32"
    and "\<forall>x\<in>set (inorder T @ rorder ps). x < length v"
  shows "enum_loop callback k m p (map fst ps) count v c = visit_nodes callback k (inorder T @ rorder ps) v c"
  using assms
proof (induction "length (inorder T @ rorder ps)" arbitrary: p T ps count v c rule: less_induct)
  case less
  have p0: "p = 0 \<longleftrightarrow> T = Leaf" using ptree_zero_iff [OF less.prems(1)] .
  show ?case
  proof (cases "T = Leaf \<and> ps = []")
    case True
    then show ?thesis using p0 by (simp add: enum_loop.simps [of callback k m 0])
  next
    case False
    have "length ps + size T \<le> m" using less.prems(3) length_rorder [of ps] by simp
    then obtain ps' where push: "enum_push k m p (map fst ps) = Some (True, map fst ps')"
      "pstack (length k) (lf k) (rf k) ps'" "rorder ps' = inorder T @ rorder ps"
      using enum_push_pushes [OF less.prems(1) _ less.prems(2)] by blast
    have "inorder T @ rorder ps \<noteq> []" using False by (cases T; cases ps rule: rorder.cases) auto
    then obtain x b qs where ps': "ps' = (x, b) # qs" using push(3) by (cases ps' rule: rorder.cases) auto
    have ord: "inorder T @ rorder ps = x # inorder b @ rorder qs" using push(3) ps' by simp
    have q: "x < length k" "ptree (length k) (lf k) (rf k) (rf k x) b" "pstack (length k) (lf k) (rf k) qs"
      using push(2) ps' by simp_all
    have x: "x < length v" and cnt: "Suc count + length (inorder b @ rorder qs) = m"
      using less.prems(3,5) unfolding ord by simp_all
    then have u: "u32_of (count + 1) = Suc count" "\<not> m < Suc count" using less.prems(4) by (simp_all add: u32_of_def)
    have IH: "enum_loop callback k m (rf k x) (map fst qs) (Suc count) (v[x := y]) c'
        = visit_nodes callback k (inorder b @ rorder qs) (v[x := y]) c'" for y c'
      by (rule less.hyps) (use q cnt less.prems(4,5) ord in auto)
    have "p \<noteq> 0 \<or> map fst ps \<noteq> []" using False p0 by auto
    then have "enum_loop callback k m p (map fst ps) count v c =
        do { (y, c') \<leftarrow> callback (kf k x) (v ! x) c;
             enum_loop callback k m (rf k x) (map fst qs) (Suc count) (v[x := y]) c' }"
      using push(1) q x u
      by (simp add: enum_loop.simps [of callback k m p] ps' node_simps get_val_def set_val_def)
    then show ?thesis by (simp add: ord IH)
  qed
qed

theorem sm_enumerate_correct:
  fixes s :: "('k::linorder, 'v) splay_map"
  assumes inv: "sm_inv s"
  shows "sm_enumerate callback s c =
      map_option (\<lambda>(v, c). (s\<lparr>v_buff := v\<rparr>, c)) (visit_nodes callback (k_buff s) (sm_nodes s) (v_buff s) c)"
    and "sorted_wrt (<) (map (kf (k_buff s)) (sm_nodes s))"
    and "\<And>key n. sm_slot s key = Some n \<longleftrightarrow> n \<in> set (sm_nodes s) \<and> kf (k_buff s) n = key"
proof -
  from inv obtain ti T fs where S: "sm_rep s ti T fs" by (rule sm_invE)
  have d: "t_info s = Some ti" "ti_t_size ti = size T" "size T < 2 ^ 32"
    "ptree (length (k_buff s)) (lf (k_buff s)) (rf (k_buff s)) (ti_root_ptr ti) T"
    using S by (simp_all add: sm_rep_def tree_rep_def)
  note N = sm_repD(3) [OF S]
  have "enum_loop callback (k_buff s) (size T) (ti_root_ptr ti) [] 0 (v_buff s) c
      = visit_nodes callback (k_buff s) (inorder T) (v_buff s) c"
    using enum_loop_visits [OF d(4), of "[]" 0 "size T" "v_buff s" callback c] d(3) sm_rep_node(4) [OF S] by auto
  then show "sm_enumerate callback s c =
      map_option (\<lambda>(v, c). (s\<lparr>v_buff := v\<rparr>, c)) (visit_nodes callback (k_buff s) (sm_nodes s) (v_buff s) c)"
    using d(1,2) sm_rep_root [OF S]
    by (cases "visit_nodes callback (k_buff s) (inorder T) (v_buff s) c")
      (auto simp: sm_enumerate_def inter_enumerate_def N)
  show "sorted_wrt (<) (map (kf (k_buff s)) (sm_nodes s))"
    using sm_rep_sorted [OF S] by (simp add: N sorted_wrt_map)
  show "sm_slot s key = Some n \<longleftrightarrow> n \<in> set (sm_nodes s) \<and> kf (k_buff s) n = key" for key n
    using slots_eq_Some [OF sm_rep_sorted [OF S]] by (simp add: N sm_slot_def)
qed

section \<open>A new map\<close>

theorem sm_new_correct:
  fixes Ty :: "('k::linorder, 'v) sm_types"
  assumes "cap_fits Ty (if is = 0 then 1024 else is)"
  obtains s where "sm_new Ty True True is = Some s" "sm_inv s" "sm_slot s = Map.empty"
    "sm_cap s = (if is = 0 then 1024 else is)" "i_size s = (if is = 0 then 1024 else is)"
proof -
  let ?i = "if is = 0 then 1024 else is"
  let ?ti = "\<lparr>ti_root_ptr = 0, ti_free_ptr = 0, ti_b_size = ?i, ti_t_size = 0\<rparr>"
  let ?s = "\<lparr>t_info = Some ?ti, k_buff = replicate ?i (zero_node Ty), last_ptr = 0,
              v_buff = replicate ?i (val_zero Ty), i_size = ?i\<rparr>"
  have f: "0 < sz_node Ty" "0 < sz_val Ty" "u32_of (sizeof_tree_info + ?i * sz_node Ty) = sizeof_tree_info + ?i * sz_node Ty"
    "u32_of (?i * sz_val Ty) = ?i * sz_val Ty" "?i < 2 ^ 32"
    using assms cap_fits_lt [OF assms] unfolding cap_fits_def u32_of_def by simp_all
  have new: "sm_new Ty True True is = Some ?s"
    unfolding sm_new_def sm_init_def reallocate_memory_def reallocate_init_def Let_def with_tree_def
    using f by simp
  have "sm_rep ?s ?ti Leaf []" using f(5) by (simp add: sm_rep_def tree_rep_def)
  from sm_repD [OF this] have "sm_inv ?s" "sm_slot ?s = Map.empty" by (simp_all add: slots_def)
  then show ?thesis using that [OF new] by (simp add: sm_cap_def)
qed

text \<open>The constructor does not report that it got no memory: the first insertion then runs outside the buffers.\<close>

theorem sm_new_unchecked:
  fixes Ty :: "('k::linorder, 'v) sm_types"
  assumes "\<not> (key_ok \<and> val_ok)" and "sm_new Ty key_ok val_ok is = Some s"
  shows "sm_insert Ty ka va key x s = None"
proof (cases key_ok)
  case False
  then have "t_info s = None"
    using assms by (auto simp: sm_new_def sm_init_def reallocate_memory_def reallocate_init_def Let_def)
  then show ?thesis by (simp add: sm_insert_def)
next
  case True
  then have "t_info s = Some \<lparr>ti_root_ptr = 0, ti_free_ptr = 0, ti_b_size = 0, ti_t_size = 0\<rparr>" "v_buff s = []"
    using assms by (auto simp: sm_new_def sm_init_def reallocate_memory_def reallocate_init_def Let_def with_tree_def
        split: if_splits)
  then show ?thesis
    by (simp add: sm_insert_def u32_of_def next_free_node_def with_tree_def set_val_def split: bind_splits)
qed

section \<open>The contract\<close>

datatype ('k, 'v) map_op = OInsert 'k 'v | ORemove 'k | OFind 'k

text \<open>The operations as their callers use them: a removal reads the value from the slot it returns, a search
  reads the value it found.\<close>

fun map_step ::
    "('k \<Rightarrow> 'v \<Rightarrow> 's \<Rightarrow> (nat option \<times> 's) option) \<Rightarrow> ('k \<Rightarrow> 's \<Rightarrow> (nat option \<times> 's) option) \<Rightarrow> ('k \<Rightarrow> 's \<Rightarrow> (bool \<times> 's) option)
     \<Rightarrow> ('s \<Rightarrow> nat \<Rightarrow> 'v option) \<Rightarrow> ('s \<Rightarrow> 'v option) \<Rightarrow> ('k, 'v) map_op \<Rightarrow> 's \<Rightarrow> ('v option \<times> 's) option" where
  "map_step ins del has cell found (OInsert k x) s = do {
     (p, s) \<leftarrow> ins k x s;
     (case p of None \<Rightarrow> Some (None, s) | Some n \<Rightarrow> Some (cell s n, s)) }"
| "map_step ins del has cell found (ORemove k) s = do {
     (p, s) \<leftarrow> del k s;
     (case p of None \<Rightarrow> Some (None, s) | Some n \<Rightarrow> do { x \<leftarrow> cell s n; Some (Some x, s) }) }"
| "map_step ins del has cell found (OFind k) s = do {
     (b, s) \<leftarrow> has k s;
     if b then do { x \<leftarrow> found s; Some (Some x, s) } else Some (None, s) }"

fun map_run ::
    "('k \<Rightarrow> 'v \<Rightarrow> 's \<Rightarrow> (nat option \<times> 's) option) \<Rightarrow> ('k \<Rightarrow> 's \<Rightarrow> (nat option \<times> 's) option) \<Rightarrow> ('k \<Rightarrow> 's \<Rightarrow> (bool \<times> 's) option)
     \<Rightarrow> ('s \<Rightarrow> nat \<Rightarrow> 'v option) \<Rightarrow> ('s \<Rightarrow> 'v option) \<Rightarrow> ('k, 'v) map_op list \<Rightarrow> 's \<Rightarrow> ('v option list \<times> 's) option" where
  "map_run ins del has cell found [] s = Some ([], s)"
| "map_run ins del has cell found (op # ops) s = do {
     (r, s) \<leftarrow> map_step ins del has cell found op s;
     (rs, s) \<leftarrow> map_run ins del has cell found ops s;
     Some (r # rs, s) }"

text \<open>The same on a finite map.\<close>

fun amap_step :: "('k, 'v) map_op \<Rightarrow> ('k \<rightharpoonup> 'v) \<Rightarrow> 'v option \<times> ('k \<rightharpoonup> 'v)" where
  "amap_step (OInsert k x) m = (Some x, m(k \<mapsto> x))"
| "amap_step (ORemove k) m = (m k, m(k := None))"
| "amap_step (OFind k) m = (m k, m)"

fun amap_run :: "('k, 'v) map_op list \<Rightarrow> ('k \<rightharpoonup> 'v) \<Rightarrow> 'v option list \<times> ('k \<rightharpoonup> 'v)" where
  "amap_run [] m = ([], m)"
| "amap_run (op # ops) m = (let (r, m) = amap_step op m; (rs, m) = amap_run ops m in (r # rs, m))"

fun inserts :: "('k, 'v) map_op list \<Rightarrow> nat" where
  "inserts [] = 0"
| "inserts (OInsert k x # ops) = Suc (inserts ops)"
| "inserts (op # ops) = inserts ops"

text \<open>The value a key has, by its slot.\<close>

definition slot_value :: "('s \<Rightarrow> 'k \<rightharpoonup> nat) \<Rightarrow> ('s \<Rightarrow> nat \<Rightarrow> 'v option) \<Rightarrow> 's \<Rightarrow> 'k \<rightharpoonup> 'v" where
  "slot_value slot cell s k = Option.bind (slot s k) (cell s)"

text \<open>Each key has a slot of its own, which it keeps while other keys come and go; there is room for so many
  more insertions.\<close>

locale keyed_slots =
  fixes inv :: "'s \<Rightarrow> bool" and room :: "nat \<Rightarrow> 's \<Rightarrow> bool" and slot :: "'s \<Rightarrow> 'k \<rightharpoonup> nat" and cell :: "'s \<Rightarrow> nat \<Rightarrow> 'v option"
    and ins :: "'k \<Rightarrow> 'v \<Rightarrow> 's \<Rightarrow> (nat option \<times> 's) option" and del :: "'k \<Rightarrow> 's \<Rightarrow> (nat option \<times> 's) option"
    and has :: "'k \<Rightarrow> 's \<Rightarrow> (bool \<times> 's) option" and found :: "'s \<Rightarrow> 'v option"
  assumes ins_law: "inv s \<Longrightarrow> room (Suc n) s \<Longrightarrow> \<exists>p s'. ins k x s = Some (Some p, s') \<and> inv s' \<and> room n s'
      \<and> slot s' = (slot s)(k \<mapsto> p) \<and> cell s' p = Some x \<and> (\<forall>q\<in>ran (slot s). q \<noteq> p \<longrightarrow> cell s' q = cell s q)
      \<and> (case slot s k of Some q \<Rightarrow> p = q | None \<Rightarrow> p \<notin> ran (slot s))"
    and del_law: "inv s \<Longrightarrow> room n s \<Longrightarrow> \<exists>s'. del k s = Some (slot s k, s') \<and> inv s' \<and> room n s'
      \<and> slot s' = (slot s)(k := None) \<and> cell s' = cell s"
    and has_law: "inv s \<Longrightarrow> room n s \<Longrightarrow> \<exists>s'. has k s = Some (slot s k \<noteq> None, s') \<and> inv s' \<and> room n s'
      \<and> slot s' = slot s \<and> cell s' = cell s \<and> (\<forall>p. slot s k = Some p \<longrightarrow> found s' = cell s p)"
    and live_law: "inv s \<Longrightarrow> slot s k = Some p \<Longrightarrow> \<exists>x. cell s p = Some x"
    and inj_law: "inv s \<Longrightarrow> slot s k = Some p \<Longrightarrow> slot s k' = Some p \<Longrightarrow> k = k'"
begin

lemma lookup_inserted:
  assumes "inv s" "slot s' = (slot s)(k \<mapsto> p)" "cell s' p = Some x"
    "\<forall>q\<in>ran (slot s). q \<noteq> p \<longrightarrow> cell s' q = cell s q" "case slot s k of Some q \<Rightarrow> p = q | None \<Rightarrow> p \<notin> ran (slot s)"
  shows "slot_value slot cell s' = (slot_value slot cell s)(k \<mapsto> x)"
proof
  fix q
  show "slot_value slot cell s' q = ((slot_value slot cell s)(k \<mapsto> x)) q"
  proof (cases "q = k \<or> slot s q = None")
    case True
    then show ?thesis using assms(2,3) by (auto simp: slot_value_def)
  next
    case False
    then obtain r where r: "slot s q = Some r" "q \<noteq> k" by auto
    then have "r \<in> ran (slot s)" by (auto simp: ran_def)
    moreover have "r \<noteq> p" using assms(1,5) r inj_law [of s q r k] by (auto simp: ran_def split: option.splits)
    ultimately show ?thesis using assms(2,4) r by (simp add: slot_value_def)
  qed
qed

lemma step_refines:
  assumes "inv s" and "room (inserts (op # ops)) s"
  obtains s' where "map_step ins del has cell found op s = Some (fst (amap_step op (slot_value slot cell s)), s')" "inv s'"
    "room (inserts ops) s'" "slot_value slot cell s' = snd (amap_step op (slot_value slot cell s))"
proof (cases op)
  case (OInsert k x)
  with assms obtain p s' where "ins k x s = Some (Some p, s')" "inv s'" "room (inserts ops) s'"
    "slot s' = (slot s)(k \<mapsto> p)" "cell s' p = Some x" "\<forall>q\<in>ran (slot s). q \<noteq> p \<longrightarrow> cell s' q = cell s q"
    "case slot s k of Some q \<Rightarrow> p = q | None \<Rightarrow> p \<notin> ran (slot s)"
    using ins_law [of s "inserts ops" k x] by auto
  with OInsert assms show ?thesis using that [of s'] lookup_inserted [of s s' k p x] by simp
next
  case (ORemove k)
  with assms obtain s' where s': "del k s = Some (slot s k, s')" "inv s'" "room (inserts ops) s'"
    "slot s' = (slot s)(k := None)" "cell s' = cell s"
    using del_law [of s "inserts ops" k] by auto
  have "slot_value slot cell s' = (slot_value slot cell s)(k := None)" using s' by (auto simp: slot_value_def)
  moreover have "map_step ins del has cell found op s = Some (slot_value slot cell s k, s')"
    using s' ORemove live_law [OF assms(1), of k] by (auto simp: slot_value_def split: option.splits)
  ultimately show ?thesis using that [of s'] s' ORemove by simp
next
  case (OFind k)
  with assms obtain s' where s': "has k s = Some (slot s k \<noteq> None, s')" "inv s'" "room (inserts ops) s'"
    "slot s' = slot s" "cell s' = cell s" "\<forall>p. slot s k = Some p \<longrightarrow> found s' = cell s p"
    using has_law [of s "inserts ops" k] by auto
  have "slot_value slot cell s' = slot_value slot cell s" using s' by (auto simp: slot_value_def)
  moreover have "map_step ins del has cell found op s = Some (slot_value slot cell s k, s')"
    using s' OFind live_law [OF assms(1), of k] by (auto simp: slot_value_def split: option.splits)
  ultimately show ?thesis using that [of s'] s' OFind by simp
qed

lemma run_refines:
  "inv s \<Longrightarrow> room (inserts ops) s \<Longrightarrow> \<exists>s'. map_run ins del has cell found ops s = Some (fst (amap_run ops (slot_value slot cell s)), s')
     \<and> inv s' \<and> slot_value slot cell s' = snd (amap_run ops (slot_value slot cell s))"
proof (induction ops arbitrary: s)
  case (Cons op ops)
  obtain s1 where s1: "map_step ins del has cell found op s = Some (fst (amap_step op (slot_value slot cell s)), s1)" "inv s1"
    "room (inserts ops) s1" "slot_value slot cell s1 = snd (amap_step op (slot_value slot cell s))"
    by (rule step_refines [OF Cons.prems])
  from Cons.IH [OF s1(2,3)] show ?case using s1(1,4) by (auto simp: split_beta Let_def)
qed simp

end

section \<open>The splay map keeps the contract\<close>

definition sm_room :: "('k, 'v) sm_types \<Rightarrow> nat \<Rightarrow> ('k, 'v) splay_map \<Rightarrow> bool" where
  "sm_room Ty n s \<longleftrightarrow> cap_fits Ty (sm_cap s + n * i_size s)"

definition sm_cell :: "('k, 'v) splay_map \<Rightarrow> nat \<Rightarrow> 'v option" where
  "sm_cell s p = sm_get p s"

lemma sm_slot_inside:
  assumes "sm_inv s" "sm_slot s key = Some p"
  shows "0 < p" "p < length (v_buff s)"
proof -
  from assms(1) obtain ti T fs where S: "sm_rep s ti T fs" by (rule sm_invE)
  have "p \<in> nodes T"
    using assms(2) sm_repD(4) [OF S] slots_eq_Some [OF sm_rep_sorted [OF S]] by simp
  then show "0 < p" "p < length (v_buff s)" using sm_rep_node [OF S] by auto
qed

lemma sm_slot_inj: "sm_inv s \<Longrightarrow> sm_slot s k = Some p \<Longrightarrow> sm_slot s k' = Some p \<Longrightarrow> k = k'"
  using sm_enumerate_correct(3) by metis

lemma sm_insert_law:
  assumes "sm_inv s" "sm_room Ty (Suc n) s"
  shows "\<exists>p s'. sm_insert Ty True True k x s = Some (Some p, s') \<and> sm_inv s' \<and> sm_room Ty n s'
      \<and> sm_slot s' = (sm_slot s)(k \<mapsto> p) \<and> sm_cell s' p = Some x
      \<and> (\<forall>q\<in>ran (sm_slot s). q \<noteq> p \<longrightarrow> sm_cell s' q = sm_cell s q)
      \<and> (case sm_slot s k of Some q \<Rightarrow> p = q | None \<Rightarrow> p \<notin> ran (sm_slot s))"
proof -
  have "cap_fits Ty (sm_cap s + i_size s)"
    using assms(2) by (auto simp: sm_room_def intro: cap_fits_mono)
  then obtain p s' where *: "sm_insert Ty True True k x s = Some (Some p, s')" "sm_inv s'" "sm_slot s' = (sm_slot s)(k \<mapsto> p)"
    "case sm_slot s k of Some m \<Rightarrow> p = m | None \<Rightarrow> p \<notin> ran (sm_slot s)" "\<exists>vs. v_buff s' = (v_buff s @ vs)[p := x]"
    "p < length (v_buff s')" "sm_cap s' = (if sm_full s then sm_cap s + i_size s else sm_cap s)" "i_size s' = i_size s"
    using sm_insert_correct [OF assms(1), of Ty True True k x] by auto
  have "sm_cap s' + n * i_size s' \<le> sm_cap s + Suc n * i_size s" using *(7,8) by simp
  then have "sm_room Ty n s'" using assms(2) cap_fits_mono by (auto simp: sm_room_def)
  moreover have "sm_cell s' p = Some x" using *(5,6) by (auto simp: sm_cell_def sm_get_def get_val_def)
  moreover have "\<forall>q\<in>ran (sm_slot s). q \<noteq> p \<longrightarrow> sm_cell s' q = sm_cell s q"
    using *(5) sm_slot_inside(2) [OF assms(1)]
    by (auto simp: ran_def sm_cell_def sm_get_def get_val_def nth_append)
  ultimately show ?thesis using * by blast
qed

lemma sm_remove_law:
  assumes "sm_inv s" "sm_room Ty n s"
  shows "\<exists>s'. sm_remove k s = Some (sm_slot s k, s') \<and> sm_inv s' \<and> sm_room Ty n s'
      \<and> sm_slot s' = (sm_slot s)(k := None) \<and> sm_cell s' = sm_cell s"
  using sm_remove_correct [OF assms(1), of k] assms(2) by (auto simp: sm_room_def sm_cell_def sm_get_def fun_eq_iff)

lemma sm_exist_law:
  assumes "sm_inv s"
  shows "\<exists>s'. sm_exist k s = Some (sm_slot s k \<noteq> None, s') \<and> sm_inv s' \<and> (sm_room Ty n s \<longrightarrow> sm_room Ty n s')
      \<and> sm_slot s' = sm_slot s \<and> v_buff s' = v_buff s \<and> (\<forall>p. sm_slot s k = Some p \<longrightarrow> sm_root_ptr s' = Some p \<and> last_ptr s' = p)"
proof -
  from assms obtain ti T fs where S: "sm_rep s ti T fs" by (rule sm_invE)
  obtain s' ti' T' where *: "sm_exist k s = Some (sm_slot s k \<noteq> None, s')" "sm_rep s' ti' T' fs"
    "sm_slot s' = sm_slot s" "v_buff s' = v_buff s" "size T' = size T" "ti_b_size ti' = ti_b_size ti" "i_size s' = i_size s"
    "last_ptr s' = (case sm_slot s k of None \<Rightarrow> 0 | Some n \<Rightarrow> n)"
    "\<forall>n. sm_slot s k = Some n \<longrightarrow> ti_root_ptr ti' = n"
    by (rule sm_exist_rep [OF S, of k])
  have "t_info s = Some ti" "t_info s' = Some ti'" using S *(2) by (simp_all add: sm_rep_def)
  then show ?thesis
    using * sm_repD(1) [OF *(2)] by (intro exI [of _ s']) (auto simp: sm_room_def sm_cap_def sm_root_ptr_def)
qed

interpretation splay: keyed_slots sm_inv "sm_room Ty" sm_slot sm_cell "sm_insert Ty True True" sm_remove sm_exist sm_find
  for Ty
proof
  fix s :: "('a, 'b) splay_map" and n k and x :: 'b
  assume "sm_inv s" "sm_room Ty (Suc n) s"
  then show "\<exists>p s'. sm_insert Ty True True k x s = Some (Some p, s') \<and> sm_inv s' \<and> sm_room Ty n s'
      \<and> sm_slot s' = (sm_slot s)(k \<mapsto> p) \<and> sm_cell s' p = Some x
      \<and> (\<forall>q\<in>ran (sm_slot s). q \<noteq> p \<longrightarrow> sm_cell s' q = sm_cell s q)
      \<and> (case sm_slot s k of Some q \<Rightarrow> p = q | None \<Rightarrow> p \<notin> ran (sm_slot s))"
    by (rule sm_insert_law)
next
  fix s :: "('a, 'b) splay_map" and n k
  assume "sm_inv s" "sm_room Ty n s"
  then show "\<exists>s'. sm_remove k s = Some (sm_slot s k, s') \<and> sm_inv s' \<and> sm_room Ty n s'
      \<and> sm_slot s' = (sm_slot s)(k := None) \<and> sm_cell s' = sm_cell s"
    by (rule sm_remove_law)
next
  fix s :: "('a, 'b) splay_map" and n k
  assume "sm_inv s" "sm_room Ty n s"
  then show "\<exists>s'. sm_exist k s = Some (sm_slot s k \<noteq> None, s') \<and> sm_inv s' \<and> sm_room Ty n s'
      \<and> sm_slot s' = sm_slot s \<and> sm_cell s' = sm_cell s \<and> (\<forall>p. sm_slot s k = Some p \<longrightarrow> sm_find s' = sm_cell s p)"
    using sm_exist_law [of s k Ty n] by (auto simp: sm_cell_def sm_get_def sm_find_def fun_eq_iff)
next
  fix s :: "('a, 'b) splay_map" and k p
  assume "sm_inv s" "sm_slot s k = Some p"
  then show "\<exists>x. sm_cell s p = Some x"
    using sm_slot_inside(2) by (fastforce simp: sm_cell_def sm_get_def get_val_def)
next
  fix s :: "('a, 'b) splay_map" and k k' p
  assume "sm_inv s" "sm_slot s k = Some p" "sm_slot s k' = Some p"
  then show "k = k'" by (rule sm_slot_inj)
qed

section \<open>What callers can rely on\<close>

text \<open>
  C8: Any sequence of insertions, removals and searches on a new splay map returns, stays inside the buffers and
  gives the answers of a finite map, as long as the memory can be had and its sizes fit into 32 bits; the map
  then holds what the finite map holds.
\<close>

theorem splay_map_refines:
  fixes Ty :: "('k::linorder, 'v) sm_types"
  assumes "cap_fits Ty ((inserts ops + 1) * (if is = 0 then 1024 else is))"
  shows "\<exists>s s'. sm_new Ty True True is = Some s
    \<and> map_run (sm_insert Ty True True) sm_remove sm_exist sm_cell sm_find ops s = Some (fst (amap_run ops Map.empty), s')
    \<and> sm_inv s' \<and> slot_value sm_slot sm_cell s' = snd (amap_run ops Map.empty)"
proof -
  let ?i = "if is = 0 then 1024 else is"
  have "cap_fits Ty ?i" by (rule cap_fits_mono [OF assms]) simp
  then obtain s where s: "sm_new Ty True True is = Some s" "sm_inv s" "sm_slot s = Map.empty" "sm_cap s = ?i" "i_size s = ?i"
    by (rule sm_new_correct)
  have "sm_room Ty (inserts ops) s" using assms s(4,5) by (simp add: sm_room_def add.commute)
  from splay.run_refines [OF s(2) this]
  have "\<exists>s'. map_run (sm_insert Ty True True) sm_remove sm_exist sm_cell sm_find ops s
      = Some (fst (amap_run ops (slot_value sm_slot sm_cell s)), s')
      \<and> sm_inv s' \<and> slot_value sm_slot sm_cell s' = snd (amap_run ops (slot_value sm_slot sm_cell s))" .
  moreover have "slot_value sm_slot sm_cell s = Map.empty" using s(3) by (simp add: slot_value_def fun_eq_iff)
  ultimately show ?thesis using s(1) by auto
qed

definition demo_types :: "(nat, nat) sm_types" where
  "demo_types = \<lparr>sz_node = 16, sz_val = 8, key_zero = 0, val_zero = 0\<rparr>"

theorem splay_map_refines_witness:
  "\<exists>s s'. sm_new demo_types True True 2 = Some s
    \<and> map_run (sm_insert demo_types True True) sm_remove sm_exist sm_cell sm_find
        [OInsert 5 50, OInsert 3 30, OInsert 8 80, ORemove 5, OFind 3, OFind 5, OInsert 3 31, OFind 3] s
      = Some ([Some 50, Some 30, Some 80, Some 50, Some 30, None, Some 31, Some 31], s')"
proof -
  have "cap_fits demo_types ((inserts [OInsert 5 50, OInsert 3 30, OInsert 8 80, ORemove 5, OFind 3, OFind 5, OInsert 3 31, OFind 3] + 1)
      * (if (2::nat) = 0 then 1024 else 2))"
    by (simp add: cap_fits_def demo_types_def sizeof_tree_info_def)
  from splay_map_refines [OF this] show ?thesis by auto
qed

text \<open>
  C9: An insertion of a key that is there replaces the value in its slot; one of a new key takes a slot no other
  key has. All other keys keep their slots and values, and the new value is at the root. When the buffers are full
  and cannot grow the insertion fails and leaves all slots and values as they are. Where the buffers are full, their sizes
  in bytes after the growth fit into 32 bits (\<open>cap_fits\<close>).
\<close>

theorem splay_insert_slots:
  fixes s :: "('k::linorder, 'v) splay_map"
  assumes "sm_inv s" and "sm_full s \<Longrightarrow> cap_fits Ty (sm_cap s + i_size s)"
  shows "\<exists>s'. sm_inv s' \<and> (if sm_full s \<and> \<not> (key_ok \<and> val_ok)
     then sm_insert Ty key_ok val_ok key x s = Some (None, s') \<and> sm_slot s' = sm_slot s \<and> sm_cell s' = sm_cell s
     else \<exists>n. sm_insert Ty key_ok val_ok key x s = Some (Some n, s') \<and> sm_slot s' = (sm_slot s)(key \<mapsto> n)
          \<and> (case sm_slot s key of Some m \<Rightarrow> n = m | None \<Rightarrow> n \<notin> ran (sm_slot s))
          \<and> sm_cell s' n = Some x \<and> (\<forall>q\<in>ran (sm_slot s). q \<noteq> n \<longrightarrow> sm_cell s' q = sm_cell s q) \<and> sm_root_ptr s' = Some n)"
proof (cases "sm_full s \<and> \<not> (key_ok \<and> val_ok)")
  case True
  obtain s' where "sm_insert Ty key_ok val_ok key x s = Some (None, s')" "sm_inv s'" "sm_slot s' = sm_slot s" "v_buff s' = v_buff s"
    using sm_insert_correct [OF assms, of key_ok val_ok key x] True by auto
  then show ?thesis using True by (intro exI [of _ s']) (auto simp: sm_cell_def sm_get_def fun_eq_iff)
next
  case False
  obtain n s' vs where *: "sm_insert Ty key_ok val_ok key x s = Some (Some n, s')" "sm_inv s'" "sm_slot s' = (sm_slot s)(key \<mapsto> n)"
    "case sm_slot s key of Some m \<Rightarrow> n = m | None \<Rightarrow> n \<notin> ran (sm_slot s)" "v_buff s' = (v_buff s @ vs)[n := x]"
    "n < length (v_buff s')" "sm_root_ptr s' = Some n"
    using sm_insert_correct [OF assms, of key_ok val_ok key x] False by auto
  have "sm_cell s' n = Some x" using *(5,6) by (auto simp: sm_cell_def sm_get_def get_val_def)
  moreover have "\<forall>q\<in>ran (sm_slot s). q \<noteq> n \<longrightarrow> sm_cell s' q = sm_cell s q"
    using *(5) sm_slot_inside(2) [OF assms(1)] by (auto simp: ran_def sm_cell_def sm_get_def get_val_def nth_append)
  ultimately show ?thesis using * False by (intro exI [of _ s']) auto
qed

text \<open>A map with one key whose buffers are full.\<close>

definition demo_map :: "(nat, nat) splay_map" where
  "demo_map = \<lparr>t_info = Some \<lparr>ti_root_ptr = 1, ti_free_ptr = 0, ti_b_size = 2, ti_t_size = 1\<rparr>,
     k_buff = [\<lparr>sn_key = 0, sn_left = 0, sn_right = 0\<rparr>, \<lparr>sn_key = 5, sn_left = 0, sn_right = 0\<rparr>],
     last_ptr = 0, v_buff = [0, 50], i_size = 2\<rparr>"

lemma demo_map_rep:
  "sm_rep demo_map \<lparr>ti_root_ptr = 1, ti_free_ptr = 0, ti_b_size = 2, ti_t_size = 1\<rparr> (Node Leaf 1 Leaf) []"
  by (auto simp: sm_rep_def tree_rep_def demo_map_def lf_def rf_def)

lemma demo_map_facts:
  "sm_inv demo_map" "sm_full demo_map" "cap_fits demo_types (sm_cap demo_map + i_size demo_map)" "sm_nodes demo_map = [1]"
  using sm_repD [OF demo_map_rep]
  by (simp_all add: sm_full_def sm_cap_def demo_map_def cap_fits_def demo_types_def sizeof_tree_info_def)

theorem splay_insert_slots_witness:
  "\<exists>s'. sm_inv s' \<and> sm_insert demo_types True False 7 70 demo_map = Some (None, s') \<and> sm_slot s' = sm_slot demo_map
     \<and> sm_cell s' = sm_cell demo_map"
  using splay_insert_slots [of demo_map demo_types True False 7 70] demo_map_facts(1,2,3) by simp

text \<open>
  C10: The enumeration of a splay map returns after it gave its callback every entry exactly once in increasing order
  of the keys, with what the callback stored into the values kept.
\<close>

theorem splay_enumerate_ordered:
  fixes s :: "('k::linorder, 'v) splay_map"
  assumes "sm_inv s"
  shows "sm_enumerate callback s c =
      map_option (\<lambda>(v, c). (s\<lparr>v_buff := v\<rparr>, c)) (visit_nodes callback (k_buff s) (sm_nodes s) (v_buff s) c)
    \<and> sorted_wrt (<) (map (kf (k_buff s)) (sm_nodes s))
    \<and> (\<forall>key n. sm_slot s key = Some n \<longleftrightarrow> n \<in> set (sm_nodes s) \<and> kf (k_buff s) n = key)"
  by (intro conjI allI) (rule sm_enumerate_correct [OF assms])+

theorem splay_enumerate_ordered_witness:
  "sm_enumerate (\<lambda>k x c. Some (x + 1, c @ [(k, x)])) demo_map [] = Some (demo_map\<lparr>v_buff := [0, 51]\<rparr>, [(5, 50)])"
  using splay_enumerate_ordered [OF demo_map_facts(1), of "\<lambda>k x c. Some (x + 1, c @ [(k, x)])" "[]"]
  by (simp add: demo_map_facts(4)) (simp add: demo_map_def kf_def)

end
