(* ===== verification/Spec2Isabelle.thy ===== *)
theory Spec2Isabelle
  imports Md5 XhRefresh XhThreads SemiDlfcn IoHook QutMerge QutUnwind MgInstall SplaySpec
begin

text \<open>
  Matrix is an application performance monitor for Android. Its native half intercepts calls of the
  system libraries: \<open>libxhook\<close> rewrites the slots of loaded ELF images, \<open>libsemi_dlfcn\<close> finds libraries
  and symbols the linker hides, and the monitors built on them, such as \<open>matrix-io-canary\<close>, record what
  the intercepted calls do; \<open>matrix-backtrace\<close> unwinds stacks with precompiled tables; \<open>memguard\<close> in \<open>matrix-hooks\<close> puts some
  allocations between inaccessible pages to catch memory errors. This library models these parts from their sources
  under \<open>src/sample-android/\<close> for the 64-bit ARM build (LP64, little-endian).

  \<^bold>\<open>How the parts interact.\<close> A client registers hook requests (\<open>xhook.c\<close>, \<open>xhook_ext.c\<close> into \<open>xh_core.c\<close>).
  A refresh reads \<open>/proc/self/maps\<close> (\<open>xh_maps.c\<close>), keeps the libraries that requests match in a red-black
  tree (\<open>tree.h\<close>), initialises a view of each ELF image (\<open>xh_elf.c\<close>) and replaces the requested slots,
  after looking up and changing page protections (\<open>xh_util.c\<close>). The I/O monitor hooks \<open>open\<close>, \<open>read\<close>,
  \<open>write\<close> and \<open>close\<close> this way, keeps a record per descriptor, and hands the record over a queue to a thread
  whose detectors report issues under an MD5 key (\<open>md5.c\<close>). The unwinder turns the unwind information of a library
  into instructions, encodes them (\<open>QuickenInstructions.h\<close>), packs them into a table (\<open>QuickenTableGenerator.cpp\<close>), and
  walks a stack by looking each program counter up in the table of its mapping (\<open>QuickenMaps.cpp\<close>,
  \<open>QuickenInterface.cpp\<close>) and interpreting what it finds there (\<open>QuickenTable.cpp\<close>, \<open>QuickenUnwinder.cpp\<close>). The guard hooks
  the allocation functions (\<open>Interception.cpp\<close>), takes a sample of the allocations (\<open>Allocation.cpp\<close>) into slots between
  guard pages (\<open>PagePool.cpp\<close>), and reports the faults there from a signal handler (\<open>SignalHandler.cpp\<close>, \<open>Issue.cpp\<close>).

  \<^bold>\<open>Conventions.\<close> Fixed-width integers are words, except in the I/O monitor where signed sums are
  integers with overflow written out as undefined. Process memory is a partial map from addresses to
  bytes; a computation returns a value or ends in \<open>Segv\<close> (unmapped access), \<open>Undef\<close> (behaviour C leaves
  undefined), \<open>Hang\<close> (a loop that never ends) or \<open>Abort\<close>, and what it changed before stays changed. A
  structure kept in foreign memory (ELF tables) is read through its field offsets; structures of the
  library itself are records. Strings have no terminator; a nullable pointer to one is an option. Kernel and
  C library services are the fields of a record of functions (\<open>World\<close>), with the documented behaviour the code
  relies on as the hypothesis \<open>kernel_laws\<close>, which \<open>plain_os\<close> satisfies. Loops that may not end are
  \<open>partial_function (option)\<close>, where no value means that the loop runs forever. That they end is proved on every input
  for the loops over relocations, whose plain tables must not reach the top of the address space; over tables that meet a stated
  condition for the chains of the two hash tables (\<open>chains_end\<close>, which well-formed tables satisfy; a \<open>DT_HASH\<close> chain that runs in a circle is
  followed for ever) and for the search of \<open>FindEntry\<close> (tables of the generator). The binary search of \<open>xh_maps_query\<close> is proved not to
  end for some addresses. The one use of fuel is \<open>strlen\<close> in \<open>MgIntercept\<close>, with one unit per address: a string
  that has no end in \<open>2 ^ 64\<close> bytes has none at all.

  \<^bold>\<open>Theories.\<close>
  \<^item> \<open>Prelude\<close>, \<open>Machine\<close>, \<open>World\<close>: words and byte lists; outcomes, commands, memory, C strings, \<open>fgets\<close> and
    \<open>sscanf\<close>; the state of the process and the services of the system.
  \<^item> \<open>Md5\<close> (\<open>md5/md5.c\<close>): the digest equals that of RFC 1321 for every buffer and every way of cutting a message
    into pieces; its hexadecimal form reads back.
  \<^item> \<open>XhMaps\<close> (\<open>xh_maps.c\<close>): a refresh of the cache keeps exactly the named lines of the file, inside its array; an
    iteration calls its callback in order; nested iterations drop the lock of the outer one; a query may hang.
  \<^item> \<open>XhUtil\<close> (\<open>xh_util.c\<close>, \<open>xh_errno.h\<close>): page ranges, protection lookup, safe writes.
  \<^item> \<open>XhReloc\<close>, \<open>XhElf\<close>, \<open>XhHook\<close> (\<open>xh_elf.c\<close>, \<open>xh_elf.h\<close>): the SLEB128 decoder and the packed relocation iterator
    invert their encodings; symbol lookup over both hash tables is correct over well-formed tables and sound over
    any; initialisation establishes where the tables of the view lie; a hook ends whatever the relocation tables hold, if the
    chains of the hash table do not trap its search; it replaces matching slots and touches nothing below the image but the saved pointer.
  \<^item> \<open>RbTree\<close> (\<open>tree.h\<close>): insertion, removal, search and iteration over a tree with parent pointers, modelled with
    zippers. The locale \<open>rb_keyed\<close> states the contract of an ordering and proves that the operations act as a
    finite map and keep the red-black invariant; it is interpreted for the tree of libraries and the tree of
    request groups.
  \<^item> \<open>XhCore\<close>, \<open>XhRefresh\<close>, \<open>XhThreads\<close> (\<open>xh_core.c\<close>, \<open>xhook.c\<close>, \<open>xhook_ext.c\<close>): every operation of the core. A refresh
    leaves exactly the wanted, loaded, valid libraries in the tree, and a second one changes nothing; requests are
    applied as filtered by the ignore rules; SIGSEGV protection turns faults into error codes. \<open>XhThreads\<close> has the refresh
    thread and its callers as a step relation over the mutex and the read-write lock, the latter as bionic has it: a thread that holds the
    block excludes every refresh as long as no holder refreshes itself and nobody unblocks what it does not hold; what a
    holder's own refresh does, to give up its block or to deadlock, is proved as well.
  \<^item> \<open>SemiDlfcn\<close> (\<open>semi_dlfcn.c\<close>): opening a loaded library by the end of its name and looking a symbol up in the
    tables of its file.
  \<^item> \<open>IoCollect\<close>, \<open>IoDetect\<close>, \<open>IoQueue\<close>, \<open>IoHook\<close> (\<open>matrix-io-canary\<close>): the collector implements the trace of reported calls; the
    locale \<open>file_io_detector\<close> is the contract of a detector, interpreted for all three; every closed file is
    examined exactly once, in order, and reported at most once per detector and key. \<open>IoHook\<close> (\<open>io_canary_jni.cc\<close>)
    has the proxies over the original functions, which are an argument (\<open>io_originals\<close>): they hand on all their arguments, return what
    the originals return and report the calls of the main thread; and their installation with the hook library, which does not
    fault under protection and closes the handles it opens.
  \<^item> \<open>QutCode\<close>, \<open>QutTable\<close>, \<open>QutExec\<close>, \<open>QutPack\<close>, \<open>QutStep\<close> (\<open>matrix-backtrace\<close>): encoder, interpreter, generator and one step of
    unwinding. \<open>QutExec\<close> gives the instructions a meaning; a step over a packed table has the meaning of the
    instructions packed, for every program counter. What the encoding loses is stated too.
  \<^item> \<open>QutMerge\<close>: merging two sources of unwind entries covers the addresses of both, but attributes some to the
    wrong instructions.
  \<^item> \<open>QutUnwind\<close>: the search of the mappings and the walk over the frames, which returns and stays inside the
    caller's array. The locales \<open>stepper\<close> and \<open>safe_stepper\<close> are the contract of a step, interpreted for both kinds.
  \<^item> \<open>MgPool\<close>, \<open>MgInv\<close> (\<open>memguard/util/PagePool.cpp\<close>, \<open>Auxiliary.h\<close>, \<open>port/Memory.cpp\<close>, \<open>Random.cpp\<close>): the pool of slots. The state is
    the record \<open>pool\<close>, with the protection of every page; \<open>pool_inv\<close> is its invariant: the layout of the area, the books on
    free and borrowed slots, blocks inside their slots and accessible, everything else in the area not writable. Borrowing
    and returning a slot keep it; returning a slot twice faults.
  \<^item> \<open>MgAlloc\<close>, \<open>MgSample\<close>, \<open>MgHeap\<close> (\<open>Allocation.cpp\<close>): the sampling, which guards one of so many allocations, and guarded
    allocation and release as operations on the map of live blocks. The locale \<open>block_store\<close> is the contract of an
    allocator and serves its clients; it is interpreted for the guarded heap. The guard pages catch the accesses beside a block.
  \<^item> \<open>MgIssue\<close> (\<open>Issue.cpp\<close>, \<open>SignalHandler.cpp\<close>): uses after free, double frees, overflows and underflows are
    reported as such, about the right block. Where an access of the guard itself faults, the pool keeps the address
    (\<open>fault_addr\<close>), as the kernel does for the handler; the report of a double free is about that address.
  \<^item> \<open>MgIntercept\<close> (\<open>Interception.cpp\<close>): the handlers that replace the functions of C and C++, over the system's own, which are
    an argument; what is assumed of \<open>malloc\<close> is \<open>malloc_contract\<close>. \<open>MgInstall\<close> (\<open>MemGuard.cpp\<close>): the installation.
  \<^item> \<open>SplayMap\<close>, \<open>SplayInv\<close>, \<open>SplayOps\<close>, \<open>SplaySpec\<close> (\<open>matrix-hooks/src/main/cpp/common/struct/splay_map.h\<close>): the ordered map of the memory
    hook, a top-down splay tree in arrays that grow. \<open>SplayInv\<close> follows the loop of a search with the two side trees as lists of
    frames: it returns and keeps the order of the nodes. \<open>sm_inv\<close> in \<open>SplayOps\<close> is the invariant: the tree, the chain of free nodes
    and the sizes of the buffers; \<open>sm_slot\<close>, the node of every key, is the abstract value, and a key keeps its node. The locale
    \<open>keyed_slots\<close> is the contract of such a map, with sequences of operations answering as a finite map; it is interpreted for the
    splay map.

  \<^bold>\<open>Not modelled.\<close> Log output and the debug dumps; JNI glue; the freeing of memory by the hook library, the monitor and the unwinder;
  the splay tree macros of \<open>tree.h\<close>, which nothing uses; 32-bit builds and other byte orders; concurrent access
  to memory by other threads of the process during a hook. Of the unwinder: the 32-bit codes, the decoders of
  DWARF and exidx sections, which use the vendored libunwindstack, table files and their manager, and JIT
  descriptors; where a table comes from is an argument of the model. Of the guard: the dump file, the making of the report thread (which thread it
  is, and whether it runs, is an argument of the handler), the symbols of return addresses, and the registration of its hooks; its operations are
  taken one at a time, with the thread variables of the thread that calls. Of the memory hook only its map is modelled,
  without the counters of its buffers. Java and Kotlin code, the vendored libraries and the other C++ monitors are outside this library.
\<close>

end
